(* ===== verification/DKV_Prelude.thy ===== *)
theory DKV_Prelude
  imports Main "HOL-Library.Word"
begin

unbundle bit_operations_syntax

text \<open>
  Shared vocabulary of the development.

  \<^item> The machine types of the C++ sources: \<open>u8\<close> (\<^verbatim>\<open>unsigned char\<close>), \<open>u32\<close> (\<^verbatim>\<open>uint\<close>,
    \<^verbatim>\<open>uint4\<close>, \<^verbatim>\<open>size_type\<close>) and \<open>u64\<close> (\<^verbatim>\<open>unsigned long\<close>, \<^verbatim>\<open>size_t\<close>); all arithmetic on
    them wraps around as it does in C++.
  \<^item> \<open>fault\<close>: what an operation does instead of returning: a failed assertion, undefined
    behaviour, a C++ exception, the end of the process, or a loop that does not end. A fallible operation has the
    type \<open>fault + 'a\<close>, and \<open>and_then\<close> sequences two of them.
  \<^item> The named collections \<open>fault_simps\<close> (equations of the fault type), \<open>shard_simps\<close>
    (facts on shard intervals), \<open>word_nat_simps\<close> (transfer of \<open>u32\<close> arithmetic to \<open>nat\<close>).
  \<^item> Lemmas on words, lists and lists of blocks that several components use.
\<close>

named_theorems fault_simps
named_theorems shard_simps
named_theorems word_nat_simps

type_synonym u8 = "8 word"
type_synonym u32 = "32 word"
type_synonym u64 = "64 word"

section \<open>Faults\<close>

datatype fault =
    Assertion_Failed
  | Undefined_Behaviour
  | Invalid_Argument
  | Out_Of_Range
  | Process_Exit
  | Diverges

definition and_then :: "fault + 'a \<Rightarrow> ('a \<Rightarrow> fault + 'b) \<Rightarrow> fault + 'b" where
  "and_then m f = (case m of Inl e \<Rightarrow> Inl e | Inr x \<Rightarrow> f x)"

definition is_ok :: "'e + 'a \<Rightarrow> bool" where
  "is_ok m = (case m of Inl _ \<Rightarrow> False | Inr _ \<Rightarrow> True)"

lemma and_then_Inl [simp, fault_simps]: "and_then (Inl e) f = Inl e"
  by (simp add: and_then_def)

lemma and_then_Inr [simp, fault_simps]: "and_then (Inr x) f = f x"
  by (simp add: and_then_def)

lemma and_then_eq_Inr [fault_simps]:
  "and_then m f = Inr y \<longleftrightarrow> (\<exists>x. m = Inr x \<and> f x = Inr y)"
  by (cases m) auto

lemma and_then_assoc: "and_then (and_then m f) g = and_then m (\<lambda>x. and_then (f x) g)"
  by (cases m) auto

lemma is_ok_simps [simp, fault_simps]: "is_ok (Inr x)" "\<not> is_ok (Inl e)"
  by (simp_all add: is_ok_def)

lemma is_ok_iff: "is_ok m \<longleftrightarrow> (\<exists>x. m = Inr x)"
  by (cases m) auto

section \<open>gRPC statuses\<close>

text \<open>
  The result of a handler and of a remote call: \<^verbatim>\<open>grpc::Status::OK\<close>, or a code with a message.
  The handlers only build the first three codes; a transport failure reaches a caller as any
  other one.
\<close>

datatype status_code = NOT_FOUND | ALREADY_EXISTS | INVALID_ARGUMENT | UNAVAILABLE

datatype grpc_status = OK | Status status_code string

fun status_ok :: "grpc_status \<Rightarrow> bool" where
  "status_ok OK = True"
| "status_ok (Status _ _) = False"

section \<open>Words\<close>

lemma unat_minus_one_pos [word_nat_simps]:
  fixes x y :: "'a::len word"
  assumes "y < x"
  shows "unat (x - 1) = unat x - 1"
proof -
  have "x \<noteq> 0" using assms by auto
  then show ?thesis by (simp add: unat_minus_one)
qed

lemma unat_plus_one_less [word_nat_simps]:
  fixes x y :: "'a::len word"
  assumes "x < y"
  shows "unat (x + 1) = unat x + 1"
proof -
  have "unat x < unat y" using assms by (simp add: word_less_nat_alt)
  then have "unat x + 1 < 2 ^ LENGTH('a)" using unsigned_less [of y, where ?'a = nat] by linarith
  then show ?thesis by (simp add: unat_word_ariths)
qed

lemma unat_of_nat_u32 [word_nat_simps]:
  "n < 4294967296 \<Longrightarrow> unat (of_nat n :: u32) = n"
  by (simp add: unat_of_nat take_bit_eq_mod)


section \<open>Lists\<close>

lemma count_list_distinct:
  "distinct xs \<Longrightarrow> count_list xs x = (if x \<in> set xs then 1 else 0)"
  by (induction xs) auto

lemma length_filter_eq_distinct:
  "distinct xs \<Longrightarrow> length (filter (\<lambda>y. y = x) xs) = (if x \<in> set xs then 1 else 0)"
  by (induction xs) auto


section \<open>Services\<close>

text \<open>
  A service handles one request after the other; \<open>run_requests\<close> is a whole session, which stops
  at the first fault. The locale states the contract of a service whose invariant every valid
  request keeps: it never faults, whatever the session.
\<close>

primrec run_requests :: "('s \<Rightarrow> 'r \<Rightarrow> fault + 's \<times> 'p) \<Rightarrow> 's \<Rightarrow> 'r list \<Rightarrow> fault + 's \<times> 'p list" where
  "run_requests h s [] = Inr (s, [])"
| "run_requests h s (r # rs) =
     and_then (h s r) (\<lambda>(s', p).
     and_then (run_requests h s' rs) (\<lambda>(s'', ps). Inr (s'', p # ps)))"

locale service =
  fixes handle :: "'s \<Rightarrow> 'r \<Rightarrow> fault + 's \<times> 'p"
    and inv :: "'s \<Rightarrow> bool"
    and valid :: "'r \<Rightarrow> bool"
  assumes handle_inv: "inv s \<Longrightarrow> valid r \<Longrightarrow> \<exists>s' p. handle s r = Inr (s', p) \<and> inv s'"
begin

lemma run_inv:
  "inv s \<Longrightarrow> list_all valid rs \<Longrightarrow> \<exists>s' ps. run_requests handle s rs = Inr (s', ps) \<and> inv s'"
proof (induction rs arbitrary: s)
  case (Cons r rs)
  then obtain s' p where "handle s r = Inr (s', p)" "inv s'" using handle_inv [of s r] by auto
  with Cons.IH [of s'] Cons.prems show ?case by auto
qed simp

lemma run_length:
  "inv s \<Longrightarrow> list_all valid rs \<Longrightarrow> run_requests handle s rs = Inr (s', ps) \<Longrightarrow> length ps = length rs"
proof (induction rs arbitrary: s s' ps)
  case (Cons r rs)
  then obtain s1 p where "handle s r = Inr (s1, p)" "inv s1" using handle_inv [of s r] by auto
  with Cons show ?case by (auto simp: fault_simps)
qed simp

end

end
