(* ===== verification/Shard_Utils.thy ===== *)
theory Shard_Utils
  imports DKV_Prelude
begin

text \<open>
  The shared structures and helpers of \<^verbatim>\<open>src/utils/utils.h\<close>: shard intervals
  (\<^verbatim>\<open>SMShard\<close>) with their subtraction, configuration entries (\<^verbatim>\<open>SMConfigEntry\<close>), and
  the conversion of an MD5 hex digest to an unsigned integer (\<^verbatim>\<open>get_hash_uint\<close>), with
  the part of \<^verbatim>\<open>std::stoul\<close> and \<^verbatim>\<open>std::string::substr\<close> it uses.
\<close>

section \<open>Shards\<close>

record SMShard =
  lower :: u32
  upper :: u32

record SMConfigEntry =
  shards :: "SMShard list"
  vs_addr :: string

definition mk_shard :: "u32 \<Rightarrow> u32 \<Rightarrow> SMShard" where
  "mk_shard l u = \<lparr>lower = l, upper = u\<rparr>"

definition subtract :: "SMShard \<Rightarrow> SMShard \<Rightarrow> fault + SMShard list" where
  "subtract a b =
     (if upper a < lower b \<or> upper b < lower a then Inr [a]
      else if lower a \<ge> lower b \<and> upper a \<le> upper b then Inr []
      else if lower a < lower b \<and> upper a > upper b
        then Inr [\<lparr>lower = lower a, upper = lower b - 1\<rparr>,
                  \<lparr>lower = upper b + 1, upper = upper a\<rparr>]
      else if lower a < lower b then Inr [\<lparr>lower = lower a, upper = lower b - 1\<rparr>]
      else if upper b < upper a then Inr [\<lparr>lower = upper b + 1, upper = upper a\<rparr>]
      else Inl Assertion_Failed)"

definition shard_eq :: "SMShard \<Rightarrow> SMShard \<Rightarrow> bool" where
  "shard_eq a rhs \<longleftrightarrow> lower a = lower rhs \<and> upper a = upper rhs"

definition in_shard :: "SMShard \<Rightarrow> u32 \<Rightarrow> bool" where
  "in_shard s c \<longleftrightarrow> lower s \<le> c \<and> c \<le> upper s"

definition shard_ok :: "SMShard \<Rightarrow> bool" where
  "shard_ok s \<longleftrightarrow> lower s \<le> upper s"

text \<open>The chunks an interval, and a list of intervals, holds.\<close>

definition chunks :: "SMShard \<Rightarrow> u32 set" where
  "chunks s = {c. in_shard s c}"

definition chunks_of :: "SMShard list \<Rightarrow> u32 set" where
  "chunks_of ss = (\<Union>s\<in>set ss. chunks s)"

lemma in_chunks [simp, shard_simps]: "c \<in> chunks s \<longleftrightarrow> lower s \<le> c \<and> c \<le> upper s"
  by (simp add: chunks_def in_shard_def)

lemma chunks_of_simps [simp, shard_simps]:
  "chunks_of [] = {}" "chunks_of (s # ss) = chunks s \<union> chunks_of ss"
  "chunks_of (ss @ ts) = chunks_of ss \<union> chunks_of ts"
  by (auto simp: chunks_of_def)

lemma in_chunks_of: "c \<in> chunks_of ss \<longleftrightarrow> (\<exists>s\<in>set ss. in_shard s c)"
  by (auto simp: chunks_of_def chunks_def)

lemma shard_eq_iff: "shard_eq a b \<longleftrightarrow> a = b"
  by (auto simp: shard_eq_def)


section \<open>Subtraction of intervals\<close>

text \<open>
  The five guarded returns of \<^verbatim>\<open>subtract\<close> cover every pair of intervals: the closing
  \<^verbatim>\<open>assert(false)\<close> is dead code.
\<close>

lemma subtract_cases:
  obtains (disjoint) "upper a < lower b \<or> upper b < lower a" "subtract a b = Inr [a]"
  | (covered) "lower b \<le> lower a" "upper a \<le> upper b" "lower a \<le> upper b" "lower b \<le> upper a"
      "subtract a b = Inr []"
  | (inside) "lower a < lower b" "upper b < upper a" "lower a \<le> upper b" "lower b \<le> upper a"
      "subtract a b = Inr [\<lparr>lower = lower a, upper = lower b - 1\<rparr>, \<lparr>lower = upper b + 1, upper = upper a\<rparr>]"
  | (left) "lower a < lower b" "upper a \<le> upper b" "lower b \<le> upper a"
      "subtract a b = Inr [\<lparr>lower = lower a, upper = lower b - 1\<rparr>]"
  | (right) "lower b \<le> lower a" "upper b < upper a" "lower a \<le> upper b"
      "subtract a b = Inr [\<lparr>lower = upper b + 1, upper = upper a\<rparr>]"
proof (cases "upper a < lower b \<or> upper b < lower a")
  case True
  then show ?thesis by (intro disjoint) (simp_all add: subtract_def)
next
  case False
  then have "lower a \<le> upper b" "lower b \<le> upper a" by auto
  with False show ?thesis
    by (cases "lower b \<le> lower a"; cases "upper a \<le> upper b")
       (auto simp: subtract_def not_le intro: covered inside left right)
qed

lemma le_pred_iff:
  fixes c x y :: "'a::len word"
  assumes "y < x"
  shows "c \<le> x - 1 \<longleftrightarrow> c < x"
proof -
  have "0 < unat x" using assms by (simp add: word_less_nat_alt)
  then show ?thesis using unat_minus_one_pos [OF assms]
    by (simp add: word_le_nat_alt word_less_nat_alt) linarith
qed

lemma succ_le_iff:
  fixes c x y :: "'a::len word"
  assumes "x < y"
  shows "x + 1 \<le> c \<longleftrightarrow> x < c"
  using unat_plus_one_less [OF assms] by (simp add: word_le_nat_alt word_less_nat_alt) linarith

lemmas interval_simps = le_pred_iff succ_le_iff

lemma subtract_correct:
  assumes "shard_ok b"
  shows "\<exists>r. subtract a b = Inr r \<and> chunks_of r = chunks a - chunks b"
  by (rule subtract_cases [of a b])
     (use assms in \<open>auto simp: shard_ok_def interval_simps\<close>)

lemma subtract_shard_ok:
  assumes "shard_ok a" "shard_ok b" "subtract a b = Inr r" "s \<in> set r"
  shows "shard_ok s"
  by (rule subtract_cases [of a b])
     (use assms in \<open>auto simp: shard_ok_def interval_simps\<close>)


text \<open>
  \<^verbatim>\<open>subtract\<close> computes the difference of two intervals exactly: for a subtrahend that is not inverted it never
  reaches its \<^verbatim>\<open>assert(false)\<close>, its one or two results hold precisely the chunks of the first interval that are
  not in the second, without wrap-around at the borders, and they are not inverted when the first is not.
\<close>

theorem subtract_is_difference:
  assumes "shard_ok b"
  shows "\<exists>r. subtract a b = Inr r \<and> length r \<le> 2 \<and> chunks_of r = chunks a - chunks b
    \<and> (shard_ok a \<longrightarrow> (\<forall>s\<in>set r. shard_ok s))"
proof -
  obtain r where r: "subtract a b = Inr r" "chunks_of r = chunks a - chunks b"
    using subtract_correct [OF assms] by blast
  have "length r \<le> 2" by (rule subtract_cases [of a b]) (use r(1) in auto)
  with r subtract_shard_ok [OF _ assms r(1)] show ?thesis by blast
qed

theorem subtract_is_difference_witness:
  "subtract (mk_shard 0 1000) (mk_shard 100 300) = Inr [mk_shard 0 99, mk_shard 301 1000]
   \<and> chunks_of [mk_shard 0 99, mk_shard 301 1000] = chunks (mk_shard 0 1000) - chunks (mk_shard 100 300)"
proof -
  have "subtract (mk_shard 0 1000) (mk_shard 100 300) = Inr [mk_shard 0 99, mk_shard 301 1000]"
    by (simp add: subtract_def mk_shard_def)
  with subtract_is_difference [of "mk_shard 100 300" "mk_shard 0 1000"] show ?thesis
    by (simp add: shard_ok_def mk_shard_def)
qed


section \<open>Hash digests as integers\<close>

text \<open>
  \<^verbatim>\<open>std::stoul(s, nullptr, 16)\<close>: leading white space is skipped, then an optional sign and
  an optional \<^verbatim>\<open>0x\<close> before the digits; \<^verbatim>\<open>invalid_argument\<close> without a digit,
  \<^verbatim>\<open>out_of_range\<close> past 64 bits; a minus sign negates in the unsigned type.
\<close>

definition isspace :: "char \<Rightarrow> bool" where
  "isspace c = (let n = (of_char c :: nat) in n = 32 \<or> 9 \<le> n \<and> n \<le> 13)"

definition hex_digit :: "char \<Rightarrow> nat option" where
  "hex_digit c =
     (let n = (of_char c :: nat)
      in if 48 \<le> n \<and> n \<le> 57 then Some (n - 48)
         else if 97 \<le> n \<and> n \<le> 102 then Some (n - 87)
         else if 65 \<le> n \<and> n \<le> 70 then Some (n - 55)
         else None)"

fun hex_run :: "string \<Rightarrow> nat list" where
  "hex_run [] = []"
| "hex_run (c # cs) = (case hex_digit c of None \<Rightarrow> [] | Some d \<Rightarrow> d # hex_run cs)"

definition strip_0x :: "string \<Rightarrow> string" where
  "strip_0x s =
     (case s of
        z # x # h # cs \<Rightarrow>
          if z = CHR ''0'' \<and> (x = CHR ''x'' \<or> x = CHR ''X'') \<and> hex_digit h \<noteq> None
          then h # cs else s
      | _ \<Rightarrow> s)"

definition strip_sign :: "string \<Rightarrow> bool \<times> string" where
  "strip_sign s =
     (case s of
        [] \<Rightarrow> (False, [])
      | c # cs \<Rightarrow> if c = CHR ''-'' then (True, cs)
                  else if c = CHR ''+'' then (False, cs) else (False, s))"

definition digits_value :: "nat list \<Rightarrow> nat" where
  "digits_value ds = foldl (\<lambda>acc d. 16 * acc + d) 0 ds"

definition stoul16 :: "string \<Rightarrow> fault + u64" where
  "stoul16 s =
     (case strip_sign (dropWhile isspace s) of (neg, s') \<Rightarrow>
        let ds = hex_run (strip_0x s')
        in if ds = [] then Inl Invalid_Argument
           else if digits_value ds \<ge> 2 ^ 64 then Inl Out_Of_Range
           else Inr (if neg then - of_nat (digits_value ds) else of_nat (digits_value ds)))"

definition substr :: "string \<Rightarrow> nat \<Rightarrow> nat \<Rightarrow> fault + string" where
  "substr s pos n = (if pos > length s then Inl Out_Of_Range else Inr (take n (drop pos s)))"

definition hash_seg :: "string \<Rightarrow> nat \<Rightarrow> fault + u32" where
  "hash_seg hash pos =
     and_then (substr hash pos 8) (\<lambda>s. and_then (stoul16 s) (\<lambda>v. Inr (ucast v)))"

definition get_hash_uint :: "string \<Rightarrow> fault + u32" where
  "get_hash_uint hash =
     and_then (hash_seg hash 0) (\<lambda>seg1.
     and_then (hash_seg hash 8) (\<lambda>seg2.
     and_then (hash_seg hash 16) (\<lambda>seg3.
     and_then (hash_seg hash 24) (\<lambda>seg4.
       Inr (seg1 XOR seg2 XOR seg3 XOR seg4)))))"

end
