(* ===== verification/MD5_Hash.thy ===== *)
theory MD5_Hash
  imports DKV_Prelude
begin

text \<open>
  The MD5 class of \<^verbatim>\<open>src/utils/md5.h\<close> and \<^verbatim>\<open>src/utils/md5.cc\<close>: the object with its
  64-byte buffer, its 64-bit counter in two words and its four chaining words, the
  compression function with its 64 unrolled steps, the buffered \<^verbatim>\<open>update\<close>, \<^verbatim>\<open>finalize\<close>
  and \<^verbatim>\<open>hexdigest\<close>.

  A C array is a list, a pointer argument the list of bytes that can be read through it.
  Reading or writing outside an array is \<^const>\<open>Undefined_Behaviour\<close>; so is a loop that
  does not end (it has no side effect, and C++ lets the compiler assume it ends).

  Second half: an independent description of RFC 1321 (table-driven compression, padding of
  the whole message, chaining over its blocks) and the proof that the buffered object
  computes it, for every split of the message into \<^verbatim>\<open>update\<close> calls.
\<close>

section \<open>The object\<close>

type_synonym md_words = "u32 \<times> u32 \<times> u32 \<times> u32"

record MD5 =
  finalized :: bool
  buffer :: "u8 list"
  count_lo :: u32
  count_hi :: u32
  md_state :: md_words
  digest :: "u8 list"

abbreviation (input) blocksize :: nat where "blocksize \<equiv> 64"

abbreviation (input) S11 :: nat where "S11 \<equiv> 7"
abbreviation (input) S12 :: nat where "S12 \<equiv> 12"
abbreviation (input) S13 :: nat where "S13 \<equiv> 17"
abbreviation (input) S14 :: nat where "S14 \<equiv> 22"
abbreviation (input) S21 :: nat where "S21 \<equiv> 5"
abbreviation (input) S22 :: nat where "S22 \<equiv> 9"
abbreviation (input) S23 :: nat where "S23 \<equiv> 14"
abbreviation (input) S24 :: nat where "S24 \<equiv> 20"
abbreviation (input) S31 :: nat where "S31 \<equiv> 4"
abbreviation (input) S32 :: nat where "S32 \<equiv> 11"
abbreviation (input) S33 :: nat where "S33 \<equiv> 16"
abbreviation (input) S34 :: nat where "S34 \<equiv> 23"
abbreviation (input) S41 :: nat where "S41 \<equiv> 6"
abbreviation (input) S42 :: nat where "S42 \<equiv> 10"
abbreviation (input) S43 :: nat where "S43 \<equiv> 15"
abbreviation (input) S44 :: nat where "S44 \<equiv> 21"

section \<open>Compression\<close>

definition F :: "u32 \<Rightarrow> u32 \<Rightarrow> u32 \<Rightarrow> u32" where
  "F x y z = ((x AND y) OR (NOT x AND z))"

definition G :: "u32 \<Rightarrow> u32 \<Rightarrow> u32 \<Rightarrow> u32" where
  "G x y z = ((x AND z) OR (y AND NOT z))"

definition H :: "u32 \<Rightarrow> u32 \<Rightarrow> u32 \<Rightarrow> u32" where
  "H x y z = ((x XOR y) XOR z)"

definition I :: "u32 \<Rightarrow> u32 \<Rightarrow> u32 \<Rightarrow> u32" where
  "I x y z = (y XOR (x OR NOT z))"

definition rotate_left :: "u32 \<Rightarrow> nat \<Rightarrow> u32" where
  "rotate_left x n = (push_bit n x OR drop_bit (32 - n) x)"

definition FF :: "u32 \<Rightarrow> u32 \<Rightarrow> u32 \<Rightarrow> u32 \<Rightarrow> u32 \<Rightarrow> nat \<Rightarrow> u32 \<Rightarrow> u32" where
  "FF a b c d x s ac = rotate_left (a + F b c d + x + ac) s + b"

definition GG :: "u32 \<Rightarrow> u32 \<Rightarrow> u32 \<Rightarrow> u32 \<Rightarrow> u32 \<Rightarrow> nat \<Rightarrow> u32 \<Rightarrow> u32" where
  "GG a b c d x s ac = rotate_left (a + G b c d + x + ac) s + b"

definition HH :: "u32 \<Rightarrow> u32 \<Rightarrow> u32 \<Rightarrow> u32 \<Rightarrow> u32 \<Rightarrow> nat \<Rightarrow> u32 \<Rightarrow> u32" where
  "HH a b c d x s ac = rotate_left (a + H b c d + x + ac) s + b"

definition II :: "u32 \<Rightarrow> u32 \<Rightarrow> u32 \<Rightarrow> u32 \<Rightarrow> u32 \<Rightarrow> nat \<Rightarrow> u32 \<Rightarrow> u32" where
  "II a b c d x s ac = rotate_left (a + I b c d + x + ac) s + b"

fun decode :: "u8 list \<Rightarrow> u32 list" where
  "decode (b0 # b1 # b2 # b3 # bs) =
     (ucast b0 OR push_bit 8 (ucast b1) OR push_bit 16 (ucast b2) OR push_bit 24 (ucast b3))
       # decode bs"
| "decode bs = []"

primrec encode :: "u32 list \<Rightarrow> u8 list" where
  "encode [] = []"
| "encode (w # ws) =
     ucast (w AND 0xff) # ucast (drop_bit 8 w AND 0xff)
       # ucast (drop_bit 16 w AND 0xff) # ucast (drop_bit 24 w AND 0xff) # encode ws"

text \<open>The 64 steps, each assigning one of the four registers, in the order of the source.\<close>

definition rounds :: "u32 list \<Rightarrow> md_words \<Rightarrow> md_words" where
  "rounds x s =
     (case s of (a, b, c, d) \<Rightarrow>
      let
       a = FF a b c d (x ! 0) S11 0xd76aa478;
       d = FF d a b c (x ! 1) S12 0xe8c7b756;
       c = FF c d a b (x ! 2) S13 0x242070db;
       b = FF b c d a (x ! 3) S14 0xc1bdceee;
       a = FF a b c d (x ! 4) S11 0xf57c0faf;
       d = FF d a b c (x ! 5) S12 0x4787c62a;
       c = FF c d a b (x ! 6) S13 0xa8304613;
       b = FF b c d a (x ! 7) S14 0xfd469501;
       a = FF a b c d (x ! 8) S11 0x698098d8;
       d = FF d a b c (x ! 9) S12 0x8b44f7af;
       c = FF c d a b (x ! 10) S13 0xffff5bb1;
       b = FF b c d a (x ! 11) S14 0x895cd7be;
       a = FF a b c d (x ! 12) S11 0x6b901122;
       d = FF d a b c (x ! 13) S12 0xfd987193;
       c = FF c d a b (x ! 14) S13 0xa679438e;
       b = FF b c d a (x ! 15) S14 0x49b40821;
       a = GG a b c d (x ! 1) S21 0xf61e2562;
       d = GG d a b c (x ! 6) S22 0xc040b340;
       c = GG c d a b (x ! 11) S23 0x265e5a51;
       b = GG b c d a (x ! 0) S24 0xe9b6c7aa;
       a = GG a b c d (x ! 5) S21 0xd62f105d;
       d = GG d a b c (x ! 10) S22 0x2441453;
       c = GG c d a b (x ! 15) S23 0xd8a1e681;
       b = GG b c d a (x ! 4) S24 0xe7d3fbc8;
       a = GG a b c d (x ! 9) S21 0x21e1cde6;
       d = GG d a b c (x ! 14) S22 0xc33707d6;
       c = GG c d a b (x ! 3) S23 0xf4d50d87;
       b = GG b c d a (x ! 8) S24 0x455a14ed;
       a = GG a b c d (x ! 13) S21 0xa9e3e905;
       d = GG d a b c (x ! 2) S22 0xfcefa3f8;
       c = GG c d a b (x ! 7) S23 0x676f02d9;
       b = GG b c d a (x ! 12) S24 0x8d2a4c8a;
       a = HH a b c d (x ! 5) S31 0xfffa3942;
       d = HH d a b c (x ! 8) S32 0x8771f681;
       c = HH c d a b (x ! 11) S33 0x6d9d6122;
       b = HH b c d a (x ! 14) S34 0xfde5380c;
       a = HH a b c d (x ! 1) S31 0xa4beea44;
       d = HH d a b c (x ! 4) S32 0x4bdecfa9;
       c = HH c d a b (x ! 7) S33 0xf6bb4b60;
       b = HH b c d a (x ! 10) S34 0xbebfbc70;
       a = HH a b c d (x ! 13) S31 0x289b7ec6;
       d = HH d a b c (x ! 0) S32 0xeaa127fa;
       c = HH c d a b (x ! 3) S33 0xd4ef3085;
       b = HH b c d a (x ! 6) S34 0x4881d05;
       a = HH a b c d (x ! 9) S31 0xd9d4d039;
       d = HH d a b c (x ! 12) S32 0xe6db99e5;
       c = HH c d a b (x ! 15) S33 0x1fa27cf8;
       b = HH b c d a (x ! 2) S34 0xc4ac5665;
       a = II a b c d (x ! 0) S41 0xf4292244;
       d = II d a b c (x ! 7) S42 0x432aff97;
       c = II c d a b (x ! 14) S43 0xab9423a7;
       b = II b c d a (x ! 5) S44 0xfc93a039;
       a = II a b c d (x ! 12) S41 0x655b59c3;
       d = II d a b c (x ! 3) S42 0x8f0ccc92;
       c = II c d a b (x ! 10) S43 0xffeff47d;
       b = II b c d a (x ! 1) S44 0x85845dd1;
       a = II a b c d (x ! 8) S41 0x6fa87e4f;
       d = II d a b c (x ! 15) S42 0xfe2ce6e0;
       c = II c d a b (x ! 6) S43 0xa3014314;
       b = II b c d a (x ! 13) S44 0x4e0811a1;
       a = II a b c d (x ! 4) S41 0xf7537e82;
       d = II d a b c (x ! 11) S42 0xbd3af235;
       c = II c d a b (x ! 2) S43 0x2ad7d2bb;
       b = II b c d a (x ! 9) S44 0xeb86d391
      in (a, b, c, d))"

definition add_words :: "md_words \<Rightarrow> md_words \<Rightarrow> md_words" where
  "add_words s t =
     (case s of (s0, s1, s2, s3) \<Rightarrow> case t of (a, b, c, d) \<Rightarrow> (s0 + a, s1 + b, s2 + c, s3 + d))"

definition transform :: "MD5 \<Rightarrow> u8 list \<Rightarrow> MD5" where
  "transform m block =
     m\<lparr>md_state := add_words (md_state m) (rounds (decode block) (md_state m))\<rparr>"

section \<open>Buffered hashing\<close>

definition init :: "MD5 \<Rightarrow> MD5" where
  "init m = m\<lparr>finalized := False, count_lo := 0, count_hi := 0,
     md_state := (0x67452301, 0xefcdab89, 0x98badcfe, 0x10325476)\<rparr>"

definition memcpy_buffer :: "MD5 \<Rightarrow> nat \<Rightarrow> u8 list \<Rightarrow> MD5" where
  "memcpy_buffer m index src =
     m\<lparr>buffer := take index (buffer m) @ src @ drop (index + length src) (buffer m)\<rparr>"

text \<open>
  \<^verbatim>\<open>for (i = firstpart; i + blocksize <= length; i += blocksize) transform(&input[i])\<close>
  with its 32-bit index; \<^const>\<open>None\<close> when a read leaves the input or the fuel is spent.
\<close>

fun update_blocks :: "nat \<Rightarrow> u32 \<Rightarrow> u32 \<Rightarrow> u8 list \<Rightarrow> MD5 \<Rightarrow> (u32 \<times> MD5) option" where
  "update_blocks 0 i len input m = None"
| "update_blocks (Suc fuel) i len input m =
     (if i + 64 \<le> len
      then if unat i + 64 \<le> length input
           then update_blocks fuel (i + 64) len input
                  (transform m (take 64 (drop (unat i) input)))
           else None
      else Some (i, m))"

definition update_rest :: "MD5 \<Rightarrow> u32 \<Rightarrow> u32 \<Rightarrow> u32 \<Rightarrow> u8 list \<Rightarrow> fault + MD5" where
  "update_rest m index i len input =
     (if unat i + unat (len - i) \<le> length input \<and> unat index + unat (len - i) \<le> blocksize
      then Inr (memcpy_buffer m (unat index) (take (unat (len - i)) (drop (unat i) input)))
      else Inl Undefined_Behaviour)"

definition add_count :: "MD5 \<Rightarrow> u32 \<Rightarrow> MD5" where
  "add_count m len =
     (let lo = count_lo m + push_bit 3 len;
          hi = (if lo < push_bit 3 len then count_hi m + 1 else count_hi m)
      in m\<lparr>count_lo := lo, count_hi := hi + drop_bit 29 len\<rparr>)"

definition update :: "MD5 \<Rightarrow> u8 list \<Rightarrow> u32 \<Rightarrow> fault + MD5" where
  "update m input len =
     (let index = count_lo m div 8 mod 64;
          m = add_count m len;
          firstpart = 64 - index
      in if len \<ge> firstpart
         then if unat firstpart \<le> length input
              then let m = memcpy_buffer m (unat index) (take (unat firstpart) input);
                       m = transform m (buffer m)
                   in case update_blocks (unat len div 64 + 1) firstpart len input m of
                        None \<Rightarrow> Inl Undefined_Behaviour
                      | Some (i, m) \<Rightarrow> update_rest m 0 i len input
              else Inl Undefined_Behaviour
         else update_rest m index 0 len input)"

definition padding :: "u8 list" where
  "padding = 0x80 # replicate 63 0"

definition finalize :: "MD5 \<Rightarrow> fault + MD5" where
  "finalize m =
     (if finalized m then Inr m
      else let bits = encode [count_lo m, count_hi m];
               index = count_lo m div 8 mod 64;
               padLen = (if index < 56 then 56 - index else 120 - index)
           in and_then (update m padding padLen) (\<lambda>m.
              and_then (update m bits 8) (\<lambda>m.
              case md_state m of (s0, s1, s2, s3) \<Rightarrow>
                Inr (m\<lparr>digest := encode [s0, s1, s2, s3], buffer := replicate 64 0,
                       count_lo := 0, count_hi := 0, finalized := True\<rparr>))))"

definition hex_char :: "nat \<Rightarrow> char" where
  "hex_char n = (if n < 10 then char_of (48 + n) else char_of (87 + n))"

definition sprintf_02x :: "u8 \<Rightarrow> string" where
  "sprintf_02x b = [hex_char (unat b div 16), hex_char (unat b mod 16)]"

definition hexdigest :: "MD5 \<Rightarrow> string" where
  "hexdigest m = (if \<not> finalized m then [] else concat (map sprintf_02x (digest m)))"

definition bytes_of :: "string \<Rightarrow> u8 list" where
  "bytes_of s = map of_char s"

text \<open>
  The constructor works on uninitialised memory: \<open>raw\<close> is whatever the object's bytes were.
  \<^verbatim>\<open>text.length()\<close> is narrowed to the 32-bit \<^verbatim>\<open>size_type\<close>.
\<close>

definition MD5_text :: "MD5 \<Rightarrow> string \<Rightarrow> fault + MD5" where
  "MD5_text raw text =
     and_then (update (init raw) (bytes_of text) (of_nat (length text))) finalize"

definition raw_memory :: MD5 where
  "raw_memory = \<lparr>finalized = False, buffer = replicate 64 0, count_lo = 0, count_hi = 0,
     md_state = (0, 0, 0, 0), digest = replicate 16 0\<rparr>"

definition md5 :: "string \<Rightarrow> fault + string" where
  "md5 str = and_then (MD5_text raw_memory str) (\<lambda>m. Inr (hexdigest m))"


section \<open>RFC 1321, table-driven\<close>

text \<open>
  Step \<open>i\<close> of the compression function as the RFC tabulates it: the mixing function of
  its round, the message word \<open>i\<close>, \<open>5i + 1\<close>, \<open>3i + 5\<close> or \<open>7i\<close> modulo 16, the rotation
  and the sine constant.
\<close>

datatype rfc_round = RF | RG | RH | RI

definition rfc_T :: "u32 list" where
  "rfc_T = [
   0xd76aa478, 0xe8c7b756, 0x242070db, 0xc1bdceee, 0xf57c0faf, 0x4787c62a, 0xa8304613, 0xfd469501,
   0x698098d8, 0x8b44f7af, 0xffff5bb1, 0x895cd7be, 0x6b901122, 0xfd987193, 0xa679438e, 0x49b40821,
   0xf61e2562, 0xc040b340, 0x265e5a51, 0xe9b6c7aa, 0xd62f105d, 0x2441453, 0xd8a1e681, 0xe7d3fbc8,
   0x21e1cde6, 0xc33707d6, 0xf4d50d87, 0x455a14ed, 0xa9e3e905, 0xfcefa3f8, 0x676f02d9, 0x8d2a4c8a,
   0xfffa3942, 0x8771f681, 0x6d9d6122, 0xfde5380c, 0xa4beea44, 0x4bdecfa9, 0xf6bb4b60, 0xbebfbc70,
   0x289b7ec6, 0xeaa127fa, 0xd4ef3085, 0x4881d05, 0xd9d4d039, 0xe6db99e5, 0x1fa27cf8, 0xc4ac5665,
   0xf4292244, 0x432aff97, 0xab9423a7, 0xfc93a039, 0x655b59c3, 0x8f0ccc92, 0xffeff47d, 0x85845dd1,
   0x6fa87e4f, 0xfe2ce6e0, 0xa3014314, 0x4e0811a1, 0xf7537e82, 0xbd3af235, 0x2ad7d2bb, 0xeb86d391]"

definition rfc_round_of :: "nat \<Rightarrow> rfc_round" where
  "rfc_round_of i = [RF, RG, RH, RI] ! (i div 16)"

definition rfc_word :: "nat \<Rightarrow> nat" where
  "rfc_word i = [i, 5 * i + 1, 3 * i + 5, 7 * i] ! (i div 16) mod 16"

definition rfc_shift :: "nat \<Rightarrow> nat" where
  "rfc_shift i = [[7, 12, 17, 22], [5, 9, 14, 20], [4, 11, 16, 23], [6, 10, 15, 21]]
     ! (i div 16) ! (i mod 4)"

definition rfc_table :: "(rfc_round \<times> nat \<times> nat \<times> u32) list" where
  "rfc_table = map (\<lambda>i. (rfc_round_of i, rfc_word i, rfc_shift i, rfc_T ! i)) [0..<64]"

fun rfc_steps :: "(rfc_round \<times> nat \<times> nat \<times> u32) list \<Rightarrow> u32 list \<Rightarrow> md_words \<Rightarrow> md_words" where
  "rfc_steps [] x s = s"
| "rfc_steps ((RF, k, r, t) # es) x (a, b, c, d) =
     (let a = FF a b c d (x ! k) r t in rfc_steps es x (d, a, b, c))"
| "rfc_steps ((RG, k, r, t) # es) x (a, b, c, d) =
     (let a = GG a b c d (x ! k) r t in rfc_steps es x (d, a, b, c))"
| "rfc_steps ((RH, k, r, t) # es) x (a, b, c, d) =
     (let a = HH a b c d (x ! k) r t in rfc_steps es x (d, a, b, c))"
| "rfc_steps ((RI, k, r, t) # es) x (a, b, c, d) =
     (let a = II a b c d (x ! k) r t in rfc_steps es x (d, a, b, c))"

definition rfc_compress :: "md_words \<Rightarrow> u8 list \<Rightarrow> md_words" where
  "rfc_compress s block = add_words s (rfc_steps rfc_table (decode block) s)"

lemma rfc_table_eq: "rfc_table = 
  [(RF, 0, 7, 0xd76aa478),
   (RF, 1, 12, 0xe8c7b756),
   (RF, 2, 17, 0x242070db),
   (RF, 3, 22, 0xc1bdceee),
   (RF, 4, 7, 0xf57c0faf),
   (RF, 5, 12, 0x4787c62a),
   (RF, 6, 17, 0xa8304613),
   (RF, 7, 22, 0xfd469501),
   (RF, 8, 7, 0x698098d8),
   (RF, 9, 12, 0x8b44f7af),
   (RF, 10, 17, 0xffff5bb1),
   (RF, 11, 22, 0x895cd7be),
   (RF, 12, 7, 0x6b901122),
   (RF, 13, 12, 0xfd987193),
   (RF, 14, 17, 0xa679438e),
   (RF, 15, 22, 0x49b40821),
   (RG, 1, 5, 0xf61e2562),
   (RG, 6, 9, 0xc040b340),
   (RG, 11, 14, 0x265e5a51),
   (RG, 0, 20, 0xe9b6c7aa),
   (RG, 5, 5, 0xd62f105d),
   (RG, 10, 9, 0x2441453),
   (RG, 15, 14, 0xd8a1e681),
   (RG, 4, 20, 0xe7d3fbc8),
   (RG, 9, 5, 0x21e1cde6),
   (RG, 14, 9, 0xc33707d6),
   (RG, 3, 14, 0xf4d50d87),
   (RG, 8, 20, 0x455a14ed),
   (RG, 13, 5, 0xa9e3e905),
   (RG, 2, 9, 0xfcefa3f8),
   (RG, 7, 14, 0x676f02d9),
   (RG, 12, 20, 0x8d2a4c8a),
   (RH, 5, 4, 0xfffa3942),
   (RH, 8, 11, 0x8771f681),
   (RH, 11, 16, 0x6d9d6122),
   (RH, 14, 23, 0xfde5380c),
   (RH, 1, 4, 0xa4beea44),
   (RH, 4, 11, 0x4bdecfa9),
   (RH, 7, 16, 0xf6bb4b60),
   (RH, 10, 23, 0xbebfbc70),
   (RH, 13, 4, 0x289b7ec6),
   (RH, 0, 11, 0xeaa127fa),
   (RH, 3, 16, 0xd4ef3085),
   (RH, 6, 23, 0x4881d05),
   (RH, 9, 4, 0xd9d4d039),
   (RH, 12, 11, 0xe6db99e5),
   (RH, 15, 16, 0x1fa27cf8),
   (RH, 2, 23, 0xc4ac5665),
   (RI, 0, 6, 0xf4292244),
   (RI, 7, 10, 0x432aff97),
   (RI, 14, 15, 0xab9423a7),
   (RI, 5, 21, 0xfc93a039),
   (RI, 12, 6, 0x655b59c3),
   (RI, 3, 10, 0x8f0ccc92),
   (RI, 10, 15, 0xffeff47d),
   (RI, 1, 21, 0x85845dd1),
   (RI, 8, 6, 0x6fa87e4f),
   (RI, 15, 10, 0xfe2ce6e0),
   (RI, 6, 15, 0xa3014314),
   (RI, 13, 21, 0x4e0811a1),
   (RI, 4, 6, 0xf7537e82),
   (RI, 11, 10, 0xbd3af235),
   (RI, 2, 15, 0x2ad7d2bb),
   (RI, 9, 21, 0xeb86d391)]"
  unfolding rfc_table_def by code_simp

lemma rounds_eq_rfc [code]: "rounds x s = rfc_steps rfc_table x s"
  by (cases s) (simp only: rounds_def rfc_table_eq prod.case rfc_steps.simps)


text \<open>The hash of a whole message: padding, then chaining over its 64-byte blocks.\<close>

fun md_process :: "u8 list \<Rightarrow> md_words \<Rightarrow> md_words" where
  "md_process bs s =
     (if length bs < 64 then s else md_process (drop 64 bs) (rfc_compress s (take 64 bs)))"

declare md_process.simps [simp del]

definition rfc_IV :: md_words where
  "rfc_IV = (0x67452301, 0xefcdab89, 0x98badcfe, 0x10325476)"

definition le64 :: "nat \<Rightarrow> u8 list" where
  "le64 n = map (\<lambda>i. of_nat (n div 256 ^ i)) [0..<8]"

definition rfc_zeros :: "nat \<Rightarrow> nat" where
  "rfc_zeros n = (119 - n mod 64) mod 64"

definition rfc_pad :: "u8 list \<Rightarrow> u8 list" where
  "rfc_pad msg = msg @ 0x80 # replicate (rfc_zeros (length msg)) 0 @ le64 (8 * length msg)"

definition rfc_md5 :: "u8 list \<Rightarrow> u8 list" where
  "rfc_md5 msg =
     (case md_process (rfc_pad msg) rfc_IV of (a, b, c, d) \<Rightarrow> encode [a, b, c, d])"

section \<open>Chaining over blocks\<close>

lemma transform_state: "transform m block = m\<lparr>md_state := rfc_compress (md_state m) block\<rparr>"
  by (simp add: transform_def rfc_compress_def rounds_eq_rfc)

lemma md_process_short: "length bs < 64 \<Longrightarrow> md_process bs s = s"
  by (simp add: md_process.simps)

lemma md_process_block:
  "length b = 64 \<Longrightarrow> md_process (b @ bs) s = md_process bs (rfc_compress s b)"
  by (subst md_process.simps) simp

lemma md_process_append:
  "64 dvd length xs \<Longrightarrow> md_process (xs @ ys) s = md_process ys (md_process xs s)"
proof (induction xs s rule: md_process.induct)
  case (1 bs s)
  show ?case
  proof (cases "length bs < 64")
    case True
    with "1.prems" have "bs = []" by (auto dest: dvd_imp_le)
    then show ?thesis by (simp add: md_process_short)
  next
    case False
    with "1.prems" have d: "64 dvd length (drop 64 bs)" by (simp add: dvd_diff_nat)
    have split: "bs @ ys = take 64 bs @ (drop 64 bs @ ys)"
      by (metis append_assoc append_take_drop_id)
    have "md_process (bs @ ys) s = md_process (drop 64 bs @ ys) (rfc_compress s (take 64 bs))"
      by (subst split, rule md_process_block) (use False in simp)
    also have "\<dots> = md_process ys (md_process (drop 64 bs) (rfc_compress s (take 64 bs)))"
      by (rule "1.IH" [OF False d])
    also have "md_process (drop 64 bs) (rfc_compress s (take 64 bs)) = md_process bs s"
      using False by (subst (2) md_process.simps) simp
    finally show ?thesis .
  qed
qed

lemma md_process_whole: "md_process (take (64 * (length bs div 64)) bs) s = md_process bs s"
proof -
  let ?n = "64 * (length bs div 64)"
  have "length bs = length bs div 64 * 64 + length bs mod 64" by simp
  then have tail: "length (drop ?n bs) < 64" by (simp add: minus_mult_div_eq_mod)
  have "length (take ?n bs) = ?n" by simp
  then have "64 dvd length (take ?n bs)" by (metis dvd_triv_left)
  from md_process_append [OF this, of "drop ?n bs" s]
  have "md_process bs s = md_process (drop ?n bs) (md_process (take ?n bs) s)" by simp
  then show ?thesis using tail by (simp add: md_process_short)
qed

section \<open>The object holds the absorbed message\<close>

definition md5_absorbed :: "MD5 \<Rightarrow> u8 list \<Rightarrow> bool" where
  "md5_absorbed m msg \<longleftrightarrow>
     \<not> finalized m \<and> length (buffer m) = 64
     \<and> unat (count_lo m) + 4294967296 * unat (count_hi m)
         = 8 * length msg mod 18446744073709551616
     \<and> md_state m = md_process msg rfc_IV
     \<and> take (length msg mod 64) (buffer m) = drop (64 * (length msg div 64)) msg"

lemma absorbed_init: "length (buffer raw) = 64 \<Longrightarrow> md5_absorbed (init raw) []"
  by (simp add: md5_absorbed_def init_def rfc_IV_def md_process_short)

lemma absorbed_index:
  assumes "md5_absorbed m msg"
  shows "unat (count_lo m div 8 mod 64) = length msg mod 64"
proof -
  let ?lo = "unat (count_lo m)" and ?hi = "unat (count_hi m)" and ?n = "length msg"
  have "?lo + 4294967296 * ?hi = 8 * ?n mod 18446744073709551616"
    using assms by (simp add: md5_absorbed_def)
  then have "(?lo + 4294967296 * ?hi) mod 4294967296
      = 8 * ?n mod (4294967296 * 4294967296) mod 4294967296" by simp
  then have "?lo mod 4294967296 = 8 * ?n mod (8 * 536870912)"
    by (simp only: mod_mult_self2 mod_mult_self4 mod_mod_cancel dvd_triv_left) simp
  then have "?lo = 8 * (?n mod 536870912)"
    using unsigned_less [of "count_lo m", where ?'a = nat] by (simp add: mult_mod_right)
  then have "?lo div 8 mod 64 = ?n mod (64 * 8388608) mod 64" by simp
  also have "\<dots> = ?n mod 64" by (rule mod_mod_cancel) simp
  finally show ?thesis by (simp add: unat_div unat_mod)
qed

lemma unat_shl3: "unat (push_bit 3 (len :: u32)) = 8 * unat len mod 4294967296"
  by (simp add: push_bit_eq_mult unat_word_ariths mult.commute)

lemma unat_shr29: "unat (drop_bit 29 (len :: u32)) = unat len div 536870912"
  by (simp add: drop_bit_eq_div unat_div)

lemma carry_split:
  fixes B :: nat
  assumes "lo < B" "r < B"
  shows "(lo + r) mod B + B * (if (lo + r) mod B < r then 1 else 0) = lo + r"
proof (cases "lo + r < B")
  case True
  then show ?thesis by simp
next
  case False
  then have "(lo + r) mod B = lo + r - B" using assms by (simp add: mod_if)
  then show ?thesis using False assms by simp
qed

lemma two_words_mod:
  fixes B C :: nat
  assumes "a < B"
  shows "a + B * (x mod C) = (a + B * x) mod (B * C)"
  using assms by (simp add: mod_mult2_eq)

lemma add_count_correct:
  assumes "unat (count_lo m) + 4294967296 * unat (count_hi m)
             = 8 * n mod 18446744073709551616"
  shows "unat (count_lo (add_count m len)) + 4294967296 * unat (count_hi (add_count m len))
           = 8 * (n + unat len) mod 18446744073709551616"
proof -
  define B :: nat where "B = 4294967296"
  define lo hi l where "lo = unat (count_lo m)" and "hi = unat (count_hi m)" and "l = unat len"
  define r where "r = 8 * l mod B"
  define cy :: nat where "cy = (if (lo + r) mod B < r then 1 else 0)"
  have b: "lo < B" "r < B"
    using unsigned_less [of "count_lo m", where ?'a = nat] by (simp_all add: lo_def r_def B_def)
  have l8: "8 * l = r + B * (l div 536870912)"
    using mult_div_mod_eq [of B "8 * l"] by (simp add: r_def B_def)
  have lo': "unat (count_lo (add_count m len)) = (lo + r) mod B"
    by (simp add: add_count_def Let_def unat_word_ariths unat_shl3 lo_def l_def r_def B_def)
  have hi': "unat (count_hi (add_count m len)) = (hi + cy + l div 536870912) mod B"
    by (simp add: add_count_def Let_def word_less_nat_alt unat_word_ariths unat_shl3 unat_shr29
        lo_def l_def hi_def r_def B_def cy_def mod_simps)
  have "(lo + r) mod B + B * ((hi + cy + l div 536870912) mod B)
      = ((lo + r) mod B + B * (hi + cy + l div 536870912)) mod (B * B)"
    by (rule two_words_mod) (simp add: B_def)
  also have "(lo + r) mod B + B * (hi + cy + l div 536870912) = lo + B * hi + 8 * l"
    using carry_split [OF b] l8 by (simp add: cy_def algebra_simps)
  also have "lo + B * hi = 8 * n mod (B * B)"
    using assms by (simp add: lo_def hi_def B_def)
  also have "(8 * n mod (B * B) + 8 * l) mod (B * B) = 8 * (n + l) mod (B * B)"
    by (simp add: mod_simps algebra_simps)
  finally show ?thesis unfolding lo' hi' by (simp add: B_def l_def)
qed


lemma update_blocks_correct:
  assumes "unat len \<le> length input" "unat len < 4294967232" "i \<le> len"
    "(unat len - unat i) div 64 < fuel"
  shows "update_blocks fuel i len input m =
    Some (of_nat (unat i + 64 * ((unat len - unat i) div 64)),
          m\<lparr>md_state := md_process (drop (unat i) (take (unat len) input)) (md_state m)\<rparr>)"
  using assms(3,4)
proof (induction fuel arbitrary: i m)
  case 0
  then show ?case by simp
next
  case (Suc fuel)
  have le: "unat i \<le> unat len" using Suc.prems(1) by (simp add: word_le_nat_alt)
  have u: "unat (i + 64) = unat i + 64"
    using le assms(2) by (simp add: unat_word_ariths)
  let ?rest = "drop (unat i) (take (unat len) input)"
  show ?case
  proof (cases "i + 64 \<le> len")
    case True
    then have le': "unat i + 64 \<le> unat len" by (simp add: word_le_nat_alt u)
    have n: "unat len - unat i = (unat len - unat (i + 64)) + 64" using le' by (simp add: u)
    have fuel: "(unat len - unat (i + 64)) div 64 < fuel" using Suc.prems(2) by (simp add: n)
    have split: "?rest = take 64 (drop (unat i) input) @ drop (unat (i + 64)) (take (unat len) input)"
    proof -
      have "?rest = take 64 ?rest @ drop 64 ?rest" by (rule append_take_drop_id [symmetric])
      also have "take 64 ?rest = take 64 (drop (unat i) input)"
        using le' by (simp add: drop_take take_take min_def)
      also have "drop 64 ?rest = drop (unat (i + 64)) (take (unat len) input)"
        by (simp add: u add.commute)
      finally show ?thesis .
    qed
    have "length (take 64 (drop (unat i) input)) = 64" using le' assms(1) by simp
    then have "md_process ?rest (md_state m) = md_process (drop (unat (i + 64)) (take (unat len) input))
        (rfc_compress (md_state m) (take 64 (drop (unat i) input)))"
      by (subst split) (rule md_process_block)
    moreover have "unat i + 64 * ((unat len - unat i) div 64)
        = unat (i + 64) + 64 * ((unat len - unat (i + 64)) div 64)"
    proof -
      have "(d + 64) div 64 = d div 64 + 1" for d :: nat by simp
      then show ?thesis unfolding n by (simp add: u)
    qed
    moreover have "update_blocks (Suc fuel) i len input m =
        update_blocks fuel (i + 64) len input (transform m (take 64 (drop (unat i) input)))"
      using True le' assms(1) by simp
    ultimately show ?thesis
      using Suc.IH [OF True fuel, of "transform m (take 64 (drop (unat i) input))"]
      by (simp only: transform_state) simp
  next
    case False
    then have short: "unat len - unat i < 64" by (simp add: word_le_nat_alt u)
    then have "md_process ?rest (md_state m) = md_state m" by (intro md_process_short) simp
    with False short show ?thesis by simp
  qed
qed

declare update_blocks.simps [simp del]

lemma absorbed_state:
  assumes "length rst < 64" "64 dvd length pre"
  shows "md_process (pre @ rst) s = md_process pre s"
  using assms by (simp add: md_process_append md_process_short)

lemma absorbed_split:
  assumes "md5_absorbed m msg"
  obtains pre rst where "msg = pre @ rst" "64 dvd length pre" "length rst = length msg mod 64"
    "length pre = 64 * (length msg div 64)" "md_state m = md_process pre rfc_IV"
    "take (length rst) (buffer m) = rst"
proof -
  let ?q = "64 * (length msg div 64)"
  have len: "length (take ?q msg) = ?q" by simp
  have "length (drop ?q msg) = length msg mod 64" by (simp add: minus_mult_div_eq_mod)
  moreover have "md_state m = md_process (take ?q msg) rfc_IV"
    using assms by (simp add: md5_absorbed_def md_process_whole)
  moreover have "take (length (drop ?q msg)) (buffer m) = drop ?q msg"
    using assms by (simp add: md5_absorbed_def minus_mult_div_eq_mod)
  moreover have "64 dvd length (take ?q msg)" unfolding len by (rule dvd_triv_left)
  ultimately show ?thesis using that [of "take ?q msg" "drop ?q msg"] by simp
qed

lemma absorbed_intro:
  assumes "\<not> finalized m" "length (buffer m) = 64"
    and "unat (count_lo m) + 4294967296 * unat (count_hi m)
          = 8 * length (pre @ rst) mod 18446744073709551616"
    and "md_state m = md_process pre rfc_IV"
    and "take (length rst) (buffer m) = rst" "length rst < 64" "64 dvd length pre"
  shows "md5_absorbed m (pre @ rst)"
proof -
  obtain k where k: "length pre = 64 * k" using assms(7) by (rule dvdE)
  have "length (pre @ rst) div 64 = k" "length (pre @ rst) mod 64 = length rst"
    using assms(6) by (simp_all add: k)
  with assms show ?thesis by (simp add: md5_absorbed_def absorbed_state k)
qed

lemma add_count_frame [simp]:
  "finalized (add_count m len) = finalized m" "buffer (add_count m len) = buffer m"
  "md_state (add_count m len) = md_state m"
  by (simp_all add: add_count_def Let_def)


lemma update_short:
  assumes abs: "md5_absorbed m msg" and len: "unat len \<le> length input"
    and short: "length msg mod 64 + unat len < 64"
  shows "\<exists>m'. update m input len = Inr m' \<and> md5_absorbed m' (msg @ take (unat len) input)"
proof -
  let ?idx = "count_lo m div 8 mod 64" and ?x = "take (unat len) input"
  obtain pre rst where d: "msg = pre @ rst" "64 dvd length pre" "length rst = length msg mod 64"
    "length pre = 64 * (length msg div 64)" "md_state m = md_process pre rfc_IV"
    "take (length rst) (buffer m) = rst" by (rule absorbed_split [OF abs])
  have idx: "unat ?idx = length rst" using absorbed_index [OF abs] d(3) by simp
  have "?idx \<le> 64" using idx d(3) by (simp add: word_le_nat_alt)
  then have "unat (64 - ?idx) = 64 - length rst" by (simp add: unat_sub idx)
  then have not: "\<not> 64 - ?idx \<le> len" using short d(3) by (simp add: word_le_nat_alt)
  let ?m = "memcpy_buffer (add_count m len) (length rst) ?x"
  have upd: "update m input len = Inr ?m"
    using not len short d(3) idx by (simp add: update_def Let_def update_rest_def)
  have buf: "buffer ?m = rst @ ?x @ drop (length rst + unat len) (buffer m)"
    using d(6) len by (simp add: memcpy_buffer_def)
  have "md5_absorbed ?m (pre @ (rst @ ?x))"
  proof (rule absorbed_intro)
    show "length (buffer ?m) = 64"
      unfolding buf using abs short d(3) len by (simp add: md5_absorbed_def)
    have "length (pre @ rst @ ?x) = length msg + unat len" using d(1) len by simp
    then show "unat (count_lo ?m) + 4294967296 * unat (count_hi ?m)
        = 8 * length (pre @ rst @ ?x) mod 18446744073709551616"
      using abs add_count_correct [of m "length msg" len]
      by (simp add: md5_absorbed_def memcpy_buffer_def)
    show "take (length (rst @ ?x)) (buffer ?m) = rst @ ?x"
      unfolding buf append_assoc [symmetric] by (rule append_eq_conv_conj [THEN iffD1, THEN conjunct1, symmetric]) simp
    show "length (rst @ ?x) < 64" using short d(3) len by simp
    show "md_state ?m = md_process pre rfc_IV" using d(5) by (simp add: memcpy_buffer_def)
    show "\<not> finalized ?m" using abs by (simp add: memcpy_buffer_def md5_absorbed_def)
  qed (rule d(2))
  with upd d(1) show ?thesis by simp
qed

lemma update_long:
  assumes abs: "md5_absorbed m msg" and len: "unat len \<le> length input"
    and bound: "unat len < 4294967232" and long: "64 \<le> length msg mod 64 + unat len"
  shows "\<exists>m'. update m input len = Inr m' \<and> md5_absorbed m' (msg @ take (unat len) input)"
proof -
  let ?idx = "count_lo m div 8 mod 64" and ?x = "take (unat len) input"
  obtain pre rst where d: "msg = pre @ rst" "64 dvd length pre" "length rst = length msg mod 64"
    "length pre = 64 * (length msg div 64)" "md_state m = md_process pre rfc_IV"
    "take (length rst) (buffer m) = rst" by (rule absorbed_split [OF abs])
  have rst: "length rst < 64" using d(3) by simp
  define fp where "fp = 64 - length rst"
  have idx: "unat ?idx = length rst" using absorbed_index [OF abs] d(3) by simp
  have "?idx \<le> 64" using idx d(3) by (simp add: word_le_nat_alt)
  then have ufp: "unat (64 - ?idx) = fp" by (simp add: unat_sub idx fp_def)
  have fple: "fp \<le> unat len" using long d(3) by (simp add: fp_def)
  then have ge: "64 - ?idx \<le> len" using ufp by (simp add: word_le_nat_alt)
  let ?x1 = "take fp input" and ?x2 = "drop fp ?x"
  have x: "?x = ?x1 @ ?x2"
    using fple append_take_drop_id [of fp ?x] by (simp add: take_take min_def)
  have blk: "length (rst @ ?x1) = 64" using rst fple len by (simp add: fp_def)
  let ?m1 = "memcpy_buffer (add_count m len) (length rst) ?x1"
  have buf1: "buffer ?m1 = rst @ ?x1"
    using abs d(6) blk by (simp add: memcpy_buffer_def md5_absorbed_def)
  define n r where "n = (unat len - fp) div 64" and "r = (unat len - fp) mod 64"
  have nr: "unat len = fp + 64 * n + r" using fple by (simp add: n_def r_def)
  let ?st = "md_process ?x2 (rfc_compress (md_state m) (rst @ ?x1))"
  let ?m2 = "?m1\<lparr>md_state := ?st\<rparr>"
  have loop: "update_blocks (unat len div 64 + 1) (64 - ?idx) len input (transform ?m1 (buffer ?m1))
      = Some (of_nat (fp + 64 * n), ?m2)"
  proof -
    have fuel: "(unat len - unat (64 - ?idx)) div 64 < unat len div 64 + 1"
      by (simp add: div_le_mono le_imp_less_Suc)
    show ?thesis
      using update_blocks_correct [OF len bound ge fuel, of "transform ?m1 (buffer ?m1)"]
      unfolding ufp buf1 by (simp add: transform_state n_def memcpy_buffer_def)
  qed
  define i :: u32 where "i = of_nat (fp + 64 * n)"
  let ?t = "drop (fp + 64 * n) ?x"
  have ui: "unat i = fp + 64 * n" unfolding i_def using nr bound by (intro unat_of_nat_u32) simp
  have "i \<le> len" using nr ui by (simp add: word_le_nat_alt)
  then have urest: "unat (len - i) = r" using nr ui by (simp add: unat_sub)
  have t: "take r (drop (fp + 64 * n) input) = ?t" using nr by (simp add: drop_take)
  have tlen: "length ?t = r" using nr len by simp
  let ?m' = "memcpy_buffer ?m2 0 ?t"
  have r64: "r < 64" by (simp add: r_def)
  have rest: "update_rest ?m2 0 i len input = Inr ?m'"
    unfolding update_rest_def urest ui t using len r64 nr by simp
  have "fp \<le> length input" using fple len by simp
  then have upd: "update m input len = Inr ?m'"
    unfolding update_def Let_def ufp idx using ge loop [folded i_def] rest by simp
  have buf': "buffer ?m' = ?t @ drop r (rst @ ?x1)"
    using buf1 tlen by (simp add: memcpy_buffer_def)
  let ?pre = "pre @ (rst @ ?x1) @ take (64 * n) ?x2"
  have "?t = drop (64 * n) ?x2" by (simp only: drop_drop add.commute)
  then have x2: "?x2 = take (64 * n) ?x2 @ ?t" by (simp only: append_take_drop_id)
  have msg: "msg @ ?x = ?pre @ ?t"
    by (subst x, subst x2) (simp only: d(1) append_assoc)
  have tk: "length (take (64 * n) ?x2) = 64 * n" using nr len by simp
  have "md5_absorbed ?m' (?pre @ ?t)"
  proof (rule absorbed_intro)
    show "length (buffer ?m') = 64" unfolding buf' using tlen blk r64 by simp
    have "length (?pre @ ?t) = length msg + unat len" using len unfolding msg [symmetric] by simp
    then show "unat (count_lo ?m') + 4294967296 * unat (count_hi ?m')
        = 8 * length (?pre @ ?t) mod 18446744073709551616"
      using abs add_count_correct [of m "length msg" len]
      by (simp only:) (simp add: md5_absorbed_def memcpy_buffer_def)
    show "take (length ?t) (buffer ?m') = ?t" unfolding buf' by simp
    show "64 dvd length ?pre"
      unfolding length_append [of pre] length_append [of "rst @ ?x1"] blk tk using d(2) by simp
    have "md_process ?pre rfc_IV = md_process (take (64 * n) ?x2) (rfc_compress (md_state m) (rst @ ?x1))"
      by (simp only: md_process_append [OF d(2)] md_process_block [OF blk] d(5))
    also have "\<dots> = ?st"
      by (subst (2) x2, rule absorbed_state [symmetric]) (use tlen r64 tk in simp_all)
    finally show "md_state ?m' = md_process ?pre rfc_IV" by (simp add: memcpy_buffer_def)
  qed (use abs tlen r64 in \<open>simp_all add: memcpy_buffer_def md5_absorbed_def\<close>)
  with upd msg show ?thesis by simp
qed

lemma update_absorbs:
  assumes "md5_absorbed m msg" "unat len \<le> length input" "unat len < 4294967232"
  shows "\<exists>m'. update m input len = Inr m' \<and> md5_absorbed m' (msg @ take (unat len) input)"
  using update_short [OF assms(1,2)] update_long [OF assms]
  by (cases "length msg mod 64 + unat len < 64") simp_all


section \<open>Finalisation\<close>

lemma byte_of_word:
  "ucast (drop_bit (8 * k) (w :: u32) AND 0xff) = (of_nat (unat w div 256 ^ k) :: u8)"
proof (rule word_unat_eq_iff [THEN iffD2])
  have "drop_bit (8 * k) w AND 0xff = take_bit 8 (drop_bit (8 * k) w)"
    by (simp add: take_bit_eq_mask mask_eq_exp_minus_1)
  moreover have "unat (ucast (take_bit 8 (drop_bit (8 * k) w)) :: u8) = take_bit 8 (drop_bit (8 * k) (unat w))"
    by (simp add: unsigned_ucast_eq unsigned_take_bit_eq unat_drop_bit_eq)
  moreover have "take_bit 8 (drop_bit (8 * k) (unat w)) = unat w div 256 ^ k mod 256"
    by (simp add: take_bit_eq_mod drop_bit_eq_div power_mult)
  ultimately show "unat (ucast (drop_bit (8 * k) w AND 0xff) :: u8) = unat (of_nat (unat w div 256 ^ k) :: u8)"
    by (simp add: unat_of_nat take_bit_eq_mod)
qed

lemma encode_bytes:
  "encode (w # ws) = map (\<lambda>k. of_nat (unat w div 256 ^ k)) [0..<4] @ encode ws"
  using byte_of_word [of 0 w] byte_of_word [of 1 w] byte_of_word [of 2 w] byte_of_word [of 3 w]
  by (simp add: upt_rec)

lemma length_encode [simp]: "length (encode ws) = 4 * length ws"
  by (induction ws) simp_all

lemma of_nat_byte_cong: "a mod 256 = b mod 256 \<Longrightarrow> (of_nat a :: u8) = of_nat b"
  by (simp add: word_unat_eq_iff unat_of_nat take_bit_eq_mod)

lemma byte_mod_cong:
  fixes n :: nat
  assumes "k < 8"
  shows "n mod 18446744073709551616 div 256 ^ k mod 256 = n div 256 ^ k mod 256"
proof -
  have eq: "(18446744073709551616 :: nat) = 256 ^ k * 256 ^ (8 - k)"
    using assms by (simp flip: power_add)
  have "n mod 18446744073709551616 div 256 ^ k = n div 256 ^ k mod 256 ^ (8 - k)"
    by (subst eq) (simp add: mod_mult2_eq)
  moreover have "(256 :: nat) dvd 256 ^ (8 - k)" using assms by (simp add: dvd_power)
  ultimately show ?thesis by (simp add: mod_mod_cancel)
qed

lemma encode_count:
  assumes "unat lo + 4294967296 * unat hi = n mod 18446744073709551616"
  shows "encode [lo, hi] = le64 n"
proof -
  have b: "unat lo < 4294967296" using unsigned_less [of lo, where ?'a = nat] by simp
  have low: "unat lo div 256 ^ k mod 256 = n div 256 ^ k mod 256" if "k < 4" for k
  proof -
    have eq: "(4294967296 :: nat) = 256 ^ k * 256 ^ (4 - k)" using that by (simp flip: power_add)
    have "(unat lo + 4294967296 * unat hi) div 256 ^ k = unat lo div 256 ^ k + 256 ^ (4 - k) * unat hi"
      by (subst eq) (simp add: mult.assoc)
    moreover have "(256 :: nat) dvd 256 ^ (4 - k) * unat hi" using that by (simp add: dvd_power)
    ultimately show ?thesis
      using byte_mod_cong [of k n] that unfolding assms [symmetric]
      by (simp add: mod_add_eq [symmetric] dvd_imp_mod_0)
  qed
  have high: "unat hi div 256 ^ k mod 256 = n div 256 ^ (k + 4) mod 256" if "k < 4" for k
  proof -
    have "(unat lo + 4294967296 * unat hi) div 256 ^ (4 + k) = unat hi div 256 ^ k"
      using b by (simp add: power_add div_mult2_eq)
    then show ?thesis using byte_mod_cong [of "4 + k" n] that unfolding assms [symmetric]
      by (simp add: add.commute)
  qed
  have u8: "[0..<8] = [0..<4] @ map (\<lambda>k. k + 4) [0..<4]"
    by (simp add: upt_rec)
  have "map (\<lambda>k. of_nat (unat lo div 256 ^ k) :: u8) [0..<4] = map (\<lambda>k. of_nat (n div 256 ^ k)) [0..<4]"
    by (rule map_cong [OF refl], rule of_nat_byte_cong) (simp add: low)
  moreover have "map (\<lambda>k. of_nat (unat hi div 256 ^ k) :: u8) [0..<4]
      = map (\<lambda>k. of_nat (n div 256 ^ (k + 4))) [0..<4]"
    by (rule map_cong [OF refl], rule of_nat_byte_cong) (simp add: high)
  ultimately show ?thesis
    unfolding le64_def u8 by (simp only: encode_bytes map_append map_map o_def encode.simps append_Nil2)
qed

lemma length_le64 [simp]: "length (le64 n) = 8"
  by (simp add: le64_def)

lemma take_padding: "0 < n \<Longrightarrow> n \<le> 64 \<Longrightarrow> take n padding = 0x80 # replicate (n - 1) 0"
  by (cases n) (simp_all add: padding_def)

lemma finalize_correct:
  assumes abs: "md5_absorbed m msg"
  shows "\<exists>m'. finalize m = Inr m' \<and> finalized m' \<and> digest m' = rfc_md5 msg"
proof -
  let ?idx = "count_lo m div 8 mod 64" and ?bits = "encode [count_lo m, count_hi m]"
  let ?pad = "if ?idx < 56 then 56 - ?idx else 120 - ?idx"
  have idx: "unat ?idx = length msg mod 64" by (rule absorbed_index [OF abs])
  have pad: "unat ?pad = Suc (rfc_zeros (length msg))"
  proof (cases "?idx < 56")
    case True
    then have "length msg mod 64 < 56" using idx by (simp add: word_less_nat_alt)
    moreover from this have "119 - length msg mod 64 = 55 - length msg mod 64 + 64" by simp
    then have "(119 - length msg mod 64) mod 64 = 55 - length msg mod 64"
      by (simp only: mod_add_self2) simp
    moreover have "?idx \<le> 56" using True by simp
    ultimately show ?thesis using True idx by (simp add: unat_sub rfc_zeros_def) linarith
  next
    case False
    then have "56 \<le> length msg mod 64" using idx by (simp add: word_less_nat_alt)
    moreover have "?idx \<le> 120" using idx by (simp add: word_le_nat_alt)
    moreover have "length msg mod 64 < 64" by simp
    ultimately show ?thesis using False idx by (simp add: unat_sub rfc_zeros_def)
  qed
  have pb: "unat ?pad \<le> 64" by (simp add: pad rfc_zeros_def Suc_le_eq)
  obtain m1 where m1: "update m padding ?pad = Inr m1" "md5_absorbed m1 (msg @ take (unat ?pad) padding)"
    using update_absorbs [OF abs, of ?pad padding] pb by (auto simp: padding_def)
  obtain m2 where m2: "update m1 ?bits 8 = Inr m2"
    "md5_absorbed m2 ((msg @ take (unat ?pad) padding) @ take 8 ?bits)"
    using update_absorbs [OF m1(2), of 8 ?bits] by auto
  have bits: "?bits = le64 (8 * length msg)"
    using abs by (intro encode_count) (simp add: md5_absorbed_def)
  have "take (unat ?pad) padding = 0x80 # replicate (rfc_zeros (length msg)) 0"
    using take_padding [of "unat ?pad"] pb by (simp add: pad)
  then have "md_state m2 = md_process (rfc_pad msg) rfc_IV"
    using m2(2) bits by (simp add: md5_absorbed_def rfc_pad_def)
  moreover have "\<not> finalized m" using abs by (simp add: md5_absorbed_def)
  ultimately show ?thesis
    using m1(1) m2(1) by (auto simp: finalize_def Let_def rfc_md5_def split: prod.splits)
qed

lemma MD5_text_correct:
  assumes "length (buffer raw) = 64" "length str < 4294967232"
  shows "\<exists>m. MD5_text raw str = Inr m \<and> finalized m \<and> digest m = rfc_md5 (bytes_of str)"
proof -
  have len: "unat (of_nat (length str) :: u32) = length (bytes_of str)"
    using assms(2) by (simp add: unat_of_nat_u32 bytes_of_def)
  obtain m where m: "update (init raw) (bytes_of str) (of_nat (length str)) = Inr m"
      "md5_absorbed m (bytes_of str)"
    using update_absorbs [OF absorbed_init [OF assms(1)], of "of_nat (length str)" "bytes_of str"]
      assms(2) len by (auto simp: bytes_of_def)
  then show ?thesis using finalize_correct [OF m(2)] by (simp add: MD5_text_def)
qed

lemma md5_eq:
  assumes "length str < 4294967232"
  shows "md5 str = Inr (concat (map sprintf_02x (rfc_md5 (bytes_of str))))"
  using MD5_text_correct [of raw_memory str] assms
  by (auto simp: md5_def hexdigest_def raw_memory_def)

lemma length_rfc_md5 [simp]: "length (rfc_md5 msg) = 16"
  by (auto simp: rfc_md5_def split: prod.splits)

section \<open>Properties\<close>

text \<open>
  (C14) For every string of fewer than \<open>2^32 - 64\<close> bytes \<^verbatim>\<open>md5\<close> returns the hexadecimal MD5 digest of
  RFC 1321, whatever the uninitialised memory of the \<^verbatim>\<open>MD5\<close> object held before.
\<close>

theorem md5_is_rfc1321:
  assumes "length str < 4294967232" "length (buffer raw) = 64"
  shows "(\<exists>m. MD5_text raw str = Inr m \<and> finalized m \<and> digest m = rfc_md5 (bytes_of str))
    \<and> md5 str = Inr (concat (map sprintf_02x (rfc_md5 (bytes_of str))))"
  using MD5_text_correct [OF assms(2,1)] md5_eq [OF assms(1)] by blast

theorem md5_is_rfc1321_witness:
  "md5 ''abc'' = Inr ''900150983cd24fb0d6963f7d28e17f72''
   \<and> concat (map sprintf_02x (rfc_md5 (bytes_of ''abc''))) = ''900150983cd24fb0d6963f7d28e17f72''"
proof -
  have "md5 ''abc'' = Inr ''900150983cd24fb0d6963f7d28e17f72''" by code_simp
  moreover have "length (buffer raw_memory) = 64" by (simp add: raw_memory_def)
  ultimately show ?thesis using md5_is_rfc1321 [of "''abc''" raw_memory] by simp
qed

text \<open>Feeding a message in parts.\<close>

primrec update_all :: "u8 list list \<Rightarrow> MD5 \<Rightarrow> fault + MD5" where
  "update_all [] m = Inr m"
| "update_all (c # cs) m = and_then (update m c (of_nat (length c))) (update_all cs)"

lemma update_all_absorbs:
  assumes "md5_absorbed m msg" "\<forall>c\<in>set cs. length c < 4294967232"
  shows "\<exists>m'. update_all cs m = Inr m' \<and> md5_absorbed m' (msg @ concat cs)"
  using assms
proof (induction cs arbitrary: m msg)
  case (Cons c cs)
  have len: "unat (of_nat (length c) :: u32) = length c" using Cons.prems(2) by (simp add: unat_of_nat_u32)
  obtain m1 where "update m c (of_nat (length c)) = Inr m1" "md5_absorbed m1 (msg @ c)"
    using update_absorbs [OF Cons.prems(1), of "of_nat (length c)" c] len Cons.prems(2) by auto
  with Cons.IH [of m1 "msg @ c"] Cons.prems(2) show ?case by auto
qed simp

text \<open>
  (C33) \<^verbatim>\<open>update\<close> may be called any number of times: however a message is cut into parts, the digest after
  \<^verbatim>\<open>finalize\<close> is the one of the whole message.
\<close>

theorem md5_streaming:
  assumes "length (buffer raw) = 64" "\<forall>c\<in>set cs. length c < 4294967232"
  shows "\<exists>m. and_then (update_all cs (init raw)) finalize = Inr m \<and> digest m = rfc_md5 (concat cs)"
  using update_all_absorbs [OF absorbed_init [OF assms(1)] assms(2)] finalize_correct by fastforce

theorem md5_streaming_witness:
  "\<exists>m. and_then (update_all [bytes_of ''a'', [], bytes_of ''bc''] (init raw_memory)) finalize = Inr m
     \<and> digest m = rfc_md5 (bytes_of ''abc'')"
  using md5_streaming [of raw_memory "[bytes_of ''a'', [], bytes_of ''bc'']"]
  by (simp add: raw_memory_def bytes_of_def)

text \<open>
  The unrolled compression function of \<^verbatim>\<open>transform\<close> is the table-driven one of RFC 1321: for every block the
  64 hand-written steps with their rotations, word indices and constants compute what the formulas of
  the RFC's table compute, and only the chaining state changes.
\<close>

theorem transform_is_rfc_compress:
  "transform m block = m\<lparr>md_state := add_words (md_state m) (rfc_steps rfc_table (decode block) (md_state m))\<rparr>"
  by (simp add: transform_state rfc_compress_def)

lemma ucast_low_byte: "(ucast (x AND 0xff :: u32) :: u8) = ucast x"
proof -
  have "(0xff :: u32) = mask 8" by (simp add: mask_eq_exp_minus_1)
  then have "x AND 0xff = take_bit 8 x" by (simp only: take_bit_eq_mask)
  then show ?thesis by (simp only:) (rule bit_word_eqI, simp add: bit_simps)
qed

lemma decode_encode_word:
  fixes w :: u32
  shows "ucast (ucast w :: u8) OR push_bit 8 (ucast (ucast (drop_bit 8 w) :: u8))
    OR push_bit 16 (ucast (ucast (drop_bit 16 w) :: u8))
    OR push_bit 24 (ucast (ucast (drop_bit 24 w) :: u8)) = w"
proof (rule bit_word_eqI)
  fix n assume "n < LENGTH(32)"
  then consider "n < 8" | "8 \<le> n" "n < 16" | "16 \<le> n" "n < 24" | "24 \<le> n" "n < 32" by fastforce
  then show "bit ((ucast (ucast w :: u8) :: u32) OR push_bit 8 (ucast (ucast (drop_bit 8 w) :: u8))
    OR push_bit 16 (ucast (ucast (drop_bit 16 w) :: u8))
    OR push_bit 24 (ucast (ucast (drop_bit 24 w) :: u8))) n = bit w n"
    by cases (auto simp: bit_simps)
qed

lemma encode_decode_byte:
  fixes b0 b1 b2 b3 :: u8
  shows "ucast (ucast b0 OR push_bit 8 (ucast b1) OR push_bit 16 (ucast b2) OR push_bit 24 (ucast b3) :: u32) = b0"
   "ucast (drop_bit 8 (ucast b0 OR push_bit 8 (ucast b1) OR push_bit 16 (ucast b2) OR push_bit 24 (ucast b3) :: u32)) = b1"
   "ucast (drop_bit 16 (ucast b0 OR push_bit 8 (ucast b1) OR push_bit 16 (ucast b2) OR push_bit 24 (ucast b3) :: u32)) = b2"
   "ucast (drop_bit 24 (ucast b0 OR push_bit 8 (ucast b1) OR push_bit 16 (ucast b2) OR push_bit 24 (ucast b3) :: u32)) = b3"
  by ((rule bit_word_eqI, auto simp: bit_simps not_le dest: bit_imp_le_length)[1])+

text \<open>
  \<^verbatim>\<open>encode\<close> and \<^verbatim>\<open>decode\<close> are inverse to each other: on words, and on byte strings whose length is a multiple
  of four.
\<close>

theorem md5_encode_decode:
  "decode (encode ws) = ws \<and> (length bs mod 4 = 0 \<longrightarrow> encode (decode bs) = bs)"
proof -
  have "decode (encode ws) = ws" by (induction ws) (simp_all only: encode.simps decode.simps ucast_low_byte decode_encode_word)
  moreover have "encode (decode bs) = bs" if "length bs mod 4 = 0"
    using that
  proof (induction bs rule: decode.induct)
    case (1 b0 b1 b2 b3 bs)
    have "length (b0 # b1 # b2 # b3 # bs) = length bs + 4" by simp
    then have "length bs mod 4 = 0" using 1(2) by (metis mod_add_self2)
    then show ?case using 1(1) by (simp only: decode.simps encode.simps ucast_low_byte encode_decode_byte)
  qed simp_all
  ultimately show ?thesis by blast
qed

theorem md5_encode_decode_witness:
  "encode (decode [1, 2, 3, 4, 5, 6, 7, 8]) = [1, 2, 3, 4, 5, 6, 7, 8]"
  using md5_encode_decode [of "[]" "[1, 2, 3, 4, 5, 6, 7, 8]"] by simp

end
