(* ===== verification/Key_Hash.thy ===== *)
theory Key_Hash
  imports Shard_Utils MD5_Hash
begin

text \<open>
  From a key to its chunk. Client and volume server both compute
  \<^verbatim>\<open>get_hash_uint(md5(key)) % NUM_CHUNKS\<close>; the expression occurs in
  \<^verbatim>\<open>VolumeServer::Put\<close>, \<^verbatim>\<open>Delete\<close>, \<^verbatim>\<open>isMyKey\<close>, \<^verbatim>\<open>formModMap\<close>, \<^verbatim>\<open>moveKeys\<close> and
  \<^verbatim>\<open>Client::getVSAddr\<close>. The digest of \<^const>\<open>md5\<close> is read back by
  \<^const>\<open>get_hash_uint\<close> without an exception, and the chunk is below 1000.
\<close>

abbreviation NUM_CHUNKS :: u32 where "NUM_CHUNKS \<equiv> 1000"

definition shard_mod :: "string \<Rightarrow> fault + u32" where
  "shard_mod key =
     and_then (md5 key) (\<lambda>hash.
     and_then (get_hash_uint hash) (\<lambda>hash_int. Inr (hash_int mod NUM_CHUNKS)))"

section \<open>Reading back the digits \<open>sprintf\<close> printed\<close>

lemma hex_digit_hex_char: "d < 16 \<Longrightarrow> hex_digit (hex_char d) = Some d"
  by (simp add: hex_digit_def hex_char_def Let_def)

lemma not_hex_digit:
  "isspace c \<Longrightarrow> hex_digit c = None" "hex_digit (CHR ''-'') = None"
  "hex_digit (CHR ''+'') = None" "hex_digit (CHR ''x'') = None" "hex_digit (CHR ''X'') = None"
  by (auto simp: isspace_def hex_digit_def Let_def)

lemma hex_char_plain:
  assumes "d < 16"
  shows "\<not> isspace (hex_char d)" "hex_char d \<noteq> CHR ''-''" "hex_char d \<noteq> CHR ''+''"
    "hex_char d \<noteq> CHR ''x''" "hex_char d \<noteq> CHR ''X''"
  using hex_digit_hex_char [OF assms] not_hex_digit by (metis option.distinct(1))+

lemma hex_run_hex_chars: "\<forall>d\<in>set ds. d < 16 \<Longrightarrow> hex_run (map hex_char ds) = ds"
  by (induction ds) (simp_all add: hex_digit_hex_char)

lemma stoul16_hex_chars:
  assumes "ds \<noteq> []" "\<forall>d\<in>set ds. d < 16" "digits_value ds < 2 ^ 64"
  shows "stoul16 (map hex_char ds) = Inr (of_nat (digits_value ds))"
proof -
  obtain d ds' where d: "ds = d # ds'" using assms(1) by (cases ds) auto
  let ?s = "map hex_char ds"
  have "strip_sign (dropWhile isspace ?s) = (False, ?s)"
    using assms(2) by (simp add: d strip_sign_def hex_char_plain)
  moreover have "strip_0x ?s = ?s"
    using assms(2) by (auto simp: d strip_0x_def hex_char_plain split: list.split)
  ultimately show ?thesis
    using assms by (simp add: stoul16_def hex_run_hex_chars Let_def)
qed

definition nibbles :: "u8 \<Rightarrow> nat list" where
  "nibbles b = [unat b div 16, unat b mod 16]"

lemma sprintf_nibbles: "concat (map sprintf_02x bs) = map hex_char (concat (map nibbles bs))"
  by (induction bs) (simp_all add: sprintf_02x_def nibbles_def)

lemma nibbles_bound: "\<forall>d\<in>set (nibbles b). d < 16"
  using unsigned_less [of b, where ?'a = nat] by (auto simp: nibbles_def)

text \<open>Four digest bytes as a big-endian word.\<close>

definition be32 :: "u8 list \<Rightarrow> nat" where
  "be32 bs = foldl (\<lambda>acc b. 256 * acc + unat b) 0 bs"

lemma digits_value_nibbles:
  "foldl (\<lambda>acc d. 16 * acc + d) a (concat (map nibbles bs)) = foldl (\<lambda>acc b. 256 * acc + unat b) a bs"
proof (induction bs arbitrary: a)
  case (Cons b bs)
  have "16 * (16 * a + unat b div 16) + unat b mod 16 = 256 * a + unat b" by simp
  then show ?case using Cons [of "256 * a + unat b"] by (simp only: nibbles_def list.map concat.simps append.simps foldl.simps)
qed simp

lemma be32_bound:
  assumes "length bs = 4"
  shows "be32 bs < 4294967296"
proof -
  obtain a b c d where bs: "bs = [a, b, c, d]"
    using assms by (auto simp: length_Suc_conv eval_nat_numeral)
  have "unat a < 256" "unat b < 256" "unat c < 256" "unat d < 256"
    using unsigned_less [of a, where ?'a = nat] unsigned_less [of b, where ?'a = nat]
      unsigned_less [of c, where ?'a = nat] unsigned_less [of d, where ?'a = nat] by simp_all
  then show ?thesis by (simp add: be32_def bs)
qed

lemma stoul16_digest_word:
  assumes "length bs = 4"
  shows "stoul16 (concat (map sprintf_02x bs)) = Inr (of_nat (be32 bs))"
proof -
  let ?ds = "concat (map nibbles bs)"
  have v: "digits_value ?ds = be32 bs" by (simp add: digits_value_def be32_def digits_value_nibbles)
  have "?ds \<noteq> []" using assms by (cases bs) (simp_all add: nibbles_def)
  moreover have "\<forall>d\<in>set ?ds. d < 16" using nibbles_bound by auto
  ultimately show ?thesis
    using stoul16_hex_chars [of ?ds] be32_bound [OF assms] by (simp add: sprintf_nibbles v)
qed


section \<open>The chunk of a key\<close>

definition digest_hash :: "u8 list \<Rightarrow> u32" where
  "digest_hash ds =
     (of_nat (be32 (take 4 ds)) XOR of_nat (be32 (take 4 (drop 4 ds)))
      XOR of_nat (be32 (take 4 (drop 8 ds))) XOR of_nat (be32 (take 4 (drop 12 ds))))"

definition key_chunk :: "string \<Rightarrow> u32" where
  "key_chunk key = digest_hash (rfc_md5 (bytes_of key)) mod NUM_CHUNKS"

definition key_ok :: "string \<Rightarrow> bool" where
  "key_ok key \<longleftrightarrow> length key < 4294967232"

lemma take_drop_sprintf:
  "take (2 * n) (concat (map sprintf_02x bs)) = concat (map sprintf_02x (take n bs))"
  "drop (2 * n) (concat (map sprintf_02x bs)) = concat (map sprintf_02x (drop n bs))"
  by (induction bs arbitrary: n; case_tac n; simp add: sprintf_02x_def)+

lemma length_sprintf [simp]: "length (concat (map sprintf_02x bs)) = 2 * length bs"
  by (induction bs) (simp_all add: sprintf_02x_def)

lemma hash_seg_digest:
  assumes "length ds = 16" "k \<le> 12"
  shows "hash_seg (concat (map sprintf_02x ds)) (2 * k) = Inr (of_nat (be32 (take 4 (drop k ds))))"
proof -
  have len: "length (take 4 (drop k ds)) = 4" using assms by simp
  have "take_bit 64 (be32 (take 4 (drop k ds))) = be32 (take 4 (drop k ds))"
    using be32_bound [OF len] by (simp add: take_bit_nat_eq_self)
  with stoul16_digest_word [OF len] show ?thesis
    using take_drop_sprintf(1) [of 4 "drop k ds"] assms
    by (simp add: hash_seg_def substr_def take_drop_sprintf(2) unsigned_of_nat)
qed

lemma get_hash_uint_digest:
  assumes "length ds = 16"
  shows "get_hash_uint (concat (map sprintf_02x ds)) = Inr (digest_hash ds)"
  using hash_seg_digest [OF assms, of 0] hash_seg_digest [OF assms, of 4]
    hash_seg_digest [OF assms, of 8] hash_seg_digest [OF assms, of 12]
  by (simp add: get_hash_uint_def digest_hash_def)

lemma shard_mod_eq:
  assumes "key_ok key"
  shows "shard_mod key = Inr (key_chunk key)"
  using assms by (simp add: key_ok_def shard_mod_def md5_eq get_hash_uint_digest key_chunk_def)

lemma key_chunk_less: "key_chunk key < NUM_CHUNKS"
  by (simp add: key_chunk_def word_mod_less_divisor)

text \<open>
  (C30) Every key of fewer than \<open>2^32 - 64\<close> bytes has a chunk: reading the digest back with \<^verbatim>\<open>std::stoul\<close> raises no
  exception, the chunk is the exclusive or of the digest's four big-endian words modulo 1000, and it is
  below 1000 (so the chunk 1000 that the shard master also hands out never holds a key).
\<close>

theorem shard_mod_total:
  assumes "key_ok key"
  shows "\<exists>c. shard_mod key = Inr c \<and> c < NUM_CHUNKS \<and> c = digest_hash (rfc_md5 (bytes_of key)) mod NUM_CHUNKS"
  using shard_mod_eq [OF assms] key_chunk_less [of key] by (simp add: key_chunk_def)

theorem shard_mod_total_witness:
  "\<exists>c. shard_mod ''key1'' = Inr c \<and> c < 1000"
  using shard_mod_total [of "''key1''"] by (auto simp: key_ok_def)

lemma hex_char_lower: "d < 16 \<Longrightarrow> hex_char d \<in> set ''0123456789abcdef''"
proof -
  have "\<forall>d \<in> set [0..<16]. hex_char d \<in> set ''0123456789abcdef''" by code_simp
  then show "d < 16 \<Longrightarrow> hex_char d \<in> set ''0123456789abcdef''" by simp
qed

text \<open>
  (C31) \<^verbatim>\<open>md5\<close> returns a string of 32 lower-case hexadecimal digits, so that each of the four segments \<^verbatim>\<open>get_hash_uint\<close> cuts out is
  there, has eight digits, and is read without an exception as the 32-bit number it spells.
\<close>

theorem md5_hex_format:
  assumes "key_ok key"
  shows "\<exists>s. md5 key = Inr s \<and> length s = 32 \<and> set s \<subseteq> set ''0123456789abcdef'' \<and>
    (\<forall>k \<in> {0, 8, 16, 24}. \<exists>w. hash_seg s k = Inr w)"
proof -
  let ?ds = "rfc_md5 (bytes_of key)"
  let ?s = "concat (map sprintf_02x ?ds)"
  have "md5 key = Inr ?s" using assms by (intro md5_eq) (simp add: key_ok_def)
  moreover have "set ?s \<subseteq> set ''0123456789abcdef''"
    unfolding sprintf_nibbles set_map using nibbles_bound hex_char_lower by (simp only: set_concat set_map) blast
  moreover have "\<exists>w. hash_seg ?s (2 * k) = Inr w" if "k \<le> 12" for k using hash_seg_digest [OF length_rfc_md5 that] by blast
  from this [of 0] this [of 4] this [of 8] this [of 12]
  have "\<forall>k \<in> {0, 8, 16, 24}. \<exists>w. hash_seg ?s k = Inr w" by simp
  ultimately show ?thesis by (intro exI [of _ ?s]) simp
qed

theorem md5_hex_format_witness: "\<exists>s. md5 ''key1'' = Inr s \<and> length s = 32"
  using md5_hex_format [of "''key1''"] by (auto simp: key_ok_def)

end
