(* ===== verification/Shard_Master.thy ===== *)
theory Shard_Master
  imports Shard_Utils
begin

text \<open>
  The shard master of \<^verbatim>\<open>src/server/shard_master/\<close>: its state (the ordered list of
  configuration entries and the configuration number), the five RPC handlers, and
  \<^verbatim>\<open>redistributeChunks\<close>. A handler is a function from the state and the request to a
  \<open>fault\<close> or the new state and the status. Its messages are those of
  \<^verbatim>\<open>src/protos/shard_master.proto\<close>. Log output is left out, and so is the LevelDB handle, which
  no handler uses.

  Then the invariants: which chunks each server holds after each operation, the partition of
  the chunks \<open>0\<close> to \<open>1000\<close>, the refinement of an abstract ownership map, and runs of requests.
\<close>

section \<open>State and messages\<close>

record ShardMaster =
  sm_config :: "SMConfigEntry list"
  config_num :: u32

type_synonym Shard = "u32 \<times> u32"

record ConfigEntry =
  entry_shards :: "Shard list"
  server_addr :: string

type_synonym QueryResponse = "ConfigEntry list"

definition VS_NOT_FOUND :: string where
  "VS_NOT_FOUND = ''Server doesn'' @ CHR 0x27 # ''t exist!''"

definition VS_EXISTS :: string where
  "VS_EXISTS = ''Server already exists!''"

abbreviation SM_NUM_CHUNKS :: u32 where "SM_NUM_CHUNKS \<equiv> 1000"

definition ShardMaster_init :: ShardMaster where
  "ShardMaster_init = \<lparr>sm_config = [], config_num = 0\<rparr>"

section \<open>Handlers\<close>

definition encode_shard :: "SMShard \<Rightarrow> Shard" where
  "encode_shard s = (lower s, upper s)"

definition encode_entry :: "SMConfigEntry \<Rightarrow> ConfigEntry" where
  "encode_entry e = \<lparr>entry_shards = map encode_shard (shards e), server_addr = vs_addr e\<rparr>"

definition SM_Query :: "ShardMaster \<Rightarrow> grpc_status \<times> QueryResponse" where
  "SM_Query sm = (OK, map encode_entry (sm_config sm))"

definition SM_QueryConfigNum :: "ShardMaster \<Rightarrow> grpc_status \<times> u32" where
  "SM_QueryConfigNum sm = (OK, config_num sm)"

definition server_exists :: "SMConfigEntry list \<Rightarrow> string \<Rightarrow> bool" where
  "server_exists cfg addr = list_ex (\<lambda>config. vs_addr config = addr) cfg"

primrec move_shards :: "SMShard list \<Rightarrow> SMShard \<Rightarrow> fault + SMShard list" where
  "move_shards [] move_shard = Inr []"
| "move_shards (shard # ss) move_shard =
     and_then (subtract shard move_shard) (\<lambda>result.
     and_then (move_shards ss move_shard) (\<lambda>new_shards. Inr (take 2 result @ new_shards)))"

primrec move_config ::
  "SMConfigEntry list \<Rightarrow> string \<Rightarrow> SMShard \<Rightarrow> fault + SMConfigEntry list" where
  "move_config [] addr move_shard = Inr []"
| "move_config (config # cs) addr move_shard =
     and_then (move_shards (shards config) move_shard) (\<lambda>new_shards.
     and_then (move_config cs addr move_shard) (\<lambda>rest.
       Inr (config\<lparr>shards := (if vs_addr config = addr then new_shards @ [move_shard]
                               else new_shards)\<rparr> # rest)))"

definition Move_apply :: "ShardMaster \<Rightarrow> string \<Rightarrow> Shard \<Rightarrow> fault + ShardMaster" where
  "Move_apply sm server shard =
     and_then (move_config (sm_config sm) server (mk_shard (fst shard) (snd shard))) (\<lambda>cfg.
       Inr (sm\<lparr>sm_config := cfg, config_num := config_num sm + 1\<rparr>))"

definition SM_Move :: "ShardMaster \<Rightarrow> string \<Rightarrow> Shard \<Rightarrow> fault + ShardMaster \<times> grpc_status" where
  "SM_Move sm server shard =
     (if \<not> server_exists (sm_config sm) server
      then Inr (sm, Status NOT_FOUND VS_NOT_FOUND)
      else and_then (Move_apply sm server shard) (\<lambda>sm'. Inr (sm', OK)))"

text \<open>
  The loop of \<^verbatim>\<open>redistributeChunks\<close> over the entry index \<open>i\<close>, in unsigned 32-bit
  arithmetic (\<^verbatim>\<open>NUM_CHUNKS\<close> is a \<^verbatim>\<open>uint\<close>, so \<^verbatim>\<open>num_vs\<close> and \<^verbatim>\<open>i\<close> are converted).
\<close>

definition chunk_shard :: "nat \<Rightarrow> nat \<Rightarrow> SMShard" where
  "chunk_shard num_vs i =
     \<lparr>lower = (SM_NUM_CHUNKS div of_nat num_vs) * of_nat i,
      upper = (if i = num_vs - 1 then SM_NUM_CHUNKS
               else (SM_NUM_CHUNKS div of_nat num_vs) * of_nat (i + 1) - 1)\<rparr>"

primrec redistribute_from :: "nat \<Rightarrow> nat \<Rightarrow> SMConfigEntry list \<Rightarrow> SMConfigEntry list" where
  "redistribute_from num_vs i [] = []"
| "redistribute_from num_vs i (c # cs) =
     c\<lparr>shards := [chunk_shard num_vs i]\<rparr> # redistribute_from num_vs (Suc i) cs"

definition redistributeChunks :: "ShardMaster \<Rightarrow> ShardMaster" where
  "redistributeChunks sm =
     sm\<lparr>config_num := config_num sm + 1,
        sm_config := redistribute_from (length (sm_config sm)) 0 (sm_config sm)\<rparr>"

definition Join_push :: "ShardMaster \<Rightarrow> string \<Rightarrow> ShardMaster" where
  "Join_push sm addr = sm\<lparr>sm_config := sm_config sm @ [\<lparr>shards = [], vs_addr = addr\<rparr>]\<rparr>"

definition SM_Join :: "ShardMaster \<Rightarrow> string \<Rightarrow> ShardMaster \<times> grpc_status" where
  "SM_Join sm addr =
     (if server_exists (sm_config sm) addr then (sm, Status ALREADY_EXISTS VS_EXISTS)
      else (redistributeChunks (Join_push sm addr), OK))"

text \<open>The erase loop of \<^verbatim>\<open>Leave\<close>: the first entry with the address, and whether there was one.\<close>

primrec erase_server :: "SMConfigEntry list \<Rightarrow> string \<Rightarrow> bool \<times> SMConfigEntry list" where
  "erase_server [] addr = (False, [])"
| "erase_server (c # cs) addr =
     (if vs_addr c = addr then (True, cs)
      else case erase_server cs addr of (found, cs') \<Rightarrow> (found, c # cs'))"

definition SM_Leave :: "ShardMaster \<Rightarrow> string \<Rightarrow> ShardMaster \<times> grpc_status" where
  "SM_Leave sm addr =
     (case erase_server (sm_config sm) addr of (serverExists, cfg) \<Rightarrow>
        let sm' = sm\<lparr>sm_config := cfg\<rparr>
        in if serverExists then (redistributeChunks sm', OK)
           else (sm', Status NOT_FOUND VS_NOT_FOUND))"


section \<open>How often a chunk is held\<close>

definition cover :: "SMShard list \<Rightarrow> u32 \<Rightarrow> nat" where
  "cover ss c = length (filter (\<lambda>s. in_shard s c) ss)"

definition holders :: "SMConfigEntry list \<Rightarrow> u32 \<Rightarrow> nat" where
  "holders cfg c = sum_list (map (\<lambda>e. cover (shards e) c) cfg)"

text \<open>Every chunk from \<open>0\<close> to \<open>NUM_CHUNKS\<close> is in exactly one interval of one server.\<close>

definition partitioned :: "SMConfigEntry list \<Rightarrow> bool" where
  "partitioned cfg \<longleftrightarrow>
     (\<forall>c \<le> SM_NUM_CHUNKS. holders cfg c = 1)
     \<and> (\<forall>e\<in>set cfg. \<forall>s\<in>set (shards e). shard_ok s \<and> upper s \<le> SM_NUM_CHUNKS)"

text \<open>The server the first matching entry names, as \<^verbatim>\<open>Client::getVSAddr\<close> searches it.\<close>

definition owner_of :: "SMConfigEntry list \<Rightarrow> u32 \<Rightarrow> string option" where
  "owner_of cfg c = map_option vs_addr (find (\<lambda>e. list_ex (\<lambda>s. in_shard s c) (shards e)) cfg)"

lemma cover_simps [simp]:
  "cover [] c = 0" "cover (s # ss) c = (if in_shard s c then 1 else 0) + cover ss c"
  "cover (ss @ ts) c = cover ss c + cover ts c"
  by (simp_all add: cover_def)

lemma cover_pos: "list_ex (\<lambda>s. in_shard s c) ss \<longleftrightarrow> 0 < cover ss c"
  by (induction ss) auto

lemma holders_simps [simp]:
  "holders [] c = 0" "holders (e # es) c = cover (shards e) c + holders es c"
  "holders (es @ fs) c = holders es c + holders fs c"
  by (simp_all add: holders_def)

lemma server_exists_iff: "server_exists cfg addr \<longleftrightarrow> addr \<in> vs_addr ` set cfg"
  by (auto simp: server_exists_def list_ex_iff)

lemma holders_le: "e \<in> set cfg \<Longrightarrow> cover (shards e) c \<le> holders cfg c"
  by (auto simp: holders_def intro: member_le_sum_list)

lemma owner_of_Cons:
  "owner_of (e # cfg) c = (if 0 < cover (shards e) c then Some (vs_addr e) else owner_of cfg c)"
  by (simp add: owner_of_def cover_pos)

lemma owner_of_Nil [simp]: "owner_of [] c = None"
  by (simp add: owner_of_def)

lemma owner_exists: "0 < holders cfg c \<Longrightarrow> \<exists>e\<in>set cfg. owner_of cfg c = Some (vs_addr e) \<and> 0 < cover (shards e) c"
  by (induction cfg) (auto simp: owner_of_Cons)

section \<open>Move\<close>

lemma subtract_total: "\<exists>r. subtract a b = Inr r \<and> length r \<le> 2"
  by (rule subtract_cases [of a b]) auto

lemma subtract_cover:
  assumes "shard_ok b" "subtract a b = Inr r"
  shows "cover r c = (if in_shard a c \<and> \<not> in_shard b c then 1 else 0)"
  by (rule subtract_cases [of a b])
     (use assms in \<open>auto simp: shard_ok_def in_shard_def interval_simps\<close>)

lemma subtract_upper_le:
  assumes "shard_ok b" "upper a \<le> n" "subtract a b = Inr r" "s \<in> set r"
  shows "upper s \<le> n"
proof (rule subtract_cases [of a b])
  assume a: "lower a < lower b" "lower b \<le> upper a" "subtract a b = Inr [\<lparr>lower = lower a, upper = lower b - 1\<rparr>]"
  then have "lower b - 1 < lower b" using interval_simps(1) [OF a(1), of "lower b - 1"] by simp
  with a assms show ?thesis by auto
next
  assume a: "lower a < lower b" "lower b \<le> upper a"
    "subtract a b = Inr [\<lparr>lower = lower a, upper = lower b - 1\<rparr>, \<lparr>lower = upper b + 1, upper = upper a\<rparr>]"
  then have "lower b - 1 < lower b" using interval_simps(1) [OF a(1), of "lower b - 1"] by simp
  with a assms show ?thesis by auto
qed (use assms in auto)

lemma move_shards_total: "\<exists>r. move_shards ss mv = Inr r"
proof (induction ss)
  case (Cons s ss)
  then show ?case using subtract_total [of s mv] by auto
qed simp

lemma move_shards_cover:
  assumes "shard_ok mv" "move_shards ss mv = Inr r"
  shows "cover r c = (if in_shard mv c then 0 else cover ss c)"
  using assms(2)
proof (induction ss arbitrary: r)
  case (Cons s ss)
  obtain r1 where r1: "subtract s mv = Inr r1" "length r1 \<le> 2" using subtract_total by blast
  with Cons show ?case
    by (auto simp: fault_simps subtract_cover [OF assms(1) r1(1)])
qed simp

lemma move_shards_wf:
  assumes "shard_ok mv" "\<forall>s\<in>set ss. shard_ok s \<and> upper s \<le> n" "move_shards ss mv = Inr r"
  shows "\<forall>s\<in>set r. shard_ok s \<and> upper s \<le> n"
  using assms(2,3)
proof (induction ss arbitrary: r)
  case (Cons s ss)
  obtain r1 where r1: "subtract s mv = Inr r1" "length r1 \<le> 2" using subtract_total by blast
  have "\<forall>t\<in>set r1. shard_ok t \<and> upper t \<le> n"
    using Cons.prems(1) subtract_shard_ok [OF _ assms(1) r1(1)] subtract_upper_le [OF assms(1) _ r1(1)]
    by auto
  with Cons r1 show ?case by (auto simp: fault_simps)
qed simp

text \<open>
  One entry before and after a move: the moved chunks leave every entry and reach the
  addressed one, every other chunk stays.
\<close>

definition moved_entry :: "string \<Rightarrow> SMShard \<Rightarrow> SMConfigEntry \<Rightarrow> SMConfigEntry \<Rightarrow> bool" where
  "moved_entry addr mv e e' \<longleftrightarrow>
     vs_addr e' = vs_addr e
     \<and> (\<forall>c. cover (shards e') c =
            (if in_shard mv c then if vs_addr e = addr then 1 else 0 else cover (shards e) c))"

lemma move_config_total: "\<exists>cfg'. move_config cfg addr mv = Inr cfg'"
proof (induction cfg)
  case (Cons e cfg)
  then show ?case using move_shards_total [of "shards e" mv] by auto
qed simp

lemma move_config_entries:
  assumes "shard_ok mv" "move_config cfg addr mv = Inr cfg'"
  shows "list_all2 (moved_entry addr mv) cfg cfg'"
  using assms(2)
proof (induction cfg arbitrary: cfg')
  case (Cons e cfg)
  have "moved_entry addr mv e (e\<lparr>shards := if vs_addr e = addr then r @ [mv] else r\<rparr>)"
    if "move_shards (shards e) mv = Inr r" for r
    by (simp add: moved_entry_def move_shards_cover [OF assms(1) that])
  with Cons show ?case by (auto simp: fault_simps)
qed simp

lemma move_config_wf:
  assumes "shard_ok mv" "upper mv \<le> n" "\<forall>e\<in>set cfg. \<forall>s\<in>set (shards e). shard_ok s \<and> upper s \<le> n"
    "move_config cfg addr mv = Inr cfg'"
  shows "\<forall>e\<in>set cfg'. \<forall>s\<in>set (shards e). shard_ok s \<and> upper s \<le> n"
  using assms(3,4)
proof (induction cfg arbitrary: cfg')
  case (Cons e cfg)
  have "\<forall>s\<in>set r. shard_ok s \<and> upper s \<le> n" if "move_shards (shards e) mv = Inr r" for r
    by (rule move_shards_wf [OF assms(1) _ that]) (use Cons.prems(1) in simp)
  moreover obtain r rest where "move_shards (shards e) mv = Inr r" "move_config cfg addr mv = Inr rest"
    "cfg' = e\<lparr>shards := if vs_addr e = addr then r @ [mv] else r\<rparr> # rest"
    using Cons.prems(2) by (auto simp: fault_simps)
  moreover from this Cons have "\<forall>e\<in>set rest. \<forall>s\<in>set (shards e). shard_ok s \<and> upper s \<le> n" by simp
  ultimately show ?case using assms(1,2) by simp
qed simp

lemma moved_addrs: "list_all2 (moved_entry addr mv) cfg cfg' \<Longrightarrow> map vs_addr cfg' = map vs_addr cfg"
  by (induction rule: list_all2_induct) (auto simp: moved_entry_def)

lemma moved_holders:
  assumes "list_all2 (moved_entry addr mv) cfg cfg'"
  shows "holders cfg' c =
    (if in_shard mv c then count_list (map vs_addr cfg) addr else holders cfg c)"
  using assms by (induction rule: list_all2_induct) (auto simp: moved_entry_def)

lemma moved_owner:
  assumes "list_all2 (moved_entry addr mv) cfg cfg'"
  shows "owner_of cfg' c =
    (if in_shard mv c then if addr \<in> vs_addr ` set cfg then Some addr else None
     else owner_of cfg c)"
  using assms by (induction rule: list_all2_induct) (auto simp: moved_entry_def owner_of_Cons)


section \<open>Redistribution\<close>

lemma chunk_quotient:
  assumes "0 < n" "n \<le> 1000"
  shows "unat (SM_NUM_CHUNKS div of_nat n) = 1000 div n" "0 < 1000 div n"
  using assms by (simp_all add: unat_div unat_of_nat_u32 div_greater_zero_iff)

lemma unat_chunk_mult:
  assumes "0 < n" "n \<le> 1000" "i \<le> n"
  shows "unat ((SM_NUM_CHUNKS div of_nat n) * of_nat i :: u32) = 1000 div n * i"
proof -
  have "1000 div n * i \<le> 1000 div n * n" using assms(3) by simp
  also have "\<dots> \<le> 1000" by simp
  finally have "1000 div n * i < 4294967296" by simp
  moreover have "unat (of_nat i :: u32) = i" using assms by (simp add: unat_of_nat_u32)
  ultimately show ?thesis
    using chunk_quotient(1) [OF assms(1,2)] by (simp only: unat_word_ariths) simp
qed

lemma chunk_shard_bounds:
  assumes "0 < n" "n \<le> 1000" "i < n"
  shows "unat (lower (chunk_shard n i)) = 1000 div n * i"
    and "unat (upper (chunk_shard n i)) = (if i = n - 1 then 1000 else 1000 div n * (i + 1) - 1)"
proof -
  show "unat (lower (chunk_shard n i)) = 1000 div n * i"
    using unat_chunk_mult [of n i] assms by (simp add: chunk_shard_def)
  have m: "unat ((SM_NUM_CHUNKS div of_nat n) * of_nat (i + 1) :: u32) = 1000 div n * (i + 1)"
    using unat_chunk_mult [of n "i + 1"] assms by simp
  then have "(SM_NUM_CHUNKS div of_nat n) * of_nat (i + 1) \<noteq> (0 :: u32)"
    using chunk_quotient(2) [OF assms(1,2)] by (metis add_is_0 mult_is_0 neq0_conv one_neq_zero unat_0)
  from unat_minus_one [OF this] m
  show "unat (upper (chunk_shard n i)) = (if i = n - 1 then 1000 else 1000 div n * (i + 1) - 1)"
    by (simp add: chunk_shard_def)
qed

lemma in_chunk_shard:
  assumes n: "0 < n" "n \<le> 1000" and i: "i < n" and c: "c \<le> SM_NUM_CHUNKS"
  shows "in_shard (chunk_shard n i) c \<longleftrightarrow> i = min (unat c div (1000 div n)) (n - 1)"
proof -
  let ?q = "1000 div n"
  have q: "0 < ?q" by (rule chunk_quotient(2) [OF n])
  have c': "unat c \<le> 1000" using c by (simp add: word_le_nat_alt)
  have lo: "?q * i \<le> unat c \<longleftrightarrow> i \<le> unat c div ?q"
    using q by (simp add: less_eq_div_iff_mult_less_eq mult.commute)
  have hi: "unat c \<le> ?q * (i + 1) - 1 \<longleftrightarrow> unat c div ?q \<le> i"
  proof -
    have "unat c \<le> ?q * (i + 1) - 1 \<longleftrightarrow> unat c < ?q * (i + 1)" using q by auto
    also have "\<dots> \<longleftrightarrow> unat c div ?q < i + 1"
      using q by (simp add: div_less_iff_less_mult mult.commute)
    finally show ?thesis by (simp add: less_Suc_eq_le)
  qed
  show ?thesis
  proof (cases "i = n - 1")
    case True
    then show ?thesis
      using chunk_shard_bounds [OF n i] lo c' by (auto simp: in_shard_def word_le_nat_alt min_def)
  next
    case False
    then show ?thesis
      using chunk_shard_bounds [OF n i] lo hi i by (auto simp: in_shard_def word_le_nat_alt min_def)
  qed
qed

lemma redistribute_holders:
  "holders (redistribute_from n i cs) c =
     length (filter (\<lambda>j. in_shard (chunk_shard n j) c) [i..<i + length cs])"
proof (induction cs arbitrary: i)
  case (Cons e cs)
  have "[i..<i + length (e # cs)] = i # [Suc i..<Suc i + length cs]"
    by (subst upt_conv_Cons) simp_all
  then show ?case using Cons [of "Suc i"] by simp
qed simp

lemma redistribute_addrs [simp]: "map vs_addr (redistribute_from n i cs) = map vs_addr cs"
  by (induction cs arbitrary: i) simp_all

lemma redistribute_length [simp]: "length (redistribute_from n i cs) = length cs"
  by (induction cs arbitrary: i) simp_all

lemma redistribute_nth:
  "k < length cs \<Longrightarrow> redistribute_from n i cs ! k = (cs ! k)\<lparr>shards := [chunk_shard n (i + k)]\<rparr>"
  by (induction cs arbitrary: i k) (auto simp: nth_Cons')

lemma redistribute_wf:
  assumes "0 < n" "n \<le> 1000" "i + length cs \<le> n"
  shows "\<forall>e\<in>set (redistribute_from n i cs). \<forall>s\<in>set (shards e). shard_ok s \<and> upper s \<le> SM_NUM_CHUNKS"
  using assms(3)
proof (induction cs arbitrary: i)
  case (Cons e cs)
  have i: "i < n" using Cons.prems by simp
  have "1000 div n * (i + 1) \<le> 1000 div n * n" using i by (intro mult_le_mono2) simp
  also have "\<dots> \<le> 1000" by simp
  finally have le: "1000 div n * (i + 1) \<le> 1000" .
  then have "1000 div n * i \<le> 1000 div n * (i + 1) - 1"
    using chunk_quotient(2) [OF assms(1,2)] by simp
  with le have "shard_ok (chunk_shard n i) \<and> upper (chunk_shard n i) \<le> SM_NUM_CHUNKS"
    using chunk_shard_bounds [OF assms(1,2) i] by (auto simp: shard_ok_def word_le_nat_alt)
  then show ?case using Cons.IH [of "Suc i"] Cons.prems by simp
qed simp

lemma redistribute_partitioned:
  assumes "cfg \<noteq> []" "length cfg \<le> 1000"
  shows "partitioned (redistribute_from (length cfg) 0 cfg)"
proof -
  let ?n = "length cfg"
  have n: "0 < ?n" using assms(1) by simp
  have "holders (redistribute_from ?n 0 cfg) c = 1" if c: "c \<le> SM_NUM_CHUNKS" for c
  proof -
    have "filter (\<lambda>j. in_shard (chunk_shard ?n j) c) [0..<?n]
        = filter (\<lambda>j. j = min (unat c div (1000 div ?n)) (?n - 1)) [0..<?n]"
      by (rule filter_cong [OF refl]) (use in_chunk_shard [OF n assms(2) _ c] in auto)
    moreover have "min (unat c div (1000 div ?n)) (?n - 1) < ?n" using n by (simp add: min_less_iff_disj)
    ultimately show ?thesis
      by (simp add: redistribute_holders length_filter_eq_distinct)
  qed
  then show ?thesis
    using redistribute_wf [OF n assms(2), of 0 cfg] by (simp add: partitioned_def)
qed


section \<open>The invariant\<close>

definition sm_inv :: "ShardMaster \<Rightarrow> bool" where
  "sm_inv sm \<longleftrightarrow>
     distinct (map vs_addr (sm_config sm))
     \<and> (sm_config sm \<noteq> [] \<longrightarrow> length (sm_config sm) \<le> 1000 \<longrightarrow> partitioned (sm_config sm))"

definition valid_shard :: "Shard \<Rightarrow> bool" where
  "valid_shard shard \<longleftrightarrow> fst shard \<le> snd shard \<and> snd shard \<le> SM_NUM_CHUNKS"

lemma sm_inv_init: "sm_inv ShardMaster_init"
  by (simp add: sm_inv_def ShardMaster_init_def)

lemma redistribute_inv:
  assumes "distinct (map vs_addr (sm_config sm))"
  shows "sm_inv (redistributeChunks sm)"
proof -
  have "redistribute_from n 0 cfg \<noteq> [] \<longleftrightarrow> cfg \<noteq> []" for n cfg
    by (metis length_0_conv redistribute_length)
  with assms show ?thesis
    by (simp add: sm_inv_def redistributeChunks_def redistribute_partitioned)
qed

lemma Join_inv: "sm_inv sm \<Longrightarrow> sm_inv (fst (SM_Join sm addr))"
  by (auto simp: SM_Join_def Join_push_def server_exists_iff sm_inv_def [of sm]
      intro!: redistribute_inv)

lemma erase_server_found: "fst (erase_server cfg addr) \<longleftrightarrow> addr \<in> vs_addr ` set cfg"
  by (induction cfg) (auto split: prod.splits)

lemma erase_server_addrs: "map vs_addr (snd (erase_server cfg addr)) = remove1 addr (map vs_addr cfg)"
  by (induction cfg) (auto split: prod.splits)

lemma erase_server_absent: "addr \<notin> vs_addr ` set cfg \<Longrightarrow> snd (erase_server cfg addr) = cfg"
  by (induction cfg) (auto split: prod.splits)

lemma Leave_inv: "sm_inv sm \<Longrightarrow> sm_inv (fst (SM_Leave sm addr))"
proof -
  assume inv: "sm_inv sm"
  obtain f cfg where e: "erase_server (sm_config sm) addr = (f, cfg)" by fastforce
  have "map vs_addr cfg = remove1 addr (map vs_addr (sm_config sm))"
    using erase_server_addrs [of "sm_config sm" addr] e by simp
  then have "distinct (map vs_addr cfg)" using inv by (simp add: sm_inv_def)
  moreover have "cfg = sm_config sm" if "\<not> f"
    using that e erase_server_found [of "sm_config sm" addr] erase_server_absent [of addr "sm_config sm"]
    by simp
  ultimately show ?thesis
    using inv e by (auto simp: SM_Leave_def Let_def intro: redistribute_inv)
qed

lemma Move_apply_effect:
  assumes "fst shard \<le> snd shard"
  shows "\<exists>cfg. Move_apply sm server shard = Inr (sm\<lparr>sm_config := cfg, config_num := config_num sm + 1\<rparr>)
    \<and> move_config (sm_config sm) server (mk_shard (fst shard) (snd shard)) = Inr cfg
    \<and> list_all2 (moved_entry server (mk_shard (fst shard) (snd shard))) (sm_config sm) cfg"
proof -
  let ?mv = "mk_shard (fst shard) (snd shard)"
  obtain cfg where cfg: "move_config (sm_config sm) server ?mv = Inr cfg"
    using move_config_total by blast
  moreover have "shard_ok ?mv" using assms by (simp add: shard_ok_def mk_shard_def)
  ultimately show ?thesis using move_config_entries by (simp add: Move_apply_def)
qed

lemma partitioned_move:
  assumes "partitioned cfg" "distinct (map vs_addr cfg)" "server_exists cfg server"
    "valid_shard shard" "move_config cfg server (mk_shard (fst shard) (snd shard)) = Inr cfg'"
  shows "partitioned cfg'"
proof -
  let ?mv = "mk_shard (fst shard) (snd shard)"
  have mv: "shard_ok ?mv" "upper ?mv \<le> SM_NUM_CHUNKS"
    using assms(4) by (simp_all add: valid_shard_def mk_shard_def shard_ok_def)
  have "count_list (map vs_addr cfg) server = 1"
    using assms(2,3) by (simp add: count_list_distinct server_exists_iff)
  then show ?thesis
    using moved_holders [OF move_config_entries [OF mv(1) assms(5)]]
      move_config_wf [OF mv _ assms(5)] assms(1) by (simp add: partitioned_def)
qed

lemma Move_inv:
  assumes "sm_inv sm" "valid_shard shard"
  shows "\<exists>sm' st. SM_Move sm server shard = Inr (sm', st) \<and> sm_inv sm'"
proof (cases "server_exists (sm_config sm) server")
  case True
  have "fst shard \<le> snd shard" using assms(2) by (simp add: valid_shard_def)
  from Move_apply_effect [OF this, of sm server]
  obtain cfg where cfg: "Move_apply sm server shard = Inr (sm\<lparr>sm_config := cfg, config_num := config_num sm + 1\<rparr>)"
    "move_config (sm_config sm) server (mk_shard (fst shard) (snd shard)) = Inr cfg"
    "list_all2 (moved_entry server (mk_shard (fst shard) (snd shard))) (sm_config sm) cfg" by blast
  have "map vs_addr cfg = map vs_addr (sm_config sm)" by (rule moved_addrs [OF cfg(3)])
  moreover have "length cfg = length (sm_config sm)" using cfg(3) by (simp add: list_all2_lengthD)
  ultimately show ?thesis
    using True assms cfg(1) partitioned_move [OF _ _ True assms(2) cfg(2)]
    by (auto simp: SM_Move_def sm_inv_def)
qed (use assms in \<open>simp add: SM_Move_def\<close>)

section \<open>Sessions\<close>

datatype sm_request =
    Join_req string
  | Leave_req string
  | Move_req string Shard
  | Query_req
  | QueryConfigNum_req

datatype sm_reply = Ack grpc_status | Config QueryResponse | Config_Num u32

fun sm_handle :: "ShardMaster \<Rightarrow> sm_request \<Rightarrow> fault + ShardMaster \<times> sm_reply" where
  "sm_handle sm (Join_req addr) = (case SM_Join sm addr of (sm', st) \<Rightarrow> Inr (sm', Ack st))"
| "sm_handle sm (Leave_req addr) = (case SM_Leave sm addr of (sm', st) \<Rightarrow> Inr (sm', Ack st))"
| "sm_handle sm (Move_req server shard) =
     and_then (SM_Move sm server shard) (\<lambda>(sm', st). Inr (sm', Ack st))"
| "sm_handle sm Query_req = Inr (sm, Config (snd (SM_Query sm)))"
| "sm_handle sm QueryConfigNum_req = Inr (sm, Config_Num (snd (SM_QueryConfigNum sm)))"

fun sm_valid :: "sm_request \<Rightarrow> bool" where
  "sm_valid (Move_req server shard) = valid_shard shard"
| "sm_valid _ = True"

lemma sm_handle_inv:
  assumes "sm_inv sm" "sm_valid r"
  shows "\<exists>sm' p. sm_handle sm r = Inr (sm', p) \<and> sm_inv sm'"
proof (cases r)
  case (Move_req server shard)
  then show ?thesis using Move_inv [OF assms(1), of shard server] assms(2) by auto
qed (use assms Join_inv [of sm] Leave_inv [of sm] in \<open>auto simp: case_prod_unfold\<close>)

interpretation sm: service sm_handle sm_inv sm_valid
  by unfold_locales (rule sm_handle_inv)


text \<open>
  (C3) Whatever sequence of Join, Leave, Query and Move requests a shard master serves from its
  start, as long as the moved intervals are not inverted and lie within \<open>0..1000\<close>, no handler
  faults, no address is registered twice, and with 1 to 1000 servers every chunk is in exactly
  one interval of exactly one server.
\<close>

theorem sm_session_partition:
  assumes "list_all sm_valid rs"
  shows "\<exists>sm reps. run_requests sm_handle ShardMaster_init rs = Inr (sm, reps)
    \<and> distinct (map vs_addr (sm_config sm))
    \<and> (sm_config sm \<noteq> [] \<longrightarrow> length (sm_config sm) \<le> 1000 \<longrightarrow> partitioned (sm_config sm))"
  using sm.run_inv [OF sm_inv_init assms] by (auto simp: sm_inv_def)

definition example_session :: "sm_request list" where
  "example_session = [Join_req ''A'', Join_req ''B'', Move_req ''B'' (100, 300), Leave_req ''A'', Query_req]"

theorem sm_session_partition_witness:
  "list_all sm_valid example_session
   \<and> (\<exists>sm reps. run_requests sm_handle ShardMaster_init example_session = Inr (sm, reps)
        \<and> distinct (map vs_addr (sm_config sm))
        \<and> (sm_config sm \<noteq> [] \<longrightarrow> length (sm_config sm) \<le> 1000 \<longrightarrow> partitioned (sm_config sm)))"
proof -
  have "list_all sm_valid example_session" by (simp add: example_session_def valid_shard_def)
  with sm_session_partition [OF this] show ?thesis by blast
qed

text \<open>
  (C21) A move to a known server with an interval that is not inverted succeeds, counts the
  configuration up by one, keeps the servers, and overrides the ownership map on exactly the
  moved chunks: the refinement of the abstract operation ``assign this interval to that server''.
\<close>

theorem SM_Move_refines_assignment:
  assumes "server_exists (sm_config sm) server" "l \<le> u"
  shows "\<exists>sm'. SM_Move sm server (l, u) = Inr (sm', OK)
    \<and> config_num sm' = config_num sm + 1
    \<and> map vs_addr (sm_config sm') = map vs_addr (sm_config sm)
    \<and> owner_of (sm_config sm') =
        (\<lambda>c. if l \<le> c \<and> c \<le> u then Some server else owner_of (sm_config sm) c)"
proof -
  have lu: "fst (l, u) \<le> snd (l, u)" using assms(2) by simp
  obtain cfg where cfg: "Move_apply sm server (l, u) = Inr (sm\<lparr>sm_config := cfg, config_num := config_num sm + 1\<rparr>)"
    "list_all2 (moved_entry server (mk_shard l u)) (sm_config sm) cfg"
    using Move_apply_effect [OF lu, of sm server] by auto
  moreover have "owner_of cfg = (\<lambda>c. if l \<le> c \<and> c \<le> u then Some server else owner_of (sm_config sm) c)"
    using moved_owner [OF cfg(2)] assms(1)
    by (auto simp: server_exists_iff in_shard_def mk_shard_def)
  ultimately show ?thesis
    using assms(1) moved_addrs [OF cfg(2)] by (simp add: SM_Move_def)
qed

definition two_servers :: ShardMaster where
  "two_servers = fst (SM_Join (fst (SM_Join ShardMaster_init ''A'')) ''B'')"

theorem SM_Move_refines_assignment_witness:
  "server_exists (sm_config two_servers) ''B'' \<and> (100 :: u32) \<le> 300
   \<and> (\<exists>sm'. SM_Move two_servers ''B'' (100, 300) = Inr (sm', OK)
        \<and> config_num sm' = config_num two_servers + 1
        \<and> map vs_addr (sm_config sm') = map vs_addr (sm_config two_servers)
        \<and> owner_of (sm_config sm') =
            (\<lambda>c. if 100 \<le> c \<and> c \<le> 300 then Some ''B'' else owner_of (sm_config two_servers) c))"
proof -
  have "server_exists (sm_config two_servers) ''B''" by code_simp
  moreover have "(100 :: u32) \<le> 300" by simp
  ultimately show ?thesis using SM_Move_refines_assignment [of two_servers "''B''" 100 300] by blast
qed

text \<open>
  (C32) After a Join that is accepted, the servers are the old ones and the new one, in that
  order, and of \<open>n \<le> 1000\<close> servers number \<open>i\<close> holds the chunks from \<open>(1000 div n) * i\<close> to just
  below the next server's, the last one up to chunk \<open>1000\<close>.
\<close>

theorem SM_Join_redistributes:
  assumes "\<not> server_exists (sm_config sm) addr" "length (sm_config sm) < 1000"
    "SM_Join sm addr = (sm', st)" "i \<le> length (sm_config sm)"
  shows "st = OK \<and> map vs_addr (sm_config sm') = map vs_addr (sm_config sm) @ [addr]
    \<and> config_num sm' = config_num sm + 1
    \<and> (let n = length (sm_config sm) + 1
       in \<exists>s. shards (sm_config sm' ! i) = [s] \<and> unat (lower s) = 1000 div n * i
          \<and> unat (upper s) = (if i = n - 1 then 1000 else 1000 div n * (i + 1) - 1))"
proof -
  let ?cfg = "sm_config sm @ [\<lparr>shards = [], vs_addr = addr\<rparr>]" and ?n = "length (sm_config sm) + 1"
  have sm': "sm' = redistributeChunks (Join_push sm addr)" "st = OK"
    using assms(1,3) by (simp_all add: SM_Join_def)
  then have cfg: "sm_config sm' = redistribute_from ?n 0 ?cfg"
    by (simp add: redistributeChunks_def Join_push_def)
  have n: "0 < ?n" "?n \<le> 1000" "i < ?n" using assms by simp_all
  have "shards (sm_config sm' ! i) = [chunk_shard ?n i]"
    unfolding cfg by (subst redistribute_nth) (use n in simp_all)
  then show ?thesis
    using chunk_shard_bounds [OF n] sm' unfolding cfg
    by (simp add: redistributeChunks_def Join_push_def Let_def)
qed

theorem SM_Join_redistributes_witness:
  "\<not> server_exists (sm_config two_servers) ''C'' \<and> length (sm_config two_servers) < 1000
   \<and> snd (SM_Join two_servers ''C'') = OK
   \<and> (\<exists>s. shards (sm_config (fst (SM_Join two_servers ''C'')) ! 1) = [s]
        \<and> unat (lower s) = 333 \<and> unat (upper s) = 665)"
proof -
  have len: "length (sm_config two_servers) = 2" by code_simp
  have new: "\<not> server_exists (sm_config two_servers) ''C''" by code_simp
  obtain sm' st where j: "SM_Join two_servers ''C'' = (sm', st)" by fastforce
  show ?thesis
    using SM_Join_redistributes [OF new _ j, of 1] len new j by (simp add: Let_def)
qed

text \<open>
  Every refused request leaves the shard master as it was: Join of a registered address
  answers \<open>ALREADY_EXISTS\<close>, Leave and Move of an unknown one \<open>NOT_FOUND\<close>.
\<close>

theorem SM_errors_keep_state:
  "(server_exists (sm_config sm) addr \<longrightarrow> SM_Join sm addr = (sm, Status ALREADY_EXISTS VS_EXISTS))
   \<and> (\<not> server_exists (sm_config sm) addr \<longrightarrow>
        SM_Leave sm addr = (sm, Status NOT_FOUND VS_NOT_FOUND)
        \<and> SM_Move sm addr shard = Inr (sm, Status NOT_FOUND VS_NOT_FOUND))"
  using erase_server_found [of "sm_config sm" addr] erase_server_absent [of addr "sm_config sm"]
  by (simp add: SM_Join_def SM_Move_def SM_Leave_def server_exists_iff case_prod_unfold Let_def)

theorem SM_errors_keep_state_witness:
  "server_exists (sm_config two_servers) ''A''
   \<and> SM_Join two_servers ''A'' = (two_servers, Status ALREADY_EXISTS VS_EXISTS)
   \<and> \<not> server_exists (sm_config two_servers) ''Z''
   \<and> SM_Leave two_servers ''Z'' = (two_servers, Status NOT_FOUND VS_NOT_FOUND)
   \<and> SM_Move two_servers ''Z'' (1, 2) = Inr (two_servers, Status NOT_FOUND VS_NOT_FOUND)"
proof -
  have a: "server_exists (sm_config two_servers) ''A''" by code_simp
  have z: "\<not> server_exists (sm_config two_servers) ''Z''" by code_simp
  show ?thesis
    using a z SM_errors_keep_state [of two_servers "''A''"]
      SM_errors_keep_state [of two_servers "''Z''" "(1, 2)"] by blast
qed


text \<open>
  With more than 1000 servers the quotient \<^verbatim>\<open>NUM_CHUNKS / num_vs\<close> is \<open>0\<close> and the upper
  bound \<^verbatim>\<open>0 * (i + 1) - 1\<close> wraps around: every server but the last is given the interval from
  \<open>0\<close> to \<open>2^32 - 1\<close>, so all of them hold every chunk.
\<close>

theorem redistribute_beyond_1000_wraps:
  assumes "1000 < num_vs" "num_vs < 4294967296" "i < num_vs - 1"
  shows "lower (chunk_shard num_vs i) = 0 \<and> upper (chunk_shard num_vs i) = 4294967295"
proof -
  have "(SM_NUM_CHUNKS div of_nat num_vs :: u32) = 0"
    using assms(1,2) by (simp add: word_unat_eq_iff unat_div unat_of_nat_u32)
  then show ?thesis using assms(3) by (simp add: chunk_shard_def)
qed

theorem redistribute_beyond_1000_wraps_witness:
  "lower (chunk_shard 1001 7) = 0 \<and> upper (chunk_shard 1001 7) = 4294967295"
  using redistribute_beyond_1000_wraps [of 1001 7] by simp

text \<open>
  Move does not check its interval. With the inverted interval \<open>(5, 3)\<close> moved to the only
  server, chunk \<open>4\<close> ends up in two of its intervals and an empty interval is stored.
\<close>

theorem SM_Move_inverted_duplicates:
  "SM_Move (fst (SM_Join ShardMaster_init ''A'')) ''A'' (5, 3) =
     Inr (\<lparr>sm_config = [\<lparr>shards = [mk_shard 0 4, mk_shard 4 1000, mk_shard 5 3], vs_addr = ''A''\<rparr>],
           config_num = 2\<rparr>, OK)
   \<and> holders [\<lparr>shards = [mk_shard 0 4, mk_shard 4 1000, mk_shard 5 3], vs_addr = ''A''\<rparr>] 4 = 2"
  by code_simp

section \<open>Concurrent handlers\<close>

text \<open>
  gRPC runs handlers on several threads. Each segment below is what a handler does between two
  points where another handler can run: the existence checks of Join and Move are outside the
  mutex, and Join and Leave release it before \<^verbatim>\<open>redistributeChunks\<close> takes it again. A schedule
  is the list of the thread numbers in the order in which they execute one segment.
\<close>

datatype sm_pc =
    PC_Join_check string
  | PC_Join_push string
  | PC_Redistribute
  | PC_Leave string
  | PC_Move_check string Shard
  | PC_Move_apply string Shard
  | PC_Done grpc_status

fun sm_thread_step :: "ShardMaster \<Rightarrow> sm_pc \<Rightarrow> fault + ShardMaster \<times> sm_pc" where
  "sm_thread_step sm (PC_Join_check addr) =
     Inr (sm, if server_exists (sm_config sm) addr then PC_Done (Status ALREADY_EXISTS VS_EXISTS)
              else PC_Join_push addr)"
| "sm_thread_step sm (PC_Join_push addr) = Inr (Join_push sm addr, PC_Redistribute)"
| "sm_thread_step sm PC_Redistribute = Inr (redistributeChunks sm, PC_Done OK)"
| "sm_thread_step sm (PC_Leave addr) =
     (case erase_server (sm_config sm) addr of (serverExists, cfg) \<Rightarrow>
        Inr (sm\<lparr>sm_config := cfg\<rparr>,
             if serverExists then PC_Redistribute else PC_Done (Status NOT_FOUND VS_NOT_FOUND)))"
| "sm_thread_step sm (PC_Move_check server shard) =
     Inr (sm, if server_exists (sm_config sm) server then PC_Move_apply server shard
              else PC_Done (Status NOT_FOUND VS_NOT_FOUND))"
| "sm_thread_step sm (PC_Move_apply server shard) =
     and_then (Move_apply sm server shard) (\<lambda>sm'. Inr (sm', PC_Done OK))"
| "sm_thread_step sm (PC_Done st) = Inr (sm, PC_Done st)"

fun sm_schedule :: "ShardMaster \<Rightarrow> sm_pc list \<Rightarrow> nat list \<Rightarrow> fault + ShardMaster \<times> sm_pc list" where
  "sm_schedule sm pcs [] = Inr (sm, pcs)"
| "sm_schedule sm pcs (t # ts) =
     (if t < length pcs
      then and_then (sm_thread_step sm (pcs ! t)) (\<lambda>(sm', pc). sm_schedule sm' (pcs[t := pc]) ts)
      else sm_schedule sm pcs ts)"

lemma sm_thread_step_total: "\<exists>sm' pc'. sm_thread_step sm pc = Inr (sm', pc')"
proof (cases pc)
  case (PC_Move_apply server shard)
  then show ?thesis using move_config_total [of "sm_config sm" server "mk_shard (fst shard) (snd shard)"]
    by (auto simp: Move_apply_def)
qed (auto split: prod.splits)

text \<open>
  Run alone, the segments of a handler do what the sequential handler does, and no
  interleaving of any handlers faults.
\<close>

theorem sm_segments_refine_handlers:
  "sm_schedule sm [PC_Join_check addr] [0, 0, 0] =
     Inr (fst (SM_Join sm addr), [PC_Done (snd (SM_Join sm addr))])
   \<and> sm_schedule sm [PC_Leave addr] [0, 0] =
     Inr (fst (SM_Leave sm addr), [PC_Done (snd (SM_Leave sm addr))])
   \<and> sm_schedule sm [PC_Move_check addr shard] [0, 0] =
     and_then (SM_Move sm addr shard) (\<lambda>(sm', st). Inr (sm', [PC_Done st]))
   \<and> is_ok (sm_schedule sm pcs ts)"
proof -
  have "is_ok (sm_schedule sm pcs ts)"
  proof (induction ts arbitrary: sm pcs)
    case (Cons t ts)
    then show ?case using sm_thread_step_total [of sm "pcs ! t"] by auto
  qed simp
  then show ?thesis
    by (cases "Move_apply sm addr shard")
       (simp_all add: SM_Join_def SM_Leave_def SM_Move_def Let_def case_prod_unfold)
qed

text \<open>
  The unlocked checks are races. Two concurrent Joins of one address can both be accepted,
  and leave the address registered twice; a Move whose target leaves between its check and its
  update answers \<open>OK\<close> although nobody holds the moved chunks afterwards.
\<close>

theorem sm_unlocked_checks_race:
  "(case sm_schedule ShardMaster_init [PC_Join_check ''A'', PC_Join_check ''A''] [0, 1, 0, 1, 0, 1] of
      Inl _ \<Rightarrow> False
    | Inr (sm, pcs) \<Rightarrow> pcs = [PC_Done OK, PC_Done OK] \<and> map vs_addr (sm_config sm) = [''A'', ''A''])
   \<and> (case sm_schedule two_servers [PC_Move_check ''B'' (100, 300), PC_Leave ''B''] [0, 1, 1, 0] of
      Inl _ \<Rightarrow> False
    | Inr (sm, pcs) \<Rightarrow> pcs = [PC_Done OK, PC_Done OK] \<and> owner_of (sm_config sm) 200 = None)"
  by code_simp

end
