(* ===== verification/CQ_Bits.thy ===== *)
theory CQ_Bits
  imports DKV_Prelude
begin

text \<open>
  The integer helpers of \<^verbatim>\<open>moodycamel::details\<close>
  (\<^verbatim>\<open>src/utils/concurrentqueue-1.0.3/concurrentqueue.h\<close>): the finalizer of MurmurHash3 that spreads a
  thread id over a word, the comparison of indices that wrap around, the alignment of an address
  and the rounding up to a power of two. Each works on an unsigned type of a fixed width and is
  stated at that width, with the arithmetic wrapping around.

  The lemmas say what the queue relies on: two threads never have the same hash, the comparison
  of two indices is the comparison of the unbounded counters they abbreviate as long as these are
  less than half the range apart, and the rounded size is the least power of two.
\<close>

section \<open>Hash of a thread id\<close>

definition xorshift :: "nat \<Rightarrow> 'a::len word \<Rightarrow> 'a word" where
  "xorshift k h = h XOR drop_bit k h"

definition hash_32 :: "u32 \<Rightarrow> u32" where
  "hash_32 h =
     (let h = xorshift 16 h;
          h = h * 0x85ebca6b;
          h = xorshift 13 h;
          h = h * 0xc2b2ae35
      in xorshift 16 h)"

definition hash_64 :: "u64 \<Rightarrow> u64" where
  "hash_64 h =
     (let h = xorshift 33 h;
          h = h * 0xff51afd7ed558ccd;
          h = xorshift 33 h;
          h = h * 0xc4ceb9fe1a85ec53
      in xorshift 33 h)"

text \<open>
  A thread id of the platform is a 64-bit value (\<^verbatim>\<open>pthread_t\<close>), which \<^verbatim>\<open>prehash\<close> returns as
  it is, so the 64-bit finalizer is the one that is instantiated.
\<close>

definition hash_thread_id :: "u64 \<Rightarrow> u64" where
  "hash_thread_id tid = hash_64 tid"

section \<open>Indices, addresses and sizes\<close>

definition circular_less_than :: "'a::len word \<Rightarrow> 'a word \<Rightarrow> bool" where
  "circular_less_than a b \<longleftrightarrow> a - b > push_bit (LENGTH('a) - 1) 1"

definition align_for :: "u64 \<Rightarrow> u64 \<Rightarrow> u64" where
  "align_for alignment ptr = ptr + (alignment - ptr mod alignment) mod alignment"

text \<open>The loop of \<^verbatim>\<open>ceil_to_pow_2\<close> doubles \<open>i\<close> until it reaches \<^verbatim>\<open>sizeof(T)\<close>.\<close>

function ceil_spread :: "nat \<Rightarrow> nat \<Rightarrow> 'a::len word \<Rightarrow> 'a word" where
  "ceil_spread sizeof i x =
     (if 0 < i \<and> i < sizeof
      then ceil_spread sizeof (push_bit 1 i) (x OR drop_bit (push_bit 3 i) x) else x)"
  by pat_completeness auto
termination
  by (relation "measure (\<lambda>(sizeof, i, x). sizeof - i)") (auto simp: push_bit_eq_mult)

declare ceil_spread.simps [simp del]

definition ceil_to_pow_2 :: "'a::len word \<Rightarrow> 'a word" where
  "ceil_to_pow_2 x =
     (let x = x - 1;
          x = x OR drop_bit 1 x;
          x = x OR drop_bit 2 x;
          x = x OR drop_bit 4 x;
          x = ceil_spread (LENGTH('a) div 8) 1 x
      in x + 1)"

section \<open>The hash is injective\<close>

lemma xor_eq_zeroD:
  fixes x y :: "'a::len word"
  assumes "x XOR y = 0"
  shows "x = y"
proof -
  have "(x XOR y) XOR y = y" using assms by simp
  then show ?thesis by (simp only: xor.assoc xor_self_eq xor.right_neutral)
qed

lemma xorshift_inject:
  fixes x y :: "'a::len word"
  assumes "0 < k" "xorshift k x = xorshift k y"
  shows "x = y"
proof (rule ccontr)
  assume "x \<noteq> y"
  define z where "z = x XOR y"
  have "xorshift k x XOR xorshift k y = z XOR drop_bit k z"
    by (simp add: xorshift_def z_def drop_bit_xor ac_simps)
  then have "z XOR drop_bit k z = 0" using assms(2) by simp
  then have "z = drop_bit k z" by (rule xor_eq_zeroD)
  then have "unat z = unat (drop_bit k z)" by (rule arg_cong)
  then have "unat z = drop_bit k (take_bit LENGTH('a) (unat z))"
    by (simp only: unsigned_drop_bit_eq)
  then have "unat z = unat z div 2 ^ k"
    by (simp only: take_bit_nat_eq_self [OF unsigned_less] drop_bit_eq_div)
  moreover have "0 < unat z"
    using \<open>x \<noteq> y\<close> xor_eq_zeroD [of x y] by (auto simp: z_def unat_gt_0)
  then have "unat z div 2 ^ k < unat z"
    using one_less_power [of "2 :: nat", OF _ assms(1)] by (intro div_less_dividend) simp_all
  ultimately show False by simp
qed

lemma mult_inject_inverse:
  fixes c d :: "'a::len word"
  assumes "c * d = 1" "x * c = y * c"
  shows "x = y"
proof -
  have "x * (c * d) = y * (c * d)" using assms(2) by (simp only: mult.assoc [symmetric])
  then show ?thesis using assms(1) by simp
qed

lemma inj_hash_32: "inj hash_32"
proof (rule injI)
  fix x y
  assume "hash_32 x = hash_32 y"
  then have "xorshift 13 (xorshift 16 x * 0x85ebca6b) * 0xc2b2ae35
      = xorshift 13 (xorshift 16 y * 0x85ebca6b) * 0xc2b2ae35"
    unfolding hash_32_def Let_def by (rule xorshift_inject [rotated]) simp
  then have "xorshift 13 (xorshift 16 x * 0x85ebca6b) = xorshift 13 (xorshift 16 y * 0x85ebca6b)"
    by (rule mult_inject_inverse [rotated, where d = "0x7ed1b41d"]) simp
  then have "xorshift 16 x * 0x85ebca6b = xorshift 16 y * 0x85ebca6b"
    by (rule xorshift_inject [rotated]) simp
  then have "xorshift 16 x = xorshift 16 y"
    by (rule mult_inject_inverse [rotated, where d = "0xa5cb9243"]) simp
  then show "x = y" by (rule xorshift_inject [rotated]) simp
qed

lemma inj_hash_64: "inj hash_64"
proof (rule injI)
  fix x y
  assume "hash_64 x = hash_64 y"
  then have "xorshift 33 (xorshift 33 x * 0xff51afd7ed558ccd) * 0xc4ceb9fe1a85ec53
      = xorshift 33 (xorshift 33 y * 0xff51afd7ed558ccd) * 0xc4ceb9fe1a85ec53"
    unfolding hash_64_def Let_def by (rule xorshift_inject [rotated]) simp
  then have "xorshift 33 (xorshift 33 x * 0xff51afd7ed558ccd)
      = xorshift 33 (xorshift 33 y * 0xff51afd7ed558ccd)"
    by (rule mult_inject_inverse [rotated, where d = "0x9cb4b2f8129337db"]) simp
  then have "xorshift 33 x * 0xff51afd7ed558ccd = xorshift 33 y * 0xff51afd7ed558ccd"
    by (rule xorshift_inject [rotated]) simp
  then have "xorshift 33 x = xorshift 33 y"
    by (rule mult_inject_inverse [rotated, where d = "0x4f74430c22a54005"]) simp
  then show "x = y" by (rule xorshift_inject [rotated]) simp
qed

theorem hash_thread_id_injective: "hash_thread_id a = hash_thread_id b \<longleftrightarrow> a = b"
  unfolding hash_thread_id_def using inj_hash_64 by (auto dest: injD)

section \<open>Comparison of wrapping indices\<close>

lemma unat_of_nat_small:
  "n < 2 ^ LENGTH('a) \<Longrightarrow> unat (of_nat n :: 'a::len word) = n"
  by (simp only: unat_of_nat mod_less)

lemma unat_of_nat_diff:
  fixes A B :: nat
  assumes "B \<le> A" "A - B < 2 ^ LENGTH('a)"
  shows "unat (of_nat A - of_nat B :: 'a::len word) = A - B"
proof -
  have "of_nat A - of_nat B = (of_nat (A - B) :: 'a word)"
    using assms(1) by (simp add: of_nat_diff)
  then show ?thesis using assms(2) by (simp add: unat_of_nat take_bit_nat_eq_self)
qed

lemma unat_of_nat_diff_neg:
  fixes A B :: nat
  assumes "A < B" "B - A \<le> 2 ^ LENGTH('a)"
  shows "unat (of_nat A - of_nat B :: 'a::len word) = 2 ^ LENGTH('a) - (B - A)"
proof -
  have "of_nat A - of_nat B = (of_nat (A + 2 ^ LENGTH('a) - B) :: 'a word)"
    using assms by (simp add: of_nat_diff)
  also have "A + 2 ^ LENGTH('a) - B = 2 ^ LENGTH('a) - (B - A)" using assms by simp
  finally have "of_nat A - of_nat B = (of_nat (2 ^ LENGTH('a) - (B - A)) :: 'a word)" .
  moreover have "(2::nat) ^ LENGTH('a) - (B - A) < 2 ^ LENGTH('a)"
    using assms(1) by (intro diff_less) simp_all
  ultimately show ?thesis by (simp only: unat_of_nat_small)
qed

lemma unat_half_range: "unat (push_bit (LENGTH('a) - 1) 1 :: 'a::len word) = 2 ^ (LENGTH('a) - 1)"
  proof -
  have "(2::nat) ^ (LENGTH('a) - 1) < 2 ^ LENGTH('a)" by (rule power_strict_increasing) simp_all
  then have "unat (of_nat (2 ^ (LENGTH('a) - 1)) :: 'a word) = 2 ^ (LENGTH('a) - 1)"
    by (rule unat_of_nat_small)
  then show ?thesis by (simp add: push_bit_eq_mult)
qed

lemma circular_less_than_of_nat:
  fixes A B :: nat
  assumes "A \<le> B + 2 ^ (LENGTH('a) - 1)" "B < A + 2 ^ (LENGTH('a) - 1)"
  shows "circular_less_than (of_nat A :: 'a::len word) (of_nat B) \<longleftrightarrow> A < B"
proof -
  have half: "(2::nat) ^ LENGTH('a) = 2 * 2 ^ (LENGTH('a) - 1)"
    by (metis Suc_diff_1 len_gt_0 power_Suc)
  show ?thesis
  proof (cases "A < B")
    case True
    with assms half show ?thesis
      unfolding circular_less_than_def word_less_nat_alt unat_half_range
      by (subst unat_of_nat_diff_neg) auto
  next
    case False
    with assms half show ?thesis
      unfolding circular_less_than_def word_less_nat_alt unat_half_range
      by (subst unat_of_nat_diff) auto
  qed
qed

section \<open>Alignment\<close>

lemma align_offset:
  fixes p a :: nat
  assumes "0 < a"
  shows "a dvd p + (a - p mod a) mod a" "(a - p mod a) mod a < a"
proof -
  have "(p + q mod a) mod a = (p mod a + q) mod a" for q
    by (simp only: mod_add_left_eq mod_add_right_eq)
  then have "(p + (a - p mod a) mod a) mod a = (p mod a + (a - p mod a)) mod a" .
  also have "p mod a + (a - p mod a) = a" using mod_le_divisor [OF assms, of p] by simp
  finally have "(p + (a - p mod a) mod a) mod a = a mod a" .
  then show "a dvd p + (a - p mod a) mod a" by (simp only: dvd_eq_mod_eq_0 mod_self)
qed (use assms in simp)

theorem align_for_aligned:
  assumes "0 < alignment" "unat ptr + unat alignment \<le> 2 ^ 64"
  shows "unat alignment dvd unat (align_for alignment ptr)"
    and "ptr \<le> align_for alignment ptr"
    and "unat (align_for alignment ptr) < unat ptr + unat alignment"
proof -
  have pos: "0 < unat alignment" using assms(1) by (simp add: word_less_nat_alt)
  have "unat (ptr mod alignment) < unat alignment"
    using pos by (simp add: unat_mod)
  then have off: "unat ((alignment - ptr mod alignment) mod alignment)
      = (unat alignment - unat ptr mod unat alignment) mod unat alignment"
    by (simp add: unat_mod unat_sub word_le_nat_alt)
  moreover have "\<dots> < unat alignment" using pos by simp
  ultimately have eq: "unat (align_for alignment ptr)
      = unat ptr + (unat alignment - unat ptr mod unat alignment) mod unat alignment"
    unfolding align_for_def using assms(2) by (subst unat_add_lem [THEN iffD1]) simp_all
  then show "unat alignment dvd unat (align_for alignment ptr)"
    and "ptr \<le> align_for alignment ptr"
    and "unat (align_for alignment ptr) < unat ptr + unat alignment"
    using align_offset [OF pos, of "unat ptr"] by (simp_all add: word_le_nat_alt)
qed

section \<open>Rounding up to a power of two\<close>

definition smeared :: "nat \<Rightarrow> 'a::len word \<Rightarrow> 'a word \<Rightarrow> bool" where
  "smeared s x y \<longleftrightarrow> (\<forall>n. bit y n \<longleftrightarrow> (\<exists>k < s. bit x (n + k)))"

lemma smeared_1: "smeared 1 x x"
  by (simp add: smeared_def)

lemma smeared_step:
  assumes "smeared s x y"
  shows "smeared (2 * s) x (y OR drop_bit s y)"
  unfolding smeared_def
proof (intro allI iffI)
  fix n
  assume "bit (y OR drop_bit s y) n"
  then consider "bit y n" | "bit y (n + s)" by (auto simp: bit_simps add.commute)
  then show "\<exists>k < 2 * s. bit x (n + k)"
  proof cases
    case 1
    then obtain k where "k < s" "bit x (n + k)" using assms by (auto simp: smeared_def)
    then show ?thesis by (intro exI [of _ k]) simp
  next
    case 2
    then obtain k where "k < s" "bit x (n + s + k)" using assms by (auto simp: smeared_def)
    then show ?thesis by (intro exI [of _ "s + k"]) (simp add: add.assoc)
  qed
next
  fix n
  assume "\<exists>k < 2 * s. bit x (n + k)"
  then obtain k where k: "k < 2 * s" "bit x (n + k)" by blast
  show "bit (y OR drop_bit s y) n"
  proof (cases "k < s")
    case True
    then show ?thesis using k assms by (auto simp: smeared_def bit_simps)
  next
    case False
    then have "k - s < s" "bit x (s + n + (k - s))" using k by (simp_all add: add.commute)
    then have "bit y (s + n)" using assms unfolding smeared_def by blast
    then show ?thesis by (simp add: bit_simps)
  qed
qed

lemma bit_length_bounds:
  fixes x :: "'a::len word"
  obtains m where "unat x < 2 ^ m" "m \<le> LENGTH('a)" "\<And>j. unat x < 2 ^ j \<Longrightarrow> m \<le> j"
    "0 < m \<Longrightarrow> bit x (m - 1)" "\<And>j. bit x j \<Longrightarrow> j < m"
proof -
  define m where "m = (LEAST m. unat x < 2 ^ m)"
  have lt: "unat x < 2 ^ m" unfolding m_def by (rule LeastI [of _ "LENGTH('a)"]) (rule unsigned_less)
  have least: "m \<le> j" if "unat x < 2 ^ j" for j unfolding m_def using that by (rule Least_le)
  have top: "bit x (m - 1)" if "0 < m"
  proof -
    have "\<not> unat x < 2 ^ (m - 1)" using least [of "m - 1"] that by auto
    moreover have "unat x < 2 * 2 ^ (m - 1)" using lt that by (cases m) simp_all
    ultimately have "unat x div 2 ^ (m - 1) = 1" by (intro div_nat_eqI) auto
    then have "bit (unat x) (m - 1)" by (simp add: bit_iff_odd)
    then show ?thesis by (simp add: bit_simps)
  qed
  have bits: "j < m" if "bit x j" for j
  proof (rule ccontr)
    assume "\<not> j < m"
    then have "unat x < 2 ^ j" using lt by (meson leI less_le_trans one_le_numeral power_increasing)
    then have "\<not> bit (unat x) j" by (simp add: bit_iff_odd)
    then show False using that bit_imp_le_length [OF that] by (simp add: bit_simps)
  qed
  show ?thesis using that lt least [OF unsigned_less] least top bits by blast
qed

lemma smeared_mask:
  fixes x y :: "'a::len word"
  assumes "smeared LENGTH('a) x y" "0 < m \<Longrightarrow> bit x (m - 1)" "\<And>j. bit x j \<Longrightarrow> j < m"
    "m \<le> LENGTH('a)"
  shows "y = mask m"
proof (rule bit_word_eqI)
  fix n
  assume "n < LENGTH('a)"
  have "(\<exists>k < LENGTH('a). bit x (n + k)) \<longleftrightarrow> n < m"
  proof
    assume "n < m"
    then show "\<exists>k < LENGTH('a). bit x (n + k)"
      using assms(2,4) by (intro exI [of _ "m - 1 - n"]) auto
  qed (use assms(3) in fastforce)
  then show "bit y n \<longleftrightarrow> bit (mask m :: 'a word) n"
    using assms(1) \<open>n < LENGTH('a)\<close> by (simp add: smeared_def bit_simps)
qed

lemma ceil_to_pow_2_smeared:
  fixes x :: u64
  obtains y where "smeared 64 (x - 1) y" "ceil_to_pow_2 x = y + 1"
proof -
  let ?a = "\<lambda>s y. y OR drop_bit s y"
  let ?y = "?a 32 (?a 16 (?a 8 (?a 4 (?a 2 (?a 1 (x - 1))))))"
  have "ceil_to_pow_2 x = ?y + 1"
    unfolding ceil_to_pow_2_def Let_def by (simp add: ceil_spread.simps push_bit_eq_mult)
  moreover have "smeared (2 * (2 * (2 * (2 * (2 * (2 * 1)))))) (x - 1) ?y"
    using smeared_step [OF smeared_step [OF smeared_step [OF smeared_step [OF smeared_step
      [OF smeared_step [OF smeared_1 [of "x - 1"]]]]]]] by simp
  ultimately show ?thesis using that by simp
qed

lemma ceil_to_pow_2_least:
  fixes x :: u64
  assumes "0 < x" "x \<le> 0x8000000000000000"
  shows "\<exists>m. unat (ceil_to_pow_2 x) = 2 ^ m \<and> unat x \<le> 2 ^ m \<and> (\<forall>j. unat x \<le> 2 ^ j \<longrightarrow> m \<le> j)"
proof -
  obtain y where y: "smeared LENGTH(64) (x - 1) y" "ceil_to_pow_2 x = y + 1"
    using ceil_to_pow_2_smeared [of x] by auto
  obtain m where m: "unat (x - 1) < 2 ^ m" "m \<le> LENGTH(64)" "\<And>j. unat (x - 1) < 2 ^ j \<Longrightarrow> m \<le> j"
    "0 < m \<Longrightarrow> bit (x - 1) (m - 1)" "\<And>j. bit (x - 1) j \<Longrightarrow> j < m"
    by (rule bit_length_bounds [of "x - 1"]) blast
  have ux: "unat (x - 1) = unat x - 1" "0 < unat x"
    using unat_minus_one_pos [OF assms(1)] assms(1) by (simp_all add: word_less_nat_alt)
  have "unat x \<le> 2 ^ 63" using assms(2) by (simp add: word_le_nat_alt)
  then have "m \<le> 63" using m(3) [of 63] ux by simp
  have "y = mask m" using y(1) m(4,5,2) by (rule smeared_mask)
  then have "ceil_to_pow_2 x = of_nat (2 ^ m)" using y(2) by (simp add: mask_eq_exp_minus_1)
  moreover have "(2::nat) ^ m < 2 ^ LENGTH(64)"
    using \<open>m \<le> 63\<close> by (intro power_strict_increasing) auto
  ultimately have "unat (ceil_to_pow_2 x) = 2 ^ m" by (simp only: unat_of_nat_small)
  moreover have "unat x \<le> 2 ^ m" using m(1) ux by simp
  moreover have "m \<le> j" if "unat x \<le> 2 ^ j" for j using m(3) [of j] that ux by simp
  ultimately show ?thesis by blast
qed

section \<open>Powers of two\<close>

lemma and_pow2_minus_one: "unat (x AND (2 ^ k - 1) :: 'a::len word) = unat x mod 2 ^ k"
proof -
  have "x AND (2 ^ k - 1) = take_bit k x" by (simp only: take_bit_eq_mask mask_eq_exp_minus_1)
  then have "unat (x AND (2 ^ k - 1)) = take_bit k (unat x)" by (simp add: unsigned_take_bit_eq)
  then show ?thesis by (simp add: take_bit_eq_mod)
qed

lemma unat_pow2:
  assumes "k < 64"
  shows "unat (2 ^ k :: u64) = 2 ^ k"
proof -
  have "(2::nat) ^ k < 2 ^ LENGTH(64)" using assms by (intro power_strict_increasing) simp_all
  then have "unat (of_nat (2 ^ k) :: u64) = 2 ^ k" by (rule unat_of_nat_small)
  then show ?thesis by simp
qed

end
