(* ===== verification/CQ_Block.thy ===== *)
theory CQ_Block
  imports CQ_Bits
begin

text \<open>
  The blocks of the concurrent queue and the pool they come from
  (\<^verbatim>\<open>struct Block\<close>, \<^verbatim>\<open>struct FreeList\<close> and the block pool functions of
  \<^verbatim>\<open>src/utils/concurrentqueue-1.0.3/concurrentqueue.h\<close>), with the default traits: 32 elements to a
  block, and the empty flags in the explicit context.

  A block pointer is an index into the heap of blocks of the pool and \<open>None\<close> is \<^verbatim>\<open>nullptr\<close>. The
  slot of an element that is not constructed is \<open>None\<close>. An \<open>alloc_env\<close> says which of the calls of
  \<^verbatim>\<open>malloc\<close> return memory and what that memory holds before it is written. Dereferencing a null or
  dangling pointer and indexing past an array is the fault \<^const>\<open>Undefined_Behaviour\<close>.

  The operations here are the ones of a single thread: every compare-and-swap succeeds. The free list
  under contention is the subject of \<^verbatim>\<open>CQ_FreeList\<close>.
\<close>

abbreviation (input) BLOCK_SIZE :: u64 where "BLOCK_SIZE \<equiv> 32"

definition MAX_SUBQUEUE_SIZE :: u64 where
  "MAX_SUBQUEUE_SIZE = - 1"

definition REFS_MASK :: u32 where
  "REFS_MASK = 0x7FFFFFFF"

definition SHOULD_BE_ON_FREELIST :: u32 where
  "SHOULD_BE_ON_FREELIST = 0x80000000"

datatype InnerQueueContext = implicit_context | explicit_context

datatype AllocationMode = CanAlloc | CannotAlloc

record 'a Block =
  elements :: "'a option list"
  next_block :: "nat option"
  elementsCompletelyDequeued :: u64
  emptyFlags :: "bool list"
  freeListRefs :: u32
  freeListNext :: "nat option"
  shouldBeOnFreeList :: bool
  dynamicallyAllocated :: bool

record alloc_env =
  malloc_ok :: "nat \<Rightarrow> bool"
  raw_flag :: "nat \<Rightarrow> nat \<Rightarrow> bool"
  raw_value :: "nat \<Rightarrow> nat option"

record 'a BlockPool =
  blocks :: "'a Block list"
  mallocs :: nat
  initialBlockPool :: nat
  initialBlockPoolSize :: u64
  initialBlockPoolIndex :: u64
  freeListHead :: "nat option"

section \<open>Blocks\<close>

text \<open>The constructor leaves the empty flags uninitialised.\<close>

definition Block_init :: "(nat \<Rightarrow> bool) \<Rightarrow> 'a Block" where
  "Block_init flags =
     \<lparr>elements = replicate 32 None, next_block = None, elementsCompletelyDequeued = 0,
      emptyFlags = map flags [0..<32], freeListRefs = 0, freeListNext = None,
      shouldBeOnFreeList = False, dynamicallyAllocated = True\<rparr>"

definition block_offset :: "u64 \<Rightarrow> nat" where
  "block_offset idx = unat (idx AND (BLOCK_SIZE - 1))"

definition is_empty :: "InnerQueueContext \<Rightarrow> 'a Block \<Rightarrow> fault + bool" where
  "is_empty ctx b =
     (case ctx of
        explicit_context \<Rightarrow> Inr (list_all id (emptyFlags b))
      | implicit_context \<Rightarrow>
          if elementsCompletelyDequeued b = BLOCK_SIZE then Inr True
          else if elementsCompletelyDequeued b \<le> BLOCK_SIZE then Inr False
          else Inl Assertion_Failed)"

definition set_flag :: "u64 \<Rightarrow> 'a Block \<Rightarrow> fault + 'a Block" where
  "set_flag k b =
     (if unat k < length (emptyFlags b)
      then if emptyFlags b ! unat k then Inl Assertion_Failed
           else Inr (b\<lparr>emptyFlags := (emptyFlags b)[unat k := True]\<rparr>)
      else Inl Undefined_Behaviour)"

definition set_empty :: "InnerQueueContext \<Rightarrow> u64 \<Rightarrow> 'a Block \<Rightarrow> fault + 'a Block \<times> bool" where
  "set_empty ctx i b =
     (case ctx of
        explicit_context \<Rightarrow>
          and_then (set_flag (BLOCK_SIZE - 1 - (i AND (BLOCK_SIZE - 1))) b) (\<lambda>b. Inr (b, False))
      | implicit_context \<Rightarrow>
          let prevVal = elementsCompletelyDequeued b;
              b = b\<lparr>elementsCompletelyDequeued := prevVal + 1\<rparr>
          in if prevVal < BLOCK_SIZE then Inr (b, prevVal = BLOCK_SIZE - 1)
             else Inl Assertion_Failed)"

text \<open>The loop \<^verbatim>\<open>for (j = 0; j != count; ++j)\<close> over the flags \<^verbatim>\<open>i + j\<close>.\<close>

primrec set_flags :: "u64 \<Rightarrow> nat \<Rightarrow> 'a Block \<Rightarrow> fault + 'a Block" where
  "set_flags i 0 b = Inr b"
| "set_flags i (Suc n) b = and_then (set_flag i b) (set_flags (i + 1) n)"

definition set_many_empty ::
  "InnerQueueContext \<Rightarrow> u64 \<Rightarrow> u64 \<Rightarrow> 'a Block \<Rightarrow> fault + 'a Block \<times> bool" where
  "set_many_empty ctx i count b =
     (case ctx of
        explicit_context \<Rightarrow>
          and_then (set_flags (BLOCK_SIZE - 1 - (i AND (BLOCK_SIZE - 1)) - count + 1) (unat count) b)
            (\<lambda>b. Inr (b, False))
      | implicit_context \<Rightarrow>
          let prevVal = elementsCompletelyDequeued b;
              b = b\<lparr>elementsCompletelyDequeued := prevVal + count\<rparr>
          in if prevVal + count \<le> BLOCK_SIZE then Inr (b, prevVal + count = BLOCK_SIZE)
             else Inl Assertion_Failed)"

definition set_all_empty :: "InnerQueueContext \<Rightarrow> 'a Block \<Rightarrow> 'a Block" where
  "set_all_empty ctx b =
     (case ctx of
        explicit_context \<Rightarrow> b\<lparr>emptyFlags := map (\<lambda>_. True) (emptyFlags b)\<rparr>
      | implicit_context \<Rightarrow> b\<lparr>elementsCompletelyDequeued := BLOCK_SIZE\<rparr>)"

definition reset_empty :: "InnerQueueContext \<Rightarrow> 'a Block \<Rightarrow> 'a Block" where
  "reset_empty ctx b =
     (case ctx of
        explicit_context \<Rightarrow> b\<lparr>emptyFlags := map (\<lambda>_. False) (emptyFlags b)\<rparr>
      | implicit_context \<Rightarrow> b\<lparr>elementsCompletelyDequeued := 0\<rparr>)"

text \<open>Reading, constructing and destroying the element of an index (\<^verbatim>\<open>operator[]\<close>).\<close>

definition block_get :: "'a Block \<Rightarrow> u64 \<Rightarrow> fault + 'a" where
  "block_get b idx =
     (if block_offset idx < length (elements b)
      then case elements b ! block_offset idx of Some x \<Rightarrow> Inr x | None \<Rightarrow> Inl Undefined_Behaviour
      else Inl Undefined_Behaviour)"

definition block_construct :: "'a Block \<Rightarrow> u64 \<Rightarrow> 'a \<Rightarrow> 'a Block" where
  "block_construct b idx x = b\<lparr>elements := (elements b)[block_offset idx := Some x]\<rparr>"

definition block_destroy :: "'a Block \<Rightarrow> u64 \<Rightarrow> 'a Block" where
  "block_destroy b idx = b\<lparr>elements := (elements b)[block_offset idx := None]\<rparr>"

section \<open>The block pool\<close>

definition deref :: "'a BlockPool \<Rightarrow> nat option \<Rightarrow> fault + 'a Block" where
  "deref q p =
     (case p of
        Some i \<Rightarrow> if i < length (blocks q) then Inr (blocks q ! i) else Inl Undefined_Behaviour
      | None \<Rightarrow> Inl Undefined_Behaviour)"

definition put_block :: "'a BlockPool \<Rightarrow> nat \<Rightarrow> 'a Block \<Rightarrow> 'a BlockPool" where
  "put_block q i b = q\<lparr>blocks := (blocks q)[i := b]\<rparr>"

definition cq_malloc :: "alloc_env \<Rightarrow> 'a BlockPool \<Rightarrow> 'a BlockPool \<times> bool" where
  "cq_malloc env q = (q\<lparr>mallocs := mallocs q + 1\<rparr>, malloc_ok env (mallocs q))"

definition create_block :: "alloc_env \<Rightarrow> 'a BlockPool \<Rightarrow> 'a BlockPool \<times> nat option" where
  "create_block env q =
     (case cq_malloc env q of (q, ok) \<Rightarrow>
        if ok then (q\<lparr>blocks := blocks q @ [Block_init (raw_flag env (length (blocks q)))]\<rparr>,
                    Some (length (blocks q)))
        else (q, None))"

definition populate_initial_block_list :: "alloc_env \<Rightarrow> u64 \<Rightarrow> 'a BlockPool \<Rightarrow> 'a BlockPool" where
  "populate_initial_block_list env blockCount q =
     (let q = q\<lparr>initialBlockPoolSize := blockCount\<rparr>
      in if initialBlockPoolSize q = 0 then q
         else case cq_malloc env q of (q, ok) \<Rightarrow>
           if ok then
             q\<lparr>initialBlockPool := length (blocks q),
               blocks := blocks q @
                 map (\<lambda>i. (Block_init (raw_flag env (length (blocks q) + i)))\<lparr>dynamicallyAllocated := False\<rparr>)
                   [0..<unat blockCount]\<rparr>
           else q\<lparr>initialBlockPoolSize := 0\<rparr>)"

text \<open>The constructor of the queue: an empty pool and the initial blocks for a capacity.\<close>

definition initial_pool :: "alloc_env \<Rightarrow> u64 \<Rightarrow> 'a BlockPool" where
  "initial_pool env capacity =
     populate_initial_block_list env
       (capacity div BLOCK_SIZE + (if capacity AND (BLOCK_SIZE - 1) = 0 then 0 else 1))
       \<lparr>blocks = [], mallocs = 0, initialBlockPool = 0, initialBlockPoolSize = 0,
        initialBlockPoolIndex = 0, freeListHead = None\<rparr>"

definition try_get_block_from_initial_pool :: "'a BlockPool \<Rightarrow> 'a BlockPool \<times> nat option" where
  "try_get_block_from_initial_pool q =
     (if initialBlockPoolIndex q \<ge> initialBlockPoolSize q then (q, None)
      else let index = initialBlockPoolIndex q
           in (q\<lparr>initialBlockPoolIndex := index + 1\<rparr>,
               if index < initialBlockPoolSize q then Some (initialBlockPool q + unat index) else None))"

definition add_knowing_refcount_is_zero :: "'a BlockPool \<Rightarrow> nat \<Rightarrow> fault + 'a BlockPool" where
  "add_knowing_refcount_is_zero q node =
     and_then (deref q (Some node)) (\<lambda>b.
       Inr ((put_block q node (b\<lparr>freeListNext := freeListHead q, freeListRefs := 1\<rparr>))
              \<lparr>freeListHead := Some node\<rparr>))"

definition FreeList_add :: "'a BlockPool \<Rightarrow> nat \<Rightarrow> fault + 'a BlockPool" where
  "FreeList_add q node =
     and_then (deref q (Some node)) (\<lambda>b.
       let refs = freeListRefs b;
           q = put_block q node (b\<lparr>freeListRefs := refs + SHOULD_BE_ON_FREELIST\<rparr>)
       in if refs = 0 then add_knowing_refcount_is_zero q node else Inr q)"

text \<open>
  A head whose count is zero makes \<^verbatim>\<open>try_get\<close> read the head again, which without other threads
  never ends.
\<close>

definition FreeList_try_get :: "'a BlockPool \<Rightarrow> fault + 'a BlockPool \<times> nat option" where
  "FreeList_try_get q =
     (case freeListHead q of
        None \<Rightarrow> Inr (q, None)
      | Some head \<Rightarrow>
          and_then (deref q (Some head)) (\<lambda>b.
            let refs = freeListRefs b
            in if refs AND REFS_MASK = 0 then Inl Diverges
               else if (refs + 1) AND SHOULD_BE_ON_FREELIST \<noteq> 0 then Inl Assertion_Failed
               else Inr ((put_block q head (b\<lparr>freeListRefs := refs + 1 - 2\<rparr>))
                           \<lparr>freeListHead := freeListNext b\<rparr>, Some head)))"

definition add_block_to_free_list :: "'a BlockPool \<Rightarrow> nat \<Rightarrow> fault + 'a BlockPool" where
  "add_block_to_free_list q block = FreeList_add q block"

text \<open>
  \<^verbatim>\<open>add_blocks_to_free_list\<close> follows the chain of \<^verbatim>\<open>next\<close> pointers. The fuel is the number of blocks
  of the heap, which a chain without a cycle does not exceed.
\<close>

fun add_chain_to_free_list :: "nat \<Rightarrow> 'a BlockPool \<Rightarrow> nat option \<Rightarrow> fault + 'a BlockPool" where
  "add_chain_to_free_list fuel q None = Inr q"
| "add_chain_to_free_list 0 q (Some block) = Inl Diverges"
| "add_chain_to_free_list (Suc fuel) q (Some block) =
     and_then (deref q (Some block)) (\<lambda>b.
     and_then (add_block_to_free_list q block) (\<lambda>q.
       add_chain_to_free_list fuel q (next_block b)))"

definition add_blocks_to_free_list :: "'a BlockPool \<Rightarrow> nat option \<Rightarrow> fault + 'a BlockPool" where
  "add_blocks_to_free_list q block = add_chain_to_free_list (length (blocks q)) q block"

definition requisition_block ::
  "alloc_env \<Rightarrow> AllocationMode \<Rightarrow> 'a BlockPool \<Rightarrow> fault + 'a BlockPool \<times> nat option" where
  "requisition_block env canAlloc q =
     (case try_get_block_from_initial_pool q of
        (q, Some block) \<Rightarrow> Inr (q, Some block)
      | (q, None) \<Rightarrow>
          and_then (FreeList_try_get q) (\<lambda>(q, block).
            case block of
              Some block \<Rightarrow> Inr (q, Some block)
            | None \<Rightarrow> (case canAlloc of CanAlloc \<Rightarrow> Inr (create_block env q)
                                      | CannotAlloc \<Rightarrow> Inr (q, None))))"

section \<open>The two ways of tracking an empty block agree\<close>

lemma and_31_eq_mod: "unat (i AND 31 :: u64) = unat i mod 32"
proof -
  have "(31 :: u64) = mask 5" by (simp add: mask_eq_exp_minus_1)
  then have "i AND 31 = take_bit 5 i" by (simp only: take_bit_eq_mask)
  then have "unat (i AND 31) = take_bit 5 (unat i)" by (simp add: unsigned_take_bit_eq)
  then show ?thesis by (simp add: take_bit_eq_mod)
qed

lemma block_offset_eq [simp]: "block_offset i = unat i mod 32"
  by (simp add: block_offset_def and_31_eq_mod)

lemma unat_flag_index: "unat (31 - (i AND 31) :: u64) = 31 - unat i mod 32"
proof -
  have "unat i mod 32 \<le> 31" by simp
  then have "(i AND 31) \<le> (31 :: u64)" by (simp add: word_le_nat_alt and_31_eq_mod)
  then show ?thesis by (simp add: unat_sub and_31_eq_mod)
qed

text \<open>The flags that \<open>n\<close> elements from index \<open>i\<close> on occupy: the array is filled from its end.\<close>

definition flag_range :: "nat \<Rightarrow> nat \<Rightarrow> nat set" where
  "flag_range i n = {k. k < 32 \<and> i mod 32 \<le> 31 - k \<and> 31 - k < i mod 32 + n}"

definition flags_set :: "'a Block \<Rightarrow> nat set" where
  "flags_set b = {k. k < length (emptyFlags b) \<and> emptyFlags b ! k}"

lemma set_flag_spec:
  assumes "length (emptyFlags b) = 32" "unat k < 32" "unat k \<notin> flags_set b"
  shows "\<exists>b'. set_flag k b = Inr b' \<and> length (emptyFlags b') = 32 \<and>
           flags_set b' = insert (unat k) (flags_set b) \<and>
           elementsCompletelyDequeued b' = elementsCompletelyDequeued b"
  using assms by (auto simp: set_flag_def flags_set_def nth_list_update)

lemma set_flags_spec:
  assumes "length (emptyFlags b) = 32" "unat k + n \<le> 32" "{unat k..<unat k + n} \<inter> flags_set b = {}"
  shows "\<exists>b'. set_flags k n b = Inr b' \<and> length (emptyFlags b') = 32 \<and>
           flags_set b' = {unat k..<unat k + n} \<union> flags_set b \<and>
           elementsCompletelyDequeued b' = elementsCompletelyDequeued b"
  using assms
proof (induction n arbitrary: k b)
  case (Suc n)
  obtain b1 where b1: "set_flag k b = Inr b1" "length (emptyFlags b1) = 32"
    "flags_set b1 = insert (unat k) (flags_set b)"
    "elementsCompletelyDequeued b1 = elementsCompletelyDequeued b"
    using set_flag_spec [of b k] Suc.prems(1,2) Suc.prems(3) [THEN equalityD1, THEN subsetD, of "unat k"]
    by auto
  show ?case
  proof (cases "n = 0")
    case True
    then show ?thesis using b1 by auto
  next
    case False
    have k: "unat (k + 1) = unat k + 1"
      using Suc.prems(2) by (simp add: unat_word_ariths)
    have "{unat (k + 1)..<unat (k + 1) + n} \<inter> flags_set b1 = {}"
      using Suc.prems(3) b1(3) k by (auto simp: disjoint_iff)
    then obtain b2 where "set_flags (k + 1) n b1 = Inr b2" "length (emptyFlags b2) = 32"
      "flags_set b2 = {unat (k + 1)..<unat (k + 1) + n} \<union> flags_set b1"
      "elementsCompletelyDequeued b2 = elementsCompletelyDequeued b1"
      using Suc.IH [of b1 "k + 1"] Suc.prems(2) b1(2) k by auto
    moreover have "{unat k + 1..<unat k + 1 + n} \<union> insert (unat k) F = {unat k..<unat k + Suc n} \<union> F"
      for F by auto
    ultimately show ?thesis using b1 k by simp
  qed
qed simp

lemma set_many_empty_explicit:
  assumes "length (emptyFlags b) = 32" "0 < count" "unat i mod 32 + unat count \<le> 32"
    "flag_range (unat i) (unat count) \<inter> flags_set b = {}"
  shows "\<exists>b'. set_many_empty explicit_context i count b = Inr (b', False) \<and>
           length (emptyFlags b') = 32 \<and>
           flags_set b' = flag_range (unat i) (unat count) \<union> flags_set b"
proof -
  let ?k = "31 - (i AND 31) - count + 1"
  let ?m = "unat i mod 32"
  have pos: "0 < unat count" using assms(2) by (simp add: word_less_nat_alt)
  have "?k = of_nat (32 - ?m - unat count)"
  proof -
    have "(31 :: u64) - (i AND 31) = of_nat (31 - ?m)"
      by (simp only: word_unat_eq_iff unat_flag_index) (rule unat_of_nat_small [symmetric], simp)
    then have "?k = of_nat (31 - ?m) + 1 - of_nat (unat count)" by simp
    also have "\<dots> = of_nat (31 - ?m + 1 - unat count)"
      using assms(3) by (simp add: of_nat_diff)
    finally show ?thesis by (simp add: Suc_diff_le)
  qed
  then have k: "unat ?k = 32 - ?m - unat count" by (simp add: unat_of_nat)
  have range: "{unat ?k..<unat ?k + unat count} = flag_range (unat i) (unat count)"
    unfolding k flag_range_def using assms(3) pos by auto
  show ?thesis
    using set_flags_spec [of b ?k "unat count"] assms k range
    by (auto simp: set_many_empty_def)
qed

lemma set_many_empty_implicit:
  assumes "unat (elementsCompletelyDequeued b) + unat count \<le> 32"
  shows "set_many_empty implicit_context i count b =
     Inr (b\<lparr>elementsCompletelyDequeued := elementsCompletelyDequeued b + count\<rparr>,
          unat (elementsCompletelyDequeued b) + unat count = 32)"
    and "unat (elementsCompletelyDequeued b + count) = unat (elementsCompletelyDequeued b) + unat count"
proof -
  show sum: "unat (elementsCompletelyDequeued b + count)
      = unat (elementsCompletelyDequeued b) + unat count"
    using assms by (simp add: unat_word_ariths)
  then show "set_many_empty implicit_context i count b =
     Inr (b\<lparr>elementsCompletelyDequeued := elementsCompletelyDequeued b + count\<rparr>,
          unat (elementsCompletelyDequeued b) + unat count = 32)"
    using assms by (auto simp: set_many_empty_def Let_def word_le_nat_alt word_unat_eq_iff)
qed

text \<open>
  Marking a block segment by segment, as consumers do: a segment is a start index and a count that
  does not cross the end of the block. The slots of the segments are in the order they are marked.
\<close>

primrec mark_segments :: "InnerQueueContext \<Rightarrow> (u64 \<times> u64) list \<Rightarrow> 'a Block \<Rightarrow> fault + 'a Block" where
  "mark_segments ctx [] b = Inr b"
| "mark_segments ctx (seg # segs) b =
     and_then (set_many_empty ctx (fst seg) (snd seg) b) (\<lambda>(b, _). mark_segments ctx segs b)"

definition segment_slots :: "u64 \<times> u64 \<Rightarrow> nat list" where
  "segment_slots seg = [unat (fst seg) mod 32..<unat (fst seg) mod 32 + unat (snd seg)]"

definition segments_ok :: "(u64 \<times> u64) list \<Rightarrow> bool" where
  "segments_ok segs \<longleftrightarrow>
     list_all (\<lambda>seg. 0 < snd seg \<and> unat (fst seg) mod 32 + unat (snd seg) \<le> 32) segs \<and>
     distinct (concat (map segment_slots segs))"

lemma flag_range_image:
  assumes "unat i mod 32 + unat n \<le> 32"
  shows "flag_range (unat i) (unat n) = (\<lambda>s. 31 - s) ` set (segment_slots (i, n))"
proof
  show "flag_range (unat i) (unat n) \<subseteq> (\<lambda>s. 31 - s) ` set (segment_slots (i, n))"
  proof
    fix k
    assume "k \<in> flag_range (unat i) (unat n)"
    then have "k = 31 - (31 - k)" "31 - k \<in> set (segment_slots (i, n))"
      by (auto simp: flag_range_def segment_slots_def)
    then show "k \<in> (\<lambda>s. 31 - s) ` set (segment_slots (i, n))" by (rule image_eqI)
  qed
next
  show "(\<lambda>s. 31 - s) ` set (segment_slots (i, n)) \<subseteq> flag_range (unat i) (unat n)"
    using assms by (auto simp: flag_range_def segment_slots_def)
qed

lemma length_segment_slots [simp]: "length (segment_slots seg) = unat (snd seg)"
  by (simp add: segment_slots_def)

lemma mark_segments_explicit:
  assumes "length (emptyFlags b) = 32" "flags_set b = (\<lambda>s. 31 - s) ` set ds"
    "set ds \<subseteq> {..<32}" "distinct (ds @ concat (map segment_slots segs))"
    "list_all (\<lambda>seg. 0 < snd seg \<and> unat (fst seg) mod 32 + unat (snd seg) \<le> 32) segs"
  shows "\<exists>b'. mark_segments explicit_context segs b = Inr b' \<and> length (emptyFlags b') = 32 \<and>
           flags_set b' = (\<lambda>s. 31 - s) ` set (ds @ concat (map segment_slots segs))"
  using assms
proof (induction segs arbitrary: b ds)
  case (Cons seg segs)
  obtain i n where seg: "seg = (i, n)" by fastforce
  have n: "0 < n" "unat i mod 32 + unat n \<le> 32" using Cons.prems(5) seg by auto
  have slots: "set (segment_slots seg) \<subseteq> {..<32}" using n(2) seg by (auto simp: segment_slots_def)
  have "(\<lambda>s. 31 - s) ` set (segment_slots seg) \<inter> (\<lambda>s. 31 - s) ` set ds = {}"
  proof (rule ccontr)
    assume "\<not> ?thesis"
    then obtain x y where "x \<in> set (segment_slots seg)" "y \<in> set ds" "31 - x = 31 - y" by auto
    moreover from this have "x = y" using slots Cons.prems(3) by (auto simp: subset_iff) force
    ultimately show False using Cons.prems(4) by auto
  qed
  then obtain b1 where b1: "set_many_empty explicit_context i n b = Inr (b1, False)"
    "length (emptyFlags b1) = 32"
    "flags_set b1 = (\<lambda>s. 31 - s) ` set (ds @ segment_slots seg)"
    using set_many_empty_explicit [of b n i] n Cons.prems(1,2) flag_range_image [OF n(2)] seg
    by (auto simp: image_Un Un_commute)
  have "\<exists>b'. mark_segments explicit_context segs b1 = Inr b' \<and> length (emptyFlags b') = 32 \<and>
      flags_set b' = (\<lambda>s. 31 - s) ` set ((ds @ segment_slots seg) @ concat (map segment_slots segs))"
    using Cons.IH [OF b1(2,3)] Cons.prems slots by auto
  then show ?case using b1(1) seg by simp
qed simp

lemma mark_segments_implicit:
  assumes "unat (elementsCompletelyDequeued b) + length (concat (map segment_slots segs)) \<le> 32"
  shows "\<exists>b'. mark_segments implicit_context segs b = Inr b' \<and>
           unat (elementsCompletelyDequeued b')
             = unat (elementsCompletelyDequeued b) + length (concat (map segment_slots segs))"
  using assms
proof (induction segs arbitrary: b)
  case (Cons seg segs)
  let ?b = "b\<lparr>elementsCompletelyDequeued := elementsCompletelyDequeued b + snd seg\<rparr>"
  have le: "unat (elementsCompletelyDequeued b) + unat (snd seg) \<le> 32" using Cons.prems by simp
  have "\<exists>b'. mark_segments implicit_context segs ?b = Inr b' \<and>
      unat (elementsCompletelyDequeued b')
        = unat (elementsCompletelyDequeued ?b) + length (concat (map segment_slots segs))"
    using Cons.prems set_many_empty_implicit(2) [OF le] by (intro Cons.IH) simp
  then show ?case using set_many_empty_implicit [OF le] by (simp add: add.assoc)
qed simp

lemma slots_bound: "segments_ok segs \<Longrightarrow> set (concat (map segment_slots segs)) \<subseteq> {..<32}"
  by (force simp: segments_ok_def segment_slots_def list_all_iff)

lemma reflect_surj:
  assumes "S \<subseteq> {..<32::nat}"
  shows "(\<lambda>s. 31 - s) ` S = {..<32} \<longleftrightarrow> card S = 32"
proof -
  have inj: "inj_on (\<lambda>s. 31 - s) {..<32::nat}" by (auto simp: inj_on_def)
  have card: "card ((\<lambda>s. 31 - s) ` S) = card S"
    using inj_on_subset [OF inj assms] by (rule card_image)
  have sub: "(\<lambda>s. 31 - s) ` S \<subseteq> {..<32}" by auto
  show ?thesis using card card_subset_eq [OF _ sub] by auto
qed

theorem block_trackers_agree:
  assumes "length (emptyFlags b) = 32" "segments_ok segs"
  shows "\<exists>b1 b2.
     mark_segments explicit_context segs (reset_empty explicit_context b) = Inr b1 \<and>
     mark_segments implicit_context segs (reset_empty implicit_context b) = Inr b2 \<and>
     is_empty explicit_context b1 = Inr (length (concat (map segment_slots segs)) = 32) \<and>
     is_empty implicit_context b2 = Inr (length (concat (map segment_slots segs)) = 32)"
proof -
  let ?slots = "concat (map segment_slots segs)"
  have d: "distinct ?slots" using assms(2) by (simp add: segments_ok_def)
  have card: "card (set ?slots) = length ?slots" using d by (rule distinct_card)
  have le: "length ?slots \<le> 32"
    using card card_mono [OF _ slots_bound [OF assms(2)]] by simp
  have ok: "list_all (\<lambda>seg. 0 < snd seg \<and> unat (fst seg) mod 32 + unat (snd seg) \<le> 32) segs"
    using assms(2) by (simp add: segments_ok_def)
  have "flags_set (reset_empty explicit_context b) = {}" "length (emptyFlags (reset_empty explicit_context b)) = 32"
    using assms(1) by (auto simp: reset_empty_def flags_set_def)
  then obtain b1 where b1: "mark_segments explicit_context segs (reset_empty explicit_context b) = Inr b1"
    "length (emptyFlags b1) = 32" "flags_set b1 = (\<lambda>s. 31 - s) ` set ?slots"
    using mark_segments_explicit [of "reset_empty explicit_context b" "[]" segs] d ok by auto
  have "unat (elementsCompletelyDequeued (reset_empty implicit_context b)) = 0"
    by (simp add: reset_empty_def)
  then obtain b2 where b2: "mark_segments implicit_context segs (reset_empty implicit_context b) = Inr b2"
    "unat (elementsCompletelyDequeued b2) = length ?slots"
    using mark_segments_implicit [of "reset_empty implicit_context b" segs] le by auto
  have "list_all id (emptyFlags b1) \<longleftrightarrow> flags_set b1 = {..<32}"
    using b1(2) by (auto simp: list_all_length flags_set_def)
  also have "\<dots> \<longleftrightarrow> length ?slots = 32"
    unfolding b1(3) reflect_surj [OF slots_bound [OF assms(2)]] card ..
  finally have "is_empty explicit_context b1 = Inr (length ?slots = 32)" by (simp add: is_empty_def)
  moreover have "is_empty implicit_context b2 = Inr (length ?slots = 32)"
    using b2(2) le by (auto simp: is_empty_def word_unat_eq_iff word_le_nat_alt)
  ultimately show ?thesis using b1(1) b2(1) by blast
qed

section \<open>The pool hands out each block once\<close>

text \<open>
  The invariant of the pool, relative to the blocks in use: the free list is a chain without a
  repetition whose blocks have the count one, the blocks in use and the initial blocks nobody has
  asked for yet have the count zero, and the three groups are disjoint.
\<close>

fun free_chain :: "'a Block list \<Rightarrow> nat option \<Rightarrow> nat list \<Rightarrow> bool" where
  "free_chain bs p [] \<longleftrightarrow> p = None"
| "free_chain bs p (x # xs) \<longleftrightarrow> p = Some x \<and> x < length bs \<and> free_chain bs (freeListNext (bs ! x)) xs"

definition unissued :: "'a BlockPool \<Rightarrow> nat set" where
  "unissued q = {initialBlockPool q + unat (initialBlockPoolIndex q)..<
                 initialBlockPool q + unat (initialBlockPoolSize q)}"

definition block_shape :: "'a Block \<Rightarrow> bool" where
  "block_shape b \<longleftrightarrow> length (elements b) = 32 \<and> length (emptyFlags b) = 32"

definition pool_inv :: "'a BlockPool \<Rightarrow> nat list \<Rightarrow> nat set \<Rightarrow> bool" where
  "pool_inv q fl used \<longleftrightarrow>
     free_chain (blocks q) (freeListHead q) fl \<and> distinct fl \<and>
     (\<forall>x \<in> set fl. freeListRefs (blocks q ! x) = 1) \<and>
     (\<forall>x \<in> used \<union> unissued q. x < length (blocks q) \<and> freeListRefs (blocks q ! x) = 0) \<and>
     set fl \<inter> used = {} \<and> set fl \<inter> unissued q = {} \<and> used \<inter> unissued q = {} \<and>
     initialBlockPoolIndex q \<le> initialBlockPoolSize q \<and>
     list_all block_shape (blocks q)"

lemma pool_invI:
  assumes "free_chain (blocks q) (freeListHead q) fl" "distinct fl"
    "\<And>x. x \<in> set fl \<Longrightarrow> freeListRefs (blocks q ! x) = 1"
    "\<And>x. x \<in> used \<or> x \<in> unissued q \<Longrightarrow> x < length (blocks q) \<and> freeListRefs (blocks q ! x) = 0"
    "\<And>x. x \<in> set fl \<Longrightarrow> x \<notin> used \<and> x \<notin> unissued q" "\<And>x. x \<in> used \<Longrightarrow> x \<notin> unissued q"
    "initialBlockPoolIndex q \<le> initialBlockPoolSize q" "list_all block_shape (blocks q)"
  shows "pool_inv q fl used"
  unfolding pool_inv_def using assms by (intro conjI ballI equals0I) blast+

lemma pool_invD:
  assumes "pool_inv q fl used"
  shows "free_chain (blocks q) (freeListHead q) fl" "distinct fl"
    "\<And>x. x \<in> set fl \<Longrightarrow> freeListRefs (blocks q ! x) = 1"
    "\<And>x. x \<in> used \<or> x \<in> unissued q \<Longrightarrow> x < length (blocks q) \<and> freeListRefs (blocks q ! x) = 0"
    "\<And>x. x \<in> set fl \<Longrightarrow> x \<notin> used \<and> x \<notin> unissued q" "\<And>x. x \<in> used \<Longrightarrow> x \<notin> unissued q"
    "initialBlockPoolIndex q \<le> initialBlockPoolSize q" "list_all block_shape (blocks q)"
  using assms unfolding pool_inv_def by blast+

lemma free_chain_update: "free_chain bs p xs \<Longrightarrow> i \<notin> set xs \<Longrightarrow> free_chain (bs[i := b]) p xs"
  by (induction xs arbitrary: p) auto

lemma free_chain_append: "free_chain bs p xs \<Longrightarrow> free_chain (bs @ cs) p xs"
  by (induction xs arbitrary: p) (auto simp: nth_append)

lemma free_chain_bound: "free_chain bs p xs \<Longrightarrow> x \<in> set xs \<Longrightarrow> x < length bs"
  by (induction xs arbitrary: p) auto

lemma pool_inv_used [dest]: "pool_inv q fl used \<Longrightarrow> x \<in> used \<Longrightarrow> x < length (blocks q)"
  by (auto simp: pool_inv_def)

lemma put_block_simps [simp]:
  "blocks (put_block q i b) = (blocks q)[i := b]" "mallocs (put_block q i b) = mallocs q"
  "freeListHead (put_block q i b) = freeListHead q"
  "initialBlockPool (put_block q i b) = initialBlockPool q"
  "initialBlockPoolSize (put_block q i b) = initialBlockPoolSize q"
  "initialBlockPoolIndex (put_block q i b) = initialBlockPoolIndex q"
  "unissued (put_block q i b) = unissued q"
  "unissued (q\<lparr>freeListHead := h\<rparr>) = unissued q" "unissued (q\<lparr>mallocs := k\<rparr>) = unissued q"
  "unissued (q\<lparr>blocks := bs\<rparr>) = unissued q"
  by (simp_all add: put_block_def unissued_def)

lemma deref_Some [simp]: "i < length (blocks q) \<Longrightarrow> deref q (Some i) = Inr (blocks q ! i)"
  by (simp add: deref_def)

lemma list_all_update: "list_all P xs \<Longrightarrow> P x \<Longrightarrow> list_all P (xs[i := x])"
  by (auto simp: list_all_iff dest: set_update_subset_insert [THEN subsetD])

lemma pool_inv_put_block:
  assumes "pool_inv q fl used" "i \<in> used" "freeListRefs b = 0" "block_shape b"
  shows "pool_inv (put_block q i b) fl used"
proof -
  have i: "i \<notin> set fl" "i < length (blocks q)" using assms(1,2) by (auto simp: pool_inv_def)
  then have "free_chain ((blocks q)[i := b]) (freeListHead q) fl"
    using pool_invD(1) [OF assms(1)] by (simp add: free_chain_update)
  then show ?thesis using assms i by (auto simp: pool_inv_def nth_list_update list_all_update)
qed

lemma pool_inv_malloc: "pool_inv q fl used \<Longrightarrow> pool_inv (q\<lparr>mallocs := k\<rparr>) fl used"
  by (simp add: pool_inv_def unissued_def)

lemma add_block_to_free_list_spec:
  assumes "pool_inv q fl used" "i \<in> used"
  shows "\<exists>q'. add_block_to_free_list q i = Inr q' \<and> pool_inv q' (i # fl) (used - {i}) \<and>
           length (blocks q') = length (blocks q) \<and> mallocs q' = mallocs q \<and>
           (\<forall>x. x \<noteq> i \<longrightarrow> blocks q' ! x = blocks q ! x)"
proof -
  let ?b = "(blocks q ! i)\<lparr>freeListNext := freeListHead q, freeListRefs := 1\<rparr>"
  let ?q = "(put_block q i ?b)\<lparr>freeListHead := Some i\<rparr>"
  have i: "i < length (blocks q)" "freeListRefs (blocks q ! i) = 0" "i \<notin> set fl" "i \<notin> unissued q"
    and shape: "block_shape (blocks q ! i)"
    using assms by (auto simp: pool_inv_def list_all_length)
  have "add_block_to_free_list q i = Inr ?q"
    using i by (simp add: add_block_to_free_list_def FreeList_add_def
        add_knowing_refcount_is_zero_def put_block_def)
  moreover have "free_chain ((blocks q)[i := ?b]) (freeListHead q) fl"
    using pool_invD(1) [OF assms(1)] i(3) by (simp add: free_chain_update)
  then have "pool_inv ?q (i # fl) (used - {i})"
    using pool_invD [OF assms(1)] i shape
    by (intro pool_invI) (auto simp: nth_list_update list_all_update block_shape_def)
  ultimately show ?thesis by (auto simp: nth_list_update)
qed

lemma FreeList_try_get_None:
  "pool_inv q [] used \<Longrightarrow> FreeList_try_get q = Inr (q, None)"
  by (simp add: pool_inv_def FreeList_try_get_def)

lemma FreeList_try_get_Some:
  assumes "pool_inv q (i # fl) used"
  shows "\<exists>q'. FreeList_try_get q = Inr (q', Some i) \<and> pool_inv q' fl (insert i used) \<and> i \<notin> used \<and>
           length (blocks q') = length (blocks q) \<and> mallocs q' = mallocs q \<and>
           (\<forall>x. x \<noteq> i \<longrightarrow> blocks q' ! x = blocks q ! x)"
proof -
  let ?b = "(blocks q ! i)\<lparr>freeListRefs := 0\<rparr>"
  let ?q = "(put_block q i ?b)\<lparr>freeListHead := freeListNext (blocks q ! i)\<rparr>"
  have i: "i < length (blocks q)" "freeListRefs (blocks q ! i) = 1" "freeListHead q = Some i"
    and disj: "i \<notin> set fl" "i \<notin> used" "i \<notin> unissued q" and shape: "block_shape (blocks q ! i)"
    using assms by (auto simp: pool_inv_def list_all_length)
  have "FreeList_try_get q = Inr (?q, Some i)"
    using i by (simp add: FreeList_try_get_def REFS_MASK_def SHOULD_BE_ON_FREELIST_def)
  moreover have "free_chain ((blocks q)[i := ?b]) (freeListNext (blocks q ! i)) fl"
    using pool_invD(1) [OF assms] disj by (simp add: free_chain_update)
  then have "pool_inv ?q fl (insert i used)"
    using pool_invD [OF assms] i disj shape
    by (intro pool_invI) (auto simp: nth_list_update list_all_update block_shape_def)
  ultimately show ?thesis using disj(2) by (auto simp: nth_list_update)
qed

lemma create_block_spec:
  assumes "pool_inv q fl used"
  shows "case create_block env q of
     (q', Some i) \<Rightarrow> malloc_ok env (mallocs q) \<and> pool_inv q' fl (insert i used) \<and> i \<notin> used \<and>
        length (blocks q) \<le> length (blocks q') \<and> (\<forall>x < length (blocks q). blocks q' ! x = blocks q ! x)
   | (q', None) \<Rightarrow> \<not> malloc_ok env (mallocs q) \<and> pool_inv q' fl used \<and> blocks q' = blocks q"
proof (cases "malloc_ok env (mallocs q)")
  case True
  let ?n = "length (blocks q)"
  let ?bs = "blocks q @ [Block_init (raw_flag env ?n)]"
  have bound: "x < ?n" if "x \<in> set fl \<union> used \<union> unissued q" for x
    using assms that free_chain_bound by (auto simp: pool_inv_def)
  then have "free_chain ?bs (freeListHead q) fl"
    using pool_invD(1) [OF assms] by (simp add: free_chain_append)
  moreover have "?n \<notin> set fl" "?n \<notin> used" "?n \<notin> unissued q" using bound by auto
  moreover have "block_shape (Block_init f)" "freeListRefs (Block_init f) = 0" for f
    by (simp_all add: block_shape_def Block_init_def)
  ultimately have "pool_inv (q\<lparr>mallocs := mallocs q + 1, blocks := ?bs\<rparr>) fl (insert ?n used)"
    using pool_invD [OF assms] bound by (intro pool_invI) (auto simp: nth_append less_SucI)
  then show ?thesis
    using True bound by (auto simp: create_block_def cq_malloc_def nth_append)
qed (use assms in \<open>auto simp: create_block_def cq_malloc_def pool_inv_malloc\<close>)

lemma initial_pool_spec:
  assumes "pool_inv q fl used"
  shows "case try_get_block_from_initial_pool q of
     (q', Some i) \<Rightarrow> pool_inv q' fl (insert i used) \<and> i \<notin> used \<and> blocks q' = blocks q \<and> mallocs q' = mallocs q
   | (q', None) \<Rightarrow> q' = q"
proof (cases "initialBlockPoolIndex q < initialBlockPoolSize q")
  case True
  let ?i = "initialBlockPool q + unat (initialBlockPoolIndex q)"
  let ?q = "q\<lparr>initialBlockPoolIndex := initialBlockPoolIndex q + 1\<rparr>"
  have step: "unat (initialBlockPoolIndex q + 1) = unat (initialBlockPoolIndex q) + 1"
    using True by (rule unat_plus_one_less)
  then have un: "unissued q = insert ?i (unissued ?q)" "?i \<notin> unissued ?q"
    using True by (auto simp: unissued_def word_less_nat_alt)
  have "initialBlockPoolIndex q + 1 \<le> initialBlockPoolSize q"
    using True step by (simp add: word_le_nat_alt word_less_nat_alt)
  then have "pool_inv ?q fl (insert ?i used)"
    using pool_invD [OF assms] un by (intro pool_invI) auto
  moreover have "?i \<notin> used" using pool_invD(6) [OF assms] un by auto
  ultimately show ?thesis using True by (simp add: try_get_block_from_initial_pool_def Let_def)
qed (simp add: try_get_block_from_initial_pool_def)

lemma requisition_block_spec:
  assumes "pool_inv q fl used"
  shows "\<exists>q' r. requisition_block env mode q = Inr (q', r) \<and>
     (case r of
        Some i \<Rightarrow> (\<exists>fl'. pool_inv q' fl' (insert i used)) \<and> i \<notin> used \<and>
          (\<forall>x \<in> used. blocks q' ! x = blocks q ! x)
      | None \<Rightarrow> pool_inv q' fl used \<and> blocks q' = blocks q \<and>
          (mode = CannotAlloc \<or> \<not> malloc_ok env (mallocs q)))"
proof (cases "try_get_block_from_initial_pool q")
  case (Pair q1 r1)
  note initial = initial_pool_spec [OF assms, unfolded Pair prod.case]
  show ?thesis
  proof (cases r1)
    case (Some i)
    then show ?thesis using Pair initial by (auto simp: requisition_block_def)
  next
    case None
    then have q1: "try_get_block_from_initial_pool q = (q, None)" using Pair initial by simp
    show ?thesis
    proof (cases fl)
      case Nil
      then have "FreeList_try_get q = Inr (q, None)" using assms FreeList_try_get_None by simp
      then show ?thesis
        using create_block_spec [OF assms, of env] q1 assms pool_inv_used [OF assms]
        by (cases mode; cases "create_block env q"; cases "snd (create_block env q)")
           (auto simp: requisition_block_def)
    next
      case (Cons i fl')
      then obtain q' where "FreeList_try_get q = Inr (q', Some i)" "pool_inv q' fl' (insert i used)"
        "i \<notin> used" "\<forall>x. x \<noteq> i \<longrightarrow> blocks q' ! x = blocks q ! x"
        using FreeList_try_get_Some assms by blast
      moreover have "blocks q' ! x = blocks q ! x" if "x \<in> used" for x
        using calculation(3,4) that by auto
      ultimately show ?thesis using q1 by (auto simp: requisition_block_def)
    qed
  qed
qed

subsection \<open>Sessions of the pool\<close>

text \<open>
  The contract of a source of blocks: what it hands out is not in use, and what is given back leaves
  the blocks in use. A session of requests, which give back a block by its position in the list of
  blocks held, therefore never faults and never holds a block twice.
\<close>

lemma distinct_remove_nth:
  assumes "distinct xs" "k < length xs"
  shows "distinct (take k xs @ drop (Suc k) xs)"
    and "set (take k xs @ drop (Suc k) xs) = set xs - {xs ! k}"
proof -
  obtain ys y zs where "xs = ys @ y # zs" "length ys = k"
    using id_take_nth_drop [OF assms(2)] assms(2) by (metis length_take min.absorb4)
  then show "distinct (take k xs @ drop (Suc k) xs)"
    and "set (take k xs @ drop (Suc k) xs) = set xs - {xs ! k}"
    using assms(1) by (auto simp: nth_append)
qed

datatype pool_op = Acquire | Release nat

fun pool_session ::
  "('q \<Rightarrow> fault + 'q \<times> nat option) \<Rightarrow> ('q \<Rightarrow> nat \<Rightarrow> fault + 'q) \<Rightarrow> 'q \<Rightarrow> nat list \<Rightarrow> pool_op list \<Rightarrow>
     fault + 'q \<times> nat list" where
  "pool_session acquire release q held [] = Inr (q, held)"
| "pool_session acquire release q held (Acquire # ops) =
     and_then (acquire q) (\<lambda>(q, r).
       pool_session acquire release q (case r of Some i \<Rightarrow> i # held | None \<Rightarrow> held) ops)"
| "pool_session acquire release q held (Release k # ops) =
     (if k < length held
      then and_then (release q (held ! k)) (\<lambda>q.
             pool_session acquire release q (take k held @ drop (Suc k) held) ops)
      else pool_session acquire release q held ops)"

locale block_source =
  fixes inv :: "'q \<Rightarrow> nat set \<Rightarrow> bool"
    and acquire :: "'q \<Rightarrow> fault + 'q \<times> nat option"
    and release :: "'q \<Rightarrow> nat \<Rightarrow> fault + 'q"
  assumes acquire_law: "inv q used \<Longrightarrow> \<exists>q' r. acquire q = Inr (q', r) \<and>
      (case r of Some i \<Rightarrow> i \<notin> used \<and> inv q' (insert i used) | None \<Rightarrow> inv q' used)"
    and release_law: "inv q used \<Longrightarrow> i \<in> used \<Longrightarrow> \<exists>q'. release q i = Inr q' \<and> inv q' (used - {i})"
begin

lemma session_ok:
  "inv q (set held) \<Longrightarrow> distinct held \<Longrightarrow>
     \<exists>q' held'. pool_session acquire release q held ops = Inr (q', held') \<and> distinct held' \<and> inv q' (set held')"
proof (induction ops arbitrary: q held)
  case (Cons op ops)
  show ?case
  proof (cases op)
    case Acquire
    obtain q' r where "acquire q = Inr (q', r)"
      "case r of Some i \<Rightarrow> i \<notin> set held \<and> inv q' (insert i (set held)) | None \<Rightarrow> inv q' (set held)"
      using acquire_law [OF Cons.prems(1)] by blast
    then show ?thesis using Acquire Cons by (cases r) auto
  next
    case (Release k)
    show ?thesis
    proof (cases "k < length held")
      case True
      note rest = distinct_remove_nth [OF Cons.prems(2) True]
      obtain q' where "release q (held ! k) = Inr q'" "inv q' (set held - {held ! k})"
        using release_law [OF Cons.prems(1)] True by (meson nth_mem)
      then show ?thesis using Cons.IH [of q' "take k held @ drop (Suc k) held"] rest True Release by simp
    qed (use Release Cons in simp)
  qed
qed simp

end

lemma Block_init_simps [simp]:
  "block_shape (Block_init f)" "freeListRefs (Block_init f) = 0"
  "block_shape (b\<lparr>dynamicallyAllocated := d\<rparr>) = block_shape b"
  by (simp_all add: block_shape_def Block_init_def)

lemma initial_pool_inv: "pool_inv (initial_pool env capacity) [] {}"
  by (simp add: initial_pool_def populate_initial_block_list_def cq_malloc_def Let_def
      pool_inv_def unissued_def list_all_iff)

interpretation bp: block_source "\<lambda>q used. \<exists>fl. pool_inv q fl used" "requisition_block env mode"
  add_block_to_free_list
  for env mode
proof unfold_locales
  fix q :: "'a BlockPool" and used
  assume "\<exists>fl. pool_inv q fl used"
  then obtain fl where inv: "pool_inv q fl used" ..
  obtain q' r where "requisition_block env mode q = Inr (q', r)"
    "case r of
        Some i \<Rightarrow> (\<exists>fl'. pool_inv q' fl' (insert i used)) \<and> i \<notin> used \<and>
          (\<forall>x \<in> used. blocks q' ! x = blocks q ! x)
      | None \<Rightarrow> pool_inv q' fl used \<and> blocks q' = blocks q \<and>
          (mode = CannotAlloc \<or> \<not> malloc_ok env (mallocs q))"
    using requisition_block_spec [OF inv, of env mode] by blast
  then show "\<exists>q' r. requisition_block env mode q = Inr (q', r) \<and>
      (case r of Some i \<Rightarrow> i \<notin> used \<and> (\<exists>fl. pool_inv q' fl (insert i used))
       | None \<Rightarrow> \<exists>fl. pool_inv q' fl used)"
    by (cases r) auto
next
  fix q :: "'a BlockPool" and used i
  assume "\<exists>fl. pool_inv q fl used" "i \<in> used"
  then show "\<exists>q'. add_block_to_free_list q i = Inr q' \<and> (\<exists>fl. pool_inv q' fl (used - {i}))"
    using add_block_to_free_list_spec by blast
qed

text \<open>
  Whatever sequence of \<^verbatim>\<open>requisition_block\<close> and \<^verbatim>\<open>add_block_to_free_list\<close> calls one thread makes on
  the pool of a new queue, with every block given back one it holds, no call faults, and the blocks
  it holds at the end are pairwise different: no block is handed out twice.
\<close>

theorem block_pool_session:
  "\<exists>q held. pool_session (requisition_block env mode) add_block_to_free_list (initial_pool env capacity) [] ops
     = Inr (q, held) \<and> distinct held \<and> (\<exists>fl. pool_inv q fl (set held))"
  using bp.session_ok [of "initial_pool env capacity" "[]" env mode ops]
    exI [of "\<lambda>fl. pool_inv (initial_pool env capacity) fl {}", OF initial_pool_inv] by auto

end
