(* ===== verification/CQ_BlockIndex.thy ===== *)
theory CQ_BlockIndex
  imports CQ_Block
begin

text \<open>
  The block index of an implicit producer (\<^verbatim>\<open>BlockIndexEntry\<close>, \<^verbatim>\<open>BlockIndexHeader\<close> and the private
  functions of \<^verbatim>\<open>struct ImplicitProducer\<close> in
  \<^verbatim>\<open>src/utils/concurrentqueue-1.0.3/concurrentqueue.h\<close>): a ring of pointers to entries, each of which
  maps the base index of a block to the block. A full ring is replaced by one of twice the capacity
  that shares the old entries.

  The members \<^verbatim>\<open>nextBlockIndexCapacity\<close> and \<^verbatim>\<open>blockIndex\<close> of the producer are the record
  \<open>BlockIndex\<close>, with the entries in a heap of their own. The chain of headers that the \<^verbatim>\<open>prev\<close> pointers
  form is a list, whose head is the current one.

  The invariant \<open>ring_inv\<close> says which blocks the ring holds; the lemmas show that looking an index
  up finds its block, whatever the wrap-around of the 64-bit indices, that inserting appends a
  block, that a failed insertion is undone, and that a consumed block leaves the ring at the other end.
\<close>

record BlockIndexEntry =
  entry_key :: u64
  entry_value :: "nat option"

record BlockIndexHeader =
  capacity :: u64
  tail :: u64
  index :: "nat list"

record BlockIndex =
  nextBlockIndexCapacity :: u64
  blockIndex :: "BlockIndexHeader list"
  entry_heap :: "BlockIndexEntry list"

definition INVALID_BLOCK_BASE :: u64 where
  "INVALID_BLOCK_BASE = 1"

definition IMPLICIT_INITIAL_INDEX_SIZE :: u64 where
  "IMPLICIT_INITIAL_INDEX_SIZE = 32"

definition store_key :: "BlockIndex \<Rightarrow> nat \<Rightarrow> u64 \<Rightarrow> BlockIndex" where
  "store_key p e k = p\<lparr>entry_heap := (entry_heap p)[e := (entry_heap p ! e)\<lparr>entry_key := k\<rparr>]\<rparr>"

definition store_value :: "BlockIndex \<Rightarrow> nat \<Rightarrow> nat option \<Rightarrow> BlockIndex" where
  "store_value p e v = p\<lparr>entry_heap := (entry_heap p)[e := (entry_heap p ! e)\<lparr>entry_value := v\<rparr>]\<rparr>"

definition header_entry :: "BlockIndex \<Rightarrow> BlockIndexHeader \<Rightarrow> u64 \<Rightarrow> fault + nat" where
  "header_entry p h i =
     (if unat i < length (index h) \<and> index h ! unat i < length (entry_heap p)
      then Inr (index h ! unat i) else Inl Undefined_Behaviour)"

definition store_tail :: "BlockIndex \<Rightarrow> u64 \<Rightarrow> BlockIndex" where
  "store_tail p t =
     (case blockIndex p of [] \<Rightarrow> p | h # hs \<Rightarrow> p\<lparr>blockIndex := h\<lparr>tail := t\<rparr> # hs\<rparr>)"

section \<open>Allocating a larger ring\<close>

text \<open>
  The \<^verbatim>\<open>do\<close> loop of \<^verbatim>\<open>new_block_index\<close>: the old ring is copied from the position after its tail up to
  its tail. The fuel is the capacity: the loop visits a position at most once.
\<close>

fun copy_index :: "nat \<Rightarrow> BlockIndexHeader \<Rightarrow> u64 \<Rightarrow> fault + nat list" where
  "copy_index 0 prev prevPos = Inl Diverges"
| "copy_index (Suc n) prev prevPos =
     (let prevPos = (prevPos + 1) AND (capacity prev - 1)
      in if unat prevPos < length (index prev) then
           if prevPos \<noteq> tail prev
           then and_then (copy_index n prev prevPos) (\<lambda>ixs. Inr (index prev ! unat prevPos # ixs))
           else Inr [index prev ! unat prevPos]
         else Inl Undefined_Behaviour)"

definition prev_index :: "BlockIndex \<Rightarrow> fault + nat list" where
  "prev_index p =
     (case blockIndex p of
        [] \<Rightarrow> Inr []
      | prev # _ \<Rightarrow>
          and_then (copy_index (unat (capacity prev)) prev (tail prev)) (\<lambda>ixs.
            if length ixs = unat (capacity prev) then Inr ixs else Inl Assertion_Failed))"

text \<open>A new entry has an invalid key; its value is whatever the memory holds.\<close>

definition new_entries :: "alloc_env \<Rightarrow> nat \<Rightarrow> nat \<Rightarrow> BlockIndexEntry list" where
  "new_entries env base n = map (\<lambda>i. \<lparr>entry_key = INVALID_BLOCK_BASE, entry_value = raw_value env (base + i)\<rparr>) [0..<n]"

definition new_block_index ::
  "alloc_env \<Rightarrow> 'a BlockPool \<Rightarrow> BlockIndex \<Rightarrow> fault + 'a BlockPool \<times> BlockIndex \<times> bool" where
  "new_block_index env q p =
     (let prevCapacity = (case blockIndex p of [] \<Rightarrow> 0 | prev # _ \<Rightarrow> capacity prev);
          entryCount = (case blockIndex p of [] \<Rightarrow> nextBlockIndexCapacity p | _ \<Rightarrow> prevCapacity)
      in case cq_malloc env q of (q, ok) \<Rightarrow>
        if \<not> ok then Inr (q, p, False)
        else and_then (prev_index p) (\<lambda>ixs.
          let base = length (entry_heap p);
              header = \<lparr>capacity = nextBlockIndexCapacity p,
                        tail = (prevCapacity - 1) AND (nextBlockIndexCapacity p - 1),
                        index = ixs @ [base..<base + unat entryCount]\<rparr>
          in Inr (q, p\<lparr>entry_heap := entry_heap p @ new_entries env base (unat entryCount),
                       blockIndex := header # blockIndex p,
                       nextBlockIndexCapacity := push_bit 1 (nextBlockIndexCapacity p)\<rparr>, True)))"

section \<open>Insertion, rewinding and lookup\<close>

definition publish_entry :: "BlockIndex \<Rightarrow> nat \<Rightarrow> u64 \<Rightarrow> u64 \<Rightarrow> BlockIndex" where
  "publish_entry p e blockStartIndex newTail = store_tail (store_key p e blockStartIndex) newTail"

definition next_tail :: "BlockIndexHeader \<Rightarrow> u64" where
  "next_tail h = (tail h + 1) AND (capacity h - 1)"

text \<open>The result is the entry, or \<open>None\<close> when the function returns \<^verbatim>\<open>false\<close>.\<close>

definition insert_block_index_entry ::
  "alloc_env \<Rightarrow> AllocationMode \<Rightarrow> u64 \<Rightarrow> 'a BlockPool \<Rightarrow> BlockIndex \<Rightarrow>
     fault + 'a BlockPool \<times> BlockIndex \<times> nat option" where
  "insert_block_index_entry env allocMode blockStartIndex q p =
     (case blockIndex p of
        [] \<Rightarrow> Inr (q, p, None)
      | h # _ \<Rightarrow>
          and_then (header_entry p h (next_tail h)) (\<lambda>e.
            if entry_key (entry_heap p ! e) = INVALID_BLOCK_BASE \<or> entry_value (entry_heap p ! e) = None
            then Inr (q, publish_entry p e blockStartIndex (next_tail h), Some e)
            else if allocMode = CannotAlloc then Inr (q, p, None)
            else and_then (new_block_index env q p) (\<lambda>(q, p, ok).
              if \<not> ok then Inr (q, p, None)
              else case blockIndex p of
                  [] \<Rightarrow> Inl Undefined_Behaviour
                | h # _ \<Rightarrow>
                    and_then (header_entry p h (next_tail h)) (\<lambda>e.
                      if entry_key (entry_heap p ! e) = INVALID_BLOCK_BASE
                      then Inr (q, publish_entry p e blockStartIndex (next_tail h), Some e)
                      else Inl Assertion_Failed))))"

definition rewind_block_index_tail :: "BlockIndex \<Rightarrow> fault + BlockIndex" where
  "rewind_block_index_tail p =
     (case blockIndex p of
        [] \<Rightarrow> Inl Undefined_Behaviour
      | h # _ \<Rightarrow> Inr (store_tail p ((tail h - 1) AND (capacity h - 1))))"

text \<open>
  \<^verbatim>\<open>BLOCK_SIZE\<close> is a \<^verbatim>\<open>size_t\<close>, so the signed difference is converted back to an unsigned one before
  it is divided.
\<close>

definition get_block_index_index_for_index :: "BlockIndex \<Rightarrow> u64 \<Rightarrow> fault + BlockIndexHeader \<times> u64" where
  "get_block_index_index_for_index p i =
     (let i = i AND NOT (BLOCK_SIZE - 1)
      in case blockIndex p of
           [] \<Rightarrow> Inl Undefined_Behaviour
         | localBlockIndex # _ \<Rightarrow>
             and_then (header_entry p localBlockIndex (tail localBlockIndex)) (\<lambda>t.
               let tailBase = entry_key (entry_heap p ! t)
               in if tailBase = INVALID_BLOCK_BASE then Inl Assertion_Failed
                  else let offset = (i - tailBase) div BLOCK_SIZE;
                           idx = (tail localBlockIndex + offset) AND (capacity localBlockIndex - 1)
                       in and_then (header_entry p localBlockIndex idx) (\<lambda>e.
                            if entry_key (entry_heap p ! e) = i \<and> entry_value (entry_heap p ! e) \<noteq> None
                            then Inr (localBlockIndex, idx) else Inl Assertion_Failed)))"

definition get_block_index_entry_for_index :: "BlockIndex \<Rightarrow> u64 \<Rightarrow> fault + nat" where
  "get_block_index_entry_for_index p i =
     and_then (get_block_index_index_for_index p i) (\<lambda>(localBlockIndex, idx).
       header_entry p localBlockIndex idx)"

section \<open>The invariant of the ring\<close>

text \<open>The entry \<open>j\<close> places before the tail.\<close>

definition back_entry :: "BlockIndex \<Rightarrow> BlockIndexHeader \<Rightarrow> nat \<Rightarrow> BlockIndexEntry" where
  "back_entry p h j =
     entry_heap p ! (index h ! ((unat (tail h) + (length (index h) - j)) mod length (index h)))"

definition entry_free :: "BlockIndexEntry \<Rightarrow> bool" where
  "entry_free e \<longleftrightarrow> entry_key e = INVALID_BLOCK_BASE \<or> entry_value e = None"

text \<open>
  The ring holds the blocks \<open>bs\<close>, the newest of which is the block number \<open>m - 1\<close>: going back from
  the tail, the entries map their bases to them, and every other entry is free.
\<close>

definition ring_ok :: "BlockIndex \<Rightarrow> BlockIndexHeader \<Rightarrow> nat \<Rightarrow> nat \<Rightarrow> nat list \<Rightarrow> bool" where
  "ring_ok p h k m bs \<longleftrightarrow>
     5 \<le> k \<and> k \<le> 59 \<and> capacity h = 2 ^ k \<and> nextBlockIndexCapacity p = 2 ^ (k + 1) \<and>
     length (index h) = 2 ^ k \<and> distinct (index h) \<and> list_all (\<lambda>e. e < length (entry_heap p)) (index h) \<and>
     unat (tail h) < 2 ^ k \<and> length bs \<le> 2 ^ k \<and> length bs \<le> m \<and>
     (\<forall>j < length bs. back_entry p h j =
        \<lparr>entry_key = of_nat (32 * (m - 1 - j)), entry_value = Some (bs ! (length bs - 1 - j))\<rparr>) \<and>
     (\<forall>j. length bs \<le> j \<and> j < 2 ^ k \<longrightarrow> entry_free (back_entry p h j))"

definition ring_inv :: "BlockIndex \<Rightarrow> nat \<Rightarrow> nat list \<Rightarrow> bool" where
  "ring_inv p m bs \<longleftrightarrow>
     (case blockIndex p of
        [] \<Rightarrow> m = 0 \<and> bs = [] \<and> nextBlockIndexCapacity p = IMPLICIT_INITIAL_INDEX_SIZE
      | h # _ \<Rightarrow> \<exists>k. ring_ok p h k m bs)"

subsection \<open>Positions in the ring\<close>

definition back_pos :: "BlockIndexHeader \<Rightarrow> nat \<Rightarrow> nat" where
  "back_pos h j = (unat (tail h) + (length (index h) - j)) mod length (index h)"

definition back_ptr :: "BlockIndexHeader \<Rightarrow> nat \<Rightarrow> nat" where
  "back_ptr h j = index h ! back_pos h j"

lemma back_entry_ptr: "back_entry p h j = entry_heap p ! back_ptr h j"
  by (simp add: back_entry_def back_ptr_def back_pos_def)

lemma ring_pos_eq:
  fixes t n j :: nat
  assumes "t < n" "j < n"
  shows "(t + (n - j)) mod n = (if j \<le> t then t - j else t + n - j)"
proof (cases "j \<le> t")
  case True
  then have "t + (n - j) = (t - j) + n" using assms by simp
  moreover have "((t - j) + n) mod n = t - j" using assms(1) by (simp only: mod_add_self2 mod_less less_imp_diff_less)
  ultimately show ?thesis using True by simp
qed (use assms in simp)

lemma back_pos_eq:
  assumes "unat (tail h) < length (index h)" "j < length (index h)"
  shows "back_pos h j = (if j \<le> unat (tail h) then unat (tail h) - j else unat (tail h) + length (index h) - j)"
  unfolding back_pos_def using assms by (rule ring_pos_eq)

lemma back_ptr_inject:
  assumes "unat (tail h) < length (index h)" "distinct (index h)" "i < length (index h)" "j < length (index h)"
  shows "back_ptr h i = back_ptr h j \<longleftrightarrow> i = j"
proof -
  have "back_pos h i < length (index h)" "back_pos h j < length (index h)"
    using assms(3) by (auto simp: back_pos_def intro: mod_less_divisor)
  then have "back_ptr h i = back_ptr h j \<longleftrightarrow> back_pos h i = back_pos h j"
    using assms(2) by (simp add: back_ptr_def nth_eq_iff_index_eq)
  also have "\<dots> \<longleftrightarrow> i = j" using assms by (auto simp: back_pos_eq split: if_splits)
  finally show ?thesis .
qed

text \<open>What \<open>ring_ok\<close> says of the shape of the ring, without its contents.\<close>

definition ring_shape :: "BlockIndex \<Rightarrow> BlockIndexHeader \<Rightarrow> nat \<Rightarrow> bool" where
  "ring_shape p h k \<longleftrightarrow>
     5 \<le> k \<and> k \<le> 59 \<and> capacity h = 2 ^ k \<and> nextBlockIndexCapacity p = 2 ^ (k + 1) \<and>
     length (index h) = 2 ^ k \<and> distinct (index h) \<and> list_all (\<lambda>e. e < length (entry_heap p)) (index h) \<and>
     unat (tail h) < 2 ^ k"

lemma ring_ok_shape:
  "ring_ok p h k m bs \<longleftrightarrow> ring_shape p h k \<and> length bs \<le> 2 ^ k \<and> length bs \<le> m \<and>
     (\<forall>j < length bs. back_entry p h j =
        \<lparr>entry_key = of_nat (32 * (m - 1 - j)), entry_value = Some (bs ! (length bs - 1 - j))\<rparr>) \<and>
     (\<forall>j. length bs \<le> j \<and> j < 2 ^ k \<longrightarrow> entry_free (back_entry p h j))"
  by (auto simp: ring_ok_def ring_shape_def)

lemma pow2_le_59: "k \<le> 59 \<Longrightarrow> (2::nat) ^ k \<le> 2 ^ 59"
  by (rule power_increasing) simp_all

lemma ring_shape_ptr:
  assumes "ring_shape p h k" "j < 2 ^ k"
  shows "back_pos h j < 2 ^ k" "back_ptr h j < length (entry_heap p)"
proof -
  show "back_pos h j < 2 ^ k"
    using assms by (auto simp: back_pos_def ring_shape_def intro: mod_less_divisor)
  then show "back_ptr h j < length (entry_heap p)"
    using assms(1) by (simp add: back_ptr_def ring_shape_def list_all_length)
qed

lemma ring_shape_inject:
  "ring_shape p h k \<Longrightarrow> i < 2 ^ k \<Longrightarrow> j < 2 ^ k \<Longrightarrow> back_ptr h i = back_ptr h j \<longleftrightarrow> i = j"
  by (rule back_ptr_inject) (simp_all add: ring_shape_def)

lemma header_entry_back:
  assumes "ring_shape p h k" "j < 2 ^ k" "unat i = back_pos h j"
  shows "header_entry p h i = Inr (back_ptr h j)"
  using ring_shape_ptr [OF assms(1,2)] assms(1,3)
  by (simp add: header_entry_def back_ptr_def ring_shape_def)

lemma unat_next_tail:
  assumes "ring_shape p h k"
  shows "unat (next_tail h) = (unat (tail h) + 1) mod 2 ^ k"
    and "unat (next_tail h) = back_pos h (2 ^ k - 1)"
proof -
  have "unat (tail h) + 1 < 2 ^ 64"
    using assms pow2_le_59 [of k] by (auto simp: ring_shape_def)
  then have "unat (tail h + 1) = unat (tail h) + 1" by (simp add: unat_word_ariths)
  then show *: "unat (next_tail h) = (unat (tail h) + 1) mod 2 ^ k"
    using assms by (simp add: next_tail_def ring_shape_def and_pow2_minus_one)
  have "2 ^ k - (2 ^ k - 1) = (1::nat)" by simp
  then show "unat (next_tail h) = back_pos h (2 ^ k - 1)"
    using assms unfolding * back_pos_def ring_shape_def by simp
qed

lemma back_ptr_next:
  assumes "ring_shape p h k"
  defines "h' \<equiv> h\<lparr>tail := next_tail h\<rparr>"
  shows "back_ptr h' 0 = back_ptr h (2 ^ k - 1)"
    and "j < 2 ^ k - 1 \<Longrightarrow> back_ptr h' (Suc j) = back_ptr h j"
proof -
  let ?t = "unat (tail h)"
  have n: "length (index h) = 2 ^ k" using assms(1) by (simp add: ring_shape_def)
  have t: "unat (tail h') = (?t + 1) mod 2 ^ k" "index h' = index h"
    using unat_next_tail(1) [OF assms(1)] by (simp_all add: h'_def)
  have "back_pos h' 0 = (?t + 1) mod 2 ^ k" by (simp add: back_pos_def n t)
  then show "back_ptr h' 0 = back_ptr h (2 ^ k - 1)"
    using unat_next_tail [OF assms(1)] by (simp add: back_ptr_def t)
  assume j: "j < 2 ^ k - 1"
  have "back_pos h' (Suc j) = (?t + 1 + (2 ^ k - Suc j)) mod 2 ^ k"
    by (simp only: back_pos_def n t mod_add_left_eq)
  also have "?t + 1 + (2 ^ k - Suc j) = ?t + (2 ^ k - j)" using j by simp
  finally have "back_pos h' (Suc j) = back_pos h j" by (simp only: back_pos_def n)
  then show "back_ptr h' (Suc j) = back_ptr h j" by (simp add: back_ptr_def t)
qed

lemma pred_mod:
  fixes a n :: nat
  assumes "a dvd n" "0 < n"
  shows "(n - 1) mod a = a - 1"
proof -
  obtain b where b: "n = a * b" using assms(1) by blast
  then obtain c where "b = Suc c" "0 < a" using assms(2) by (cases b) auto
  then have "n - 1 = (a - 1) + a * c" using b by simp
  then have "(n - 1) mod a = (a - 1) mod a" by (simp only: mod_mult_self2)
  then show ?thesis using \<open>0 < a\<close> by simp
qed

lemma rewind_tail:
  assumes "ring_shape p h k"
  shows "(next_tail h - 1) AND (capacity h - 1) = tail h"
proof -
  have t: "unat (tail h) < 2 ^ k" and k: "k \<le> 59" "capacity h = 2 ^ k"
    using assms by (auto simp: ring_shape_def)
  have "unat (next_tail h - 1) mod 2 ^ k = unat (tail h)"
  proof (cases "unat (tail h) + 1 < 2 ^ k")
    case True
    then have "unat (next_tail h) = unat (tail h) + 1" using unat_next_tail(1) [OF assms] by simp
    moreover from this have "0 < next_tail h" by (simp add: word_less_nat_alt)
    ultimately have "unat (next_tail h - 1) = unat (tail h)" using unat_minus_one_pos [of 0 "next_tail h"] by simp
    then show ?thesis using t by simp
  next
    case False
    then have top: "unat (tail h) + 1 = 2 ^ k" using t by simp
    then have "unat (next_tail h) = 0" using unat_next_tail(1) [OF assms] by simp
    then have "unat (next_tail h - 1) = 2 ^ 64 - 1"
      by (simp add: unat_eq_zero unsigned_minus_1_eq_mask mask_eq_exp_minus_1)
    also have "\<dots> mod 2 ^ k = 2 ^ k - 1"
      using k(1) le_imp_power_dvd [of k 64 "2::nat"] by (intro pred_mod) simp_all
    finally show ?thesis using top by simp
  qed
  then show ?thesis by (simp add: word_unat_eq_iff k(2) and_pow2_minus_one)
qed

subsection \<open>Insertion and rewinding\<close>

lemma store_simps [simp]:
  "blockIndex (store_key p e x) = blockIndex p" "blockIndex (store_value p e v) = blockIndex p"
  "nextBlockIndexCapacity (store_key p e x) = nextBlockIndexCapacity p"
  "nextBlockIndexCapacity (store_value p e v) = nextBlockIndexCapacity p"
  "length (entry_heap (store_key p e x)) = length (entry_heap p)"
  "length (entry_heap (store_value p e v)) = length (entry_heap p)"
  "entry_heap (store_tail p t) = entry_heap p"
  "nextBlockIndexCapacity (store_tail p t) = nextBlockIndexCapacity p"
  "blockIndex p = h # hs \<Longrightarrow> blockIndex (store_tail p t) = h\<lparr>tail := t\<rparr> # hs"
  by (simp_all add: store_key_def store_value_def store_tail_def split: list.splits)

lemma nth_store:
  "e < length (entry_heap p) \<Longrightarrow> entry_heap (store_key p e x) ! i =
     (if i = e then (entry_heap p ! e)\<lparr>entry_key := x\<rparr> else entry_heap p ! i)"
  "e < length (entry_heap p) \<Longrightarrow> entry_heap (store_value p e v) ! i =
     (if i = e then (entry_heap p ! e)\<lparr>entry_value := v\<rparr> else entry_heap p ! i)"
  by (auto simp: store_key_def store_value_def nth_list_update)

lemma ring_shape_store [simp]:
  "ring_shape (store_key p e x) h k = ring_shape p h k" "ring_shape (store_value p e v) h k = ring_shape p h k"
  "ring_shape (store_tail p t) h k = ring_shape p h k"
  by (simp_all add: ring_shape_def)

lemma ring_shape_next: "ring_shape p h k \<Longrightarrow> ring_shape p (h\<lparr>tail := next_tail h\<rparr>) k"
  using unat_next_tail(1) [of p h k] by (simp add: ring_shape_def)

lemma publish_ring:
  assumes "blockIndex p = h # hs" "ring_ok p h k m bs" "length bs < 2 ^ k"
  defines "e \<equiv> back_ptr h (2 ^ k - 1)"
  defines "p' \<equiv> publish_entry p e (of_nat (32 * m)) (next_tail h)"
  shows "ring_inv (store_value p' e (Some b)) (Suc m) (bs @ [b])"
    and "\<exists>p''. rewind_block_index_tail p' = Inr p'' \<and> ring_inv (store_value p'' e None) m bs"
    and "e < length (entry_heap p')"
proof -
  let ?h = "h\<lparr>tail := next_tail h\<rparr>"
  have shape: "ring_shape p h k" using assms(2) by (simp add: ring_ok_shape)
  have last: "(2::nat) ^ k - 1 < 2 ^ k" by simp
  have e: "e < length (entry_heap p)" using ring_shape_ptr(2) [OF shape last] by (simp add: e_def)
  then show "e < length (entry_heap p')" by (simp add: p'_def publish_entry_def)
  have other: "back_ptr h j \<noteq> e" if "j < 2 ^ k - 1" for j
    using ring_shape_inject [OF shape, of j "2 ^ k - 1"] that by (simp add: e_def)
  have p': "blockIndex p' = ?h # hs" "entry_heap p' = entry_heap (store_key p e (of_nat (32 * m)))"
    "nextBlockIndexCapacity p' = nextBlockIndexCapacity p"
    by (simp_all add: p'_def publish_entry_def assms(1))
  note nxt = back_ptr_next [OF shape, folded e_def]
  have zero: "back_entry (store_value p' e (Some b)) ?h 0 =
      \<lparr>entry_key = of_nat (32 * m), entry_value = Some b\<rparr>"
    using e by (simp add: back_entry_ptr nxt(1) nth_store p')
  have suc: "back_entry (store_value p' e (Some b)) ?h (Suc j) = back_entry p h j" if "j < 2 ^ k - 1" for j
    using e other [OF that] by (simp add: back_entry_ptr nxt(2) [OF that] nth_store p')
  have "ring_shape (store_value p' e (Some b)) ?h k"
    using ring_shape_next [OF shape] p' by (simp add: ring_shape_def)
  moreover have "back_entry (store_value p' e (Some b)) ?h j =
      \<lparr>entry_key = of_nat (32 * (Suc m - 1 - j)), entry_value = Some ((bs @ [b]) ! (length (bs @ [b]) - 1 - j))\<rparr>"
    if "j < length (bs @ [b])" for j
  proof (cases j)
    case (Suc i)
    then have "i < length bs" "length bs - Suc i < length bs" using that by simp_all
    then show ?thesis using Suc assms(2,3) suc [of i] by (simp add: ring_ok_def nth_append)
  qed (simp add: zero)
  moreover have "entry_free (back_entry (store_value p' e (Some b)) ?h j)"
    if "length (bs @ [b]) \<le> j" "j < 2 ^ k" for j
    using that suc [of "j - 1"] assms(2) by (cases j) (auto simp: ring_ok_def)
  ultimately have "ring_ok (store_value p' e (Some b)) ?h k (Suc m) (bs @ [b])"
    using assms(2,3) by (simp add: ring_ok_shape)
  then show "ring_inv (store_value p' e (Some b)) (Suc m) (bs @ [b])"
    by (auto simp: ring_inv_def p')
  have rw: "rewind_block_index_tail p' = Inr (store_tail p' (tail h))"
    using rewind_tail [OF shape] by (simp add: rewind_block_index_tail_def p')
  let ?p = "store_value (store_tail p' (tail h)) e None"
  have same: "back_entry ?p h j = back_entry p h j" if "j < 2 ^ k - 1" for j
    using e other [OF that] by (simp add: back_entry_ptr nth_store p')
  have last_free: "entry_free (back_entry ?p h (2 ^ k - 1))"
    unfolding back_entry_ptr e_def [symmetric] using e by (simp add: nth_store p' entry_free_def)
  have "entry_free (back_entry ?p h j)" if "length bs \<le> j" "j < 2 ^ k" for j
  proof (cases "j = 2 ^ k - 1")
    case False
    then have "j < 2 ^ k - 1" using that(2) by simp
    then show ?thesis using same [of j] that assms(2) by (simp add: ring_ok_def)
  qed (simp add: last_free del: One_nat_def)
  moreover have "back_entry ?p h j = back_entry p h j" if "j < length bs" for j
    using same [of j] that assms(3) by simp
  moreover have "ring_shape ?p h k" using shape p' by (simp add: ring_shape_def)
  ultimately have "ring_ok ?p h k m bs" using assms(2) by (simp add: ring_ok_shape)
  then show "\<exists>p''. rewind_block_index_tail p' = Inr p'' \<and> ring_inv (store_value p'' e None) m bs"
    using rw p' by (auto simp: ring_inv_def)
qed

subsection \<open>A larger ring\<close>

lemma copy_index_spec:
  assumes "capacity h = 2 ^ k" "k \<le> 59" "length (index h) = 2 ^ k" "unat (tail h) < 2 ^ k"
    "Suc n \<le> 2 ^ k" "unat pos < 2 ^ k" "(unat pos + Suc n) mod 2 ^ k = unat (tail h)"
  shows "copy_index (Suc n) h pos = Inr (map (\<lambda>i. index h ! ((unat pos + Suc i) mod 2 ^ k)) [0..<Suc n])"
  using assms(5-)
proof (induction n arbitrary: pos)
  case (Suc n)
  let ?pos = "(pos + 1) AND (2 ^ k - 1)"
  have "unat pos + 1 < 2 ^ 64" using Suc.prems(2) pow2_le_59 [OF assms(2)] by simp
  then have pos: "unat ?pos = (unat pos + 1) mod 2 ^ k"
    by (simp add: and_pow2_minus_one unat_word_ariths)
  have "(unat ?pos + Suc n) mod 2 ^ k = (unat pos + 1 + Suc n) mod 2 ^ k"
    unfolding pos by (rule mod_add_left_eq)
  then have "(unat ?pos + Suc n) mod 2 ^ k = unat (tail h)" using Suc.prems(3) by simp
  moreover have "?pos \<noteq> tail h"
  proof
    assume "?pos = tail h"
    then have "(unat pos + 1 + Suc n) mod 2 ^ k = (unat pos + 1) mod 2 ^ k"
      using Suc.prems(3) pos by simp
    then have "2 ^ k dvd Suc n" using mod_eq_dvd_iff_nat [of "unat pos + 1" "unat pos + 1 + Suc n" "2 ^ k"] by simp
    then show False using Suc.prems(1) by (auto dest: dvd_imp_le)
  qed
  moreover have "copy_index (Suc n) h ?pos =
      Inr (map (\<lambda>i. index h ! ((unat ?pos + Suc i) mod 2 ^ k)) [0..<Suc n])"
    using Suc.prems pos calculation(1) by (intro Suc.IH) simp_all
  moreover have "map (\<lambda>i. index h ! ((unat pos + Suc i) mod 2 ^ k)) [0..<Suc (Suc n)]
      = index h ! unat ?pos # map (\<lambda>i. index h ! ((unat ?pos + Suc i) mod 2 ^ k)) [0..<Suc n]"
  proof -
    have "(unat ?pos + Suc i) mod 2 ^ k = (unat pos + Suc (Suc i)) mod 2 ^ k" for i
      unfolding pos by (simp only: mod_add_left_eq) simp
    then show ?thesis unfolding upt_conv_Cons [OF zero_less_Suc, of "Suc n"] map_Suc_upt [symmetric]
      by (simp add: pos del: upt_Suc)
  qed
  ultimately show ?case using assms(1,3) pos by (simp add: Let_def del: upt_Suc)
next
  case 0
  let ?pos = "(pos + 1) AND (2 ^ k - 1)"
  have "unat pos + 1 < 2 ^ 64" using 0 pow2_le_59 [OF assms(2)] by simp
  then have pos: "unat ?pos = (unat pos + 1) mod 2 ^ k"
    by (simp add: and_pow2_minus_one unat_word_ariths)
  then have "?pos = tail h" using 0 by (simp add: word_unat_eq_iff)
  then show ?case using assms(1,3,4) pos by (simp add: Let_def)
qed

lemma prev_index_spec:
  assumes "blockIndex p = h # hs" "ring_shape p h k"
  shows "prev_index p = Inr (map (\<lambda>i. back_ptr h (2 ^ k - 1 - i)) [0..<2 ^ k])"
proof -
  let ?t = "unat (tail h)"
  have h: "capacity h = 2 ^ k" "k \<le> 59" "length (index h) = 2 ^ k" "?t < 2 ^ k"
    using assms(2) by (auto simp: ring_shape_def)
  have k: "Suc (2 ^ k - 1) = (2::nat) ^ k" by simp
  have "copy_index (Suc (2 ^ k - 1)) h (tail h)
      = Inr (map (\<lambda>i. index h ! ((?t + Suc i) mod 2 ^ k)) [0..<Suc (2 ^ k - 1)])"
    using h by (intro copy_index_spec) (simp_all add: k del: diff_Suc_1)
  moreover have "index h ! ((?t + Suc i) mod 2 ^ k) = back_ptr h (2 ^ k - 1 - i)" if "i < 2 ^ k" for i
  proof -
    have "2 ^ k - (2 ^ k - 1 - i) = Suc i" using that by simp
    then show ?thesis by (simp only: back_ptr_def back_pos_def h(3))
  qed
  ultimately show ?thesis
    using h by (simp add: prev_index_def assms(1) unat_pow2 k cong: map_cong)
qed

lemma nth_new_entries:
  "i < n \<Longrightarrow> entry_free (new_entries env base n ! i)" "length (new_entries env base n) = n"
  "i < n \<Longrightarrow> entry_key (new_entries env base n ! i) = INVALID_BLOCK_BASE"
  by (simp_all add: new_entries_def entry_free_def)

text \<open>The first ring, which the constructor of the producer allocates.\<close>

definition BlockIndex_empty :: BlockIndex where
  "BlockIndex_empty = \<lparr>nextBlockIndexCapacity = IMPLICIT_INITIAL_INDEX_SIZE, blockIndex = [], entry_heap = []\<rparr>"

lemma new_block_index_first:
  shows "\<exists>p'. new_block_index env q BlockIndex_empty = Inr (q\<lparr>mallocs := mallocs q + 1\<rparr>, p', malloc_ok env (mallocs q)) \<and>
     ring_inv p' 0 []"
proof (cases "malloc_ok env (mallocs q)")
  case True
  let ?h = "\<lparr>capacity = 32, tail = 31, index = [0..<32]\<rparr>"
  let ?p = "\<lparr>nextBlockIndexCapacity = 64, blockIndex = [?h], entry_heap = new_entries env 0 32\<rparr>"
  have new: "new_block_index env q BlockIndex_empty = Inr (q\<lparr>mallocs := mallocs q + 1\<rparr>, ?p, True)"
    using True by (simp add: new_block_index_def cq_malloc_def BlockIndex_empty_def prev_index_def
        IMPLICIT_INITIAL_INDEX_SIZE_def push_bit_eq_mult)
  have shape: "ring_shape ?p ?h 5"
    by (simp add: ring_shape_def nth_new_entries list_all_iff)
  have "entry_free (back_entry ?p ?h j)" if "j < 2 ^ 5" for j
    using ring_shape_ptr(2) [OF shape that] by (simp add: back_entry_ptr nth_new_entries)
  with shape have "ring_inv ?p 0 []" by (auto simp: ring_inv_def ring_ok_shape)
  then show ?thesis using new True by (intro exI [of _ ?p]) simp
next
  case False
  then show ?thesis
    by (simp add: new_block_index_def cq_malloc_def ring_inv_def BlockIndex_empty_def)
qed

lemma new_block_index_spec:
  assumes "blockIndex p = h # hs" "ring_ok p h k m bs" "length bs = 2 ^ k" "k < 59"
  shows "\<exists>p' h'. new_block_index env q p = Inr (q\<lparr>mallocs := mallocs q + 1\<rparr>, p', malloc_ok env (mallocs q)) \<and>
     (if malloc_ok env (mallocs q)
      then blockIndex p' = h' # h # hs \<and> ring_ok p' h' (Suc k) m bs \<and>
           entry_key (back_entry p' h' (2 ^ Suc k - 1)) = INVALID_BLOCK_BASE
      else p' = p)"
proof (cases "malloc_ok env (mallocs q)")
  case True
  let ?n = "length (entry_heap p)"
  let ?ixs = "map (\<lambda>i. back_ptr h (2 ^ k - 1 - i)) [0..<2 ^ k] @ [?n..<?n + 2 ^ k]"
  let ?h = "\<lparr>capacity = 2 ^ Suc k, tail = 2 ^ k - 1, index = ?ixs\<rparr>"
  let ?p = "p\<lparr>entry_heap := entry_heap p @ new_entries env ?n (2 ^ k), blockIndex := ?h # blockIndex p,
              nextBlockIndexCapacity := 2 ^ (Suc k + 1)\<rparr>"
  have shape: "ring_shape p h k" using assms(2) by (simp add: ring_ok_shape)
  have pow: "unat (2 ^ k :: u64) = 2 ^ k" "unat (2 ^ Suc k :: u64) = 2 ^ Suc k"
    using assms(4) unat_pow2 [of k] unat_pow2 [of "Suc k"] by simp_all
  have t: "unat (2 ^ k - 1 :: u64) = 2 ^ k - 1"
    using unat_minus_one_pos [of 0 "2 ^ k :: u64"] pow by (simp add: word_less_nat_alt)
  have "(2 ^ k - 1 :: u64) AND (2 ^ Suc k - 1) = 2 ^ k - 1"
    unfolding word_unat_eq_iff and_pow2_minus_one t
    by (rule mod_less) (simp add: less_imp_diff_less)
  then have new: "new_block_index env q p = Inr (q\<lparr>mallocs := mallocs q + 1\<rparr>, ?p, True)"
    using True prev_index_spec [OF assms(1) shape] shape assms(1) pow
    by (simp add: new_block_index_def cq_malloc_def ring_shape_def push_bit_eq_mult Let_def)
  have old: "back_ptr ?h j = back_ptr h j" if "j < 2 ^ k" for j
  proof -
    have "back_pos ?h j = 2 ^ k - 1 - j" using that t by (subst back_pos_eq) auto
    moreover have "?ixs ! (2 ^ k - 1 - j) = back_ptr h j" using that by (simp add: nth_append)
    ultimately show ?thesis by (simp only: back_ptr_def [of ?h] BlockIndexHeader.simps)
  qed
  have fresh: "back_ptr ?h j = ?n + (2 ^ Suc k - 1 - j)" if "2 ^ k \<le> j" "j < 2 ^ Suc k" for j
  proof -
    have "back_pos ?h j = 2 ^ k + (2 ^ Suc k - 1 - j)" using that t by (subst back_pos_eq) auto
    moreover have "?ixs ! (2 ^ k + x) = ?n + x" if "x < 2 ^ k" for x
      using that by (simp add: nth_append)
    moreover have "2 ^ Suc k - 1 - j < 2 ^ k" using that by simp
    ultimately show ?thesis by (simp only: back_ptr_def [of ?h] BlockIndexHeader.simps)
  qed
  have bound: "back_ptr h j < ?n" if "j < 2 ^ k" for j using ring_shape_ptr(2) [OF shape that] .
  have bound': "back_ptr h (2 ^ k - Suc i) < ?n" for i by (rule bound) simp
  have "distinct ?ixs"
    using ring_shape_inject [OF shape] by (auto simp: distinct_map inj_on_def bound' [unfolded not_le [symmetric]])
  then have shape': "ring_shape ?p ?h (Suc k)"
    using shape assms(4) t bound' by (auto simp: ring_shape_def list_all_iff nth_new_entries intro: less_le_trans trans_less_add1)
  have entries: "back_entry ?p ?h j = (if j < 2 ^ k then back_entry p h j
      else new_entries env ?n (2 ^ k) ! (2 ^ Suc k - 1 - j))" if "j < 2 ^ Suc k" for j
    using that old [of j] fresh [of j] bound [of j] by (simp add: back_entry_ptr nth_append)
  have "ring_ok ?p ?h (Suc k) m bs"
    using shape' assms(2,3) entries by (auto simp: ring_ok_shape nth_new_entries)
  moreover have "entry_key (back_entry ?p ?h (2 ^ Suc k - 1)) = INVALID_BLOCK_BASE"
  proof -
    have "\<not> 2 ^ Suc k - 1 < (2::nat) ^ k" using one_le_power [of "2::nat" k] by simp
    then show ?thesis using entries [of "2 ^ Suc k - 1"] by (simp add: nth_new_entries)
  qed
  ultimately show ?thesis using new True by (auto simp: assms(1))
next
  case False
  then show ?thesis by (simp add: new_block_index_def cq_malloc_def Let_def)
qed

lemma unat_of_nat_mod_32: "unat (of_nat n :: u64) mod 32 = n mod 32"
  by (simp add: unat_of_nat mod_mod_cancel)

lemma block_base_valid: "(of_nat (32 * n) :: u64) \<noteq> INVALID_BLOCK_BASE"
proof
  assume "(of_nat (32 * n) :: u64) = INVALID_BLOCK_BASE"
  then have "unat (of_nat (32 * n) :: u64) mod 32 = 1" by (simp add: INVALID_BLOCK_BASE_def)
  then show False unfolding unat_of_nat_mod_32 by simp
qed

lemma insert_block_index_entry_spec:
  assumes "ring_inv p m bs" "length bs < 2 ^ 59"
  shows "\<exists>q' p' r. insert_block_index_entry env mode (of_nat (32 * m)) q p = Inr (q', p', r) \<and>
     (q' = q \<or> q' = q\<lparr>mallocs := mallocs q + 1\<rparr>) \<and>
     (case r of
        None \<Rightarrow> ring_inv p' m bs \<and> (blockIndex p = [] \<or> mode = CannotAlloc \<or> \<not> malloc_ok env (mallocs q))
      | Some e \<Rightarrow>
          (\<forall>b. ring_inv (store_value p' e (Some b)) (Suc m) (bs @ [b])) \<and>
          (\<exists>p''. rewind_block_index_tail p' = Inr p'' \<and> ring_inv (store_value p'' e None) m bs))"
proof (cases "blockIndex p")
  case Nil
  then show ?thesis using assms(1) by (auto simp: insert_block_index_entry_def)
next
  case (Cons h hs)
  then obtain k where ok: "ring_ok p h k m bs" using assms(1) by (auto simp: ring_inv_def)
  have shape: "ring_shape p h k" using ok by (simp add: ring_ok_shape)
  have entry: "header_entry p h (next_tail h) = Inr (back_ptr h (2 ^ k - 1))"
    using unat_next_tail(2) [OF shape] by (intro header_entry_back [OF shape]) simp_all
  show ?thesis
  proof (cases "length bs < 2 ^ k")
    case True
    then have "entry_free (back_entry p h (2 ^ k - 1))" using ok by (simp add: ring_ok_def)
    then have "insert_block_index_entry env mode (of_nat (32 * m)) q p =
        Inr (q, publish_entry p (back_ptr h (2 ^ k - 1)) (of_nat (32 * m)) (next_tail h), Some (back_ptr h (2 ^ k - 1)))"
      using Cons entry by (auto simp: insert_block_index_entry_def entry_free_def back_entry_ptr)
    then show ?thesis using publish_ring [OF Cons ok True] by simp
  next
    case False
    then have full: "length bs = 2 ^ k" using ok by (simp add: ring_ok_def)
    have "2 ^ k < (2::nat) ^ 59" using full assms(2) by simp
    then have k: "k < 59" by (rule power_less_imp_less_exp [rotated]) simp
    have "back_entry p h (2 ^ k - 1) =
        \<lparr>entry_key = of_nat (32 * (m - 2 ^ k)), entry_value = Some (bs ! 0)\<rparr>"
      using ok full by (simp add: ring_ok_def)
    then have busy: "\<not> (entry_key (entry_heap p ! back_ptr h (2 ^ k - 1)) = INVALID_BLOCK_BASE \<or>
        entry_value (entry_heap p ! back_ptr h (2 ^ k - 1)) = None)"
      using block_base_valid [of "m - 2 ^ k"] by (simp add: back_entry_ptr)
    obtain p1 h1 where new: "new_block_index env q p = Inr (q\<lparr>mallocs := mallocs q + 1\<rparr>, p1, malloc_ok env (mallocs q))"
      "if malloc_ok env (mallocs q)
       then blockIndex p1 = h1 # h # hs \<and> ring_ok p1 h1 (Suc k) m bs \<and>
            entry_key (back_entry p1 h1 (2 ^ Suc k - 1)) = INVALID_BLOCK_BASE
       else p1 = p"
      using new_block_index_spec [OF Cons ok full k, of env q] by blast
    show ?thesis
    proof (cases "mode = CanAlloc \<and> malloc_ok env (mallocs q)")
      case True
      then have p1: "blockIndex p1 = h1 # h # hs" "ring_ok p1 h1 (Suc k) m bs"
        "entry_key (back_entry p1 h1 (2 ^ Suc k - 1)) = INVALID_BLOCK_BASE" using new(2) by simp_all
      have shape1: "ring_shape p1 h1 (Suc k)" using p1(2) by (simp add: ring_ok_shape)
      have "header_entry p1 h1 (next_tail h1) = Inr (back_ptr h1 (2 ^ Suc k - 1))"
        using unat_next_tail(2) [OF shape1] by (intro header_entry_back [OF shape1]) simp_all
      then have "insert_block_index_entry env mode (of_nat (32 * m)) q p =
        Inr (q\<lparr>mallocs := mallocs q + 1\<rparr>, publish_entry p1 (back_ptr h1 (2 ^ Suc k - 1)) (of_nat (32 * m)) (next_tail h1),
             Some (back_ptr h1 (2 ^ Suc k - 1)))"
        using Cons entry busy new True p1 by (auto simp: insert_block_index_entry_def back_entry_ptr)
      moreover have "length bs < 2 ^ Suc k" using full by simp
      ultimately show ?thesis using publish_ring [OF p1(1,2)] by simp
    next
      case False
      then show ?thesis
        using Cons entry busy new assms(1) by (cases mode) (auto simp: insert_block_index_entry_def)
    qed
  qed
qed

subsection \<open>Lookup and release\<close>

lemma and_not_31: "i AND NOT 31 = i - (i AND 31 :: u64)"
proof -
  have "i = (i AND 31) + (i AND NOT 31)"
    by (subst disjunctive_add) (auto simp: bit_simps intro!: bit_word_eqI)
  then show ?thesis by (metis add_diff_cancel_left')
qed

lemma block_base_of_nat: "(of_nat i AND NOT 31 :: u64) = of_nat (32 * (i div 32))"
proof -
  have "(of_nat i AND 31 :: u64) = of_nat (i mod 32)"
    unfolding word_unat_eq_iff and_31_eq_mod unat_of_nat_mod_32
    by (rule unat_of_nat_small [symmetric]) (simp add: less_trans [of _ 32])
  then have "(of_nat i AND NOT 31 :: u64) = of_nat i - of_nat (i mod 32)" by (simp only: and_not_31)
  also have "\<dots> = of_nat (i - i mod 32)" by (simp add: of_nat_diff)
  also have "i - i mod 32 = 32 * (i div 32)" by (simp add: minus_mod_eq_mult_div)
  finally show ?thesis .
qed

text \<open>
  The offset of a base \<open>j\<close> blocks before the tail: the unsigned quotient is \<open>2 ^ 59 - j\<close> and not
  \<open>- j\<close>, but the difference is a multiple of every capacity up to \<open>2 ^ 59\<close>.
\<close>

lemma ring_offset:
  fixes t :: u64
  assumes "j \<le> n" "j < 2 ^ k" "k \<le> 59" "unat t < 2 ^ k"
  shows "unat ((t + (of_nat (32 * (n - j)) - of_nat (32 * n)) div 32) AND (2 ^ k - 1))
      = (unat t + (2 ^ k - j)) mod 2 ^ k"
proof (cases "j = 0")
  case True
  then show ?thesis using assms(4) by (simp add: and_pow2_minus_one)
next
  case False
  let ?d = "of_nat (32 * (n - j)) - of_nat (32 * n) :: u64"
  have j: "j < 2 ^ 59" using assms(2) pow2_le_59 [OF assms(3)] by simp
  have "unat ?d = 2 ^ LENGTH(64) - (32 * n - 32 * (n - j))"
    using False assms(1) j by (intro unat_of_nat_diff_neg) auto
  then have d: "unat ?d = 2 ^ 64 - 32 * j" using assms(1) by (simp add: diff_mult_distrib2)
  then have q: "unat (?d div 32) = 2 ^ 59 - j" by (simp add: unat_div)
  have "unat t + unat (?d div 32) < 2 ^ LENGTH(64)"
    unfolding q using assms(4) pow2_le_59 [OF assms(3)] by simp
  then have "unat (t + ?d div 32) = unat t + unat (?d div 32)" by (rule unat_add_lem [THEN iffD1])
  then have "unat (t + ?d div 32) = unat t + (2 ^ 59 - j)" by (simp only: q)
  moreover have "(unat t + (2 ^ 59 - j)) mod 2 ^ k = (unat t + (2 ^ k - j)) mod 2 ^ k"
  proof -
    have "(2::nat) ^ 59 = 2 ^ k * 2 ^ (59 - k)" using assms(3) by (simp flip: power_add)
    then have "(2::nat) ^ 59 - j = (2 ^ k - j) + 2 ^ k * (2 ^ (59 - k) - 1)"
      using assms(2) j pow2_le_59 [OF assms(3)] by (simp add: diff_mult_distrib2)
    then have "unat t + (2 ^ 59 - j) = (unat t + (2 ^ k - j)) + 2 ^ k * (2 ^ (59 - k) - 1)"
      by simp
    then show ?thesis by (simp only: mod_mult_self2)
  qed
  ultimately show ?thesis by (simp only: and_pow2_minus_one)
qed

lemma lookup_ring:
  assumes "blockIndex p = h # hs" "ring_ok p h k m bs" "i div 32 < m" "m - 1 - i div 32 < length bs"
  defines "j \<equiv> m - 1 - i div 32"
  shows "\<exists>idx. get_block_index_index_for_index p (of_nat i) = Inr (h, idx) \<and> unat idx = back_pos h j"
    and "get_block_index_entry_for_index p (of_nat i) = Inr (back_ptr h j)"
proof -
  have shape: "ring_shape p h k" and h: "k \<le> 59" "capacity h = 2 ^ k" "length (index h) = 2 ^ k" "unat (tail h) < 2 ^ k"
    using assms(2) by (auto simp: ring_ok_def ring_shape_def)
  have j: "j < 2 ^ k" "j < length bs" and len: "0 < length bs" using assms(2,4) by (auto simp: ring_ok_def j_def)
  have tail: "back_pos h 0 = unat (tail h)" using h by (simp add: back_pos_def)
  then have entry: "header_entry p h (tail h) = Inr (back_ptr h 0)"
    by (intro header_entry_back [OF shape]) simp_all
  have key0: "entry_key (entry_heap p ! back_ptr h 0) = of_nat (32 * (m - 1))"
    using assms(2) len by (simp add: ring_ok_def back_entry_ptr)
  have "m - 1 - j = i div 32" using assms(3) by (simp add: j_def)
  then have "(of_nat i AND NOT 31 :: u64) = of_nat (32 * (m - 1 - j))" by (simp only: block_base_of_nat)
  moreover have "NOT 31 = (- 32 :: u64)" by simp
  ultimately have base: "(of_nat i AND - 32 :: u64) = of_nat (32 * (m - 1 - j))" by (simp only:)
  let ?idx = "(tail h + (of_nat (32 * (m - 1 - j)) - of_nat (32 * (m - 1))) div 32) AND (capacity h - 1)"
  have idx: "unat ?idx = back_pos h j"
    unfolding h(2) back_pos_def h(3) using h j(1) assms(3) by (intro ring_offset) (simp_all add: j_def)
  have entry': "header_entry p h ?idx = Inr (back_ptr h j)"
    by (rule header_entry_back [OF shape j(1) idx])
  have "entry_heap p ! back_ptr h j =
      \<lparr>entry_key = of_nat (32 * (m - 1 - j)), entry_value = Some (bs ! (length bs - 1 - j))\<rparr>"
    using assms(2) j(2) unfolding ring_ok_def back_entry_ptr by blast
  then have look: "get_block_index_index_for_index p (of_nat i) = Inr (h, ?idx)"
    unfolding get_block_index_index_for_index_def Let_def assms(1)
    using entry entry' key0 block_base_valid [of "m - 1"] by (simp add: base)
  then show "\<exists>idx. get_block_index_index_for_index p (of_nat i) = Inr (h, idx) \<and> unat idx = back_pos h j"
    using idx by blast
  show "get_block_index_entry_for_index p (of_nat i) = Inr (back_ptr h j)"
    unfolding get_block_index_entry_for_index_def look using entry' by simp
qed

lemma release_ring:
  assumes "ring_ok p h k m (b # bs)"
  shows "ring_ok (store_value p (back_ptr h (length bs)) None) h k m bs"
proof -
  let ?e = "back_ptr h (length bs)"
  let ?p = "store_value p ?e None"
  have shape: "ring_shape p h k" and len: "length bs < 2 ^ k" using assms by (auto simp: ring_ok_shape)
  have e: "?e < length (entry_heap p)" using ring_shape_ptr(2) [OF shape len] .
  have same: "back_entry ?p h j = back_entry p h j" if "j < 2 ^ k" "j \<noteq> length bs" for j
    using ring_shape_inject [OF shape that(1) len] that e by (simp add: back_entry_ptr nth_store)
  have "entry_free (back_entry ?p h j)" if "length bs \<le> j" "j < 2 ^ k" for j
  proof (cases "j = length bs")
    case True
    then show ?thesis using e by (simp add: back_entry_ptr nth_store entry_free_def)
  next
    case False
    then show ?thesis using same [of j] that assms by (simp add: ring_ok_def)
  qed
  moreover have "back_entry ?p h j =
      \<lparr>entry_key = of_nat (32 * (m - 1 - j)), entry_value = Some (bs ! (length bs - 1 - j))\<rparr>"
    if "j < length bs" for j
    using same [of j] that len assms by (simp add: ring_ok_def nth_Cons')
  ultimately show ?thesis using shape assms by (simp add: ring_ok_shape)
qed

end
