(* ===== verification/CQ_Implicit.thy ===== *)
theory CQ_Implicit
  imports CQ_BlockIndex
begin

text \<open>
  The implicit producer (\<^verbatim>\<open>struct ImplicitProducer\<close> of
  \<^verbatim>\<open>src/utils/concurrentqueue-1.0.3/concurrentqueue.h\<close>): the sub-queue of one thread that enqueues
  without a token, which is how the volume server uses its move queue. Elements live in blocks of 32 slots; \<^verbatim>\<open>tailIndex\<close>
  and \<^verbatim>\<open>headIndex\<close> count the elements enqueued and dequeued, modulo \<open>2 ^ 64\<close>, and the block index
  finds the block of an index.

  Copying an element may throw (the element type of the move queue is \<^verbatim>\<open>std::string\<close>), which is the
  argument \<open>ctor_ok\<close> of an enqueue; moving one does not, so the exception paths of the dequeue
  functions are not instantiated. The operations run to completion one after the other.

  The invariant \<open>ip_ok\<close> relates a producer to the list of the elements it holds. The lemmas show that
  enqueuing appends to that list, or leaves it as it is when the memory is exhausted or the constructor throws,
  and that dequeuing takes its first element, for ever: the indices may wrap around.
\<close>

record ImplicitProducer =
  tailIndex :: u64
  headIndex :: u64
  dequeueOptimisticCount :: u64
  dequeueOvercommit :: u64
  tailBlock :: "nat option"
  index_state :: BlockIndex

datatype enqueue_result = Enqueued | Not_Enqueued | Constructor_Threw

section \<open>Operations\<close>

definition ImplicitProducer_init ::
  "alloc_env \<Rightarrow> 'a BlockPool \<Rightarrow> fault + 'a BlockPool \<times> ImplicitProducer" where
  "ImplicitProducer_init env q =
     and_then (new_block_index env q BlockIndex_empty) (\<lambda>(q, p, _).
       Inr (q, \<lparr>tailIndex = 0, headIndex = 0, dequeueOptimisticCount = 0, dequeueOvercommit = 0,
                tailBlock = None, index_state = p\<rparr>))"

text \<open>The test for a full sub-queue when a new block is due at \<open>currentTailIndex\<close>.\<close>

definition subqueue_full :: "u64 \<Rightarrow> u64 \<Rightarrow> bool" where
  "subqueue_full head currentTailIndex \<longleftrightarrow>
     \<not> circular_less_than head (currentTailIndex + BLOCK_SIZE) \<or>
     (MAX_SUBQUEUE_SIZE \<noteq> - 1 \<and>
      (MAX_SUBQUEUE_SIZE = 0 \<or> MAX_SUBQUEUE_SIZE - BLOCK_SIZE < currentTailIndex - head))"

text \<open>Undoing the insertion of an entry into the block index.\<close>

definition revert_entry :: "ImplicitProducer \<Rightarrow> nat \<Rightarrow> fault + ImplicitProducer" where
  "revert_entry p idxEntry =
     and_then (rewind_block_index_tail (index_state p)) (\<lambda>ix.
       Inr (p\<lparr>index_state := store_value ix idxEntry None\<rparr>))"

text \<open>The element is constructed before the new block is published.\<close>

definition IP_enqueue_new_block ::
  "alloc_env \<Rightarrow> AllocationMode \<Rightarrow> bool \<Rightarrow> 'a \<Rightarrow> 'a BlockPool \<Rightarrow> ImplicitProducer \<Rightarrow>
     fault + 'a BlockPool \<times> ImplicitProducer \<times> enqueue_result" where
  "IP_enqueue_new_block env allocMode ctor_ok element q p =
     (let currentTailIndex = tailIndex p;
          newTailIndex = 1 + currentTailIndex;
          head = headIndex p
      in if circular_less_than currentTailIndex head then Inl Assertion_Failed
         else if subqueue_full head currentTailIndex then Inr (q, p, Not_Enqueued)
         else and_then (insert_block_index_entry env allocMode currentTailIndex q (index_state p)) (\<lambda>(q, ix, entry).
           let p = p\<lparr>index_state := ix\<rparr>
           in case entry of
                None \<Rightarrow> Inr (q, p, Not_Enqueued)
              | Some idxEntry \<Rightarrow>
                  and_then (requisition_block env allocMode q) (\<lambda>(q, newBlock).
                    case newBlock of
                      None \<Rightarrow> and_then (revert_entry p idxEntry) (\<lambda>p. Inr (q, p, Not_Enqueued))
                    | Some b \<Rightarrow>
                        and_then (deref q newBlock) (\<lambda>blk.
                          let blk = reset_empty implicit_context blk;
                              q = put_block q b blk
                          in if ctor_ok then
                               Inr (put_block q b (block_construct blk currentTailIndex element),
                                    p\<lparr>index_state := store_value (index_state p) idxEntry newBlock,
                                      tailBlock := newBlock, tailIndex := newTailIndex\<rparr>, Enqueued)
                             else
                               and_then (revert_entry p idxEntry) (\<lambda>p.
                               and_then (add_block_to_free_list q b) (\<lambda>q.
                                 Inr (q, p, Constructor_Threw)))))))"

definition IP_enqueue ::
  "alloc_env \<Rightarrow> AllocationMode \<Rightarrow> bool \<Rightarrow> 'a \<Rightarrow> 'a BlockPool \<Rightarrow> ImplicitProducer \<Rightarrow>
     fault + 'a BlockPool \<times> ImplicitProducer \<times> enqueue_result" where
  "IP_enqueue env allocMode ctor_ok element q p =
     (let currentTailIndex = tailIndex p;
          newTailIndex = 1 + currentTailIndex
      in if currentTailIndex AND (BLOCK_SIZE - 1) = 0
         then IP_enqueue_new_block env allocMode ctor_ok element q p
         else case tailBlock p of
             None \<Rightarrow> Inl Undefined_Behaviour
           | Some b \<Rightarrow>
               and_then (deref q (Some b)) (\<lambda>blk.
                 if ctor_ok then
                   Inr (put_block q b (block_construct blk currentTailIndex element),
                        p\<lparr>tailIndex := newTailIndex\<rparr>, Enqueued)
                 else Inr (q, p, Constructor_Threw)))"

text \<open>A block all of whose elements have been dequeued goes back to the pool.\<close>

definition release_if_empty ::
  "'a BlockPool \<Rightarrow> ImplicitProducer \<Rightarrow> nat \<Rightarrow> nat \<Rightarrow> bool \<Rightarrow> fault + 'a BlockPool \<times> ImplicitProducer" where
  "release_if_empty q p entry block now_empty =
     (if now_empty then
        let p = p\<lparr>index_state := store_value (index_state p) entry None\<rparr>
        in and_then (add_block_to_free_list q block) (\<lambda>q. Inr (q, p))
      else Inr (q, p))"

definition IP_dequeue ::
  "'a BlockPool \<Rightarrow> ImplicitProducer \<Rightarrow> fault + 'a BlockPool \<times> ImplicitProducer \<times> 'a option" where
  "IP_dequeue q p =
     (let tail = tailIndex p;
          overcommit = dequeueOvercommit p
      in if circular_less_than (dequeueOptimisticCount p - overcommit) tail then
           let myDequeueCount = dequeueOptimisticCount p;
               p = p\<lparr>dequeueOptimisticCount := dequeueOptimisticCount p + 1\<rparr>;
               tail = tailIndex p
           in if circular_less_than (myDequeueCount - overcommit) tail then
                let idx = headIndex p;
                    p = p\<lparr>headIndex := headIndex p + 1\<rparr>
                in and_then (get_block_index_entry_for_index (index_state p) idx) (\<lambda>entry.
                   case entry_value (entry_heap (index_state p) ! entry) of
                     None \<Rightarrow> Inl Undefined_Behaviour
                   | Some block \<Rightarrow>
                       and_then (deref q (Some block)) (\<lambda>blk.
                       and_then (block_get blk idx) (\<lambda>el.
                       and_then (set_empty implicit_context idx (block_destroy blk idx)) (\<lambda>(blk, now_empty).
                       and_then (release_if_empty (put_block q block blk) p entry block now_empty) (\<lambda>(q, p).
                         Inr (q, p, Some el))))))
              else Inr (q, p\<lparr>dequeueOvercommit := dequeueOvercommit p + 1\<rparr>, None)
         else Inr (q, p, None))"

definition IP_size_approx :: "ImplicitProducer \<Rightarrow> u64" where
  "IP_size_approx p =
     (let tail = tailIndex p; head = headIndex p
      in if circular_less_than head tail then tail - head else 0)"

section \<open>The invariant\<close>

text \<open>The number of blocks that the indices below \<open>t\<close> need.\<close>

definition nblk :: "nat \<Rightarrow> nat" where
  "nblk t = (t + 31) div 32"

text \<open>The elements \<open>xs\<close> are in the blocks \<open>bs\<close> from index \<open>h\<close> on.\<close>

definition holds :: "'a BlockPool \<Rightarrow> nat list \<Rightarrow> nat \<Rightarrow> 'a list \<Rightarrow> bool" where
  "holds q bs h xs \<longleftrightarrow>
     (\<forall>i < length xs. elements (blocks q ! (bs ! ((h + i) div 32 - h div 32))) ! ((h + i) mod 32) = Some (xs ! i))"

text \<open>Only the first block has elements that are dequeued, \<open>c\<close> of them.\<close>

definition counters :: "'a BlockPool \<Rightarrow> nat list \<Rightarrow> nat \<Rightarrow> bool" where
  "counters q bs c \<longleftrightarrow>
     (\<forall>j < length bs. elementsCompletelyDequeued (blocks q ! (bs ! j)) = of_nat (if j = 0 then c else 0))"

text \<open>
  \<open>h\<close> and \<open>t\<close> are the numbers of elements dequeued and enqueued so far, of which the indices are the
  remainders; \<open>bs\<close> are the blocks of the producer, oldest first, and \<open>others\<close> the blocks that other
  producers of the queue use.
\<close>

definition ip_ok ::
  "'a BlockPool \<Rightarrow> ImplicitProducer \<Rightarrow> nat set \<Rightarrow> nat \<Rightarrow> nat \<Rightarrow> nat list \<Rightarrow> 'a list \<Rightarrow> bool" where
  "ip_ok q p others h t bs xs \<longleftrightarrow>
     tailIndex p = of_nat t \<and> headIndex p = of_nat h \<and>
     dequeueOptimisticCount p - dequeueOvercommit p = of_nat h \<and>
     h \<le> t \<and> length xs = t - h \<and> 32 * nblk t < h + 2 ^ 63 \<and>
     length bs = nblk t - h div 32 \<and> distinct bs \<and> set bs \<inter> others = {} \<and>
     (bs \<noteq> [] \<longrightarrow> tailBlock p = Some (last bs)) \<and>
     counters q bs (h mod 32) \<and> holds q bs h xs \<and>
     ring_inv (index_state p) (nblk t) bs \<and>
     (\<exists>fl. pool_inv q fl (set bs \<union> others))"

lemma nblk_linear: "r < 32 \<Longrightarrow> nblk (32 * a + r) = (if r = 0 then a else Suc a)"
  by (auto simp: nblk_def intro!: div_nat_eqI)

lemma nblk_mod0:
  assumes "t mod 32 = 0"
  shows "nblk t = t div 32" "32 * nblk t = t" "nblk (Suc t) = Suc (nblk t)"
proof -
  obtain a where t: "t = 32 * a" using assms by (meson mod_eq_0_iff_dvd dvdE)
  show "nblk t = t div 32" "32 * nblk t = t" "nblk (Suc t) = Suc (nblk t)"
    using nblk_linear [of 0 a] nblk_linear [of 1 a] by (simp_all add: t)
qed

lemma nblk_modn:
  assumes "t mod 32 \<noteq> 0"
  shows "nblk t = Suc (t div 32)" "nblk (Suc t) = nblk t"
proof -
  have t: "t = 32 * (t div 32) + t mod 32" "t mod 32 < 32" by simp_all
  show eq: "nblk t = Suc (t div 32)" using nblk_linear [OF t(2), of "t div 32"] assms by simp
  show "nblk (Suc t) = nblk t"
  proof (cases "Suc (t mod 32) < 32")
    case True
    then show ?thesis using nblk_linear [OF True, of "t div 32"] eq by simp
  next
    case False
    then have "t mod 32 = 31" using t(2) by simp
    then have "Suc t = 32 * Suc (t div 32) + 0" using t(1) by simp
    then show ?thesis using nblk_linear [of 0 "Suc (t div 32)"] eq by (simp only:) simp
  qed
qed

lemma nblk_bounds: "t \<le> 32 * nblk t" "32 * nblk t < t + 32"
  using div_mult_mod_eq [of "t + 31" 32] mod_less_divisor [of 32 "t + 31"] unfolding nblk_def by linarith+

lemma div_less_nblk:
  assumes "i < t"
  shows "i div 32 < nblk t"
proof -
  have "i < nblk t * 32" using assms nblk_bounds(1) [of t] by simp
  then show ?thesis by (rule less_mult_imp_div_less)
qed

lemma div_le_nblk:
  assumes "i \<le> t"
  shows "i div 32 \<le> nblk t"
  unfolding nblk_def using assms by (intro div_le_mono) simp

lemma of_nat_and_31: "(of_nat t AND 31 :: u64) = 0 \<longleftrightarrow> t mod 32 = 0"
  using and_31_eq_mod [of "of_nat t"] by (simp add: word_unat_eq_iff unat_of_nat_mod_32 del: and_31_eq_mod)

lemma circular_less_than_nat:
  assumes "a \<le> b" "b - a \<le> 2 ^ 64"
  shows "circular_less_than (of_nat a :: u64) (of_nat b) \<longleftrightarrow> a < b \<and> b < a + 2 ^ 63"
proof (cases "b < a + 2 ^ 63")
  case True
  then show ?thesis using assms(1) by (subst circular_less_than_of_nat) auto
next
  case False
  then have "a < b" by simp
  then have "unat (of_nat a - of_nat b :: u64) = 2 ^ 64 - (b - a)"
    using unat_of_nat_diff_neg [of a b, where 'a = 64] assms by simp
  then show ?thesis using False
    by (simp add: circular_less_than_def word_less_nat_alt unat_half_range [where 'a = 64, simplified])
qed

lemma ip_ok_bounds:
  assumes "ip_ok q p others h t bs xs"
  shows "t < h + 2 ^ 63" "h div 32 \<le> nblk t" "length bs < 2 ^ 59"
proof -
  have b: "h \<le> t" "32 * nblk t < h + 2 ^ 63" "length bs = nblk t - h div 32"
    using assms by (simp_all add: ip_ok_def)
  then show "t < h + 2 ^ 63" using nblk_bounds(1) [of t] by simp
  show "h div 32 \<le> nblk t" using b(1) by (rule div_le_nblk)
  have "32 * nblk t < 32 * (h div 32) + 32 + 2 ^ 63"
    using b(2) div_mult_mod_eq [of h 32] mod_less_divisor [of 32 h] by linarith
  then have "nblk t - h div 32 \<le> 2 ^ 58" by simp
  then have "nblk t - h div 32 < 2 ^ 59" by simp
  then show "length bs < 2 ^ 59" using b(3) by simp
qed

lemma ip_ok_block:
  assumes "ip_ok q p others h t bs xs" "i < length xs"
  shows "(h + i) div 32 - h div 32 < length bs"
proof -
  have "h + i < t" "length bs = nblk t - h div 32" using assms by (auto simp: ip_ok_def)
  then show ?thesis using div_less_nblk [of "h + i" t] div_le_mono [of h "h + i" 32] by linarith
qed

lemma ip_ok_used:
  assumes "ip_ok q p others h t bs xs" "j < length bs"
  shows "bs ! j < length (blocks q)" "freeListRefs (blocks q ! (bs ! j)) = 0" "block_shape (blocks q ! (bs ! j))"
proof -
  obtain fl where inv: "pool_inv q fl (set bs \<union> others)" using assms(1) by (auto simp: ip_ok_def)
  have "bs ! j \<in> set bs \<union> others" using assms(2) by simp
  then show "bs ! j < length (blocks q)" "freeListRefs (blocks q ! (bs ! j)) = 0" "block_shape (blocks q ! (bs ! j))"
    using pool_invD(4,8) [OF inv] by (auto simp: list_all_length)
qed

section \<open>The constructor and the size\<close>

lemma ImplicitProducer_init_ok:
  assumes "pool_inv q fl others"
  shows "\<exists>p. ImplicitProducer_init env q = Inr (q\<lparr>mallocs := mallocs q + 1\<rparr>, p) \<and>
           ip_ok (q\<lparr>mallocs := mallocs q + 1\<rparr>) p others 0 0 [] []"
proof -
  obtain ix where "new_block_index env q BlockIndex_empty = Inr (q\<lparr>mallocs := mallocs q + 1\<rparr>, ix, malloc_ok env (mallocs q))"
    "ring_inv ix 0 []"
    using new_block_index_first [of env q] by blast
  then show ?thesis using pool_inv_malloc [OF assms]
    by (auto simp: ImplicitProducer_init_def ip_ok_def nblk_def counters_def holds_def)
qed

lemma IP_size_approx_exact:
  assumes "ip_ok q p others h t bs xs"
  shows "unat (IP_size_approx p) = length xs"
proof -
  have p: "tailIndex p = of_nat t" "headIndex p = of_nat h" "h \<le> t" "length xs = t - h"
    using assms by (simp_all add: ip_ok_def)
  have "t < h + 2 ^ 63" by (rule ip_ok_bounds [OF assms])
  then show ?thesis
    using p circular_less_than_nat [of h t] unat_of_nat_diff [of h t, where 'a = 64]
    by (auto simp: IP_size_approx_def Let_def)
qed

section \<open>Enqueuing\<close>

lemma holds_cong:
  assumes "\<And>x. x \<in> set bs \<Longrightarrow> blocks q' ! x = blocks q ! x"
    "\<And>i. i < length xs \<Longrightarrow> (h + i) div 32 - h div 32 < length bs" "holds q bs h xs"
  shows "holds q' (bs @ cs) h xs"
  using assms by (simp add: holds_def nth_append)

lemma counters_cong:
  assumes "\<And>x. x \<in> set bs \<Longrightarrow> blocks q' ! x = blocks q ! x" "counters q bs c"
  shows "counters q' bs c"
  using assms by (simp add: counters_def)

lemma div_diff_le: "h + i \<le> t \<Longrightarrow> (h + i) div 32 - h div 32 \<le> t div 32 - h div (32::nat)"
  by (intro diff_le_mono div_le_mono)

lemma div_mod_unique: "(a::nat) div 32 = b div 32 \<Longrightarrow> a mod 32 = b mod 32 \<Longrightarrow> a = b"
  by (metis div_mult_mod_eq)

lemma holds_snoc:
  assumes "holds q bs h xs" "distinct bs" "t = h + length xs"
    "\<And>i. i \<le> length xs \<Longrightarrow> (h + i) div 32 - h div 32 < length bs"
    "b = bs ! (t div 32 - h div 32)" "b < length (blocks q)" "block_shape (blocks q ! b)"
    "elements blk = (elements (blocks q ! b))[t mod 32 := Some x]"
  shows "holds (put_block q b blk) bs h (xs @ [x])"
  unfolding holds_def
proof (intro allI impI)
  fix i
  assume i: "i < length (xs @ [x])"
  let ?j = "(h + i) div 32 - h div 32"
  have j: "?j < length bs" and jt: "t div 32 - h div 32 < length bs"
    using assms(4) [of i] assms(4) [of "length xs"] i assms(3) by simp_all
  have same: "bs ! ?j = b \<longleftrightarrow> (h + i) div 32 = t div 32"
  proof -
    have "bs ! ?j = b \<longleftrightarrow> ?j = t div 32 - h div 32"
      using assms(2,5) j jt by (simp add: nth_eq_iff_index_eq)
    also have "\<dots> \<longleftrightarrow> (h + i) div 32 = t div 32"
      using div_le_mono [of h "h + i" 32] div_le_mono [of h t 32] assms(3) by linarith
    finally show ?thesis .
  qed
  have len: "length (elements (blocks q ! b)) = 32" using assms(7) by (simp add: block_shape_def)
  show "elements (blocks (put_block q b blk) ! (bs ! ?j)) ! ((h + i) mod 32) = Some ((xs @ [x]) ! i)"
  proof (cases "i = length xs")
    case True
    then show ?thesis using assms(3,5,6,8) len by simp
  next
    case False
    then have "i < length xs" using i by simp
    moreover have "(h + i) mod 32 \<noteq> t mod 32" if "(h + i) div 32 = t div 32"
      using div_mod_unique [OF that] assms(3) False by auto
    ultimately show ?thesis
      using assms(1,6,8) same by (auto simp: holds_def nth_append nth_list_update)
  qed
qed

lemma counters_put:
  assumes "counters q bs c" "b < length (blocks q)"
    "elementsCompletelyDequeued blk = elementsCompletelyDequeued (blocks q ! b)"
  shows "counters (put_block q b blk) bs c"
  using assms by (auto simp: counters_def nth_list_update)

lemma enqueue_in_block:
  assumes ok: "ip_ok q p others h t bs xs" and t: "t mod 32 \<noteq> 0"
  shows "\<exists>b. tailBlock p = Some b \<and> b < length (blocks q) \<and> b \<notin> others \<and>
     ip_ok (put_block q b (block_construct (blocks q ! b) (of_nat t) x)) (p\<lparr>tailIndex := of_nat (Suc t)\<rparr>)
       others h (Suc t) bs (xs @ [x])"
proof -
  have I: "h \<le> t" "length xs = t - h" "length bs = nblk t - h div 32" "distinct bs" "set bs \<inter> others = {}"
    "bs \<noteq> [] \<longrightarrow> tailBlock p = Some (last bs)" "counters q bs (h mod 32)" "holds q bs h xs"
    using ok t by (simp_all add: ip_ok_def)
  obtain fl where inv: "pool_inv q fl (set bs \<union> others)" using ok by (auto simp: ip_ok_def)
  have pos: "length bs = Suc (t div 32 - h div 32)"
    using I(3) nblk_modn(1) [OF t] div_le_mono [OF I(1), of 32] by (simp add: Suc_diff_le)
  then have last: "last bs = bs ! (t div 32 - h div 32)" by (simp add: last_conv_nth flip: length_0_conv)
  let ?b = "last bs"
  let ?blk = "block_construct (blocks q ! ?b) (of_nat t) x"
  have b: "?b < length (blocks q)" "freeListRefs (blocks q ! ?b) = 0" "block_shape (blocks q ! ?b)"
    using ip_ok_used [OF ok, of "t div 32 - h div 32"] pos last by simp_all
  have "?b \<in> set bs" using pos by (intro last_in_set) auto
  then have out: "?b \<notin> others" "?b \<in> set bs \<union> others" using I(5) by auto
  have el: "elements ?blk = (elements (blocks q ! ?b))[t mod 32 := Some x]"
    by (simp add: block_construct_def unat_of_nat_mod_32)
  have idx: "(h + i) div 32 - h div 32 < length bs" if "i \<le> length xs" for i
    using that pos div_diff_le [of h i t] I(1,2) by (simp add: le_imp_less_Suc)
  have "holds (put_block q ?b ?blk) bs h (xs @ [x])"
    using holds_snoc [OF I(8,4) _ idx last b(1,3) el] I(1,2) by simp
  moreover have "counters (put_block q ?b ?blk) bs (h mod 32)"
    using I(7) b(1) by (rule counters_put) (simp add: block_construct_def)
  moreover have "pool_inv (put_block q ?b ?blk) fl (set bs \<union> others)"
    using inv out(2) b(2,3) by (intro pool_inv_put_block) (simp_all add: block_construct_def block_shape_def)
  ultimately have "ip_ok (put_block q ?b ?blk) (p\<lparr>tailIndex := of_nat (Suc t)\<rparr>) others h (Suc t) bs (xs @ [x])"
    using ok I nblk_modn(2) [OF t] by (auto simp: ip_ok_def Suc_diff_le)
  moreover have "bs \<noteq> []" using pos by auto
  ultimately show ?thesis using I(6) b(1) out(1) by blast
qed

lemma subqueue_full_iff:
  assumes "h \<le> t" "t < h + 2 ^ 63"
  shows "\<not> circular_less_than (of_nat t :: u64) (of_nat h)"
    and "subqueue_full (of_nat h) (of_nat t) \<longleftrightarrow> h + 2 ^ 63 \<le> t + 32"
proof -
  show "\<not> circular_less_than (of_nat t :: u64) (of_nat h)"
    using assms by (subst circular_less_than_of_nat) auto
  have "(of_nat t + 32 :: u64) = of_nat (t + 32)" by simp
  moreover have "circular_less_than (of_nat h :: u64) (of_nat (t + 32)) \<longleftrightarrow> h < t + 32 \<and> t + 32 < h + 2 ^ 63"
    using assms by (intro circular_less_than_nat) simp_all
  ultimately show "subqueue_full (of_nat h) (of_nat t) \<longleftrightarrow> h + 2 ^ 63 \<le> t + 32"
    using assms(1) by (auto simp: subqueue_full_def MAX_SUBQUEUE_SIZE_def)
qed

lemma not_full_bound:
  assumes "ip_ok q p others h t bs xs" "t mod 32 = 0"
  shows "\<not> circular_less_than (of_nat t :: u64) (of_nat h)"
    and "subqueue_full (of_nat h) (of_nat t) \<longleftrightarrow> h + 2 ^ 63 \<le> t + 32"
  using subqueue_full_iff [of h t] ip_ok_bounds(1) [OF assms(1)] assms(1) by (simp_all add: ip_ok_def)

text \<open>A fresh block takes the element of index \<open>t\<close>, the first of its block.\<close>

lemma append_block:
  assumes ok: "ip_ok q p others h t bs xs" and t: "t mod 32 = 0" and room: "t + 32 < h + 2 ^ 63"
    and b: "b \<notin> set bs \<union> others" "\<And>y. y \<in> set bs \<union> others \<Longrightarrow> blocks q' ! y = blocks q ! y"
    and inv: "pool_inv q' fl (insert b (set bs \<union> others))"
    and ring: "ring_inv ix (Suc (nblk t)) (bs @ [b])"
  defines "blk \<equiv> reset_empty implicit_context (blocks q' ! b)"
  shows "ip_ok (put_block q' b (block_construct blk (of_nat t) x))
     (p\<lparr>index_state := ix, tailBlock := Some b, tailIndex := of_nat (Suc t)\<rparr>) others h (Suc t) (bs @ [b]) (xs @ [x])"
proof -
  have I: "h \<le> t" "length xs = t - h" "length bs = nblk t - h div 32" "distinct bs" "set bs \<inter> others = {}"
    "counters q bs (h mod 32)" "holds q bs h xs"
    using ok by (simp_all add: ip_ok_def)
  let ?blk = "block_construct blk (of_nat t) x"
  let ?q = "put_block q' b blk"
  have bl: "b < length (blocks q')" "freeListRefs (blocks q' ! b) = 0" "block_shape (blocks q' ! b)"
    using pool_invD(4,8) [OF inv] by (auto simp: list_all_length)
  have blk: "elements blk = elements (blocks q' ! b)" "elementsCompletelyDequeued blk = 0"
    "freeListRefs blk = 0" "block_shape blk"
    using bl by (simp_all add: blk_def reset_empty_def block_shape_def)
  have pos: "length bs = t div 32 - h div 32" using I(3) nblk_mod0(1) [OF t] by simp
  have same: "blocks ?q ! y = blocks q ! y" if "y \<in> set bs" for y
    using b(2) [of y] b(1) that by (cases "y = b") simp_all
  have hold: "holds ?q (bs @ [b]) h xs"
    using same ip_ok_block [OF ok] I(7) by (rule holds_cong)
  have idx: "(h + i) div 32 - h div 32 < length (bs @ [b])" if "i \<le> length xs" for i
    using that pos div_diff_le [of h i t] I(1,2) by (simp add: le_imp_less_Suc)
  have el: "elements ?blk = (elements (blocks ?q ! b))[t mod 32 := Some x]"
    using bl(1) by (simp add: block_construct_def unat_of_nat_mod_32)
  have bpos: "b = (bs @ [b]) ! (t div 32 - h div 32)" unfolding pos [symmetric] by simp
  have "holds (put_block ?q b ?blk) (bs @ [b]) h (xs @ [x])"
    using holds_snoc [OF hold _ _ idx bpos _ _ el] I b(1) bl(1) blk(4) by simp
  note hold = this
  have put: "put_block ?q b ?blk = put_block q' b ?blk" by (simp add: put_block_def)
  have "counters ?q bs (h mod 32)" using same I(6) by (rule counters_cong)
  moreover have "h mod 32 = 0" if "bs = []"
  proof -
    have "t div 32 \<le> h div 32" using that pos by simp
    then have "t \<le> h" using div_mult_mod_eq [of h 32] div_mult_mod_eq [of t 32] t by linarith
    then show ?thesis using I(1) t by simp
  qed
  ultimately have "counters ?q (bs @ [b]) (h mod 32)"
    using bl(1) blk(2) unfolding counters_def
    by (cases "bs = []") (auto simp: nth_append less_Suc_eq)
  then have "counters (put_block ?q b ?blk) (bs @ [b]) (h mod 32)"
    by (rule counters_put) (use bl(1) in \<open>simp_all add: block_construct_def\<close>)
  moreover have "pool_inv (put_block q' b ?blk) fl (insert b (set bs \<union> others))"
    using inv blk by (intro pool_inv_put_block) (simp_all add: block_construct_def block_shape_def)
  ultimately show ?thesis
    using ok I b(1) ring room nblk_mod0 [OF t] pos div_le_nblk [OF I(1)] hold put
    by (auto simp: ip_ok_def Suc_diff_le nblk_modn)
qed

definition enqueue_outcome ::
  "'a BlockPool \<Rightarrow> ImplicitProducer \<Rightarrow> nat set \<Rightarrow> nat \<Rightarrow> nat \<Rightarrow> nat list \<Rightarrow> 'a list \<Rightarrow> 'a \<Rightarrow> enqueue_result \<Rightarrow> bool" where
  "enqueue_outcome q p others h t bs xs x r \<longleftrightarrow>
     (if r = Enqueued then \<exists>bs'. ip_ok q p others h (Suc t) bs' (xs @ [x]) else ip_ok q p others h t bs xs)"

lemma ip_ok_mallocs: "ip_ok (q\<lparr>mallocs := k\<rparr>) p others h t bs xs = ip_ok q p others h t bs xs"
  by (auto simp: ip_ok_def holds_def counters_def pool_inv_def unissued_def)

lemma ip_ok_frame:
  assumes "ip_ok q p others h t bs xs" "\<And>y. y \<in> set bs \<Longrightarrow> blocks q' ! y = blocks q ! y"
    "pool_inv q' fl (set bs \<union> others)" "ring_inv ix (nblk t) bs"
  shows "ip_ok q' (p\<lparr>index_state := ix\<rparr>) others h t bs xs"
proof -
  have "holds q' (bs @ []) h xs"
    using assms(2) ip_ok_block [OF assms(1)] by (rule holds_cong) (use assms(1) in \<open>auto simp: ip_ok_def\<close>)
  moreover have "counters q' bs (h mod 32)"
    using assms(2) by (rule counters_cong) (use assms(1) in \<open>auto simp: ip_ok_def\<close>)
  ultimately show ?thesis using assms by (auto simp: ip_ok_def)
qed

lemma enqueue_new_block:
  assumes ok: "ip_ok q p others h t bs xs" and t: "t mod 32 = 0"
  shows "\<exists>q' p' r. IP_enqueue_new_block env mode ctor_ok x q p = Inr (q', p', r) \<and>
     enqueue_outcome q' p' others h t bs xs x r \<and> (\<forall>y \<in> others. blocks q' ! y = blocks q ! y) \<and>
     (r = Constructor_Threw \<longrightarrow> \<not> ctor_ok) \<and>
     (r = Not_Enqueued \<longrightarrow> h + 2 ^ 63 \<le> t + 32 \<or> blockIndex (index_state p) = [] \<or> mode = CannotAlloc \<or>
        \<not> malloc_ok env (mallocs q) \<or> \<not> malloc_ok env (Suc (mallocs q)))"
proof (cases "h + 2 ^ 63 \<le> t + 32")
  case True
  then have "IP_enqueue_new_block env mode ctor_ok x q p = Inr (q, p, Not_Enqueued)"
    using not_full_bound [OF ok t] ok by (simp add: IP_enqueue_new_block_def ip_ok_def)
  then show ?thesis using True ok by (simp add: enqueue_outcome_def)
next
  case False
  note words = not_full_bound [OF ok t]
  have tail: "tailIndex p = of_nat (32 * nblk t)" "headIndex p = of_nat h" "1 + tailIndex p = of_nat (Suc t)"
    and ring: "ring_inv (index_state p) (nblk t) bs"
    using ok nblk_mod0(2) [OF t] by (simp_all add: ip_ok_def)
  obtain fl where inv: "pool_inv q fl (set bs \<union> others)" using ok by (auto simp: ip_ok_def)
  obtain q1 ix e where ins: "insert_block_index_entry env mode (of_nat (32 * nblk t)) q (index_state p) = Inr (q1, ix, e)"
    "q1 = q \<or> q1 = q\<lparr>mallocs := mallocs q + 1\<rparr>"
    "case e of
        None \<Rightarrow> ring_inv ix (nblk t) bs \<and> (blockIndex (index_state p) = [] \<or> mode = CannotAlloc \<or> \<not> malloc_ok env (mallocs q))
      | Some e \<Rightarrow>
          (\<forall>b. ring_inv (store_value ix e (Some b)) (Suc (nblk t)) (bs @ [b])) \<and>
          (\<exists>ix'. rewind_block_index_tail ix = Inr ix' \<and> ring_inv (store_value ix' e None) (nblk t) bs)"
    using insert_block_index_entry_spec [OF ring ip_ok_bounds(3) [OF ok], of env mode q] by blast
  have q1: "blocks q1 = blocks q" "pool_inv q1 fl (set bs \<union> others)" "mallocs q1 = mallocs q \<or> mallocs q1 = Suc (mallocs q)"
    using ins(2) inv pool_inv_malloc [OF inv] by auto
  show ?thesis
  proof (cases e)
    case None
    then have "IP_enqueue_new_block env mode ctor_ok x q p = Inr (q1, p\<lparr>index_state := ix\<rparr>, Not_Enqueued)"
      using ins(1) False words nblk_mod0(2) [OF t] tail by (simp add: IP_enqueue_new_block_def Let_def)
    moreover have "ip_ok q1 (p\<lparr>index_state := ix\<rparr>) others h t bs xs"
      using ok _ q1(2) by (rule ip_ok_frame) (use None ins(3) q1(1) in auto)
    ultimately show ?thesis using None ins(3) q1(1) by (auto simp: enqueue_outcome_def)
  next
    case (Some idx)
    then obtain ix' where ix: "\<And>b. ring_inv (store_value ix idx (Some b)) (Suc (nblk t)) (bs @ [b])"
      "rewind_block_index_tail ix = Inr ix'" "ring_inv (store_value ix' idx None) (nblk t) bs"
      using ins(3) by auto
    obtain q2 r where req: "requisition_block env mode q1 = Inr (q2, r)"
      "case r of
        Some i \<Rightarrow> (\<exists>fl'. pool_inv q2 fl' (insert i (set bs \<union> others))) \<and> i \<notin> set bs \<union> others \<and>
          (\<forall>x \<in> set bs \<union> others. blocks q2 ! x = blocks q1 ! x)
      | None \<Rightarrow> pool_inv q2 fl (set bs \<union> others) \<and> blocks q2 = blocks q1 \<and>
          (mode = CannotAlloc \<or> \<not> malloc_ok env (mallocs q1))"
      using requisition_block_spec [OF q1(2), of env mode] by blast
    show ?thesis
    proof (cases r)
      case None
      then have "IP_enqueue_new_block env mode ctor_ok x q p =
          Inr (q2, p\<lparr>index_state := store_value ix' idx None\<rparr>, Not_Enqueued)"
        using ins(1) Some False words nblk_mod0(2) [OF t] tail req(1) ix(2)
        by (simp add: IP_enqueue_new_block_def Let_def revert_entry_def)
      moreover have "ip_ok q2 (p\<lparr>index_state := store_value ix' idx None\<rparr>) others h t bs xs"
        using ok _ _ ix(3) by (rule ip_ok_frame) (use None req(2) q1(1) in auto)
      ultimately show ?thesis using None req(2) q1 by (auto simp: enqueue_outcome_def)
    next
      case (Some b)
      then obtain fl' where new: "pool_inv q2 fl' (insert b (set bs \<union> others))" "b \<notin> set bs \<union> others"
        and same: "\<And>y. y \<in> set bs \<union> others \<Longrightarrow> blocks q2 ! y = blocks q ! y"
        using req(2) q1(1) by auto
      have b: "b < length (blocks q2)" using pool_invD(4) [OF new(1)] by auto
      let ?blk = "reset_empty implicit_context (blocks q2 ! b)"
      show ?thesis
      proof (cases ctor_ok)
        case True
        have "IP_enqueue_new_block env mode ctor_ok x q p =
            Inr (put_block q2 b (block_construct ?blk (of_nat t) x),
                 p\<lparr>index_state := store_value ix idx (Some b), tailBlock := Some b, tailIndex := of_nat (Suc t)\<rparr>, Enqueued)"
          using ins(1) \<open>e = Some idx\<close> Some False words nblk_mod0(2) [OF t] tail req(1) True b
          by (simp add: IP_enqueue_new_block_def Let_def put_block_def)
        moreover have "ip_ok (put_block q2 b (block_construct ?blk (of_nat t) x))
            (p\<lparr>index_state := store_value ix idx (Some b), tailBlock := Some b, tailIndex := of_nat (Suc t)\<rparr>)
            others h (Suc t) (bs @ [b]) (xs @ [x])"
          using ok t _ new(2) same new(1) ix(1) by (rule append_block) (use False in simp)
        moreover have "blocks (put_block q2 b B) ! y = blocks q ! y" if "y \<in> others" for y B
          using same [of y] that new(2) by (cases "y = b") auto
        ultimately show ?thesis by (simp add: enqueue_outcome_def) blast
      next
        case ctor: False
        let ?q = "put_block q2 b ?blk"
        have invq: "pool_inv ?q fl' (insert b (set bs \<union> others))"
          using new(1) by (rule pool_inv_put_block)
            (use pool_invD(4,8) [OF new(1)] b in \<open>auto simp: reset_empty_def block_shape_def list_all_length\<close>)
        obtain q3 where add: "add_block_to_free_list ?q b = Inr q3"
          "pool_inv q3 (b # fl') (insert b (set bs \<union> others) - {b})" "\<forall>x. x \<noteq> b \<longrightarrow> blocks q3 ! x = blocks ?q ! x"
          using add_block_to_free_list_spec [OF invq insertI1] by blast
        have same': "blocks q3 ! y = blocks q ! y" if "y \<in> set bs \<union> others" for y
          using add(3) same [OF that] new(2) that by (cases "y = b") auto
        have "IP_enqueue_new_block env mode ctor_ok x q p =
            Inr (q3, p\<lparr>index_state := store_value ix' idx None\<rparr>, Constructor_Threw)"
          using ins(1) \<open>e = Some idx\<close> Some False words nblk_mod0(2) [OF t] tail req(1) ctor b ix(2) add(1)
          by (simp add: IP_enqueue_new_block_def Let_def revert_entry_def)
        moreover have "ip_ok q3 (p\<lparr>index_state := store_value ix' idx None\<rparr>) others h t bs xs"
          using ok _ _ ix(3) by (rule ip_ok_frame) (use same' add(2) new(2) in auto)
        ultimately show ?thesis using same' ctor by (auto simp: enqueue_outcome_def)
      qed
    qed
  qed
qed

lemma IP_enqueue_spec:
  assumes ok: "ip_ok q p others h t bs xs"
  shows "\<exists>q' p' r. IP_enqueue env mode ctor_ok x q p = Inr (q', p', r) \<and>
     enqueue_outcome q' p' others h t bs xs x r \<and> (\<forall>y \<in> others. blocks q' ! y = blocks q ! y) \<and>
     (r = Constructor_Threw \<longrightarrow> \<not> ctor_ok) \<and>
     (r = Not_Enqueued \<longrightarrow> h + 2 ^ 63 \<le> t + 32 \<or> blockIndex (index_state p) = [] \<or> mode = CannotAlloc \<or>
        \<not> malloc_ok env (mallocs q) \<or> \<not> malloc_ok env (Suc (mallocs q)))"
proof (cases "t mod 32 = 0")
  case True
  then have "IP_enqueue env mode ctor_ok x q p = IP_enqueue_new_block env mode ctor_ok x q p"
    using ok of_nat_and_31 [of t] by (simp add: IP_enqueue_def ip_ok_def)
  then show ?thesis using enqueue_new_block [OF ok True, of env mode ctor_ok x] by simp
next
  case False
  obtain b where b: "tailBlock p = Some b" "b < length (blocks q)" "b \<notin> others"
    "ip_ok (put_block q b (block_construct (blocks q ! b) (of_nat t) x)) (p\<lparr>tailIndex := of_nat (Suc t)\<rparr>)
       others h (Suc t) bs (xs @ [x])"
    using enqueue_in_block [OF ok False, of x] by blast
  have "IP_enqueue env mode ctor_ok x q p =
      (if ctor_ok then Inr (put_block q b (block_construct (blocks q ! b) (of_nat t) x), p\<lparr>tailIndex := of_nat (Suc t)\<rparr>, Enqueued)
       else Inr (q, p, Constructor_Threw))"
    using ok of_nat_and_31 [of t] False b(1,2) by (simp add: IP_enqueue_def ip_ok_def Let_def)
  then show ?thesis using b ok by (auto simp: enqueue_outcome_def nth_list_update)
qed

lemma ip_ok_has_index:
  assumes "ip_ok q p others h t bs xs" "0 < t"
  shows "blockIndex (index_state p) \<noteq> []"
proof -
  have "0 < nblk t" using nblk_bounds(1) [of t] assms(2) by simp
  then show ?thesis using assms(1) by (auto simp: ip_ok_def ring_inv_def)
qed

lemma enqueue_succeeds:
  assumes "ip_ok q p others h t bs xs" "blockIndex (index_state p) \<noteq> []" "length xs < 2 ^ 63 - 64"
    "\<And>n. malloc_ok env n"
  shows "\<exists>q' p' bs'. IP_enqueue env CanAlloc True x q p = Inr (q', p', Enqueued) \<and>
     ip_ok q' p' others h (Suc t) bs' (xs @ [x]) \<and> blockIndex (index_state p') \<noteq> []"
proof -
  obtain q' p' r where run: "IP_enqueue env CanAlloc True x q p = Inr (q', p', r)"
    "enqueue_outcome q' p' others h t bs xs x r" "r \<noteq> Constructor_Threw" "r = Not_Enqueued \<longrightarrow> h + 2 ^ 63 \<le> t + 32"
    using IP_enqueue_spec [OF assms(1), of env CanAlloc True x] assms(2,4) by auto
  have "t + 32 < h + 2 ^ 63" using assms(1,3) by (simp add: ip_ok_def)
  then have "r = Enqueued" using run(3,4) by (cases r) auto
  then show ?thesis using run(1,2) ip_ok_has_index by (fastforce simp: enqueue_outcome_def)
qed

section \<open>Dequeuing\<close>

text \<open>The invariant without the indices, which a bulk operation advances before it moves the elements.\<close>

definition ip_core ::
  "'a BlockPool \<Rightarrow> BlockIndex \<Rightarrow> nat option \<Rightarrow> nat set \<Rightarrow> nat \<Rightarrow> nat \<Rightarrow> nat list \<Rightarrow> 'a list \<Rightarrow> bool" where
  "ip_core q ix tb others h t bs xs \<longleftrightarrow>
     h \<le> t \<and> length xs = t - h \<and> 32 * nblk t < h + 2 ^ 63 \<and>
     length bs = nblk t - h div 32 \<and> distinct bs \<and> set bs \<inter> others = {} \<and>
     (bs \<noteq> [] \<longrightarrow> tb = Some (last bs)) \<and>
     counters q bs (h mod 32) \<and> holds q bs h xs \<and> ring_inv ix (nblk t) bs \<and>
     (\<exists>fl. pool_inv q fl (set bs \<union> others))"

lemma ip_ok_core:
  "ip_ok q p others h t bs xs \<longleftrightarrow>
     tailIndex p = of_nat t \<and> headIndex p = of_nat h \<and>
     dequeueOptimisticCount p - dequeueOvercommit p = of_nat h \<and>
     ip_core q (index_state p) (tailBlock p) others h t bs xs"
  by (auto simp: ip_ok_def ip_core_def)

text \<open>A block in which \<open>n\<close> elements from slot \<open>i\<close> on have been destroyed and counted.\<close>

definition destroyed :: "'a Block \<Rightarrow> 'a Block \<Rightarrow> nat \<Rightarrow> nat \<Rightarrow> bool" where
  "destroyed blk blk' i n \<longleftrightarrow>
     (\<forall>s. s \<notin> {i..<i + n} \<longrightarrow> elements blk' ! s = elements blk ! s) \<and> block_shape blk' \<and> freeListRefs blk' = 0 \<and>
     elementsCompletelyDequeued blk' = of_nat (i + n)"

lemma core_lookup:
  assumes "ip_core q ix tb others h t bs xs" "h < t"
  obtains b bs' hdr hs k where "bs = b # bs'" "blockIndex ix = hdr # hs" "ring_ok ix hdr k (nblk t) bs"
    "get_block_index_entry_for_index ix (of_nat h) = Inr (back_ptr hdr (length bs'))"
    "entry_value (entry_heap ix ! back_ptr hdr (length bs')) = Some b"
    "b < length (blocks q)" "b \<notin> others" "b \<notin> set bs'" "block_shape (blocks q ! b)" "freeListRefs (blocks q ! b) = 0"
proof -
  have h: "h div 32 < nblk t" using assms(2) by (rule div_less_nblk)
  have I: "length bs = nblk t - h div 32" "distinct bs" "set bs \<inter> others = {}" "ring_inv ix (nblk t) bs"
    using assms(1) by (simp_all add: ip_core_def)
  obtain b bs' where bs: "bs = b # bs'" using I(1) h by (cases bs) auto
  obtain hdr hs k where ring: "blockIndex ix = hdr # hs" "ring_ok ix hdr k (nblk t) bs"
    using I(4) h by (auto simp: ring_inv_def split: list.splits)
  have j: "nblk t - 1 - h div 32 = length bs'" using I(1) bs by simp
  then have look: "get_block_index_entry_for_index ix (of_nat h) = Inr (back_ptr hdr (length bs'))"
    using lookup_ring(2) [OF ring h] bs by simp
  have "back_entry ix hdr (length bs') = \<lparr>entry_key = of_nat (32 * (nblk t - 1 - length bs')), entry_value = Some b\<rparr>"
    using ring(2) bs by (simp add: ring_ok_def)
  then have val: "entry_value (entry_heap ix ! back_ptr hdr (length bs')) = Some b" by (simp add: back_entry_ptr)
  obtain fl where inv: "pool_inv q fl (set bs \<union> others)" using assms(1) by (auto simp: ip_core_def)
  have "b < length (blocks q)" "freeListRefs (blocks q ! b) = 0" "block_shape (blocks q ! b)"
    using pool_invD(4,8) [OF inv] bs by (auto simp: list_all_length)
  then show ?thesis using that bs ring look val I(2,3) by auto
qed

lemma div_mod_split: "(h + n) div 32 = h div 32 + (h mod 32 + n) div 32" "(h + n) mod 32 = (h mod 32 + n) mod (32::nat)"
proof -
  have split: "h + n = (h mod 32 + n) + 32 * (h div 32)" using mult_div_mod_eq [of 32 h] by linarith
  have "(h + n) div 32 = ((h mod 32 + n) + 32 * (h div 32)) div 32" using split by (rule arg_cong)
  also have "\<dots> = h div 32 + (h mod 32 + n) div 32" by (rule div_mult_self2) simp
  finally show "(h + n) div 32 = h div 32 + (h mod 32 + n) div 32" .
  have "(h + n) mod 32 = ((h mod 32 + n) + 32 * (h div 32)) mod 32" using split by (rule arg_cong)
  also have "\<dots> = (h mod 32 + n) mod 32" by (rule mod_mult_self2)
  finally show "(h + n) mod 32 = (h mod 32 + n) mod 32" .
qed

lemma div_mod_within:
  assumes "h mod 32 + n < (32::nat)"
  shows "(h + n) div 32 = h div 32" "(h + n) mod 32 = h mod 32 + n"
  unfolding div_mod_split(1) [of h n] div_mod_split(2) [of h n] using assms by (simp_all only: div_less mod_less add_0_right)

lemma div_mod_end:
  assumes "h mod 32 + n = (32::nat)"
  shows "(h + n) div 32 = Suc (h div 32)" "(h + n) mod 32 = 0"
  unfolding div_mod_split(1) [of h n] div_mod_split(2) [of h n] assms by simp_all

lemma holds_drop_within:
  assumes "holds q (b # bs) h xs" "distinct (b # bs)" "h mod 32 + n < 32" "b < length (blocks q)"
    "\<And>i. i < length xs \<Longrightarrow> (h + i) div 32 - h div 32 < length (b # bs)"
    "\<And>s. s \<notin> {h mod 32..<h mod 32 + n} \<Longrightarrow> elements blk ! s = elements (blocks q ! b) ! s"
  shows "holds (put_block q b blk) (b # bs) (h + n) (drop n xs)"
  unfolding holds_def
proof (intro allI impI)
  fix i
  assume i: "i < length (drop n xs)"
  let ?j = "(h + (n + i)) div 32 - h div 32"
  have old: "elements (blocks q ! ((b # bs) ! ?j)) ! ((h + (n + i)) mod 32) = Some (xs ! (n + i))"
    using assms(1) i by (simp add: holds_def)
  have "(h + (n + i)) mod 32 \<notin> {h mod 32..<h mod 32 + n}" if "?j = 0"
  proof -
    have "(h + (n + i)) div 32 = h div 32" using that div_le_mono [of h "h + (n + i)" 32] by simp
    then have "h + (n + i) = 32 * (h div 32) + (h + (n + i)) mod 32" by (metis mult_div_mod_eq)
    then have "(h + (n + i)) mod 32 = h mod 32 + (n + i)" using mult_div_mod_eq [of 32 h] by linarith
    then show ?thesis by simp
  qed
  moreover have "?j < length (b # bs)" using assms(5) [of "n + i"] i by simp
  moreover from this have "(b # bs) ! ?j = b \<longleftrightarrow> ?j = 0"
    using nth_eq_iff_index_eq [OF assms(2), of ?j 0] by simp
  ultimately show "elements (blocks (put_block q b blk) ! ((b # bs) ! ((h + n + i) div 32 - (h + n) div 32))) !
      ((h + n + i) mod 32) = Some (drop n xs ! i)"
    using old assms(4,6) i unfolding div_mod_within(1) [OF assms(3)] by (auto simp: nth_list_update add.assoc)
qed

lemma holds_drop_end:
  assumes "holds q (b # bs) h xs" "h mod 32 + n = 32"
    "\<And>i. i < length xs \<Longrightarrow> (h + i) div 32 - h div 32 < length (b # bs)"
    "\<And>y. y \<in> set bs \<Longrightarrow> blocks q' ! y = blocks q ! y"
  shows "holds q' bs (h + n) (drop n xs)"
  unfolding holds_def
proof (intro allI impI)
  fix i
  assume i: "i < length (drop n xs)"
  let ?j = "(h + (n + i)) div 32 - Suc (h div 32)"
  from i have "n \<le> length xs" by simp
  have le: "Suc (h div 32) \<le> (h + (n + i)) div 32"
    using div_le_mono [of "h + n" "h + (n + i)" 32] div_mod_end(1) [OF assms(2)] by simp
  then have "(b # bs) ! ((h + (n + i)) div 32 - h div 32) = bs ! ?j"
    by (simp add: Suc_diff_le nth_Cons')
  moreover have "(h + (n + i)) div 32 - h div 32 < Suc (length bs)" using assms(3) [of "n + i"] i by simp
  then have "?j < length bs" using le by linarith
  moreover have "elements (blocks q ! ((b # bs) ! ((h + (n + i)) div 32 - h div 32))) ! ((h + (n + i)) mod 32) = Some (xs ! (n + i))"
    using assms(1) i unfolding holds_def by simp
  ultimately show "elements (blocks q' ! (bs ! ((h + n + i) div 32 - (h + n) div 32))) ! ((h + n + i) mod 32)
      = Some (drop n xs ! i)"
    using assms(4) i \<open>n \<le> length xs\<close> by (simp add: add.assoc div_mod_end(1) [OF assms(2)])
qed

lemma core_block:
  assumes "ip_core q ix tb others h t bs xs" "i < length xs"
  shows "(h + i) div 32 - h div 32 < length bs"
proof -
  have "h + i < t" "length bs = nblk t - h div 32" using assms by (auto simp: ip_core_def)
  then show ?thesis using div_less_nblk [of "h + i" t] div_le_mono [of h "h + i" 32] by linarith
qed

lemma consume_within:
  assumes core: "ip_core q ix tb others h t (b # bs) xs" and n: "n \<le> length xs" "h mod 32 + n < 32"
    and b: "b < length (blocks q)" and blk: "destroyed (blocks q ! b) blk (h mod 32) n"
  shows "ip_core (put_block q b blk) ix tb others (h + n) t (b # bs) (drop n xs)"
proof -
  have I: "h \<le> t" "length xs = t - h" "distinct (b # bs)" "counters q (b # bs) (h mod 32)" "holds q (b # bs) h xs"
    using core by (simp_all add: ip_core_def)
  have dm: "(h + n) div 32 = h div 32" "(h + n) mod 32 = h mod 32 + n"
    using div_mod_within [OF n(2)] by simp_all
  obtain fl where inv: "pool_inv q fl (set (b # bs) \<union> others)" using core by (auto simp: ip_core_def)
  have "holds (put_block q b blk) (b # bs) (h + n) (drop n xs)"
    using I(5,3) n(2) b core_block [OF core] by (rule holds_drop_within) (use blk in \<open>auto simp: destroyed_def\<close>)
  moreover have "counters (put_block q b blk) (b # bs) ((h + n) mod 32)"
    using I(3,4) b blk unfolding dm(2) counters_def
    by (auto simp: destroyed_def nth_list_update nth_Cons')
  moreover have "pool_inv (put_block q b blk) fl (set (b # bs) \<union> others)"
    using inv blk by (intro pool_inv_put_block) (auto simp: destroyed_def)
  ultimately show ?thesis using core n dm by (auto simp: ip_core_def)
qed

lemma consume_end:
  assumes core: "ip_core q ix tb others h t (b # bs) xs" and n: "n \<le> length xs" "h mod 32 + n = 32"
    and b: "b < length (blocks q)" and blk: "destroyed (blocks q ! b) blk (h mod 32) n"
    and ring: "blockIndex ix = hdr # hs" "ring_ok ix hdr k (nblk t) (b # bs)"
  shows "\<exists>q'. add_block_to_free_list (put_block q b blk) b = Inr q' \<and>
     ip_core q' (store_value ix (back_ptr hdr (length bs)) None) tb others (h + n) t bs (drop n xs) \<and>
     (\<forall>y. y \<noteq> b \<longrightarrow> blocks q' ! y = blocks q ! y)"
proof -
  have I: "h \<le> t" "length xs = t - h" "distinct (b # bs)" "set (b # bs) \<inter> others = {}" "counters q (b # bs) (h mod 32)"
    "holds q (b # bs) h xs" "length (b # bs) = nblk t - h div 32"
    using core by (simp_all add: ip_core_def)
  have dm: "(h + n) div 32 = Suc (h div 32)" "(h + n) mod 32 = 0" using div_mod_end [OF n(2)] by simp_all
  obtain fl where "pool_inv q fl (set (b # bs) \<union> others)" using core by (auto simp: ip_core_def)
  then have inv: "pool_inv (put_block q b blk) fl (set (b # bs) \<union> others)"
    using blk by (intro pool_inv_put_block) (auto simp: destroyed_def)
  obtain q' where add: "add_block_to_free_list (put_block q b blk) b = Inr q'"
    "pool_inv q' (b # fl) (set (b # bs) \<union> others - {b})"
    "\<forall>x. x \<noteq> b \<longrightarrow> blocks q' ! x = blocks (put_block q b blk) ! x"
    using add_block_to_free_list_spec [OF inv, of b] by auto
  have same: "blocks q' ! y = blocks q ! y" if "y \<noteq> b" for y using add(3) that by simp
  have same': "blocks q' ! y = blocks q ! y" if "y \<in> set bs" for y
    using same [of y] that I(3) by (cases "y = b") auto
  have rest: "blocks q' ! (bs ! j) = blocks q ! (bs ! j)" if "j < length bs" for j
    using same' [OF nth_mem [OF that]] .
  have "holds q' bs (h + n) (drop n xs)"
    using I(6) n(2) core_block [OF core] same' by (rule holds_drop_end)
  moreover have "counters q' bs ((h + n) mod 32)"
    using I(5) rest unfolding dm(2) counters_def by (fastforce simp: nth_Cons')
  moreover have "ring_inv (store_value ix (back_ptr hdr (length bs)) None) (nblk t) bs"
    using release_ring [OF ring(2)] ring(1) by (auto simp: ring_inv_def)
  moreover have "set (b # bs) \<union> others - {b} = set bs \<union> others" using I(3,4) by auto
  moreover have "tb = Some (last bs)" if "bs \<noteq> []"
    using core that by (simp add: ip_core_def)
  ultimately have "ip_core q' (store_value ix (back_ptr hdr (length bs)) None) tb others (h + n) t bs (drop n xs)"
    using core n dm add(2) I by (auto simp: ip_core_def)
  then show ?thesis using add(1) same by blast
qed

lemma IP_dequeue_empty:
  assumes "ip_ok q p others h t bs []"
  shows "IP_dequeue q p = Inr (q, p, None)"
proof -
  have "h = t" using assms by (simp add: ip_ok_def)
  then show ?thesis
    using assms circular_less_than_nat [of t t] by (simp add: IP_dequeue_def ip_ok_def Let_def)
qed

lemma destroy_one:
  assumes "block_shape blk" "freeListRefs blk = 0" "elementsCompletelyDequeued blk = of_nat (h mod 32)"
    "elements blk ! (h mod 32) = Some x"
  defines "blk' \<equiv> (block_destroy blk (of_nat h))\<lparr>elementsCompletelyDequeued := of_nat (Suc (h mod 32))\<rparr>"
  shows "block_get blk (of_nat h) = Inr x"
    and "set_empty implicit_context (of_nat h) (block_destroy blk (of_nat h)) = Inr (blk', h mod 32 = 31)"
    and "destroyed blk blk' (h mod 32) 1"
proof -
  have small: "unat (of_nat (h mod 32) :: u64) = h mod 32"
    by (rule unat_of_nat_small) (simp add: less_trans [of _ 32])
  have lt: "(of_nat (h mod 32) :: u64) < 32" by (simp add: word_less_nat_alt small)
  show "block_get blk (of_nat h) = Inr x"
    using assms(1,4) by (simp add: block_get_def block_shape_def unat_of_nat_mod_32)
  have "of_nat (h mod 32) = (31 :: u64) \<longleftrightarrow> h mod 32 = 31" by (simp add: word_unat_eq_iff small)
  then show "set_empty implicit_context (of_nat h) (block_destroy blk (of_nat h)) = Inr (blk', h mod 32 = 31)"
    using assms(3) lt by (simp add: set_empty_def Let_def block_destroy_def blk'_def add.commute)
  show "destroyed blk blk' (h mod 32) 1"
    using assms(1,2) by (auto simp: destroyed_def blk'_def block_destroy_def block_shape_def unat_of_nat_mod_32 nth_list_update)
qed

lemma IP_dequeue_spec:
  assumes ok: "ip_ok q p others h t bs (x # xs)"
  shows "\<exists>q' p' bs'. IP_dequeue q p = Inr (q', p', Some x) \<and> ip_ok q' p' others (Suc h) t bs' xs \<and>
     (\<forall>y \<in> others. blocks q' ! y = blocks q ! y)"
proof -
  have w: "tailIndex p = of_nat t" "headIndex p = of_nat h" "dequeueOptimisticCount p - dequeueOvercommit p = of_nat h"
    and core: "ip_core q (index_state p) (tailBlock p) others h t bs (x # xs)"
    using ok by (simp_all add: ip_ok_core)
  have "h < t" "t < h + 2 ^ 63" using ok ip_ok_bounds(1) [OF ok] by (auto simp: ip_ok_def)
  then have less: "circular_less_than (of_nat h :: u64) (of_nat t)" using circular_less_than_nat [of h t] by simp
  obtain b bs' hdr hs k where bs: "bs = b # bs'" "blockIndex (index_state p) = hdr # hs"
    "ring_ok (index_state p) hdr k (nblk t) bs"
    "get_block_index_entry_for_index (index_state p) (of_nat h) = Inr (back_ptr hdr (length bs'))"
    "entry_value (entry_heap (index_state p) ! back_ptr hdr (length bs')) = Some b"
    and b: "b < length (blocks q)" "b \<notin> others" "block_shape (blocks q ! b)" "freeListRefs (blocks q ! b) = 0"
    using core \<open>h < t\<close> by (rule core_lookup)
  let ?e = "back_ptr hdr (length bs')"
  let ?p = "p\<lparr>dequeueOptimisticCount := dequeueOptimisticCount p + 1, headIndex := of_nat (Suc h)\<rparr>"
  let ?blk = "(block_destroy (blocks q ! b) (of_nat h))\<lparr>elementsCompletelyDequeued := of_nat (Suc (h mod 32))\<rparr>"
  have "elementsCompletelyDequeued (blocks q ! b) = of_nat (h mod 32)" "elements (blocks q ! b) ! (h mod 32) = Some x"
    using core bs(1) by (auto simp: ip_core_def counters_def holds_def)
  note one = destroy_one [OF b(3,4) this]
  have run: "IP_dequeue q p = and_then (release_if_empty (put_block q b ?blk) ?p ?e b (h mod 32 = 31)) (\<lambda>(q, p). Inr (q, p, Some x))"
    using w less bs(4,5) b(1) one(1,2) by (simp add: IP_dequeue_def Let_def add.commute)
  have word: "dequeueOptimisticCount p + 1 - dequeueOvercommit p = of_nat (Suc h)"
    using w(3) by (simp add: algebra_simps)
  show ?thesis
  proof (cases "h mod 32 = 31")
    case True
    then obtain q' where q': "add_block_to_free_list (put_block q b ?blk) b = Inr q'"
      "ip_core q' (store_value (index_state p) ?e None) (tailBlock p) others (h + 1) t bs' (drop 1 (x # xs))"
      "\<forall>y. y \<noteq> b \<longrightarrow> blocks q' ! y = blocks q ! y"
      using consume_end [of q "index_state p" "tailBlock p" others h t b bs' "x # xs" 1 ?blk hdr hs k] core bs b(1) one(3) by auto
    then have "IP_dequeue q p = Inr (q', ?p\<lparr>index_state := store_value (index_state p) ?e None\<rparr>, Some x)"
      using run True by (simp add: release_if_empty_def)
    moreover have "ip_ok q' (?p\<lparr>index_state := store_value (index_state p) ?e None\<rparr>) others (Suc h) t bs' xs"
      using q'(2) w word by (simp add: ip_ok_core)
    moreover have "\<forall>y \<in> others. blocks q' ! y = blocks q ! y" using q'(3) b(2) by metis
    ultimately show ?thesis by blast
  next
    case False
    then have "h mod 32 + 1 < 32" using mod_less_divisor [of 32 h] by linarith
    then have "ip_core (put_block q b ?blk) (index_state p) (tailBlock p) others (h + 1) t bs (drop 1 (x # xs))"
      using consume_within [of q "index_state p" "tailBlock p" others h t b bs' "x # xs" 1 ?blk] core bs(1) b(1) one(3) by simp
    then have "ip_ok (put_block q b ?blk) ?p others (Suc h) t bs xs" using w word by (simp add: ip_ok_core)
    moreover have "IP_dequeue q p = Inr (put_block q b ?blk, ?p, Some x)"
      using run False by (simp add: release_if_empty_def)
    moreover have "blocks (put_block q b ?blk) ! y = blocks q ! y" if "y \<in> others" for y
      using b(2) that by (cases "y = b") simp_all
    ultimately show ?thesis by blast
  qed
qed

section \<open>A sub-queue is a queue\<close>

text \<open>
  The contract of a sub-queue, over the list of elements it holds: an enqueue appends the element
  or, when it is refused, changes nothing, and a dequeue takes the first element, if there is one.
  A session of operations then is first in, first out: the accepted elements, in order, are the ones taken out
  followed by the ones left. The number in the invariant is that of the operations it still allows.
\<close>

datatype 'e queue_op = Enq 'e | Deq

fun queue_session ::
  "('e \<Rightarrow> 's \<Rightarrow> fault + 's \<times> bool) \<Rightarrow> ('s \<Rightarrow> fault + 's \<times> 'a option) \<Rightarrow> ('e \<Rightarrow> 'a) \<Rightarrow> 's \<Rightarrow> 'e queue_op list \<Rightarrow>
     fault + 's \<times> 'a list \<times> 'a list" where
  "queue_session enq deq val s [] = Inr (s, [], [])"
| "queue_session enq deq val s (Enq e # ops) =
     and_then (enq e s) (\<lambda>(s, ok).
     and_then (queue_session enq deq val s ops) (\<lambda>(s, accepted, taken).
       Inr (s, (if ok then val e # accepted else accepted), taken)))"
| "queue_session enq deq val s (Deq # ops) =
     and_then (deq s) (\<lambda>(s, r).
     and_then (queue_session enq deq val s ops) (\<lambda>(s, accepted, taken).
       Inr (s, accepted, (case r of Some x \<Rightarrow> x # taken | None \<Rightarrow> taken))))"

locale bounded_subqueue =
  fixes inv :: "nat \<Rightarrow> 's \<Rightarrow> 'a list \<Rightarrow> bool"
    and enq :: "'e \<Rightarrow> 's \<Rightarrow> fault + 's \<times> bool"
    and deq :: "'s \<Rightarrow> fault + 's \<times> 'a option"
    and val :: "'e \<Rightarrow> 'a"
  assumes enq_law: "inv (Suc n) s xs \<Longrightarrow> \<exists>s' ok. enq e s = Inr (s', ok) \<and> inv n s' (if ok then xs @ [val e] else xs)"
    and deq_law: "inv (Suc n) s xs \<Longrightarrow>
      \<exists>s'. deq s = Inr (s', case xs of [] \<Rightarrow> None | x # _ \<Rightarrow> Some x) \<and> inv n s' (tl xs)"
begin

lemma session_bounded:
  "inv (length ops + n) s xs \<Longrightarrow> \<exists>s' accepted taken rest. queue_session enq deq val s ops = Inr (s', accepted, taken) \<and>
     xs @ accepted = taken @ rest \<and> inv n s' rest"
proof (induction ops arbitrary: s xs)
  case (Cons op ops)
  then have inv: "inv (Suc (length ops + n)) s xs" by simp
  show ?case
  proof (cases op)
    case (Enq e)
    obtain s1 ok where "enq e s = Inr (s1, ok)" "inv (length ops + n) s1 (if ok then xs @ [val e] else xs)"
      using enq_law [OF inv, of e] by blast
    moreover from Cons.IH [OF this(2)] obtain s' accepted taken rest where
      "queue_session enq deq val s1 ops = Inr (s', accepted, taken)"
      "(if ok then xs @ [val e] else xs) @ accepted = taken @ rest" "inv n s' rest" by blast
    ultimately show ?thesis using Enq by auto
  next
    case Deq
    obtain s1 where s1: "deq s = Inr (s1, case xs of [] \<Rightarrow> None | x # _ \<Rightarrow> Some x)" "inv (length ops + n) s1 (tl xs)"
      using deq_law [OF inv] by blast
    obtain s' accepted taken rest where rec: "queue_session enq deq val s1 ops = Inr (s', accepted, taken)"
      "tl xs @ accepted = taken @ rest" "inv n s' rest"
      using Cons.IH [OF s1(2)] by blast
    show ?thesis using Deq s1(1) rec by (cases xs) auto
  qed
qed simp

end

text \<open>A sub-queue whose invariant puts no bound on the number of operations.\<close>

locale subqueue =
  fixes inv :: "'s \<Rightarrow> 'a list \<Rightarrow> bool"
    and enq :: "'e \<Rightarrow> 's \<Rightarrow> fault + 's \<times> bool"
    and deq :: "'s \<Rightarrow> fault + 's \<times> 'a option"
    and val :: "'e \<Rightarrow> 'a"
  assumes enq_law: "inv s xs \<Longrightarrow> \<exists>s' ok. enq e s = Inr (s', ok) \<and> inv s' (if ok then xs @ [val e] else xs)"
    and deq_law: "inv s xs \<Longrightarrow>
      \<exists>s'. deq s = Inr (s', case xs of [] \<Rightarrow> None | x # _ \<Rightarrow> Some x) \<and> inv s' (tl xs)"

sublocale subqueue \<subseteq> bounded: bounded_subqueue "\<lambda>_. inv" enq deq val
  by unfold_locales (rule enq_law deq_law, assumption)+

context subqueue
begin

lemma session_fifo:
  "inv s xs \<Longrightarrow> \<exists>s' accepted taken rest. queue_session enq deq val s ops = Inr (s', accepted, taken) \<and>
     xs @ accepted = taken @ rest \<and> inv s' rest"
  by (rule bounded.session_bounded)

end

text \<open>The implicit producer as a sub-queue, for any environment, allocation mode and other users of the pool.\<close>

definition IP_enq ::
  "alloc_env \<Rightarrow> AllocationMode \<Rightarrow> 'a \<times> bool \<Rightarrow> 'a BlockPool \<times> ImplicitProducer \<Rightarrow>
     fault + ('a BlockPool \<times> ImplicitProducer) \<times> bool" where
  "IP_enq env mode e s =
     and_then (IP_enqueue env mode (snd e) (fst e) (fst s) (snd s)) (\<lambda>(q, p, r). Inr ((q, p), r = Enqueued))"

definition IP_deq ::
  "'a BlockPool \<times> ImplicitProducer \<Rightarrow> fault + ('a BlockPool \<times> ImplicitProducer) \<times> 'a option" where
  "IP_deq s = and_then (IP_dequeue (fst s) (snd s)) (\<lambda>(q, p, r). Inr ((q, p), r))"

definition IP_holds :: "nat set \<Rightarrow> 'a BlockPool \<times> ImplicitProducer \<Rightarrow> 'a list \<Rightarrow> bool" where
  "IP_holds others s xs \<longleftrightarrow> (\<exists>h t bs. ip_ok (fst s) (snd s) others h t bs xs)"

interpretation ip: subqueue "IP_holds others" "IP_enq env mode" IP_deq fst
  for others env mode
proof unfold_locales
  fix s :: "'a BlockPool \<times> ImplicitProducer" and xs e
  assume "IP_holds others s xs"
  then obtain h t bs where ok: "ip_ok (fst s) (snd s) others h t bs xs" by (auto simp: IP_holds_def)
  obtain q' p' r where run: "IP_enqueue env mode (snd e) (fst e) (fst s) (snd s) = Inr (q', p', r)"
    "enqueue_outcome q' p' others h t bs xs (fst e) r"
    using IP_enqueue_spec [OF ok, of env mode "snd e" "fst e"] by blast
  have "IP_holds others (q', p') (if r = Enqueued then xs @ [fst e] else xs)"
    using run(2) by (cases "r = Enqueued") (auto simp: enqueue_outcome_def IP_holds_def)
  then show "\<exists>s' ok. IP_enq env mode e s = Inr (s', ok) \<and> IP_holds others s' (if ok then xs @ [fst e] else xs)"
    using run(1) by (auto simp: IP_enq_def)
next
  fix s :: "'a BlockPool \<times> ImplicitProducer" and xs
  assume "IP_holds others s xs"
  then obtain h t bs where ok: "ip_ok (fst s) (snd s) others h t bs xs" by (auto simp: IP_holds_def)
  show "\<exists>s'. IP_deq s = Inr (s', case xs of [] \<Rightarrow> None | x # _ \<Rightarrow> Some x) \<and> IP_holds others s' (tl xs)"
  proof (cases xs)
    case Nil
    then have "IP_deq s = Inr (s, None)" using IP_dequeue_empty [of "fst s" "snd s" others h t bs] ok by (simp add: IP_deq_def)
    then show ?thesis using Nil \<open>IP_holds others s xs\<close> by simp
  next
    case (Cons x ys)
    then obtain q' p' bs' where "IP_dequeue (fst s) (snd s) = Inr (q', p', Some x)" "ip_ok q' p' others (Suc h) t bs' ys"
      using IP_dequeue_spec [of "fst s" "snd s" others h t bs x ys] ok by blast
    then show ?thesis using Cons by (auto simp: IP_deq_def IP_holds_def)
  qed
qed

lemma IP_init_holds:
  assumes "pool_inv q fl others"
  shows "\<exists>s. ImplicitProducer_init env q = Inr s \<and> IP_holds others s []"
  using ImplicitProducer_init_ok [OF assms, of env] by (force simp: IP_holds_def)

text \<open>
  An implicit producer of a new queue is a first-in first-out queue, whatever sequence of enqueues and
  dequeues is made on it, whichever allocations fail and whichever copies of elements throw, and however often its indices wrap
  around: no operation faults, and the elements whose enqueue succeeded, in order, are the ones the dequeues returned
  followed by the ones it still holds.
\<close>

theorem implicit_producer_fifo:
  fixes ops :: "('a \<times> bool) queue_op list"
  shows "\<exists>s accepted taken rest.
     and_then (ImplicitProducer_init env (initial_pool env cap)) (\<lambda>s. queue_session (IP_enq env mode) IP_deq fst s ops)
       = Inr (s, accepted, taken) \<and> accepted = taken @ rest \<and> IP_holds {} s rest"
proof -
  obtain s :: "'a BlockPool \<times> ImplicitProducer"
    where s: "ImplicitProducer_init env (initial_pool env cap) = Inr s" "IP_holds {} s []"
    using IP_init_holds [OF initial_pool_inv, of env env cap] by blast
  then show ?thesis using ip.session_fifo [OF s(2), of env mode ops] by simp
qed

text \<open>
  When memory can be had and the element can be copied, an enqueue on an implicit
  producer that has a block index succeeds and appends the element, as long as the sub-queue has fewer than
  \<open>2 ^ 63 - 64\<close> elements.
\<close>

theorem implicit_enqueue_succeeds:
  assumes "ip_ok q p others h t bs xs" "blockIndex (index_state p) \<noteq> []" "length xs < 2 ^ 63 - 64"
    "\<And>n. malloc_ok env n"
  shows "\<exists>q' p' bs'. IP_enqueue env CanAlloc True x q p = Inr (q', p', Enqueued) \<and>
     ip_ok q' p' others h (Suc t) bs' (xs @ [x]) \<and> blockIndex (index_state p') \<noteq> []"
  using assms by (rule enqueue_succeeds)

text \<open>A producer that holds three elements, in an environment where every allocation succeeds.\<close>

definition good_env :: alloc_env where
  "good_env = \<lparr>malloc_ok = \<lambda>_. True, raw_flag = \<lambda>_ _. False, raw_value = \<lambda>_. None\<rparr>"

lemma good_env_ok: "malloc_ok good_env n"
  by (simp add: good_env_def)

lemma example_empty:
  "\<exists>q p. ip_ok (q :: nat BlockPool) p {} 0 0 [] [] \<and> blockIndex (index_state p) \<noteq> []"
proof -
  let ?q = "initial_pool good_env 192 :: nat BlockPool"
  obtain p where p: "ImplicitProducer_init good_env ?q = Inr (?q\<lparr>mallocs := mallocs ?q + 1\<rparr>, p)"
    "ip_ok (?q\<lparr>mallocs := mallocs ?q + 1\<rparr>) p {} 0 0 [] []"
    using ImplicitProducer_init_ok [OF initial_pool_inv, of good_env good_env 192] by blast
  have "blockIndex (index_state p) \<noteq> []"
    using p(1) good_env_ok by (auto simp: ImplicitProducer_init_def new_block_index_def BlockIndex_empty_def
        cq_malloc_def prev_index_def Let_def)
  then show ?thesis using p(2) by blast
qed

lemma example_held:
  "\<exists>q p bs. ip_ok (q :: nat BlockPool) p {} 0 3 bs [10, 20, 30] \<and> blockIndex (index_state p) \<noteq> []"
proof -
  obtain q p where p: "ip_ok (q :: nat BlockPool) p {} 0 0 [] []" "blockIndex (index_state p) \<noteq> []"
    using example_empty by blast
  obtain q1 p1 bs1 where p1: "ip_ok (q1 :: nat BlockPool) p1 {} 0 (Suc 0) bs1 ([] @ [10])" "blockIndex (index_state p1) \<noteq> []"
    using enqueue_succeeds [OF p _ good_env_ok, of 10] by auto
  obtain q2 p2 bs2 where p2: "ip_ok (q2 :: nat BlockPool) p2 {} 0 (Suc (Suc 0)) bs2 (([] @ [10]) @ [20])"
    "blockIndex (index_state p2) \<noteq> []"
    using enqueue_succeeds [OF p1 _ good_env_ok, of 20] by auto
  obtain q3 p3 bs3 where "ip_ok (q3 :: nat BlockPool) p3 {} 0 (Suc (Suc (Suc 0))) bs3 ((([] @ [10]) @ [20]) @ [30])"
    "blockIndex (index_state p3) \<noteq> []"
    using enqueue_succeeds [OF p2 _ good_env_ok, of 30] by auto
  then show ?thesis by (auto simp: numeral_3_eq_3)
qed

theorem implicit_enqueue_succeeds_witness:
  "\<exists>q p bs q' p' bs'. ip_ok (q :: nat BlockPool) p {} 0 3 bs [10, 20, 30] \<and>
     IP_enqueue good_env CanAlloc True 40 q p = Inr (q', p', Enqueued) \<and> ip_ok q' p' {} 0 4 bs' [10, 20, 30, 40]"
proof -
  obtain q p bs where p: "ip_ok (q :: nat BlockPool) p {} 0 3 bs [10, 20, 30]" "blockIndex (index_state p) \<noteq> []"
    using example_held by blast
  have "length [10, 20, 30 :: nat] < 2 ^ 63 - 64" by simp
  then show ?thesis using implicit_enqueue_succeeds [OF p _ good_env_ok, of 40] p(1) by force
qed

end
