(* ===== verification/CQ_Bulk.thy ===== *)
theory CQ_Bulk
  imports CQ_Implicit
begin

text \<open>
  The bulk dequeue and the destructor of the implicit producer (\<^verbatim>\<open>dequeue_bulk\<close> and \<^verbatim>\<open>~ImplicitProducer\<close> of
  \<^verbatim>\<open>src/utils/concurrentqueue-1.0.3/concurrentqueue.h\<close>). They work block by block; each loop of the
  source is a recursive function with fuel, and the lemmas show that the fuel given is enough.

  A bulk dequeue is shown to take the first elements, as many as asked for or as there are, and the destructor to destroy every element left and to give every block back to the
  pool.
\<close>

section \<open>Bulk dequeue\<close>

text \<open>The inner loop: move the elements of a block out and destroy them.\<close>

fun drain_block :: "nat \<Rightarrow> 'a BlockPool \<Rightarrow> nat \<Rightarrow> u64 \<Rightarrow> u64 \<Rightarrow> fault + 'a BlockPool \<times> 'a list" where
  "drain_block fuel q block i endIndex =
     (if i = endIndex then Inr (q, [])
      else case fuel of
          0 \<Rightarrow> Inl Diverges
        | Suc fuel \<Rightarrow>
            and_then (deref q (Some block)) (\<lambda>blk.
            and_then (block_get blk i) (\<lambda>el.
            and_then (drain_block fuel (put_block q block (block_destroy blk i)) block (i + 1) endIndex) (\<lambda>(q, els).
              Inr (q, el # els)))))"

declare drain_block.simps [simp del]

text \<open>The end of the block of an index, or the limit when that comes first.\<close>

definition block_end :: "u64 \<Rightarrow> u64 \<Rightarrow> u64" where
  "block_end i limit =
     (let endIndex = (i AND NOT (BLOCK_SIZE - 1)) + BLOCK_SIZE
      in if circular_less_than limit endIndex then limit else endIndex)"

text \<open>The loop over the blocks, up to the index \<open>limit\<close>.\<close>

fun drain_blocks ::
  "nat \<Rightarrow> u64 \<Rightarrow> BlockIndexHeader \<Rightarrow> 'a BlockPool \<Rightarrow> ImplicitProducer \<Rightarrow> u64 \<Rightarrow> u64 \<Rightarrow>
     fault + 'a BlockPool \<times> ImplicitProducer \<times> 'a list" where
  "drain_blocks 0 limit localBlockIndex q p indexIndex i = Inl Diverges"
| "drain_blocks (Suc fuel) limit localBlockIndex q p indexIndex i =
     (let endIndex = block_end i limit
      in and_then (header_entry (index_state p) localBlockIndex indexIndex) (\<lambda>entry.
         case entry_value (entry_heap (index_state p) ! entry) of
           None \<Rightarrow> Inl Undefined_Behaviour
         | Some block \<Rightarrow>
             and_then (drain_block 32 q block i endIndex) (\<lambda>(q, els).
             and_then (deref q (Some block)) (\<lambda>blk.
             and_then (set_many_empty implicit_context i (endIndex - i) blk) (\<lambda>(blk, now_empty).
             and_then (release_if_empty (put_block q block blk) p entry block now_empty) (\<lambda>(q, p).
               if endIndex \<noteq> limit
               then and_then (drain_blocks fuel limit localBlockIndex q p
                                ((indexIndex + 1) AND (capacity localBlockIndex - 1)) endIndex) (\<lambda>(q, p, more).
                      Inr (q, p, els @ more))
               else Inr (q, p, els)))))))"

definition IP_dequeue_bulk ::
  "'a BlockPool \<Rightarrow> ImplicitProducer \<Rightarrow> u64 \<Rightarrow> fault + 'a BlockPool \<times> ImplicitProducer \<times> 'a list \<times> u64" where
  "IP_dequeue_bulk q p maxCount =
     (let tail = tailIndex p;
          overcommit = dequeueOvercommit p;
          desiredCount = tail - (dequeueOptimisticCount p - overcommit)
      in if circular_less_than 0 desiredCount then
           let desiredCount = (if desiredCount < maxCount then desiredCount else maxCount);
               myDequeueCount = dequeueOptimisticCount p;
               p = p\<lparr>dequeueOptimisticCount := myDequeueCount + desiredCount\<rparr>;
               actualCount = tailIndex p - (myDequeueCount - overcommit)
           in if circular_less_than 0 actualCount then
                let actualCount = (if desiredCount < actualCount then desiredCount else actualCount);
                    p = (if actualCount < desiredCount
                         then p\<lparr>dequeueOvercommit := dequeueOvercommit p + (desiredCount - actualCount)\<rparr> else p);
                    firstIndex = headIndex p;
                    p = p\<lparr>headIndex := firstIndex + actualCount\<rparr>
                in and_then (get_block_index_index_for_index (index_state p) firstIndex) (\<lambda>(localBlockIndex, indexIndex).
                   and_then (drain_blocks (Suc (unat actualCount)) (firstIndex + actualCount) localBlockIndex q p indexIndex firstIndex)
                     (\<lambda>(q, p, els). Inr (q, p, els, actualCount)))
              else Inr (q, p\<lparr>dequeueOvercommit := dequeueOvercommit p + desiredCount\<rparr>, [], 0)
         else Inr (q, p, [], 0))"

lemma of_nat_eq_add: "n < 2 ^ 64 \<Longrightarrow> (of_nat h :: u64) = of_nat (h + n) \<longleftrightarrow> n = 0"
proof -
  assume "n < 2 ^ 64"
  then have "unat (of_nat n :: u64) = n" by (intro unat_of_nat_small) simp
  then have "(of_nat n :: u64) = 0 \<longleftrightarrow> n = 0" by (metis unat_eq_zero)
  then show ?thesis by simp
qed

lemma drain_block_spec:
  assumes "b < length (blocks q)" "block_shape (blocks q ! b)" "h mod 32 + n \<le> 32" "n \<le> fuel" "length xs = n"
    "\<And>i. i < n \<Longrightarrow> elements (blocks q ! b) ! (h mod 32 + i) = Some (xs ! i)"
  shows "\<exists>blk. drain_block fuel q b (of_nat h) (of_nat (h + n)) = Inr (put_block q b blk, xs) \<and> block_shape blk \<and>
     (\<forall>s. s \<notin> {h mod 32..<h mod 32 + n} \<longrightarrow> elements blk ! s = elements (blocks q ! b) ! s) \<and>
     freeListRefs blk = freeListRefs (blocks q ! b) \<and>
     elementsCompletelyDequeued blk = elementsCompletelyDequeued (blocks q ! b) \<and>
     next_block blk = next_block (blocks q ! b) \<and> emptyFlags blk = emptyFlags (blocks q ! b)"
  using assms
proof (induction n arbitrary: fuel h q xs)
  case 0
  then show ?case
    by (intro exI [of _ "blocks q ! b"]) (simp add: drain_block.simps [of fuel] put_block_def)
next
  case (Suc n)
  let ?blk = "block_destroy (blocks q ! b) (of_nat h)"
  let ?q = "put_block q b ?blk"
  obtain x ys where xs: "xs = x # ys" "length ys = n" using Suc.prems(5) by (cases xs) auto
  obtain f where f: "fuel = Suc f" "n \<le> f" using Suc.prems(4) by (cases fuel) auto
  have len: "length (elements (blocks q ! b)) = 32" using Suc.prems(2) by (simp add: block_shape_def)
  have el: "block_get (blocks q ! b) (of_nat h) = Inr x"
    using Suc.prems(3) Suc.prems(6) [of 0] len xs by (simp add: block_get_def unat_of_nat_mod_32)
  have more: "(of_nat h :: u64) \<noteq> of_nat (h + Suc n)"
    using of_nat_eq_add [of "Suc n" h] Suc.prems(3) by simp
  have step: "drain_block fuel q b (of_nat h) (of_nat (h + Suc n)) =
      and_then (drain_block f ?q b (of_nat (Suc h)) (of_nat (Suc h + n))) (\<lambda>(q, els). Inr (q, x # els))"
    using more el Suc.prems(1) by (subst drain_block.simps) (simp add: f(1) add.commute)
  have blk: "block_shape ?blk" "freeListRefs ?blk = freeListRefs (blocks q ! b)"
    "elementsCompletelyDequeued ?blk = elementsCompletelyDequeued (blocks q ! b)"
    "\<And>s. s \<noteq> h mod 32 \<Longrightarrow> elements ?blk ! s = elements (blocks q ! b) ! s"
    "next_block ?blk = next_block (blocks q ! b)" "emptyFlags ?blk = emptyFlags (blocks q ! b)"
    using Suc.prems(2) by (simp_all add: block_destroy_def block_shape_def unat_of_nat_mod_32)
  show ?case
  proof (cases "n = 0")
    case True
    then have "drain_block fuel q b (of_nat h) (of_nat (h + Suc n)) = Inr (?q, xs)"
      using step xs by (simp add: drain_block.simps [of f])
    then show ?thesis using blk True by (intro exI [of _ ?blk]) auto
  next
    case False
    then have sm: "Suc h mod 32 = Suc (h mod 32)" using Suc.prems(3) by (simp add: mod_Suc)
    have "\<And>i. i < n \<Longrightarrow> elements (blocks ?q ! b) ! (Suc h mod 32 + i) = Some (ys ! i)"
      using Suc.prems(1) Suc.prems(6) [of "Suc i" for i] blk(4) xs sm by simp
    then obtain blk' where blk': "drain_block f ?q b (of_nat (Suc h)) (of_nat (Suc h + n)) = Inr (put_block ?q b blk', ys)"
      "block_shape blk'" "\<forall>s. s \<notin> {Suc h mod 32..<Suc h mod 32 + n} \<longrightarrow> elements blk' ! s = elements (blocks ?q ! b) ! s"
      "freeListRefs blk' = freeListRefs (blocks ?q ! b)"
      "elementsCompletelyDequeued blk' = elementsCompletelyDequeued (blocks ?q ! b)"
      "next_block blk' = next_block (blocks ?q ! b)" "emptyFlags blk' = emptyFlags (blocks ?q ! b)"
      using Suc.IH [of ?q "Suc h" f ys] Suc.prems(1,3) blk(1) sm f(2) xs(2) by auto
    moreover have "put_block ?q b blk' = put_block q b blk'" by (simp add: put_block_def)
    ultimately show ?thesis
      using step xs(1) blk Suc.prems(1) sm by (intro exI [of _ blk']) auto
  qed
qed

lemma block_end_of_nat:
  assumes "r \<le> 2 ^ 63"
  shows "block_end (of_nat h) (of_nat (h + r)) = of_nat (h + min r (32 - h mod 32))"
proof -
  let ?e = "32 * (h div 32) + 32"
  have e: "?e = h + (32 - h mod 32)"
    using mult_div_mod_eq [of 32 h] mod_less_divisor [of 32 h] by linarith
  have "NOT (32 - 1) = (- 32 :: u64)" "NOT 31 = (- 32 :: u64)" by simp_all
  then have base: "(of_nat h AND NOT (32 - 1)) + 32 = (of_nat ?e :: u64)"
    using block_base_of_nat [of h] by (simp only: of_nat_add of_nat_numeral)
  have less: "circular_less_than (of_nat (h + r) :: u64) (of_nat ?e) \<longleftrightarrow> h + r < ?e"
    using assms e mod_less_divisor [of 32 h] by (intro circular_less_than_of_nat) auto
  have "block_end (of_nat h) (of_nat (h + r)) = (if h + r < ?e then of_nat (h + r) else of_nat ?e)"
    unfolding block_end_def Let_def base less by (rule refl)
  also have "\<dots> = of_nat (if h + r < ?e then h + r else ?e)" by (rule if_distrib [symmetric])
  also have "(if h + r < ?e then h + r else ?e) = h + min r (32 - h mod 32)" unfolding e by auto
  finally show ?thesis .
qed

lemma next_position:
  assumes "ring_shape ix hdr k" "unat i = back_pos hdr (Suc j)" "Suc j < 2 ^ k"
  shows "unat ((i + 1) AND (capacity hdr - 1)) = back_pos hdr j"
proof -
  have h: "capacity hdr = 2 ^ k" "k \<le> 59" "length (index hdr) = 2 ^ k" using assms(1) by (auto simp: ring_shape_def)
  have "unat i < 2 ^ k" using ring_shape_ptr(1) [OF assms(1,3)] assms(2) by simp
  then have "unat i + 1 < 2 ^ 64" using pow2_le_59 [OF h(2)] by simp
  then have "unat (i + 1) = unat i + 1" by (simp add: unat_word_ariths)
  then have "unat ((i + 1) AND (capacity hdr - 1)) = (unat i + 1) mod 2 ^ k" by (simp only: h(1) and_pow2_minus_one)
  also have "\<dots> = (unat (tail hdr) + (2 ^ k - Suc j) + 1) mod 2 ^ k"
    by (simp only: assms(2) back_pos_def h(3) mod_add_left_eq)
  also have "unat (tail hdr) + (2 ^ k - Suc j) + 1 = unat (tail hdr) + (2 ^ k - j)" using assms(3) by simp
  finally show ?thesis by (simp only: back_pos_def h(3))
qed

text \<open>One round of the loop: the elements of the first block, up to the limit.\<close>

lemma drain_first:
  assumes core: "ip_core q ix tb others h t (b # bs) xs" and n: "n \<le> length xs" "h mod 32 + n \<le> 32"
    and b: "b < length (blocks q)" "block_shape (blocks q ! b)" "freeListRefs (blocks q ! b) = 0"
  shows "\<exists>q1 blk. drain_block 32 q b (of_nat h) (of_nat (h + n)) = Inr (q1, take n xs) \<and> b < length (blocks q1) \<and>
     set_many_empty implicit_context (of_nat h) (of_nat (h + n) - of_nat h) (blocks q1 ! b) = Inr (blk, h mod 32 + n = 32) \<and>
     put_block q1 b blk = put_block q b blk \<and> destroyed (blocks q ! b) blk (h mod 32) n"
proof -
  have len: "length xs = t - h" "h \<le> t" "holds q (b # bs) h xs" "counters q (b # bs) (h mod 32)"
    using core by (simp_all add: ip_core_def)
  have "elements (blocks q ! b) ! (h mod 32 + i) = Some (take n xs ! i)" if "i < n" for i
  proof -
    have "h mod 32 + i < 32" using that n(2) by simp
    note dm = div_mod_within [OF this]
    have "elements (blocks q ! ((b # bs) ! ((h + i) div 32 - h div 32))) ! ((h + i) mod 32) = Some (xs ! i)"
      using len(3) that n(1) by (simp add: holds_def)
    then show ?thesis using that by (simp add: dm)
  qed
  then obtain blk where blk: "drain_block 32 q b (of_nat h) (of_nat (h + n)) = Inr (put_block q b blk, take n xs)"
    "block_shape blk" "\<forall>s. s \<notin> {h mod 32..<h mod 32 + n} \<longrightarrow> elements blk ! s = elements (blocks q ! b) ! s"
    "freeListRefs blk = 0" "elementsCompletelyDequeued blk = elementsCompletelyDequeued (blocks q ! b)"
    using drain_block_spec [OF b(1,2) n(2), of 32 "take n xs"] n b(3) by auto
  let ?blk = "blk\<lparr>elementsCompletelyDequeued := of_nat (h mod 32 + n)\<rparr>"
  have c: "elementsCompletelyDequeued blk = of_nat (h mod 32)"
    using len(4) blk(5) by (auto simp: counters_def)
  have u: "unat (of_nat (h mod 32) :: u64) = h mod 32" "unat (of_nat n :: u64) = n"
    using n(2) by (auto intro!: unat_of_nat_small)
  have count: "(of_nat (h + n) - of_nat h :: u64) = of_nat n" by simp
  have "set_many_empty implicit_context (of_nat h) (of_nat n) blk = Inr (?blk, h mod 32 + n = 32)"
    using set_many_empty_implicit(1) [of blk "of_nat n" "of_nat h"] n(2) by (simp add: c u)
  moreover have "destroyed (blocks q ! b) ?blk (h mod 32) n"
    using blk by (auto simp: destroyed_def block_shape_def)
  ultimately show ?thesis
    using blk(1) b(1) count by (intro exI [of _ "put_block q b blk"] exI [of _ ?blk]) (simp add: put_block_def)
qed

lemma drain_blocks_spec:
  assumes "ip_core q (index_state p) tb others h t bs xs" "h < t" "r \<le> length xs" "r < fuel"
    "blockIndex (index_state p) = hdr # hs" "unat i = back_pos hdr (nblk t - 1 - h div 32)"
  shows "\<exists>q' ix bs'. drain_blocks fuel (of_nat (h + r)) hdr q p i (of_nat h) = Inr (q', p\<lparr>index_state := ix\<rparr>, take r xs) \<and>
     ip_core q' ix tb others (h + r) t bs' (drop r xs) \<and> (\<forall>y \<in> others. blocks q' ! y = blocks q ! y)"
  using assms
proof (induction fuel arbitrary: q p h xs bs r i)
  case (Suc fuel)
  note core = Suc.prems(1)
  obtain b bs1 hdr' hs' k where bs: "bs = b # bs1" and hd: "blockIndex (index_state p) = hdr' # hs'"
    and ring: "ring_ok (index_state p) hdr' k (nblk t) bs"
    and val: "entry_value (entry_heap (index_state p) ! back_ptr hdr' (length bs1)) = Some b"
    and b: "b < length (blocks q)" "b \<notin> others" "block_shape (blocks q ! b)" "freeListRefs (blocks q ! b) = 0"
    using core Suc.prems(2) by (rule core_lookup)
  have hdr: "hdr' = hdr" using hd Suc.prems(5) by simp
  have I: "h \<le> t" "length xs = t - h" "32 * nblk t < h + 2 ^ 63" "length bs = nblk t - h div 32"
    using core by (simp_all add: ip_core_def)
  have shape: "ring_shape (index_state p) hdr k" "length bs1 < 2 ^ k"
    using ring bs by (auto simp: ring_ok_shape hdr)
  have pos: "nblk t - 1 - h div 32 = length bs1" using I(4) bs by simp
  have entry: "header_entry (index_state p) hdr i = Inr (back_ptr hdr (length bs1))"
    using Suc.prems(6) by (intro header_entry_back [OF shape]) (simp only: pos)
  define n where "n = min r (32 - h mod 32)"
  have n: "n \<le> r" "n \<le> length xs" "h mod 32 + n \<le> 32" using Suc.prems(3) by (auto simp: n_def)
  have "r \<le> 2 ^ 63" using Suc.prems(3) I nblk_bounds(1) [of t] by simp
  then have be: "block_end (of_nat h) (of_nat (h + r)) = of_nat (h + n)" unfolding n_def by (rule block_end_of_nat)
  obtain q1 blk where dr: "drain_block 32 q b (of_nat h) (of_nat (h + n)) = Inr (q1, take n xs)" "b < length (blocks q1)"
    "set_many_empty implicit_context (of_nat h) (of_nat (h + n) - of_nat h) (blocks q1 ! b) = Inr (blk, h mod 32 + n = 32)"
    "put_block q1 b blk = put_block q b blk" "destroyed (blocks q ! b) blk (h mod 32) n"
    using drain_first [OF core [unfolded bs] n(2,3) b(1,3,4)] by blast
  have "\<exists>q2 ix bs2. release_if_empty (put_block q b blk) p (back_ptr hdr (length bs1)) b (h mod 32 + n = 32) = Inr (q2, p\<lparr>index_state := ix\<rparr>) \<and>
      ip_core q2 ix tb others (h + n) t bs2 (drop n xs) \<and> (\<forall>y \<in> others. blocks q2 ! y = blocks q ! y) \<and> blockIndex ix = hdr # hs"
  proof (cases "h mod 32 + n = 32")
    case True
    obtain q2 where q2: "add_block_to_free_list (put_block q b blk) b = Inr q2"
      "ip_core q2 (store_value (index_state p) (back_ptr hdr (length bs1)) None) tb others (h + n) t bs1 (drop n xs)"
      "\<forall>y. y \<noteq> b \<longrightarrow> blocks q2 ! y = blocks q ! y"
      using consume_end [OF core [unfolded bs] n(2) True b(1) dr(5) Suc.prems(5) ring [unfolded bs hdr]] by blast
    have "\<forall>y \<in> others. blocks q2 ! y = blocks q ! y" using q2(3) b(2) by metis
    moreover have "release_if_empty (put_block q b blk) p (back_ptr hdr (length bs1)) b (h mod 32 + n = 32)
        = Inr (q2, p\<lparr>index_state := store_value (index_state p) (back_ptr hdr (length bs1)) None\<rparr>)"
      using q2(1) True by (simp add: release_if_empty_def)
    ultimately show ?thesis using q2(2) Suc.prems(5) store_simps(2) by metis
  next
    case False
    then have "ip_core (put_block q b blk) (index_state p) tb others (h + n) t bs (drop n xs)"
      using consume_within [OF core [unfolded bs] n(2) _ b(1) dr(5)] n(3) bs by simp
    moreover have "\<forall>y \<in> others. blocks (put_block q b blk) ! y = blocks q ! y"
      using b(2) by (auto simp: nth_list_update) (metis nth_list_update_neq)
    moreover have "p = p\<lparr>index_state := index_state p\<rparr>" by simp
    ultimately show ?thesis using False Suc.prems(5) by (simp only: release_if_empty_def if_False) blast
  qed
  then obtain q2 ix bs2 where rel: "release_if_empty (put_block q b blk) p (back_ptr hdr (length bs1)) b (h mod 32 + n = 32) = Inr (q2, p\<lparr>index_state := ix\<rparr>)"
      "ip_core q2 ix tb others (h + n) t bs2 (drop n xs)" "\<forall>y \<in> others. blocks q2 ! y = blocks q ! y" "blockIndex ix = hdr # hs"
    by blast
  have step: "drain_blocks (Suc fuel) (of_nat (h + r)) hdr q p i (of_nat h) =
      (if (of_nat (h + n) :: u64) \<noteq> of_nat (h + r)
       then and_then (drain_blocks fuel (of_nat (h + r)) hdr q2 (p\<lparr>index_state := ix\<rparr>) ((i + 1) AND (capacity hdr - 1)) (of_nat (h + n)))
              (\<lambda>(q, p, more). Inr (q, p, take n xs @ more))
       else Inr (q2, p\<lparr>index_state := ix\<rparr>, take n xs))"
    unfolding drain_blocks.simps(2) Let_def be entry
    using val hdr dr(1-3) rel(1) by (simp add: dr(4))
  have "r < 2 ^ 64" using \<open>r \<le> 2 ^ 63\<close> by simp
  then have stop: "(of_nat (h + n) :: u64) = of_nat (h + r) \<longleftrightarrow> n = r"
    using of_nat_eq_add [of "r - n" "h + n"] n(1) by auto
  show ?case
  proof (cases "n = r")
    case True
    then show ?thesis using step stop rel by auto
  next
    case False
    then have end_block: "n = 32 - h mod 32" "h mod 32 + n = 32" "0 < n" "n < r"
      using n(1) mod_less_divisor [of 32 h] by (auto simp: n_def)
    have lt: "h + n < t" using end_block(4) Suc.prems(3) I(1,2) by simp
    have "Suc (nblk t - 1 - (h + n) div 32) = length bs1"
      using pos div_mod_end(1) [OF end_block(2)] div_less_nblk [OF lt] by simp
    then have pos': "unat ((i + 1) AND (capacity hdr - 1)) = back_pos hdr (nblk t - 1 - (h + n) div 32)"
      using next_position [OF shape(1), of i "nblk t - 1 - (h + n) div 32"] Suc.prems(6) shape(2) pos by simp
    have rest: "r - n \<le> length (drop n xs)" "r - n < fuel" using Suc.prems(3,4) end_block by simp_all
    have c2: "ip_core q2 (index_state (p\<lparr>index_state := ix\<rparr>)) tb others (h + n) t bs2 (drop n xs)"
      and b2: "blockIndex (index_state (p\<lparr>index_state := ix\<rparr>)) = hdr # hs"
      using rel(2,4) by simp_all
    have "\<exists>q' ix' bs'.
      drain_blocks fuel (of_nat (h + n + (r - n))) hdr q2 (p\<lparr>index_state := ix\<rparr>) ((i + 1) AND (capacity hdr - 1)) (of_nat (h + n))
         = Inr (q', (p\<lparr>index_state := ix\<rparr>)\<lparr>index_state := ix'\<rparr>, take (r - n) (drop n xs)) \<and>
      ip_core q' ix' tb others (h + n + (r - n)) t bs' (drop (r - n) (drop n xs)) \<and>
      (\<forall>y \<in> others. blocks q' ! y = blocks q2 ! y)"
      using Suc.IH [OF c2 lt rest b2 pos'] .
    then obtain q' ix' bs' where
      "drain_blocks fuel (of_nat (h + r)) hdr q2 (p\<lparr>index_state := ix\<rparr>) ((i + 1) AND (capacity hdr - 1)) (of_nat (h + n))
         = Inr (q', p\<lparr>index_state := ix'\<rparr>, take (r - n) (drop n xs))"
      "ip_core q' ix' tb others (h + r) t bs' (drop r xs)" "\<forall>y \<in> others. blocks q' ! y = blocks q2 ! y"
      using end_block(4) by auto
    moreover have "take r xs = take n xs @ take (r - n) (drop n xs)"
      using end_block(4) take_add [of n "r - n" xs] by simp
    ultimately show ?thesis using step stop False rel(3) by auto
  qed
qed simp

lemma circular_zero_less: "circular_less_than (0 :: u64) (of_nat n) \<longleftrightarrow> 0 < n" if "n < 2 ^ 63"
  using circular_less_than_nat [of 0 n] that by simp

lemma bulk_counts:
  assumes b: "length xs < 2 ^ 63" and n_def: "n = min (unat m) (length xs)"
  shows "(if of_nat (length xs) < m then of_nat (length xs) else m) = (of_nat n :: u64)" "unat (of_nat n :: u64) = n"
    "(if of_nat n < (of_nat (length xs) :: u64) then of_nat n else of_nat (length xs)) = (of_nat n :: u64)"
proof -
  have ul: "unat (of_nat (length xs) :: u64) = length xs" using b by (intro unat_of_nat_small) simp
  show "(if of_nat (length xs) < m then of_nat (length xs) else m) = (of_nat n :: u64)"
    unfolding n_def using ul by (auto simp: word_less_nat_alt min_def)
  show un: "unat (of_nat n :: u64) = n" using b by (intro unat_of_nat_small) (simp add: n_def)
  show "(if of_nat n < (of_nat (length xs) :: u64) then of_nat n else of_nat (length xs)) = (of_nat n :: u64)"
    using ul un by (auto simp: word_less_nat_alt n_def)
qed

lemma dequeue_bulk_count:
  assumes ok: "ip_ok q p others h t bs xs" and n_def: "n = min (unat m) (length xs)"
  shows "\<exists>q' p' bs'. IP_dequeue_bulk q p m = Inr (q', p', take n xs, of_nat n) \<and>
     ip_ok q' p' others (h + n) t bs' (drop n xs) \<and> (\<forall>y \<in> others. blocks q' ! y = blocks q ! y)"
proof -
  have w: "tailIndex p = of_nat t" "headIndex p = of_nat h" "dequeueOptimisticCount p - dequeueOvercommit p = of_nat h"
    and core: "ip_core q (index_state p) (tailBlock p) others h t bs xs"
    using ok by (simp_all add: ip_ok_core)
  have I: "h \<le> t" "length xs = t - h" using ok by (simp_all add: ip_ok_def)
  have b: "length xs < 2 ^ 63" using I ip_ok_bounds(1) [OF ok] by simp
  have desired: "tailIndex p - (dequeueOptimisticCount p - dequeueOvercommit p) = of_nat (length xs)"
    using w I by (simp add: of_nat_diff)
  note counts = bulk_counts [OF b n_def]
  show ?thesis
  proof (cases "xs = []")
    case True
    then have "IP_dequeue_bulk q p m = Inr (q, p, [], 0)"
      unfolding IP_dequeue_bulk_def Let_def desired using circular_zero_less [of 0] by simp
    then show ?thesis using True ok by (auto simp: n_def)
  next
    case False
    then have "0 < length xs" by simp
    then have pos: "0 < length xs" "h < t" using I by simp_all
    obtain b bs1 hdr hs k where bs: "bs = b # bs1" and ring: "blockIndex (index_state p) = hdr # hs"
      "ring_ok (index_state p) hdr k (nblk t) bs" using core pos(2) by (rule core_lookup)
    have lb: "nblk t - 1 - h div 32 < length bs"
      using div_less_nblk [OF pos(2)] core by (simp add: ip_core_def)
    obtain i where i: "get_block_index_index_for_index (index_state p) (of_nat h) = Inr (hdr, i)"
      "unat i = back_pos hdr (nblk t - 1 - h div 32)"
      using lookup_ring(1) [OF ring div_less_nblk [OF pos(2)] lb] by blast
    let ?p = "p\<lparr>dequeueOptimisticCount := dequeueOptimisticCount p + of_nat n, headIndex := of_nat (h + n)\<rparr>"
    have core': "ip_core q (index_state ?p) (tailBlock p) others h t bs xs" using core by simp
    have "blockIndex (index_state ?p) = hdr # hs" using ring(1) by simp
    then obtain q' ix bs' where dr: "drain_blocks (Suc n) (of_nat (h + n)) hdr q ?p i (of_nat h) = Inr (q', ?p\<lparr>index_state := ix\<rparr>, take n xs)"
      "ip_core q' ix (tailBlock p) others (h + n) t bs' (drop n xs)" "\<forall>y \<in> others. blocks q' ! y = blocks q ! y"
      using drain_blocks_spec [OF core' pos(2) _ _ _ i(2), of n "Suc n" hs] by (auto simp: n_def)
    have circ: "circular_less_than 0 (of_nat (length xs) :: u64) = True" using circular_zero_less [OF b] pos(1) by simp
    have fields: "tailIndex (p\<lparr>dequeueOptimisticCount := x\<rparr>) = tailIndex p"
      "headIndex (p\<lparr>dequeueOptimisticCount := x\<rparr>) = headIndex p"
      "index_state (p\<lparr>dequeueOptimisticCount := x, headIndex := y\<rparr>) = index_state p" for x y by simp_all
    have "IP_dequeue_bulk q p m = Inr (q', ?p\<lparr>index_state := ix\<rparr>, take n xs, of_nat n)"
      by (simp only: IP_dequeue_bulk_def Let_def fields desired counts circ if_True less_irrefl
          if_False w(2) of_nat_add [symmetric] i(1) dr(1) and_then_Inr prod.case)
    moreover have "ip_ok q' (?p\<lparr>index_state := ix\<rparr>) others (h + n) t bs' (drop n xs)"
      using dr(2) w by (simp add: ip_ok_core)
    ultimately show ?thesis using dr(3) by blast
  qed
qed

lemma dequeue_bulk_spec:
  assumes "ip_ok q p others h t bs xs"
  shows "\<exists>q' p' bs'. IP_dequeue_bulk q p m = Inr (q', p', take (unat m) xs, of_nat (min (unat m) (length xs))) \<and>
     ip_ok q' p' others (h + min (unat m) (length xs)) t bs' (drop (unat m) xs) \<and>
     (\<forall>y \<in> others. blocks q' ! y = blocks q ! y)"
proof -
  have "take (min (unat m) (length xs)) xs = take (unat m) xs" "drop (min (unat m) (length xs)) xs = drop (unat m) xs"
    by (auto simp: min_def)
  then show ?thesis using dequeue_bulk_count [OF assms refl, of m] by simp
qed

text \<open>
  A bulk dequeue of an implicit producer takes its first elements, in order: as many as asked
  for, or all of them when there are fewer. It returns their number, keeps the others in order, and touches no block of another producer.
\<close>

theorem implicit_dequeue_bulk:
  assumes "ip_ok q p others h t bs xs"
  shows "\<exists>q' p' bs'. IP_dequeue_bulk q p m = Inr (q', p', take (unat m) xs, of_nat (min (unat m) (length xs))) \<and>
     ip_ok q' p' others (h + min (unat m) (length xs)) t bs' (drop (unat m) xs) \<and>
     (\<forall>y \<in> others. blocks q' ! y = blocks q ! y)"
  using assms by (rule dequeue_bulk_spec)

theorem implicit_dequeue_bulk_witness:
  "\<exists>q p bs q' p' bs'. ip_ok (q :: nat BlockPool) p {} 0 3 bs [10, 20, 30] \<and>
     IP_dequeue_bulk q p 2 = Inr (q', p', [10, 20], 2) \<and> ip_ok q' p' {} 2 3 bs' [30]"
proof -
  obtain q p bs where p: "ip_ok (q :: nat BlockPool) p {} 0 3 bs [10, 20, 30]" using example_held by blast
  obtain q' p' bs' where "IP_dequeue_bulk q p 2 = Inr (q', p', [10, 20], 2)" "ip_ok q' p' {} (Suc (Suc 0)) 3 bs' [30]"
    using implicit_dequeue_bulk [OF p, of 2] by auto
  moreover from this(2) have "ip_ok q' p' {} 2 3 bs' [30]" by (simp only: numeral_2_eq_2)
  ultimately show ?thesis using p by blast
qed

section \<open>The destructor\<close>

text \<open>
  The loop over the elements left. The current block is given back when the loop enters the
  next one; the element of an index is destroyed, which needs it to be constructed.
\<close>

fun destroy_elements ::
  "nat \<Rightarrow> BlockIndex \<Rightarrow> u64 \<Rightarrow> 'a BlockPool \<Rightarrow> nat option \<Rightarrow> u64 \<Rightarrow> fault + 'a BlockPool" where
  "destroy_elements fuel ix tailEnd q block i =
     (if i = tailEnd then Inr q
      else case fuel of
          0 \<Rightarrow> Inl Diverges
        | Suc fuel \<Rightarrow>
            and_then
              (if i AND (BLOCK_SIZE - 1) = 0 \<or> block = None then
                 and_then (case block of Some b \<Rightarrow> add_block_to_free_list q b | None \<Rightarrow> Inr q) (\<lambda>q.
                 and_then (get_block_index_entry_for_index ix i) (\<lambda>entry.
                   Inr (q, entry_value (entry_heap ix ! entry))))
               else Inr (q, block)) (\<lambda>(q, block).
            case block of
              None \<Rightarrow> Inl Undefined_Behaviour
            | Some b \<Rightarrow>
                and_then (deref q (Some b)) (\<lambda>blk.
                and_then (block_get blk i) (\<lambda>_.
                  destroy_elements fuel ix tailEnd (put_block q b (block_destroy blk i)) block (i + 1)))))"

declare destroy_elements.simps [simp del]

definition ImplicitProducer_destroy :: "'a BlockPool \<Rightarrow> ImplicitProducer \<Rightarrow> fault + 'a BlockPool" where
  "ImplicitProducer_destroy q p =
     (let tail = tailIndex p;
          i = headIndex p
      in if \<not> (i = tail \<or> circular_less_than i tail) then Inl Assertion_Failed
         else let forceFreeLastBlock = (i \<noteq> tail)
              in and_then (destroy_elements (unat (tail - i)) (index_state p) tail q None i) (\<lambda>q.
                 case tailBlock p of
                   None \<Rightarrow> Inr q
                 | Some b \<Rightarrow>
                     if forceFreeLastBlock \<or> tail AND (BLOCK_SIZE - 1) \<noteq> 0 then add_block_to_free_list q b
                     else Inr q))"

text \<open>What the loop reads of the block index: the blocks \<open>bs\<close> of the indices from \<open>h\<close> to \<open>t\<close>.\<close>

definition finds :: "BlockIndex \<Rightarrow> nat \<Rightarrow> nat \<Rightarrow> nat list \<Rightarrow> bool" where
  "finds ix h t bs \<longleftrightarrow>
     (\<forall>i. h \<le> i \<and> i < t \<longrightarrow> (\<exists>e. get_block_index_entry_for_index ix (of_nat i) = Inr e \<and>
        entry_value (entry_heap ix ! e) = Some (bs ! (i div 32 - h div 32))))"

lemma position_arith:
  fixes a h n l :: nat
  shows "h \<le> a \<Longrightarrow> a < n \<Longrightarrow> l = n - h \<Longrightarrow> n - 1 - a < l"
    and "h \<le> a \<Longrightarrow> a < n \<Longrightarrow> l = n - h \<Longrightarrow> l - 1 - (n - 1 - a) = a - h"
  by arith+

lemma ip_ok_finds:
  assumes "ip_ok q p others h t bs xs"
  shows "finds (index_state p) h t bs"
  unfolding finds_def
proof (intro allI impI)
  fix i
  assume i: "h \<le> i \<and> i < t"
  then have less: "i div 32 < nblk t" "h div 32 \<le> i div 32" by (simp_all add: div_less_nblk div_le_mono)
  have I: "length bs = nblk t - h div 32" "ring_inv (index_state p) (nblk t) bs"
    using assms by (simp_all add: ip_ok_def)
  obtain hdr hs k where ring: "blockIndex (index_state p) = hdr # hs" "ring_ok (index_state p) hdr k (nblk t) bs"
    using I(2) less(1) by (auto simp: ring_inv_def split: list.splits)
  let ?j = "nblk t - 1 - i div 32"
  have j: "?j < length bs" "length bs - 1 - ?j = i div 32 - h div 32" using position_arith [OF less(2,1) I(1)] by simp_all
  have "back_entry (index_state p) hdr ?j = \<lparr>entry_key = of_nat (32 * (nblk t - 1 - ?j)), entry_value = Some (bs ! (length bs - 1 - ?j))\<rparr>"
    using ring(2) j(1) unfolding ring_ok_def by blast
  then show "\<exists>e. get_block_index_entry_for_index (index_state p) (of_nat i) = Inr e \<and>
      entry_value (entry_heap (index_state p) ! e) = Some (bs ! (i div 32 - h div 32))"
    using lookup_ring(2) [OF ring less(1) j(1)] j(2) by (simp add: back_entry_ptr)
qed

lemma finds_Suc:
  assumes "finds ix h t (b # bs)"
  shows "Suc h mod 32 \<noteq> 0 \<Longrightarrow> finds ix (Suc h) t (b # bs)" "Suc h mod 32 = 0 \<Longrightarrow> finds ix (Suc h) t bs"
proof -
  assume "Suc h mod 32 \<noteq> 0"
  then have "h mod 32 + 1 < 32" by (simp add: mod_Suc split: if_splits)
  then have "Suc h div 32 = h div 32" using div_mod_within(1) [of h 1] by simp
  then show "finds ix (Suc h) t (b # bs)" using assms unfolding finds_def by (metis Suc_leD)
next
  assume "Suc h mod 32 = 0"
  then have "h mod 32 + 1 = 32" by (simp add: mod_Suc split: if_splits)
  then have d: "Suc h div 32 = Suc (h div 32)" using div_mod_end(1) [of h 1] by simp
  show "finds ix (Suc h) t bs"
    unfolding finds_def
  proof (intro allI impI)
    fix i
    assume i: "Suc h \<le> i \<and> i < t"
    then have "Suc (h div 32) \<le> i div 32" using div_le_mono [of "Suc h" i 32] d by simp
    then have "(b # bs) ! (i div 32 - h div 32) = bs ! (i div 32 - Suc h div 32)"
      unfolding d by (simp add: nth_Cons' Suc_diff_le)
    moreover have "h \<le> i \<and> i < t" using i by simp
    ultimately show "\<exists>e. get_block_index_entry_for_index ix (of_nat i) = Inr e \<and>
        entry_value (entry_heap ix ! e) = Some (bs ! (i div 32 - Suc h div 32))"
      using assms unfolding finds_def by metis
  qed
qed

lemma destroy_elements_spec:
  assumes "pool_inv q fl (set_option cur \<union> set bs \<union> others)" "distinct bs" "set bs \<inter> others = {}"
    "\<And>c. cur = Some c \<Longrightarrow> if h mod 32 = 0 then c \<notin> set bs \<union> others else bs \<noteq> [] \<and> c = hd bs"
    "holds q bs h xs" "finds ix h t bs" "length xs = t - h" "h \<le> t" "length bs = nblk t - h div 32"
    "length xs \<le> fuel" "length xs < 2 ^ 63"
  shows "\<exists>q' fl'. destroy_elements fuel ix (of_nat t) q cur (of_nat h) = Inr q' \<and>
     pool_inv q' fl' (set_option (if bs = [] then cur else Some (last bs)) \<union> others) \<and>
     (\<forall>y \<in> others. blocks q' ! y = blocks q ! y)"
  using assms
proof (induction xs arbitrary: q fl cur bs h fuel)
  case Nil
  then have ht: "h = t" by simp
  have "set_option cur \<union> set bs \<union> others = set_option (if bs = [] then cur else Some (last bs)) \<union> others"
  proof (cases "bs = []")
    case False
    then have "t mod 32 \<noteq> 0" using Nil.prems(9) ht nblk_mod0(1) [of t] by (cases "t mod 32 = 0") auto
    then have "length bs = 1" using Nil.prems(9) ht nblk_modn(1) [of t] by simp
    then obtain b where "bs = [b]" by (auto simp: length_Suc_conv)
    then show ?thesis using Nil.prems(4) \<open>t mod 32 \<noteq> 0\<close> ht by (cases cur) auto
  qed simp
  then show ?case using Nil.prems(1) ht by (auto simp: destroy_elements.simps)
next
  case (Cons x xs)
  have lt: "h < t" using Cons.prems(7) by simp
  obtain b bs' where bs: "bs = b # bs'" using Cons.prems(9) div_less_nblk [OF lt] by (cases bs) auto
  obtain f where f: "fuel = Suc f" "length xs \<le> f" using Cons.prems(10) by (cases fuel) auto
  have "t - h < 2 ^ 64" using Cons.prems(7,11) by simp
  then have neq: "(of_nat h :: u64) \<noteq> of_nat t" using of_nat_eq_add [of "t - h" h] lt by simp
  obtain e where e: "get_block_index_entry_for_index ix (of_nat h) = Inr e" "entry_value (entry_heap ix ! e) = Some b"
    using Cons.prems(6) lt bs by (auto simp: finds_def)
  have mask: "(of_nat h AND 31 :: u64) = 0 \<longleftrightarrow> h mod 32 = 0" by (rule of_nat_and_31)
  have "\<exists>q1 fl1. (if (of_nat h AND 31 :: u64) = 0 \<or> cur = None then
        and_then (case cur of Some b \<Rightarrow> add_block_to_free_list q b | None \<Rightarrow> Inr q) (\<lambda>q.
        and_then (get_block_index_entry_for_index ix (of_nat h)) (\<lambda>entry. Inr (q, entry_value (entry_heap ix ! entry))))
      else Inr (q, cur)) = Inr (q1, Some b) \<and> pool_inv q1 fl1 (set bs \<union> others) \<and>
      (\<forall>y \<in> set bs \<union> others. blocks q1 ! y = blocks q ! y)"
  proof (cases cur)
    case None
    then show ?thesis using e Cons.prems(1) by auto
  next
    case (Some c)
    show ?thesis
    proof (cases "h mod 32 = 0")
      case True
      then have c: "c \<notin> set bs \<union> others" using Cons.prems(4) Some by simp
      obtain q1 where q1: "add_block_to_free_list q c = Inr q1" "pool_inv q1 (c # fl) (set_option cur \<union> set bs \<union> others - {c})"
        "\<forall>x. x \<noteq> c \<longrightarrow> blocks q1 ! x = blocks q ! x"
        using add_block_to_free_list_spec [OF Cons.prems(1), of c] Some by auto
      moreover have "set_option cur \<union> set bs \<union> others - {c} = set bs \<union> others" using c Some by auto
      moreover have "\<forall>y \<in> set bs \<union> others. blocks q1 ! y = blocks q ! y" using q1(3) c by metis
      ultimately show ?thesis using True Some e mask by auto
    next
      case False
      then have "c = b" using Cons.prems(4) Some bs by simp
      then have "set_option cur \<union> set bs \<union> others = set bs \<union> others" using Some bs by auto
      then show ?thesis using False Some mask Cons.prems(1) \<open>c = b\<close> by auto
    qed
  qed
  then obtain q1 fl1 where q1: "(if (of_nat h AND 31 :: u64) = 0 \<or> cur = None then
        and_then (case cur of Some b \<Rightarrow> add_block_to_free_list q b | None \<Rightarrow> Inr q) (\<lambda>q.
        and_then (get_block_index_entry_for_index ix (of_nat h)) (\<lambda>entry. Inr (q, entry_value (entry_heap ix ! entry))))
      else Inr (q, cur)) = Inr (q1, Some b)" "pool_inv q1 fl1 (set bs \<union> others)"
      "\<And>y. y \<in> set bs \<union> others \<Longrightarrow> blocks q1 ! y = blocks q ! y" by blast
  have b: "b < length (blocks q1)" "freeListRefs (blocks q1 ! b) = 0" "block_shape (blocks q1 ! b)"
    using pool_invD(4,8) [OF q1(2)] bs by (auto simp: list_all_length)
  let ?blk = "block_destroy (blocks q1 ! b) (of_nat h)"
  let ?q = "put_block q1 b ?blk"
  have inv: "pool_inv ?q fl1 (set bs \<union> others)"
    using q1(2) bs b by (intro pool_inv_put_block) (auto simp: block_destroy_def block_shape_def)
  have idx: "(h + i) div 32 - h div 32 < length (b # bs')" if "i < length (x # xs)" for i
  proof -
    have "h + i < t" using that Cons.prems(7) by simp
    then show ?thesis using div_less_nblk [of "h + i" t] div_le_mono [of h "h + i" 32] Cons.prems(9) bs
      by (simp add: diff_less_mono)
  qed
  have hold: "holds q1 (b # bs') h (x # xs)"
    using holds_cong [of "b # bs'" q1 q "x # xs" h "[]", OF _ idx] q1(3) Cons.prems(5) bs by auto
  have "elements (blocks q1 ! b) ! (h mod 32) = Some x" using hold by (auto simp: holds_def)
  then have get: "block_get (blocks q1 ! b) (of_nat h) = Inr x"
    using b(3) by (simp add: block_get_def block_shape_def unat_of_nat_mod_32)
  have step: "destroy_elements fuel ix (of_nat t) q cur (of_nat h) = destroy_elements f ix (of_nat t) ?q (Some b) (of_nat (Suc h))"
    by (subst destroy_elements.simps) (simp add: neq f(1) q1(1) b(1) get add.commute del: of_nat_and_31)
  have out: "b \<notin> others" "b \<notin> set bs'" using Cons.prems(2,3) bs by auto
  have same: "blocks ?q ! y = blocks q ! y" if "y \<in> others" for y
    using q1(3) [of y] that out(1) by (cases "y = b") simp_all
  have IH: "\<exists>q' fl'. destroy_elements f ix (of_nat t) ?q (Some b) (of_nat (Suc h)) = Inr q' \<and>
     pool_inv q' fl' (set_option (if bs2 = [] then Some b else Some (last bs2)) \<union> others) \<and>
     (\<forall>y \<in> others. blocks q' ! y = blocks ?q ! y)"
    if "set_option (Some b) \<union> set bs2 \<union> others = set bs \<union> others" "distinct bs2" "set bs2 \<inter> others = {}"
      "if Suc h mod 32 = 0 then b \<notin> set bs2 \<union> others else bs2 \<noteq> [] \<and> b = hd bs2"
      "holds ?q bs2 (Suc h) xs" "finds ix (Suc h) t bs2" "length bs2 = nblk t - Suc h div 32" for bs2
    using Cons.IH [of ?q fl1 "Some b" bs2 "Suc h" f] that inv Cons.prems(7,8,11) lt f(2) by simp
  have "\<exists>bs2. set_option (Some b) \<union> set bs2 \<union> others = set bs \<union> others \<and> distinct bs2 \<and> set bs2 \<inter> others = {} \<and>
      (if Suc h mod 32 = 0 then b \<notin> set bs2 \<union> others else bs2 \<noteq> [] \<and> b = hd bs2) \<and>
      holds ?q bs2 (Suc h) xs \<and> finds ix (Suc h) t bs2 \<and> length bs2 = nblk t - Suc h div 32 \<and>
      last bs = (if bs2 = [] then b else last bs2)"
  proof (cases "Suc h mod 32 = 0")
    case True
    then have e32: "h mod 32 + 1 = 32" by (simp add: mod_Suc split: if_splits)
    have "blocks ?q ! y = blocks q1 ! y" if "y \<in> set bs'" for y using that out(2) by (cases "y = b") simp_all
    then have "holds ?q bs' (h + 1) (drop 1 (x # xs))" using holds_drop_end [OF hold e32 idx] by blast
    moreover have "length bs' = nblk t - Suc h div 32" using Cons.prems(9) bs div_mod_end(1) [OF e32] by simp
    ultimately show ?thesis using True out bs Cons.prems(2,3,6) finds_Suc(2) [of ix h t b bs']
      by (intro exI [of _ bs']) auto
  next
    case False
    then have e32: "h mod 32 + 1 < 32" by (simp add: mod_Suc split: if_splits)
    have "elements ?blk ! s = elements (blocks q1 ! b) ! s" if "s \<notin> {h mod 32..<h mod 32 + 1}" for s
      using that by (simp add: block_destroy_def unat_of_nat_mod_32)
    then have "holds ?q bs (h + 1) (drop 1 (x # xs))"
      using holds_drop_within [OF hold _ e32 b(1) idx] Cons.prems(2) bs by simp
    moreover have "length bs = nblk t - Suc h div 32" using Cons.prems(9) div_mod_within(1) [OF e32] by simp
    ultimately show ?thesis using False bs Cons.prems(2,3,6) finds_Suc(1) [of ix h t b bs']
      by (intro exI [of _ bs]) auto
  qed
  then obtain bs2 where bs2: "set_option (Some b) \<union> set bs2 \<union> others = set bs \<union> others" "distinct bs2" "set bs2 \<inter> others = {}"
      "if Suc h mod 32 = 0 then b \<notin> set bs2 \<union> others else bs2 \<noteq> [] \<and> b = hd bs2"
      "holds ?q bs2 (Suc h) xs" "finds ix (Suc h) t bs2" "length bs2 = nblk t - Suc h div 32"
      "last bs = (if bs2 = [] then b else last bs2)" by blast
  have "(if bs = [] then cur else Some (last bs)) = (if bs2 = [] then Some b else Some (last bs2))"
    using bs bs2(8) by simp
  then show ?case using IH [OF bs2(1-7)] step same by simp
qed

lemma destroy_producer:
  assumes ok: "ip_ok q p others h t bs xs"
  shows "\<exists>q' fl. ImplicitProducer_destroy q p = Inr q' \<and> pool_inv q' fl others \<and>
     (\<forall>y \<in> others. blocks q' ! y = blocks q ! y)"
proof -
  have w: "tailIndex p = of_nat t" "headIndex p = of_nat h" using ok by (simp_all add: ip_ok_def)
  have I: "h \<le> t" "length xs = t - h" "length bs = nblk t - h div 32" "distinct bs" "set bs \<inter> others = {}"
    "bs \<noteq> [] \<longrightarrow> tailBlock p = Some (last bs)" "holds q bs h xs"
    using ok by (simp_all add: ip_ok_def)
  obtain fl where inv: "pool_inv q fl (set_option None \<union> set bs \<union> others)" using ok by (auto simp: ip_ok_def)
  have b: "t < h + 2 ^ 63" by (rule ip_ok_bounds [OF ok])
  then have n: "unat (of_nat t - of_nat h :: u64) = t - h" "length xs < 2 ^ 63"
    using I(1,2) unat_of_nat_diff [of h t, where 'a = 64] by simp_all
  have eq: "(of_nat h :: u64) = of_nat t \<longleftrightarrow> h = t" using of_nat_eq_add [of "t - h" h] I(1) b by auto
  have ord: "h = t \<or> circular_less_than (of_nat h :: u64) (of_nat t)" using circular_less_than_nat [of h t] I(1) b by auto
  obtain q1 fl1 where q1: "destroy_elements (t - h) (index_state p) (of_nat t) q None (of_nat h) = Inr q1"
    "pool_inv q1 fl1 (set_option (if bs = [] then None else Some (last bs)) \<union> others)" "\<forall>y \<in> others. blocks q1 ! y = blocks q ! y"
    using destroy_elements_spec [OF inv I(4,5) _ I(7) ip_ok_finds [OF ok] I(2,1,3), of "t - h"] I(2) n(2) by auto
  have run: "ImplicitProducer_destroy q p = (case tailBlock p of None \<Rightarrow> Inr q1
      | Some b \<Rightarrow> if h \<noteq> t \<or> t mod 32 \<noteq> 0 then add_block_to_free_list q1 b else Inr q1)"
    unfolding ImplicitProducer_destroy_def Let_def w n(1) q1(1) and_then_Inr eq
    using ord of_nat_and_31 [of t] by (auto split: option.splits)
  show ?thesis
  proof (cases "bs = []")
    case True
    then have "\<not> h div 32 < nblk t" using I(3) by simp
    then have "h = t" using div_less_nblk [of h t] I(1) by (cases "h = t") auto
    then have "t mod 32 = 0" using nblk_modn(1) [of t] True I(3) by (cases "t mod 32 = 0") auto
    then have "ImplicitProducer_destroy q p = Inr q1" using run \<open>h = t\<close> by (auto split: option.splits)
    then show ?thesis using q1(2,3) True by auto
  next
    case False
    then have "h \<noteq> t \<or> t mod 32 \<noteq> 0" using I(3) nblk_mod0(1) [of t] by (cases "t mod 32 = 0") auto
    then have "ImplicitProducer_destroy q p = add_block_to_free_list q1 (last bs)" using run False I(6) by simp
    moreover obtain q2 where q2: "add_block_to_free_list q1 (last bs) = Inr q2"
      "pool_inv q2 (last bs # fl1) (set_option (if bs = [] then None else Some (last bs)) \<union> others - {last bs})"
      "\<forall>x. x \<noteq> last bs \<longrightarrow> blocks q2 ! x = blocks q1 ! x"
      using add_block_to_free_list_spec [OF q1(2), of "last bs"] False by auto
    moreover have out: "last bs \<notin> others" using last_in_set [OF False] I(5) by auto
    then have "set_option (if bs = [] then None else Some (last bs)) \<union> others - {last bs} = others"
      using False by auto
    moreover have "\<forall>y \<in> others. blocks q2 ! y = blocks q ! y" using out q2(3) q1(3) by metis
    ultimately show ?thesis by auto
  qed
qed

text \<open>
  Destroying an implicit producer never faults: it finds the block of every element left and destroys only
  elements that are constructed, and every block of the producer goes back to the pool, once, so that what is left in use
  are the blocks of the other producers, which are not touched.
\<close>

theorem implicit_producer_destroy:
  assumes "ip_ok q p others h t bs xs"
  shows "\<exists>q' fl. ImplicitProducer_destroy q p = Inr q' \<and> pool_inv q' fl others \<and>
     (\<forall>y \<in> others. blocks q' ! y = blocks q ! y)"
  using assms by (rule destroy_producer)

theorem implicit_producer_destroy_witness:
  "\<exists>q p bs q' fl. ip_ok (q :: nat BlockPool) p {} 0 3 bs [10, 20, 30] \<and>
     ImplicitProducer_destroy q p = Inr q' \<and> pool_inv q' fl {}"
proof -
  obtain q p bs where p: "ip_ok (q :: nat BlockPool) p {} 0 3 bs [10, 20, 30]" using example_held by blast
  then show ?thesis using implicit_producer_destroy [OF p] by blast
qed

end
