(* ===== verification/CQ_FreeList.thy ===== *)
theory CQ_FreeList
  imports CQ_BlockIndex
begin

text \<open>
  The lock-free free list of blocks under contention (\<^verbatim>\<open>struct FreeList\<close> of
  \<^verbatim>\<open>src/utils/concurrentqueue-1.0.3/concurrentqueue.h\<close>): any number of threads run \<^verbatim>\<open>add\<close> and
  \<^verbatim>\<open>try_get\<close>, one atomic access to shared memory at a time, in any interleaving. Memory is
  sequentially consistent.

  A thread is a program counter whose arguments are the local variables that are live at that
  point; \<open>held\<close> are the nodes a thread has taken or was given at the start, which are the ones it may add. The 32-bit word \<^verbatim>\<open>freeListRefs\<close> of a node
  is a counter of the references to it and, in its top bit, the wish to put it on the list.

  The invariant counts, for every node, the references that the list and the threads have, and
  gives every node exactly one place: held by a thread, being added or taken by one, on the list, or
  waiting for the last reference to go. It follows that no node is ever held twice, none is lost, and the
  assertion in \<^verbatim>\<open>try_get\<close> never fails.
\<close>

section \<open>The machine\<close>

datatype fl_pc =
    Idle
  | Add_Fetch nat
  | AK_Load nat "nat option option"
  | AK_Next nat "nat option" "nat option option"
  | AK_Refs nat "nat option" "nat option option"
  | AK_CAS nat "nat option" "nat option option"
  | AK_Back nat "nat option" "nat option option"
  | TG_Load
  | TG_Test "nat option"
  | TG_CAS_refs nat u32
  | TG_Next nat
  | TG_CAS_head nat "nat option"
  | TG_Got nat
  | TG_Sub nat
  | TG_Dec nat "nat option"
  | Assertion_Fault

datatype fl_choice = Do_Get | Do_Add nat

record FreeList =
  fl_head :: "nat option"
  fl_refs :: "nat \<Rightarrow> u32"
  fl_next :: "nat \<Rightarrow> nat option"
  fl_pcs :: "fl_pc list"
  held :: "nat list list"

text \<open>
  \<^verbatim>\<open>add_knowing_refcount_is_zero\<close> is called at the end of \<^verbatim>\<open>add\<close> and in the loop of \<^verbatim>\<open>try_get\<close>, which goes on with
  the head it has read.
\<close>

definition fl_return :: "nat option option \<Rightarrow> fl_pc" where
  "fl_return k = (case k of None \<Rightarrow> Idle | Some head \<Rightarrow> TG_Test head)"

definition set_pc :: "nat \<Rightarrow> fl_pc \<Rightarrow> FreeList \<Rightarrow> FreeList" where
  "set_pc t p s = s\<lparr>fl_pcs := (fl_pcs s)[t := p]\<rparr>"

definition set_refs :: "nat \<Rightarrow> u32 \<Rightarrow> FreeList \<Rightarrow> FreeList" where
  "set_refs n r s = s\<lparr>fl_refs := (fl_refs s)(n := r)\<rparr>"

text \<open>The atomic steps of \<^verbatim>\<open>add\<close> and \<^verbatim>\<open>add_knowing_refcount_is_zero\<close>.\<close>

fun add_step :: "nat \<Rightarrow> fl_pc \<Rightarrow> FreeList \<Rightarrow> FreeList" where
  "add_step t (Add_Fetch node) s =
     (let refs = fl_refs s node
      in set_pc t (if refs = 0 then AK_Load node None else Idle) (set_refs node (refs + SHOULD_BE_ON_FREELIST) s))"
| "add_step t (AK_Load node k) s = set_pc t (AK_Next node (fl_head s) k) s"
| "add_step t (AK_Next node head k) s =
     set_pc t (AK_Refs node head k) (s\<lparr>fl_next := (fl_next s)(node := head)\<rparr>)"
| "add_step t (AK_Refs node head k) s = set_pc t (AK_CAS node head k) (set_refs node 1 s)"
| "add_step t (AK_CAS node head k) s =
     (if fl_head s = head then set_pc t (fl_return k) (s\<lparr>fl_head := Some node\<rparr>)
      else set_pc t (AK_Back node (fl_head s) k) s)"
| "add_step t (AK_Back node head k) s =
     (let refs = fl_refs s node
      in set_pc t (if refs = 1 then AK_Next node head k else fl_return k)
           (set_refs node (refs + (SHOULD_BE_ON_FREELIST - 1)) s))"
| "add_step t p s = s"

text \<open>The atomic steps of \<^verbatim>\<open>try_get\<close>.\<close>

fun try_get_step :: "nat \<Rightarrow> fl_pc \<Rightarrow> FreeList \<Rightarrow> FreeList" where
  "try_get_step t TG_Load s = set_pc t (TG_Test (fl_head s)) s"
| "try_get_step t (TG_Test head) s =
     (case head of
        None \<Rightarrow> set_pc t Idle s
      | Some node \<Rightarrow> set_pc t (TG_CAS_refs node (fl_refs s node)) s)"
| "try_get_step t (TG_CAS_refs node refs) s =
     (if refs AND REFS_MASK = 0 \<or> fl_refs s node \<noteq> refs then set_pc t TG_Load s
      else set_pc t (TG_Next node) (set_refs node (refs + 1) s))"
| "try_get_step t (TG_Next node) s = set_pc t (TG_CAS_head node (fl_next s node)) s"
| "try_get_step t (TG_CAS_head node next_node) s =
     (if fl_head s = Some node then set_pc t (TG_Got node) (s\<lparr>fl_head := next_node\<rparr>)
      else set_pc t (TG_Dec node (fl_head s)) s)"
| "try_get_step t (TG_Got node) s =
     set_pc t (if fl_refs s node AND SHOULD_BE_ON_FREELIST = 0 then TG_Sub node else Assertion_Fault) s"
| "try_get_step t (TG_Sub node) s =
     set_pc t Idle (set_refs node (fl_refs s node - 2) (s\<lparr>held := (held s)[t := node # held s ! t]\<rparr>))"
| "try_get_step t (TG_Dec node head) s =
     (let refs = fl_refs s node
      in set_pc t (if refs = SHOULD_BE_ON_FREELIST + 1 then AK_Load node (Some head) else TG_Test head)
           (set_refs node (refs - 1) s))"
| "try_get_step t p s = s"

text \<open>An idle thread starts an operation: it may add a node it holds.\<close>

definition idle_step :: "nat \<Rightarrow> fl_choice \<Rightarrow> FreeList \<Rightarrow> FreeList" where
  "idle_step t c s =
     (case c of
        Do_Get \<Rightarrow> set_pc t TG_Load s
      | Do_Add node \<Rightarrow>
          if node \<in> set (held s ! t)
          then set_pc t (Add_Fetch node) (s\<lparr>held := (held s)[t := remove1 node (held s ! t)]\<rparr>) else s)"

definition is_add_pc :: "fl_pc \<Rightarrow> bool" where
  "is_add_pc p = (case p of Add_Fetch _ \<Rightarrow> True | AK_Load _ _ \<Rightarrow> True | AK_Next _ _ _ \<Rightarrow> True
     | AK_Refs _ _ _ \<Rightarrow> True | AK_CAS _ _ _ \<Rightarrow> True | AK_Back _ _ _ \<Rightarrow> True | _ \<Rightarrow> False)"

definition fl_step :: "nat \<times> fl_choice \<Rightarrow> FreeList \<Rightarrow> FreeList" where
  "fl_step e s =
     (let t = fst e
      in if t < length (fl_pcs s) then
           let p = fl_pcs s ! t
           in if p = Idle then idle_step t (snd e) s
              else if is_add_pc p then add_step t p s else try_get_step t p s
         else s)"

text \<open>A run of the machine: which thread takes the next step, and what an idle one does.\<close>

definition fl_run :: "(nat \<times> fl_choice) list \<Rightarrow> FreeList \<Rightarrow> FreeList" where
  "fl_run sched s = fold fl_step sched s"

definition fl_start :: "nat list list \<Rightarrow> FreeList" where
  "fl_start hs = \<lparr>fl_head = None, fl_refs = (\<lambda>_. 0), fl_next = (\<lambda>_. None),
                  fl_pcs = replicate (length hs) Idle, held = hs\<rparr>"

section \<open>The invariant\<close>

text \<open>The references a thread has to a node; taking a node off the list gives its thread that of the list too.\<close>

fun weight :: "fl_pc \<Rightarrow> nat \<Rightarrow> nat" where
  "weight (AK_CAS node _ _) n = (if node = n then 1 else 0)"
| "weight (AK_Back node _ _) n = (if node = n then 1 else 0)"
| "weight (TG_Next node) n = (if node = n then 1 else 0)"
| "weight (TG_CAS_head node _) n = (if node = n then 1 else 0)"
| "weight (TG_Dec node _) n = (if node = n then 1 else 0)"
| "weight (TG_Got node) n = (if node = n then 2 else 0)"
| "weight (TG_Sub node) n = (if node = n then 2 else 0)"
| "weight _ n = 0"

text \<open>A thread that adds a node or has taken one off the list is in charge of it.\<close>

fun charge :: "fl_pc \<Rightarrow> nat \<Rightarrow> nat" where
  "charge (Add_Fetch node) n = (if node = n then 1 else 0)"
| "charge (AK_Load node _) n = (if node = n then 1 else 0)"
| "charge (AK_Next node _ _) n = (if node = n then 1 else 0)"
| "charge (AK_Refs node _ _) n = (if node = n then 1 else 0)"
| "charge (AK_CAS node _ _) n = (if node = n then 1 else 0)"
| "charge (AK_Back node _ _) n = (if node = n then 1 else 0)"
| "charge (TG_Got node) n = (if node = n then 1 else 0)"
| "charge (TG_Sub node) n = (if node = n then 1 else 0)"
| "charge _ n = 0"

text \<open>Before the count of the node is set to one.\<close>

fun early :: "fl_pc \<Rightarrow> nat \<Rightarrow> bool" where
  "early (AK_Load node _) n \<longleftrightarrow> node = n"
| "early (AK_Next node _ _) n \<longleftrightarrow> node = n"
| "early (AK_Refs node _ _) n \<longleftrightarrow> node = n"
| "early _ n \<longleftrightarrow> False"

text \<open>What a thread knows of the next pointer of its node.\<close>

fun knows_next :: "(nat \<Rightarrow> nat option) \<Rightarrow> fl_pc \<Rightarrow> bool" where
  "knows_next nx (AK_Refs node head _) \<longleftrightarrow> nx node = head"
| "knows_next nx (AK_CAS node head _) \<longleftrightarrow> nx node = head"
| "knows_next nx (TG_CAS_head node next_node) \<longleftrightarrow> nx node = next_node"
| "knows_next nx _ \<longleftrightarrow> True"

fun linked :: "(nat \<Rightarrow> nat option) \<Rightarrow> nat option \<Rightarrow> nat list \<Rightarrow> bool" where
  "linked nx p [] \<longleftrightarrow> p = None"
| "linked nx p (x # xs) \<longleftrightarrow> p = Some x \<and> linked nx (nx x) xs"

definition refs_to :: "FreeList \<Rightarrow> nat list \<Rightarrow> nat \<Rightarrow> nat" where
  "refs_to s fl n = (if n \<in> set fl then 1 else 0) + (\<Sum>p\<leftarrow>fl_pcs s. weight p n)"

definition places :: "FreeList \<Rightarrow> nat list \<Rightarrow> nat set \<Rightarrow> nat \<Rightarrow> nat" where
  "places s fl pd n = (if n \<in> set fl then 1 else 0) + (if n \<in> pd then 1 else 0) +
     (\<Sum>p\<leftarrow>fl_pcs s. charge p n) + (\<Sum>h\<leftarrow>held s. count_list h n)"

definition flagged :: "FreeList \<Rightarrow> nat set \<Rightarrow> nat \<Rightarrow> bool" where
  "flagged s pd n \<longleftrightarrow> n \<in> pd \<or> (\<exists>t < length (fl_pcs s). early (fl_pcs s ! t) n)"

text \<open>
  \<open>fl\<close> are the nodes on the list and \<open>pd\<close> the ones that wait for their last reference; \<open>ns\<close> are all nodes.
\<close>

definition fl_inv :: "nat set \<Rightarrow> FreeList \<Rightarrow> nat list \<Rightarrow> nat set \<Rightarrow> bool" where
  "fl_inv ns s fl pd \<longleftrightarrow>
     length (fl_pcs s) = length (held s) \<and> length (fl_pcs s) < 2 ^ 29 \<and>
     linked (fl_next s) (fl_head s) fl \<and> distinct fl \<and>
     (\<forall>n. places s fl pd n = (if n \<in> ns then 1 else 0)) \<and>
     (\<forall>n. fl_refs s n = of_nat (refs_to s fl n) + (if flagged s pd n then SHOULD_BE_ON_FREELIST else 0)) \<and>
     (\<forall>n \<in> pd. 0 < refs_to s fl n) \<and>
     (\<forall>t < length (fl_pcs s). \<forall>n. early (fl_pcs s ! t) n \<longrightarrow> refs_to s fl n = 0) \<and>
     (\<forall>t < length (fl_pcs s). knows_next (fl_next s) (fl_pcs s ! t)) \<and>
     (\<forall>t < length (fl_pcs s). fl_pcs s ! t \<noteq> Assertion_Fault)"

subsection \<open>Counting\<close>

lemma sum_upd:
  fixes f :: "'a \<Rightarrow> nat"
  assumes "t < length xs"
  shows "(\<Sum>x\<leftarrow>xs[t := y]. f x) + f (xs ! t) = (\<Sum>x\<leftarrow>xs. f x) + f y"
  using assms
proof (induction xs arbitrary: t)
  case (Cons x xs)
  then show ?case by (cases t) auto
qed simp

lemma sum_member:
  fixes f :: "'a \<Rightarrow> nat"
  assumes "t < length xs"
  shows "f (xs ! t) \<le> (\<Sum>x\<leftarrow>xs. f x)"
  using assms by (induction xs arbitrary: t) (auto simp: less_Suc_eq_0_disj trans_le_add2)

lemma sum_two:
  fixes f :: "'a \<Rightarrow> nat"
  assumes "t < length xs" "u < length xs" "t \<noteq> u"
  shows "f (xs ! t) + f (xs ! u) \<le> (\<Sum>x\<leftarrow>xs. f x)"
  using assms
proof (induction xs arbitrary: t u)
  case (Cons x xs)
  then show ?case using sum_member [of _ xs f] by (cases t; cases u) (auto simp: add.commute trans_le_add2)
qed simp

lemma weight_le: "weight p n \<le> 2"
  by (induction p n rule: weight.induct) auto

lemma sum_weight_le: "(\<Sum>p\<leftarrow>ps. weight p n) \<le> 2 * length ps"
proof (induction ps)
  case (Cons p ps)
  then show ?case using weight_le [of p n] by simp
qed simp

lemma early_charge: "early p n \<Longrightarrow> charge p n = 1 \<and> weight p n = 0"
  by (induction p n rule: early.induct) auto

lemma refs_to_bound: "fl_inv ns s fl pd \<Longrightarrow> refs_to s fl n < 2 ^ 31 - 2"
  using sum_weight_le [of n "fl_pcs s"] by (auto simp: fl_inv_def refs_to_def)

lemma refs_to_upd:
  assumes "t < length (fl_pcs s)" "fl_pcs s' = (fl_pcs s)[t := p']"
  shows "refs_to s' fl' n + weight (fl_pcs s ! t) n + (if n \<in> set fl then 1 else 0)
       = refs_to s fl n + weight p' n + (if n \<in> set fl' then 1 else 0)"
  using sum_upd [OF assms(1), of "\<lambda>p. weight p n" p'] by (simp add: refs_to_def assms(2))

lemma in_charge:
  assumes "fl_inv ns s fl pd" "t < length (fl_pcs s)" "charge (fl_pcs s ! t) n = 1"
  shows "n \<notin> set fl" "n \<notin> pd" "u < length (fl_pcs s) \<Longrightarrow> u \<noteq> t \<Longrightarrow> \<not> early (fl_pcs s ! u) n"
proof -
  have one: "places s fl pd n \<le> 1" using assms(1) by (simp add: fl_inv_def)
  have "1 \<le> (\<Sum>p\<leftarrow>fl_pcs s. charge p n)" using sum_member [OF assms(2), of "\<lambda>p. charge p n"] assms(3) by simp
  then show "n \<notin> set fl" "n \<notin> pd" using one by (auto simp: places_def split: if_splits)
  assume u: "u < length (fl_pcs s)" "u \<noteq> t"
  show "\<not> early (fl_pcs s ! u) n"
  proof
    assume "early (fl_pcs s ! u) n"
    then have "2 \<le> (\<Sum>p\<leftarrow>fl_pcs s. charge p n)"
      using sum_two [OF assms(2) u(1), of "\<lambda>p. charge p n"] u(2) assms(3) early_charge by fastforce
    then show False using one by (simp add: places_def)
  qed
qed

subsection \<open>One step of one thread\<close>

lemma set_simps [simp]:
  "fl_pcs (set_pc t p s) = (fl_pcs s)[t := p]" "fl_head (set_pc t p s) = fl_head s" "fl_refs (set_pc t p s) = fl_refs s"
  "fl_next (set_pc t p s) = fl_next s" "held (set_pc t p s) = held s"
  "fl_pcs (set_refs n r s) = fl_pcs s" "fl_head (set_refs n r s) = fl_head s" "fl_refs (set_refs n r s) = (fl_refs s)(n := r)"
  "fl_next (set_refs n r s) = fl_next s" "held (set_refs n r s) = held s"
  by (simp_all add: set_pc_def set_refs_def)

definition early_other :: "FreeList \<Rightarrow> nat \<Rightarrow> nat \<Rightarrow> bool" where
  "early_other s t n \<longleftrightarrow> (\<exists>u < length (fl_pcs s). u \<noteq> t \<and> early (fl_pcs s ! u) n)"

lemma flagged_split: "t < length (fl_pcs s) \<Longrightarrow> flagged s pd n \<longleftrightarrow> n \<in> pd \<or> early (fl_pcs s ! t) n \<or> early_other s t n"
  by (auto simp: flagged_def early_other_def)

lemma step_preserves:
  assumes inv: "fl_inv ns s fl pd" and t: "t < length (fl_pcs s)"
    and pcs: "fl_pcs s' = (fl_pcs s)[t := p']" and held: "length (held s') = length (held s)"
    and link: "linked (fl_next s') (fl_head s') fl'" "distinct fl'"
    and place: "\<And>n. (if n \<in> set fl' then 1 else 0) + (if n \<in> pd' then 1 else 0) + charge p' n + (\<Sum>h\<leftarrow>held s'. count_list h n)
        = (if n \<in> set fl then 1 else 0) + (if n \<in> pd then 1 else 0) + charge (fl_pcs s ! t) n + (\<Sum>h\<leftarrow>held s. count_list h n)"
    and refs: "\<And>n. fl_refs s' n = of_nat (refs_to s' fl' n) +
        (if n \<in> pd' \<or> early p' n \<or> early_other s t n then SHOULD_BE_ON_FREELIST else 0)"
    and pd: "\<And>n. n \<in> pd' \<Longrightarrow> 0 < refs_to s' fl' n"
    and early: "\<And>n. early p' n \<or> early_other s t n \<Longrightarrow> refs_to s' fl' n = 0"
    and knows: "knows_next (fl_next s') p'" "\<And>u. u < length (fl_pcs s) \<Longrightarrow> u \<noteq> t \<Longrightarrow> knows_next (fl_next s') (fl_pcs s ! u)"
    and ok: "p' \<noteq> Assertion_Fault"
  shows "fl_inv ns s' fl' pd'"
proof -
  have "places s' fl' pd' n = places s fl pd n" for n
    using place [of n] sum_upd [OF t, of "\<lambda>p. charge p n" p'] by (simp add: places_def pcs)
  moreover have "flagged s' pd' n \<longleftrightarrow> n \<in> pd' \<or> early p' n \<or> early_other s t n" for n
    using t by (auto simp: flagged_def early_other_def pcs nth_list_update)
  moreover have "refs_to s' fl' n = 0" if "u < length (fl_pcs s')" "early (fl_pcs s' ! u) n" for u n
    using that t early [of n] by (cases "u = t") (auto simp: pcs early_other_def)
  moreover have "knows_next (fl_next s') (fl_pcs s' ! u)" if "u < length (fl_pcs s')" for u
    using that t knows by (cases "u = t") (auto simp: pcs)
  moreover have "fl_pcs s' ! u \<noteq> Assertion_Fault" if "u < length (fl_pcs s')" for u
    using that t ok inv by (cases "u = t") (auto simp: pcs fl_inv_def)
  ultimately show ?thesis
    using inv held link refs pd by (simp add: fl_inv_def pcs)
qed

lemma step_local:
  assumes inv: "fl_inv ns s fl pd" and t: "t < length (fl_pcs s)"
    and same: "\<And>n. weight p' n = weight (fl_pcs s ! t) n" "\<And>n. charge p' n = charge (fl_pcs s ! t) n"
      "\<And>n. early p' n = early (fl_pcs s ! t) n"
    and knows: "knows_next (fl_next s) p'" "p' \<noteq> Assertion_Fault"
  shows "fl_inv ns (set_pc t p' s) fl pd"
proof -
  let ?s = "set_pc t p' s"
  have pcs: "fl_pcs ?s = (fl_pcs s)[t := p']" by simp
  have refs: "refs_to ?s fl n = refs_to s fl n" for n
    using refs_to_upd [OF t pcs, of fl n fl] same(1) [of n] by simp
  show ?thesis
    using inv t pcs
  proof (rule step_preserves [where p' = p'])
    fix n
    show "fl_refs ?s n = of_nat (refs_to ?s fl n) + (if n \<in> pd \<or> early p' n \<or> early_other s t n then SHOULD_BE_ON_FREELIST else 0)"
      using inv flagged_split [OF t, of pd n] by (simp add: refs same(3) fl_inv_def)
    show "0 < refs_to ?s fl n" if "n \<in> pd" using inv that by (simp add: refs fl_inv_def)
    show "refs_to ?s fl n = 0" if "early p' n \<or> early_other s t n"
      using inv t that by (auto simp: refs same(3) fl_inv_def early_other_def)
  qed (use inv knows in \<open>auto simp: fl_inv_def same(2)\<close>)
qed

text \<open>A step that changes the count of one node \<open>x\<close>, and what the thread has to do with it.\<close>

lemma step_node:
  assumes inv: "fl_inv ns s fl pd" and t: "t < length (fl_pcs s)"
    and other: "\<And>n. n \<noteq> x \<Longrightarrow> weight p' n = weight (fl_pcs s ! t) n \<and> charge p' n = charge (fl_pcs s ! t) n \<and>
        early p' n = early (fl_pcs s ! t) n \<and> (n \<in> pd' \<longleftrightarrow> n \<in> pd)"
    and place: "charge p' x + (if x \<in> pd' then 1 else 0) = charge (fl_pcs s ! t) x + (if x \<in> pd then 1 else 0)"
    and calm: "\<not> early_other s t x"
    and refs: "\<And>w. w + weight (fl_pcs s ! t) x = refs_to s fl x + weight p' x \<Longrightarrow>
        r = of_nat w + (if x \<in> pd' \<or> early p' x then SHOULD_BE_ON_FREELIST else 0) \<and>
        (x \<in> pd' \<longrightarrow> 0 < w) \<and> (early p' x \<longrightarrow> w = 0)"
    and knows: "knows_next (fl_next s) p'" "p' \<noteq> Assertion_Fault"
  shows "fl_inv ns (set_pc t p' (set_refs x r s)) fl pd'"
proof -
  let ?s = "set_pc t p' (set_refs x r s)"
  have pcs: "fl_pcs ?s = (fl_pcs s)[t := p']" by simp
  have upd: "refs_to ?s fl n + weight (fl_pcs s ! t) n = refs_to s fl n + weight p' n" for n
    using refs_to_upd [OF t pcs, of fl n fl] by simp
  then have same: "refs_to ?s fl n = refs_to s fl n" if "n \<noteq> x" for n using other [OF that] by (metis add_right_cancel)
  note x = refs [OF upd [of x]]
  show ?thesis
    using inv t pcs
  proof (rule step_preserves [where p' = p'])
    fix n
    show "fl_refs ?s n = of_nat (refs_to ?s fl n) + (if n \<in> pd' \<or> early p' n \<or> early_other s t n then SHOULD_BE_ON_FREELIST else 0)"
      using inv flagged_split [OF t, of pd n] x calm same [of n] other [of n]
      by (cases "n = x") (auto simp: fl_inv_def)
    show "0 < refs_to ?s fl n" if "n \<in> pd'"
      using inv x same [of n] other [of n] that by (cases "n = x") (auto simp: fl_inv_def)
    show "refs_to ?s fl n = 0" if "early p' n \<or> early_other s t n"
      using inv t x calm same [of n] other [of n] that by (cases "n = x") (auto simp: fl_inv_def early_other_def)
    show "(if n \<in> set fl then 1 else 0) + (if n \<in> pd' then 1 else 0) + charge p' n + (\<Sum>h\<leftarrow>held ?s. count_list h n)
        = (if n \<in> set fl then 1 else 0) + (if n \<in> pd then 1 else 0) + charge (fl_pcs s ! t) n + (\<Sum>h\<leftarrow>held s. count_list h n)"
      using place other [of n] by (cases "n = x") simp_all
  qed (use inv knows in \<open>auto simp: fl_inv_def\<close>)
qed

subsection \<open>Counters as words\<close>

lemma refs_word:
  assumes "w < 2 ^ 31"
  shows "unat (of_nat w + (if f then SHOULD_BE_ON_FREELIST else 0) :: u32) = w + (if f then 2 ^ 31 else 0)"
  using assms by (auto simp: SHOULD_BE_ON_FREELIST_def unat_word_ariths unat_of_nat)

lemma refs_word_mask:
  assumes "w < 2 ^ 31"
  shows "(of_nat w + (if f then SHOULD_BE_ON_FREELIST else 0) :: u32) AND REFS_MASK = 0 \<longleftrightarrow> w = 0"
proof -
  have mask: "REFS_MASK = 2 ^ 31 - 1" by (simp add: REFS_MASK_def)
  have "unat ((of_nat w + (if f then SHOULD_BE_ON_FREELIST else 0) :: u32) AND REFS_MASK) = w"
    unfolding mask and_pow2_minus_one refs_word [OF assms] using assms by (cases f) simp_all
  then show ?thesis by (metis unat_0 unat_eq_zero)
qed

lemma refs_word_eq:
  assumes "w < 2 ^ 31"
  shows "(of_nat w + (if f then SHOULD_BE_ON_FREELIST else 0) :: u32) = 0 \<longleftrightarrow> w = 0 \<and> \<not> f"
    and "(of_nat w + (if f then SHOULD_BE_ON_FREELIST else 0) :: u32) = 1 \<longleftrightarrow> w = 1 \<and> \<not> f"
    and "(of_nat w + (if f then SHOULD_BE_ON_FREELIST else 0) :: u32) = SHOULD_BE_ON_FREELIST + 1 \<longleftrightarrow> w = 1 \<and> f"
proof -
  have u: "unat (SHOULD_BE_ON_FREELIST + 1 :: u32) = 2 ^ 31 + 1" by (simp add: SHOULD_BE_ON_FREELIST_def)
  show "(of_nat w + (if f then SHOULD_BE_ON_FREELIST else 0) :: u32) = 0 \<longleftrightarrow> w = 0 \<and> \<not> f"
    "(of_nat w + (if f then SHOULD_BE_ON_FREELIST else 0) :: u32) = 1 \<longleftrightarrow> w = 1 \<and> \<not> f"
    "(of_nat w + (if f then SHOULD_BE_ON_FREELIST else 0) :: u32) = SHOULD_BE_ON_FREELIST + 1 \<longleftrightarrow> w = 1 \<and> f"
    unfolding word_unat_eq_iff refs_word [OF assms] u using assms by auto
qed

subsection \<open>The steps of \<^verbatim>\<open>add\<close>\<close>

lemma refs_eq:
  assumes "fl_inv ns s fl pd" "t < length (fl_pcs s)"
  shows "fl_refs s n = of_nat (refs_to s fl n) + (if n \<in> pd \<or> early (fl_pcs s ! t) n \<or> early_other s t n then SHOULD_BE_ON_FREELIST else 0)"
  using assms flagged_split [OF assms(2), of pd n] by (simp add: fl_inv_def)

lemma charge_calm:
  assumes "fl_inv ns s fl pd" "t < length (fl_pcs s)" "charge (fl_pcs s ! t) n = 1"
  shows "\<not> early_other s t n" "n \<notin> pd" "n \<notin> set fl"
  using in_charge [OF assms] by (auto simp: early_other_def)

lemma refs_to_small: "fl_inv ns s fl pd \<Longrightarrow> refs_to s fl n < 2 ^ 31"
  using refs_to_bound [of ns s fl pd n] by simp

lemma step_Add_Fetch:
  assumes inv: "fl_inv ns s fl pd" and t: "t < length (fl_pcs s)" and p: "fl_pcs s ! t = Add_Fetch n"
  shows "\<exists>fl' pd'. fl_inv ns (add_step t (Add_Fetch n) s) fl' pd'"
proof -
  have calm: "\<not> early_other s t n" "n \<notin> pd" using charge_calm [OF inv t, of n] p by simp_all
  then have r: "fl_refs s n = of_nat (refs_to s fl n)" using refs_eq [OF inv t, of n] p by simp
  have zero: "fl_refs s n = 0 \<longleftrightarrow> refs_to s fl n = 0"
    unfolding r using refs_word_eq(1) [OF refs_to_small [OF inv], of n False] by simp
  show ?thesis
  proof (cases "refs_to s fl n = 0")
    case True
    have "fl_inv ns (set_pc t (AK_Load n None) (set_refs n (fl_refs s n + SHOULD_BE_ON_FREELIST) s)) fl pd"
      using inv t by (rule step_node) (use calm p r True in auto)
    then show ?thesis using zero True by auto
  next
    case False
    have "fl_inv ns (set_pc t Idle (set_refs n (fl_refs s n + SHOULD_BE_ON_FREELIST) s)) fl (insert n pd)"
      using inv t by (rule step_node) (use calm p r False in auto)
    then show ?thesis using zero False by auto
  qed
qed

lemma step_AK_Next:
  assumes inv: "fl_inv ns s fl pd" and t: "t < length (fl_pcs s)" and p: "fl_pcs s ! t = AK_Next n h k"
  shows "fl_inv ns (add_step t (AK_Next n h k) s) fl pd"
proof -
  let ?s = "set_pc t (AK_Refs n h k) (s\<lparr>fl_next := (fl_next s)(n := h)\<rparr>)"
  have out: "n \<notin> set fl" using charge_calm(3) [OF inv t, of n] p by simp
  have zero: "refs_to s fl n = 0" using inv t p by (auto simp: fl_inv_def)
  have pcs: "fl_pcs ?s = (fl_pcs s)[t := AK_Refs n h k]" by simp
  have refs: "refs_to ?s fl m = refs_to s fl m" for m using refs_to_upd [OF t pcs, of fl m fl] p by simp
  have link: "linked ((fl_next s)(n := h)) q xs = linked (fl_next s) q xs" if "n \<notin> set xs" for q xs
    using that by (induction xs arbitrary: q) auto
  have wt: "weight (fl_pcs s ! u) n = 0" if "u < length (fl_pcs s)" for u
    using nth_mem [OF that] zero by (simp add: refs_to_def)
  have ch: "charge (fl_pcs s ! u) n = 0" if "u < length (fl_pcs s)" "u \<noteq> t" for u
  proof -
    have "places s fl pd n \<le> 1" using inv by (simp add: fl_inv_def)
    then show ?thesis using sum_two [OF t that(1), of "\<lambda>p. charge p n"] that p by (simp add: places_def)
  qed
  have "fl_inv ns ?s fl pd"
    using inv t pcs
  proof (rule step_preserves [where p' = "AK_Refs n h k"])
    fix m
    show "fl_refs ?s m = of_nat (refs_to ?s fl m) + (if m \<in> pd \<or> early (AK_Refs n h k) m \<or> early_other s t m then SHOULD_BE_ON_FREELIST else 0)"
      using refs_eq [OF inv t, of m] p by (simp add: refs)
    show "0 < refs_to ?s fl m" if "m \<in> pd" using inv that by (simp add: refs fl_inv_def)
    show "refs_to ?s fl m = 0" if "early (AK_Refs n h k) m \<or> early_other s t m"
      using inv t that p zero by (auto simp: refs fl_inv_def early_other_def)
  next
    fix u
    assume u: "u < length (fl_pcs s)" "u \<noteq> t"
    have "knows_next (fl_next s) (fl_pcs s ! u)" using inv u(1) by (simp add: fl_inv_def)
    then show "knows_next (fl_next ?s) (fl_pcs s ! u)"
      using wt [OF u(1)] ch [OF u] by (cases "fl_pcs s ! u") (auto split: if_splits)
  qed (use inv out p in \<open>auto simp: fl_inv_def link\<close>)
  then show ?thesis by simp
qed

lemma step_AK_Refs:
  assumes inv: "fl_inv ns s fl pd" and t: "t < length (fl_pcs s)" and p: "fl_pcs s ! t = AK_Refs n h k"
  shows "fl_inv ns (add_step t (AK_Refs n h k) s) fl pd"
proof -
  have calm: "\<not> early_other s t n" "n \<notin> pd" using charge_calm [OF inv t, of n] p by simp_all
  have zero: "refs_to s fl n = 0" "knows_next (fl_next s) (AK_Refs n h k)" using inv t p by (auto simp: fl_inv_def)
  have "fl_inv ns (set_pc t (AK_CAS n h k) (set_refs n 1 s)) fl pd"
    using inv t by (rule step_node) (use calm p zero in auto)
  then show ?thesis by simp
qed

lemma step_AK_CAS:
  assumes inv: "fl_inv ns s fl pd" and t: "t < length (fl_pcs s)" and p: "fl_pcs s ! t = AK_CAS n h k"
  shows "\<exists>fl'. fl_inv ns (add_step t (AK_CAS n h k) s) fl' pd"
proof (cases "fl_head s = h")
  case True
  let ?p = "fl_return k"
  let ?s = "set_pc t ?p (s\<lparr>fl_head := Some n\<rparr>)"
  have calm: "\<not> early_other s t n" "n \<notin> pd" "n \<notin> set fl" using charge_calm [OF inv t, of n] p by simp_all
  have nx: "fl_next s n = h" using inv t p by (fastforce simp: fl_inv_def)
  have ret: "weight ?p m = 0" "charge ?p m = 0" "\<not> early ?p m" "knows_next f ?p" "?p \<noteq> Assertion_Fault" for m f
    by (simp_all add: fl_return_def split: option.splits)
  have pcs: "fl_pcs ?s = (fl_pcs s)[t := ?p]" by simp
  have refs: "refs_to ?s (n # fl) m = refs_to s fl m" for m
    using refs_to_upd [OF t pcs, of "n # fl" m fl] p calm(3) ret(1) by (auto split: if_splits)
  have "fl_inv ns ?s (n # fl) pd"
    using inv t pcs
  proof (rule step_preserves [where p' = ?p])
    fix m
    show "fl_refs ?s m = of_nat (refs_to ?s (n # fl) m) + (if m \<in> pd \<or> early ?p m \<or> early_other s t m then SHOULD_BE_ON_FREELIST else 0)"
      using refs_eq [OF inv t, of m] p ret by (simp add: refs)
    show "0 < refs_to ?s (n # fl) m" if "m \<in> pd" using inv that by (simp add: refs fl_inv_def)
    show "refs_to ?s (n # fl) m = 0" if "early ?p m \<or> early_other s t m"
      using inv that ret by (auto simp: refs fl_inv_def early_other_def)
  qed (use inv calm p ret nx True in \<open>auto simp: fl_inv_def\<close>)
  then show ?thesis using True by auto
next
  case False
  have "fl_inv ns (set_pc t (AK_Back n (fl_head s) k) s) fl pd"
    using inv t by (rule step_local) (use p in auto)
  then show ?thesis using False by auto
qed

lemma step_AK_Back:
  assumes inv: "fl_inv ns s fl pd" and t: "t < length (fl_pcs s)" and p: "fl_pcs s ! t = AK_Back n h k"
  shows "\<exists>pd'. fl_inv ns (add_step t (AK_Back n h k) s) fl pd'"
proof -
  have calm: "\<not> early_other s t n" "n \<notin> pd" using charge_calm [OF inv t, of n] p by simp_all
  then have r: "fl_refs s n = of_nat (refs_to s fl n)" using refs_eq [OF inv t, of n] p by simp
  have one: "fl_refs s n = 1 \<longleftrightarrow> refs_to s fl n = 1"
    unfolding r using refs_word_eq(2) [OF refs_to_small [OF inv], of n False] by simp
  have pos: "1 \<le> refs_to s fl n"
    using sum_member [OF t, of "\<lambda>p. weight p n"] p by (simp add: refs_to_def)
  have pred: "(of_nat (refs_to s fl n) :: u32) = 1 + of_nat w" if "Suc w = refs_to s fl n" for w
    unfolding that [symmetric] by simp
  let ?r = "fl_refs s n + (SHOULD_BE_ON_FREELIST - 1)"
  show ?thesis
  proof (cases "refs_to s fl n = 1")
    case True
    have "fl_inv ns (set_pc t (AK_Next n h k) (set_refs n ?r s)) fl pd"
      using inv t by (rule step_node) (use calm p r True in auto)
    then show ?thesis using one True by auto
  next
    case False
    have "fl_inv ns (set_pc t (fl_return k) (set_refs n ?r s)) fl (insert n pd)"
      using inv t
      by (rule step_node) (use calm p r False pos in \<open>auto simp: fl_return_def dest: pred split: option.splits\<close>)
    then show ?thesis using one False by auto
  qed
qed

subsection \<open>The steps of \<^verbatim>\<open>try_get\<close>\<close>

lemma step_TG_CAS_refs:
  assumes inv: "fl_inv ns s fl pd" and t: "t < length (fl_pcs s)" and p: "fl_pcs s ! t = TG_CAS_refs n r"
  shows "fl_inv ns (try_get_step t (TG_CAS_refs n r) s) fl pd"
proof (cases "r AND REFS_MASK = 0 \<or> fl_refs s n \<noteq> r")
  case True
  have "fl_inv ns (set_pc t TG_Load s) fl pd" using inv t by (rule step_local) (use p in auto)
  then show ?thesis using True by auto
next
  case False
  then have r: "r = of_nat (refs_to s fl n) + (if n \<in> pd \<or> early_other s t n then SHOULD_BE_ON_FREELIST else 0)"
    using refs_eq [OF inv t, of n] p by simp
  have "refs_to s fl n \<noteq> 0" using False refs_word_mask [OF refs_to_small [OF inv], of n] unfolding r by blast
  then have calm: "\<not> early_other s t n" using inv by (auto simp: fl_inv_def early_other_def)
  have "fl_inv ns (set_pc t (TG_Next n) (set_refs n (r + 1) s)) fl pd"
    using inv t by (rule step_node) (use calm p r in auto)
  then show ?thesis using False by simp
qed

lemma step_TG_CAS_head:
  assumes inv: "fl_inv ns s fl pd" and t: "t < length (fl_pcs s)" and p: "fl_pcs s ! t = TG_CAS_head n m"
  shows "\<exists>fl'. fl_inv ns (try_get_step t (TG_CAS_head n m) s) fl' pd"
proof (cases "fl_head s = Some n")
  case True
  have link: "linked (fl_next s) (fl_head s) fl" "distinct fl" using inv by (simp_all add: fl_inv_def)
  then obtain rest where fl: "fl = n # rest" using True by (cases fl) auto
  have nx: "fl_next s n = m" using inv t p by (fastforce simp: fl_inv_def)
  let ?s = "set_pc t (TG_Got n) (s\<lparr>fl_head := m\<rparr>)"
  have pcs: "fl_pcs ?s = (fl_pcs s)[t := TG_Got n]" by simp
  have refs: "refs_to ?s rest k = refs_to s fl k" for k
    using refs_to_upd [OF t pcs, of rest k fl] p fl link(2) by (auto split: if_splits)
  have "fl_inv ns ?s rest pd"
    using inv t pcs
  proof (rule step_preserves [where p' = "TG_Got n"])
    fix k
    show "fl_refs ?s k = of_nat (refs_to ?s rest k) + (if k \<in> pd \<or> early (TG_Got n) k \<or> early_other s t k then SHOULD_BE_ON_FREELIST else 0)"
      using refs_eq [OF inv t, of k] p by (simp add: refs)
    show "0 < refs_to ?s rest k" if "k \<in> pd" using inv that by (simp add: refs fl_inv_def)
    show "refs_to ?s rest k = 0" if "early (TG_Got n) k \<or> early_other s t k"
      using inv that by (auto simp: refs fl_inv_def early_other_def)
  qed (use inv p nx link fl in \<open>auto simp: fl_inv_def\<close>)
  then show ?thesis using True by auto
next
  case False
  have "fl_inv ns (set_pc t (TG_Dec n (fl_head s)) s) fl pd" using inv t by (rule step_local) (use p in auto)
  then show ?thesis using False by auto
qed

lemma step_TG_Got:
  assumes inv: "fl_inv ns s fl pd" and t: "t < length (fl_pcs s)" and p: "fl_pcs s ! t = TG_Got n"
  shows "fl_inv ns (try_get_step t (TG_Got n) s) fl pd"
proof -
  have calm: "\<not> early_other s t n" "n \<notin> pd" using charge_calm [OF inv t, of n] p by simp_all
  then have r: "fl_refs s n = of_nat (refs_to s fl n)" using refs_eq [OF inv t, of n] p by simp
  have "fl_refs s n AND SHOULD_BE_ON_FREELIST = 0"
  proof -
    have small: "unat (fl_refs s n) < 2 ^ 31"
      unfolding r using refs_word [OF refs_to_small [OF inv], of n False] refs_to_small [OF inv, of n] by simp
    then have "\<not> bit (unat (fl_refs s n)) 31" by (simp add: bit_iff_odd)
    then have top: "\<not> bit (fl_refs s n) 31" by (simp add: bit_simps)
    have flag: "SHOULD_BE_ON_FREELIST = push_bit 31 (1 :: u32)" by (simp add: SHOULD_BE_ON_FREELIST_def)
    have "bit (SHOULD_BE_ON_FREELIST) k \<longleftrightarrow> k = 31" for k
      unfolding flag bit_push_bit_iff bit_1_iff by auto
    then show ?thesis using top by (auto intro!: bit_word_eqI simp: bit_and_iff)
  qed
  moreover have "fl_inv ns (set_pc t (TG_Sub n) s) fl pd" using inv t by (rule step_local) (use p in auto)
  ultimately show ?thesis by simp
qed

lemma step_TG_Sub:
  assumes inv: "fl_inv ns s fl pd" and t: "t < length (fl_pcs s)" and p: "fl_pcs s ! t = TG_Sub n"
  shows "fl_inv ns (try_get_step t (TG_Sub n) s) fl pd"
proof -
  have calm: "\<not> early_other s t n" "n \<notin> pd" using charge_calm [OF inv t, of n] p by simp_all
  then have r: "fl_refs s n = of_nat (refs_to s fl n)" using refs_eq [OF inv t, of n] p by simp
  let ?s = "set_pc t Idle (set_refs n (fl_refs s n - 2) (s\<lparr>held := (held s)[t := n # held s ! t]\<rparr>))"
  have th: "t < length (held s)" using inv t by (simp add: fl_inv_def)
  have pcs: "fl_pcs ?s = (fl_pcs s)[t := Idle]" by simp
  have upd: "refs_to ?s fl m + weight (TG_Sub n) m = refs_to s fl m" for m
    using refs_to_upd [OF t pcs, of fl m fl] p by simp
  have hold: "(\<Sum>h\<leftarrow>held ?s. count_list h m) = (\<Sum>h\<leftarrow>held s. count_list h m) + (if m = n then 1 else 0)" for m
    using sum_upd [OF th, of "\<lambda>h. count_list h m" "n # held s ! t"] by (cases "m = n") auto
  have "fl_inv ns ?s fl pd"
    using inv t pcs
  proof (rule step_preserves [where p' = Idle])
    fix m
    show "fl_refs ?s m = of_nat (refs_to ?s fl m) + (if m \<in> pd \<or> early Idle m \<or> early_other s t m then SHOULD_BE_ON_FREELIST else 0)"
    proof (cases "m = n")
      case True
      have "of_nat (refs_to s fl n) - 2 = (of_nat (refs_to ?s fl n) :: u32)"
        using upd [of n] by (simp flip: upd)
      then show ?thesis using True r calm by simp
    next
      case False
      then show ?thesis using refs_eq [OF inv t, of m] upd [of m] p by simp
    qed
    show "0 < refs_to ?s fl m" if "m \<in> pd" using inv that upd [of m] calm(2) by (auto simp: fl_inv_def split: if_splits)
    show "refs_to ?s fl m = 0" if "early Idle m \<or> early_other s t m"
      using inv that upd [of m] by (auto simp: fl_inv_def early_other_def)
  qed (use inv p hold in \<open>auto simp: fl_inv_def\<close>)
  then show ?thesis by simp
qed

lemma step_TG_Dec:
  assumes inv: "fl_inv ns s fl pd" and t: "t < length (fl_pcs s)" and p: "fl_pcs s ! t = TG_Dec n h"
  shows "\<exists>pd'. fl_inv ns (try_get_step t (TG_Dec n h) s) fl pd'"
proof -
  have pos: "1 \<le> refs_to s fl n" using sum_member [OF t, of "\<lambda>p. weight p n"] p by (simp add: refs_to_def)
  then have calm: "\<not> early_other s t n" using inv by (auto simp: fl_inv_def early_other_def)
  then have r: "fl_refs s n = of_nat (refs_to s fl n) + (if n \<in> pd then SHOULD_BE_ON_FREELIST else 0)"
    using refs_eq [OF inv t, of n] p by simp
  have one: "fl_refs s n = SHOULD_BE_ON_FREELIST + 1 \<longleftrightarrow> refs_to s fl n = 1 \<and> n \<in> pd"
    unfolding r by (rule refs_word_eq(3) [OF refs_to_small [OF inv]])
  have pred: "(of_nat (refs_to s fl n) :: u32) = 1 + of_nat w" if "Suc w = refs_to s fl n" for w
    unfolding that [symmetric] by simp
  show ?thesis
  proof (cases "refs_to s fl n = 1 \<and> n \<in> pd")
    case True
    have "fl_inv ns (set_pc t (AK_Load n (Some h)) (set_refs n (fl_refs s n - 1) s)) fl (pd - {n})"
      using inv t by (rule step_node) (use calm p r True in auto)
    then show ?thesis using one True by auto
  next
    case False
    have "fl_inv ns (set_pc t (TG_Test h) (set_refs n (fl_refs s n - 1) s)) fl pd"
      using inv t by (rule step_node) (use calm p r False pos in \<open>auto simp: algebra_simps dest: pred\<close>)
    then show ?thesis using one False by auto
  qed
qed

section \<open>Every interleaving\<close>

lemma count_remove1: "n \<in> set xs \<Longrightarrow> count_list xs m = count_list (remove1 n xs) m + (if m = n then 1 else 0)"
  by (induction xs) auto

lemma step_idle:
  assumes inv: "fl_inv ns s fl pd" and t: "t < length (fl_pcs s)" and p: "fl_pcs s ! t = Idle"
  shows "fl_inv ns (idle_step t c s) fl pd"
proof (cases c)
  case Do_Get
  have "fl_inv ns (set_pc t TG_Load s) fl pd" using inv t by (rule step_local) (use p in auto)
  then show ?thesis using Do_Get by (simp add: idle_step_def)
next
  case (Do_Add n)
  show ?thesis
  proof (cases "n \<in> set (held s ! t)")
    case True
    let ?s = "set_pc t (Add_Fetch n) (s\<lparr>held := (held s)[t := remove1 n (held s ! t)]\<rparr>)"
    have th: "t < length (held s)" using inv t by (simp add: fl_inv_def)
    have pcs: "fl_pcs ?s = (fl_pcs s)[t := Add_Fetch n]" by simp
    have refs: "refs_to ?s fl m = refs_to s fl m" for m using refs_to_upd [OF t pcs, of fl m fl] p by simp
    have "count_list (held s ! t) m = count_list (remove1 n (held s ! t)) m + (if m = n then 1 else 0)" for m
      using count_remove1 [OF True, of m] .
    then have hold: "(\<Sum>h\<leftarrow>held ?s. count_list h m) + (if m = n then 1 else 0) = (\<Sum>h\<leftarrow>held s. count_list h m)" for m
      using sum_upd [OF th, of "\<lambda>h. count_list h m" "remove1 n (held s ! t)"]
      by (simp del: count_list_remove1)
    have "fl_inv ns ?s fl pd"
      using inv t pcs
    proof (rule step_preserves [where p' = "Add_Fetch n"])
      fix m
      show "fl_refs ?s m = of_nat (refs_to ?s fl m) + (if m \<in> pd \<or> early (Add_Fetch n) m \<or> early_other s t m then SHOULD_BE_ON_FREELIST else 0)"
        using refs_eq [OF inv t, of m] p by (simp add: refs)
      show "0 < refs_to ?s fl m" if "m \<in> pd" using inv that by (simp add: refs fl_inv_def)
      show "refs_to ?s fl m = 0" if "early (Add_Fetch n) m \<or> early_other s t m"
        using inv that by (auto simp: refs fl_inv_def early_other_def)
      show "(if m \<in> set fl then 1 else 0) + (if m \<in> pd then 1 else 0) + charge (Add_Fetch n) m + (\<Sum>h\<leftarrow>held ?s. count_list h m)
        = (if m \<in> set fl then 1 else 0) + (if m \<in> pd then 1 else 0) + charge (fl_pcs s ! t) m + (\<Sum>h\<leftarrow>held s. count_list h m)"
        using hold [of m] p by auto
    qed (use inv in \<open>auto simp: fl_inv_def\<close>)
    then show ?thesis using True Do_Add by (simp add: idle_step_def)
  qed (use Do_Add inv in \<open>simp add: idle_step_def\<close>)
qed

lemma fl_step_inv:
  assumes inv: "fl_inv ns s fl pd"
  shows "\<exists>fl' pd'. fl_inv ns (fl_step e s) fl' pd'"
proof (cases "fst e < length (fl_pcs s)")
  case True
  let ?t = "fst e"
  note local = step_local [OF inv True]
  show ?thesis
  proof (cases "fl_pcs s ! ?t")
    case Idle
    then show ?thesis using step_idle [OF inv True Idle] True by (auto simp: fl_step_def Let_def)
  next
    case p: (Add_Fetch n)
    then show ?thesis using step_Add_Fetch [OF inv True p] True by (simp add: fl_step_def is_add_pc_def Let_def)
  next
    case p: (AK_Load n k)
    then show ?thesis using local [of "AK_Next n (fl_head s) k"] True by (auto simp: fl_step_def is_add_pc_def Let_def)
  next
    case p: (AK_Next n h k)
    then show ?thesis using step_AK_Next [OF inv True p] True by (auto simp: fl_step_def is_add_pc_def Let_def simp del: add_step.simps try_get_step.simps)
  next
    case p: (AK_Refs n h k)
    then show ?thesis using step_AK_Refs [OF inv True p] True by (auto simp: fl_step_def is_add_pc_def Let_def simp del: add_step.simps try_get_step.simps)
  next
    case p: (AK_CAS n h k)
    then show ?thesis using step_AK_CAS [OF inv True p] True by (auto simp: fl_step_def is_add_pc_def Let_def simp del: add_step.simps try_get_step.simps)
  next
    case p: (AK_Back n h k)
    then show ?thesis using step_AK_Back [OF inv True p] True by (auto simp: fl_step_def is_add_pc_def Let_def simp del: add_step.simps try_get_step.simps)
  next
    case p: TG_Load
    then show ?thesis using local [of "TG_Test (fl_head s)"] True by (auto simp: fl_step_def is_add_pc_def Let_def)
  next
    case p: (TG_Test h)
    then show ?thesis
      using local [of Idle] local [of "TG_CAS_refs n (fl_refs s n)" for n] True
      by (cases h) (auto simp: fl_step_def is_add_pc_def Let_def)
  next
    case p: (TG_CAS_refs n r)
    then show ?thesis using step_TG_CAS_refs [OF inv True p] True by (auto simp: fl_step_def is_add_pc_def Let_def simp del: add_step.simps try_get_step.simps)
  next
    case p: (TG_Next n)
    then show ?thesis using local [of "TG_CAS_head n (fl_next s n)"] True by (auto simp: fl_step_def is_add_pc_def Let_def)
  next
    case p: (TG_CAS_head n m)
    then show ?thesis using step_TG_CAS_head [OF inv True p] True by (auto simp: fl_step_def is_add_pc_def Let_def simp del: add_step.simps try_get_step.simps)
  next
    case p: (TG_Got n)
    then show ?thesis using step_TG_Got [OF inv True p] True by (auto simp: fl_step_def is_add_pc_def Let_def simp del: add_step.simps try_get_step.simps)
  next
    case p: (TG_Sub n)
    then show ?thesis using step_TG_Sub [OF inv True p] True by (auto simp: fl_step_def is_add_pc_def Let_def simp del: add_step.simps try_get_step.simps)
  next
    case p: (TG_Dec n h)
    then show ?thesis using step_TG_Dec [OF inv True p] True by (auto simp: fl_step_def is_add_pc_def Let_def simp del: add_step.simps try_get_step.simps)
  next
    case Assertion_Fault
    then show ?thesis using inv True by (auto simp: fl_inv_def)
  qed
qed (use inv in \<open>auto simp: fl_step_def\<close>)

lemma fl_run_inv: "fl_inv ns s fl pd \<Longrightarrow> \<exists>fl' pd'. fl_inv ns (fl_run sched s) fl' pd'"
proof (induction sched arbitrary: s fl pd)
  case (Cons e sched)
  then obtain fl' pd' where "fl_inv ns (fl_step e s) fl' pd'" using fl_step_inv by blast
  then show ?case using Cons.IH by (simp add: fl_run_def)
qed (auto simp: fl_run_def)

lemma sum_count_concat: "(\<Sum>h\<leftarrow>hs. count_list h n) = count_list (concat hs) n"
  by (induction hs) auto

lemma sum_idle:
  "set ps \<subseteq> {Idle} \<Longrightarrow> (\<Sum>p\<leftarrow>ps. weight p n) = 0"
  "set ps \<subseteq> {Idle} \<Longrightarrow> (\<Sum>p\<leftarrow>ps. charge p n) = 0"
  by (induction ps) auto

lemma fl_start_inv:
  assumes "distinct (concat hs)" "length hs < 2 ^ 29"
  shows "fl_inv (set (concat hs)) (fl_start hs) [] {}"
proof -
  have idle: "set (fl_pcs (fl_start hs)) \<subseteq> {Idle}" by (auto simp: fl_start_def)
  have refs: "refs_to (fl_start hs) [] n = 0" for n by (simp add: refs_to_def sum_idle [OF idle])
  have place: "places (fl_start hs) [] {} n = (if n \<in> set (concat hs) then 1 else 0)" for n
    unfolding places_def sum_idle [OF idle] sum_count_concat
    by (simp add: fl_start_def count_list_distinct [OF assms(1)] del: set_concat)
  have pcs: "fl_pcs (fl_start hs) ! t = Idle" if "t < length hs" for t using that by (simp add: fl_start_def)
  have "\<not> flagged (fl_start hs) {} n" for n using pcs by (auto simp: flagged_def fl_start_def)
  then show ?thesis
    using assms(2) refs place pcs unfolding fl_inv_def by (simp add: fl_start_def del: set_concat)
qed

lemma distinct_count_list: "(\<And>n. count_list xs n \<le> 1) \<Longrightarrow> distinct xs"
proof (induction xs)
  case (Cons x xs)
  have "count_list xs n \<le> 1" for n using Cons.prems [of n] by (auto split: if_splits)
  moreover have "x \<notin> set xs" using Cons.prems [of x] by (simp add: count_list_0_iff)
  ultimately show ?case using Cons.IH by simp
qed simp

lemma count_bound_1: "(if b then 1 else 0) \<le> (1 :: nat)"
  by simp

text \<open>
  (C11) Whatever the interleaving of any number of threads (fewer than \<open>2 ^ 29\<close>) that take nodes
  from the free list and put nodes they hold on it, no node is ever held by two threads or twice by one, and the assertion of
  \<^verbatim>\<open>try_get\<close> never fails.
\<close>

theorem freelist_exclusive:
  assumes "distinct (concat hs)" "length hs < 2 ^ 29"
  shows "distinct (concat (held (fl_run sched (fl_start hs)))) \<and>
     set (concat (held (fl_run sched (fl_start hs)))) \<subseteq> set (concat hs) \<and>
     Assertion_Fault \<notin> set (fl_pcs (fl_run sched (fl_start hs)))"
proof -
  let ?s = "fl_run sched (fl_start hs)"
  obtain fl pd where inv: "fl_inv (set (concat hs)) ?s fl pd"
    using fl_run_inv [OF fl_start_inv [OF assms]] by blast
  have count: "count_list (concat (held ?s)) n \<le> (if n \<in> set (concat hs) then 1 else 0)" for n
  proof -
    have "places ?s fl pd n = (if n \<in> set (concat hs) then 1 else 0)" using inv unfolding fl_inv_def by blast
    then show ?thesis by (simp add: places_def sum_count_concat del: set_concat)
  qed
  have "distinct (concat (held ?s))"
    using count by (intro distinct_count_list) (meson le_trans count_bound_1)
  moreover have "n \<in> set (concat hs)" if "n \<in> set (concat (held ?s))" for n
    using count [of n] that count_list_0_iff [of "concat (held ?s)" n] by (auto split: if_splits)
  moreover have "Assertion_Fault \<notin> set (fl_pcs ?s)" using inv by (auto simp: fl_inv_def in_set_conv_nth)
  ultimately show ?thesis by blast
qed

text \<open>Two threads and three nodes: the first thread adds a node that the second takes.\<close>

definition example_sched :: "(nat \<times> fl_choice) list" where
  "example_sched = replicate 6 (0, Do_Add 1) @ replicate 8 (1, Do_Get)"

theorem freelist_exclusive_witness:
  "concat (held (fl_run example_sched (fl_start [[0, 1], [2]]))) = [0, 1, 2] \<and> distinct [0, 1, 2 :: nat]"
proof -
  have "held (fl_run example_sched (fl_start [[0, 1], [2]])) = [[0], [1, 2]]" by code_simp
  moreover have "distinct (concat [[0, 1], [2 :: nat]])" "length [[0, 1], [2 :: nat]] < 2 ^ 29" by simp_all
  ultimately show ?thesis using freelist_exclusive [of "[[0, 1], [2]]" example_sched] by simp
qed



end
