(* ===== verification/CQ_Dispatch.thy ===== *)
theory CQ_Dispatch
  imports DKV_Prelude "HOL-Library.Multiset"
begin

text \<open>
  The queue of keys to move is a \<^verbatim>\<open>moodycamel::ConcurrentQueue\<close>
  (\<^verbatim>\<open>src/utils/concurrentqueue-1.0.3/concurrentqueue.h\<close>). This theory models the queue as its
  public operations see it: a list of producers, each with the stream of elements it has enqueued
  and nobody has dequeued, in the order of \<^verbatim>\<open>producerListTail\<close> and \<^verbatim>\<open>next_prod\<close>. Every thread
  that enqueues without a token owns an implicit producer (\<^verbatim>\<open>get_or_add_implicit_producer\<close>,
  \<^verbatim>\<open>recycle_or_create_producer\<close>); \<^verbatim>\<open>try_dequeue\<close> scores the producers and takes from the best one.

  Each operation is one atomic step on the streams, and memory allocation succeeds. The streams
  themselves are what the block structure of the producers implements.
\<close>

section \<open>State\<close>

record 'a cq_producer =
  prod_id :: nat
  prod_thread :: "nat option"
  isExplicit :: bool
  inactive :: bool
  stream :: "'a list"

record 'a ConcurrentQueue =
  producers :: "'a cq_producer list"

definition cq_empty :: "'a ConcurrentQueue" where
  "cq_empty = \<lparr>producers = []\<rparr>"

section \<open>Producers\<close>

definition add_producer :: "'a ConcurrentQueue \<Rightarrow> bool \<Rightarrow> nat option \<Rightarrow> 'a ConcurrentQueue \<times> nat" where
  "add_producer q expl thread =
     (let i = length (producers q)
      in (q\<lparr>producers := \<lparr>prod_id = i, prod_thread = thread, isExplicit = expl,
                          inactive = False, stream = []\<rparr> # producers q\<rparr>, i))"

definition update_producer ::
  "nat \<Rightarrow> ('a cq_producer \<Rightarrow> 'a cq_producer) \<Rightarrow> 'a cq_producer list \<Rightarrow> 'a cq_producer list" where
  "update_producer i f ps = map (\<lambda>p. if prod_id p = i then f p else p) ps"

text \<open>The flag of the result is the \<^verbatim>\<open>recycled\<close> of the source.\<close>

definition recycle_or_create_producer ::
  "'a ConcurrentQueue \<Rightarrow> bool \<Rightarrow> nat option \<Rightarrow> 'a ConcurrentQueue \<times> nat \<times> bool" where
  "recycle_or_create_producer q expl thread =
     (case find (\<lambda>p. inactive p \<and> isExplicit p = expl) (producers q) of
        Some p \<Rightarrow>
          (q\<lparr>producers := update_producer (prod_id p)
               (\<lambda>p. p\<lparr>inactive := False, prod_thread := thread\<rparr>) (producers q)\<rparr>, prod_id p, True)
      | None \<Rightarrow> (case add_producer q expl thread of (q', i) \<Rightarrow> (q', i, False)))"

definition get_or_add_implicit_producer :: "'a ConcurrentQueue \<Rightarrow> nat \<Rightarrow> 'a ConcurrentQueue \<times> nat" where
  "get_or_add_implicit_producer q tid =
     (case find (\<lambda>p. prod_thread p = Some tid) (producers q) of
        Some p \<Rightarrow> (q, prod_id p)
      | None \<Rightarrow> (case recycle_or_create_producer q False (Some tid) of (q', i, _) \<Rightarrow> (q', i)))"

text \<open>A thread that ends gives its producer up for reuse; what it enqueued stays.\<close>

definition implicit_producer_thread_exited :: "'a ConcurrentQueue \<Rightarrow> nat \<Rightarrow> 'a ConcurrentQueue" where
  "implicit_producer_thread_exited q tid =
     q\<lparr>producers := map (\<lambda>p. if prod_thread p = Some tid
                              then p\<lparr>prod_thread := None, inactive := True\<rparr> else p) (producers q)\<rparr>"

section \<open>Operations\<close>

definition enqueue :: "'a ConcurrentQueue \<Rightarrow> nat \<Rightarrow> 'a \<Rightarrow> 'a ConcurrentQueue" where
  "enqueue q tid item =
     (case get_or_add_implicit_producer q tid of (q', i) \<Rightarrow>
        q'\<lparr>producers := update_producer i (\<lambda>p. p\<lparr>stream := stream p @ [item]\<rparr>) (producers q')\<rparr>)"

text \<open>
  The scoring loop of \<^verbatim>\<open>try_dequeue\<close>: walk the producers until three non-empty ones are seen,
  remember the first one of the largest size.
\<close>

fun score_producers ::
  "'a cq_producer list \<Rightarrow> nat \<Rightarrow> nat option \<Rightarrow> nat \<Rightarrow> nat \<times> nat option" where
  "score_producers [] nonEmptyCount best bestSize = (nonEmptyCount, best)"
| "score_producers (p # ps) nonEmptyCount best bestSize =
     (if nonEmptyCount < 3
      then let size = length (stream p)
           in if size > 0
              then if size > bestSize
                   then score_producers ps (nonEmptyCount + 1) (Some (prod_id p)) size
                   else score_producers ps (nonEmptyCount + 1) best bestSize
              else score_producers ps nonEmptyCount best bestSize
      else (nonEmptyCount, best))"

text \<open>Take the first element of the first producer that satisfies a condition and has one.\<close>

fun dequeue_where ::
  "('a cq_producer \<Rightarrow> bool) \<Rightarrow> 'a cq_producer list \<Rightarrow> ('a \<times> 'a cq_producer list) option" where
  "dequeue_where P [] = None"
| "dequeue_where P (p # ps) =
     (if P p \<and> stream p \<noteq> []
      then Some (hd (stream p), p\<lparr>stream := tl (stream p)\<rparr> # ps)
      else map_option (\<lambda>(x, ps'). (x, p # ps')) (dequeue_where P ps))"

definition try_dequeue :: "'a ConcurrentQueue \<Rightarrow> ('a \<times> 'a ConcurrentQueue) option" where
  "try_dequeue q =
     (case score_producers (producers q) 0 None 0 of (nonEmptyCount, best) \<Rightarrow>
        if nonEmptyCount > 0
        then case dequeue_where (\<lambda>p. Some (prod_id p) = best) (producers q) of
               Some (x, ps) \<Rightarrow> Some (x, q\<lparr>producers := ps\<rparr>)
             | None \<Rightarrow> map_option (\<lambda>(x, ps). (x, q\<lparr>producers := ps\<rparr>))
                         (dequeue_where (\<lambda>p. Some (prod_id p) \<noteq> best) (producers q))
        else None)"

definition try_dequeue_non_interleaved :: "'a ConcurrentQueue \<Rightarrow> ('a \<times> 'a ConcurrentQueue) option" where
  "try_dequeue_non_interleaved q =
     map_option (\<lambda>(x, ps). (x, q\<lparr>producers := ps\<rparr>)) (dequeue_where (\<lambda>_. True) (producers q))"

definition size_approx :: "'a ConcurrentQueue \<Rightarrow> nat" where
  "size_approx q = sum_list (map (\<lambda>p. length (stream p)) (producers q))"

section \<open>Contents\<close>

definition cq_elems :: "'a ConcurrentQueue \<Rightarrow> 'a multiset" where
  "cq_elems q = sum_list (map (\<lambda>p. mset (stream p)) (producers q))"

text \<open>Identifiers count the producers from the oldest; a thread maps to at most one producer.\<close>

definition ownership :: "'a cq_producer list \<Rightarrow> (nat \<times> nat option) list" where
  "ownership ps = map (\<lambda>p. (prod_id p, prod_thread p)) ps"

definition cq_inv :: "'a ConcurrentQueue \<Rightarrow> bool" where
  "cq_inv q \<longleftrightarrow>
     map fst (ownership (producers q)) = rev [0..<length (producers q)]
     \<and> (\<forall>i j t. (i, Some t) \<in> set (ownership (producers q)) \<longrightarrow>
                 (j, Some t) \<in> set (ownership (producers q)) \<longrightarrow> i = j)"

abbreviation streams_elems :: "'a cq_producer list \<Rightarrow> 'a multiset" where
  "streams_elems ps \<equiv> sum_list (map (\<lambda>p. mset (stream p)) ps)"

lemma ownership_ids [simp]: "map fst (ownership ps) = map prod_id ps"
  by (simp add: ownership_def o_def)

lemma ownership_Cons [simp]: "ownership (p # ps) = (prod_id p, prod_thread p) # ownership ps"
  by (simp add: ownership_def)

lemma length_ownership [simp]: "length (ownership ps) = length ps"
  by (simp add: ownership_def)

lemma cq_inv_cong:
  assumes "ownership (producers q') = ownership (producers q)"
  shows "cq_inv q' = cq_inv q"
proof -
  have "length (producers q') = length (producers q)" by (metis assms length_ownership)
  with assms show ?thesis by (simp only: cq_inv_def)
qed

lemma cq_inv_ids: "cq_inv q \<Longrightarrow> distinct (map prod_id (producers q))"
  by (simp add: cq_inv_def)

lemma cq_inv_empty: "cq_inv cq_empty"
  by (simp add: cq_inv_def cq_empty_def ownership_def)

lemma update_producer_absent [simp]:
  "i \<notin> prod_id ` set ps \<Longrightarrow> update_producer i f ps = ps"
  by (induction ps) (auto simp: update_producer_def)

lemma update_producer_append_elems:
  assumes "distinct (map prod_id ps)" "i \<in> prod_id ` set ps"
  shows "streams_elems (update_producer i (\<lambda>p. p\<lparr>stream := stream p @ [x]\<rparr>) ps) = add_mset x (streams_elems ps)"
  using assms
proof (induction ps)
  case (Cons p ps)
  have c: "update_producer i f (p # ps) = (if prod_id p = i then f p else p) # update_producer i f ps"
    for f :: "'a cq_producer \<Rightarrow> 'a cq_producer" by (simp add: update_producer_def)
  show ?case
  proof (cases "prod_id p = i")
    case True
    then have "i \<notin> prod_id ` set ps" using Cons.prems(1) by auto
    with True show ?thesis by (simp add: c)
  next
    case False
    with Cons show ?thesis by (simp add: c)
  qed
qed simp

lemma update_producer_stream_same:
  "(\<And>p. stream (f p) = stream p) \<Longrightarrow> streams_elems (update_producer i f ps) = streams_elems ps"
  by (induction ps) (simp_all add: update_producer_def)

lemma update_producer_map:
  "(\<And>p. g (f p) = g p) \<Longrightarrow> map g (update_producer i f ps) = map g ps"
  by (simp add: update_producer_def)


lemma add_producer_correct:
  assumes "cq_inv q" "add_producer q e t = (q', i)" "\<forall>p\<in>set (producers q). prod_thread p \<noteq> t"
  shows "cq_inv q' \<and> i \<in> prod_id ` set (producers q') \<and> cq_elems q' = cq_elems q"
proof -
  have "(j, t) \<notin> set (ownership (producers q))" for j using assms(3) by (auto simp: ownership_def)
  then show ?thesis
    using assms(1,2) by (fastforce simp: add_producer_def cq_inv_def cq_elems_def Let_def)
qed

lemma recycle_correct:
  assumes inv: "cq_inv q" and r: "recycle_or_create_producer q e (Some tid) = (q', i, b)"
    and fresh: "\<forall>p\<in>set (producers q). prod_thread p \<noteq> Some tid"
  shows "cq_inv q' \<and> i \<in> prod_id ` set (producers q') \<and> cq_elems q' = cq_elems q"
proof (cases "find (\<lambda>p. inactive p \<and> isExplicit p = e) (producers q)")
  case None
  then have "add_producer q e (Some tid) = (q', i)"
    using r by (simp add: recycle_or_create_producer_def split: prod.splits)
  then show ?thesis using add_producer_correct [OF inv _ fresh] by blast
next
  case (Some p)
  let ?f = "\<lambda>p. p\<lparr>inactive := False, prod_thread := Some tid\<rparr>"
  from Some have q': "q' = q\<lparr>producers := update_producer (prod_id p) ?f (producers q)\<rparr>" "i = prod_id p"
    using r by (auto simp: recycle_or_create_producer_def)
  have p: "p \<in> set (producers q)" using Some by (auto simp: find_Some_iff)
  have ids: "map prod_id (producers q') = map prod_id (producers q)"
    unfolding q' by (simp add: update_producer_map)
  have "cq_elems q' = cq_elems q"
    unfolding q' cq_elems_def by (simp add: update_producer_stream_same)
  moreover have "i \<in> prod_id ` set (producers q')"
    using p arg_cong [OF ids, of set] by (auto simp: q'(2))
  moreover have "(j, Some t) \<in> set (ownership (producers q')) \<Longrightarrow>
      j = i \<and> t = tid \<or> (j, Some t) \<in> set (ownership (producers q)) \<and> t \<noteq> tid" for j t
    using fresh by (auto simp: q' ownership_def update_producer_def split: if_splits)
  then have "(j, Some t) \<in> set (ownership (producers q')) \<Longrightarrow>
      (k, Some t) \<in> set (ownership (producers q')) \<Longrightarrow> j = k" for j k t
    using inv unfolding cq_inv_def by blast
  moreover have "length (producers q') = length (producers q)" by (simp add: q' update_producer_def)
  ultimately show ?thesis using inv ids by (simp add: cq_inv_def)
qed

lemma get_or_add_correct:
  assumes "cq_inv q" "get_or_add_implicit_producer q tid = (q', i)"
  shows "cq_inv q' \<and> i \<in> prod_id ` set (producers q') \<and> cq_elems q' = cq_elems q"
proof (cases "find (\<lambda>p. prod_thread p = Some tid) (producers q)")
  case None
  then have "\<forall>p\<in>set (producers q). prod_thread p \<noteq> Some tid" by (simp add: find_None_iff)
  moreover obtain b where "recycle_or_create_producer q False (Some tid) = (q', i, b)"
    using None assms(2) by (auto simp: get_or_add_implicit_producer_def split: prod.splits)
  ultimately show ?thesis using recycle_correct [OF assms(1)] by blast
next
  case (Some p)
  then have "p \<in> set (producers q)" by (auto simp: find_Some_iff)
  with Some assms show ?thesis by (auto simp: get_or_add_implicit_producer_def)
qed

lemma enqueue_correct:
  assumes "cq_inv q"
  shows "cq_inv (enqueue q tid x)" "cq_elems (enqueue q tid x) = add_mset x (cq_elems q)"
proof -
  obtain q' i where g: "get_or_add_implicit_producer q tid = (q', i)" by fastforce
  let ?f = "\<lambda>p. p\<lparr>stream := stream p @ [x]\<rparr>"
  have q': "cq_inv q'" "i \<in> prod_id ` set (producers q')" "cq_elems q' = cq_elems q"
    using get_or_add_correct [OF assms g] by auto
  have e: "enqueue q tid x = q'\<lparr>producers := update_producer i ?f (producers q')\<rparr>"
    by (simp add: enqueue_def g)
  have "ownership (producers (enqueue q tid x)) = ownership (producers q')"
    unfolding e ownership_def by (simp add: update_producer_map)
  from cq_inv_cong [OF this] q'(1) show "cq_inv (enqueue q tid x)" by simp
  show "cq_elems (enqueue q tid x) = add_mset x (cq_elems q)"
    using update_producer_append_elems [OF cq_inv_ids [OF q'(1)] q'(2)] q'(3)
    by (simp add: e cq_elems_def)
qed

section \<open>Dequeueing\<close>

lemma dequeue_where_Some:
  "dequeue_where P ps = Some (x, ps') \<Longrightarrow>
   \<exists>us p vs xs. ps = us @ p # vs \<and> P p \<and> stream p = x # xs \<and> ps' = us @ p\<lparr>stream := xs\<rparr> # vs"
proof (induction ps arbitrary: ps')
  case (Cons p ps)
  show ?case
  proof (cases "P p \<and> stream p \<noteq> []")
    case True
    then obtain xs where "stream p = x # xs" "ps' = p\<lparr>stream := xs\<rparr> # ps"
      using Cons.prems by (cases "stream p") auto
    with True have "p # ps = [] @ p # ps \<and> P p \<and> stream p = x # xs \<and> ps' = [] @ p\<lparr>stream := xs\<rparr> # ps"
      by simp
    then show ?thesis by blast
  next
    case False
    then obtain ps1 where "dequeue_where P ps = Some (x, ps1)" "ps' = p # ps1"
      using Cons.prems by (auto split: if_splits)
    with Cons.IH show ?thesis by (metis append_Cons)
  qed
qed simp

lemma dequeue_where_None: "dequeue_where P ps = None \<longleftrightarrow> (\<forall>p\<in>set ps. P p \<longrightarrow> stream p = [])"
  by (induction ps) auto

lemma score_mono: "n \<le> fst (score_producers ps n b s)"
proof (induction ps arbitrary: n b s)
  case (Cons p ps)
  have "n \<le> fst (score_producers ps (Suc n) b' s')" for b' s' by (rule Suc_leD) (rule Cons)
  then show ?case using Cons by (simp add: Let_def)
qed simp

lemma score_empty: "\<forall>p\<in>set ps. stream p = [] \<Longrightarrow> score_producers ps n b s = (n, b)"
  by (induction ps) simp_all

lemma score_nonempty:
  "\<exists>p\<in>set ps. stream p \<noteq> [] \<Longrightarrow> n < 3 \<Longrightarrow> n < fst (score_producers ps n b s)"
proof (induction ps arbitrary: n b s)
  case (Cons p ps)
  have "Suc n \<le> fst (score_producers ps (Suc n) b' s')" for b' s' by (rule score_mono)
  then show ?case using Cons by (cases "stream p = []") (simp_all add: Suc_le_eq Let_def)
qed simp

lemma streams_empty_iff: "streams_elems ps = {#} \<longleftrightarrow> (\<forall>p\<in>set ps. stream p = [])"
  by (induction ps) auto

lemma try_dequeue_None: "try_dequeue q = None \<longleftrightarrow> cq_elems q = {#}"
proof -
  obtain m b where s: "score_producers (producers q) 0 None 0 = (m, b)" by fastforce
  have "m = 0 \<longleftrightarrow> (\<forall>p\<in>set (producers q). stream p = [])"
    using score_empty [of "producers q" 0 None 0] score_nonempty [of "producers q" 0 None 0] s by auto
  then show ?thesis
    by (auto simp: try_dequeue_def s cq_elems_def streams_empty_iff dequeue_where_None split: option.splits)
qed

lemma try_dequeue_Some:
  assumes "try_dequeue q = Some (x, q')"
  shows "\<exists>us p vs xs. producers q = us @ p # vs \<and> stream p = x # xs
    \<and> q' = q\<lparr>producers := us @ p\<lparr>stream := xs\<rparr> # vs\<rparr>"
proof -
  obtain P ps where d: "dequeue_where P (producers q) = Some (x, ps)" "q' = q\<lparr>producers := ps\<rparr>"
    using assms by (auto simp: try_dequeue_def split: prod.splits if_splits option.splits)
  from dequeue_where_Some [OF d(1)] d(2) show ?thesis by blast
qed

lemma try_dequeue_correct:
  assumes "cq_inv q" "try_dequeue q = Some (x, q')"
  shows "cq_inv q' \<and> cq_elems q = add_mset x (cq_elems q')"
proof -
  obtain us p vs xs where d: "producers q = us @ p # vs" "stream p = x # xs"
    "q' = q\<lparr>producers := us @ p\<lparr>stream := xs\<rparr> # vs\<rparr>"
    using try_dequeue_Some [OF assms(2)] by blast
  then have "cq_elems q = add_mset x (cq_elems q')" by (simp add: cq_elems_def)
  moreover have "ownership (producers q') = ownership (producers q)"
    by (simp add: ownership_def d(1,3))
  from cq_inv_cong [OF this] assms(1) have "cq_inv q'" by simp
  ultimately show ?thesis by blast
qed

section \<open>The queue as a bag\<close>

text \<open>
  What a client of the queue may rely on, whatever the order in which producers are served:
  enqueueing adds one element, a failed dequeue means that the queue is empty, a successful one
  takes one element out.
\<close>

primrec drain :: "('q \<Rightarrow> ('a \<times> 'q) option) \<Rightarrow> nat \<Rightarrow> 'q \<Rightarrow> 'a list \<times> 'q" where
  "drain deq 0 q = ([], q)"
| "drain deq (Suc n) q =
     (case deq q of None \<Rightarrow> ([], q)
      | Some (x, q') \<Rightarrow> (case drain deq n q' of (xs, q'') \<Rightarrow> (x # xs, q'')))"

locale bag_consumer =
  fixes inv :: "'q \<Rightarrow> bool"
    and deq :: "'q \<Rightarrow> ('a \<times> 'q) option"
    and elems :: "'q \<Rightarrow> 'a multiset"
  assumes deq_empty: "inv q \<Longrightarrow> deq q = None \<longleftrightarrow> elems q = {#}"
    and deq_inv: "inv q \<Longrightarrow> deq q = Some (x, q') \<Longrightarrow> inv q'"
    and deq_elems: "inv q \<Longrightarrow> deq q = Some (x, q') \<Longrightarrow> elems q = add_mset x (elems q')"
begin

lemma drain_all:
  assumes "inv q" "drain deq n q = (xs, q')" "size (elems q) \<le> n"
  shows "mset xs = elems q" "elems q' = {#}" "inv q'"
proof -
  have "mset xs = elems q \<and> elems q' = {#} \<and> inv q'"
    using assms
  proof (induction n arbitrary: q xs)
    case (Suc n)
    show ?case
    proof (cases "deq q")
      case None
      with Suc.prems show ?thesis by (auto simp: deq_empty)
    next
      case (Some r)
      obtain x q1 where r: "r = (x, q1)" by fastforce
      obtain ys q2 where d: "drain deq n q1 = (ys, q2)" by fastforce
      have "elems q = add_mset x (elems q1)" "inv q1"
        using Some r deq_elems [OF Suc.prems(1)] deq_inv [OF Suc.prems(1)] by auto
      with Suc.IH [of q1 ys] Suc.prems Some r d show ?thesis by auto
    qed
  qed simp
  then show "mset xs = elems q" "elems q' = {#}" "inv q'" by blast+
qed

end

locale bag_queue = bag_consumer inv deq elems
  for inv :: "'q \<Rightarrow> bool" and deq :: "'q \<Rightarrow> ('a \<times> 'q) option" and elems :: "'q \<Rightarrow> 'a multiset" +
  fixes enq :: "'q \<Rightarrow> nat \<Rightarrow> 'a \<Rightarrow> 'q"
  assumes enq_inv: "inv q \<Longrightarrow> inv (enq q t x)"
    and enq_elems: "inv q \<Longrightarrow> elems (enq q t x) = add_mset x (elems q)"
begin

lemma enq_all:
  assumes "inv q"
  shows "inv (fold (\<lambda>x q. enq q t x) xs q)"
    and "elems (fold (\<lambda>x q. enq q t x) xs q) = elems q + mset xs"
  using assms by (induction xs arbitrary: q) (simp_all add: enq_inv enq_elems)

lemma enq_each:
  assumes "inv q"
  shows "inv (fold (\<lambda>(t, x) q. enq q t x) txs q)"
    and "elems (fold (\<lambda>(t, x) q. enq q t x) txs q) = elems q + mset (map snd txs)"
  using assms by (induction txs arbitrary: q) (auto simp: enq_inv enq_elems)

end

interpretation cq: bag_queue cq_inv try_dequeue cq_elems enqueue
proof (unfold_locales, goal_cases)
  case (1 q)
  show ?case by (rule try_dequeue_None)
next
  case (2 q x q')
  from try_dequeue_correct [OF this] show ?case by simp
next
  case (3 q x q')
  from try_dequeue_correct [OF this] show ?case by simp
next
  case (4 q t x)
  then show ?case by (rule enqueue_correct(1))
next
  case (5 q t x)
  then show ?case by (rule enqueue_correct(2))
qed

text \<open>
  Whatever threads enqueue the elements of a list, and whatever the queue held, dequeueing
  until the queue reports empty delivers every element exactly once, and it does report empty.
\<close>

theorem cq_delivers_exactly_once:
  assumes "cq_inv q" "drain try_dequeue n (fold (\<lambda>(t, x) q. enqueue q t x) txs q) = (ys, q')"
    "size (cq_elems q) + length txs \<le> n"
  shows "mset ys = cq_elems q + mset (map snd txs) \<and> try_dequeue q' = None"
proof -
  let ?q = "fold (\<lambda>(t, x) q. enqueue q t x) txs q"
  have q: "cq_inv ?q \<and> cq_elems ?q = cq_elems q + mset (map snd txs)"
    using cq.enq_each [OF assms(1)] by blast
  then have "size (cq_elems ?q) \<le> n" using assms(3) by simp
  with cq.drain_all [OF _ assms(2)] q show ?thesis by (simp add: cq.deq_empty)
qed

theorem cq_delivers_exactly_once_witness:
  "\<exists>ys q'. drain try_dequeue 3 (fold (\<lambda>(t, x) q. enqueue q t x)
       [(0, ''a''), (1, ''b''), (0, ''c'')] cq_empty) = (ys, q')
     \<and> mset ys = mset [''a'', ''b'', ''c''] \<and> try_dequeue q' = None"
proof -
  obtain ys q' where d: "drain try_dequeue 3 (fold (\<lambda>(t, x) q. enqueue q t x)
       [(0, ''a''), (1, ''b''), (0, ''c'')] cq_empty) = (ys, q')" by fastforce
  have "cq_elems cq_empty = ({#} :: string multiset)" by (simp add: cq_elems_def cq_empty_def)
  with cq_delivers_exactly_once [OF cq_inv_empty d] d show ?thesis by simp
qed

text \<open>
  A dequeue takes the oldest element of one producer's stream and changes nothing else:
  the elements one thread enqueued come out in the order in which it enqueued them.
\<close>

theorem try_dequeue_fifo_per_producer:
  assumes "try_dequeue q = Some (x, q')"
  shows "\<exists>us p vs xs. producers q = us @ p # vs \<and> stream p = x # xs
    \<and> producers q' = us @ p\<lparr>stream := xs\<rparr> # vs"
proof -
  obtain us p vs xs where d: "producers q = us @ p # vs" "stream p = x # xs"
    "q' = q\<lparr>producers := us @ p\<lparr>stream := xs\<rparr> # vs\<rparr>"
    using try_dequeue_Some [OF assms] by blast
  have "producers q' = us @ p\<lparr>stream := xs\<rparr> # vs" unfolding d(3) by simp
  with d(1,2) show ?thesis by blast
qed

theorem try_dequeue_fifo_per_producer_witness:
  "\<exists>q' us p vs xs. try_dequeue (enqueue (enqueue cq_empty 0 ''a'') 0 ''b'') = Some (''a'', q')
     \<and> producers (enqueue (enqueue cq_empty 0 ''a'') 0 ''b'') = us @ p # vs \<and> stream p = ''a'' # xs
     \<and> producers q' = us @ p\<lparr>stream := xs\<rparr> # vs"
proof -
  have "map_option fst (try_dequeue (enqueue (enqueue cq_empty 0 ''a'') 0 ''b'')) = Some ''a''"
    by code_simp
  then obtain q' where "try_dequeue (enqueue (enqueue cq_empty 0 ''a'') 0 ''b'') = Some (''a'', q')"
    by auto
  from this try_dequeue_fifo_per_producer [OF this] show ?thesis by blast
qed

end
