(* ===== verification/CQ_Hash.thy ===== *)
theory CQ_Hash
  imports CQ_Bits CQ_Dispatch
begin

text \<open>
  The hash table from threads to implicit producers (\<^verbatim>\<open>populate_initial_implicit_producer_hash\<close> and
  \<^verbatim>\<open>get_or_add_implicit_producer\<close> of \<^verbatim>\<open>src/utils/concurrentqueue-1.0.3/concurrentqueue.h\<close>): tables
  with linear probing, each twice as large as the one before it or larger, chained by \<^verbatim>\<open>prev\<close>. A thread looks
  itself up in the newest table and then in the older ones; when an older one has it, it is copied to the newest.
  A table that would become half full is replaced by a larger one.

  As the header disables \<^verbatim>\<open>MOODYCAMEL_CPP11_THREAD_LOCAL_SUPPORTED\<close>, no key is ever given up and
  the branches for reusable keys are not compiled. One call is one step of the model.
  The probing loops of the source have no bound: here they are partial functions, whose
  result \<open>None\<close> would be a loop that never ends. The theorem at the end says that no loop runs forever and that
  the tables behave as the search for the producer of a thread among all producers, which is how
  \<^verbatim>\<open>CQ_Dispatch\<close> describes the queue.
\<close>

section \<open>State\<close>

record ImplicitProducerKVP =
  kvp_key :: u64
  kvp_value :: "nat option"

record ImplicitProducerHash =
  hash_capacity :: u64
  hash_entries :: "ImplicitProducerKVP list"

text \<open>The first table of the list is \<^verbatim>\<open>implicitProducerHash\<close>, the next one its \<^verbatim>\<open>prev\<close> and so on.\<close>

record ProducerHashes =
  implicitProducerHash :: "ImplicitProducerHash list"
  implicitProducerHashCount :: u64
  resizeInProgress :: bool

definition invalid_thread_id :: u64 where
  "invalid_thread_id = 0"

definition INITIAL_IMPLICIT_PRODUCER_HASH_SIZE :: nat where
  "INITIAL_IMPLICIT_PRODUCER_HASH_SIZE = 32"

definition empty_hash :: "u64 \<Rightarrow> ImplicitProducerHash" where
  "empty_hash newCapacity =
     \<lparr>hash_capacity = newCapacity,
      hash_entries = replicate (unat newCapacity) \<lparr>kvp_key = invalid_thread_id, kvp_value = None\<rparr>\<rparr>"

definition populate_initial_implicit_producer_hash :: ProducerHashes where
  "populate_initial_implicit_producer_hash =
     \<lparr>implicitProducerHash = [empty_hash (of_nat INITIAL_IMPLICIT_PRODUCER_HASH_SIZE)],
      implicitProducerHashCount = 0, resizeInProgress = False\<rparr>"

section \<open>Operations\<close>

text \<open>Look for an tid in one table: \<open>Some None\<close> is the break at a free slot.\<close>

partial_function (option) find_key ::
  "ImplicitProducerHash \<Rightarrow> u64 \<Rightarrow> u64 \<Rightarrow> nat option option" where
  "find_key hash tid index =
     (let index = index AND (hash_capacity hash - 1);
          probedKey = kvp_key (hash_entries hash ! unat index)
      in if probedKey = tid then Some (Some (unat index))
         else if probedKey = invalid_thread_id then Some None
         else find_key hash tid (index + 1))"

text \<open>Take the first free slot.\<close>

partial_function (option) claim_slot ::
  "u64 \<Rightarrow> nat option \<Rightarrow> ImplicitProducerHash \<Rightarrow> u64 \<Rightarrow> ImplicitProducerHash option" where
  "claim_slot tid v hash index =
     (let index = index AND (hash_capacity hash - 1);
          probedKey = kvp_key (hash_entries hash ! unat index)
      in if probedKey = invalid_thread_id
         then Some (hash\<lparr>hash_entries := (hash_entries hash)[unat index := \<lparr>kvp_key = tid, kvp_value = v\<rparr>]\<rparr>)
         else claim_slot tid v hash (index + 1))"

text \<open>Search a chain of tables: how deep the tid was found, and the producer there.\<close>

fun search_hashes :: "ImplicitProducerHash list \<Rightarrow> u64 \<Rightarrow> u64 \<Rightarrow> (nat \<times> nat option) option option" where
  "search_hashes [] tid hashedId = Some None"
| "search_hashes (hash # prev) tid hashedId =
     (case find_key hash tid hashedId of
        None \<Rightarrow> None
      | Some (Some index) \<Rightarrow> Some (Some (0, kvp_value (hash_entries hash ! index)))
      | Some None \<Rightarrow>
          map_option (map_option (\<lambda>(depth, v). (Suc depth, v))) (search_hashes prev tid hashedId))"

partial_function (option) grow_capacity :: "u64 \<Rightarrow> u64 \<Rightarrow> u64 option" where
  "grow_capacity newCount newCapacity =
     (if newCount \<ge> drop_bit 1 newCapacity then grow_capacity newCount (push_bit 1 newCapacity) else Some newCapacity)"

text \<open>
  The part of the insertion that replaces the table. The flag is free when the call starts and free again when
  it ends. The result is the new state, or the failure of the allocation.
\<close>

definition resize_hash :: "bool \<Rightarrow> u64 \<Rightarrow> ProducerHashes \<Rightarrow> (ProducerHashes + ProducerHashes) option" where
  "resize_hash allocated newCount s =
     (let mainHash = hd (implicitProducerHash s)
      in if newCount \<ge> drop_bit 1 (hash_capacity mainHash) \<and> \<not> resizeInProgress s
         then case grow_capacity newCount (push_bit 1 (hash_capacity mainHash)) of
                None \<Rightarrow> None
              | Some newCapacity \<Rightarrow>
                  if \<not> allocated then Some (Inl (s\<lparr>implicitProducerHashCount := implicitProducerHashCount s - 1\<rparr>))
                  else Some (Inr (s\<lparr>implicitProducerHash := empty_hash newCapacity # implicitProducerHash s\<rparr>))
         else Some (Inr s))"

text \<open>
  The insertion loop: a table less than three quarters full takes the new thread; otherwise the
  thread waits for another one to replace the table. \<open>allocated\<close> says whether the memory for a larger table is there,
  \<open>created\<close> whether the one for a producer is.
\<close>

partial_function (option) insert_producer ::
  "bool \<Rightarrow> bool \<Rightarrow> u64 \<Rightarrow> u64 \<Rightarrow> ProducerHashes \<Rightarrow> 'a ConcurrentQueue \<Rightarrow>
   (nat option \<times> ProducerHashes \<times> 'a ConcurrentQueue) option" where
  "insert_producer allocated created tid newCount s q =
     (case resize_hash allocated newCount s of
        None \<Rightarrow> None
      | Some (Inl s') \<Rightarrow> Some (None, s', q)
      | Some (Inr s') \<Rightarrow>
          (let mainHash = hd (implicitProducerHash s')
           in if newCount < drop_bit 1 (hash_capacity mainHash) + drop_bit 2 (hash_capacity mainHash)
              then if \<not> created \<and> find (\<lambda>p. inactive p \<and> \<not> isExplicit p) (producers q) = None
                   then Some (None, s'\<lparr>implicitProducerHashCount := implicitProducerHashCount s' - 1\<rparr>, q)
                   else (case recycle_or_create_producer q False (Some (unat tid)) of (q', producer, recycled) \<Rightarrow>
                     let count = (if recycled then implicitProducerHashCount s' - 1 else implicitProducerHashCount s')
                     in map_option (\<lambda>hash. (Some producer,
                             s'\<lparr>implicitProducerHash := hash # tl (implicitProducerHash s'),
                                implicitProducerHashCount := count\<rparr>, q'))
                          (claim_slot tid (Some producer) mainHash (hash_thread_id tid)))
              else insert_producer allocated created tid newCount s' q))"

definition hash_get_or_add ::
  "bool \<Rightarrow> bool \<Rightarrow> u64 \<Rightarrow> ProducerHashes \<Rightarrow> 'a ConcurrentQueue \<Rightarrow>
   (nat option \<times> ProducerHashes \<times> 'a ConcurrentQueue) option" where
  "hash_get_or_add allocated created tid s q =
     (let hashedId = hash_thread_id tid
      in case search_hashes (implicitProducerHash s) tid hashedId of
           None \<Rightarrow> None
         | Some (Some (depth, v)) \<Rightarrow>
             if depth = 0 then Some (v, s, q)
             else map_option (\<lambda>hash. (v, s\<lparr>implicitProducerHash := hash # tl (implicitProducerHash s)\<rparr>, q))
                    (claim_slot tid v (hd (implicitProducerHash s)) hashedId)
         | Some None \<Rightarrow>
             (let newCount = 1 + implicitProducerHashCount s
              in insert_producer allocated created tid newCount
                   (s\<lparr>implicitProducerHashCount := newCount\<rparr>) q))"

declare find_key.simps [code] claim_slot.simps [code] grow_capacity.simps [code] insert_producer.simps [code]

section \<open>Linear probing\<close>

definition home :: "nat \<Rightarrow> u64 \<Rightarrow> nat" where
  "home k tid = unat (hash_thread_id tid) mod 2 ^ k"

abbreviation key_at :: "ImplicitProducerHash \<Rightarrow> nat \<Rightarrow> u64" where
  "key_at h i \<equiv> kvp_key (hash_entries h ! i)"

definition table_map :: "ImplicitProducerHash \<Rightarrow> u64 \<rightharpoonup> nat option" where
  "table_map h x = (if x = 0 then None else map_option kvp_value (find (\<lambda>e. kvp_key e = x) (hash_entries h)))"

text \<open>
  A table of \<open>2 ^ k\<close> slots that is not full: no id is in it twice, and there is no free slot between the home of an id and
  its place.
\<close>

definition probe_ok :: "nat \<Rightarrow> ImplicitProducerHash \<Rightarrow> bool" where
  "probe_ok k h \<longleftrightarrow> k \<le> 62 \<and> hash_capacity h = 2 ^ k \<and> length (hash_entries h) = 2 ^ k \<and>
     (\<forall>i < 2 ^ k. \<forall>j < 2 ^ k. key_at h i = key_at h j \<longrightarrow> key_at h i \<noteq> 0 \<longrightarrow> i = j) \<and>
     (\<forall>i < 2 ^ k. key_at h i \<noteq> 0 \<longrightarrow>
        (\<exists>d < 2 ^ k. i = (home k (key_at h i) + d) mod 2 ^ k \<and>
           (\<forall>j < d. key_at h ((home k (key_at h i) + j) mod 2 ^ k) \<noteq> 0)))"

definition wf_table :: "nat \<Rightarrow> ImplicitProducerHash \<Rightarrow> bool" where
  "wf_table k h \<longleftrightarrow> probe_ok k h \<and> card (dom (table_map h)) < 2 ^ k"

lemma mask_index_Suc:
  assumes "k \<le> 62"
  shows "unat ((x AND (2 ^ k - 1)) + 1 :: u64) mod 2 ^ k = (unat x + 1) mod 2 ^ k"
proof -
  have "unat x mod 2 ^ k < (2 :: nat) ^ k" by simp
  also have "(2 :: nat) ^ k \<le> 2 ^ 62" using assms by (intro power_increasing) simp_all
  finally have "unat ((x AND (2 ^ k - 1)) + 1 :: u64) = unat x mod 2 ^ k + 1"
    unfolding unat_word_ariths and_pow2_minus_one by simp
  then show ?thesis by presburger
qed

lemma find_key_walk:
  assumes "k \<le> 62" "hash_capacity h = 2 ^ k"
    "\<And>j. j < d \<Longrightarrow> key_at h ((unat index + j) mod 2 ^ k) \<notin> {0, tid}"
    "key_at h ((unat index + d) mod 2 ^ k) \<in> {0, tid}" "tid \<noteq> 0"
  shows "find_key h tid index =
    Some (if key_at h ((unat index + d) mod 2 ^ k) = tid then Some ((unat index + d) mod 2 ^ k) else None)"
  using assms(3,4)
proof (induction d arbitrary: index)
  case 0
  then show ?case
    by (subst find_key.simps) (auto simp: assms(2,5) and_pow2_minus_one invalid_thread_id_def Let_def)
next
  case (Suc d)
  let ?i = "(index AND (2 ^ k - 1)) + 1"
  have i: "(unat ?i + j) mod 2 ^ k = (unat index + Suc j) mod 2 ^ k" for j
    using mask_index_Suc [OF assms(1), of index] by (metis add_Suc_right add_Suc_shift mod_add_left_eq Suc_eq_plus1)
  have "find_key h tid index = find_key h tid ?i"
    using Suc.prems(1) [of 0]
    by (subst find_key.simps) (auto simp: assms(2) and_pow2_minus_one invalid_thread_id_def Let_def)
  also have "\<dots> = Some (if key_at h ((unat ?i + d) mod 2 ^ k) = tid then Some ((unat ?i + d) mod 2 ^ k) else None)"
    by (rule Suc.IH; unfold i; rule Suc.prems) (simp only: Suc_less_eq)
  finally show ?case by (simp only: i)
qed

lemma claim_slot_walk:
  assumes "k \<le> 62" "hash_capacity h = 2 ^ k"
    "\<And>j. j < d \<Longrightarrow> key_at h ((unat index + j) mod 2 ^ k) \<noteq> 0"
    "key_at h ((unat index + d) mod 2 ^ k) = 0"
  shows "claim_slot tid v h index = Some (h\<lparr>hash_entries :=
    (hash_entries h)[(unat index + d) mod 2 ^ k := \<lparr>kvp_key = tid, kvp_value = v\<rparr>]\<rparr>)"
  using assms(3,4)
proof (induction d arbitrary: index)
  case 0
  then show ?case
    by (subst claim_slot.simps) (auto simp: assms(2) and_pow2_minus_one invalid_thread_id_def Let_def)
next
  case (Suc d)
  let ?i = "(index AND (2 ^ k - 1)) + 1"
  have i: "(unat ?i + j) mod 2 ^ k = (unat index + Suc j) mod 2 ^ k" for j
    using mask_index_Suc [OF assms(1), of index] by (metis add_Suc_right add_Suc_shift mod_add_left_eq Suc_eq_plus1)
  have "claim_slot tid v h index = claim_slot tid v h ?i"
    using Suc.prems(1) [of 0]
    by (subst claim_slot.simps) (auto simp: assms(2) and_pow2_minus_one invalid_thread_id_def Let_def)
  also have "\<dots> = Some (h\<lparr>hash_entries :=
    (hash_entries h)[(unat ?i + d) mod 2 ^ k := \<lparr>kvp_key = tid, kvp_value = v\<rparr>]\<rparr>)"
    by (rule Suc.IH; unfold i; rule Suc.prems) (simp only: Suc_less_eq)
  finally show ?case by (simp only: i)
qed

subsection \<open>One table\<close>

lemma table_map_None:
  "length (hash_entries h) = 2 ^ k \<Longrightarrow> x \<noteq> 0 \<Longrightarrow> table_map h x = None \<longleftrightarrow> (\<forall>i < 2 ^ k. key_at h i \<noteq> x)"
  by (auto simp: table_map_def find_None_iff in_set_conv_nth)

lemma table_map_slot:
  assumes "probe_ok k h" "i < 2 ^ k" "key_at h i \<noteq> 0"
  shows "table_map h (key_at h i) = Some (kvp_value (hash_entries h ! i))"
proof -
  have "find (\<lambda>e. kvp_key e = key_at h i) (hash_entries h) = Some (hash_entries h ! i)"
    unfolding find_Some_iff
  proof (intro exI [of _ i] conjI allI impI)
    fix j
    assume "j < i"
    then show "key_at h j \<noteq> key_at h i" using assms unfolding probe_ok_def by (metis less_irrefl order.strict_trans)
  qed (use assms in \<open>simp_all add: probe_ok_def\<close>)
  then show ?thesis using assms(3) by (simp add: table_map_def)
qed

lemma dom_table_map:
  assumes "probe_ok k h"
  shows "dom (table_map h) = key_at h ` {i. i < 2 ^ k \<and> key_at h i \<noteq> 0}"
proof (intro set_eqI iffI)
  fix x assume x: "x \<in> dom (table_map h)"
  then have "x \<noteq> 0" "table_map h x \<noteq> None" by (auto simp: table_map_def)
  moreover have "length (hash_entries h) = 2 ^ k" using assms by (simp add: probe_ok_def)
  ultimately obtain i where "i < 2 ^ k" "key_at h i = x" using table_map_None [of h k x] by auto
  then show "x \<in> key_at h ` {i. i < 2 ^ k \<and> key_at h i \<noteq> 0}" using \<open>x \<noteq> 0\<close> by blast
next
  fix x assume "x \<in> key_at h ` {i. i < 2 ^ k \<and> key_at h i \<noteq> 0}"
  then show "x \<in> dom (table_map h)" using table_map_slot [OF assms] by blast
qed

lemma finite_table_map: "finite (dom (table_map h))"
proof (rule finite_subset)
  show "dom (table_map h) \<subseteq> kvp_key ` set (hash_entries h)"
    by (auto simp: table_map_def find_Some_iff split: if_splits)
qed simp

lemma card_table_map:
  assumes "probe_ok k h"
  shows "card (dom (table_map h)) + card {i. i < 2 ^ k \<and> key_at h i = 0} = 2 ^ k"
proof -
  have "inj_on (key_at h) {i. i < 2 ^ k \<and> key_at h i \<noteq> 0}" using assms by (auto simp: probe_ok_def inj_on_def)
  then have "card (dom (table_map h)) = card {i. i < 2 ^ k \<and> key_at h i \<noteq> 0}"
    unfolding dom_table_map [OF assms] by (rule card_image)
  moreover have "card {i. i < 2 ^ k \<and> key_at h i \<noteq> 0} + card {i. i < 2 ^ k \<and> key_at h i = 0} = card {..< 2 ^ k :: nat}"
    by (subst card_Un_disjoint [symmetric]) (auto simp del: card_lessThan intro!: arg_cong [where f = card])
  ultimately show ?thesis by simp
qed

lemma offset_mod:
  assumes "i < (2 :: nat) ^ k"
  shows "\<exists>d < 2 ^ k. i = (n + d) mod 2 ^ k"
proof -
  let ?d = "(i + (2 ^ k - n mod 2 ^ k)) mod 2 ^ k"
  have "n mod 2 ^ k \<le> 2 ^ k" by (rule less_imp_le) simp
  then have eq: "n mod 2 ^ k + (i + (2 ^ k - n mod 2 ^ k)) = i + 2 ^ k" by linarith
  have "(n + ?d) mod 2 ^ k = (n mod 2 ^ k + (i + (2 ^ k - n mod 2 ^ k))) mod 2 ^ k" by (simp add: mod_simps)
  also note eq
  finally have "(n + ?d) mod 2 ^ k = i" using assms by simp
  then show ?thesis by (metis mod_less_divisor zero_less_numeral zero_less_power)
qed

text \<open>The first free slot on the way of an id.\<close>

lemma first_free:
  assumes "wf_table k h"
  shows "\<exists>d < 2 ^ k. key_at h ((n + d) mod 2 ^ k) = 0 \<and> (\<forall>j < d. key_at h ((n + j) mod 2 ^ k) \<noteq> 0)"
proof -
  have "{i. i < 2 ^ k \<and> key_at h i = 0} \<noteq> {}"
  proof
    assume "{i. i < 2 ^ k \<and> key_at h i = 0} = {}"
    then have "card (dom (table_map h)) = 2 ^ k" using card_table_map [of k h] assms
      by (simp only: card.empty add_0_right wf_table_def)
    then show False using assms unfolding wf_table_def by simp
  qed
  then obtain i where "i < 2 ^ k" "key_at h i = 0" by blast
  then obtain d where d: "d < 2 ^ k" "key_at h ((n + d) mod 2 ^ k) = 0" using offset_mod [of i k n] by metis
  let ?P = "\<lambda>d. key_at h ((n + d) mod 2 ^ k) = 0"
  have "?P (LEAST d. ?P d)" "(LEAST d. ?P d) \<le> d" using d(2) by (rule LeastI, rule Least_le)
  moreover have "\<forall>j < (LEAST d. ?P d). \<not> ?P j" using not_less_Least by blast
  ultimately show ?thesis using d(1) by (meson le_less_trans)
qed

lemma mod_offset_inject:
  assumes "(n + i) mod N = (n + j) mod (N :: nat)" "i < N" "j < N"
  shows "i = j"
proof -
  have "b - a = 0" if "(n + a) mod N = (n + b) mod N" "a \<le> b" "b < N" for a b
    using mod_eq_dvd_iff_nat [of "n + a" "n + b" N] that dvd_imp_le [of N "b - a"] by (cases "a < b") auto
  then show ?thesis using assms by (metis diff_is_0_eq le_antisym linear)
qed

lemma home_offset: "(unat (hash_thread_id tid) + j) mod 2 ^ k = (home k tid + j) mod 2 ^ k"
  by (simp add: home_def mod_simps)

lemma find_key_correct:
  assumes wf: "wf_table k h" and tid: "tid \<noteq> 0"
  shows "\<exists>r. find_key h tid (hash_thread_id tid) = Some r \<and> map_option (\<lambda>i. kvp_value (hash_entries h ! i)) r = table_map h tid"
proof -
  have p: "k \<le> 62" "hash_capacity h = 2 ^ k" "length (hash_entries h) = 2 ^ k" "probe_ok k h"
    using wf by (simp_all add: wf_table_def probe_ok_def)
  show ?thesis
  proof (cases "\<exists>i < 2 ^ k. key_at h i = tid")
    case True
    then obtain i where i: "i < 2 ^ k" "key_at h i = tid" by blast
    then obtain d where d: "d < 2 ^ k" "i = (home k tid + d) mod 2 ^ k"
      "\<And>j. j < d \<Longrightarrow> key_at h ((home k tid + j) mod 2 ^ k) \<noteq> 0"
      using p(4) tid unfolding probe_ok_def by metis
    have other: "key_at h ((home k tid + j) mod 2 ^ k) \<noteq> tid" if "j < d" for j
    proof
      assume "key_at h ((home k tid + j) mod 2 ^ k) = tid"
      then have "(home k tid + j) mod 2 ^ k = i" using i tid p(4) unfolding probe_ok_def by simp
      then show False using mod_offset_inject [of "home k tid" j "2 ^ k" d] d(1,2) that by simp
    qed
    have "find_key h tid (hash_thread_id tid) = Some (Some i)"
      using find_key_walk [OF p(1,2), of d "hash_thread_id tid" tid] d other i(2) tid by (simp add: home_offset)
    then show ?thesis using table_map_slot [OF p(4) i(1)] i(2) tid by simp
  next
    case False
    obtain d where d: "key_at h ((unat (hash_thread_id tid) + d) mod 2 ^ k) = 0"
      "\<And>j. j < d \<Longrightarrow> key_at h ((unat (hash_thread_id tid) + j) mod 2 ^ k) \<noteq> 0"
      using first_free [OF wf] by blast
    have "key_at h ((unat (hash_thread_id tid) + j) mod 2 ^ k) \<noteq> tid" for j using False by simp
    then have "find_key h tid (hash_thread_id tid) = Some None"
      using find_key_walk [OF p(1,2), of d "hash_thread_id tid" tid] d tid by simp
    then show ?thesis using False table_map_None [OF p(3) tid] by simp
  qed
qed

text \<open>A free slot on the way of an id may take it.\<close>

lemma put_probe_ok:
  assumes p: "probe_ok k h" and tid: "tid \<noteq> 0" "table_map h tid = None" and d: "d < 2 ^ k"
    and free: "key_at h ((home k tid + d) mod 2 ^ k) = 0" "\<And>j. j < d \<Longrightarrow> key_at h ((home k tid + j) mod 2 ^ k) \<noteq> 0"
    and h': "h' = h\<lparr>hash_entries := (hash_entries h)[(home k tid + d) mod 2 ^ k := \<lparr>kvp_key = tid, kvp_value = v\<rparr>]\<rparr>"
  shows "probe_ok k h' \<and> table_map h' = (table_map h)(tid \<mapsto> v)"
proof -
  let ?i = "(home k tid + d) mod 2 ^ k"
  have len: "length (hash_entries h) = 2 ^ k" "length (hash_entries h') = 2 ^ k" using p by (simp_all add: probe_ok_def h')
  have i: "?i < 2 ^ k" by simp
  have at: "key_at h' j = (if j = ?i then tid else key_at h j)" for j using len i by (simp add: h' nth_list_update)
  have new: "key_at h j \<noteq> tid" if "j < 2 ^ k" for j using table_map_None [OF len(1) tid(1)] tid(2) that by simp
  have ok: "probe_ok k h'"
    unfolding probe_ok_def
  proof (intro conjI allI impI)
    fix j
    assume j: "j < 2 ^ k" "key_at h' j \<noteq> 0"
    show "\<exists>e < 2 ^ k. j = (home k (key_at h' j) + e) mod 2 ^ k \<and> (\<forall>l < e. key_at h' ((home k (key_at h' j) + l) mod 2 ^ k) \<noteq> 0)"
    proof (cases "j = ?i")
      case True
      then show ?thesis using d free(2) tid(1) by (auto simp: at intro!: exI [of _ d])
    next
      case False
      then obtain e where "e < 2 ^ k" "j = (home k (key_at h j) + e) mod 2 ^ k"
        "\<forall>l < e. key_at h ((home k (key_at h j) + l) mod 2 ^ k) \<noteq> 0"
        using p j unfolding probe_ok_def at by metis
      then show ?thesis using False tid(1) by (auto simp: at intro!: exI [of _ e])
    qed
  next
    fix a b :: nat
    assume "a < 2 ^ k" "b < 2 ^ k" "key_at h' a = key_at h' b" "key_at h' a \<noteq> 0"
    then show "a = b" using p new unfolding probe_ok_def at by (metis (full_types))
  qed (use p in \<open>auto simp: probe_ok_def h'\<close>)
  have "table_map h' x = ((table_map h)(tid \<mapsto> v)) x" for x
  proof (cases "x = 0 \<or> x = tid")
    case True
    then show ?thesis using table_map_slot [OF ok i] tid(1) len i by (auto simp: at table_map_def h')
  next
    case False
    show ?thesis
    proof (cases "table_map h x")
      case None
      then show ?thesis using False table_map_None [OF len(1), of x] table_map_None [OF len(2), of x] by (auto simp: at)
    next
      case (Some w)
      then obtain j where j: "j < 2 ^ k" "key_at h j = x" using False table_map_None [OF len(1), of x] by auto
      then have "j \<noteq> ?i" using free(1) False by metis
      then show ?thesis using False j table_map_slot [OF p, of j] table_map_slot [OF ok, of j] by (auto simp: at h')
    qed
  qed
  with ok show ?thesis by blast
qed

lemma claim_slot_correct:
  assumes wf: "wf_table k h" and tid: "tid \<noteq> 0" "table_map h tid = None" and room: "card (dom (table_map h)) + 1 < 2 ^ k"
  shows "\<exists>h'. claim_slot tid v h (hash_thread_id tid) = Some h' \<and> wf_table k h' \<and> table_map h' = (table_map h)(tid \<mapsto> v)"
proof -
  have p: "k \<le> 62" "hash_capacity h = 2 ^ k" "probe_ok k h" using wf by (simp_all add: wf_table_def probe_ok_def)
  obtain d where d: "d < 2 ^ k" "key_at h ((home k tid + d) mod 2 ^ k) = 0"
    "\<And>j. j < d \<Longrightarrow> key_at h ((home k tid + j) mod 2 ^ k) \<noteq> 0"
    using first_free [OF wf] by blast
  let ?h = "h\<lparr>hash_entries := (hash_entries h)[(home k tid + d) mod 2 ^ k := \<lparr>kvp_key = tid, kvp_value = v\<rparr>]\<rparr>"
  have put: "probe_ok k ?h" "table_map ?h = (table_map h)(tid \<mapsto> v)"
    using put_probe_ok [OF p(3) tid d refl] by blast+
  have "card (dom (table_map ?h)) < 2 ^ k"
    using room tid(2) finite_table_map [of h] by (simp add: put(2) card_insert_if domIff)
  moreover have "claim_slot tid v h (hash_thread_id tid) = Some ?h"
    using claim_slot_walk [OF p(1,2), of d "hash_thread_id tid"] d(2,3) by (simp add: home_offset)
  ultimately show ?thesis using put by (auto simp: wf_table_def)
qed

section \<open>The chain of tables\<close>

fun chain_map :: "ImplicitProducerHash list \<Rightarrow> u64 \<rightharpoonup> nat option" where
  "chain_map [] = Map.empty"
| "chain_map (h # hs) = chain_map hs ++ table_map h"

lemma search_hashes_correct:
  assumes "\<forall>h \<in> set hs. \<exists>k. wf_table k h" "tid \<noteq> 0"
  shows "\<exists>r. search_hashes hs tid (hash_thread_id tid) = Some r \<and> map_option snd r = chain_map hs tid \<and>
    (\<forall>d v. r = Some (Suc d, v) \<longrightarrow> table_map (hd hs) tid = None)"
  using assms(1)
proof (induction hs)
  case (Cons h hs)
  then obtain k where "wf_table k h" by auto
  then obtain r where r: "find_key h tid (hash_thread_id tid) = Some r"
    "map_option (\<lambda>i. kvp_value (hash_entries h ! i)) r = table_map h tid"
    using find_key_correct assms(2) by blast
  obtain r' where r': "search_hashes hs tid (hash_thread_id tid) = Some r'" "map_option snd r' = chain_map hs tid"
    using Cons by auto
  show ?case
  proof (cases r)
    case None
    then show ?thesis using r r' by (cases r') (auto simp: map_add_def)
  next
    case (Some i)
    then show ?thesis using r by (auto simp: map_add_def split: option.splits)
  qed
qed simp

text \<open>
  \<open>n\<close> threads have been counted and \<open>m\<close> is where the tables send each of them. The newest table is less than half full.
\<close>

definition tables_ok :: "nat \<Rightarrow> ImplicitProducerHash list \<Rightarrow> (u64 \<rightharpoonup> nat option) \<Rightarrow> bool" where
  "tables_ok n hs m \<longleftrightarrow> hs \<noteq> [] \<and> (\<exists>k. wf_table k (hd hs) \<and> n < 2 ^ k div 2) \<and> (\<forall>h \<in> set hs. \<exists>k. wf_table k h) \<and>
     chain_map hs = m \<and> card (dom m) \<le> n"

lemma finite_chain_map: "finite (dom (chain_map hs))"
  by (induction hs) (simp_all add: finite_table_map)

lemma tables_ok_claim:
  assumes ok: "tables_ok n hs m" and tid: "tid \<noteq> 0" "table_map (hd hs) tid = None" and room: "card (dom (m(tid \<mapsto> v))) \<le> n"
  shows "\<exists>h. claim_slot tid v (hd hs) (hash_thread_id tid) = Some h \<and> tables_ok n (h # tl hs) (m(tid \<mapsto> v))"
proof -
  obtain k where k: "wf_table k (hd hs)" "n < 2 ^ k div 2" using ok by (auto simp: tables_ok_def)
  have hs: "hs = hd hs # tl hs" "chain_map hs = m" using ok by (auto simp: tables_ok_def)
  then have m: "m = chain_map (tl hs) ++ table_map (hd hs)" by (metis chain_map.simps(2))
  have "card (dom (table_map (hd hs))) \<le> card (dom m)"
    using finite_chain_map [of hs] hs(2) m by (intro card_mono) auto
  also have "\<dots> \<le> n" using ok by (simp add: tables_ok_def)
  finally have "card (dom (table_map (hd hs))) + 1 < 2 ^ k" using k(2) by linarith
  then obtain h where h: "claim_slot tid v (hd hs) (hash_thread_id tid) = Some h" "wf_table k h"
    "table_map h = (table_map (hd hs))(tid \<mapsto> v)"
    using claim_slot_correct [OF k(1) tid] by blast
  have "\<forall>g \<in> set (tl hs). \<exists>k. wf_table k g" using ok hs(1) unfolding tables_ok_def by (metis list.set_intros(2))
  then have "tables_ok n (h # tl hs) (m(tid \<mapsto> v))"
    using h(2,3) k(2) room m by (auto simp: tables_ok_def)
  then show ?thesis using h(1) by blast
qed

lemma wf_empty_hash:
  assumes "k \<le> 62"
  shows "wf_table k (empty_hash (2 ^ k))" "table_map (empty_hash (2 ^ k)) = Map.empty"
proof -
  have "unat (2 ^ k :: u64) = 2 ^ k" using assms by (intro unat_pow2) simp
  then have e: "hash_capacity (empty_hash (2 ^ k)) = 2 ^ k"
    "hash_entries (empty_hash (2 ^ k)) = replicate (2 ^ k) \<lparr>kvp_key = 0, kvp_value = None\<rparr>"
    by (simp_all add: empty_hash_def invalid_thread_id_def)
  show m: "table_map (empty_hash (2 ^ k)) = Map.empty"
    by (rule ext) (auto simp: table_map_def e find_None_iff)
  show "wf_table k (empty_hash (2 ^ k))"
    using assms unfolding wf_table_def probe_ok_def m by (simp add: e)
qed

lemma half_quarter:
  assumes "k \<le> 62"
  shows "unat (drop_bit 1 (2 ^ k :: u64)) = 2 ^ k div 2"
    "unat (drop_bit 1 (2 ^ k :: u64) + drop_bit 2 (2 ^ k)) = 2 ^ k div 2 + 2 ^ k div 4"
    "unat (push_bit 1 (2 ^ k :: u64)) = 2 ^ Suc k" "push_bit 1 (2 ^ k :: u64) = 2 ^ Suc k"
proof -
  have u: "unat (2 ^ k :: u64) = 2 ^ k" using assms by (intro unat_pow2) simp
  show "push_bit 1 (2 ^ k :: u64) = 2 ^ Suc k" by (simp add: push_bit_eq_mult)
  show "unat (push_bit 1 (2 ^ k :: u64)) = 2 ^ Suc k"
    unfolding \<open>push_bit 1 (2 ^ k :: u64) = 2 ^ Suc k\<close> using assms by (intro unat_pow2) simp
  have d: "unat (drop_bit j (2 ^ k :: u64)) = 2 ^ k div 2 ^ j" for j
    by (simp only: unat_drop_bit_eq u) (simp only: drop_bit_eq_div)
  show "unat (drop_bit 1 (2 ^ k :: u64)) = 2 ^ k div 2" using d [of 1] by simp
  have "(2 :: nat) ^ k \<le> 2 ^ 62" using assms by (intro power_increasing) simp_all
  then show "unat (drop_bit 1 (2 ^ k :: u64) + drop_bit 2 (2 ^ k)) = 2 ^ k div 2 + 2 ^ k div 4"
    using d [of 1] d [of 2] by (simp add: unat_word_ariths)
qed

lemma resize_hash_correct:
  assumes ok: "tables_ok n (implicitProducerHash s) m" and n: "unat newCount = Suc n" "n < 2 ^ 60"
    and free: "\<not> resizeInProgress s"
  shows "(\<exists>hs. resize_hash allocated newCount s = Some (Inr (s\<lparr>implicitProducerHash := hs\<rparr>)) \<and> tables_ok (Suc n) hs m) \<or>
    \<not> allocated \<and> resize_hash allocated newCount s = Some (Inl (s\<lparr>implicitProducerHashCount := implicitProducerHashCount s - 1\<rparr>))"
proof -
  let ?hs = "implicitProducerHash s"
  obtain k where k: "wf_table k (hd ?hs)" "n < 2 ^ k div 2" using ok by (auto simp: tables_ok_def)
  have k62: "k \<le> 62" "hash_capacity (hd ?hs) = 2 ^ k" using k(1) by (simp_all add: wf_table_def probe_ok_def)
  show ?thesis
  proof (cases "2 ^ k div 2 \<le> Suc n")
    case False
    then have "\<not> drop_bit 1 (hash_capacity (hd ?hs)) \<le> newCount"
      unfolding word_le_nat_alt k62(2) half_quarter [OF k62(1)] n(1) .
    moreover have "tables_ok (Suc n) ?hs m" using ok k False by (auto simp: tables_ok_def)
    ultimately show ?thesis by (auto simp: resize_hash_def Let_def intro!: exI [of _ ?hs])
  next
    case True
    have "k \<noteq> 62" using True n(2) by auto
    then have k61: "Suc k \<le> 62" using k62(1) by simp
    have "\<not> drop_bit 1 (2 ^ Suc k) \<le> newCount"
      using k(2) unfolding word_le_nat_alt half_quarter [OF k61] n(1) by simp
    then have grow: "grow_capacity newCount (push_bit 1 (2 ^ k)) = Some (2 ^ Suc k)"
      unfolding half_quarter(4) [OF k62(1)] by (subst grow_capacity.simps) simp
    have test: "drop_bit 1 (hash_capacity (hd ?hs)) \<le> newCount"
      using True unfolding word_le_nat_alt k62(2) half_quarter [OF k62(1)] n(1) .
    have "tables_ok (Suc n) (empty_hash (2 ^ Suc k) # ?hs) m"
      using ok k(2) wf_empty_hash [OF k61] unfolding tables_ok_def by (auto intro!: exI [of _ "Suc k"])
    then show ?thesis using test grow free k62(2) by (auto simp: resize_hash_def Let_def)
  qed
qed

section \<open>The tables and the producers\<close>

definition producer_map :: "'a ConcurrentQueue \<Rightarrow> u64 \<rightharpoonup> nat option" where
  "producer_map q tid = (if tid = 0 then None
     else map_option (\<lambda>p. Some (prod_id p)) (find (\<lambda>p. prod_thread p = Some (unat tid)) (producers q)))"

definition hash_inv :: "ProducerHashes \<Rightarrow> 'a ConcurrentQueue \<Rightarrow> bool" where
  "hash_inv s q \<longleftrightarrow> tables_ok (unat (implicitProducerHashCount s)) (implicitProducerHash s) (producer_map q) \<and>
     \<not> resizeInProgress s \<and> (\<forall>p \<in> set (producers q). inactive p \<longrightarrow> isExplicit p)"

lemma hash_inv_initial: "hash_inv populate_initial_implicit_producer_hash cq_empty"
proof -
  have five: "(of_nat INITIAL_IMPLICIT_PRODUCER_HASH_SIZE :: u64) = 2 ^ 5"
    by (simp add: INITIAL_IMPLICIT_PRODUCER_HASH_SIZE_def)
  have "producer_map cq_empty = Map.empty" by (rule ext) (simp add: producer_map_def cq_empty_def)
  then show ?thesis
    using wf_empty_hash [of 5]
    by (auto simp: hash_inv_def populate_initial_implicit_producer_hash_def five tables_ok_def cq_empty_def intro!: exI [of _ 5])
qed

lemma producer_map_add:
  assumes "add_producer q False (Some (unat tid)) = (q', i)" "tid \<noteq> 0"
  shows "producer_map q' = (producer_map q)(tid \<mapsto> Some i)"
proof (rule ext)
  fix x
  show "producer_map q' x = ((producer_map q)(tid \<mapsto> Some i)) x"
    using assms by (auto simp: producer_map_def add_producer_def Let_def word_unat_eq_iff)
qed

lemma tables_ok_pred: "tables_ok (Suc n) hs m \<Longrightarrow> card (dom m) \<le> n \<Longrightarrow> tables_ok n hs m"
  unfolding tables_ok_def by (meson Suc_lessD)

text \<open>The call creates the producer that the search among the producers would create.\<close>

lemma insert_producer_correct:
  assumes inv: "tables_ok n (implicitProducerHash s) (producer_map q)" "\<not> resizeInProgress s"
      "\<forall>p \<in> set (producers q). inactive p \<longrightarrow> isExplicit p"
    and tid: "tid \<noteq> 0" "producer_map q tid = None"
    and n: "unat newCount = Suc n" "n < 2 ^ 60" "implicitProducerHashCount s = newCount"
  shows "(\<exists>s' q' i. insert_producer allocated created tid newCount s q = Some (Some i, s', q') \<and>
      get_or_add_implicit_producer q (unat tid) = (q', i) \<and> hash_inv s' q' \<and> implicitProducerHashCount s' = newCount) \<or>
    \<not> (allocated \<and> created) \<and> (\<exists>s'. insert_producer allocated created tid newCount s q = Some (None, s', q) \<and>
      hash_inv s' q \<and> implicitProducerHashCount s' = newCount - 1)"
proof -
  have none: "find (\<lambda>p. inactive p \<and> \<not> isExplicit p) (producers q) = None" using inv(3) by (auto simp: find_None_iff)
  have pred: "unat (newCount - 1) = n" using n(1) by (metis Suc_eq_plus1 add_diff_cancel_right' add_implies_diff unat_1 unat_sub word_le_nat_alt le_add2)
  consider (resized) hs where "resize_hash allocated newCount s = Some (Inr (s\<lparr>implicitProducerHash := hs\<rparr>))" "tables_ok (Suc n) hs (producer_map q)"
    | (failed) "\<not> allocated" "resize_hash allocated newCount s = Some (Inl (s\<lparr>implicitProducerHashCount := implicitProducerHashCount s - 1\<rparr>))"
    using resize_hash_correct [OF inv(1) n(1,2) inv(2), of allocated] by blast
  then show ?thesis
  proof cases
    case failed
    have "insert_producer allocated created tid newCount s q = Some (None, s\<lparr>implicitProducerHashCount := newCount - 1\<rparr>, q)"
      by (subst insert_producer.simps) (simp add: failed(2) n(3))
    then show ?thesis using failed(1) inv pred by (auto simp: hash_inv_def)
  next
    case resized
    have hs: "hs \<noteq> []" "chain_map hs = producer_map q" using resized(2) by (auto simp: tables_ok_def)
    obtain k where k: "wf_table k (hd hs)" "Suc n < 2 ^ k div 2" using resized(2) by (auto simp: tables_ok_def)
    then have cap: "k \<le> 62" "hash_capacity (hd hs) = 2 ^ k" by (simp_all add: wf_table_def probe_ok_def)
    have room: "newCount < drop_bit 1 (hash_capacity (hd hs)) + drop_bit 2 (hash_capacity (hd hs))"
      using k(2) unfolding word_less_nat_alt cap(2) half_quarter [OF cap(1)] n(1) by simp
    show ?thesis
    proof (cases created)
      case False
      have "insert_producer allocated created tid newCount s q =
          Some (None, s\<lparr>implicitProducerHash := hs, implicitProducerHashCount := newCount - 1\<rparr>, q)"
        by (subst insert_producer.simps) (use False none room in \<open>simp add: resized(1) n(3)\<close>)
      moreover have "tables_ok n hs (producer_map q)"
        by (rule tables_ok_pred [OF resized(2)]) (use inv(1) in \<open>simp add: tables_ok_def\<close>)
      ultimately show ?thesis using False inv pred by (auto simp: hash_inv_def)
    next
      case True
      obtain q' i where add: "add_producer q False (Some (unat tid)) = (q', i)" by fastforce
      have rec: "recycle_or_create_producer q False (Some (unat tid)) = (q', i, False)"
        using none add by (simp add: recycle_or_create_producer_def)
      have "find (\<lambda>p. prod_thread p = Some (unat tid)) (producers q) = None"
        using tid by (simp add: producer_map_def)
      then have abs: "get_or_add_implicit_producer q (unat tid) = (q', i)" by (simp add: get_or_add_implicit_producer_def rec)
      have "chain_map hs tid = (chain_map (tl hs) ++ table_map (hd hs)) tid" using hs(1) by (cases hs) simp_all
      then have "table_map (hd hs) tid = None" using tid(2) hs(2) by (metis map_add_None)
      moreover have "card (dom ((producer_map q)(tid \<mapsto> Some i))) \<le> Suc n"
        using inv(1) card_insert_le_m1 [of "Suc n" "dom (producer_map q)" tid] by (simp add: tables_ok_def)
      ultimately obtain h where h: "claim_slot tid (Some i) (hd hs) (hash_thread_id tid) = Some h"
        "tables_ok (Suc n) (h # tl hs) ((producer_map q)(tid \<mapsto> Some i))"
        using tables_ok_claim [OF resized(2) tid(1)] by blast
      have "insert_producer allocated created tid newCount s q =
          Some (Some i, s\<lparr>implicitProducerHash := h # tl hs, implicitProducerHashCount := newCount\<rparr>, q')"
        by (subst insert_producer.simps) (use True room in \<open>simp add: resized(1) n(3) rec h(1)\<close>)
      moreover have "\<forall>p \<in> set (producers q'). inactive p \<longrightarrow> isExplicit p"
        using inv(3) add by (auto simp: add_producer_def Let_def)
      ultimately show ?thesis
        using abs h(2) inv(2) n(1) unfolding producer_map_add [OF add tid(1), symmetric] by (auto simp: hash_inv_def)
    qed
  qed
qed

lemma hash_get_or_add_correct:
  fixes q :: "'a ConcurrentQueue"
  assumes inv: "hash_inv s q" and tid: "tid \<noteq> 0" and n: "unat (implicitProducerHashCount s) < 2 ^ 60"
  shows "(\<exists>s' q' i. hash_get_or_add allocated created tid s q = Some (Some i, s', q') \<and>
      get_or_add_implicit_producer q (unat tid) = (q', i) \<and> hash_inv s' q' \<and>
      unat (implicitProducerHashCount s') \<le> Suc (unat (implicitProducerHashCount s))) \<or>
    \<not> (allocated \<and> created) \<and> (\<exists>s'. hash_get_or_add allocated created tid s q = Some (None, s', q) \<and>
      hash_inv s' q \<and> implicitProducerHashCount s' = implicitProducerHashCount s)"
proof -
  let ?hs = "implicitProducerHash s" and ?n = "unat (implicitProducerHashCount s)"
  have ok: "tables_ok ?n ?hs (producer_map q)" "\<not> resizeInProgress s" "\<forall>p \<in> set (producers q). inactive p \<longrightarrow> isExplicit p"
    using inv by (simp_all add: hash_inv_def)
  then have "\<forall>h \<in> set ?hs. \<exists>k. wf_table k h" "chain_map ?hs = producer_map q" by (simp_all add: tables_ok_def)
  then obtain r where r: "search_hashes ?hs tid (hash_thread_id tid) = Some r" "map_option snd r = producer_map q tid"
    "\<And>d v. r = Some (Suc d, v) \<Longrightarrow> table_map (hd ?hs) tid = None"
    using search_hashes_correct [OF _ tid, of ?hs] by metis
  show ?thesis
  proof (cases r)
    case None
    let ?s = "s\<lparr>implicitProducerHashCount := 1 + implicitProducerHashCount s\<rparr>"
    have c: "unat (1 + implicitProducerHashCount s) = Suc ?n" using n by (simp add: unat_word_ariths)
    have "hash_get_or_add allocated created tid s q = insert_producer allocated created tid (1 + implicitProducerHashCount s) ?s q"
      using r(1) None by (simp add: hash_get_or_add_def Let_def)
    moreover have "producer_map q tid = None" using r(2) None by simp
    ultimately show ?thesis
      using insert_producer_correct [of ?n ?s q tid "1 + implicitProducerHashCount s" allocated created] ok tid c n by auto
  next
    case (Some dv)
    obtain d v where dv: "dv = (d, v)" by fastforce
    have "producer_map q tid = Some v" using r(2) Some dv by simp
    then obtain p where p: "find (\<lambda>p. prod_thread p = Some (unat tid)) (producers q) = Some p" "v = Some (prod_id p)"
      using tid by (auto simp: producer_map_def)
    have abs: "get_or_add_implicit_producer q (unat tid) = (q, prod_id p)" by (simp add: get_or_add_implicit_producer_def p(1))
    show ?thesis
    proof (cases d)
      case 0
      then have "hash_get_or_add allocated created tid s q = Some (Some (prod_id p), s, q)"
        using r(1) Some dv p(2) by (simp add: hash_get_or_add_def)
      then show ?thesis using abs inv by auto
    next
      case (Suc e)
      have same: "(producer_map q)(tid \<mapsto> v) = producer_map q" using \<open>producer_map q tid = Some v\<close> by (rule map_upd_triv)
      have "card (dom ((producer_map q)(tid \<mapsto> v))) \<le> ?n" unfolding same using ok(1) by (simp add: tables_ok_def)
      then obtain h where h: "claim_slot tid v (hd ?hs) (hash_thread_id tid) = Some h" "tables_ok ?n (h # tl ?hs) (producer_map q)"
        using tables_ok_claim [OF ok(1) tid r(3)] Some dv Suc same by metis
      have "hash_get_or_add allocated created tid s q = Some (Some (prod_id p), s\<lparr>implicitProducerHash := h # tl ?hs\<rparr>, q)"
        using r(1) Some dv p(2) Suc h(1) by (simp add: hash_get_or_add_def)
      then show ?thesis using abs h(2) ok by (auto simp: hash_inv_def)
    qed
  qed
qed

section \<open>Every sequence of calls\<close>

text \<open>The calls of a list of threads, one after the other; a loop that never ends is \<open>None\<close>.\<close>

fun hash_calls :: "u64 list \<Rightarrow> ProducerHashes \<Rightarrow> 'a ConcurrentQueue \<Rightarrow>
    (nat option list \<times> ProducerHashes \<times> 'a ConcurrentQueue) option" where
  "hash_calls [] s q = Some ([], s, q)"
| "hash_calls (tid # tids) s q =
     (case hash_get_or_add True True tid s q of
        None \<Rightarrow> None
      | Some (r, s', q') \<Rightarrow> map_option (\<lambda>(rs, s'', q''). (r # rs, s'', q'')) (hash_calls tids s' q'))"

fun search_calls :: "u64 list \<Rightarrow> 'a ConcurrentQueue \<Rightarrow> nat list \<times> 'a ConcurrentQueue" where
  "search_calls [] q = ([], q)"
| "search_calls (tid # tids) q =
     (case get_or_add_implicit_producer q (unat tid) of (q', i) \<Rightarrow>
        (case search_calls tids q' of (is, q'') \<Rightarrow> (i # is, q'')))"

lemma hash_calls_correct:
  assumes "hash_inv s q" "0 \<notin> set tids" "unat (implicitProducerHashCount s) + length tids < 2 ^ 60"
  shows "\<exists>s'. hash_calls tids s q = Some (map Some (fst (search_calls tids q)), s', snd (search_calls tids q)) \<and>
    hash_inv s' (snd (search_calls tids q))"
  using assms
proof (induction tids arbitrary: s q)
  case (Cons tid tids)
  have "tid \<noteq> 0" "unat (implicitProducerHashCount s) < 2 ^ 60" using Cons.prems by auto
  then obtain s' q' i where s': "hash_get_or_add True True tid s q = Some (Some i, s', q')"
    "get_or_add_implicit_producer q (unat tid) = (q', i)" "hash_inv s' q'"
    "unat (implicitProducerHashCount s') \<le> Suc (unat (implicitProducerHashCount s))"
    using hash_get_or_add_correct [OF Cons.prems(1), of tid True True] by blast
  then have "\<exists>s''. hash_calls tids s' q' = Some (map Some (fst (search_calls tids q')), s'', snd (search_calls tids q')) \<and>
    hash_inv s'' (snd (search_calls tids q'))"
    using Cons.IH [of s' q'] Cons.prems by simp
  then show ?case using s'(1,2) by (auto split: prod.splits)
qed simp

text \<open>
  (C18) However many threads call, in whatever order and with whatever repetitions, every call returns: none of the probing
  loops, of the growing of the capacity or of the waiting for a larger table runs forever. The chain of hash tables
  gives each thread the producer that a search for its thread among all producers would give,
  through every lazy copy and every replacement of the table.
\<close>

theorem implicit_producer_hash_refines:
  fixes q :: "'a ConcurrentQueue"
  assumes "invalid_thread_id \<notin> set tids" "length tids < 2 ^ 60"
  shows "map_option (\<lambda>(rs, s, q). (rs, q)) (hash_calls tids populate_initial_implicit_producer_hash (cq_empty :: 'a ConcurrentQueue)) =
    Some (map Some (fst (search_calls tids (cq_empty :: 'a ConcurrentQueue))), snd (search_calls tids cq_empty))"
proof -
  have "unat (implicitProducerHashCount populate_initial_implicit_producer_hash) + length tids < 2 ^ 60"
    using assms(2) by (simp add: populate_initial_implicit_producer_hash_def)
  then show ?thesis
    using hash_calls_correct [OF hash_inv_initial, of tids] assms(1) by (auto simp: invalid_thread_id_def)
qed

theorem implicit_producer_hash_refines_witness:
  "map_option (\<lambda>(rs, s, q :: nat ConcurrentQueue). rs) (hash_calls [7, 9, 7] populate_initial_implicit_producer_hash cq_empty) =
    Some [Some 0, Some 1, Some 0]"
proof -
  have "fst (search_calls [7, 9, 7] (cq_empty :: nat ConcurrentQueue)) = [0, 1, 0]" by code_simp
  then show ?thesis
    using implicit_producer_hash_refines [of "[7, 9, 7]", where 'a = nat]
    by (auto simp: invalid_thread_id_def)
qed

text \<open>
  (C26) When a larger table or a producer cannot be allocated, the call either finds the thread already there or
  returns the null pointer; then the queue is as it was, the count of threads is what it was, and the
  tables are still consistent with the producers, so that a later call can succeed.
\<close>

theorem implicit_producer_hash_alloc_failure:
  fixes q :: "'a ConcurrentQueue"
  assumes "hash_inv s q" "tid \<noteq> invalid_thread_id" "unat (implicitProducerHashCount s) < 2 ^ 60"
  shows "\<exists>r s' q'. hash_get_or_add allocated created tid s q = Some (r, s', q') \<and> hash_inv s' q' \<and>
    (case r of Some i \<Rightarrow> get_or_add_implicit_producer q (unat tid) = (q', i)
     | None \<Rightarrow> \<not> (allocated \<and> created) \<and> q' = q \<and> implicitProducerHashCount s' = implicitProducerHashCount s)"
proof -
  have "tid \<noteq> 0" using assms(2) by (simp add: invalid_thread_id_def)
  from hash_get_or_add_correct [OF assms(1) this assms(3), of allocated created] show ?thesis
    by (elim disjE exE conjE) auto
qed

theorem implicit_producer_hash_alloc_failure_witness:
  "\<exists>s' q'. hash_get_or_add True False 7 populate_initial_implicit_producer_hash (cq_empty :: nat ConcurrentQueue) = Some (None, s', q') \<and>
     q' = cq_empty"
proof -
  have "map_option fst (hash_get_or_add True False 7 populate_initial_implicit_producer_hash (cq_empty :: nat ConcurrentQueue)) = Some None"
    by code_simp
  then show ?thesis
    using implicit_producer_hash_alloc_failure [OF hash_inv_initial, of 7 True False, where 'a = nat]
    by (auto simp: invalid_thread_id_def populate_initial_implicit_producer_hash_def split: option.splits)
qed

end
