(* ===== verification/CQ_Tokens.thy ===== *)
theory CQ_Tokens
  imports CQ_Dispatch
begin

text \<open>
  Tokens of the concurrent queue (\<^verbatim>\<open>ProducerToken\<close>, \<^verbatim>\<open>ConsumerToken\<close>,
  \<^verbatim>\<open>update_current_producer_after_rotation\<close> and the operations that take a token, in
  \<^verbatim>\<open>src/utils/concurrentqueue-1.0.3/concurrentqueue.h\<close>) and the bulk dequeue. A producer token owns an explicit producer; a consumer
  token remembers the producer it takes from and moves on with a global offset that some
  consumer advances after every 256 elements.

  The queue is the one of \<^verbatim>\<open>CQ_Dispatch\<close>; a pointer to a producer is its identifier. The
  counters are 32-bit and wrap around.
\<close>

section \<open>State\<close>

record 'a TokenQueue =
  inner :: "'a ConcurrentQueue"
  nextExplicitConsumerId :: u32
  globalExplicitConsumerOffset :: u32

record ConsumerToken =
  initialOffset :: u32
  lastKnownGlobalOffset :: u32
  itemsConsumedFromCurrent :: u32
  currentProducer :: "nat option"
  desiredProducer :: "nat option"

definition EXPLICIT_CONSUMER_CONSUMPTION_QUOTA_BEFORE_ROTATE :: u32 where
  "EXPLICIT_CONSUMER_CONSUMPTION_QUOTA_BEFORE_ROTATE = 256"

section \<open>Producer tokens\<close>

definition new_ProducerToken :: "'a TokenQueue \<Rightarrow> 'a TokenQueue \<times> nat" where
  "new_ProducerToken tq =
     (case recycle_or_create_producer (inner tq) True None of (q', producer, _) \<Rightarrow> (tq\<lparr>inner := q'\<rparr>, producer))"

definition delete_ProducerToken :: "nat \<Rightarrow> 'a TokenQueue \<Rightarrow> 'a TokenQueue" where
  "delete_ProducerToken producer tq =
     tq\<lparr>inner := (inner tq)\<lparr>producers := update_producer producer (\<lambda>p. p\<lparr>inactive := True\<rparr>) (producers (inner tq))\<rparr>\<rparr>"

definition enqueue_token :: "nat \<Rightarrow> 'a \<Rightarrow> 'a TokenQueue \<Rightarrow> 'a TokenQueue" where
  "enqueue_token producer item tq =
     tq\<lparr>inner := (inner tq)\<lparr>producers :=
       update_producer producer (\<lambda>p. p\<lparr>stream := stream p @ [item]\<rparr>) (producers (inner tq))\<rparr>\<rparr>"

section \<open>Walking the list of producers\<close>

fun next_prod :: "'a cq_producer list \<Rightarrow> nat \<Rightarrow> nat option" where
  "next_prod [] i = None"
| "next_prod (p # ps) i =
     (if prod_id p = i then (case ps of [] \<Rightarrow> None | p' # _ \<Rightarrow> Some (prod_id p')) else next_prod ps i)"

text \<open>The next producer, or the tail of the list after the last one.\<close>

definition next_or_tail :: "'a cq_producer list \<Rightarrow> nat \<Rightarrow> nat" where
  "next_or_tail ps i = (case next_prod ps i of None \<Rightarrow> prod_id (hd ps) | Some j \<Rightarrow> j)"

definition dequeue_from :: "nat \<Rightarrow> 'a cq_producer list \<Rightarrow> ('a \<times> 'a cq_producer list) option" where
  "dequeue_from i ps = dequeue_where (\<lambda>p. prod_id p = i) ps"

section \<open>Consumer tokens\<close>

definition new_ConsumerToken :: "'a TokenQueue \<Rightarrow> 'a TokenQueue \<times> ConsumerToken" where
  "new_ConsumerToken tq =
     (tq\<lparr>nextExplicitConsumerId := nextExplicitConsumerId tq + 1\<rparr>,
      \<lparr>initialOffset = nextExplicitConsumerId tq, lastKnownGlobalOffset = - 1, itemsConsumedFromCurrent = 0,
       currentProducer = None, desiredProducer = None\<rparr>)"

definition update_current_producer_after_rotation ::
  "'a TokenQueue \<Rightarrow> ConsumerToken \<Rightarrow> ConsumerToken option" where
  "update_current_producer_after_rotation tq token =
     (let ps = producers (inner tq)
      in if desiredProducer token = None \<and> ps = [] then None
         else
           let prodCount = of_nat (length ps) :: u32;
               globalOffset = globalExplicitConsumerOffset tq;
               desired = (case desiredProducer token of
                  None \<Rightarrow> (let offset = prodCount - 1 - (initialOffset token mod prodCount)
                           in (next_or_tail ps ^^ unat offset) (prod_id (hd ps)))
                | Some d \<Rightarrow> d);
               delta = globalOffset - lastKnownGlobalOffset token;
               delta = (if delta \<ge> prodCount then delta mod prodCount else delta);
               desired = (next_or_tail ps ^^ unat delta) desired
           in Some (token\<lparr>desiredProducer := Some desired, lastKnownGlobalOffset := globalOffset,
                          currentProducer := Some desired, itemsConsumedFromCurrent := 0\<rparr>))"

definition refresh_token :: "'a TokenQueue \<Rightarrow> ConsumerToken \<Rightarrow> ConsumerToken option" where
  "refresh_token tq token =
     (if desiredProducer token = None \<or> lastKnownGlobalOffset token \<noteq> globalExplicitConsumerOffset tq
      then update_current_producer_after_rotation tq token else Some token)"

text \<open>
  The walk over the other producers: it stops where it started. The list has at most \<open>fuel\<close> of them.
\<close>

fun walk_dequeue :: "nat \<Rightarrow> nat \<Rightarrow> nat \<Rightarrow> 'a cq_producer list \<Rightarrow> (nat \<times> 'a \<times> 'a cq_producer list) option" where
  "walk_dequeue 0 current ptr ps = None"
| "walk_dequeue (Suc fuel) current ptr ps =
     (if ptr = current then None
      else case dequeue_from ptr ps of
             Some (x, ps') \<Rightarrow> Some (ptr, x, ps')
           | None \<Rightarrow> walk_dequeue fuel current (next_or_tail ps ptr) ps)"

definition put_producers :: "'a cq_producer list \<Rightarrow> 'a TokenQueue \<Rightarrow> 'a TokenQueue" where
  "put_producers ps tq = tq\<lparr>inner := (inner tq)\<lparr>producers := ps\<rparr>\<rparr>"

definition try_dequeue_token ::
  "ConsumerToken \<Rightarrow> 'a TokenQueue \<Rightarrow> 'a option \<times> ConsumerToken \<times> 'a TokenQueue" where
  "try_dequeue_token token tq =
     (case refresh_token tq token of
        None \<Rightarrow> (None, token, tq)
      | Some token \<Rightarrow>
          let ps = producers (inner tq); current = the (currentProducer token)
          in case dequeue_from current ps of
               Some (x, ps') \<Rightarrow>
                 (let consumed = itemsConsumedFromCurrent token + 1; tq' = put_producers ps' tq
                  in (Some x, token\<lparr>itemsConsumedFromCurrent := consumed\<rparr>,
                      if consumed = EXPLICIT_CONSUMER_CONSUMPTION_QUOTA_BEFORE_ROTATE
                      then tq'\<lparr>globalExplicitConsumerOffset := globalExplicitConsumerOffset tq' + 1\<rparr> else tq'))
             | None \<Rightarrow>
                 (case walk_dequeue (length ps) current (next_or_tail ps current) ps of
                    Some (ptr, x, ps') \<Rightarrow>
                      (Some x, token\<lparr>currentProducer := Some ptr, itemsConsumedFromCurrent := 1\<rparr>, put_producers ps' tq)
                  | None \<Rightarrow> (None, token, tq)))"

section \<open>Bulk dequeues\<close>

definition dequeue_bulk_from :: "nat \<Rightarrow> nat \<Rightarrow> 'a cq_producer list \<Rightarrow> 'a list \<times> 'a cq_producer list" where
  "dequeue_bulk_from i n ps =
     (concat (map (\<lambda>p. if prod_id p = i then take n (stream p) else []) ps),
      update_producer i (\<lambda>p. p\<lparr>stream := drop n (stream p)\<rparr>) ps)"

fun bulk_producers :: "nat \<Rightarrow> 'a cq_producer list \<Rightarrow> 'a list \<times> 'a cq_producer list" where
  "bulk_producers n [] = ([], [])"
| "bulk_producers n (p # ps) =
     (let xs = take n (stream p); p' = p\<lparr>stream := drop n (stream p)\<rparr>
      in if length xs = n then (xs, p' # ps)
         else case bulk_producers (n - length xs) ps of (ys, ps') \<Rightarrow> (xs @ ys, p' # ps'))"

definition try_dequeue_bulk :: "'a ConcurrentQueue \<Rightarrow> nat \<Rightarrow> 'a list \<times> 'a ConcurrentQueue" where
  "try_dequeue_bulk q n = (case bulk_producers n (producers q) of (xs, ps) \<Rightarrow> (xs, q\<lparr>producers := ps\<rparr>))"

text \<open>
  With a token, the walk ends at the producer that last had an element, which moves while it walks. Every
  round finds fewer producers with elements, which bounds the fuel.
\<close>

fun walk_dequeue_bulk ::
  "nat \<Rightarrow> nat \<Rightarrow> nat \<Rightarrow> nat \<Rightarrow> ConsumerToken \<Rightarrow> 'a cq_producer list \<Rightarrow> 'a list \<times> ConsumerToken \<times> 'a cq_producer list" where
  "walk_dequeue_bulk 0 current n ptr token ps = ([], token, ps)"
| "walk_dequeue_bulk (Suc fuel) current n ptr token ps =
     (if ptr = current then ([], token, ps)
      else case dequeue_bulk_from ptr n ps of (xs, ps') \<Rightarrow>
        let token' = (if xs \<noteq> [] then token\<lparr>currentProducer := Some ptr, itemsConsumedFromCurrent := of_nat (length xs)\<rparr> else token)
        in if length xs = n then (xs, token', ps')
           else case walk_dequeue_bulk fuel (the (currentProducer token')) (n - length xs) (next_or_tail ps' ptr) token' ps' of
                  (ys, token'', ps'') \<Rightarrow> (xs @ ys, token'', ps''))"

definition try_dequeue_bulk_token ::
  "ConsumerToken \<Rightarrow> nat \<Rightarrow> 'a TokenQueue \<Rightarrow> 'a list \<times> ConsumerToken \<times> 'a TokenQueue" where
  "try_dequeue_bulk_token token n tq =
     (case refresh_token tq token of
        None \<Rightarrow> ([], token, tq)
      | Some token \<Rightarrow>
          let current = the (currentProducer token)
          in case dequeue_bulk_from current n (producers (inner tq)) of (xs, ps) \<Rightarrow>
               let consumed = itemsConsumedFromCurrent token + of_nat (length xs);
                   token' = token\<lparr>itemsConsumedFromCurrent := consumed\<rparr>; tq' = put_producers ps tq
               in if length xs = n
                  then (xs, token',
                        if consumed \<ge> EXPLICIT_CONSUMER_CONSUMPTION_QUOTA_BEFORE_ROTATE
                        then tq'\<lparr>globalExplicitConsumerOffset := globalExplicitConsumerOffset tq' + 1\<rparr> else tq')
                  else case walk_dequeue_bulk ((length ps + 1) * length ps) current (n - length xs) (next_or_tail ps current) token' ps of
                         (ys, token'', ps') \<Rightarrow> (xs @ ys, token'', put_producers ps' tq'))"

section \<open>The circle of producers\<close>

definition ids_ok :: "'a cq_producer list \<Rightarrow> bool" where
  "ids_ok ps \<longleftrightarrow> map prod_id ps = rev [0..<length ps]"

lemma cq_inv_ids_ok: "cq_inv q \<Longrightarrow> ids_ok (producers q)"
  by (simp add: cq_inv_def ids_ok_def)

lemma ids_ok_cong: "map prod_id ps' = map prod_id ps \<Longrightarrow> ids_ok ps' = ids_ok ps"
  unfolding ids_ok_def by (metis length_map)

lemma ids_ok_distinct: "ids_ok ps \<Longrightarrow> distinct (map prod_id ps)"
  by (simp add: ids_ok_def)

lemma ids_ok_set: "ids_ok ps \<Longrightarrow> prod_id ` set ps = {..<length ps}"
  unfolding ids_ok_def by (metis atLeast_upt set_map set_rev)

lemma ids_ok_member: "ids_ok ps \<Longrightarrow> p \<in> set ps \<Longrightarrow> prod_id p < length ps"
  using ids_ok_set by blast

lemma next_prod_ids: "map prod_id ps = rev [0..<n] \<Longrightarrow> i < n \<Longrightarrow> next_prod ps i = (if i = 0 then None else Some (i - 1))"
proof (induction n arbitrary: ps)
  case (Suc m)
  then obtain p ps' where ps: "ps = p # ps'" "prod_id p = m" "map prod_id ps' = rev [0..<m]" by auto
  show ?case
  proof (cases "i = m")
    case True
    then show ?thesis using ps by (cases ps'; cases m) auto
  next
    case False
    then show ?thesis using ps Suc by auto
  qed
qed simp

lemma next_or_tail_ids:
  assumes "ids_ok ps" "i < length ps"
  shows "next_or_tail ps i = (if i = 0 then length ps - 1 else i - 1)"
proof -
  have "prod_id (hd ps) = length ps - 1" using assms by (cases ps) (auto simp: ids_ok_def)
  then show ?thesis
    using assms next_prod_ids [of ps "length ps" i] by (auto simp: ids_ok_def next_or_tail_def)
qed

lemma walk_pos:
  assumes "ids_ok ps" "i < length ps" "k \<le> length ps"
  shows "(next_or_tail ps ^^ k) i = (if k \<le> i then i - k else i + length ps - k)"
  using assms(3)
proof (induction k)
  case (Suc k)
  have "0 < length ps" using assms(2) by (cases ps) simp_all
  then have "next_or_tail ps 0 = length ps - 1" using next_or_tail_ids [OF assms(1)] by simp
  then show ?case using Suc assms(2) next_or_tail_ids [OF assms(1), of "(next_or_tail ps ^^ k) i"] by auto
qed simp

lemma walk_pos_less: "ids_ok ps \<Longrightarrow> i < length ps \<Longrightarrow> k \<le> length ps \<Longrightarrow> (next_or_tail ps ^^ k) i < length ps"
  by (auto simp: walk_pos)

lemma walk_pos_inject:
  assumes "ids_ok ps" "i < length ps" "j < length ps" "k \<le> length ps" "(next_or_tail ps ^^ k) i = (next_or_tail ps ^^ k) j"
  shows "i = j"
  using assms by (auto simp: walk_pos split: if_splits)

lemma circle_covers:
  assumes "ids_ok ps" "i < length ps" "j < length ps"
  shows "\<exists>k < length ps. (next_or_tail ps ^^ k) i = j"
  using assms by (intro exI [of _ "if j \<le> i then i - j else i + length ps - j"]) (auto simp: walk_pos)

lemma circle_back:
  assumes "ids_ok ps" "i < length ps" "0 < k" "k \<le> length ps"
  shows "(next_or_tail ps ^^ k) i = i \<longleftrightarrow> k = length ps"
  using assms by (auto simp: walk_pos)

section \<open>One element\<close>

lemma dequeue_from_None: "dequeue_from i ps = None \<longleftrightarrow> (\<forall>p \<in> set ps. prod_id p = i \<longrightarrow> stream p = [])"
  by (simp add: dequeue_from_def dequeue_where_None)

lemma all_empty:
  assumes "ids_ok ps" "i < length ps" "\<And>k. k < length ps \<Longrightarrow> dequeue_from ((next_or_tail ps ^^ k) i) ps = None"
  shows "\<forall>p \<in> set ps. stream p = []"
proof
  fix p
  assume p: "p \<in> set ps"
  obtain k where "k < length ps" "(next_or_tail ps ^^ k) i = prod_id p"
    using circle_covers [OF assms(1,2) ids_ok_member [OF assms(1) p]] by blast
  then show "stream p = []" using assms(3) [of k] p by (auto simp: dequeue_from_None)
qed

lemma walk_dequeue_spec:
  assumes "ids_ok ps" "current < length ps" "0 < k" "k \<le> length ps" "length ps \<le> k + fuel"
    "\<And>j. j < k \<Longrightarrow> dequeue_from ((next_or_tail ps ^^ j) current) ps = None"
  shows "case walk_dequeue fuel current ((next_or_tail ps ^^ k) current) ps of
      None \<Rightarrow> \<forall>p \<in> set ps. stream p = []
    | Some (ptr, x, ps') \<Rightarrow> ptr < length ps \<and> dequeue_from ptr ps = Some (x, ps')"
  using assms(3-6)
proof (induction fuel arbitrary: k)
  case 0
  then have "k = length ps" by simp
  then show ?case using all_empty [OF assms(1,2)] 0 by simp
next
  case (Suc fuel)
  let ?ptr = "(next_or_tail ps ^^ k) current"
  show ?case
  proof (cases "?ptr = current")
    case True
    then have "k = length ps" using circle_back [OF assms(1,2) Suc.prems(1,2)] by simp
    then show ?thesis using all_empty [OF assms(1,2)] Suc.prems(4) True by simp
  next
    case False
    then have "k < length ps" using circle_back [OF assms(1,2) Suc.prems(1,2)] Suc.prems(2) by simp
    show ?thesis
    proof (cases "dequeue_from ?ptr ps")
      case None
      then have "dequeue_from ((next_or_tail ps ^^ j) current) ps = None" if "j < Suc k" for j
        using Suc.prems(4) that by (cases "j = k") auto
      then show ?thesis using Suc.IH [of "Suc k"] \<open>k < length ps\<close> Suc.prems(3) False None by simp
    next
      case (Some r)
      then show ?thesis using False walk_pos_less [OF assms(1,2) Suc.prems(2)] by (cases r) simp
    qed
  qed
qed

definition token_ok :: "ConsumerToken \<Rightarrow> 'a TokenQueue \<Rightarrow> bool" where
  "token_ok token tq \<longleftrightarrow>
     (case (currentProducer token, desiredProducer token) of
        (None, None) \<Rightarrow> True
      | (Some c, Some d) \<Rightarrow> c < length (producers (inner tq)) \<and> d < length (producers (inner tq))
      | _ \<Rightarrow> False)"

definition tokens_inv :: "ConsumerToken \<times> 'a TokenQueue \<Rightarrow> bool" where
  "tokens_inv r \<longleftrightarrow> cq_inv (inner (snd r)) \<and> length (producers (inner (snd r))) < 2 ^ 32 \<and> token_ok (fst r) (snd r)"

text \<open>
  Where a token stands after a rotation: a fresh one starts at its number modulo the number of producers, and every token moves
  on by the rotations it has missed.
\<close>

definition token_base :: "ConsumerToken \<Rightarrow> nat \<Rightarrow> nat" where
  "token_base token n = (case desiredProducer token of None \<Rightarrow> unat (initialOffset token) mod n | Some d \<Rightarrow> d)"

lemma update_rotation_spec:
  assumes inv: "tokens_inv (token, tq)" and ne: "producers (inner tq) \<noteq> []"
  shows "\<exists>token' d. update_current_producer_after_rotation tq token = Some token' \<and> d < length (producers (inner tq)) \<and>
    d = (next_or_tail (producers (inner tq)) ^^
          (unat (globalExplicitConsumerOffset tq - lastKnownGlobalOffset token) mod length (producers (inner tq))))
        (token_base token (length (producers (inner tq)))) \<and>
    currentProducer token' = Some d \<and> desiredProducer token' = Some d"
proof -
  let ?ps = "producers (inner tq)"
  let ?n = "of_nat (length ?ps) :: u32"
  let ?delta = "globalExplicitConsumerOffset tq - lastKnownGlobalOffset token"
  have ok: "ids_ok ?ps" "length ?ps < 2 ^ 32" "token_ok token tq" using inv by (auto simp: tokens_inv_def cq_inv_ids_ok)
  have pos: "0 < length ?ps" using ne by simp
  have n: "unat ?n = length ?ps" using ok(2) by (simp add: unat_of_nat_u32)
  have delta: "unat (if ?delta \<ge> ?n then ?delta mod ?n else ?delta) = unat ?delta mod length ?ps"
    by (simp add: unat_mod_distrib n word_le_nat_alt)
  have "1 \<le> ?n" unfolding word_le_nat_alt n unat_1 using pos by linarith
  then have one: "unat (?n - 1) = length ?ps - 1" using unat_sub [of 1 ?n] n by simp
  have small: "unat (initialOffset token mod ?n) < length ?ps" using pos by (simp add: unat_mod_distrib n)
  then have off: "unat (?n - 1 - initialOffset token mod ?n) = length ?ps - 1 - unat (initialOffset token) mod length ?ps"
    using one by (simp add: unat_sub word_le_nat_alt unat_mod_distrib n)
  have hd: "prod_id (hd ?ps) = length ?ps - 1" using ok(1) ne by (cases ?ps) (auto simp: ids_ok_def)
  have base: "(case desiredProducer token of
      None \<Rightarrow> (let offset = ?n - 1 - initialOffset token mod ?n
        in (next_or_tail ?ps ^^ unat offset) (prod_id (hd ?ps))) | Some d \<Rightarrow> d) =
      token_base token (length ?ps)"
  proof (cases "desiredProducer token")
    case None
    have r: "unat (initialOffset token) mod length ?ps < length ?ps" using pos by simp
    have "(next_or_tail ?ps ^^ (length ?ps - 1 - unat (initialOffset token) mod length ?ps)) (length ?ps - 1) =
        length ?ps - 1 - (length ?ps - 1 - unat (initialOffset token) mod length ?ps)"
      using pos by (subst walk_pos [OF ok(1)]) auto
    also have "\<dots> = unat (initialOffset token) mod length ?ps" using r by linarith
    finally show ?thesis using None by (simp only: token_base_def off hd option.case Let_def)
  qed (simp add: token_base_def)
  have less: "token_base token (length ?ps) < length ?ps"
    using ok(3) pos by (auto simp: token_base_def token_ok_def split: option.splits)
  have "(next_or_tail ?ps ^^ (unat ?delta mod length ?ps)) (token_base token (length ?ps)) < length ?ps"
    by (rule walk_pos_less [OF ok(1) less]) (rule less_imp_le [OF mod_less_divisor [OF pos]])
  then show ?thesis
    using ne unfolding update_current_producer_after_rotation_def Let_def [of ?ps] Let_def [of ?n] base
    by (simp add: Let_def delta)
qed

lemma refresh_token_spec:
  assumes inv: "tokens_inv (token, tq)"
  shows "case refresh_token tq token of
      None \<Rightarrow> producers (inner tq) = []
    | Some token' \<Rightarrow> tokens_inv (token', tq) \<and> (\<exists>c < length (producers (inner tq)). currentProducer token' = Some c)"
proof (cases "desiredProducer token = None \<or> lastKnownGlobalOffset token \<noteq> globalExplicitConsumerOffset tq")
  case True
  show ?thesis
  proof (cases "producers (inner tq) = []")
    case True
    then have "desiredProducer token = None" using inv by (auto simp: tokens_inv_def token_ok_def split: option.splits)
    then show ?thesis using True by (simp add: refresh_token_def update_current_producer_after_rotation_def Let_def)
  next
    case False
    obtain token' d where "update_current_producer_after_rotation tq token = Some token'" "d < length (producers (inner tq))"
      "currentProducer token' = Some d" "desiredProducer token' = Some d"
      using update_rotation_spec [OF inv False] by blast
    then show ?thesis using True inv by (simp add: refresh_token_def tokens_inv_def token_ok_def)
  qed
next
  case False
  then show ?thesis using inv by (auto simp: refresh_token_def tokens_inv_def token_ok_def split: option.splits)
qed

lemma dequeue_from_correct:
  assumes inv: "cq_inv q" and d: "dequeue_from i (producers q) = Some (x, ps')"
  shows "cq_inv (q\<lparr>producers := ps'\<rparr>)" "cq_elems q = add_mset x (cq_elems (q\<lparr>producers := ps'\<rparr>))" "length ps' = length (producers q)"
proof -
  obtain us p vs xs where u: "producers q = us @ p # vs" "stream p = x # xs" "ps' = us @ p\<lparr>stream := xs\<rparr> # vs"
    using dequeue_where_Some [OF d [unfolded dequeue_from_def]] by blast
  show "cq_elems q = add_mset x (cq_elems (q\<lparr>producers := ps'\<rparr>))" by (simp add: cq_elems_def u)
  have "ownership (producers (q\<lparr>producers := ps'\<rparr>)) = ownership (producers q)" by (simp add: ownership_def u)
  from cq_inv_cong [OF this] inv show "cq_inv (q\<lparr>producers := ps'\<rparr>)" by simp
  show "length ps' = length (producers q)" by (simp add: u)
qed

lemma tokens_inv_dequeued:
  assumes "tokens_inv (token, tq)" "dequeue_from i (producers (inner tq)) = Some (x, ps')"
    "currentProducer token' = Some c" "c < length (producers (inner tq))" "desiredProducer token' = desiredProducer token"
    "desiredProducer token \<noteq> None" "inner tq' = (inner tq)\<lparr>producers := ps'\<rparr>"
  shows "tokens_inv (token', tq') \<and> cq_elems (inner tq) = add_mset x (cq_elems (inner tq'))"
proof -
  have "cq_inv (inner tq)" using assms(1) by (simp add: tokens_inv_def)
  from dequeue_from_correct [OF this assms(2)] show ?thesis
    using assms by (auto simp: tokens_inv_def token_ok_def split: option.splits)
qed

lemma try_dequeue_token_spec:
  assumes inv: "tokens_inv (token, tq)" and d: "try_dequeue_token token tq = (r, token', tq')"
  shows "case r of
      None \<Rightarrow> tokens_inv (token', tq') \<and> tq' = tq \<and> cq_elems (inner tq) = {#}
    | Some x \<Rightarrow> tokens_inv (token', tq') \<and> cq_elems (inner tq) = add_mset x (cq_elems (inner tq'))"
proof (cases "refresh_token tq token")
  case None
  then show ?thesis using refresh_token_spec [OF inv] d inv by (auto simp: try_dequeue_token_def cq_elems_def)
next
  case (Some t1)
  let ?ps = "producers (inner tq)"
  obtain c where t1: "tokens_inv (t1, tq)" "c < length ?ps" "currentProducer t1 = Some c"
    using refresh_token_spec [OF inv] Some by auto
  have des: "desiredProducer t1 \<noteq> None" using t1(1,3) by (auto simp: tokens_inv_def token_ok_def split: option.splits)
  have ids: "ids_ok ?ps" using t1(1) by (auto simp: tokens_inv_def cq_inv_ids_ok)
  show ?thesis
  proof (cases "dequeue_from c ?ps")
    case None
    have step: "next_or_tail ?ps c = (next_or_tail ?ps ^^ 1) c" by simp
    have walk: "case walk_dequeue (length ?ps) c (next_or_tail ?ps c) ?ps of
        None \<Rightarrow> \<forall>p \<in> set ?ps. stream p = []
      | Some (ptr, x, ps') \<Rightarrow> ptr < length ?ps \<and> dequeue_from ptr ?ps = Some (x, ps')"
      unfolding step by (rule walk_dequeue_spec [OF ids t1(2)]) (use t1(2) None in auto)
    show ?thesis
    proof (cases "walk_dequeue (length ?ps) c (next_or_tail ?ps c) ?ps")
      case w: None
      then have "cq_elems (inner tq) = {#}" using walk by (simp add: cq_elems_def streams_empty_iff)
      then show ?thesis using d Some t1 None w by (auto simp: try_dequeue_token_def Let_def)
    next
      case w: (Some v)
      obtain ptr x ps' where v: "v = (ptr, x, ps')" by (cases v)
      have "tokens_inv (token', tq') \<and> cq_elems (inner tq) = add_mset x (cq_elems (inner tq'))"
        by (rule tokens_inv_dequeued [OF t1(1), of ptr x ps' _ ptr])
          (use walk w v d Some t1 None des in \<open>auto simp: try_dequeue_token_def Let_def put_producers_def\<close>)
      then show ?thesis using d Some t1 None w v by (auto simp: try_dequeue_token_def Let_def)
    qed
  next
    case x: (Some v)
    obtain x ps' where v: "v = (x, ps')" by (cases v)
    have "tokens_inv (token', tq') \<and> cq_elems (inner tq) = add_mset x (cq_elems (inner tq'))"
      by (rule tokens_inv_dequeued [OF t1(1), of c x ps' _ c])
        (use x v d Some t1 des in \<open>auto simp: try_dequeue_token_def Let_def put_producers_def\<close>)
    then show ?thesis using d Some t1 x v by (auto simp: try_dequeue_token_def Let_def)
  qed
qed

section \<open>A consumer with a token sees the same bag\<close>

definition token_deq :: "ConsumerToken \<times> 'a TokenQueue \<Rightarrow> ('a \<times> ConsumerToken \<times> 'a TokenQueue) option" where
  "token_deq r = (case try_dequeue_token (fst r) (snd r) of
     (None, _, _) \<Rightarrow> None | (Some x, token, tq) \<Rightarrow> Some (x, token, tq))"

definition token_elems :: "ConsumerToken \<times> 'a TokenQueue \<Rightarrow> 'a multiset" where
  "token_elems r = cq_elems (inner (snd r))"

lemma token_deq_None: "tokens_inv r \<Longrightarrow> token_deq r = None \<longleftrightarrow> token_elems r = {#}"
  using try_dequeue_token_spec [of "fst r" "snd r"]
  by (auto simp: token_deq_def token_elems_def split: prod.splits option.splits)

lemma token_deq_Some:
  "tokens_inv r \<Longrightarrow> token_deq r = Some (x, r') \<Longrightarrow> tokens_inv r' \<and> token_elems r = add_mset x (token_elems r')"
  using try_dequeue_token_spec [of "fst r" "snd r"]
  by (auto simp: token_deq_def token_elems_def split: prod.splits option.splits)

interpretation token: bag_consumer tokens_inv token_deq token_elems
  by unfold_locales (auto simp: token_deq_None dest: token_deq_Some)

text \<open>
  (C24) A consumer with a token gets every element exactly once, whatever the producers hold, and however
  often the consumers rotate: dequeueing until the queue reports empty delivers all elements, and it reports empty only then.
\<close>

theorem token_delivers_exactly_once:
  assumes "tokens_inv (token, tq)" "drain token_deq n (token, tq) = (ys, r)" "size (cq_elems (inner tq)) \<le> n"
  shows "mset ys = cq_elems (inner tq) \<and> token_deq r = None"
proof -
  have "mset ys = token_elems (token, tq)" "token_elems r = {#}" "tokens_inv r"
    using token.drain_all [OF assms(1,2)] assms(3) by (simp_all add: token_elems_def)
  then show ?thesis by (simp add: token_deq_None token_elems_def)
qed

definition example_token_queue :: "string TokenQueue" where
  "example_token_queue = \<lparr>inner = enqueue (enqueue cq_empty 0 ''a'') 1 ''b'', nextExplicitConsumerId = 0, globalExplicitConsumerOffset = 0\<rparr>"

lemma example_token_queue:
  "cq_inv (inner example_token_queue)" "cq_elems (inner example_token_queue) = {#''b'', ''a''#}"
  "length (producers (inner example_token_queue)) = 2"
proof -
  have "cq_elems cq_empty = ({#} :: string multiset)" by (simp add: cq_elems_def cq_empty_def)
  then show "cq_inv (inner example_token_queue)" "cq_elems (inner example_token_queue) = {#''b'', ''a''#}"
    by (simp_all add: example_token_queue_def enqueue_correct cq_inv_empty)
  show "length (producers (inner example_token_queue)) = 2" by code_simp
qed

lemma fresh_token_inv:
  assumes "cq_inv (inner tq)" "length (producers (inner tq)) < 2 ^ 32"
  shows "tokens_inv (snd (new_ConsumerToken tq), fst (new_ConsumerToken tq))"
  using assms by (simp add: tokens_inv_def token_ok_def new_ConsumerToken_def)

theorem token_delivers_exactly_once_witness:
  "\<exists>ys r. drain token_deq 2 (snd (new_ConsumerToken example_token_queue), fst (new_ConsumerToken example_token_queue)) = (ys, r) \<and>
     mset ys = {#''a'', ''b''#} \<and> token_deq r = None"
proof -
  let ?r = "(snd (new_ConsumerToken example_token_queue), fst (new_ConsumerToken example_token_queue))"
  have inv: "tokens_inv ?r" using fresh_token_inv [of example_token_queue] example_token_queue by simp
  obtain ys r where d: "drain token_deq 2 ?r = (ys, r)" by (cases "drain token_deq 2 ?r")
  have "cq_elems (inner (fst (new_ConsumerToken example_token_queue))) = {#''b'', ''a''#}"
    using example_token_queue(2) by (simp add: new_ConsumerToken_def)
  then show ?thesis using token_delivers_exactly_once [OF inv d] d by (auto simp: add_mset_commute)
qed

text \<open>
  Fresh consumers spread over the producers: two tokens whose numbers differ modulo the number of producers start at different
  producers, whatever the global offset.
\<close>

theorem consumer_tokens_spread:
  assumes "tokens_inv (t1, tq)" "tokens_inv (t2, tq)" "producers (inner tq) \<noteq> []"
    "desiredProducer t1 = None" "desiredProducer t2 = None" "lastKnownGlobalOffset t1 = lastKnownGlobalOffset t2"
    "unat (initialOffset t1) mod length (producers (inner tq)) \<noteq> unat (initialOffset t2) mod length (producers (inner tq))"
  shows "map_option currentProducer (update_current_producer_after_rotation tq t1) \<noteq>
    map_option currentProducer (update_current_producer_after_rotation tq t2)"
proof -
  let ?ps = "producers (inner tq)"
  let ?k = "unat (globalExplicitConsumerOffset tq - lastKnownGlobalOffset t1) mod length ?ps"
  have ids: "ids_ok ?ps" using assms(1) by (simp add: tokens_inv_def cq_inv_ids_ok)
  have k: "?k \<le> length ?ps" using assms(3) by (intro less_imp_le mod_less_divisor) simp
  have base: "token_base t (length ?ps) = unat (initialOffset t) mod length ?ps" "token_base t (length ?ps) < length ?ps"
    if "desiredProducer t = None" for t using that assms(3) by (simp_all add: token_base_def)
  obtain t1' d1 where t1: "update_current_producer_after_rotation tq t1 = Some t1'" "currentProducer t1' = Some d1"
    "d1 = (next_or_tail ?ps ^^ ?k) (token_base t1 (length ?ps))"
    using update_rotation_spec [OF assms(1,3)] by blast
  obtain t2' d2 where t2: "update_current_producer_after_rotation tq t2 = Some t2'" "currentProducer t2' = Some d2"
    "d2 = (next_or_tail ?ps ^^ ?k) (token_base t2 (length ?ps))"
    using update_rotation_spec [OF assms(2,3)] unfolding assms(6) by blast
  have "d1 \<noteq> d2"
    using assms(7) base [OF assms(4)] base [OF assms(5)] walk_pos_inject [OF ids _ _ k] unfolding t1(3) t2(3) by metis
  then show ?thesis using t1 t2 by simp
qed

theorem consumer_tokens_spread_witness:
  "map_option currentProducer (update_current_producer_after_rotation example_token_queue
       (snd (new_ConsumerToken example_token_queue))) \<noteq>
   map_option currentProducer (update_current_producer_after_rotation example_token_queue
       (snd (new_ConsumerToken (fst (new_ConsumerToken example_token_queue)))))"
proof -
  have "producers (inner example_token_queue) \<noteq> []" using example_token_queue(3) by auto
  moreover have "nextExplicitConsumerId example_token_queue = 0" by (simp add: example_token_queue_def)
  ultimately show ?thesis
    by (intro consumer_tokens_spread)
      (simp_all add: tokens_inv_def token_ok_def new_ConsumerToken_def example_token_queue)
qed

section \<open>Bulk dequeues take as many elements as there are\<close>

lemma bulk_producers_spec:
  "bulk_producers n ps = (xs, ps') \<Longrightarrow>
     ownership ps' = ownership ps \<and> streams_elems ps = mset xs + streams_elems ps' \<and>
     length xs \<le> n \<and> (length xs < n \<longrightarrow> streams_elems ps' = {#})"
proof (induction ps arbitrary: n xs ps')
  case (Cons p ps)
  let ?xs = "take n (stream p)" and ?p = "p\<lparr>stream := drop n (stream p)\<rparr>"
  have split: "mset (stream p) = mset ?xs + mset (stream ?p)" by (simp flip: mset_append)
  show ?case
  proof (cases "length ?xs = n")
    case True
    then show ?thesis using Cons.prems split by (auto simp: Let_def ac_simps)
  next
    case False
    then have all: "?xs = stream p" "stream ?p = []" by auto
    obtain ys qs where b: "bulk_producers (n - length ?xs) ps = (ys, qs)" by (cases "bulk_producers (n - length ?xs) ps")
    then show ?thesis using Cons.IH [OF b] Cons.prems False all by (auto simp: Let_def ac_simps)
  qed
qed simp

lemma size_from_parts:
  assumes "M = mset xs + N" "length xs \<le> n" "length xs < n \<longrightarrow> N = {#}"
  shows "length xs = min n (size M)"
  using assms by (cases "length xs < n") auto

lemma bulk_parts:
  assumes "cq_inv q" "try_dequeue_bulk q n = (xs, q')"
  shows "cq_inv q'" "cq_elems q = mset xs + cq_elems q'" "length xs \<le> n" "length xs < n \<longrightarrow> cq_elems q' = {#}"
proof -
  obtain ps where b: "bulk_producers n (producers q) = (xs, ps)" "q' = q\<lparr>producers := ps\<rparr>"
    using assms(2) by (auto simp: try_dequeue_bulk_def split: prod.splits)
  note spec = bulk_producers_spec [OF b(1)]
  then show "cq_inv q'" using cq_inv_cong [of q' q] assms(1) b(2) by simp
  show "cq_elems q = mset xs + cq_elems q'" "length xs \<le> n" "length xs < n \<longrightarrow> cq_elems q' = {#}"
    using spec b(2) by (simp_all add: cq_elems_def)
qed

text \<open>
  A bulk dequeue of up to \<open>n\<close> elements returns exactly the smaller of \<open>n\<close> and the number of elements in the queue, each of them
  leaves the queue once, and the rest stays.
\<close>

theorem try_dequeue_bulk_exact:
  assumes "cq_inv q" "try_dequeue_bulk q n = (xs, q')"
  shows "cq_inv q' \<and> cq_elems q = mset xs + cq_elems q' \<and> length xs = min n (size (cq_elems q))"
  using bulk_parts [OF assms] size_from_parts [OF bulk_parts(2-4) [OF assms]] by blast

theorem try_dequeue_bulk_exact_witness:
  "length (fst (try_dequeue_bulk (inner example_token_queue) 5)) = 2"
proof -
  obtain xs q' where b: "try_dequeue_bulk (inner example_token_queue) 5 = (xs, q')"
    by (cases "try_dequeue_bulk (inner example_token_queue) 5")
  from try_dequeue_bulk_exact [OF example_token_queue(1) b] b show ?thesis by (simp add: example_token_queue)
qed

subsection \<open>With a token\<close>

definition empty_at :: "nat \<Rightarrow> 'a cq_producer list \<Rightarrow> bool" where
  "empty_at i ps \<longleftrightarrow> (\<forall>p \<in> set ps. prod_id p = i \<longrightarrow> stream p = [])"

definition nonempty_count :: "'a cq_producer list \<Rightarrow> nat" where
  "nonempty_count ps = length (filter (\<lambda>p. stream p \<noteq> []) ps)"

lemma dequeue_bulk_from_spec:
  assumes "distinct (map prod_id ps)" "dequeue_bulk_from i n ps = (xs, ps')"
  shows "ownership ps' = ownership ps \<and> streams_elems ps = mset xs + streams_elems ps' \<and> length xs \<le> n \<and>
    (length xs < n \<longrightarrow> empty_at i ps') \<and> (\<forall>j. empty_at j ps \<longrightarrow> empty_at j ps') \<and>
    nonempty_count ps' \<le> nonempty_count ps \<and> (length xs < n \<longrightarrow> xs \<noteq> [] \<longrightarrow> nonempty_count ps' < nonempty_count ps)"
  using assms
proof (induction ps arbitrary: xs ps')
  case Nil
  then show ?case by (auto simp: dequeue_bulk_from_def update_producer_def empty_at_def nonempty_count_def)
next
  case (Cons p ps)
  obtain ys qs where rec: "dequeue_bulk_from i n ps = (ys, qs)" by (cases "dequeue_bulk_from i n ps")
  show ?case
  proof (cases "prod_id p = i")
    case True
    then have absent: "i \<notin> prod_id ` set ps" using Cons.prems(1) by auto
    then have other: "\<forall>q \<in> set ps. prod_id q \<noteq> i" by auto
    then have "concat (map (\<lambda>p. if prod_id p = i then take n (stream p) else []) ps) = []" by auto
    then have xs: "xs = take n (stream p)" "ps' = p\<lparr>stream := drop n (stream p)\<rparr> # ps"
      using Cons.prems(2) True update_producer_absent [OF absent] by (auto simp: dequeue_bulk_from_def update_producer_def)
    have "mset (stream p) = mset (take n (stream p)) + mset (drop n (stream p))" by (simp flip: mset_append)
    then show ?thesis using xs True other by (auto simp: empty_at_def nonempty_count_def min_def)
  next
    case False
    then have xs: "xs = ys" "ps' = p # qs"
      using Cons.prems(2) rec by (auto simp: dequeue_bulk_from_def update_producer_def)
    have "distinct (map prod_id ps)" using Cons.prems(1) by simp
    from Cons.IH [OF this rec] show ?thesis using xs False by (auto simp: empty_at_def nonempty_count_def)
  qed
qed

lemma ownership_next_or_tail:
  assumes "ids_ok ps" "ownership ps' = ownership ps" "i < length ps"
  shows "next_or_tail ps' i = next_or_tail ps i" "length ps' = length ps" "ids_ok ps'"
proof -
  show len: "length ps' = length ps" by (metis assms(2) length_ownership)
  show ok: "ids_ok ps'" using assms(1,2) ids_ok_cong by (metis ownership_ids)
  show "next_or_tail ps' i = next_or_tail ps i"
    using next_or_tail_ids [OF assms(1,3)] next_or_tail_ids [OF ok, of i] assms(3) len by simp
qed

lemma walk_same:
  assumes "ids_ok ps" "ownership ps' = ownership ps" "i < length ps" "k \<le> length ps"
  shows "(next_or_tail ps' ^^ k) i = (next_or_tail ps ^^ k) i"
  using ownership_next_or_tail [OF assms(1-3)] assms walk_pos [of ps' i k] walk_pos [of ps i k] by simp

lemma all_empty_at:
  assumes "ids_ok ps" "i < length ps" "\<And>k. k < length ps \<Longrightarrow> empty_at ((next_or_tail ps ^^ k) i) ps"
  shows "streams_elems ps = {#}"
  using all_empty [OF assms(1,2)] assms(3) by (simp add: streams_empty_iff dequeue_from_None empty_at_def)

lemma walk_dequeue_bulk_spec:
  assumes "ids_ok ps" "current < length ps" "0 < k" "k \<le> length ps" "0 < n" "currentProducer token = Some current"
    "nonempty_count ps * length ps + (length ps - k) \<le> fuel"
    "\<And>j. j < k \<Longrightarrow> empty_at ((next_or_tail ps ^^ j) current) ps"
    "walk_dequeue_bulk fuel current n ((next_or_tail ps ^^ k) current) token ps = (xs, token', ps')"
  shows "ownership ps' = ownership ps \<and> streams_elems ps = mset xs + streams_elems ps' \<and> length xs \<le> n \<and>
    (length xs < n \<longrightarrow> streams_elems ps' = {#}) \<and> desiredProducer token' = desiredProducer token \<and>
    (\<exists>c < length ps. currentProducer token' = Some c)"
  using assms
proof (induction fuel arbitrary: current k n token ps xs)
  case 0
  then have "k = length ps" by simp
  then show ?case using all_empty_at [OF 0(1,2)] 0 by simp
next
  case (Suc fuel)
  note pr = Suc.prems
  let ?ptr = "(next_or_tail ps ^^ k) current"
  show ?case
  proof (cases "?ptr = current")
    case True
    then have "k = length ps" using circle_back [OF pr(1-4)] by simp
    then show ?thesis using all_empty_at [OF pr(1,2)] pr(2,6,8,9) True by auto
  next
    case False
    then have k: "k < length ps" using circle_back [OF pr(1-4)] pr(4) by simp
    have ptr: "?ptr < length ps" by (rule walk_pos_less [OF pr(1,2,4)])
    obtain ys qs where d: "dequeue_bulk_from ?ptr n ps = (ys, qs)" by (cases "dequeue_bulk_from ?ptr n ps")
    note spec = dequeue_bulk_from_spec [OF ids_ok_distinct [OF pr(1)] d]
    have own: "ownership qs = ownership ps" using spec by blast
    note qs = ownership_next_or_tail [OF pr(1) own ptr]
    show ?thesis
    proof (cases "length ys = n")
      case True
      then have "ys \<noteq> []" using pr(5) by auto
      then have "xs = ys" "ps' = qs" "token' = token\<lparr>currentProducer := Some ?ptr, itemsConsumedFromCurrent := of_nat (length ys)\<rparr>"
        using pr(9) False d True by (auto simp: Let_def)
      then show ?thesis using spec True ptr by auto
    next
      case short: False
      then have less: "length ys < n" using spec by simp
      let ?token = "if ys \<noteq> [] then token\<lparr>currentProducer := Some ?ptr, itemsConsumedFromCurrent := of_nat (length ys)\<rparr> else token"
      let ?c = "if ys \<noteq> [] then ?ptr else current" and ?k = "if ys \<noteq> [] then 1 else Suc k"
      have step: "next_or_tail qs ?ptr = (next_or_tail qs ^^ ?k) ?c"
        using walk_same [OF pr(1) own pr(2,4)] by simp
      obtain zs where rec: "walk_dequeue_bulk fuel ?c (n - length ys) ((next_or_tail qs ^^ ?k) ?c) ?token qs = (zs, token', ps')"
        "xs = ys @ zs"
        using pr(6,9) False d short unfolding step [symmetric] by (auto simp: Let_def split: if_splits prod.splits)
      have empty: "empty_at ((next_or_tail qs ^^ j) ?c) qs" if "j < ?k" for j
        using that spec less pr(8) [of j] walk_same [OF pr(1) own pr(2), of j] pr(4)
        by (cases "ys \<noteq> []"; cases "j = k") (auto simp: less_Suc_eq)
      have fuel: "nonempty_count qs * length qs + (length qs - ?k) \<le> fuel"
      proof (cases "ys \<noteq> []")
        case True
        then have "Suc (nonempty_count qs) \<le> nonempty_count ps" using spec less by simp
        then have "Suc (nonempty_count qs) * length ps \<le> nonempty_count ps * length ps" by (rule mult_le_mono1)
        then show ?thesis using pr(7) k True qs(2) by simp
      next
        case ys: False
        have "nonempty_count qs * length ps \<le> nonempty_count ps * length ps" using spec by (intro mult_le_mono1) blast
        then have "nonempty_count qs * length ps + (length ps - Suc k) \<le> fuel" using pr(7) k by linarith
        then show ?thesis using ys qs(2) by simp
      qed
      have "ownership ps' = ownership qs \<and> streams_elems qs = mset zs + streams_elems ps' \<and> length zs \<le> n - length ys \<and>
        (length zs < n - length ys \<longrightarrow> streams_elems ps' = {#}) \<and> desiredProducer token' = desiredProducer ?token \<and>
        (\<exists>c < length qs. currentProducer token' = Some c)"
        using Suc.IH [OF qs(3) _ _ _ _ _ fuel empty rec(1)] ptr pr(2,6) k less qs(2) by auto
      then show ?thesis using spec rec(2) qs(2) own less by (auto simp: ac_simps split: if_splits)
    qed
  qed
qed

lemma nonempty_count_le: "nonempty_count ps \<le> length ps"
  by (simp add: nonempty_count_def)

lemma tokens_inv_bulk:
  assumes "tokens_inv (token, tq)" "ownership ps = ownership (producers (inner tq))" "inner tq' = (inner tq)\<lparr>producers := ps\<rparr>"
    "currentProducer token' = Some c" "c < length (producers (inner tq))" "desiredProducer token' = desiredProducer token"
    "desiredProducer token \<noteq> None"
  shows "tokens_inv (token', tq')"
proof -
  have "length ps = length (producers (inner tq))" by (metis assms(2) length_ownership)
  moreover have "cq_inv (inner tq')" using cq_inv_cong [of "inner tq'" "inner tq"] assms(1-3) by (simp add: tokens_inv_def)
  ultimately show ?thesis using assms by (auto simp: tokens_inv_def token_ok_def split: option.splits)
qed

text \<open>
  (C25) A bulk dequeue with a token also returns exactly as many elements as are wanted or as there are. Its walk around
  the producers, whose end moves with every producer it finds elements at, ends.
\<close>

theorem try_dequeue_bulk_token_exact:
  assumes "tokens_inv (token, tq)" "try_dequeue_bulk_token token n tq = (xs, token', tq')"
  shows "tokens_inv (token', tq') \<and> cq_elems (inner tq) = mset xs + cq_elems (inner tq') \<and>
    length xs = min n (size (cq_elems (inner tq)))"
proof (cases "refresh_token tq token")
  case None
  then show ?thesis using refresh_token_spec [OF assms(1)] assms by (auto simp: try_dequeue_bulk_token_def cq_elems_def)
next
  case (Some t1)
  let ?ps = "producers (inner tq)"
  obtain c where t1: "tokens_inv (t1, tq)" "c < length ?ps" "currentProducer t1 = Some c"
    using refresh_token_spec [OF assms(1)] Some by auto
  have des: "desiredProducer t1 \<noteq> None" using t1(1,3) by (auto simp: tokens_inv_def token_ok_def split: option.splits)
  have ids: "ids_ok ?ps" using t1(1) by (auto simp: tokens_inv_def cq_inv_ids_ok)
  obtain ys qs where d: "dequeue_bulk_from c n ?ps = (ys, qs)" by (cases "dequeue_bulk_from c n ?ps")
  note spec = dequeue_bulk_from_spec [OF ids_ok_distinct [OF ids] d]
  have own: "ownership qs = ownership ?ps" using spec by blast
  note qs = ownership_next_or_tail [OF ids own t1(2)]
  let ?t = "t1\<lparr>itemsConsumedFromCurrent := itemsConsumedFromCurrent t1 + of_nat (length ys)\<rparr>"
  show ?thesis
  proof (cases "length ys = n")
    case True
    have r: "xs = ys" "token' = ?t" "inner tq' = (inner tq)\<lparr>producers := qs\<rparr>"
      using assms(2) Some t1(3) d True by (auto simp: try_dequeue_bulk_token_def Let_def put_producers_def)
    have "tokens_inv (token', tq')" by (rule tokens_inv_bulk [OF t1(1) own r(3)]) (use r t1 des in auto)
    moreover have "length xs = min n (size (cq_elems (inner tq)))"
      by (rule size_from_parts [of _ _ "cq_elems (inner tq')"]) (use spec r True in \<open>simp_all add: cq_elems_def\<close>)
    ultimately show ?thesis using spec r by (simp add: cq_elems_def)
  next
    case False
    then have less: "length ys < n" using spec by simp
    obtain zs ps' where w: "walk_dequeue_bulk ((length qs + 1) * length qs) c (n - length ys) ((next_or_tail qs ^^ 1) c) ?t qs =
        (zs, token', ps')" "xs = ys @ zs" "inner tq' = (inner tq)\<lparr>producers := ps'\<rparr>"
      using assms(2) Some t1(3) d False by (auto simp: try_dequeue_bulk_token_def Let_def put_producers_def split: prod.splits)
    have fuel: "nonempty_count qs * length qs + (length qs - 1) \<le> (length qs + 1) * length qs"
    proof -
      have "nonempty_count qs * length qs \<le> length qs * length qs" by (rule mult_le_mono1 [OF nonempty_count_le])
      moreover have "(length qs + 1) * length qs = length qs * length qs + length qs" by simp
      ultimately show ?thesis by linarith
    qed
    have walk: "ownership ps' = ownership qs \<and> streams_elems qs = mset zs + streams_elems ps' \<and> length zs \<le> n - length ys \<and>
      (length zs < n - length ys \<longrightarrow> streams_elems ps' = {#}) \<and> desiredProducer token' = desiredProducer ?t \<and>
      (\<exists>c < length qs. currentProducer token' = Some c)"
      by (rule walk_dequeue_bulk_spec [OF qs(3) _ _ _ _ _ fuel _ w(1)]) (use t1 qs(2) less spec in auto)
    then obtain c' where c': "c' < length ?ps" "currentProducer token' = Some c'" using qs(2) by auto
    have parts: "cq_elems (inner tq) = mset xs + cq_elems (inner tq')"
      using spec walk w(2,3) by (simp add: cq_elems_def ac_simps)
    have "tokens_inv (token', tq')"
      by (rule tokens_inv_bulk [OF t1(1) _ w(3) c'(2,1)]) (use walk own des in auto)
    moreover have "length xs = min n (size (cq_elems (inner tq)))"
      by (rule size_from_parts [OF parts]) (use walk w(2,3) less in \<open>auto simp: cq_elems_def\<close>)
    ultimately show ?thesis using parts by blast
  qed
qed

theorem try_dequeue_bulk_token_exact_witness:
  "length (fst (try_dequeue_bulk_token (snd (new_ConsumerToken example_token_queue)) 5 (fst (new_ConsumerToken example_token_queue)))) = 2"
proof -
  let ?t = "snd (new_ConsumerToken example_token_queue)" and ?q = "fst (new_ConsumerToken example_token_queue)"
  have inv: "tokens_inv (?t, ?q)" using fresh_token_inv [of example_token_queue] example_token_queue by simp
  obtain xs t' q' where b: "try_dequeue_bulk_token ?t 5 ?q = (xs, t', q')" by (cases "try_dequeue_bulk_token ?t 5 ?q")
  have "cq_elems (inner ?q) = {#''b'', ''a''#}" using example_token_queue(2) by (simp add: new_ConsumerToken_def)
  with try_dequeue_bulk_token_exact [OF inv b] b show ?thesis by simp
qed

section \<open>Producer tokens\<close>

lemma enqueue_token_correct:
  assumes "cq_inv (inner tq)" "i < length (producers (inner tq))"
  shows "cq_inv (inner (enqueue_token i x tq))" "cq_elems (inner (enqueue_token i x tq)) = add_mset x (cq_elems (inner tq))"
proof -
  let ?q = "inner (enqueue_token i x tq)"
  have "ownership (producers ?q) = ownership (producers (inner tq))"
    by (simp add: enqueue_token_def ownership_def update_producer_map)
  from cq_inv_cong [OF this] assms(1) show "cq_inv ?q" by simp
  have "i \<in> prod_id ` set (producers (inner tq))"
    using ids_ok_set [OF cq_inv_ids_ok [OF assms(1)]] assms(2) by simp
  from update_producer_append_elems [OF cq_inv_ids [OF assms(1)] this]
  show "cq_elems ?q = add_mset x (cq_elems (inner tq))" by (simp add: enqueue_token_def cq_elems_def)
qed

text \<open>
  A token takes over a producer that was given up or adds one. Elements enqueued with a token that was deleted stay in the queue.
\<close>

lemma delete_ProducerToken_keeps:
  "cq_inv (inner tq) \<Longrightarrow> cq_inv (inner (delete_ProducerToken i tq))"
  "cq_elems (inner (delete_ProducerToken i tq)) = cq_elems (inner tq)"
  using cq_inv_cong [of "inner (delete_ProducerToken i tq)" "inner tq"]
  by (simp_all add: delete_ProducerToken_def ownership_def update_producer_map cq_elems_def update_producer_stream_same)

lemma new_ProducerToken_keeps:
  assumes "cq_inv (inner tq)"
  shows "cq_inv (inner (fst (new_ProducerToken tq)))" "cq_elems (inner (fst (new_ProducerToken tq))) = cq_elems (inner tq)"
    "snd (new_ProducerToken tq) < length (producers (inner (fst (new_ProducerToken tq))))"
proof -
  let ?ps = "producers (inner tq)"
  have "cq_inv (inner (fst (new_ProducerToken tq))) \<and> cq_elems (inner (fst (new_ProducerToken tq))) = cq_elems (inner tq) \<and>
    snd (new_ProducerToken tq) < length (producers (inner (fst (new_ProducerToken tq))))"
  proof (cases "find (\<lambda>p. inactive p \<and> isExplicit p = True) ?ps")
    case None
    then have "new_ProducerToken tq = (tq\<lparr>inner := fst (add_producer (inner tq) True None)\<rparr>, length ?ps)"
      by (simp add: new_ProducerToken_def recycle_or_create_producer_def add_producer_def Let_def)
    then show ?thesis using assms by (simp add: add_producer_def Let_def cq_inv_def cq_elems_def ownership_def o_def)
  next
    case (Some p)
    let ?f = "\<lambda>p. p\<lparr>inactive := False, prod_thread := None\<rparr>"
    have new: "new_ProducerToken tq = (tq\<lparr>inner := (inner tq)\<lparr>producers := update_producer (prod_id p) ?f ?ps\<rparr>\<rparr>, prod_id p)"
      using Some by (simp add: new_ProducerToken_def recycle_or_create_producer_def)
    have "p \<in> set ?ps" using Some by (auto simp: find_Some_iff)
    then have "prod_id p < length ?ps" by (rule ids_ok_member [OF cq_inv_ids_ok [OF assms]])
    moreover have "map prod_id (update_producer (prod_id p) ?f ?ps) = map prod_id ?ps" by (simp add: update_producer_map)
    moreover have "(i, Some t) \<in> set (ownership (update_producer (prod_id p) ?f ?ps)) \<Longrightarrow> (i, Some t) \<in> set (ownership ?ps)" for i t
      by (auto simp: ownership_def update_producer_def split: if_splits)
    moreover have "length (update_producer (prod_id p) ?f ?ps) = length ?ps" by (simp add: update_producer_def)
    ultimately show ?thesis
      using assms unfolding new cq_inv_def by (simp add: cq_elems_def update_producer_stream_same) blast
  qed
  then show "cq_inv (inner (fst (new_ProducerToken tq)))" "cq_elems (inner (fst (new_ProducerToken tq))) = cq_elems (inner tq)"
    "snd (new_ProducerToken tq) < length (producers (inner (fst (new_ProducerToken tq))))" by blast+
qed

end
