(* ===== verification/CQ_Shared.thy ===== *)
theory CQ_Shared
  imports CQ_Bulk CQ_Hash CQ_Tokens
begin

text \<open>
  The queue put together from its parts, for producers and consumers without tokens: \<^verbatim>\<open>inner_enqueue\<close>,
  \<^verbatim>\<open>try_dequeue\<close>, \<^verbatim>\<open>try_dequeue_non_interleaved\<close>, \<^verbatim>\<open>try_dequeue_bulk\<close>, \<^verbatim>\<open>size_approx\<close> and the destructor of
  \<^verbatim>\<open>src/utils/concurrentqueue-1.0.3/concurrentqueue.h\<close>, which call the hash table of producers (\<^verbatim>\<open>CQ_Hash\<close>), the
  operations of the implicit producers (\<^verbatim>\<open>CQ_Implicit\<close>, \<^verbatim>\<open>CQ_Bulk\<close>) with their block indices, and the
  pool of blocks they share (\<^verbatim>\<open>CQ_Block\<close>).

  \<^verbatim>\<open>CQ_Refinement\<close> shows that this machinery refines the queue of \<^verbatim>\<open>CQ_Dispatch\<close>, a list of producers with the
  streams of their elements, which is what the volume server and the blocking queue build on. The lemmas here are about the loops over the producers: a block of one producer is never
  touched by an operation on another one, although all of them take blocks from one pool and return
  them there.
\<close>

section \<open>State and operations\<close>

text \<open>
  \<open>sq_dir\<close> is the list from \<^verbatim>\<open>producerListTail\<close> on: who the producers are and which threads own them. The
  elements are not there (its streams stay empty) but in \<open>sq_subs\<close>, where a producer is found
  under its identifier, and in the blocks of \<open>sq_pool\<close>.
\<close>

record 'a SharedQueue =
  sq_hashes :: ProducerHashes
  sq_dir :: "'a ConcurrentQueue"
  sq_subs :: "ImplicitProducer list"
  sq_pool :: "'a BlockPool"

definition new_SharedQueue :: "alloc_env \<Rightarrow> u64 \<Rightarrow> 'a SharedQueue" where
  "new_SharedQueue env cap =
     \<lparr>sq_hashes = populate_initial_implicit_producer_hash, sq_dir = cq_empty, sq_subs = [], sq_pool = initial_pool env cap\<rparr>"

text \<open>The constructor of a producer that \<^verbatim>\<open>recycle_or_create_producer\<close> has just allocated.\<close>

definition construct_producer :: "alloc_env \<Rightarrow> nat \<Rightarrow> 'a SharedQueue \<Rightarrow> fault + 'a SharedQueue" where
  "construct_producer env i s =
     (if i < length (sq_subs s) then Inr s
      else and_then (ImplicitProducer_init env (sq_pool s)) (\<lambda>(pool, p).
             Inr (s\<lparr>sq_pool := pool, sq_subs := sq_subs s @ [p]\<rparr>)))"

text \<open>
  \<open>allocated\<close> and \<open>created\<close> say whether the allocations of a larger hash table and of a producer would succeed, \<open>ctor_ok\<close>
  whether the element can be copied.
\<close>

record enqueue_env =
  allocated :: bool
  created :: bool
  ctor_ok :: bool

definition sq_enqueue ::
  "alloc_env \<Rightarrow> AllocationMode \<Rightarrow> enqueue_env \<Rightarrow> u64 \<Rightarrow> 'a \<Rightarrow> 'a SharedQueue \<Rightarrow> fault + 'a SharedQueue \<times> enqueue_result" where
  "sq_enqueue env mode e tid element s =
     (case hash_get_or_add (allocated e) (created e) tid (sq_hashes s) (sq_dir s) of
        None \<Rightarrow> Inl Diverges
      | Some (producer, hs, dir) \<Rightarrow>
          let s = s\<lparr>sq_hashes := hs, sq_dir := dir\<rparr>
          in case producer of
               None \<Rightarrow> Inr (s, Not_Enqueued)
             | Some i \<Rightarrow>
                 and_then (construct_producer env i s) (\<lambda>s.
                 and_then (IP_enqueue env mode (ctor_ok e) element (sq_pool s) (sq_subs s ! i)) (\<lambda>(pool, p, r).
                   Inr (s\<lparr>sq_pool := pool, sq_subs := (sq_subs s)[i := p]\<rparr>, r))))"

text \<open>
  The loops over the producers. A dequeue from one given producer is the loop that tries only that one.
\<close>

fun sq_score :: "ImplicitProducer list \<Rightarrow> 'a cq_producer list \<Rightarrow> nat \<Rightarrow> nat option \<Rightarrow> u64 \<Rightarrow> nat \<times> nat option" where
  "sq_score subs [] nonEmptyCount best bestSize = (nonEmptyCount, best)"
| "sq_score subs (p # ps) nonEmptyCount best bestSize =
     (if nonEmptyCount < 3
      then let size = IP_size_approx (subs ! prod_id p)
           in if size > 0
              then if size > bestSize
                   then sq_score subs ps (nonEmptyCount + 1) (Some (prod_id p)) size
                   else sq_score subs ps (nonEmptyCount + 1) best bestSize
              else sq_score subs ps nonEmptyCount best bestSize
      else (nonEmptyCount, best))"

fun sq_dequeue_where ::
  "(nat \<Rightarrow> bool) \<Rightarrow> 'a cq_producer list \<Rightarrow> 'a BlockPool \<Rightarrow> ImplicitProducer list \<Rightarrow>
     fault + 'a option \<times> 'a BlockPool \<times> ImplicitProducer list" where
  "sq_dequeue_where P [] pool subs = Inr (None, pool, subs)"
| "sq_dequeue_where P (p # ps) pool subs =
     (if P (prod_id p)
      then and_then (IP_dequeue pool (subs ! prod_id p)) (\<lambda>(pool, sub, r).
             let subs = subs[prod_id p := sub]
             in case r of Some x \<Rightarrow> Inr (Some x, pool, subs) | None \<Rightarrow> sq_dequeue_where P ps pool subs)
      else sq_dequeue_where P ps pool subs)"

definition sq_try_dequeue :: "'a SharedQueue \<Rightarrow> fault + 'a SharedQueue \<times> 'a option" where
  "sq_try_dequeue s =
     (case sq_score (sq_subs s) (producers (sq_dir s)) 0 None 0 of (nonEmptyCount, best) \<Rightarrow>
        if nonEmptyCount > 0
        then and_then (sq_dequeue_where (\<lambda>i. Some i = best) (producers (sq_dir s)) (sq_pool s) (sq_subs s)) (\<lambda>(r, pool, subs).
               let s = s\<lparr>sq_pool := pool, sq_subs := subs\<rparr>
               in case r of
                    Some x \<Rightarrow> Inr (s, Some x)
                  | None \<Rightarrow>
                      and_then (sq_dequeue_where (\<lambda>i. Some i \<noteq> best) (producers (sq_dir s)) pool subs) (\<lambda>(r, pool, subs).
                        Inr (s\<lparr>sq_pool := pool, sq_subs := subs\<rparr>, r)))
        else Inr (s, None))"

definition sq_try_dequeue_non_interleaved :: "'a SharedQueue \<Rightarrow> fault + 'a SharedQueue \<times> 'a option" where
  "sq_try_dequeue_non_interleaved s =
     and_then (sq_dequeue_where (\<lambda>_. True) (producers (sq_dir s)) (sq_pool s) (sq_subs s)) (\<lambda>(r, pool, subs).
       Inr (s\<lparr>sq_pool := pool, sq_subs := subs\<rparr>, r))"

fun sq_bulk ::
  "u64 \<Rightarrow> 'a cq_producer list \<Rightarrow> 'a BlockPool \<Rightarrow> ImplicitProducer list \<Rightarrow>
     fault + 'a list \<times> 'a BlockPool \<times> ImplicitProducer list" where
  "sq_bulk mx [] pool subs = Inr ([], pool, subs)"
| "sq_bulk mx (p # ps) pool subs =
     and_then (IP_dequeue_bulk pool (subs ! prod_id p) mx) (\<lambda>(pool, sub, xs, n).
       let subs = subs[prod_id p := sub]
       in if n = mx then Inr (xs, pool, subs)
          else and_then (sq_bulk (mx - n) ps pool subs) (\<lambda>(ys, pool, subs). Inr (xs @ ys, pool, subs)))"

definition sq_try_dequeue_bulk :: "u64 \<Rightarrow> 'a SharedQueue \<Rightarrow> fault + 'a SharedQueue \<times> 'a list" where
  "sq_try_dequeue_bulk mx s =
     and_then (sq_bulk mx (producers (sq_dir s)) (sq_pool s) (sq_subs s)) (\<lambda>(xs, pool, subs).
       Inr (s\<lparr>sq_pool := pool, sq_subs := subs\<rparr>, xs))"

definition sq_size_approx :: "'a SharedQueue \<Rightarrow> u64" where
  "sq_size_approx s = sum_list (map (\<lambda>p. IP_size_approx (sq_subs s ! prod_id p)) (producers (sq_dir s)))"

text \<open>The part of the destructor that destroys the producers.\<close>

fun destroy_producers :: "'a cq_producer list \<Rightarrow> ImplicitProducer list \<Rightarrow> 'a BlockPool \<Rightarrow> fault + 'a BlockPool" where
  "destroy_producers [] subs pool = Inr pool"
| "destroy_producers (p # ps) subs pool =
     and_then (ImplicitProducer_destroy pool (subs ! prod_id p)) (destroy_producers ps subs)"

section \<open>Producers share the pool\<close>

text \<open>Every producer holds its elements, in blocks of its own.\<close>

definition shared :: "'a BlockPool \<Rightarrow> ImplicitProducer list \<Rightarrow> 'a list list \<Rightarrow> bool" where
  "shared pool subs xss \<longleftrightarrow>
     (\<exists>bss. length bss = length subs \<and> length xss = length subs \<and> distinct (concat bss) \<and>
        (\<exists>fl. pool_inv pool fl (set (concat bss))) \<and>
        (\<forall>i < length subs. \<exists>h t. ip_ok pool (subs ! i) (set (concat bss) - set (bss ! i)) h t (bss ! i) (xss ! i)))"

lemma ip_ok_others:
  assumes "ip_ok q p others h t bs xs" "\<And>y. y \<in> set bs \<Longrightarrow> blocks q' ! y = blocks q ! y"
    "pool_inv q' fl (set bs \<union> others')" "set bs \<inter> others' = {}"
  shows "ip_ok q' p others' h t bs xs"
proof -
  have "holds q' (bs @ []) h xs"
    using assms(2) ip_ok_block [OF assms(1)] by (rule holds_cong) (use assms(1) in \<open>auto simp: ip_ok_def\<close>)
  moreover have "counters q' bs (h mod 32)"
    using assms(2) by (rule counters_cong) (use assms(1) in \<open>auto simp: ip_ok_def\<close>)
  ultimately show ?thesis using assms by (auto simp: ip_ok_def)
qed

lemma concat_update:
  assumes "distinct (concat bss)" "i < length bss"
  shows "set (concat (bss[i := bs])) = set bs \<union> (set (concat bss) - set (bss ! i))"
    and "distinct bs \<Longrightarrow> set bs \<inter> (set (concat bss) - set (bss ! i)) = {} \<Longrightarrow> distinct (concat (bss[i := bs]))"
    and "j < length bss \<Longrightarrow> j \<noteq> i \<Longrightarrow> set (bss ! j) \<subseteq> set (concat bss) - set (bss ! i)"
    and "distinct (bss ! i)"
proof -
  have split: "bss = take i bss @ bss ! i # drop (Suc i) bss" "length (take i bss) = i" using assms(2) by (simp_all add: id_take_nth_drop)
  have upd: "bss[i := bs] = take i bss @ bs # drop (Suc i) bss" using assms(2) by (simp add: upd_conv_take_nth_drop)
  have d: "distinct (concat (take i bss @ bss ! i # drop (Suc i) bss))" using assms(1) split(1) by simp
  have whole: "set (concat bss) = set (concat (take i bss)) \<union> set (bss ! i) \<union> set (concat (drop (Suc i) bss))"
    by (subst split(1)) auto
  show "set (concat (bss[i := bs])) = set bs \<union> (set (concat bss) - set (bss ! i))"
    using d unfolding upd whole by auto
  show "distinct bs \<Longrightarrow> set bs \<inter> (set (concat bss) - set (bss ! i)) = {} \<Longrightarrow> distinct (concat (bss[i := bs]))"
    using d unfolding upd whole by (simp only: concat.simps concat_append distinct_append set_append) blast
  show "distinct (bss ! i)" using d by simp
  show "set (bss ! j) \<subseteq> set (concat bss) - set (bss ! i)" if j: "j < length bss" "j \<noteq> i"
  proof -
    have "bss ! j \<in> set (take i bss) \<or> bss ! j \<in> set (drop (Suc i) bss)"
    proof (cases "j < i")
      case True
      then show ?thesis using j by (metis in_set_conv_nth length_take min_less_iff_conj nth_take)
    next
      case False
      then have "bss ! j = drop (Suc i) bss ! (j - Suc i)" "j - Suc i < length (drop (Suc i) bss)" using j by simp_all
      then show ?thesis by (metis nth_mem)
    qed
    then show ?thesis using d unfolding whole by auto
  qed
qed

lemma shared_step:
  assumes "shared pool subs xss" "i < length subs"
  obtains others h t bs where "ip_ok pool (subs ! i) others h t bs (xss ! i)"
    "\<And>pool' p' h' t' bs' xs'. ip_ok pool' p' others h' t' bs' xs' \<Longrightarrow> \<forall>y \<in> others. blocks pool' ! y = blocks pool ! y \<Longrightarrow>
       shared pool' (subs[i := p']) (xss[i := xs'])"
proof -
  obtain bss where bss: "length bss = length subs" "length xss = length subs" "distinct (concat bss)"
    "\<And>j. j < length subs \<Longrightarrow> \<exists>h t. ip_ok pool (subs ! j) (set (concat bss) - set (bss ! j)) h t (bss ! j) (xss ! j)"
    using assms(1) by (auto simp: shared_def)
  note cu = concat_update [OF bss(3), of i] and i = assms(2)
  let ?others = "set (concat bss) - set (bss ! i)"
  obtain h t where ok: "ip_ok pool (subs ! i) ?others h t (bss ! i) (xss ! i)" using bss(4) [OF i] by blast
  have step: "shared pool' (subs[i := p']) (xss[i := xs'])"
    if new: "ip_ok pool' p' ?others h' t' bs' xs'" and same: "\<forall>y \<in> ?others. blocks pool' ! y = blocks pool ! y"
    for pool' p' h' t' bs' xs'
  proof -
    let ?bss = "bss[i := bs']"
    obtain fl where d: "distinct bs'" "set bs' \<inter> ?others = {}" and inv: "pool_inv pool' fl (set bs' \<union> ?others)"
      using new by (auto simp: ip_ok_def)
    have whole: "set (concat ?bss) = set bs' \<union> ?others" and dist: "distinct (concat ?bss)" using cu(1,2) i bss(1) d by simp_all
    have mine: "set (concat ?bss) - set bs' = ?others" unfolding whole using d(2) by blast
    have "\<exists>h t. ip_ok pool' (subs[i := p'] ! j) (set (concat ?bss) - set (?bss ! j)) h t (?bss ! j) (xss[i := xs'] ! j)"
      if j: "j < length subs" for j
    proof (cases "j = i")
      case True
      then show ?thesis using new mine i bss(1,2) by auto
    next
      case False
      obtain h t where okj: "ip_ok pool (subs ! j) (set (concat bss) - set (bss ! j)) h t (bss ! j) (xss ! j)" using bss(4) [OF j] by blast
      have sub: "set (bss ! j) \<subseteq> ?others" using cu(3) [of j] i j bss(1) False by simp
      then have "set (bss ! j) \<subseteq> set (concat ?bss)" unfolding whole by blast
      then have "pool_inv pool' fl (set (bss ! j) \<union> (set (concat ?bss) - set (bss ! j)))" using inv unfolding whole by (simp add: Un_absorb1)
      then have "ip_ok pool' (subs ! j) (set (concat ?bss) - set (bss ! j)) h t (bss ! j) (xss ! j)"
        using same sub by (intro ip_ok_others [OF okj]) auto
      then show ?thesis using False by auto
    qed
    then show ?thesis unfolding shared_def using bss(1,2) dist inv whole by (intro exI [of _ ?bss]) auto
  qed
  show ?thesis by (rule that [OF ok step])
qed

lemma shared_new:
  assumes "shared pool subs xss"
  shows "\<exists>p. ImplicitProducer_init env pool = Inr (pool\<lparr>mallocs := mallocs pool + 1\<rparr>, p) \<and>
    shared (pool\<lparr>mallocs := mallocs pool + 1\<rparr>) (subs @ [p]) (xss @ [[]])"
proof -
  obtain bss fl where bss: "length bss = length subs" "length xss = length subs" "distinct (concat bss)" "pool_inv pool fl (set (concat bss))"
    "\<forall>j < length subs. \<exists>h t. ip_ok pool (subs ! j) (set (concat bss) - set (bss ! j)) h t (bss ! j) (xss ! j)"
    using assms by (auto simp: shared_def)
  let ?pool = "pool\<lparr>mallocs := mallocs pool + 1\<rparr>"
  obtain p where p: "ImplicitProducer_init env pool = Inr (?pool, p)" "ip_ok ?pool p (set (concat bss)) 0 0 [] []"
    using ImplicitProducer_init_ok [OF bss(4)] by blast
  have "\<exists>h t. ip_ok ?pool ((subs @ [p]) ! j) (set (concat (bss @ [[]])) - set ((bss @ [[]]) ! j)) h t ((bss @ [[]]) ! j) ((xss @ [[]]) ! j)"
    if j: "j < Suc (length subs)" for j
  proof (cases "j = length subs")
    case True
    then show ?thesis using p(2) bss(1,2) by (auto simp: nth_append)
  next
    case False
    then have "j < length subs" using j by simp
    then show ?thesis using bss(1,2,5) by (simp only: ip_ok_mallocs) (simp add: nth_append)
  qed
  then have "shared ?pool (subs @ [p]) (xss @ [[]])"
    unfolding shared_def using bss(1-3) pool_inv_malloc [OF bss(4), of "mallocs pool + 1"] by (intro exI [of _ "bss @ [[]]"]) auto
  then show ?thesis using p(1) by blast
qed

section \<open>A block index is never lost\<close>

abbreviation has_index :: "ImplicitProducer \<Rightarrow> bool" where
  "has_index p \<equiv> blockIndex (index_state p) \<noteq> []"

lemma publish_keeps_index: "blockIndex (publish_entry ix e base nt) = [] \<longleftrightarrow> blockIndex ix = []"
  by (auto simp: publish_entry_def store_tail_def store_key_def split: list.splits)

lemma new_block_index_keeps_index:
  assumes "new_block_index env q ix = Inr (q', ix', ok)" "blockIndex ix \<noteq> []"
  shows "blockIndex ix' \<noteq> []"
  using assms by (cases "malloc_ok env (mallocs q)") (auto simp: new_block_index_def cq_malloc_def Let_def and_then_eq_Inr)

lemma insert_keeps_index:
  assumes "insert_block_index_entry env mode base q ix = Inr (q', ix', e)" "blockIndex ix \<noteq> []"
  shows "blockIndex ix' \<noteq> []"
proof -
  obtain h hs where ix: "blockIndex ix = h # hs" using assms(2) by (cases "blockIndex ix") auto
  obtain i where i: "header_entry ix h (next_tail h) = Inr i" using assms(1) by (auto simp: insert_block_index_entry_def ix and_then_eq_Inr)
  show ?thesis
  proof (cases "entry_key (entry_heap ix ! i) = INVALID_BLOCK_BASE \<or> entry_value (entry_heap ix ! i) = None \<or> mode = CannotAlloc")
    case True
    then show ?thesis
      using assms ix publish_keeps_index [of ix] by (auto simp: insert_block_index_entry_def i split: if_splits)
  next
    case False
    then obtain q1 ix1 ok where new: "new_block_index env q ix = Inr (q1, ix1, ok)"
      using assms(1) by (auto simp: insert_block_index_entry_def ix i and_then_eq_Inr)
    then have "blockIndex ix1 \<noteq> []" using assms(2) by (rule new_block_index_keeps_index)
    then obtain h1 hs1 where ix1: "blockIndex ix1 = h1 # hs1" by (cases "blockIndex ix1") auto
    show ?thesis
      using assms(1) False new ix1 publish_keeps_index [of ix1]
      by (auto simp: insert_block_index_entry_def ix i and_then_eq_Inr split: if_splits)
  qed
qed

lemma revert_keeps_index:
  assumes "revert_entry p e = Inr p'" "has_index p"
  shows "has_index p'"
  using assms
  by (auto simp: revert_entry_def rewind_block_index_tail_def store_tail_def store_value_def and_then_eq_Inr split: list.splits)

lemma enqueue_keeps_index:
  assumes "IP_enqueue env mode ok x q p = Inr (q', p', r)" "has_index p"
  shows "has_index p'"
proof (cases "tailIndex p AND (BLOCK_SIZE - 1) = 0")
  case False
  then show ?thesis using assms by (auto simp: IP_enqueue_def Let_def and_then_eq_Inr split: option.splits if_splits)
next
  case True
  then have "IP_enqueue_new_block env mode ok x q p = Inr (q', p', r)" using assms(1) by (simp add: IP_enqueue_def Let_def)
  then show ?thesis
    using assms(2) insert_keeps_index [of env mode "tailIndex p" q "index_state p"] revert_keeps_index
    by (fastforce simp: IP_enqueue_new_block_def Let_def and_then_eq_Inr store_value_def split: if_splits option.splits)
qed

lemma new_keeps_index:
  assumes "ImplicitProducer_init env q = Inr (q', p)" "malloc_ok env (mallocs q)"
  shows "has_index p"
  using assms
  by (auto simp: ImplicitProducer_init_def new_block_index_def BlockIndex_empty_def cq_malloc_def prev_index_def Let_def and_then_eq_Inr)

section \<open>One producer at a time\<close>

lemma sub_dequeue:
  assumes "shared pool subs xss" "i < length subs"
  shows "\<exists>pool' sub'. IP_dequeue pool (subs ! i) = Inr (pool', sub', case xss ! i of [] \<Rightarrow> None | x # _ \<Rightarrow> Some x) \<and>
    shared pool' (subs[i := sub']) (xss[i := tl (xss ! i)]) \<and> (has_index (subs ! i) \<longrightarrow> has_index sub')"
proof -
  obtain others h t bs where ok: "ip_ok pool (subs ! i) others h t bs (xss ! i)"
    and step: "\<And>pool' p' h' t' bs' xs'. ip_ok pool' p' others h' t' bs' xs' \<Longrightarrow> \<forall>y \<in> others. blocks pool' ! y = blocks pool ! y \<Longrightarrow>
       shared pool' (subs[i := p']) (xss[i := xs'])"
    by (rule shared_step [OF assms]) blast
  show ?thesis
  proof (cases "xss ! i")
    case Nil
    then have "IP_dequeue pool (subs ! i) = Inr (pool, subs ! i, None)" using IP_dequeue_empty [of pool "subs ! i" others h t bs] ok by simp
    then show ?thesis using Nil step [OF ok] by simp
  next
    case (Cons x xs)
    then obtain pool' sub' bs' where run: "IP_dequeue pool (subs ! i) = Inr (pool', sub', Some x)" "ip_ok pool' sub' others (Suc h) t bs' xs"
      "\<forall>y \<in> others. blocks pool' ! y = blocks pool ! y"
      using IP_dequeue_spec [of pool "subs ! i" others h t bs x xs] ok by auto
    have "0 < t" using run(2) by (auto simp: ip_ok_def)
    then show ?thesis using run step [OF run(2,3)] ip_ok_has_index [OF run(2)] Cons by simp
  qed
qed

lemma sub_dequeue_bulk:
  assumes "shared pool subs xss" "i < length subs"
  shows "\<exists>pool' sub'. IP_dequeue_bulk pool (subs ! i) mx =
      Inr (pool', sub', take (unat mx) (xss ! i), of_nat (min (unat mx) (length (xss ! i)))) \<and>
    shared pool' (subs[i := sub']) (xss[i := drop (unat mx) (xss ! i)]) \<and> (has_index (subs ! i) \<longrightarrow> has_index sub')"
proof -
  obtain others h t bs where ok: "ip_ok pool (subs ! i) others h t bs (xss ! i)"
    and step: "\<And>pool' p' h' t' bs' xs'. ip_ok pool' p' others h' t' bs' xs' \<Longrightarrow> \<forall>y \<in> others. blocks pool' ! y = blocks pool ! y \<Longrightarrow>
       shared pool' (subs[i := p']) (xss[i := xs'])"
    by (rule shared_step [OF assms]) blast
  let ?n = "min (unat mx) (length (xss ! i))"
  obtain pool' sub' bs' where run: "IP_dequeue_bulk pool (subs ! i) mx = Inr (pool', sub', take (unat mx) (xss ! i), of_nat ?n)"
    "ip_ok pool' sub' others (h + ?n) t bs' (drop (unat mx) (xss ! i))" "\<forall>y \<in> others. blocks pool' ! y = blocks pool ! y"
    using dequeue_bulk_spec [OF ok, of mx] by blast
  have "sub' = subs ! i" if "t = 0"
  proof -
    have "tailIndex (subs ! i) = 0" "dequeueOptimisticCount (subs ! i) - dequeueOvercommit (subs ! i) = 0" using ok that by (simp_all add: ip_ok_def)
    then show ?thesis using run(1) circular_less_than_nat [of 0 0] by (simp add: IP_dequeue_bulk_def Let_def)
  qed
  then show ?thesis using run step [OF run(2,3)] ip_ok_has_index [OF run(2)] by (cases "t = 0") auto
qed

lemma sub_enqueue:
  assumes "shared pool subs xss" "i < length subs"
  shows "\<exists>pool' sub' r. IP_enqueue env mode ok x pool (subs ! i) = Inr (pool', sub', r) \<and>
    shared pool' (subs[i := sub']) (xss[i := if r = Enqueued then xss ! i @ [x] else xss ! i]) \<and> (has_index (subs ! i) \<longrightarrow> has_index sub') \<and>
    (has_index (subs ! i) \<and> mode = CanAlloc \<and> ok \<and> (\<forall>n. malloc_ok env n) \<and> length (xss ! i) < 2 ^ 60 \<longrightarrow> r = Enqueued)"
proof -
  obtain others h t bs where ip: "ip_ok pool (subs ! i) others h t bs (xss ! i)"
    and step: "\<And>pool' p' h' t' bs' xs'. ip_ok pool' p' others h' t' bs' xs' \<Longrightarrow> \<forall>y \<in> others. blocks pool' ! y = blocks pool ! y \<Longrightarrow>
       shared pool' (subs[i := p']) (xss[i := xs'])"
    by (rule shared_step [OF assms]) blast
  obtain pool' sub' r where run: "IP_enqueue env mode ok x pool (subs ! i) = Inr (pool', sub', r)"
    "enqueue_outcome pool' sub' others h t bs (xss ! i) x r" "\<forall>y \<in> others. blocks pool' ! y = blocks pool ! y"
    and fail: "r = Constructor_Threw \<longrightarrow> \<not> ok" "r = Not_Enqueued \<longrightarrow> h + 2 ^ 63 \<le> t + 32 \<or> \<not> has_index (subs ! i) \<or> mode = CannotAlloc \<or>
        \<not> malloc_ok env (mallocs pool) \<or> \<not> malloc_ok env (Suc (mallocs pool))"
    using IP_enqueue_spec [OF ip, of env mode ok x] by blast
  then obtain t' bs' where "ip_ok pool' sub' others h t' bs' (if r = Enqueued then xss ! i @ [x] else xss ! i)"
    by (cases "r = Enqueued") (auto simp: enqueue_outcome_def)
  then have "shared pool' (subs[i := sub']) (xss[i := if r = Enqueued then xss ! i @ [x] else xss ! i])" using run(3) by (rule step)
  moreover have "t + 32 < h + 2 ^ 63" if "length (xss ! i) < 2 ^ 60" using that ip by (simp add: ip_ok_def)
  then have "has_index (subs ! i) \<and> mode = CanAlloc \<and> ok \<and> (\<forall>n. malloc_ok env n) \<and> length (xss ! i) < 2 ^ 60 \<longrightarrow> r = Enqueued"
    using fail by (cases r) auto
  ultimately show ?thesis using run(1) enqueue_keeps_index [OF run(1)] by blast
qed

lemma sub_size:
  assumes "shared pool subs xss" "i < length subs"
  shows "unat (IP_size_approx (subs ! i)) = length (xss ! i)"
  by (rule shared_step [OF assms]) (rule IP_size_approx_exact)

lemma shared_length: "shared pool subs xss \<Longrightarrow> length xss = length subs"
  by (auto simp: shared_def)

section \<open>The loops over the producers\<close>

text \<open>The producers of the directory with their streams.\<close>

definition fill_stream :: "'a list list \<Rightarrow> 'a cq_producer \<Rightarrow> 'a cq_producer" where
  "fill_stream xss p = p\<lparr>stream := xss ! prod_id p\<rparr>"

lemma fill_stream_simps [simp]: "prod_id (fill_stream xss p) = prod_id p" "prod_thread (fill_stream xss p) = prod_thread p"
  "isExplicit (fill_stream xss p) = isExplicit p" "inactive (fill_stream xss p) = inactive p" "stream (fill_stream xss p) = xss ! prod_id p"
  by (simp_all add: fill_stream_def)

lemma fill_stream_other: "prod_id p \<noteq> i \<Longrightarrow> fill_stream (xss[i := xs]) p = fill_stream xss p"
  by (simp add: fill_stream_def)

lemma fill_stream_others: "i \<notin> prod_id ` set ps \<Longrightarrow> map (fill_stream (xss[i := xs])) ps = map (fill_stream xss) ps"
  by (intro map_cong refl fill_stream_other) auto

definition ids_in :: "'a cq_producer list \<Rightarrow> 'b list \<Rightarrow> bool" where
  "ids_in ps subs \<longleftrightarrow> distinct (map prod_id ps) \<and> (\<forall>p \<in> set ps. prod_id p < length subs)"

lemma sq_score_spec:
  assumes "shared pool subs xss" "ids_in ps subs"
  shows "sq_score subs ps n best sz = score_producers (map (fill_stream xss) ps) n best (unat sz)"
  using assms(2)
proof (induction ps arbitrary: n best sz)
  case (Cons p ps)
  have "unat (IP_size_approx (subs ! prod_id p)) = length (xss ! prod_id p)"
    using Cons.prems by (intro sub_size [OF assms(1)]) (simp add: ids_in_def)
  moreover have "ids_in ps subs" using Cons.prems by (simp add: ids_in_def)
  ultimately show ?case using Cons.IH by (simp add: Let_def word_less_nat_alt flip: unat_eq_zero)
qed simp

lemma sq_dequeue_where_spec:
  assumes "shared pool subs xss" "ids_in ps subs"
  shows "\<exists>r pool' subs' xss'. sq_dequeue_where P ps pool subs = Inr (r, pool', subs') \<and> shared pool' subs' xss' \<and>
    length subs' = length subs \<and> (\<forall>i. i \<notin> prod_id ` set ps \<longrightarrow> xss' ! i = xss ! i) \<and>
    dequeue_where (\<lambda>p. P (prod_id p)) (map (fill_stream xss) ps) = map_option (\<lambda>x. (x, map (fill_stream xss') ps)) r \<and>
    (r = None \<longrightarrow> xss' = xss) \<and> (list_all has_index subs \<longrightarrow> list_all has_index subs')"
  using assms
proof (induction ps arbitrary: pool subs)
  case (Cons p ps)
  let ?i = "prod_id p"
  have p: "?i < length subs" "?i \<notin> prod_id ` set ps" and ps: "ids_in ps subs" using Cons.prems(2) by (auto simp: ids_in_def)
  have skip: ?case
    if run: "sq_dequeue_where P (p # ps) pool subs = sq_dequeue_where P ps pool1 subs1" and sh: "shared pool1 subs1 xss"
      and len: "length subs1 = length subs" and no: "\<not> (P ?i \<and> xss ! ?i \<noteq> [])"
      and ix: "list_all has_index subs \<longrightarrow> list_all has_index subs1" for pool1 subs1
  proof -
    have "ids_in ps subs1" using ps len by (simp add: ids_in_def)
    then obtain r pool' subs' xss' where rec: "sq_dequeue_where P ps pool1 subs1 = Inr (r, pool', subs')" "shared pool' subs' xss'"
      "length subs' = length subs1" "\<forall>i. i \<notin> prod_id ` set ps \<longrightarrow> xss' ! i = xss ! i"
      "dequeue_where (\<lambda>p. P (prod_id p)) (map (fill_stream xss) ps) = map_option (\<lambda>x. (x, map (fill_stream xss') ps)) r"
      "r = None \<longrightarrow> xss' = xss" "list_all has_index subs1 \<longrightarrow> list_all has_index subs'"
      using Cons.IH [OF sh] by blast
    have "fill_stream xss' p = fill_stream xss p" using rec(4) p(2) by (simp add: fill_stream_def)
    then have "dequeue_where (\<lambda>p. P (prod_id p)) (map (fill_stream xss) (p # ps)) = map_option (\<lambda>x. (x, map (fill_stream xss') (p # ps))) r"
      using no rec(5) by (cases r) auto
    then show ?thesis using run rec len ix by auto
  qed
  show ?case
  proof (cases "P ?i")
    case False
    then show ?thesis using skip [OF _ Cons.prems(1)] by simp
  next
    case True
    obtain pool1 sub1 where one: "IP_dequeue pool (subs ! ?i) = Inr (pool1, sub1, case xss ! ?i of [] \<Rightarrow> None | x # _ \<Rightarrow> Some x)"
      "shared pool1 (subs[?i := sub1]) (xss[?i := tl (xss ! ?i)])" "has_index (subs ! ?i) \<longrightarrow> has_index sub1"
      using sub_dequeue [OF Cons.prems(1) p(1)] by blast
    have ix: "list_all has_index subs \<longrightarrow> list_all has_index (subs[?i := sub1])"
      using one(3) p(1) by (auto simp: list_all_length nth_list_update)
    show ?thesis
    proof (cases "xss ! ?i")
      case Nil
      have same: "xss[?i := tl (xss ! ?i)] = xss" using Nil by (metis list.sel(2) list_update_id)
      show ?thesis by (rule skip [of pool1 "subs[?i := sub1]"]) (use True one Nil same ix in \<open>simp_all\<close>)
    next
      case el: (Cons x xs)
      have "?i < length xss" using shared_length [OF Cons.prems(1)] p(1) by simp
      then have "fill_stream (xss[?i := xs]) p = (fill_stream xss p)\<lparr>stream := xs\<rparr>" by (simp add: fill_stream_def)
      moreover have "map (fill_stream (xss[?i := xs])) ps = map (fill_stream xss) ps" using p(2) by (rule fill_stream_others)
      ultimately show ?thesis using True one el ix by (auto simp: Let_def)
    qed
  qed
qed simp

lemma sq_bulk_spec:
  assumes "shared pool subs xss" "ids_in ps subs"
  shows "\<exists>xs pool' subs' xss'. sq_bulk mx ps pool subs = Inr (xs, pool', subs') \<and> shared pool' subs' xss' \<and>
    length subs' = length subs \<and> (\<forall>i. i \<notin> prod_id ` set ps \<longrightarrow> xss' ! i = xss ! i) \<and>
    bulk_producers (unat mx) (map (fill_stream xss) ps) = (xs, map (fill_stream xss') ps) \<and>
    (list_all has_index subs \<longrightarrow> list_all has_index subs')"
  using assms
proof (induction ps arbitrary: pool subs xss mx)
  case Nil
  then show ?case by (auto simp: ids_in_def)
next
  case (Cons p ps)
  let ?i = "prod_id p" and ?n = "min (unat mx) (length (xss ! prod_id p))"
  have p: "?i < length subs" "?i \<notin> prod_id ` set ps" and ps: "ids_in ps subs" using Cons.prems(2) by (auto simp: ids_in_def)
  obtain pool1 sub1 where one: "IP_dequeue_bulk pool (subs ! ?i) mx = Inr (pool1, sub1, take (unat mx) (xss ! ?i), of_nat ?n)"
    "shared pool1 (subs[?i := sub1]) (xss[?i := drop (unat mx) (xss ! ?i)])" "has_index (subs ! ?i) \<longrightarrow> has_index sub1"
    using sub_dequeue_bulk [OF Cons.prems(1) p(1)] by blast
  let ?subs = "subs[?i := sub1]" and ?xss = "xss[?i := drop (unat mx) (xss ! ?i)]"
  have ix: "list_all has_index subs \<longrightarrow> list_all has_index ?subs" using one(3) p(1) by (auto simp: list_all_length nth_list_update)
  have len: "?i < length xss" using shared_length [OF Cons.prems(1)] p(1) by simp
  have fill: "fill_stream ?xss p = (fill_stream xss p)\<lparr>stream := drop (unat mx) (xss ! ?i)\<rparr>" using len by (simp add: fill_stream_def)
  have rest: "map (fill_stream ?xss) ps = map (fill_stream xss) ps" using p(2) by (rule fill_stream_others)
  have "?n < 2 ^ 64" using unsigned_less [of mx, where ?'a = nat] by (simp add: min_def)
  then have n: "unat (of_nat ?n :: u64) = ?n" by (intro unat_of_nat_small) simp
  show ?case
  proof (cases "unat mx \<le> length (xss ! ?i)")
    case True
    then have "(of_nat ?n :: u64) = mx" by (simp add: min_def)
    then show ?thesis using one ix True fill rest by (auto simp: Let_def min_def)
  next
    case False
    then have m: "(of_nat ?n :: u64) \<noteq> mx" "unat (mx - of_nat ?n) = unat mx - length (xss ! ?i)"
      using n by (auto simp: word_unat_eq_iff unat_sub word_le_nat_alt)
    have "ids_in ps ?subs" using ps by (simp add: ids_in_def)
    then obtain ys pool' subs' xss' where rec: "sq_bulk (mx - of_nat ?n) ps pool1 ?subs = Inr (ys, pool', subs')" "shared pool' subs' xss'"
      "length subs' = length ?subs" "\<forall>i. i \<notin> prod_id ` set ps \<longrightarrow> xss' ! i = ?xss ! i"
      "bulk_producers (unat (mx - of_nat ?n)) (map (fill_stream ?xss) ps) = (ys, map (fill_stream xss') ps)"
      "list_all has_index ?subs \<longrightarrow> list_all has_index subs'"
      using Cons.IH [OF one(2)] by blast
    have "fill_stream xss' p = fill_stream ?xss p" using rec(4) p(2) by (simp add: fill_stream_def)
    then have "bulk_producers (unat mx) (map (fill_stream xss) (p # ps)) = (take (unat mx) (xss ! ?i) @ ys, map (fill_stream xss') (p # ps))"
      using False rec(5) [unfolded m(2) rest] fill by (simp add: Let_def)
    then show ?thesis using one(1) m(1) rec ix p(2) by (auto simp: Let_def)
  qed
qed

end
