(* ===== verification/CQ_Refinement.thy ===== *)
theory CQ_Refinement
  imports CQ_Shared
begin

text \<open>
  The queue of \<^verbatim>\<open>CQ_Shared\<close> (hash tables, block indices, blocks, free list) refines the queue of \<^verbatim>\<open>CQ_Dispatch\<close> (streams): the relation between
  the two, one lemma per operation, and the theorems on whole sessions, which follow from a locale on implementations.
\<close>

section \<open>The directory of producers\<close>

definition fill :: "'a list list \<Rightarrow> 'a ConcurrentQueue \<Rightarrow> 'a ConcurrentQueue" where
  "fill xss dir = dir\<lparr>producers := map (fill_stream xss) (producers dir)\<rparr>"

lemma find_fill: "find P (map (fill_stream xss) ps) = map_option (fill_stream xss) (find (\<lambda>p. P (fill_stream xss p)) ps)"
  by (induction ps) simp_all

lemma cq_inv_ids_in:
  assumes "cq_inv dir" "length (producers dir) = length subs"
  shows "ids_in (producers dir) subs"
proof -
  have "map prod_id (producers dir) = rev [0..<length (producers dir)]" using assms(1) by (simp add: cq_inv_def)
  then have "set (map prod_id (producers dir)) = {..<length subs}" using assms(2) by (simp add: atLeast0LessThan)
  then show ?thesis using cq_inv_ids [OF assms(1)] by (auto simp: ids_in_def)
qed

lemma get_or_add_fill:
  assumes inv: "cq_inv dir" "length xss = length (producers dir)" "\<forall>p \<in> set (producers dir). \<not> inactive p"
    and get: "get_or_add_implicit_producer dir tid = (dir', i)"
  obtains "dir' = dir" "i < length xss" "get_or_add_implicit_producer (fill xss dir) tid = (fill xss dir, i)"
  | p where "producers dir' = p # producers dir" "i = length xss" "prod_id p = i" "\<not> isExplicit p" "\<not> inactive p"
    "get_or_add_implicit_producer (fill xss dir) tid = (fill (xss @ [[]]) dir', i)"
proof (cases "find (\<lambda>p. prod_thread p = Some tid) (producers dir)")
  case (Some p)
  then have p: "p \<in> set (producers dir)" by (auto simp: find_Some_iff)
  have "get_or_add_implicit_producer (fill xss dir) tid = (fill xss dir, i)" "dir' = dir" "i = prod_id p"
    using get Some by (simp_all add: get_or_add_implicit_producer_def fill_def find_fill)
  moreover have "prod_id p < length xss" using cq_inv_ids_in [OF inv(1), of xss] inv(2) p by (simp add: ids_in_def)
  ultimately show ?thesis using that(1) by simp
next
  case None
  have none: "find (\<lambda>p. inactive p \<and> isExplicit p = False) (producers dir) = None" using inv(3) by (auto simp: find_None_iff)
  let ?p = "\<lparr>prod_id = length xss, prod_thread = Some tid, isExplicit = False, inactive = False, stream = []\<rparr>"
  have dir': "dir' = dir\<lparr>producers := ?p # producers dir\<rparr>" "i = length xss"
    using get None none inv(2) by (auto simp: get_or_add_implicit_producer_def recycle_or_create_producer_def add_producer_def Let_def)
  have "fill_stream (xss @ [[]]) p = fill_stream xss p" if "p \<in> set (producers dir)" for p
    using cq_inv_ids_in [OF inv(1), of xss] inv(2) that by (simp add: ids_in_def fill_stream_def nth_append)
  then have same: "map (fill_stream (xss @ [[]])) (producers dir) = map (fill_stream xss) (producers dir)" by simp
  have "fill_stream (xss @ [[]]) ?p = ?p" by (simp add: fill_stream_def)
  then have "get_or_add_implicit_producer (fill xss dir) tid = (fill (xss @ [[]]) dir', i)"
    using None none inv(2) same dir'
    by (simp add: get_or_add_implicit_producer_def recycle_or_create_producer_def add_producer_def Let_def fill_def find_fill)
  then show ?thesis using that(2) [of ?p] dir' by simp
qed

lemma update_fill:
  assumes "ids_in ps xss"
  shows "update_producer i (\<lambda>p. p\<lparr>stream := stream p @ [x]\<rparr>) (map (fill_stream xss) ps) =
    map (fill_stream (xss[i := xss ! i @ [x]])) ps"
  using assms by (auto simp: update_producer_def fill_stream_def ids_in_def)

section \<open>The queue refines the streams\<close>

text \<open>
  The contract of an implementation: a step returns, what it returns and does is what the specification allows, and the relation
  to the abstract state holds for one step less. The number bounds how many steps are still to come.
\<close>

fun spec_run :: "('op \<Rightarrow> 'q \<Rightarrow> 'r \<Rightarrow> 'q \<Rightarrow> bool) \<Rightarrow> 'op list \<Rightarrow> 'q \<Rightarrow> 'r list \<Rightarrow> 'q \<Rightarrow> bool" where
  "spec_run spec [] q rs q' \<longleftrightarrow> rs = [] \<and> q' = q"
| "spec_run spec (op # ops) q rs q' \<longleftrightarrow> (\<exists>r rs' q1. rs = r # rs' \<and> spec op q r q1 \<and> spec_run spec ops q1 rs' q')"

locale implementation =
  fixes rel :: "nat \<Rightarrow> 's \<Rightarrow> 'q \<Rightarrow> bool"
    and handle :: "'s \<Rightarrow> 'op \<Rightarrow> fault + 's \<times> 'r"
    and spec :: "'op \<Rightarrow> 'q \<Rightarrow> 'r \<Rightarrow> 'q \<Rightarrow> bool"
    and valid :: "'op \<Rightarrow> bool"
  assumes step: "rel (Suc n) s q \<Longrightarrow> valid op \<Longrightarrow> \<exists>s' r q'. handle s op = Inr (s', r) \<and> spec op q r q' \<and> rel n s' q'"
begin

lemma run_refines:
  "rel (length ops + n) s q \<Longrightarrow> list_all valid ops \<Longrightarrow>
   \<exists>s' rs q'. run_requests handle s ops = Inr (s', rs) \<and> spec_run spec ops q rs q' \<and> rel n s' q'"
proof (induction ops arbitrary: s q)
  case (Cons op ops)
  have "rel (Suc (length ops + n)) s q" "valid op" using Cons.prems by simp_all
  from step [OF this] obtain s1 r q1 where one: "handle s op = Inr (s1, r)" "spec op q r q1" "rel (length ops + n) s1 q1" by blast
  obtain s' rs q' where "run_requests handle s1 ops = Inr (s', rs)" "spec_run spec ops q1 rs q'" "rel n s' q'"
    using Cons.IH [OF one(3)] Cons.prems(2) by auto
  then show ?case using one(1,2) by auto
qed simp

end

datatype 'a sq_op =
    SQ_enqueue AllocationMode enqueue_env u64 'a
  | SQ_try_dequeue
  | SQ_try_dequeue_non_interleaved
  | SQ_try_dequeue_bulk u64

datatype 'a sq_result = SR_Enqueue enqueue_result | SR_Item "'a option" | SR_Items "'a list"

fun sq_handle :: "alloc_env \<Rightarrow> 'a SharedQueue \<Rightarrow> 'a sq_op \<Rightarrow> fault + 'a SharedQueue \<times> 'a sq_result" where
  "sq_handle env s (SQ_enqueue mode e tid x) = and_then (sq_enqueue env mode e tid x s) (\<lambda>(s, r). Inr (s, SR_Enqueue r))"
| "sq_handle env s SQ_try_dequeue = and_then (sq_try_dequeue s) (\<lambda>(s, r). Inr (s, SR_Item r))"
| "sq_handle env s SQ_try_dequeue_non_interleaved = and_then (sq_try_dequeue_non_interleaved s) (\<lambda>(s, r). Inr (s, SR_Item r))"
| "sq_handle env s (SQ_try_dequeue_bulk mx) = and_then (sq_try_dequeue_bulk mx s) (\<lambda>(s, r). Inr (s, SR_Items r))"

text \<open>
  What the streams allow. An enqueue succeeds, or it fails for want of memory or because the element cannot be copied; then
  at most an empty producer for the thread is new.
\<close>

definition dequeued :: "('a \<times> 'q) option \<Rightarrow> 'q \<Rightarrow> 'a option \<Rightarrow> 'q \<Rightarrow> bool" where
  "dequeued d q r q' \<longleftrightarrow> (case d of None \<Rightarrow> r = None \<and> q' = q | Some (x, q1) \<Rightarrow> r = Some x \<and> q' = q1)"

fun sq_spec :: "alloc_env \<Rightarrow> 'a sq_op \<Rightarrow> 'a ConcurrentQueue \<Rightarrow> 'a sq_result \<Rightarrow> 'a ConcurrentQueue \<Rightarrow> bool" where
  "sq_spec env (SQ_enqueue mode e tid x) q r q' \<longleftrightarrow>
     r = SR_Enqueue Enqueued \<and> q' = enqueue q (unat tid) x \<or>
     (r = SR_Enqueue Not_Enqueued \<or> r = SR_Enqueue Constructor_Threw) \<and>
       \<not> (mode = CanAlloc \<and> allocated e \<and> created e \<and> ctor_ok e \<and> (\<forall>n. malloc_ok env n)) \<and>
       (q' = q \<or> q' = fst (get_or_add_implicit_producer q (unat tid)))"
| "sq_spec env SQ_try_dequeue q r q' \<longleftrightarrow> (\<exists>x. r = SR_Item x \<and> dequeued (try_dequeue q) q x q')"
| "sq_spec env SQ_try_dequeue_non_interleaved q r q' \<longleftrightarrow> (\<exists>x. r = SR_Item x \<and> dequeued (try_dequeue_non_interleaved q) q x q')"
| "sq_spec env (SQ_try_dequeue_bulk mx) q r q' \<longleftrightarrow> (\<exists>xs. r = SR_Items xs \<and> try_dequeue_bulk q (unat mx) = (xs, q'))"

fun sq_valid :: "'a sq_op \<Rightarrow> bool" where
  "sq_valid (SQ_enqueue mode e tid x) \<longleftrightarrow> tid \<noteq> invalid_thread_id"
| "sq_valid _ \<longleftrightarrow> True"

definition dir_ok :: "ProducerHashes \<Rightarrow> 'a ConcurrentQueue \<Rightarrow> bool" where
  "dir_ok hs dir \<longleftrightarrow> cq_inv dir \<and> hash_inv hs dir \<and> (\<forall>p \<in> set (producers dir). \<not> isExplicit p \<and> \<not> inactive p)"

definition sq_rel :: "alloc_env \<Rightarrow> nat \<Rightarrow> 'a SharedQueue \<Rightarrow> 'a ConcurrentQueue \<Rightarrow> bool" where
  "sq_rel env n s q \<longleftrightarrow>
     (\<exists>xss. shared (sq_pool s) (sq_subs s) xss \<and> q = fill xss (sq_dir s)) \<and>
     length (producers (sq_dir s)) = length (sq_subs s) \<and> dir_ok (sq_hashes s) (sq_dir s) \<and>
     unat (implicitProducerHashCount (sq_hashes s)) + n < 2 ^ 60 \<and> size (cq_elems q) + n < 2 ^ 60 \<and>
     ((\<forall>n. malloc_ok env n) \<longrightarrow> list_all has_index (sq_subs s))"

lemma sq_relE:
  assumes "sq_rel env n s q"
  obtains xss where "shared (sq_pool s) (sq_subs s) xss" "q = fill xss (sq_dir s)" "ids_in (producers (sq_dir s)) (sq_subs s)"
    "length xss = length (producers (sq_dir s))"
proof -
  obtain xss where xss: "shared (sq_pool s) (sq_subs s) xss" "q = fill xss (sq_dir s)" using assms by (auto simp: sq_rel_def)
  moreover have "length (producers (sq_dir s)) = length (sq_subs s)" "cq_inv (sq_dir s)" using assms by (simp_all add: sq_rel_def dir_ok_def)
  ultimately show ?thesis using that [of xss] cq_inv_ids_in [of "sq_dir s" "sq_subs s"] shared_length [of "sq_pool s" "sq_subs s" xss] by simp
qed

text \<open>After an operation that takes elements, the rest of the relation holds as before.\<close>

lemma sq_rel_taken:
  assumes "sq_rel env (Suc n) s q" "shared pool subs xss" "length subs = length (sq_subs s)" "list_all has_index (sq_subs s) \<longrightarrow> list_all has_index subs"
    "size (cq_elems (fill xss (sq_dir s))) \<le> size (cq_elems q)"
  shows "sq_rel env n (s\<lparr>sq_pool := pool, sq_subs := subs\<rparr>) (fill xss (sq_dir s))"
  using assms by (auto simp: sq_rel_def)

lemma sq_rel_Suc: "sq_rel env (Suc n) s q \<Longrightarrow> sq_rel env n s q"
  by (auto simp: sq_rel_def)

lemma cq_inv_fill: "cq_inv (fill xss dir) \<longleftrightarrow> cq_inv dir"
  by (rule cq_inv_cong) (simp add: fill_def ownership_def)

lemma dequeue_where_elems:
  assumes "dequeue_where P ps = Some (x, ps')"
  shows "streams_elems ps = add_mset x (streams_elems ps')"
  using dequeue_where_Some [OF assms] by auto

lemma dequeue_loop:
  assumes rel: "sq_rel env (Suc n) s (fill xss (sq_dir s))" and sh: "shared pool subs xss" "ids_in (producers (sq_dir s)) subs"
    and subs: "length subs = length (sq_subs s)" "list_all has_index (sq_subs s) \<longrightarrow> list_all has_index subs"
  shows "\<exists>r pool' subs' xss'. sq_dequeue_where P (producers (sq_dir s)) pool subs = Inr (r, pool', subs') \<and>
    dequeue_where (\<lambda>p. P (prod_id p)) (producers (fill xss (sq_dir s))) = map_option (\<lambda>x. (x, producers (fill xss' (sq_dir s)))) r \<and>
    sq_rel env n (s\<lparr>sq_pool := pool', sq_subs := subs'\<rparr>) (fill xss' (sq_dir s)) \<and> (r = None \<longrightarrow> xss' = xss) \<and>
    shared pool' subs' xss' \<and> length subs' = length (sq_subs s) \<and> (list_all has_index (sq_subs s) \<longrightarrow> list_all has_index subs')"
proof -
  obtain r pool' subs' xss' where run: "sq_dequeue_where P (producers (sq_dir s)) pool subs = Inr (r, pool', subs')" "shared pool' subs' xss'"
    "length subs' = length subs"
    "dequeue_where (\<lambda>p. P (prod_id p)) (map (fill_stream xss) (producers (sq_dir s))) = map_option (\<lambda>x. (x, map (fill_stream xss') (producers (sq_dir s)))) r"
    "r = None \<longrightarrow> xss' = xss" "list_all has_index subs \<longrightarrow> list_all has_index subs'"
    using sq_dequeue_where_spec [OF sh, of P] by blast
  have "size (cq_elems (fill xss' (sq_dir s))) \<le> size (cq_elems (fill xss (sq_dir s)))"
    using run(4,5) dequeue_where_elems by (cases r) (fastforce simp: cq_elems_def fill_def)+
  then have "sq_rel env n (s\<lparr>sq_pool := pool', sq_subs := subs'\<rparr>) (fill xss' (sq_dir s))"
    using run subs by (intro sq_rel_taken [OF rel]) auto
  then show ?thesis using run subs by (auto simp: fill_def)
qed

lemma fill_producers: "(fill xss dir)\<lparr>producers := producers (fill xss' dir)\<rparr> = fill xss' dir"
  by (simp add: fill_def)

lemma sq_try_dequeue_step:
  assumes rel: "sq_rel env (Suc n) s q"
  shows "\<exists>s' r q'. sq_try_dequeue s = Inr (s', r) \<and> dequeued (try_dequeue q) q r q' \<and> sq_rel env n s' q'"
proof -
  obtain xss where xss: "shared (sq_pool s) (sq_subs s) xss" "q = fill xss (sq_dir s)" "ids_in (producers (sq_dir s)) (sq_subs s)"
    by (rule sq_relE [OF rel])
  obtain m best where score: "score_producers (producers q) 0 None 0 = (m, best)" by fastforce
  then have sq: "sq_score (sq_subs s) (producers (sq_dir s)) 0 None 0 = (m, best)"
    using sq_score_spec [OF xss(1,3), of 0 None 0] xss(2) by (simp add: fill_def)
  show ?thesis
  proof (cases "m = 0")
    case True
    then have "sq_try_dequeue s = Inr (s, None)" "try_dequeue q = None" using sq score by (simp_all add: sq_try_dequeue_def try_dequeue_def)
    then show ?thesis using sq_rel_Suc [OF rel] by (auto simp: dequeued_def)
  next
    case False
    obtain r pool subs xss1 where one: "sq_dequeue_where (\<lambda>i. Some i = best) (producers (sq_dir s)) (sq_pool s) (sq_subs s) = Inr (r, pool, subs)"
      "dequeue_where (\<lambda>p. Some (prod_id p) = best) (producers q) = map_option (\<lambda>x. (x, producers (fill xss1 (sq_dir s)))) r"
      "sq_rel env n (s\<lparr>sq_pool := pool, sq_subs := subs\<rparr>) (fill xss1 (sq_dir s))" "r = None \<longrightarrow> xss1 = xss"
      "shared pool subs xss1" "length subs = length (sq_subs s)" "list_all has_index (sq_subs s) \<longrightarrow> list_all has_index subs"
      using dequeue_loop [OF rel [unfolded xss(2)] xss(1,3), of "\<lambda>i. Some i = best"] xss(2) by blast
    show ?thesis
    proof (cases r)
      case (Some x)
      then have "try_dequeue q = Some (x, fill xss1 (sq_dir s))" "sq_try_dequeue s = Inr (s\<lparr>sq_pool := pool, sq_subs := subs\<rparr>, Some x)"
        using one(1,2) score sq False fill_producers [of xss "sq_dir s" xss1] xss(2) by (simp_all add: try_dequeue_def sq_try_dequeue_def Let_def)
      then show ?thesis using one(3) by (auto simp: dequeued_def)
    next
      case None
      have ids: "ids_in (producers (sq_dir s)) subs" using xss(3) one(6) by (simp add: ids_in_def)
      have "shared pool subs xss" using one(4,5) None by simp
      from dequeue_loop [OF rel [unfolded xss(2)] this ids one(6,7), of "\<lambda>i. Some i \<noteq> best"]
      obtain r2 pool2 subs2 xss2 where two: "sq_dequeue_where (\<lambda>i. Some i \<noteq> best) (producers (sq_dir s)) pool subs = Inr (r2, pool2, subs2)"
        "dequeue_where (\<lambda>p. Some (prod_id p) \<noteq> best) (producers q) = map_option (\<lambda>x. (x, producers (fill xss2 (sq_dir s)))) r2"
        "sq_rel env n (s\<lparr>sq_pool := pool2, sq_subs := subs2\<rparr>) (fill xss2 (sq_dir s))" "r2 = None \<longrightarrow> xss2 = xss"
        unfolding xss(2) by blast
      have "sq_try_dequeue s = Inr (s\<lparr>sq_pool := pool2, sq_subs := subs2\<rparr>, r2)"
        using one(1) two(1) sq False None by (simp add: sq_try_dequeue_def Let_def)
      moreover have "dequeued (try_dequeue q) q r2 (fill xss2 (sq_dir s))"
        using one(2) two(2,4) None score False xss(2) fill_producers [of xss "sq_dir s" xss2]
        by (cases r2) (simp_all add: try_dequeue_def dequeued_def)
      ultimately show ?thesis using two(3) by blast
    qed
  qed
qed

lemma sq_try_dequeue_non_interleaved_step:
  assumes rel: "sq_rel env (Suc n) s q"
  shows "\<exists>s' r q'. sq_try_dequeue_non_interleaved s = Inr (s', r) \<and> dequeued (try_dequeue_non_interleaved q) q r q' \<and> sq_rel env n s' q'"
proof -
  obtain xss where xss: "shared (sq_pool s) (sq_subs s) xss" "q = fill xss (sq_dir s)" "ids_in (producers (sq_dir s)) (sq_subs s)"
    by (rule sq_relE [OF rel])
  from dequeue_loop [OF rel [unfolded xss(2)] xss(1,3), of "\<lambda>_. True"]
  obtain r pool subs xss1 where one: "sq_dequeue_where (\<lambda>_. True) (producers (sq_dir s)) (sq_pool s) (sq_subs s) = Inr (r, pool, subs)"
    "dequeue_where (\<lambda>_. True) (producers q) = map_option (\<lambda>x. (x, producers (fill xss1 (sq_dir s)))) r"
    "sq_rel env n (s\<lparr>sq_pool := pool, sq_subs := subs\<rparr>) (fill xss1 (sq_dir s))" "r = None \<longrightarrow> xss1 = xss"
    unfolding xss(2) by blast
  then have "dequeued (try_dequeue_non_interleaved q) q r (fill xss1 (sq_dir s))"
    using xss(2) fill_producers [of xss "sq_dir s" xss1] by (cases r) (simp_all add: try_dequeue_non_interleaved_def dequeued_def)
  then show ?thesis using one(1,3) by (auto simp: sq_try_dequeue_non_interleaved_def)
qed

lemma sq_try_dequeue_bulk_step:
  assumes rel: "sq_rel env (Suc n) s q"
  shows "\<exists>s' xs q'. sq_try_dequeue_bulk mx s = Inr (s', xs) \<and> try_dequeue_bulk q (unat mx) = (xs, q') \<and> sq_rel env n s' q'"
proof -
  obtain xss where xss: "shared (sq_pool s) (sq_subs s) xss" "q = fill xss (sq_dir s)" "ids_in (producers (sq_dir s)) (sq_subs s)"
    by (rule sq_relE [OF rel])
  obtain xs pool subs xss1 where run: "sq_bulk mx (producers (sq_dir s)) (sq_pool s) (sq_subs s) = Inr (xs, pool, subs)" "shared pool subs xss1"
    "length subs = length (sq_subs s)" "bulk_producers (unat mx) (map (fill_stream xss) (producers (sq_dir s))) = (xs, map (fill_stream xss1) (producers (sq_dir s)))"
    "list_all has_index (sq_subs s) \<longrightarrow> list_all has_index subs"
    using sq_bulk_spec [OF xss(1,3), of mx] by blast
  have abs: "try_dequeue_bulk q (unat mx) = (xs, fill xss1 (sq_dir s))" using run(4) xss(2) by (simp add: try_dequeue_bulk_def fill_def)
  moreover have "cq_inv q" using rel xss(2) cq_inv_fill by (auto simp: sq_rel_def dir_ok_def)
  ultimately have "size (cq_elems (fill xss1 (sq_dir s))) \<le> size (cq_elems q)" using bulk_parts(2) by fastforce
  then have "sq_rel env n (s\<lparr>sq_pool := pool, sq_subs := subs\<rparr>) (fill xss1 (sq_dir s))"
    using run by (intro sq_rel_taken [OF rel]) auto
  then show ?thesis using run(1) abs by (auto simp: sq_try_dequeue_bulk_def)
qed

text \<open>An enqueue once the producer of the thread is there.\<close>

lemma stream_le: "p \<in> set ps \<Longrightarrow> length (stream p) \<le> size (streams_elems ps)"
  by (induction ps) auto

lemma enqueue_at:
  assumes q: "cq_inv q" "get_or_add_implicit_producer q (unat tid) = (fill xss (sq_dir s), i)" "size (cq_elems q) + Suc n < 2 ^ 60"
    and s: "shared (sq_pool s) (sq_subs s) xss" "i < length (sq_subs s)" "length (producers (sq_dir s)) = length (sq_subs s)"
      "dir_ok (sq_hashes s) (sq_dir s)" "unat (implicitProducerHashCount (sq_hashes s)) + n < 2 ^ 60"
      "(\<forall>n. malloc_ok env n) \<longrightarrow> list_all has_index (sq_subs s)"
    and r: "IP_enqueue env mode (ctor_ok e) x (sq_pool s) (sq_subs s ! i) = Inr (pool', sub', r)"
  shows "\<exists>q'. sq_spec env (SQ_enqueue mode e tid x) q (SR_Enqueue r) q' \<and>
    sq_rel env n (s\<lparr>sq_pool := pool', sq_subs := (sq_subs s)[i := sub']\<rparr>) q'"
proof -
  let ?xss = "xss[i := if r = Enqueued then xss ! i @ [x] else xss ! i]"
  have sh: "shared pool' ((sq_subs s)[i := sub']) ?xss" "has_index (sq_subs s ! i) \<longrightarrow> has_index sub'"
    "has_index (sq_subs s ! i) \<and> mode = CanAlloc \<and> ctor_ok e \<and> (\<forall>n. malloc_ok env n) \<and> length (xss ! i) < 2 ^ 60 \<longrightarrow> r = Enqueued"
    using sub_enqueue [OF s(1,2), of env mode "ctor_ok e" x] r by auto
  have ids: "ids_in (producers (sq_dir s)) xss"
    using cq_inv_ids_in [of "sq_dir s" xss] s(3,4) shared_length [OF s(1)] by (simp add: dir_ok_def)
  note get = get_or_add_correct [OF q(1,2)]
  obtain p where "p \<in> set (producers (fill xss (sq_dir s)))" "prod_id p = i" using get by auto
  then have "length (xss ! i) \<le> size (cq_elems q)"
    using stream_le [of p "producers (fill xss (sq_dir s))"] get by (auto simp: fill_def cq_elems_def)
  moreover have "(\<forall>n. malloc_ok env n) \<longrightarrow> has_index (sq_subs s ! i)" using s(2,6) by (auto simp: list_all_length)
  ultimately have fails: "r \<noteq> Enqueued \<Longrightarrow> \<not> (mode = CanAlloc \<and> allocated e \<and> created e \<and> ctor_ok e \<and> (\<forall>n. malloc_ok env n))"
    using sh(3) q(3) by auto
  have index: "(\<forall>n. malloc_ok env n) \<longrightarrow> list_all has_index ((sq_subs s)[i := sub'])"
    using s(2,6) sh(2) by (auto simp: list_all_length nth_list_update)
  have rel: "sq_rel env n (s\<lparr>sq_pool := pool', sq_subs := (sq_subs s)[i := sub']\<rparr>) (fill ?xss (sq_dir s))"
    if "size (cq_elems (fill ?xss (sq_dir s))) \<le> Suc (size (cq_elems q))"
    unfolding sq_rel_def using sh(1) s index that q(3) by (auto simp: dir_ok_def)
  show ?thesis
  proof (cases "r = Enqueued")
    case True
    have "enqueue q (unat tid) x = fill ?xss (sq_dir s)"
      using True q(2) update_fill [OF ids, of i x] by (simp add: enqueue_def fill_def)
    then show ?thesis using rel enqueue_correct(2) [OF q(1), of "unat tid" x] True by (intro exI [of _ "fill ?xss (sq_dir s)"]) simp
  next
    case False
    then have "fill ?xss (sq_dir s) = fst (get_or_add_implicit_producer q (unat tid))" using q(2) by simp
    then show ?thesis using rel fails False get q(2) by (intro exI [of _ "fill ?xss (sq_dir s)"]) (cases r; simp)
  qed
qed

lemma sq_enqueue_step:
  assumes rel: "sq_rel env (Suc n) s q" and tid: "tid \<noteq> invalid_thread_id"
  shows "\<exists>s' r q'. sq_enqueue env mode e tid x s = Inr (s', r) \<and> sq_spec env (SQ_enqueue mode e tid x) q (SR_Enqueue r) q' \<and> sq_rel env n s' q'"
proof -
  obtain xss where xss: "shared (sq_pool s) (sq_subs s) xss" "q = fill xss (sq_dir s)" "ids_in (producers (sq_dir s)) (sq_subs s)"
    "length xss = length (producers (sq_dir s))" by (rule sq_relE [OF rel])
  have dir: "cq_inv (sq_dir s)" "hash_inv (sq_hashes s) (sq_dir s)" "\<forall>p \<in> set (producers (sq_dir s)). \<not> isExplicit p \<and> \<not> inactive p"
    "length (producers (sq_dir s)) = length (sq_subs s)" and n: "unat (implicitProducerHashCount (sq_hashes s)) + Suc n < 2 ^ 60"
    "size (cq_elems q) + Suc n < 2 ^ 60" and ix: "(\<forall>n. malloc_ok env n) \<longrightarrow> list_all has_index (sq_subs s)"
    using rel by (simp_all add: sq_rel_def dir_ok_def)
  have inv: "cq_inv q" using dir(1) xss(2) by (simp add: cq_inv_fill)
  have "tid \<noteq> 0" "unat (implicitProducerHashCount (sq_hashes s)) < 2 ^ 60" using tid n by (simp_all add: invalid_thread_id_def)
  from hash_get_or_add_correct [OF dir(2) this, of "allocated e" "created e"]
  consider (found) hs dir' i where "hash_get_or_add (allocated e) (created e) tid (sq_hashes s) (sq_dir s) = Some (Some i, hs, dir')"
      "get_or_add_implicit_producer (sq_dir s) (unat tid) = (dir', i)" "hash_inv hs dir'"
      "unat (implicitProducerHashCount hs) \<le> Suc (unat (implicitProducerHashCount (sq_hashes s)))"
    | (failed) hs where "\<not> (allocated e \<and> created e)"
      "hash_get_or_add (allocated e) (created e) tid (sq_hashes s) (sq_dir s) = Some (None, hs, sq_dir s)"
      "hash_inv hs (sq_dir s)" "implicitProducerHashCount hs = implicitProducerHashCount (sq_hashes s)" by blast
  then show ?thesis
  proof cases
    case failed
    have "sq_rel env n (s\<lparr>sq_hashes := hs\<rparr>) q" using rel failed(3,4) by (auto simp: sq_rel_def dir_ok_def)
    then show ?thesis using failed(1,2) by (auto simp: sq_enqueue_def)
  next
    case found
    let ?s = "s\<lparr>sq_hashes := hs, sq_dir := dir'\<rparr>"
    have cq': "cq_inv dir'" using get_or_add_correct [OF dir(1) found(2)] by blast
    have "\<exists>s1 xss1. construct_producer env i ?s = Inr s1 \<and> sq_hashes s1 = hs \<and> sq_dir s1 = dir' \<and> shared (sq_pool s1) (sq_subs s1) xss1 \<and>
        i < length (sq_subs s1) \<and> length (producers dir') = length (sq_subs s1) \<and> dir_ok hs dir' \<and>
        get_or_add_implicit_producer q (unat tid) = (fill xss1 dir', i) \<and> ((\<forall>n. malloc_ok env n) \<longrightarrow> list_all has_index (sq_subs s1))"
    proof (rule get_or_add_fill [OF dir(1) xss(4) _ found(2)])
      show "\<forall>p \<in> set (producers (sq_dir s)). \<not> inactive p" using dir(3) by blast
    next
      assume "dir' = sq_dir s" "i < length xss" "get_or_add_implicit_producer (fill xss (sq_dir s)) (unat tid) = (fill xss (sq_dir s), i)"
      then show ?thesis using xss dir ix found(3) cq' by (auto simp: construct_producer_def dir_ok_def)
    next
      fix p
      assume new: "producers dir' = p # producers (sq_dir s)" "i = length xss" "prod_id p = i" "\<not> isExplicit p" "\<not> inactive p"
        "get_or_add_implicit_producer (fill xss (sq_dir s)) (unat tid) = (fill (xss @ [[]]) dir', i)"
      obtain sub where sub: "ImplicitProducer_init env (sq_pool s) = Inr ((sq_pool s)\<lparr>mallocs := mallocs (sq_pool s) + 1\<rparr>, sub)"
        "shared ((sq_pool s)\<lparr>mallocs := mallocs (sq_pool s) + 1\<rparr>) (sq_subs s @ [sub]) (xss @ [[]])"
        using shared_new [OF xss(1)] by blast
      then show ?thesis using new xss(2,4) dir ix found(3) cq' new_keeps_index [OF sub(1)] by (auto simp: construct_producer_def dir_ok_def)
    qed
    then obtain s1 xss1 where s1: "construct_producer env i ?s = Inr s1" "sq_hashes s1 = hs" "sq_dir s1 = dir'"
      "shared (sq_pool s1) (sq_subs s1) xss1" "i < length (sq_subs s1)" "length (producers dir') = length (sq_subs s1)" "dir_ok hs dir'"
      "get_or_add_implicit_producer q (unat tid) = (fill xss1 dir', i)" "(\<forall>n. malloc_ok env n) \<longrightarrow> list_all has_index (sq_subs s1)" by blast
    obtain pool' sub' r where r: "IP_enqueue env mode (ctor_ok e) x (sq_pool s1) (sq_subs s1 ! i) = Inr (pool', sub', r)"
      using sub_enqueue [OF s1(4,5), of env mode "ctor_ok e" x] by blast
    have "\<exists>q'. sq_spec env (SQ_enqueue mode e tid x) q (SR_Enqueue r) q' \<and> sq_rel env n (s1\<lparr>sq_pool := pool', sq_subs := (sq_subs s1)[i := sub']\<rparr>) q'"
      by (rule enqueue_at [OF inv _ n(2) s1(4,5) _ _ _ s1(9) r]) (use s1 found(4) n in simp_all)
    moreover have "sq_enqueue env mode e tid x s = Inr (s1\<lparr>sq_pool := pool', sq_subs := (sq_subs s1)[i := sub']\<rparr>, r)"
      using found(1) s1(1) r by (simp add: sq_enqueue_def Let_def)
    ultimately show ?thesis by blast
  qed
qed

interpretation sq: implementation "sq_rel env" "sq_handle env" "sq_spec env" sq_valid
  for env
proof unfold_locales
  fix n and s :: "'a SharedQueue" and q and op :: "'a sq_op"
  assume rel: "sq_rel env (Suc n) s q" and valid: "sq_valid op"
  show "\<exists>s' r q'. sq_handle env s op = Inr (s', r) \<and> sq_spec env op q r q' \<and> sq_rel env n s' q'"
  proof (cases op)
    case (SQ_enqueue mode e tid x)
    then have "tid \<noteq> invalid_thread_id" using valid by simp
    from sq_enqueue_step [OF rel this, of mode e x] show ?thesis using SQ_enqueue by (auto simp del: sq_spec.simps)
  next
    case SQ_try_dequeue
    then show ?thesis using sq_try_dequeue_step [OF rel] by auto
  next
    case SQ_try_dequeue_non_interleaved
    then show ?thesis using sq_try_dequeue_non_interleaved_step [OF rel] by auto
  next
    case (SQ_try_dequeue_bulk mx)
    then show ?thesis using sq_try_dequeue_bulk_step [OF rel, of mx] by auto
  qed
qed

section \<open>The size and the destructor\<close>

lemma sq_size:
  assumes "sq_rel env n s q"
  shows "sq_size_approx s = of_nat (size_approx q)"
proof -
  obtain xss where xss: "shared (sq_pool s) (sq_subs s) xss" "q = fill xss (sq_dir s)" "ids_in (producers (sq_dir s)) (sq_subs s)"
    by (rule sq_relE [OF assms])
  have sum: "sum_list (map (\<lambda>p. IP_size_approx (sq_subs s ! prod_id p)) ps) = of_nat (sum_list (map (\<lambda>p. length (xss ! prod_id p)) ps))"
    if "\<forall>p \<in> set ps. prod_id p < length (sq_subs s)" for ps :: "'a cq_producer list"
    using that
  proof (induction ps)
    case (Cons p ps)
    have "length (xss ! prod_id p) = unat (IP_size_approx (sq_subs s ! prod_id p))"
      using Cons.prems by (intro sub_size [OF xss(1), symmetric]) simp
    then have "IP_size_approx (sq_subs s ! prod_id p) = of_nat (length (xss ! prod_id p))" by simp
    then show ?case using Cons by simp
  qed simp
  have "size_approx q = sum_list (map (\<lambda>p. length (xss ! prod_id p)) (producers (sq_dir s)))"
    by (simp add: size_approx_def xss(2) fill_def o_def)
  then show ?thesis using sum xss(3) by (simp add: sq_size_approx_def ids_in_def)
qed

lemma shared_rev:
  assumes "shared pool subs xss"
  shows "shared pool (rev subs) (rev xss)"
proof -
  obtain bss fl where bss: "length bss = length subs" "length xss = length subs" "distinct (concat bss)" "pool_inv pool fl (set (concat bss))"
    "\<And>j. j < length subs \<Longrightarrow> \<exists>h t. ip_ok pool (subs ! j) (set (concat bss) - set (bss ! j)) h t (bss ! j) (xss ! j)"
    using assms by (auto simp: shared_def)
  have "mset (concat (rev bss)) = mset (concat bss)" by (simp add: mset_concat flip: rev_map)
  then have "distinct (concat (rev bss))" using bss(3) mset_eq_imp_distinct_iff by blast
  moreover have "set (concat (rev bss)) = set (concat bss)" by simp
  ultimately show ?thesis
    unfolding shared_def using bss by (intro exI [of _ "rev bss"]) (auto simp: rev_nth)
qed

fun destroy_all :: "ImplicitProducer list \<Rightarrow> 'a BlockPool \<Rightarrow> fault + 'a BlockPool" where
  "destroy_all [] pool = Inr pool"
| "destroy_all (sub # subs) pool = and_then (ImplicitProducer_destroy pool sub) (destroy_all subs)"

lemma destroy_producers_all: "destroy_producers ps subs pool = destroy_all (map (\<lambda>p. subs ! prod_id p) ps) pool"
  by (induction ps arbitrary: pool) (simp_all cong: sum.case_cong add: and_then_def split: sum.splits)

lemma destroy_all_spec:
  "shared pool subs xss \<Longrightarrow> \<exists>pool' fl. destroy_all subs pool = Inr pool' \<and> pool_inv pool' fl {}"
proof (induction subs arbitrary: pool xss)
  case Nil
  then show ?case by (auto simp: shared_def)
next
  case (Cons sub subs)
  then obtain bss where bss: "length bss = Suc (length subs)" "length xss = Suc (length subs)" "distinct (concat bss)"
    "\<And>j. j < Suc (length subs) \<Longrightarrow> \<exists>h t. ip_ok pool ((sub # subs) ! j) (set (concat bss) - set (bss ! j)) h t (bss ! j) (xss ! j)"
    by (auto simp: shared_def)
  obtain bs bs' xs xs' where split: "bss = bs # bs'" "xss = xs # xs'" using bss(1,2) by (cases bss; cases xss) auto
  have d: "set (concat bss) - set bs = set (concat bs')" using bss(3) split by auto
  obtain h t where "ip_ok pool sub (set (concat bs')) h t bs xs" using bss(4) [of 0] split d by auto
  from destroy_producer [OF this] obtain pool' fl where pool': "ImplicitProducer_destroy pool sub = Inr pool'"
    "pool_inv pool' fl (set (concat bs'))" "\<forall>y \<in> set (concat bs'). blocks pool' ! y = blocks pool ! y" by blast
  have "\<exists>h t. ip_ok pool' (subs ! j) (set (concat bs') - set (bs' ! j)) h t (bs' ! j) (xs' ! j)" if j: "j < length subs" for j
  proof -
    obtain h t where ok: "ip_ok pool (subs ! j) (set (concat bss) - set (bs' ! j)) h t (bs' ! j) (xs' ! j)" using bss(4) [of "Suc j"] j split by auto
    have sub: "set (bs' ! j) \<subseteq> set (concat bs')" using j bss(1) split by (auto intro!: bexI [of _ "bs' ! j"])
    then have "pool_inv pool' fl (set (bs' ! j) \<union> (set (concat bs') - set (bs' ! j)))" using pool'(2) by (simp add: Un_absorb1)
    then have "ip_ok pool' (subs ! j) (set (concat bs') - set (bs' ! j)) h t (bs' ! j) (xs' ! j)"
      using pool'(3) sub by (intro ip_ok_others [OF ok]) auto
    then show ?thesis by blast
  qed
  then have "shared pool' subs xs'" unfolding shared_def using bss(1,2,3) split pool'(2) by (intro exI [of _ bs']) auto
  from Cons.IH [OF this] show ?case using pool'(1) by simp
qed

lemma sq_destroy:
  assumes "sq_rel env n s q"
  shows "\<exists>pool fl. destroy_producers (producers (sq_dir s)) (sq_subs s) (sq_pool s) = Inr pool \<and> pool_inv pool fl {}"
proof -
  obtain xss where xss: "shared (sq_pool s) (sq_subs s) xss" by (rule sq_relE [OF assms])
  have "map prod_id (producers (sq_dir s)) = rev [0..<length (sq_subs s)]" using assms by (simp add: sq_rel_def dir_ok_def cq_inv_def)
  then have "map (\<lambda>p. sq_subs s ! prod_id p) (producers (sq_dir s)) = map ((!) (sq_subs s)) (rev [0..<length (sq_subs s)])"
    by (metis (no_types, lifting) map_map o_def map_cong)
  also have "\<dots> = rev (sq_subs s)" by (simp add: rev_map [symmetric] map_nth)
  finally show ?thesis using destroy_all_spec [OF shared_rev [OF xss]] by (simp add: destroy_producers_all)
qed

section \<open>Properties\<close>

lemma sq_rel_start:
  assumes "n < 2 ^ 60"
  shows "sq_rel env n (new_SharedQueue env cap) cq_empty"
proof -
  have "shared (initial_pool env cap) [] ([] :: 'a list list)" unfolding shared_def using initial_pool_inv by auto
  moreover have "dir_ok populate_initial_implicit_producer_hash (cq_empty :: 'a ConcurrentQueue)"
    using hash_inv_initial by (simp add: dir_ok_def cq_inv_empty) (simp add: cq_empty_def)
  ultimately show ?thesis using assms
    by (auto simp: sq_rel_def new_SharedQueue_def fill_def cq_empty_def cq_elems_def populate_initial_implicit_producer_hash_def)
qed

text \<open>
  (C7) A queue with hash tables, block indices, blocks and a free list behaves as a list of producers with their streams: for every
  sequence of enqueues by any threads and of dequeues of every kind, whichever allocations fail and whichever copies throw, every operation returns
  without a fault, and the results are those the streams of \<^verbatim>\<open>CQ_Dispatch\<close> give. An enqueue fails only for want of memory or because the
  copy of the element throws. The estimate of the size is exact.
\<close>

theorem shared_queue_refines_streams:
  fixes ops :: "'a sq_op list"
  assumes "list_all sq_valid ops" "length ops < 2 ^ 60"
  shows "\<exists>s rs q. run_requests (sq_handle env) (new_SharedQueue env cap) ops = Inr (s, rs) \<and> spec_run (sq_spec env) ops cq_empty rs q \<and>
    sq_size_approx s = of_nat (size_approx q)"
proof -
  have "sq_rel env (length ops + 0) (new_SharedQueue env cap) (cq_empty :: 'a ConcurrentQueue)" using assms(2) by (intro sq_rel_start) simp
  from sq.run_refines [OF this assms(1)] sq_size show ?thesis by blast
qed

definition example_sq_ops :: "string sq_op list" where
  "example_sq_ops =
     [SQ_enqueue CanAlloc \<lparr>allocated = True, created = True, ctor_ok = True\<rparr> 7 ''a'',
      SQ_enqueue CanAlloc \<lparr>allocated = True, created = True, ctor_ok = True\<rparr> 9 ''b'', SQ_try_dequeue, SQ_try_dequeue_bulk 5, SQ_try_dequeue]"

theorem shared_queue_refines_streams_witness:
  "\<exists>s. run_requests (sq_handle good_env) (new_SharedQueue good_env 192) example_sq_ops =
     Inr (s, [SR_Enqueue Enqueued, SR_Enqueue Enqueued, SR_Item (Some ''b''), SR_Items [''a''], SR_Item None])"
proof -
  have "list_all sq_valid example_sq_ops" "length example_sq_ops < 2 ^ 60" by (simp_all add: example_sq_ops_def invalid_thread_id_def)
  from shared_queue_refines_streams [OF this, of good_env 192]
  obtain s rs q where run: "run_requests (sq_handle good_env) (new_SharedQueue good_env 192) example_sq_ops = Inr (s, rs)"
    "spec_run (sq_spec good_env) example_sq_ops cq_empty rs q" by blast
  let ?q = "enqueue (enqueue cq_empty 7 ''a'') 9 ''b''" and ?q1 = "enqueue cq_empty 7 ''a''"
  have t: "map_option fst (try_dequeue ?q) = Some ''b''" "map_option (\<lambda>(_, q). fst (try_dequeue_bulk q 5)) (try_dequeue ?q) = Some [''a'']"
    "map_option (\<lambda>(_, q). map_option fst (try_dequeue (snd (try_dequeue_bulk q 5)))) (try_dequeue ?q) = Some None" by code_simp+
  show ?thesis using run t by (auto simp: example_sq_ops_def good_env_ok dequeued_def split: option.splits)
qed

text \<open>What a session accepted and what it handed out.\<close>

fun accepted_elems :: "'a sq_op list \<Rightarrow> 'a sq_result list \<Rightarrow> 'a multiset" where
  "accepted_elems (SQ_enqueue mode e tid x # ops) (r # rs) = (if r = SR_Enqueue Enqueued then {#x#} else {#}) + accepted_elems ops rs"
| "accepted_elems (_ # ops) (_ # rs) = accepted_elems ops rs"
| "accepted_elems _ _ = {#}"

fun result_elems :: "'a sq_result \<Rightarrow> 'a multiset" where
  "result_elems (SR_Enqueue _) = {#}"
| "result_elems (SR_Item x) = (case x of None \<Rightarrow> {#} | Some x \<Rightarrow> {#x#})"
| "result_elems (SR_Items xs) = mset xs"

lemma try_dequeue_non_interleaved_elems:
  assumes "cq_inv q" "try_dequeue_non_interleaved q = Some (x, q')"
  shows "cq_inv q' \<and> cq_elems q = add_mset x (cq_elems q')"
proof -
  obtain ps where d: "dequeue_where (\<lambda>_. True) (producers q) = Some (x, ps)" "q' = q\<lparr>producers := ps\<rparr>"
    using assms(2) by (auto simp: try_dequeue_non_interleaved_def)
  obtain us p vs xs where "producers q = us @ p # vs" "ps = us @ p\<lparr>stream := xs\<rparr> # vs" using dequeue_where_Some [OF d(1)] by blast
  then have "ownership (producers q') = ownership (producers q)" using d(2) by (simp add: ownership_def)
  then show ?thesis using assms(1) cq_inv_cong [of q' q] dequeue_where_elems [OF d(1)] d(2) by (simp add: cq_elems_def)
qed

lemma sq_spec_elems:
  assumes "cq_inv q" "sq_spec env op q r q'"
  shows "cq_inv q' \<and> cq_elems q + accepted_elems [op] [r] = result_elems r + cq_elems q'"
proof (cases op)
  case (SQ_enqueue mode e tid x)
  obtain q1 i where g: "get_or_add_implicit_producer q (unat tid) = (q1, i)" by fastforce
  show ?thesis using SQ_enqueue assms enqueue_correct [OF assms(1), of "unat tid" x] get_or_add_correct [OF assms(1) g] g by auto
next
  case SQ_try_dequeue
  then show ?thesis using assms try_dequeue_correct [OF assms(1)] by (auto simp: dequeued_def split: option.splits)
next
  case SQ_try_dequeue_non_interleaved
  then show ?thesis using assms try_dequeue_non_interleaved_elems [OF assms(1)] by (auto simp: dequeued_def split: option.splits)
next
  case (SQ_try_dequeue_bulk mx)
  then obtain xs where xs: "r = SR_Items xs" "try_dequeue_bulk q (unat mx) = (xs, q')" using assms(2) by auto
  then show ?thesis using SQ_try_dequeue_bulk bulk_parts [OF assms(1) xs(2)] by simp
qed

lemma spec_run_elems:
  "cq_inv q \<Longrightarrow> spec_run (sq_spec env) ops q rs q' \<Longrightarrow>
   cq_elems q + accepted_elems ops rs = sum_list (map result_elems rs) + cq_elems q'"
proof (induction ops arbitrary: q rs)
  case (Cons op ops)
  then obtain r rs' q1 where rs: "rs = r # rs'" "sq_spec env op q r q1" "spec_run (sq_spec env) ops q1 rs' q'" by auto
  have one: "cq_inv q1" "cq_elems q + accepted_elems [op] [r] = result_elems r + cq_elems q1" using sq_spec_elems [OF Cons.prems(1) rs(2)] by auto
  have "accepted_elems (op # ops) (r # rs') = accepted_elems [op] [r] + accepted_elems ops rs'" by (cases op) simp_all
  then have "cq_elems q + accepted_elems (op # ops) rs = result_elems r + (cq_elems q1 + accepted_elems ops rs')"
    using one(2) rs(1) by (simp add: ac_simps)
  then show ?case using Cons.IH [OF one(1) rs(3)] rs(1) by (simp add: ac_simps)
qed simp

lemma size_approx_elems: "size_approx q = size (cq_elems q)"
proof -
  have "sum_list (map (\<lambda>p. length (stream p)) ps) = size (streams_elems ps)" for ps :: "'a cq_producer list" by (induction ps) simp_all
  then show ?thesis by (simp add: size_approx_def cq_elems_def)
qed



end
