(* ===== verification/CQ_Copy.thy ===== *)
theory CQ_Copy
  imports CQ_Bulk
begin

text \<open>
  What the bulk enqueues of the implicit and the explicit producer (\<^verbatim>\<open>enqueue_bulk\<close> of \<^verbatim>\<open>struct ImplicitProducer\<close> and \<^verbatim>\<open>struct ExplicitProducer\<close>,
  \<^verbatim>\<open>src/utils/concurrentqueue-1.0.3/concurrentqueue.h\<close>) share: the number of blocks they need, the loop that copies the elements block by block, and the loop that destroys
  the elements copied when a copy throws. The locale \<open>block_filler\<close> says what a producer must provide for copying to append.
  A session of single and bulk operations on a list is what the sessions of both producers are compared with.
\<close>

definition next_of :: "'a BlockPool \<Rightarrow> nat \<Rightarrow> fault + nat" where
  "next_of q b =
     and_then (deref q (Some b)) (\<lambda>blk. case next_block blk of None \<Rightarrow> Inl Undefined_Behaviour | Some n \<Rightarrow> Inr n)"

text \<open>
  Copying the elements: the elements of one block, up to \<^verbatim>\<open>stopIndex\<close>, and the blocks in turn. An item is an element and whether its
  copy constructor returns; \<open>False\<close> is a throw.
\<close>

fun copy_items ::
  "'a BlockPool \<Rightarrow> nat option \<Rightarrow> u64 \<Rightarrow> u64 \<Rightarrow> ('a \<times> bool) list \<Rightarrow> fault + 'a BlockPool \<times> u64 \<times> ('a \<times> bool) list \<times> bool" where
  "copy_items q tb i stopIndex [] = (if i = stopIndex then Inr (q, i, [], True) else Inl Undefined_Behaviour)"
| "copy_items q tb i stopIndex ((x, ctor_ok) # items) =
     (if i = stopIndex then Inr (q, i, (x, ctor_ok) # items, True)
      else and_then (deref q tb) (\<lambda>blk.
        if ctor_ok then copy_items (put_block q (the tb) (block_construct blk i x)) tb (i + 1) stopIndex items
        else Inr (q, i, (x, ctor_ok) # items, False)))"

fun copy_blocks ::
  "nat \<Rightarrow> u64 \<Rightarrow> nat option \<Rightarrow> 'a BlockPool \<Rightarrow> nat option \<Rightarrow> u64 \<Rightarrow> ('a \<times> bool) list \<Rightarrow>
     fault + 'a BlockPool \<times> nat option \<times> u64 \<times> bool" where
  "copy_blocks 0 newTailIndex endBlock q tb i items = Inl Diverges"
| "copy_blocks (Suc fuel) newTailIndex endBlock q tb i items =
     and_then (copy_items q tb i (block_end i newTailIndex) items) (\<lambda>(q, i, items, ok).
       if \<not> ok then Inr (q, tb, i, False)
       else if tb = endBlock then (if i = newTailIndex then Inr (q, tb, i, True) else Inl Assertion_Failed)
       else case tb of
           None \<Rightarrow> Inl Undefined_Behaviour
         | Some b \<Rightarrow> and_then (next_of q b) (\<lambda>n. copy_blocks fuel newTailIndex endBlock q (Some n) i items))"

text \<open>Destroy the elements copied so far, after a throw.\<close>

fun destroy_indices :: "nat \<Rightarrow> 'a BlockPool \<Rightarrow> nat \<Rightarrow> u64 \<Rightarrow> u64 \<Rightarrow> fault + 'a BlockPool" where
  "destroy_indices fuel q block i stopIndex =
     (if i = stopIndex then Inr q
      else case fuel of
          0 \<Rightarrow> Inl Diverges
        | Suc fuel \<Rightarrow>
            and_then (deref q (Some block)) (\<lambda>blk.
            and_then (block_get blk i) (\<lambda>_.
              destroy_indices fuel (put_block q block (block_destroy blk i)) block (i + 1) stopIndex)))"

declare destroy_indices.simps [simp del]

fun destroy_copied :: "nat \<Rightarrow> u64 \<Rightarrow> nat option \<Rightarrow> 'a BlockPool \<Rightarrow> nat \<Rightarrow> u64 \<Rightarrow> fault + 'a BlockPool" where
  "destroy_copied 0 constructedStopIndex lastBlockEnqueued q block i = Inl Diverges"
| "destroy_copied (Suc fuel) constructedStopIndex lastBlockEnqueued q block i =
     (let stopIndex = block_end i constructedStopIndex
      in and_then (destroy_indices 32 q block i stopIndex) (\<lambda>q.
           if Some block = lastBlockEnqueued then Inr q
           else and_then (next_of q block) (\<lambda>n. destroy_copied fuel constructedStopIndex lastBlockEnqueued q n stopIndex)))"

section \<open>The number of blocks\<close>

lemma tail_base: "(of_nat t - 1 :: u64) AND NOT 31 = of_nat (32 * nblk t) - 32"
proof (cases t)
  case 0
  have "(- 1 :: u64) AND NOT 31 = - 32" by simp
  then show ?thesis using 0 by (simp add: nblk_def)
next
  case (Suc m)
  have n: "nblk t = Suc (m div 32)" using Suc by (simp add: nblk_def)
  have "(of_nat t - 1 :: u64) = of_nat m" using Suc by simp
  then have "(of_nat t - 1 :: u64) AND NOT 31 = of_nat (32 * (m div 32))" by (simp only: block_base_of_nat)
  also have "\<dots> = of_nat (32 * nblk t) - 32" by (simp add: n algebra_simps)
  finally show ?thesis .
qed

lemma blocks_needed:
  assumes "nblk t \<le> nblk s"
  shows "((of_nat s - 1 :: u64) AND NOT 31) - ((of_nat t - 1) AND NOT 31) = of_nat (32 * (nblk s - nblk t))"
  unfolding tail_base using assms by (simp add: of_nat_diff algebra_simps)

text \<open>The number of blocks that \<open>n\<close> more elements need.\<close>

definition more_blocks :: "nat \<Rightarrow> nat \<Rightarrow> nat" where
  "more_blocks t n = nblk (t + n) - nblk t"

lemma more_blocks_le: "more_blocks t n \<le> n"
proof -
  have "(t + n + 31) div 32 \<le> (t + 31 + n * 32) div 32" by (intro div_le_mono) simp
  then show ?thesis by (simp add: more_blocks_def nblk_def)
qed

lemma rest_of_block:
  assumes "n = min r (32 - t mod 32)" "n < r"
  shows "(t + n) mod 32 = 0" "0 < n" "nblk (t + n) < nblk (t + r)"
proof -
  have "n = 32 - t mod 32" using assms by (auto simp: min_def split: if_splits)
  moreover have "t mod 32 < 32" by simp
  ultimately have "t mod 32 + n = 32" "0 < n" by linarith+
  then show full: "(t + n) mod 32 = 0" "0 < n" using div_mod_end(2) [of t n] by simp_all
  have "nblk (Suc (t + n)) \<le> nblk (t + r)" unfolding nblk_def using assms(2) by (intro div_le_mono) simp
  then show "nblk (t + n) < nblk (t + r)" using nblk_mod0(3) [OF full(1)] by simp
qed

section \<open>Copying\<close>

text \<open>The block that takes the element of index \<open>t\<close>: the last block with elements, or the first of the blocks \<open>ns\<close> prepared.\<close>

definition write_block :: "nat \<Rightarrow> nat list \<Rightarrow> nat list \<Rightarrow> nat \<Rightarrow> bool" where
  "write_block t ns bs b \<longleftrightarrow> (if t mod 32 = 0 then ns \<noteq> [] \<and> b = hd ns else b = last bs)"

lemma takeWhile_split:
  "length (takeWhile P xs) = (if length (takeWhile P (take n xs)) < length (take n xs) then length (takeWhile P (take n xs))
     else length (take n xs) + length (takeWhile P (drop n xs)))"
proof (cases "\<forall>x \<in> set (take n xs). P x")
  case True
  then have "takeWhile P xs = take n xs @ takeWhile P (drop n xs)" by (metis append_take_drop_id takeWhile_append2)
  moreover have "takeWhile P (take n xs) = take n xs" using True by (simp add: takeWhile_eq_all_conv)
  ultimately show ?thesis by (simp only: less_irrefl if_False length_append)
next
  case False
  then obtain x where x: "x \<in> set (take n xs)" "\<not> P x" by blast
  then have "takeWhile P xs = takeWhile P (take n xs)" by (metis append_take_drop_id takeWhile_append1)
  moreover have "takeWhile P (take n xs) \<noteq> take n xs" using x by (metis takeWhile_eq_all_conv)
  then have "length (takeWhile P (take n xs)) < length (take n xs)"
    using length_takeWhile_le [of P "take n xs"] takeWhile_eq_take [of P "take n xs"] by (metis le_neq_implies_less take_all_iff order_refl)
  ultimately show ?thesis by simp
qed

lemma finished_block:
  assumes "n = min r (32 - t mod 32)" "nblk (t + r) = nblk t + length ns" "write_block t ns bs b" "bs @ ns \<noteq> []" "bs1 @ ns1 = bs @ ns"
    "if n = 0 then bs1 = bs else bs1 \<noteq> [] \<and> last bs1 = b"
  shows "bs1 \<noteq> [] \<and> last bs1 = b"
proof (cases "n = 0")
  case True
  then have "r = 0" using assms(1) mod_less_divisor [of 32 t] by (auto simp: min_def split: if_splits)
  then have "ns = []" using assms(2) by simp
  then show ?thesis using assms(3-6) True by (auto simp: write_block_def split: if_splits)
qed (use assms(6) in auto)

text \<open>
  A producer with the elements \<open>xs\<close> in the blocks \<open>bs\<close>, of which the last may have room, and the prepared blocks \<open>ns\<close>. It is given by the
  number \<open>t\<close> of elements enqueued so far; \<open>h\<close> of them are dequeued, and copying started with \<open>s\<close> of them enqueued. When it starts at the end of a
  block, the last block need not point to the first prepared one.
\<close>

locale block_filler =
  fixes fill :: "'a BlockPool \<Rightarrow> nat \<Rightarrow> nat list \<Rightarrow> nat list \<Rightarrow> 'a list \<Rightarrow> bool" and h s :: nat
  assumes copy_one: "fill q t ns bs xs \<Longrightarrow> write_block t ns bs b \<Longrightarrow>
      \<exists>ns' bs'. fill (put_block q b (block_construct (blocks q ! b) (of_nat t) x)) (Suc t) ns' bs' (xs @ [x]) \<and>
        bs' @ ns' = bs @ ns \<and> last bs' = b \<and> bs' \<noteq> [] \<and> b < length (blocks q)"
    and count: "fill q t ns bs xs \<Longrightarrow> length bs + h div 32 = nblk t"
    and distinct: "fill q t ns bs xs \<Longrightarrow> distinct (bs @ ns)"
    and start: "fill q t ns bs xs \<Longrightarrow> s \<le> t"
    and link: "fill q t ns bs xs \<Longrightarrow> s < t \<Longrightarrow> bs \<noteq> [] \<Longrightarrow> ns \<noteq> [] \<Longrightarrow> next_of q (last bs) = Inr (hd ns)"
    and bound: "fill q t ns bs xs \<Longrightarrow> 32 * (nblk t + length ns) \<le> t + 2 ^ 63"
begin

text \<open>The elements of one block, up to the first whose copy throws.\<close>

lemma copy_items_spec:
  assumes "fill q t ns bs xs" "t mod 32 + r \<le> 32" "r \<le> length items" "0 < r \<longrightarrow> write_block t ns bs b" "k = length (takeWhile snd (take r items))"
  shows "\<exists>q' ns' bs'. copy_items q (Some b) (of_nat t) (of_nat (t + r)) items = Inr (q', of_nat (t + k), drop k items, k = r) \<and>
     fill q' (t + k) ns' bs' (xs @ map fst (take k items)) \<and> bs' @ ns' = bs @ ns \<and> (if k = 0 then bs' = bs else bs' \<noteq> [] \<and> last bs' = b) \<and>
     (\<forall>y. y \<noteq> b \<longrightarrow> blocks q' ! y = blocks q ! y)"
  using assms
proof (induction r arbitrary: q t ns bs xs items k)
  case 0
  then show ?case by (intro exI [of _ q] exI [of _ ns] exI [of _ bs], cases items) auto
next
  case (Suc r)
  obtain x ok rest where items: "items = (x, ok) # rest" "r \<le> length rest" using Suc.prems(3) by (cases items) auto
  let ?q = "put_block q b (block_construct (blocks q ! b) (of_nat t) x)"
  obtain ns1 bs1 where one: "fill ?q (Suc t) ns1 bs1 (xs @ [x])" "bs1 @ ns1 = bs @ ns" "last bs1 = b" "bs1 \<noteq> []" "b < length (blocks q)"
    using copy_one [OF Suc.prems(1), of b x] Suc.prems(4) by auto
  have neq: "(of_nat t :: u64) \<noteq> of_nat (t + Suc r)" using of_nat_eq_add [of "Suc r" t] Suc.prems(2) by simp
  show ?case
  proof (cases ok)
    case False
    then have "copy_items q (Some b) (of_nat t) (of_nat (t + Suc r)) items = Inr (q, of_nat t, items, False)" "k = 0"
      using neq one(5) items(1) Suc.prems(5) by simp_all
    then show ?thesis using Suc.prems(1) by (intro exI [of _ q] exI [of _ ns] exI [of _ bs]) simp
  next
    case True
    have step: "copy_items q (Some b) (of_nat t) (of_nat (t + Suc r)) items = copy_items ?q (Some b) (of_nat (Suc t)) (of_nat (Suc t + r)) rest"
      using neq one(5) items(1) True by (simp add: add.commute)
    define k1 where "k1 = length (takeWhile snd (take r rest))"
    have k: "k = Suc k1" using Suc.prems(5) items(1) True by (simp add: k1_def)
    have "Suc t mod 32 + r \<le> 32" using Suc.prems(2) by (simp add: mod_Suc)
    moreover have "0 < r \<longrightarrow> write_block (Suc t) ns1 bs1 b" using Suc.prems(2) one(3) by (simp add: write_block_def mod_Suc)
    ultimately obtain q' ns' bs' where IH: "copy_items ?q (Some b) (of_nat (Suc t)) (of_nat (Suc t + r)) rest = Inr (q', of_nat (Suc t + k1), drop k1 rest, k1 = r)"
      "fill q' (Suc t + k1) ns' bs' ((xs @ [x]) @ map fst (take k1 rest))" "bs' @ ns' = bs1 @ ns1"
      "if k1 = 0 then bs' = bs1 else bs' \<noteq> [] \<and> last bs' = b" "\<forall>y. y \<noteq> b \<longrightarrow> blocks q' ! y = blocks ?q ! y"
      using Suc.IH [OF one(1) _ items(2) _ k1_def] by blast
    then show ?thesis using step one items(1) k by (intro exI [of _ q'] exI [of _ ns'] exI [of _ bs']) (auto split: if_splits)
  qed
qed

text \<open>All the elements, or those before the first whose copy throws.\<close>

lemma copy_blocks_spec:
  assumes "fill q t ns bs xs" "write_block t ns bs b" "nblk (t + length items) = nblk t + length ns" "length items < fuel" "bs @ ns \<noteq> []"
    "k = length (takeWhile snd items)"
  shows "\<exists>q' b' ns' bs'. copy_blocks fuel (of_nat (t + length items)) (Some (last (bs @ ns))) q (Some b) (of_nat t) items =
       Inr (q', Some b', of_nat (t + k), k = length items) \<and>
     fill q' (t + k) ns' bs' (xs @ map fst (take k items)) \<and> bs' @ ns' = bs @ ns \<and>
     (if k = length items then ns' = [] \<and> b' = last (bs @ ns) else write_block (t + k) ns' bs' b') \<and>
     (\<forall>y. y \<notin> set (bs @ ns) \<longrightarrow> blocks q' ! y = blocks q ! y)"
  using assms
proof (induction fuel arbitrary: q t ns bs xs items b k)
  case (Suc fuel)
  let ?r = "length items"
  define n where "n = min ?r (32 - t mod 32)"
  define k1 where "k1 = length (takeWhile snd (take n items))"
  have n: "n \<le> ?r" "t mod 32 + n \<le> 32" "length (take n items) = n" by (auto simp: n_def)
  have k1: "k1 \<le> n" "k = (if k1 < n then k1 else n + length (takeWhile snd (drop n items)))"
    using length_takeWhile_le [of snd "take n items"] takeWhile_split [of snd items n]
    unfolding n(3) k1_def [symmetric] Suc.prems(6) [symmetric] .
  have "t + ?r \<le> 32 * (nblk t + length ns)" using nblk_bounds(1) [of "t + ?r"] Suc.prems(3) by simp
  then have r: "?r \<le> 2 ^ 63" using bound [OF Suc.prems(1)] by linarith
  have be: "block_end (of_nat t) (of_nat (t + ?r)) = of_nat (t + n)" unfolding n_def using r by (rule block_end_of_nat)
  obtain q1 ns1 bs1 where c: "copy_items q (Some b) (of_nat t) (of_nat (t + n)) items = Inr (q1, of_nat (t + k1), drop k1 items, k1 = n)"
     "fill q1 (t + k1) ns1 bs1 (xs @ map fst (take k1 items))" "bs1 @ ns1 = bs @ ns"
     "if k1 = 0 then bs1 = bs else bs1 \<noteq> [] \<and> last bs1 = b" "\<forall>y. y \<noteq> b \<longrightarrow> blocks q1 ! y = blocks q ! y"
    using copy_items_spec [OF Suc.prems(1) n(2,1) _ k1_def, of b] Suc.prems(2) by blast
  have step: "copy_blocks (Suc fuel) (of_nat (t + ?r)) (Some (last (bs @ ns))) q (Some b) (of_nat t) items =
      (if k1 \<noteq> n then Inr (q1, Some b, of_nat (t + k1), False)
       else if b = last (bs @ ns) then (if (of_nat (t + n) :: u64) = of_nat (t + ?r) then Inr (q1, Some b, of_nat (t + n), True) else Inl Assertion_Failed)
       else and_then (next_of q1 b) (\<lambda>m. copy_blocks fuel (of_nat (t + ?r)) (Some (last (bs @ ns))) q1 (Some m) (of_nat (t + n)) (drop n items)))"
    unfolding copy_blocks.simps(2) be using c(1) by simp
  have "b \<in> set (bs @ ns)" using copy_one [OF Suc.prems(1,2)] last_in_set by (metis Un_iff set_append)
  then have same: "\<forall>y. y \<notin> set (bs @ ns) \<longrightarrow> blocks q1 ! y = blocks q ! y" using c(5) by metis
  show ?case
  proof (cases "k1 < n")
    case True
    have "write_block (t + k1) ns1 bs1 b"
    proof (cases "k1 = 0")
      case False
      then have "(t + k1) mod 32 \<noteq> 0" using True n(2) div_mod_within(2) [of t k1] by simp
      then show ?thesis using c(4) False by (simp add: write_block_def)
    qed (use c(3,4) Suc.prems(2) in auto)
    then show ?thesis using step c(2,3) same True k1 n(1)
      by (intro exI [of _ q1] exI [of _ b] exI [of _ ns1] exI [of _ bs1]) simp
  next
    case False
    then have kn: "k1 = n" "k = n + length (takeWhile snd (drop n items))" using k1 by simp_all
    note c' = c(2) [unfolded kn(1)] c(4) [unfolded kn(1)]
    have blks: "nblk (t + n) + length ns1 = nblk (t + ?r)"
      using count [OF Suc.prems(1)] count [OF c'(1)] arg_cong [OF c(3), of length] Suc.prems(3) by simp
    have last: "bs1 \<noteq> []" "last bs1 = b"
      using finished_block [OF n_def Suc.prems(3,2,5) c(3) c'(2)] by blast+
    note full = rest_of_block [of n ?r t, OF n_def]
    show ?thesis
    proof (cases "ns1 = []")
      case True
      have "n = ?r" using full(3) n(1) blks True by (cases "n = ?r") auto
      moreover from this have "k = ?r" using kn by simp
      ultimately show ?thesis using step True last c(3) c'(1) same kn(1)
        by (intro exI [of _ q1] exI [of _ b] exI [of _ ns1] exI [of _ bs1]) auto
    next
      case False
      have less: "n < ?r" using False blks n(1) by (cases "n = ?r") auto
      have e: "last (bs @ ns) = last (bs1 @ ns1)" using c(3) by simp
      have "last ns1 \<notin> set bs1" using distinct [OF c'(1)] last_in_set [OF False] by auto
      then have "b \<noteq> last (bs1 @ ns1)" using last False last_in_set [OF last(1)] by auto
      moreover have "next_of q1 b = Inr (hd ns1)"
        using link [OF c'(1) _ last(1) False] last(2) start [OF Suc.prems(1)] full(2) [OF less] by simp
      ultimately have go: "copy_blocks (Suc fuel) (of_nat (t + ?r)) (Some (last (bs @ ns))) q (Some b) (of_nat t) items =
          copy_blocks fuel (of_nat (t + ?r)) (Some (last (bs1 @ ns1))) q1 (Some (hd ns1)) (of_nat (t + n)) (drop n items)"
        using step e kn(1) by simp
      have tr: "t + n + length (drop n items) = t + ?r" using n(1) by simp
      have w: "write_block (t + n) ns1 bs1 (hd ns1)" using full(1) [OF less] False by (simp add: write_block_def)
      define k2 where "k2 = length (takeWhile snd (drop n items))"
      have k: "k = n + k2" using kn by (simp add: k2_def)
      have pre: "length (drop n items) < fuel" "nblk (t + n + length (drop n items)) = nblk (t + n) + length ns1" "bs1 @ ns1 \<noteq> []"
        using Suc.prems(4) full(2) [OF less] less blks last(1) unfolding tr by simp_all
      from Suc.IH [OF c'(1) w pre(2,1,3) k2_def, unfolded tr]
      obtain q' b' ns' bs' where IH: "copy_blocks fuel (of_nat (t + ?r)) (Some (last (bs1 @ ns1))) q1 (Some (hd ns1)) (of_nat (t + n)) (drop n items) =
          Inr (q', Some b', of_nat (t + n + k2), k2 = length (drop n items))"
        "fill q' (t + n + k2) ns' bs' ((xs @ map fst (take n items)) @ map fst (take k2 (drop n items)))" "bs' @ ns' = bs1 @ ns1"
        "if k2 = length (drop n items) then ns' = [] \<and> b' = last (bs1 @ ns1) else write_block (t + n + k2) ns' bs' b'"
        "\<forall>y. y \<notin> set (bs1 @ ns1) \<longrightarrow> blocks q' ! y = blocks q1 ! y"
        by blast
      have "(xs @ map fst (take n items)) @ map fst (take k2 (drop n items)) = xs @ map fst (take k items)" by (simp add: k take_add)
      moreover have "k2 = length (drop n items) \<longleftrightarrow> k = ?r" using k n(1) by auto
      ultimately show ?thesis using go IH c(3) same by (intro exI [of _ q'] exI [of _ b'] exI [of _ ns'] exI [of _ bs']) (auto simp: k add.assoc)
    qed
  qed
qed simp

end

section \<open>Destroying what was copied\<close>

text \<open>Destroying elements changes a block in nothing else.\<close>

definition emptied :: "'a Block \<Rightarrow> 'a Block \<Rightarrow> bool" where
  "emptied blk blk' \<longleftrightarrow> (\<exists>es. blk' = blk\<lparr>elements := es\<rparr> \<and> length es = length (elements blk))"

lemma emptied_simps:
  assumes "emptied blk blk'"
  shows "next_block blk' = next_block blk" "emptyFlags blk' = emptyFlags blk" "freeListRefs blk' = freeListRefs blk"
    "freeListNext blk' = freeListNext blk" "block_shape blk' = block_shape blk" "elementsCompletelyDequeued blk' = elementsCompletelyDequeued blk" "dynamicallyAllocated blk' = dynamicallyAllocated blk"
  using assms by (auto simp: emptied_def block_shape_def)

lemma emptied_refl [simp]: "emptied blk blk"
  unfolding emptied_def by (intro exI [of _ "elements blk"]) simp

lemma emptied_trans: "emptied a b \<Longrightarrow> emptied b c \<Longrightarrow> emptied a c"
  unfolding emptied_def by auto

definition only_emptied :: "'a BlockPool \<Rightarrow> 'a BlockPool \<Rightarrow> bool" where
  "only_emptied q q' \<longleftrightarrow> (\<forall>y. emptied (blocks q ! y) (blocks q' ! y))"

lemma only_emptied_refl [simp]: "only_emptied q q"
  by (simp add: only_emptied_def)

lemma only_emptied_trans: "only_emptied q q1 \<Longrightarrow> only_emptied q1 q2 \<Longrightarrow> only_emptied q q2"
  unfolding only_emptied_def using emptied_trans by blast

lemma destroy_indices_spec:
  assumes "pool_inv q fl used" "c \<in> used" "i mod 32 + n \<le> 32" "n \<le> fuel" "\<forall>s \<in> {i mod 32..<i mod 32 + n}. elements (blocks q ! c) ! s \<noteq> None"
  shows "\<exists>q'. destroy_indices fuel q c (of_nat i) (of_nat (i + n)) = Inr q' \<and> pool_inv q' fl used \<and> only_emptied q q' \<and>
     (\<forall>y s. y \<noteq> c \<or> s \<notin> {i mod 32..<i mod 32 + n} \<longrightarrow> elements (blocks q' ! y) ! s = elements (blocks q ! y) ! s)"
  using assms
proof (induction n arbitrary: q i fuel)
  case 0
  then show ?case by (subst destroy_indices.simps) auto
next
  case (Suc n)
  obtain f where f: "fuel = Suc f" "n \<le> f" using Suc.prems(4) by (cases fuel) auto
  have c: "c < length (blocks q)" "freeListRefs (blocks q ! c) = 0" "block_shape (blocks q ! c)"
    using pool_invD(4,8) [OF Suc.prems(1)] Suc.prems(2) by (auto simp: list_all_length)
  have i: "i mod 32 \<in> {i mod 32..<i mod 32 + Suc n}" "i mod 32 < 32" by simp_all
  obtain x where x: "elements (blocks q ! c) ! (i mod 32) = Some x" using Suc.prems(5) i(1) by fastforce
  have get: "block_get (blocks q ! c) (of_nat i) = Inr x"
    using c(3) x i(2) by (simp add: block_get_def block_shape_def unat_of_nat_mod_32)
  let ?blk = "block_destroy (blocks q ! c) (of_nat i)"
  let ?q = "put_block q c ?blk"
  have blk: "elements ?blk = (elements (blocks q ! c))[i mod 32 := None]" "emptied (blocks q ! c) ?blk" "freeListRefs ?blk = 0" "block_shape ?blk"
    using c(2,3) by (auto simp: block_destroy_def emptied_def block_shape_def unat_of_nat_mod_32)
  have inv: "pool_inv ?q fl used" using Suc.prems(1,2) blk(3,4) by (rule pool_inv_put_block)
  have emp: "only_emptied q ?q" using blk(2) c(1) unfolding only_emptied_def by (auto simp: nth_list_update)
  have el: "elements (blocks ?q ! y) ! s = elements (blocks q ! y) ! s" if "y \<noteq> c \<or> s \<noteq> i mod 32" for y s
    using that c(1) blk(1) by (cases "y = c") auto
  have neq: "(of_nat i :: u64) \<noteq> of_nat (i + Suc n)" using of_nat_eq_add [of "Suc n" i] Suc.prems(3) by simp
  have step: "destroy_indices fuel q c (of_nat i) (of_nat (i + Suc n)) = destroy_indices f ?q c (of_nat (Suc i)) (of_nat (Suc i + n))"
    using neq get c(1) f(1) by (subst destroy_indices.simps) (simp add: add.commute)
  show ?case
  proof (cases "n = 0")
    case True
    then have "destroy_indices fuel q c (of_nat i) (of_nat (i + Suc n)) = Inr ?q" using step by (simp add: destroy_indices.simps)
    then show ?thesis using inv emp el True by auto
  next
    case False
    then have m: "Suc i mod 32 = Suc (i mod 32)" using Suc.prems(3) by (simp add: mod_Suc)
    have "elements (blocks ?q ! c) ! s \<noteq> None" if "s \<in> {Suc i mod 32..<Suc i mod 32 + n}" for s
      using el [of c s] that m Suc.prems(5) by auto
    then obtain q' where q': "destroy_indices f ?q c (of_nat (Suc i)) (of_nat (Suc i + n)) = Inr q'" "pool_inv q' fl used" "only_emptied ?q q'"
      "\<forall>y s. y \<noteq> c \<or> s \<notin> {Suc i mod 32..<Suc i mod 32 + n} \<longrightarrow> elements (blocks q' ! y) ! s = elements (blocks ?q ! y) ! s"
      using Suc.IH [OF inv Suc.prems(2), of "Suc i" f] Suc.prems(3) f(2) m by auto
    then have "elements (blocks q' ! y) ! s = elements (blocks q ! y) ! s" if "y \<noteq> c \<or> s \<notin> {i mod 32..<i mod 32 + Suc n}" for y s
      using that el [of y s] m by auto
    then show ?thesis using step q'(1,2) only_emptied_trans [OF emp q'(3)] by auto
  qed
qed

text \<open>
  The elements of the indices from \<open>i\<close> to \<open>j\<close>, in the blocks \<open>cs\<close>, the first of which is the block number \<open>a\<close>, are destroyed, and no others.
\<close>

lemma destroy_copied_spec:
  assumes "pool_inv q fl used" "set cs \<subseteq> used" "distinct cs" "a \<le> i div 32" "i \<le> j" "j div 32 - a < length cs" "j - i < 2 ^ 63"
    "\<forall>m. i \<le> m \<and> m < j \<longrightarrow> elements (blocks q ! (cs ! (m div 32 - a))) ! (m mod 32) \<noteq> None"
    "\<forall>m. i div 32 \<le> m \<and> m < j div 32 \<longrightarrow> next_block (blocks q ! (cs ! (m - a))) = Some (cs ! (Suc m - a))"
    "j div 32 - i div 32 < fuel"
  shows "\<exists>q'. destroy_copied fuel (of_nat j) (Some (cs ! (j div 32 - a))) q (cs ! (i div 32 - a)) (of_nat i) = Inr q' \<and> pool_inv q' fl used \<and>
     only_emptied q q' \<and> (\<forall>y s. y \<notin> set cs \<longrightarrow> elements (blocks q' ! y) ! s = elements (blocks q ! y) ! s) \<and>
     (\<forall>m. a \<le> m div 32 \<and> m < i \<longrightarrow> elements (blocks q' ! (cs ! (m div 32 - a))) ! (m mod 32) = elements (blocks q ! (cs ! (m div 32 - a))) ! (m mod 32))"
  using assms
proof (induction fuel arbitrary: q i)
  case (Suc fuel)
  define n where "n = min (j - i) (32 - i mod 32)"
  have n: "i mod 32 + n \<le> 32" "n \<le> 32" "i + n \<le> j" using Suc.prems(5) by (auto simp: n_def)
  let ?c = "cs ! (i div 32 - a)"
  have pos: "i div 32 - a < length cs" using Suc.prems(6) div_le_mono [OF Suc.prems(5), of 32] by linarith
  then have c: "?c \<in> used" "?c \<in> set cs" using Suc.prems(2) by auto
  have be: "block_end (of_nat i) (of_nat j) = of_nat (i + n)"
    using block_end_of_nat [of "j - i" i] Suc.prems(5,7) unfolding n_def by simp
  have "elements (blocks q ! ?c) ! s \<noteq> None" if "s \<in> {i mod 32..<i mod 32 + n}" for s
  proof -
    define d where "d = s - i mod 32"
    have d: "s = i mod 32 + d" "d < n" using that by (auto simp: d_def)
    have "(i + d) div 32 = i div 32" "(i + d) mod 32 = s" using div_mod_within [of i d] d n(1) by simp_all
    moreover have "i \<le> i + d" "i + d < j" using d(2) n(3) by simp_all
    ultimately show ?thesis using Suc.prems(8) [rule_format, of "i + d"] by simp
  qed
  then obtain q1 where q1: "destroy_indices 32 q ?c (of_nat i) (of_nat (i + n)) = Inr q1" "pool_inv q1 fl used" "only_emptied q q1"
    "\<And>y s. y \<noteq> ?c \<or> s \<notin> {i mod 32..<i mod 32 + n} \<Longrightarrow> elements (blocks q1 ! y) ! s = elements (blocks q ! y) ! s"
    using destroy_indices_spec [OF Suc.prems(1) c(1) n(1,2)] by blast
  have next1: "next_block (blocks q1 ! y) = next_block (blocks q ! y)" for y using q1(3) by (simp add: only_emptied_def emptied_simps)
  have out: "elements (blocks q1 ! y) ! s = elements (blocks q ! y) ! s" if "y \<notin> set cs" for y s using q1(4) [of y s] that c(2) by blast
  have below: "elements (blocks q1 ! (cs ! (m div 32 - a))) ! (m mod 32) = elements (blocks q ! (cs ! (m div 32 - a))) ! (m mod 32)"
    if m: "a \<le> m div 32" "m < i \<or> i + n \<le> m" "m div 32 - a < length cs" for m
  proof (cases "m div 32 = i div 32")
    case True
    then have "m mod 32 < i mod 32 \<or> i mod 32 + n \<le> m mod 32"
      using m(2) mult_div_mod_eq [of 32 m] mult_div_mod_eq [of 32 i] by linarith
    then show ?thesis using q1(4) [of ?c "m mod 32"] True by auto
  next
    case False
    then have "m div 32 - a \<noteq> i div 32 - a" using Suc.prems(4) m(1) by linarith
    then have "cs ! (m div 32 - a) \<noteq> ?c" using Suc.prems(3) m(3) pos by (simp add: nth_eq_iff_index_eq)
    then show ?thesis using q1(4) by blast
  qed
  show ?case
  proof (cases "i div 32 = j div 32")
    case True
    then have "i + n = j" "Some ?c = Some (cs ! (j div 32 - a))"
      using Suc.prems(5) mult_div_mod_eq [of 32 i] mult_div_mod_eq [of 32 j] mod_less_divisor [of 32 j] by (auto simp: n_def)
    then have "destroy_copied (Suc fuel) (of_nat j) (Some (cs ! (j div 32 - a))) q ?c (of_nat i) = Inr q1"
      using q1(1) be by simp
    then show ?thesis using q1(2,3) out below pos by (intro exI [of _ q1]) auto
  next
    case False
    then have lt: "i div 32 < j div 32" using div_le_mono [OF Suc.prems(5), of 32] by simp
    have full: "i mod 32 + n = 32"
    proof -
      have "32 \<le> i mod 32 + (j - i)" using lt mult_div_mod_eq [of 32 i] mult_div_mod_eq [of 32 j] by linarith
      then show ?thesis unfolding n_def min_def using mod_less_divisor [of 32 i] by auto
    qed
    note dm = div_mod_end [OF full]
    let ?d = "cs ! ((i + n) div 32 - a)"
    have le: "m div 32 - a < length cs" if "m \<le> j" for m using div_le_mono [OF that, of 32] Suc.prems(6) by linarith
    have "next_block (blocks q1 ! ?c) = Some ?d" using Suc.prems(9) lt next1 dm(1) by simp
    moreover have "?c < length (blocks q1)" using pool_invD(4) [OF q1(2)] c(1) by blast
    moreover have "?c \<noteq> cs ! (j div 32 - a)" using Suc.prems(3,4,6) pos lt by (simp add: nth_eq_iff_index_eq diff_less_mono less_imp_neq)
    ultimately have step: "destroy_copied (Suc fuel) (of_nat j) (Some (cs ! (j div 32 - a))) q ?c (of_nat i) =
        destroy_copied fuel (of_nat j) (Some (cs ! (j div 32 - a))) q1 ?d (of_nat (i + n))"
      using q1(1) be by (simp add: next_of_def)
    have "a \<le> (i + n) div 32" "j - (i + n) < 2 ^ 63" "j div 32 - (i + n) div 32 < fuel"
      using Suc.prems(4,7,10) lt unfolding dm(1) by linarith+
    moreover have "\<forall>m. i + n \<le> m \<and> m < j \<longrightarrow> elements (blocks q1 ! (cs ! (m div 32 - a))) ! (m mod 32) \<noteq> None"
    proof (intro allI impI)
      fix m
      assume m: "i + n \<le> m \<and> m < j"
      then have "a \<le> m div 32" using div_le_mono [of i m 32] Suc.prems(4) by linarith
      then show "elements (blocks q1 ! (cs ! (m div 32 - a))) ! (m mod 32) \<noteq> None"
        using below [of m] le [of m] Suc.prems(8) m by simp
    qed
    moreover have "\<forall>m. (i + n) div 32 \<le> m \<and> m < j div 32 \<longrightarrow> next_block (blocks q1 ! (cs ! (m - a))) = Some (cs ! (Suc m - a))"
      using Suc.prems(9) next1 dm(1) by simp
    ultimately obtain q' where q': "destroy_copied fuel (of_nat j) (Some (cs ! (j div 32 - a))) q1 ?d (of_nat (i + n)) = Inr q'"
      "pool_inv q' fl used" "only_emptied q1 q'" "\<And>y s. y \<notin> set cs \<Longrightarrow> elements (blocks q' ! y) ! s = elements (blocks q1 ! y) ! s"
      "\<And>m. a \<le> m div 32 \<Longrightarrow> m < i + n \<Longrightarrow>
         elements (blocks q' ! (cs ! (m div 32 - a))) ! (m mod 32) = elements (blocks q1 ! (cs ! (m div 32 - a))) ! (m mod 32)"
      using Suc.IH [OF q1(2) Suc.prems(2,3) _ n(3) Suc.prems(6)] by blast
    have "elements (blocks q' ! (cs ! (m div 32 - a))) ! (m mod 32) = elements (blocks q ! (cs ! (m div 32 - a))) ! (m mod 32)"
      if "a \<le> m div 32 \<and> m < i" for m
      using q'(5) [of m] below [of m] le [of m] that Suc.prems(5) by simp
    then show ?thesis using step q'(1,2,4) only_emptied_trans [OF q1(3) q'(3)] out by (intro exI [of _ q']) auto
  qed
qed simp

section \<open>Sessions with bulk operations\<close>

text \<open>Operations that enqueue or dequeue one element or many.\<close>

datatype 'a bulk_op = One 'a | Many "'a list" | Take | Take_Many u64

primrec enqueued :: "'a bulk_op \<Rightarrow> 'a list" where
  "enqueued (One x) = [x]"
| "enqueued (Many xs) = xs"
| "enqueued Take = []"
| "enqueued (Take_Many m) = []"

primrec requested :: "'a bulk_op \<Rightarrow> nat" where
  "requested (One x) = 0"
| "requested (Many xs) = 0"
| "requested Take = 1"
| "requested (Take_Many m) = unat m"

text \<open>The same session on a list: the elements taken and the ones left.\<close>

fun fifo_session :: "'a list \<Rightarrow> 'a bulk_op list \<Rightarrow> 'a list \<times> 'a list" where
  "fifo_session xs [] = ([], xs)"
| "fifo_session xs (x # ops) =
     (let ys = xs @ enqueued x; (taken, rest) = fifo_session (drop (requested x) ys) ops in (take (requested x) ys @ taken, rest))"

end
