(* ===== verification/CQ_Explicit.thy ===== *)
theory CQ_Explicit
  imports CQ_Copy CQ_Bits
begin

text \<open>
  The explicit producer (\<^verbatim>\<open>struct ExplicitProducer\<close> of
  \<^verbatim>\<open>src/utils/concurrentqueue-1.0.3/concurrentqueue.h\<close>): the sub-queue of a producer token. Its
  blocks form a circle of \<^verbatim>\<open>next\<close> pointers: the tail block moves on to the block ahead when that one is empty, and
  otherwise a new block is linked in. A block counts as empty when the flags of its 32 slots are set. The
  block index is a ring of pairs of a base index and a block.

  As for the implicit producer, copying an element may throw and moving one does not, and operations run one after the
  other.
\<close>

section \<open>State\<close>

record ExplicitBlockIndexHeader =
  hdr_size :: u64
  hdr_front :: u64
  hdr_entries :: "(u64 \<times> nat option) list"

text \<open>
  The first header of \<open>ep_blockIndex\<close> is the one \<^verbatim>\<open>blockIndex\<close> and \<^verbatim>\<open>pr_blockIndexRaw\<close> point to, with the entries of
  \<^verbatim>\<open>pr_blockIndexEntries\<close>; the others are its predecessors. The list is empty when these pointers are null.
\<close>

record ExplicitProducer =
  ep_tailIndex :: u64
  ep_headIndex :: u64
  ep_dequeueOptimisticCount :: u64
  ep_dequeueOvercommit :: u64
  ep_tailBlock :: "nat option"
  ep_blockIndex :: "ExplicitBlockIndexHeader list"
  pr_blockIndexSlotsUsed :: u64
  pr_blockIndexSize :: u64
  pr_blockIndexFront :: u64

section \<open>The block index\<close>

definition entry_at :: "ExplicitBlockIndexHeader \<Rightarrow> u64 \<Rightarrow> fault + (u64 \<times> nat option)" where
  "entry_at h i = (if unat i < length (hdr_entries h) then Inr (hdr_entries h ! unat i) else Inl Undefined_Behaviour)"

text \<open>The \<^verbatim>\<open>do\<close> loop of \<^verbatim>\<open>new_block_index\<close>; it visits a slot at most once.\<close>

fun copy_slots :: "nat \<Rightarrow> ExplicitBlockIndexHeader \<Rightarrow> u64 \<Rightarrow> u64 \<Rightarrow> u64 \<Rightarrow> fault + (u64 \<times> nat option) list" where
  "copy_slots 0 h prevBlockSizeMask front i = Inl Diverges"
| "copy_slots (Suc fuel) h prevBlockSizeMask front i =
     and_then (entry_at h i) (\<lambda>e.
       let i = (i + 1) AND prevBlockSizeMask
       in if i \<noteq> front then and_then (copy_slots fuel h prevBlockSizeMask front i) (\<lambda>es. Inr (e # es)) else Inr [e])"

definition filled_slots :: "ExplicitProducer \<Rightarrow> fault + (u64 \<times> nat option) list" where
  "filled_slots p =
     (if pr_blockIndexSlotsUsed p = 0 then Inr []
      else case ep_blockIndex p of
          [] \<Rightarrow> Inl Undefined_Behaviour
        | h # _ \<Rightarrow>
            copy_slots (length (hdr_entries h)) h (pr_blockIndexSize p - 1) (pr_blockIndexFront p)
              ((pr_blockIndexFront p - pr_blockIndexSlotsUsed p) AND (pr_blockIndexSize p - 1)))"

text \<open>The slots that are not filled hold whatever the memory holds.\<close>

definition raw_slots :: "alloc_env \<Rightarrow> nat \<Rightarrow> (u64 \<times> nat option) list" where
  "raw_slots env n = map (\<lambda>i. (case raw_value env i of None \<Rightarrow> 0 | Some v \<Rightarrow> of_nat v, raw_value env i)) [0..<n]"

definition EP_new_block_index ::
  "alloc_env \<Rightarrow> u64 \<Rightarrow> 'a BlockPool \<Rightarrow> ExplicitProducer \<Rightarrow> fault + 'a BlockPool \<times> ExplicitProducer \<times> bool" where
  "EP_new_block_index env numberOfFilledSlotsToExpose q p =
     (let newSize = push_bit 1 (pr_blockIndexSize p)
      in case cq_malloc env q of (q, ok) \<Rightarrow>
        if \<not> ok then Inr (q, p, False)
        else and_then (filled_slots p) (\<lambda>es.
          let header = \<lparr>hdr_size = newSize, hdr_front = numberOfFilledSlotsToExpose - 1,
                        hdr_entries = es @ raw_slots env (unat newSize - length es)\<rparr>
          in Inr (q, p\<lparr>ep_blockIndex := header # ep_blockIndex p, pr_blockIndexSize := newSize,
                       pr_blockIndexFront := of_nat (length es)\<rparr>, True)))"

definition EXPLICIT_INITIAL_INDEX_SIZE :: u64 where
  "EXPLICIT_INITIAL_INDEX_SIZE = 32"

definition ExplicitProducer_init :: "alloc_env \<Rightarrow> 'a BlockPool \<Rightarrow> fault + 'a BlockPool \<times> ExplicitProducer" where
  "ExplicitProducer_init env q =
     (let poolBasedIndexSize = drop_bit 1 (ceil_to_pow_2 (initialBlockPoolSize q));
          size = drop_bit 1 EXPLICIT_INITIAL_INDEX_SIZE;
          size = (if poolBasedIndexSize > size then poolBasedIndexSize else size)
      in and_then (EP_new_block_index env 0 q
                     \<lparr>ep_tailIndex = 0, ep_headIndex = 0, ep_dequeueOptimisticCount = 0, ep_dequeueOvercommit = 0,
                      ep_tailBlock = None, ep_blockIndex = [], pr_blockIndexSlotsUsed = 0, pr_blockIndexSize = size,
                      pr_blockIndexFront = 0\<rparr>) (\<lambda>(q, p, _). Inr (q, p)))"

section \<open>Enqueue\<close>

text \<open>The block ahead of the tail block, if it is empty.\<close>

definition empty_ahead :: "'a BlockPool \<Rightarrow> ExplicitProducer \<Rightarrow> fault + nat option" where
  "empty_ahead q p =
     (case ep_tailBlock p of
        None \<Rightarrow> Inr None
      | Some tb \<Rightarrow>
          and_then (next_of q tb) (\<lambda>n.
          and_then (deref q (Some n)) (\<lambda>blk.
          and_then (is_empty explicit_context blk) (\<lambda>e. Inr (if e then Some n else None)))))"

definition index_room ::
  "alloc_env \<Rightarrow> AllocationMode \<Rightarrow> 'a BlockPool \<Rightarrow> ExplicitProducer \<Rightarrow> fault + 'a BlockPool \<times> ExplicitProducer \<times> bool" where
  "index_room env allocMode q p =
     (if ep_blockIndex p = [] \<or> pr_blockIndexSlotsUsed p = pr_blockIndexSize p
      then if allocMode = CannotAlloc then Inr (q, p, False)
           else EP_new_block_index env (pr_blockIndexSlotsUsed p) q p
      else Inr (q, p, True))"

text \<open>Mark a new block and link it in after the tail block.\<close>

definition link_block ::
  "('a Block \<Rightarrow> 'a Block) \<Rightarrow> 'a BlockPool \<Rightarrow> ExplicitProducer \<Rightarrow> nat \<Rightarrow> fault + 'a BlockPool \<times> ExplicitProducer" where
  "link_block mark q p newBlock =
     and_then (deref q (Some newBlock)) (\<lambda>blk.
       let blk = mark blk;
           p' = p\<lparr>ep_tailBlock := Some newBlock, pr_blockIndexSlotsUsed := pr_blockIndexSlotsUsed p + 1\<rparr>
       in case ep_tailBlock p of
            None \<Rightarrow> Inr (put_block q newBlock (blk\<lparr>next_block := Some newBlock\<rparr>), p')
          | Some tb \<Rightarrow>
              and_then (deref q (Some tb)) (\<lambda>tblk.
                Inr (put_block (put_block q newBlock (blk\<lparr>next_block := next_block tblk\<rparr>)) tb
                       (tblk\<lparr>next_block := Some newBlock\<rparr>), p')))"

text \<open>A tail block for the first index of a block; \<open>False\<close> is the return before anything is enqueued.\<close>

definition EP_start_block ::
  "alloc_env \<Rightarrow> AllocationMode \<Rightarrow> 'a BlockPool \<Rightarrow> ExplicitProducer \<Rightarrow> fault + 'a BlockPool \<times> ExplicitProducer \<times> bool" where
  "EP_start_block env allocMode q p =
     and_then (empty_ahead q p) (\<lambda>ahead.
       case ahead of
         Some n \<Rightarrow>
           and_then (deref q (Some n)) (\<lambda>blk.
             Inr (put_block q n (reset_empty explicit_context blk), p\<lparr>ep_tailBlock := Some n\<rparr>, True))
       | None \<Rightarrow>
           let head = ep_headIndex p; currentTailIndex = ep_tailIndex p
           in if circular_less_than currentTailIndex head then Inl Assertion_Failed
              else if subqueue_full head currentTailIndex then Inr (q, p, False)
              else and_then (index_room env allocMode q p) (\<lambda>(q, p, ok).
                if \<not> ok then Inr (q, p, False)
                else and_then (requisition_block env allocMode q) (\<lambda>(q, newBlock).
                  case newBlock of
                    None \<Rightarrow> Inr (q, p, False)
                  | Some b \<Rightarrow> and_then (link_block (reset_empty explicit_context) q p b) (\<lambda>(q, p). Inr (q, p, True)))))"

text \<open>Construct an element in the tail block, and add the tail block to the block index.\<close>

definition construct_in_tail :: "'a BlockPool \<Rightarrow> ExplicitProducer \<Rightarrow> 'a \<Rightarrow> fault + 'a BlockPool" where
  "construct_in_tail q p element =
     (case ep_tailBlock p of
        None \<Rightarrow> Inl Undefined_Behaviour
      | Some b \<Rightarrow> and_then (deref q (Some b)) (\<lambda>blk. Inr (put_block q b (block_construct blk (ep_tailIndex p) element))))"

definition add_to_block_index :: "ExplicitProducer \<Rightarrow> fault + ExplicitProducer" where
  "add_to_block_index p =
     (case ep_blockIndex p of
        [] \<Rightarrow> Inl Undefined_Behaviour
      | h # hs \<Rightarrow>
          if unat (pr_blockIndexFront p) < length (hdr_entries h)
          then Inr (p\<lparr>ep_blockIndex :=
                        h\<lparr>hdr_entries := (hdr_entries h)[unat (pr_blockIndexFront p) := (ep_tailIndex p, ep_tailBlock p)],
                          hdr_front := pr_blockIndexFront p\<rparr> # hs,
                      pr_blockIndexFront := (pr_blockIndexFront p + 1) AND (pr_blockIndexSize p - 1)\<rparr>)
          else Inl Undefined_Behaviour)"

definition EP_enqueue ::
  "alloc_env \<Rightarrow> AllocationMode \<Rightarrow> bool \<Rightarrow> 'a \<Rightarrow> 'a BlockPool \<Rightarrow> ExplicitProducer \<Rightarrow>
     fault + 'a BlockPool \<times> ExplicitProducer \<times> enqueue_result" where
  "EP_enqueue env allocMode ctor_ok element q p =
     (let currentTailIndex = ep_tailIndex p;
          newTailIndex = 1 + currentTailIndex
      in if currentTailIndex AND (BLOCK_SIZE - 1) = 0 then
           let startBlock = ep_tailBlock p;
               originalBlockIndexSlotsUsed = pr_blockIndexSlotsUsed p
           in and_then (EP_start_block env allocMode q p) (\<lambda>(q, p, ok).
                if \<not> ok then Inr (q, p, Not_Enqueued)
                else if ctor_ok then
                  and_then (construct_in_tail q p element) (\<lambda>q.
                  and_then (add_to_block_index p) (\<lambda>p. Inr (q, p\<lparr>ep_tailIndex := newTailIndex\<rparr>, Enqueued)))
                else
                  Inr (q, p\<lparr>pr_blockIndexSlotsUsed := originalBlockIndexSlotsUsed,
                            ep_tailBlock := (if startBlock = None then ep_tailBlock p else startBlock)\<rparr>, Constructor_Threw))
         else if ctor_ok then and_then (construct_in_tail q p element) (\<lambda>q. Inr (q, p\<lparr>ep_tailIndex := newTailIndex\<rparr>, Enqueued))
         else Inr (q, p, Constructor_Threw))"

section \<open>Dequeue\<close>

text \<open>The slot of the block index for an index.\<close>

definition EP_lookup :: "ExplicitProducer \<Rightarrow> u64 \<Rightarrow> fault + ExplicitBlockIndexHeader \<times> u64" where
  "EP_lookup p i =
     (case ep_blockIndex p of
        [] \<Rightarrow> Inl Undefined_Behaviour
      | localBlockIndex # _ \<Rightarrow>
          let localBlockIndexHead = hdr_front localBlockIndex
          in and_then (entry_at localBlockIndex localBlockIndexHead) (\<lambda>e.
               let headBase = fst e;
                   blockBaseIndex = i AND NOT (BLOCK_SIZE - 1);
                   offset = (blockBaseIndex - headBase) div BLOCK_SIZE
               in Inr (localBlockIndex, (localBlockIndexHead + offset) AND (hdr_size localBlockIndex - 1))))"

definition entry_block :: "ExplicitBlockIndexHeader \<Rightarrow> u64 \<Rightarrow> fault + nat" where
  "entry_block h i = and_then (entry_at h i) (\<lambda>e. case snd e of None \<Rightarrow> Inl Undefined_Behaviour | Some b \<Rightarrow> Inr b)"

definition EP_dequeue :: "'a BlockPool \<Rightarrow> ExplicitProducer \<Rightarrow> fault + 'a BlockPool \<times> ExplicitProducer \<times> 'a option" where
  "EP_dequeue q p =
     (let tail = ep_tailIndex p;
          overcommit = ep_dequeueOvercommit p
      in if circular_less_than (ep_dequeueOptimisticCount p - overcommit) tail then
           let myDequeueCount = ep_dequeueOptimisticCount p;
               p = p\<lparr>ep_dequeueOptimisticCount := myDequeueCount + 1\<rparr>;
               tail = ep_tailIndex p
           in if circular_less_than (myDequeueCount - overcommit) tail then
                let idx = ep_headIndex p;
                    p = p\<lparr>ep_headIndex := idx + 1\<rparr>
                in and_then (EP_lookup p idx) (\<lambda>(localBlockIndex, i).
                   and_then (entry_block localBlockIndex i) (\<lambda>block.
                   and_then (deref q (Some block)) (\<lambda>blk.
                   and_then (block_get blk idx) (\<lambda>el.
                   and_then (set_empty explicit_context idx (block_destroy blk idx)) (\<lambda>(blk, _).
                     Inr (put_block q block blk, p, Some el))))))
              else Inr (q, p\<lparr>ep_dequeueOvercommit := ep_dequeueOvercommit p + 1\<rparr>, None)
         else Inr (q, p, None))"

section \<open>The destructor\<close>

text \<open>The slot of the block that is partly dequeued: the loop visits a slot at most once.\<close>

fun half_slot :: "nat \<Rightarrow> ExplicitBlockIndexHeader \<Rightarrow> u64 \<Rightarrow> u64 \<Rightarrow> u64 \<Rightarrow> fault + (u64 \<times> nat option)" where
  "half_slot 0 h msk head i = Inl Diverges"
| "half_slot (Suc fuel) h msk head i =
     and_then (entry_at h i) (\<lambda>e.
       if circular_less_than (fst e + BLOCK_SIZE) head then half_slot fuel h msk head ((i + 1) AND msk) else Inr e)"

definition halfDequeuedBlock :: "ExplicitProducer \<Rightarrow> fault + nat option" where
  "halfDequeuedBlock p =
     (if ep_headIndex p AND (BLOCK_SIZE - 1) = 0 then Inr None
      else case ep_blockIndex p of
          [] \<Rightarrow> Inl Undefined_Behaviour
        | h # _ \<Rightarrow>
            and_then (half_slot (length (hdr_entries h)) h (pr_blockIndexSize p - 1) (ep_headIndex p)
                        ((pr_blockIndexFront p - pr_blockIndexSlotsUsed p) AND (pr_blockIndexSize p - 1))) (\<lambda>e.
              if circular_less_than (fst e) (ep_headIndex p) then Inr (snd e) else Inl Assertion_Failed))"

text \<open>Destroy the elements of one block from slot \<open>i\<close> on, which needs them to be constructed.\<close>

fun destroy_slots :: "nat \<Rightarrow> 'a Block \<Rightarrow> nat \<Rightarrow> nat \<Rightarrow> fault + 'a Block" where
  "destroy_slots fuel blk i stop =
     (if i = stop \<or> i = 32 then Inr blk
      else case fuel of
          0 \<Rightarrow> Inl Diverges
        | Suc fuel \<Rightarrow>
            and_then (block_get blk (of_nat i)) (\<lambda>_. destroy_slots fuel (block_destroy blk (of_nat i)) (Suc i) stop))"

declare destroy_slots.simps [simp del]

text \<open>Where the elements of a block start and end: the half dequeued block and the tail block are special.\<close>

definition first_slot :: "ExplicitProducer \<Rightarrow> nat option \<Rightarrow> nat \<Rightarrow> nat" where
  "first_slot p half block = (if Some block = half then unat (ep_headIndex p AND (BLOCK_SIZE - 1)) else 0)"

definition stop_slot :: "ExplicitProducer \<Rightarrow> nat \<Rightarrow> nat" where
  "stop_slot p block =
     (let lastValidIndex = (if ep_tailIndex p AND (BLOCK_SIZE - 1) = 0 then 32 else unat (ep_tailIndex p AND (BLOCK_SIZE - 1)))
      in if Some block = ep_tailBlock p then lastValidIndex else 32)"

definition destroy_block :: "ExplicitProducer \<Rightarrow> nat option \<Rightarrow> 'a BlockPool \<Rightarrow> nat \<Rightarrow> fault + 'a BlockPool" where
  "destroy_block p half q block =
     and_then (deref q (Some block)) (\<lambda>blk.
     and_then (is_empty explicit_context blk) (\<lambda>e.
       if e then Inr q
       else and_then (destroy_slots 32 blk (first_slot p half block) (stop_slot p block)) (\<lambda>blk. Inr (put_block q block blk))))"

text \<open>The loop over the circle, from the block after the tail block to the tail block; it has as many blocks as the pool at most.\<close>

fun destroy_circle :: "nat \<Rightarrow> ExplicitProducer \<Rightarrow> nat option \<Rightarrow> 'a BlockPool \<Rightarrow> nat \<Rightarrow> fault + 'a BlockPool" where
  "destroy_circle 0 p half q block = Inl Diverges"
| "destroy_circle (Suc fuel) p half q block =
     and_then (next_of q block) (\<lambda>block.
     and_then (destroy_block p half q block) (\<lambda>q.
       if Some block \<noteq> ep_tailBlock p then destroy_circle fuel p half q block else Inr q))"

text \<open>The loop that gives the blocks up: an allocated one is deleted, one of the initial pool goes to the free list.\<close>

fun release_circle :: "nat \<Rightarrow> nat \<Rightarrow> 'a BlockPool \<Rightarrow> nat \<Rightarrow> fault + 'a BlockPool" where
  "release_circle 0 tail_block q block = Inl Diverges"
| "release_circle (Suc fuel) tail_block q block =
     and_then (next_of q block) (\<lambda>nextBlock.
     and_then (deref q (Some block)) (\<lambda>blk.
     and_then (if dynamicallyAllocated blk then Inr q else add_block_to_free_list q block) (\<lambda>q.
     if nextBlock \<noteq> tail_block then release_circle fuel tail_block q nextBlock else Inr q)))"

definition ExplicitProducer_destroy :: "'a BlockPool \<Rightarrow> ExplicitProducer \<Rightarrow> fault + 'a BlockPool" where
  "ExplicitProducer_destroy q p =
     (case ep_tailBlock p of
        None \<Rightarrow> Inr q
      | Some tb \<Rightarrow>
          and_then (halfDequeuedBlock p) (\<lambda>half.
          and_then (destroy_circle (length (blocks q)) p half q tb) (\<lambda>q.
            release_circle (length (blocks q)) tb q tb)))"

section \<open>The invariant of the block index\<close>

text \<open>The slot \<open>j + 1\<close> places before the next one to fill.\<close>

definition eback :: "nat \<Rightarrow> nat \<Rightarrow> nat \<Rightarrow> nat" where
  "eback k f j = (f + (2 ^ k - Suc j)) mod 2 ^ k"

lemma eback_less: "eback k f j < 2 ^ k"
  by (simp add: eback_def)

lemma eback_Suc:
  assumes "f < 2 ^ k" "Suc j < 2 ^ k"
  shows "eback k ((f + 1) mod 2 ^ k) 0 = f" "eback k ((f + 1) mod 2 ^ k) (Suc j) = eback k f j" "eback k f j \<noteq> f"
proof -
  have "(0::nat) < 2 ^ k" by simp
  then have one: "(1::nat) \<le> 2 ^ k" by linarith
  have "eback k ((f + 1) mod 2 ^ k) 0 = (f + 1 + (2 ^ k - 1)) mod 2 ^ k" by (simp only: eback_def mod_add_left_eq) simp
  also have "f + 1 + (2 ^ k - 1) = f + 2 ^ k" using one by simp
  finally show "eback k ((f + 1) mod 2 ^ k) 0 = f" using assms(1) by simp
  have "eback k ((f + 1) mod 2 ^ k) (Suc j) = (f + 1 + (2 ^ k - Suc (Suc j))) mod 2 ^ k" by (simp only: eback_def mod_add_left_eq)
  also have "f + 1 + (2 ^ k - Suc (Suc j)) = f + (2 ^ k - Suc j)" using assms(2) by simp
  finally show "eback k ((f + 1) mod 2 ^ k) (Suc j) = eback k f j" by (simp only: eback_def)
  show "eback k f j \<noteq> f" unfolding eback_def using ring_pos_eq [OF assms] assms by (simp split: if_splits)
qed

text \<open>
  The last slots filled are those of the blocks \<open>bs\<close>; \<open>m\<close> blocks have been started. The ring has at most \<open>2 ^ 59\<close> slots.
\<close>

definition eslots_ok :: "ExplicitBlockIndexHeader \<Rightarrow> nat \<Rightarrow> u64 \<Rightarrow> nat \<Rightarrow> nat list \<Rightarrow> bool" where
  "eslots_ok h k front m bs \<longleftrightarrow>
     hdr_size h = 2 ^ k \<and> length (hdr_entries h) = 2 ^ k \<and> (bs \<noteq> [] \<longrightarrow> hdr_front h = (front - 1) AND (2 ^ k - 1)) \<and>
     (\<forall>j < length bs. hdr_entries h ! eback k (unat front) j = (of_nat (32 * (m - 1 - j)), Some (bs ! (length bs - 1 - j))))"

definition eindex_ok :: "ExplicitProducer \<Rightarrow> nat \<Rightarrow> nat list \<Rightarrow> bool" where
  "eindex_ok p m bs \<longleftrightarrow>
     (\<exists>k. k \<le> 59 \<and> pr_blockIndexSize p = 2 ^ k \<and> length bs \<le> unat (pr_blockIndexSlotsUsed p) \<and> unat (pr_blockIndexSlotsUsed p) \<le> 2 ^ k \<and>
        unat (pr_blockIndexFront p) < 2 ^ k \<and>
        (case ep_blockIndex p of
           [] \<Rightarrow> k \<le> 58 \<and> pr_blockIndexSlotsUsed p = 0
         | h # _ \<Rightarrow> eslots_ok h k (pr_blockIndexFront p) m bs))"

lemma unat_mask_add:
  assumes "k \<le> 59" "unat i < 2 ^ k"
  shows "unat ((i + 1) AND (2 ^ k - 1) :: u64) = (unat i + 1) mod 2 ^ k"
proof -
  have "(2::nat) ^ k \<le> 2 ^ 59" using assms(1) by (intro power_increasing) simp_all
  then have "unat i + 1 < 2 ^ 64" using assms(2) by simp
  then show ?thesis by (simp add: and_pow2_minus_one unat_word_ariths)
qed

lemma unat_mask_sub:
  assumes "k \<le> 59" "unat f < 2 ^ k" "unat n \<le> 2 ^ k"
  shows "unat ((f - n) AND (2 ^ k - 1) :: u64) = (unat f + (2 ^ k - unat n)) mod 2 ^ k"
proof -
  have split: "(2::nat) ^ 64 = 2 ^ k * 2 ^ (64 - k)" using assms(1) by (simp flip: power_add)
  show ?thesis
  proof (cases "n \<le> f")
    case True
    then have le: "unat n \<le> unat f" by (simp add: word_le_nat_alt)
    then have "unat f + (2 ^ k - unat n) = (unat f - unat n) + 2 ^ k" using assms(3) by simp
    then have "(unat f + (2 ^ k - unat n)) mod 2 ^ k = (unat f - unat n) mod 2 ^ k" by (simp only: mod_add_self2)
    then show ?thesis using True by (simp only: and_pow2_minus_one unat_sub)
  next
    case False
    then have lt: "unat f < unat n" by (simp add: word_le_nat_alt)
    have b: "unat n < 2 ^ 64" using unsigned_less [of n, where ?'a = nat] by simp
    have "unat (f - n) = unat f + 2 ^ 64 - unat n" using unat_of_nat_diff_neg [of "unat f" "unat n", where 'a = 64] lt b by simp
    also have "\<dots> = unat f + (2 ^ k - unat n) + 2 ^ k * (2 ^ (64 - k) - 1)"
      using assms(3) lt b unfolding split by (simp add: diff_mult_distrib2)
    finally show ?thesis by (simp add: and_pow2_minus_one)
  qed
qed

lemma copy_slots_spec:
  assumes "k \<le> 59" "length (hdr_entries h) = 2 ^ k" "0 < n" "n \<le> 2 ^ k" "n \<le> fuel" "unat i < 2 ^ k" "(unat i + n) mod 2 ^ k = unat front"
  shows "copy_slots fuel h (2 ^ k - 1) front i = Inr (map (\<lambda>j. hdr_entries h ! ((unat i + j) mod 2 ^ k)) [0..<n])"
  using assms(3-)
proof (induction fuel arbitrary: n i)
  case (Suc fuel)
  let ?i = "(i + 1) AND (2 ^ k - 1)"
  have i: "unat ?i = (unat i + 1) mod 2 ^ k" by (rule unat_mask_add [OF assms(1) Suc.prems(4)])
  obtain m where n: "n = Suc m" using Suc.prems(1) by (cases n) auto
  have first: "hdr_entries h ! unat i = hdr_entries h ! ((unat i + 0) mod 2 ^ k)" using Suc.prems(4) by simp
  show ?case
  proof (cases "m = 0")
    case True
    then have "?i = front" using Suc.prems(5) n i by (simp add: word_unat_eq_iff)
    then show ?thesis using Suc.prems(4) True n assms(2) by (simp add: entry_at_def)
  next
    case False
    have "?i \<noteq> front"
    proof
      assume "?i = front"
      then have "(unat i + 1 + m) mod 2 ^ k = (unat i + 1) mod 2 ^ k" using Suc.prems(5) i n by simp
      then have "2 ^ k dvd m" using mod_eq_dvd_iff_nat [of "unat i + 1" "unat i + 1 + m" "2 ^ k"] by simp
      then show False using Suc.prems(2) False n by (auto dest: dvd_imp_le)
    qed
    moreover have "(unat ?i + m) mod 2 ^ k = unat front" using Suc.prems(5) n unfolding i by (simp add: mod_add_left_eq)
    then have "copy_slots fuel h (2 ^ k - 1) front ?i = Inr (map (\<lambda>j. hdr_entries h ! ((unat ?i + j) mod 2 ^ k)) [0..<m])"
      using Suc.prems n False i by (intro Suc.IH) simp_all
    moreover have "(unat ?i + j) mod 2 ^ k = (unat i + Suc j) mod 2 ^ k" for j unfolding i by (simp add: mod_add_left_eq)
    ultimately show ?thesis
      using first Suc.prems(4) assms(2) unfolding n upt_conv_Cons [OF zero_less_Suc] map_Suc_upt [symmetric]
      by (simp add: entry_at_def o_def)
  qed
qed simp

lemma filled_slots_spec:
  assumes "ep_blockIndex p = h # hs" "pr_blockIndexSize p = 2 ^ k" "k \<le> 59" "length (hdr_entries h) = 2 ^ k"
    "unat (pr_blockIndexFront p) < 2 ^ k" "unat (pr_blockIndexSlotsUsed p) \<le> 2 ^ k"
  shows "filled_slots p = Inr (rev (map (\<lambda>j. hdr_entries h ! eback k (unat (pr_blockIndexFront p)) j) [0..<unat (pr_blockIndexSlotsUsed p)]))"
proof (cases "pr_blockIndexSlotsUsed p = 0")
  case False
  let ?f = "unat (pr_blockIndexFront p)" and ?u = "unat (pr_blockIndexSlotsUsed p)"
  have u: "0 < ?u" using False by (simp add: word_neq_0_conv word_less_nat_alt)
  let ?i = "(pr_blockIndexFront p - pr_blockIndexSlotsUsed p) AND (2 ^ k - 1)"
  have i: "unat ?i = (?f + (2 ^ k - ?u)) mod 2 ^ k" by (rule unat_mask_sub [OF assms(3,5,6)])
  have "(unat ?i + ?u) mod 2 ^ k = (?f + (2 ^ k - ?u) + ?u) mod 2 ^ k" unfolding i by (rule mod_add_left_eq)
  also have "?f + (2 ^ k - ?u) + ?u = ?f + 2 ^ k" using assms(6) by simp
  finally have "(unat ?i + ?u) mod 2 ^ k = ?f" using assms(5) by simp
  then have "filled_slots p = Inr (map (\<lambda>j. hdr_entries h ! ((unat ?i + j) mod 2 ^ k)) [0..<?u])"
    using copy_slots_spec [OF assms(3,4) u assms(6), of "2 ^ k" ?i] False assms i by (simp add: filled_slots_def)
  also have "map (\<lambda>j. hdr_entries h ! ((unat ?i + j) mod 2 ^ k)) [0..<?u] = rev (map (\<lambda>j. hdr_entries h ! eback k ?f j) [0..<?u])"
  proof (rule nth_equalityI)
    fix j
    assume "j < length (map (\<lambda>j. hdr_entries h ! ((unat ?i + j) mod 2 ^ k)) [0..<?u])"
    then have j: "j < ?u" by simp
    have "(unat ?i + j) mod 2 ^ k = (?f + (2 ^ k - ?u) + j) mod 2 ^ k" unfolding i by (rule mod_add_left_eq)
    also have "?f + (2 ^ k - ?u) + j = ?f + (2 ^ k - Suc (?u - Suc j))" using j assms(6) by simp
    finally show "map (\<lambda>j. hdr_entries h ! ((unat ?i + j) mod 2 ^ k)) [0..<?u] ! j = rev (map (\<lambda>j. hdr_entries h ! eback k ?f j) [0..<?u]) ! j"
      using j by (simp add: rev_nth eback_def)
  qed simp
  finally show ?thesis .
qed (simp add: filled_slots_def)

text \<open>Doubling the ring, when it is full or was never allocated.\<close>

lemma EP_new_block_index_spec:
  assumes ok: "eindex_ok p m bs" and full: "ep_blockIndex p = [] \<or> pr_blockIndexSlotsUsed p = pr_blockIndexSize p"
    and small: "unat (pr_blockIndexSlotsUsed p) < 2 ^ 58"
  shows "\<exists>p' r. EP_new_block_index env (pr_blockIndexSlotsUsed p) q p = Inr (q\<lparr>mallocs := mallocs q + 1\<rparr>, p', r) \<and>
     r = malloc_ok env (mallocs q) \<and> eindex_ok p' m bs \<and> (\<exists>ix n f. p' = p\<lparr>ep_blockIndex := ix, pr_blockIndexSize := n, pr_blockIndexFront := f\<rparr>) \<and>
     (r \<longrightarrow> ep_blockIndex p' \<noteq> [] \<and> unat (pr_blockIndexSlotsUsed p') < unat (pr_blockIndexSize p'))"
proof (cases "malloc_ok env (mallocs q)")
  case False
  have "p = p\<lparr>ep_blockIndex := ep_blockIndex p, pr_blockIndexSize := pr_blockIndexSize p, pr_blockIndexFront := pr_blockIndexFront p\<rparr>" by simp
  then have same: "\<exists>ix n f. p = p\<lparr>ep_blockIndex := ix, pr_blockIndexSize := n, pr_blockIndexFront := f\<rparr>" by blast
  have "EP_new_block_index env (pr_blockIndexSlotsUsed p) q p = Inr (q\<lparr>mallocs := mallocs q + 1\<rparr>, p, False)"
    using False by (simp add: EP_new_block_index_def cq_malloc_def Let_def)
  then show ?thesis using False ok same by blast
next
  case True
  let ?f = "unat (pr_blockIndexFront p)" and ?u = "unat (pr_blockIndexSlotsUsed p)"
  obtain k where k: "pr_blockIndexSize p = 2 ^ k" "length bs \<le> ?u" "?u \<le> 2 ^ k" "?f < 2 ^ k" "k \<le> 59"
    and ix: "case ep_blockIndex p of [] \<Rightarrow> k \<le> 58 \<and> pr_blockIndexSlotsUsed p = 0 | h # _ \<Rightarrow> eslots_ok h k (pr_blockIndexFront p) m bs"
    using ok unfolding eindex_ok_def by blast
  have k58: "k \<le> 58"
  proof (cases "ep_blockIndex p")
    case (Cons h hs)
    then have "?u = 2 ^ k" using full k(1,5) by (simp add: unat_pow2)
    then have "(2::nat) ^ k < 2 ^ 58" using small by (simp only:)
    from power_less_imp_less_exp [OF _ this] show ?thesis by simp
  qed (use ix in simp)
  obtain es where es: "filled_slots p = Inr es" "length es = ?u"
    "\<And>j. j < length bs \<Longrightarrow> es ! (?u - Suc j) = (of_nat (32 * (m - 1 - j)), Some (bs ! (length bs - 1 - j)))"
  proof (cases "ep_blockIndex p")
    case Nil
    then show ?thesis using that [of "[]"] ix k(2) by (simp add: filled_slots_def)
  next
    case (Cons h hs)
    have "filled_slots p = Inr (rev (map (\<lambda>j. hdr_entries h ! eback k ?f j) [0..<?u]))"
      using filled_slots_spec [OF Cons k(1,5)] ix Cons k by (simp add: eslots_ok_def)
    then show ?thesis
      by (rule that) (use ix Cons k(2) in \<open>simp_all add: rev_nth Suc_diff_Suc eslots_ok_def\<close>)
  qed
  have size: "push_bit 1 (pr_blockIndexSize p) = 2 ^ Suc k" by (simp add: k(1) push_bit_eq_mult)
  have unat: "unat (2 ^ Suc k :: u64) = 2 ^ Suc k" using k58 by (intro unat_pow2) simp
  let ?h = "\<lparr>hdr_size = 2 ^ Suc k, hdr_front = pr_blockIndexSlotsUsed p - 1, hdr_entries = es @ raw_slots env (2 ^ Suc k - ?u)\<rparr>"
  let ?p = "p\<lparr>ep_blockIndex := ?h # ep_blockIndex p, pr_blockIndexSize := 2 ^ Suc k, pr_blockIndexFront := pr_blockIndexSlotsUsed p\<rparr>"
  have run: "EP_new_block_index env (pr_blockIndexSlotsUsed p) q p = Inr (q\<lparr>mallocs := mallocs q + 1\<rparr>, ?p, True)"
    unfolding EP_new_block_index_def size using True es(1,2) unat by (simp add: cq_malloc_def Let_def del: power_Suc)
  have room: "?u < 2 ^ Suc k"
  proof -
    have "(2::nat) ^ k < 2 ^ Suc k" by simp
    then show ?thesis using k(3) by linarith
  qed
  have "hdr_entries ?h ! eback (Suc k) ?u j = (of_nat (32 * (m - 1 - j)), Some (bs ! (length bs - 1 - j)))" if j: "j < length bs" for j
  proof -
    have "eback (Suc k) ?u j = ?u - Suc j"
      unfolding eback_def using ring_pos_eq [OF room, of "Suc j"] j k(2) room by simp
    then show ?thesis using es(2,3) j k(2) by (simp add: nth_append)
  qed
  moreover have "pr_blockIndexSlotsUsed p - 1 = (pr_blockIndexSlotsUsed p - 1) AND (2 ^ Suc k - 1)" if "bs \<noteq> []"
  proof -
    have "0 < ?u" using that k(2) by (cases bs) auto
    then have "unat (pr_blockIndexSlotsUsed p - 1) = ?u - 1" by (metis gr_implies_not0 unat_0 unat_minus_one)
    then show ?thesis using room by (simp add: word_unat_eq_iff and_pow2_minus_one del: power_Suc)
  qed
  moreover have "length (hdr_entries ?h) = 2 ^ Suc k" using es(2) room by (simp add: raw_slots_def)
  ultimately have "eslots_ok ?h (Suc k) (pr_blockIndexSlotsUsed p) m bs" by (simp add: eslots_ok_def del: power_Suc)
  then have "eindex_ok ?p m bs"
    unfolding eindex_ok_def using k(2) k58 room by (intro exI [of _ "Suc k"]) (simp del: power_Suc)
  then show ?thesis using run True unat room by (intro exI [of _ ?p] exI [of _ True]) (simp del: power_Suc, blast)
qed

lemma add_to_block_index_spec:
  assumes ok: "eindex_ok p m bs" and room: "ep_blockIndex p \<noteq> []" "length bs < unat (pr_blockIndexSlotsUsed p)"
    and new: "ep_tailIndex p = of_nat (32 * m)" "ep_tailBlock p = Some b"
  shows "\<exists>ix f. add_to_block_index p = Inr (p\<lparr>ep_blockIndex := ix, pr_blockIndexFront := f\<rparr>) \<and>
     eindex_ok (p\<lparr>ep_blockIndex := ix, pr_blockIndexFront := f\<rparr>) (Suc m) (bs @ [b]) \<and> ix \<noteq> []"
proof -
  let ?f = "unat (pr_blockIndexFront p)"
  obtain h hs where h: "ep_blockIndex p = h # hs" using room(1) by (cases "ep_blockIndex p") auto
  obtain k where k: "k \<le> 59" "pr_blockIndexSize p = 2 ^ k" "unat (pr_blockIndexSlotsUsed p) \<le> 2 ^ k" "?f < 2 ^ k"
    "eslots_ok h k (pr_blockIndexFront p) m bs"
    using ok h unfolding eindex_ok_def by auto
  have len: "length (hdr_entries h) = 2 ^ k" using k(5) by (simp add: eslots_ok_def)
  let ?front = "(pr_blockIndexFront p + 1) AND (2 ^ k - 1)"
  let ?h = "h\<lparr>hdr_entries := (hdr_entries h)[?f := (of_nat (32 * m), Some b)], hdr_front := pr_blockIndexFront p\<rparr>"
  have f: "unat ?front = (?f + 1) mod 2 ^ k" by (rule unat_mask_add [OF k(1,4)])
  have "hdr_entries ?h ! eback k (unat ?front) j = (of_nat (32 * (Suc m - 1 - j)), Some ((bs @ [b]) ! (length (bs @ [b]) - 1 - j)))"
    if j: "j < length (bs @ [b])" for j
  proof (cases j)
    case 0
    have "eback k (unat ?front) 0 = ?f"
    proof (cases "k = 0")
      case True
      then show ?thesis using k(4) by (simp add: eback_def)
    next
      case False
      then have "(1::nat) < 2 ^ k" by (intro one_less_power) simp_all
      then show ?thesis unfolding f using eback_Suc(1) [OF k(4), of 0] by simp
    qed
    then show ?thesis using 0 len k(4) by simp
  next
    case (Suc i)
    have i: "i < length bs" "Suc i < 2 ^ k" using j Suc room(2) k(3) by simp_all
    have "eback k (unat ?front) j = eback k ?f i" "eback k ?f i \<noteq> ?f" unfolding f Suc using eback_Suc(2,3) [OF k(4) i(2)] by simp_all
    moreover have "hdr_entries h ! eback k ?f i = (of_nat (32 * (m - 1 - i)), Some (bs ! (length bs - 1 - i)))"
      using k(5) i(1) by (simp add: eslots_ok_def)
    moreover have "length bs - Suc i < length bs" using i(1) by linarith
    ultimately show ?thesis using Suc by (simp add: nth_append)
  qed
  moreover have "pr_blockIndexFront p = (?front - 1) AND (2 ^ k - 1)"
  proof -
    have "unat (1 :: u64) \<le> 2 ^ k" by simp
    from unat_mask_sub [OF k(1) _ this, of ?front] f
    have "unat ((?front - 1) AND (2 ^ k - 1)) = ((?f + 1) mod 2 ^ k + (2 ^ k - 1)) mod 2 ^ k" by simp
    also have "\<dots> = (?f + 1 + (2 ^ k - 1)) mod 2 ^ k" by (rule mod_add_left_eq)
    also have "?f + 1 + (2 ^ k - 1) = ?f + 2 ^ k" using k(4) by simp
    finally show ?thesis using k(4) by (simp add: word_unat_eq_iff)
  qed
  ultimately have slots: "eslots_ok ?h k ?front (Suc m) (bs @ [b])" using k(5) by (simp add: eslots_ok_def)
  let ?p = "p\<lparr>ep_blockIndex := ?h # hs, pr_blockIndexFront := ?front\<rparr>"
  have "add_to_block_index p = Inr ?p" using h k(2,4) len new by (simp add: add_to_block_index_def)
  moreover have "eindex_ok ?p (Suc m) (bs @ [b])"
    unfolding eindex_ok_def using k slots room(2) f by (intro exI [of _ k]) simp
  ultimately show ?thesis by blast
qed

lemma EP_lookup_slot:
  assumes ok: "eindex_ok p m bs" and i: "i div 32 < m" "m - 1 - i div 32 < length bs"
  shows "\<exists>k f hdr idx. EP_lookup p (of_nat i) = Inr (hdr, idx) \<and> k \<le> 59 \<and> hdr_size hdr = 2 ^ k \<and> length (hdr_entries hdr) = 2 ^ k \<and>
     unat idx = eback k f (m - 1 - i div 32) \<and> length bs \<le> 2 ^ k \<and>
     (\<forall>j < length bs. hdr_entries hdr ! eback k f j = (of_nat (32 * (m - 1 - j)), Some (bs ! (length bs - 1 - j))))"
proof -
  let ?f = "unat (pr_blockIndexFront p)" and ?j = "m - 1 - i div 32"
  have "ep_blockIndex p \<noteq> []" using ok i(2) unfolding eindex_ok_def by (auto split: list.splits)
  then obtain h hs where h: "ep_blockIndex p = h # hs" by (cases "ep_blockIndex p") auto
  obtain k where k: "k \<le> 59" "length bs \<le> 2 ^ k" "?f < 2 ^ k" "eslots_ok h k (pr_blockIndexFront p) m bs"
    using ok h unfolding eindex_ok_def by auto
  have H: "hdr_size h = 2 ^ k" "length (hdr_entries h) = 2 ^ k" "hdr_front h = (pr_blockIndexFront p - 1) AND (2 ^ k - 1)"
    "\<forall>j < length bs. hdr_entries h ! eback k ?f j = (of_nat (32 * (m - 1 - j)), Some (bs ! (length bs - 1 - j)))"
    using k(4) i(2) by (auto simp: eslots_ok_def)
  have "unat (1 :: u64) \<le> 2 ^ k" by simp
  from unat_mask_sub [OF k(1,3) this] have front: "unat (hdr_front h) = eback k ?f 0" by (simp add: H(3) eback_def)
  then have fl: "unat (hdr_front h) < 2 ^ k" by (simp add: eback_less)
  have j: "?j < 2 ^ k" "?j \<le> m - 1" using i k(2) by simp_all
  have base: "(of_nat i AND NOT 31 :: u64) = of_nat (32 * (m - 1 - ?j))" unfolding block_base_of_nat using i(1) by simp
  let ?idx = "(hdr_front h + (of_nat (32 * (m - 1 - ?j)) - of_nat (32 * (m - 1))) div 32) AND (2 ^ k - 1)"
  have "unat ?idx = (unat (hdr_front h) + (2 ^ k - ?j)) mod 2 ^ k" using j k(1) fl by (intro ring_offset) simp_all
  also have "\<dots> = eback k ?f ?j"
  proof -
    have "(0::nat) < 2 ^ k" by simp
    then have "?f + (2 ^ k - 1) + (2 ^ k - ?j) = ?f + (2 ^ k - Suc ?j) + 2 ^ k" using j(1) by linarith
    then show ?thesis unfolding front eback_def by (simp add: mod_add_left_eq)
  qed
  finally have idx: "unat ?idx = eback k ?f ?j" .
  have "0 < length bs" using i(2) by linarith
  with H(4) have e0: "entry_at h (hdr_front h) = Inr (of_nat (32 * (m - 1)), Some (bs ! (length bs - 1)))"
    using front fl H(2) by (simp add: entry_at_def)
  have "EP_lookup p (of_nat i) = Inr (h, ?idx)"
    using h e0 base H(1) by (simp add: EP_lookup_def Let_def)
  then show ?thesis using idx k(1,2) H(1,2,4) by blast
qed

lemma EP_lookup_spec:
  assumes ok: "eindex_ok p m bs" and i: "i div 32 < m" "m - 1 - i div 32 < length bs"
  defines "j \<equiv> m - 1 - i div 32"
  shows "\<exists>h idx. EP_lookup p (of_nat i) = Inr (h, idx) \<and> entry_block h idx = Inr (bs ! (length bs - 1 - j))"
proof -
  obtain k f hdr idx where "EP_lookup p (of_nat i) = Inr (hdr, idx)" "length (hdr_entries hdr) = 2 ^ k" "unat idx = eback k f j"
     "\<forall>j < length bs. hdr_entries hdr ! eback k f j = (of_nat (32 * (m - 1 - j)), Some (bs ! (length bs - 1 - j)))"
    using EP_lookup_slot [OF ok i] unfolding j_def by blast
  then show ?thesis using i(2) eback_less [of k f j] by (simp add: entry_block_def entry_at_def j_def)
qed

lemma eindex_release: "eindex_ok p m (b # bs) \<Longrightarrow> eindex_ok p m bs"
  unfolding eindex_ok_def by (auto simp: eslots_ok_def nth_Cons' Suc_diff_le split: list.splits)

end
