(* ===== verification/CQ_Circle.thy ===== *)
theory CQ_Circle
  imports CQ_Explicit
begin

text \<open>
  The explicit producer as a first-in first-out queue. The circle of its blocks, from the block after the tail block on, is a
  group \<open>fs\<close> of blocks that hold no element, followed by the blocks \<open>bs\<close> that do, oldest first. Enqueuing takes a block
  from the front of the circle to its end, or adds one there; dequeuing the last element of a block moves the
  border between the groups.
\<close>

section \<open>Circles\<close>

definition circle :: "'a BlockPool \<Rightarrow> nat list \<Rightarrow> bool" where
  "circle q rs \<longleftrightarrow> map (\<lambda>b. next_block (blocks q ! b)) rs = map Some (rotate1 rs)"

lemma rotate1_inject: "rotate1 xs = rotate1 ys \<longleftrightarrow> xs = ys"
  by (cases xs; cases ys) auto

lemma circle_rotate: "circle q (rotate1 rs) = circle q rs"
  by (simp add: circle_def rotate1_map [symmetric] rotate1_inject)

lemma circle_swap: "circle q (rs @ ss) = circle q (ss @ rs)"
proof -
  have "circle q (rotate n rs) = circle q rs" for n and rs by (induction n) (simp_all add: circle_rotate)
  then show ?thesis by (metis rotate_append)
qed

lemma circle_cong:
  assumes "\<And>b. b \<in> set rs \<Longrightarrow> next_block (blocks q' ! b) = next_block (blocks q ! b)"
  shows "circle q' rs = circle q rs"
  using assms by (simp add: circle_def cong: map_cong)

lemma circle_put:
  assumes "b < length (blocks q)" "next_block blk = next_block (blocks q ! b)"
  shows "circle (put_block q b blk) rs = circle q rs"
  using assms by (intro circle_cong) (auto simp: nth_list_update)

lemma circle_last:
  assumes "circle q rs" "rs \<noteq> []"
  shows "next_block (blocks q ! last rs) = Some (hd rs)"
proof -
  have "next_block (blocks q ! last rs) = last (map (\<lambda>b. next_block (blocks q ! b)) rs)" using assms(2) by (simp add: last_map)
  also have "\<dots> = Some (hd rs)" using assms by (cases rs) (simp_all add: circle_def last_map)
  finally show ?thesis .
qed

lemma circle_insert:
  assumes "circle q rs" "rs \<noteq> []" "distinct rs" "next_block (blocks q' ! b) = Some (hd rs)" "next_block (blocks q' ! last rs) = Some b"
    "\<And>x. x \<in> set rs \<Longrightarrow> x \<noteq> last rs \<Longrightarrow> next_block (blocks q' ! x) = next_block (blocks q ! x)"
  shows "circle q' (b # rs)"
proof -
  obtain r rest where rs: "rs = r # rest" using assms(2) by (cases rs) auto
  have split: "rs = butlast rs @ [last rs]" using assms(2) by simp
  have "x \<noteq> last rs" if "x \<in> set (butlast rs)" for x
    using that assms(3) split by (metis distinct_append disjoint_iff list.set_intros(1))
  then have "map (\<lambda>x. next_block (blocks q' ! x)) (butlast rs) = map (\<lambda>x. next_block (blocks q ! x)) (butlast rs)"
    using assms(6) by (intro map_cong) (auto dest: in_set_butlastD)
  also have "\<dots> = butlast (map Some (rotate1 rs))" using assms(1) by (simp add: circle_def map_butlast)
  also have "\<dots> = map Some rest" by (simp add: rs butlast_append)
  finally have "map (\<lambda>x. next_block (blocks q' ! x)) (butlast rs) @ [Some b, Some r] = map Some (rotate1 (rs @ [b]))"
    by (simp add: rs)
  moreover have "map (\<lambda>x. next_block (blocks q' ! x)) (rs @ [b]) =
      map (\<lambda>x. next_block (blocks q' ! x)) (butlast rs) @ [Some b, Some r]"
    by (subst split) (simp add: assms(4,5), simp add: rs)
  ultimately have "circle q' (rotate1 (b # rs))" by (simp add: circle_def)
  then show ?thesis by (simp only: circle_rotate)
qed

section \<open>The slots of the block index\<close>

definition same_words :: "ExplicitProducer \<Rightarrow> ExplicitProducer \<Rightarrow> bool" where
  "same_words p p' \<longleftrightarrow> ep_tailIndex p' = ep_tailIndex p \<and> ep_headIndex p' = ep_headIndex p \<and>
     ep_dequeueOptimisticCount p' = ep_dequeueOptimisticCount p \<and> ep_dequeueOvercommit p' = ep_dequeueOvercommit p"

lemma eindex_ok_slots:
  assumes "eindex_ok p m bs" "ep_blockIndex p \<noteq> []" "length bs \<le> unat s" "unat s \<le> unat (pr_blockIndexSize p)"
  shows "eindex_ok (p\<lparr>ep_tailBlock := tb, pr_blockIndexSlotsUsed := s\<rparr>) m bs"
proof -
  obtain h hs where h: "ep_blockIndex p = h # hs" using assms(2) by (cases "ep_blockIndex p") auto
  then obtain k where k: "k \<le> 59" "pr_blockIndexSize p = 2 ^ k" "unat (pr_blockIndexFront p) < 2 ^ k"
    "eslots_ok h k (pr_blockIndexFront p) m bs"
    using assms(1) unfolding eindex_ok_def by auto
  have "unat (pr_blockIndexSize p) = 2 ^ k" using k(1,2) by (simp add: unat_pow2)
  then show ?thesis using k h assms(3,4) unfolding eindex_ok_def by (intro exI [of _ k]) simp
qed

lemma eindex_ok_cong:
  assumes "ep_blockIndex p' = ep_blockIndex p" "pr_blockIndexSize p' = pr_blockIndexSize p" "pr_blockIndexFront p' = pr_blockIndexFront p"
    "pr_blockIndexSlotsUsed p' = pr_blockIndexSlotsUsed p"
  shows "eindex_ok p' m bs = eindex_ok p m bs"
  unfolding eindex_ok_def assms ..

lemma eindex_ok_head:
  assumes "take 1 (ep_blockIndex p') = take 1 (ep_blockIndex p)" "pr_blockIndexSize p' = pr_blockIndexSize p"
    "pr_blockIndexFront p' = pr_blockIndexFront p" "pr_blockIndexSlotsUsed p' = pr_blockIndexSlotsUsed p"
  shows "eindex_ok p' m bs = eindex_ok p m bs"
  using assms(1) unfolding eindex_ok_def assms(2-4) by (cases "ep_blockIndex p"; cases "ep_blockIndex p'") auto

lemma eindex_ok_size: "eindex_ok p m bs \<Longrightarrow> unat (pr_blockIndexSlotsUsed p) \<le> unat (pr_blockIndexSize p)"
  unfolding eindex_ok_def by (auto simp: unat_pow2)

lemma eindex_ok_index: "eindex_ok p m bs \<Longrightarrow> 0 < unat (pr_blockIndexSlotsUsed p) \<Longrightarrow> ep_blockIndex p \<noteq> []"
  unfolding eindex_ok_def by auto

text \<open>The last \<open>u\<close> slots filled are right; those of the blocks \<open>bs\<close> are the last of them.\<close>

definition eslots :: "ExplicitProducer \<Rightarrow> nat \<Rightarrow> nat list \<Rightarrow> nat \<Rightarrow> bool" where
  "eslots p m bs u \<longleftrightarrow> (\<exists>cs. eindex_ok p m (cs @ bs) \<and> length (cs @ bs) = u \<and> u \<le> m)"

lemma eslots_slots:
  "eslots p m bs u \<Longrightarrow> ep_blockIndex p \<noteq> [] \<Longrightarrow> u \<le> unat s \<Longrightarrow> unat s \<le> unat (pr_blockIndexSize p) \<Longrightarrow>
     eslots (p\<lparr>ep_tailBlock := tb, pr_blockIndexSlotsUsed := s\<rparr>) m bs u"
  unfolding eslots_def using eindex_ok_slots by blast

lemma eslots_cong:
  assumes "ep_blockIndex p' = ep_blockIndex p" "pr_blockIndexSize p' = pr_blockIndexSize p" "pr_blockIndexFront p' = pr_blockIndexFront p"
    "pr_blockIndexSlotsUsed p' = pr_blockIndexSlotsUsed p"
  shows "eslots p' m bs u = eslots p m bs u"
  unfolding eslots_def eindex_ok_cong [OF assms] ..

lemma eslots_size: "eslots p m bs u \<Longrightarrow> unat (pr_blockIndexSlotsUsed p) \<le> unat (pr_blockIndexSize p)"
  unfolding eslots_def using eindex_ok_size by blast

lemma eslots_index: "eslots p m bs u \<Longrightarrow> 0 < unat (pr_blockIndexSlotsUsed p) \<Longrightarrow> ep_blockIndex p \<noteq> []"
  unfolding eslots_def using eindex_ok_index by blast

lemma eslots_release: "eslots p m (b # bs) u \<Longrightarrow> eslots p m bs u"
  unfolding eslots_def by (metis append.assoc append_Cons append_Nil)

lemma eslots_add:
  assumes ok: "eslots p m bs u" and slots: "u \<le> unat (pr_blockIndexSlotsUsed p)" "unat (pr_blockIndexSlotsUsed p) \<le> Suc u"
      "length bs < unat (pr_blockIndexSlotsUsed p)"
    and new: "ep_blockIndex p \<noteq> []" "ep_tailIndex p = of_nat (32 * m)" "ep_tailBlock p = Some b"
  shows "\<exists>ix f. add_to_block_index p = Inr (p\<lparr>ep_blockIndex := ix, pr_blockIndexFront := f\<rparr>) \<and>
     eslots (p\<lparr>ep_blockIndex := ix, pr_blockIndexFront := f\<rparr>) (Suc m) (bs @ [b]) (unat (pr_blockIndexSlotsUsed p))"
proof -
  obtain cs where cs: "eindex_ok p m (cs @ bs)" "length (cs @ bs) = u" "u \<le> m" using ok by (auto simp: eslots_def)
  obtain ds where ds: "eindex_ok p m (ds @ bs)" "Suc (length (ds @ bs)) = unat (pr_blockIndexSlotsUsed p)"
  proof (cases "unat (pr_blockIndexSlotsUsed p) = Suc u")
    case True
    then show ?thesis using that cs by simp
  next
    case False
    then have "length (cs @ bs) = unat (pr_blockIndexSlotsUsed p)" using cs(2) slots by linarith
    moreover from this obtain c ds where "cs = c # ds" using slots(3) by (cases cs) auto
    ultimately show ?thesis using that [of ds] cs(1) eindex_release [of p m c "ds @ bs"] by simp
  qed
  then have "length (ds @ bs) < unat (pr_blockIndexSlotsUsed p)" by linarith
  then obtain ix f where add: "add_to_block_index p = Inr (p\<lparr>ep_blockIndex := ix, pr_blockIndexFront := f\<rparr>)"
    "eindex_ok (p\<lparr>ep_blockIndex := ix, pr_blockIndexFront := f\<rparr>) (Suc m) ((ds @ bs) @ [b])"
    using add_to_block_index_spec [OF ds(1) new(1) _ new(2,3)] by blast
  then have "eslots (p\<lparr>ep_blockIndex := ix, pr_blockIndexFront := f\<rparr>) (Suc m) (bs @ [b]) (unat (pr_blockIndexSlotsUsed p))"
    unfolding eslots_def using ds(2) cs(3) slots(2) by (intro exI [of _ ds]) simp
  then show ?thesis using add(1) by blast
qed

lemma eslots_lookup:
  assumes ok: "eslots p m bs u" and i: "i div 32 < m" "m - 1 - i div 32 < length bs"
  shows "\<exists>h idx. EP_lookup p (of_nat i) = Inr (h, idx) \<and> entry_block h idx = Inr (bs ! (length bs - 1 - (m - 1 - i div 32)))"
proof -
  obtain cs where cs: "eindex_ok p m (cs @ bs)" using ok by (auto simp: eslots_def)
  let ?j = "m - 1 - i div 32"
  have "?j < length (cs @ bs)" using i(2) by simp
  moreover have "length (cs @ bs) - 1 - ?j = length cs + (length bs - 1 - ?j)" using i(2) by simp
  then have "(cs @ bs) ! (length (cs @ bs) - 1 - ?j) = bs ! (length bs - 1 - ?j)" by (simp only: nth_append_length_plus)
  ultimately show ?thesis using EP_lookup_spec [OF cs i(1)] by simp
qed

lemma index_room_spec:
  assumes ok: "eslots p m bs u" and small: "unat (pr_blockIndexSlotsUsed p) < 2 ^ 58"
  shows "\<exists>q' p' r. index_room env mode q p = Inr (q', p', r) \<and> (q' = q \<or> q' = q\<lparr>mallocs := mallocs q + 1\<rparr>) \<and> eslots p' m bs u \<and>
     same_words p p' \<and> ep_tailBlock p' = ep_tailBlock p \<and> pr_blockIndexSlotsUsed p' = pr_blockIndexSlotsUsed p \<and>
     (r \<longrightarrow> ep_blockIndex p' \<noteq> [] \<and> unat (pr_blockIndexSlotsUsed p') < unat (pr_blockIndexSize p')) \<and>
     (\<not> r \<longrightarrow> mode = CannotAlloc \<or> \<not> malloc_ok env (mallocs q)) \<and>
     (ep_blockIndex p \<noteq> [] \<and> pr_blockIndexSlotsUsed p \<noteq> pr_blockIndexSize p \<longrightarrow> pr_blockIndexSize p' = pr_blockIndexSize p)"
proof (cases "ep_blockIndex p = [] \<or> pr_blockIndexSlotsUsed p = pr_blockIndexSize p")
  case True
  show ?thesis
  proof (cases "mode = CannotAlloc")
    case False
    obtain cs where cs: "eindex_ok p m (cs @ bs)" "length (cs @ bs) = u" "u \<le> m" using ok by (auto simp: eslots_def)
    obtain p' r where "EP_new_block_index env (pr_blockIndexSlotsUsed p) q p = Inr (q\<lparr>mallocs := mallocs q + 1\<rparr>, p', r)"
      "r = malloc_ok env (mallocs q)" "eindex_ok p' m (cs @ bs)" "\<exists>ix n f. p' = p\<lparr>ep_blockIndex := ix, pr_blockIndexSize := n, pr_blockIndexFront := f\<rparr>"
      "r \<longrightarrow> ep_blockIndex p' \<noteq> [] \<and> unat (pr_blockIndexSlotsUsed p') < unat (pr_blockIndexSize p')"
      using EP_new_block_index_spec [OF cs(1) True small, of env q] by blast
    moreover from this cs have "eslots p' m bs u" by (auto simp: eslots_def)
    ultimately show ?thesis using True False by (auto simp: index_room_def same_words_def)
  qed (use True ok in \<open>auto simp: index_room_def same_words_def\<close>)
next
  case False
  then have "unat (pr_blockIndexSlotsUsed p) < unat (pr_blockIndexSize p)"
    using eslots_size [OF ok] by (simp add: word_unat_eq_iff)
  then show ?thesis using False ok by (auto simp: index_room_def same_words_def)
qed

section \<open>The invariant\<close>

text \<open>The flags of a block whose first \<open>c\<close> elements are dequeued: the array is filled from its end.\<close>

definition flags_upto :: "nat \<Rightarrow> bool list" where
  "flags_upto c = map (\<lambda>k. 31 - k < c) [0..<32]"

definition eflags :: "'a BlockPool \<Rightarrow> nat list \<Rightarrow> nat \<Rightarrow> bool" where
  "eflags q bs c \<longleftrightarrow> (\<forall>j < length bs. emptyFlags (blocks q ! (bs ! j)) = flags_upto (if j = 0 then c else 0))"

definition all_set :: "'a Block \<Rightarrow> bool" where
  "all_set blk \<longleftrightarrow> list_all id (emptyFlags blk)"

definition empties :: "'a BlockPool \<Rightarrow> nat list \<Rightarrow> nat" where
  "empties q fs = length (filter (\<lambda>b. all_set (blocks q ! b)) fs)"

definition ep_ring :: "'a BlockPool \<Rightarrow> nat set \<Rightarrow> nat \<Rightarrow> nat \<Rightarrow> nat list \<Rightarrow> nat list \<Rightarrow> 'a list \<Rightarrow> bool" where
  "ep_ring q others h t fs bs xs \<longleftrightarrow>
     h \<le> t \<and> length xs = t - h \<and> 32 * nblk t < h + 2 ^ 63 \<and>
     length bs = nblk t - h div 32 \<and> distinct (fs @ bs) \<and> set (fs @ bs) \<inter> others = {} \<and>
     circle q (fs @ bs) \<and> eflags q bs (h mod 32) \<and> holds q bs h xs \<and>
     (\<exists>fl. pool_inv q fl (set (fs @ bs) \<union> others))"

text \<open>
  As for an implicit producer, \<open>h\<close> and \<open>t\<close> are the numbers of elements dequeued and enqueued so far. The slots of the block index
  that are in use are enough for the blocks with elements and the empty ones.
\<close>

definition ep_ok ::
  "'a BlockPool \<Rightarrow> ExplicitProducer \<Rightarrow> nat set \<Rightarrow> nat \<Rightarrow> nat \<Rightarrow> nat list \<Rightarrow> nat list \<Rightarrow> 'a list \<Rightarrow> bool" where
  "ep_ok q p others h t fs bs xs \<longleftrightarrow>
     ep_tailIndex p = of_nat t \<and> ep_headIndex p = of_nat h \<and>
     ep_dequeueOptimisticCount p - ep_dequeueOvercommit p = of_nat h \<and>
     ep_tailBlock p = (if fs @ bs = [] then None else Some (last (fs @ bs))) \<and>
     eslots p (nblk t) bs (unat (pr_blockIndexSlotsUsed p)) \<and> length bs + empties q fs \<le> unat (pr_blockIndexSlotsUsed p) \<and>
     ep_ring q others h t fs bs xs"

lemma flags_upto_simps [simp]: "length (flags_upto c) = 32" "c \<le> 32 \<Longrightarrow> list_all id (flags_upto c) \<longleftrightarrow> c = 32"
proof -
  show "length (flags_upto c) = 32" by (simp add: flags_upto_def)
  assume "c \<le> 32"
  moreover have "31 < c" if "list_all id (flags_upto c)"
    using that by (auto simp: flags_upto_def list_all_iff dest!: bspec [of _ _ 0])
  ultimately show "list_all id (flags_upto c) \<longleftrightarrow> c = 32" by (auto simp: flags_upto_def list_all_iff)
qed

lemma flags_upto_0: "length fs = 32 \<Longrightarrow> map (\<lambda>_. False) fs = flags_upto 0"
  by (simp add: flags_upto_def list_eq_iff_nth_eq)

lemma flags_upto_Suc: "c < 32 \<Longrightarrow> (flags_upto c)[31 - c := True] = flags_upto (Suc c)" "c < 32 \<Longrightarrow> \<not> flags_upto c ! (31 - c)"
  by (auto simp: flags_upto_def list_eq_iff_nth_eq nth_list_update)

lemma put_block_others: "b \<notin> A \<Longrightarrow> \<forall>y \<in> A. blocks (put_block q b blk) ! y = blocks q ! y"
  by (metis nth_list_update_neq put_block_simps(1))

lemma eflags_cong:
  assumes "\<And>x. x \<in> set bs \<Longrightarrow> emptyFlags (blocks q' ! x) = emptyFlags (blocks q ! x)"
  shows "eflags q' bs c = eflags q bs c"
  using assms by (simp add: eflags_def)

lemma eflags_hd: "eflags q bs c \<Longrightarrow> bs \<noteq> [] \<Longrightarrow> emptyFlags (blocks q ! hd bs) = flags_upto c"
  by (cases bs) (auto simp: eflags_def)

lemma empties_cong:
  assumes "\<And>x. x \<in> set fs \<Longrightarrow> emptyFlags (blocks q' ! x) = emptyFlags (blocks q ! x)"
  shows "empties q' fs = empties q fs"
  using assms by (simp add: empties_def all_set_def cong: filter_cong)

lemma ep_ring_block:
  assumes "ep_ring q others h t fs bs xs" "i < length xs"
  shows "(h + i) div 32 - h div 32 < length bs"
proof -
  have "h + i < t" "length bs = nblk t - h div 32" using assms by (auto simp: ep_ring_def)
  then show ?thesis using div_less_nblk [of "h + i" t] div_le_mono [of h "h + i" 32] by linarith
qed

lemma ep_ring_used:
  assumes "ep_ring q others h t fs bs xs" "x \<in> set (fs @ bs)"
  shows "x < length (blocks q)" "freeListRefs (blocks q ! x) = 0" "block_shape (blocks q ! x)" "x \<notin> others"
proof -
  obtain fl where inv: "pool_inv q fl (set (fs @ bs) \<union> others)" using assms(1) by (auto simp: ep_ring_def)
  then show "x < length (blocks q)" "freeListRefs (blocks q ! x) = 0" "block_shape (blocks q ! x)"
    using pool_invD(4,8) [OF inv] assms(2) by (auto simp: list_all_length)
  show "x \<notin> others" using assms by (auto simp: ep_ring_def)
qed

lemma ep_ring_length:
  assumes "ep_ring q others h t fs bs xs"
  shows "length (fs @ bs) \<le> length (blocks q)"
proof -
  have "card (set (fs @ bs)) \<le> card {..<length (blocks q)}" using ep_ring_used(1) [OF assms] by (intro card_mono) auto
  moreover have "distinct (fs @ bs)" using assms by (simp add: ep_ring_def)
  ultimately show ?thesis using distinct_card [of "fs @ bs"] by simp
qed

lemma ep_ring_frame:
  assumes "ep_ring q others h t fs bs xs" "circle q' (fs @ bs)" "pool_inv q' fl (set (fs @ bs) \<union> others)"
    "\<And>x. x \<in> set bs \<Longrightarrow> elements (blocks q' ! x) = elements (blocks q ! x) \<and> emptyFlags (blocks q' ! x) = emptyFlags (blocks q ! x)"
  shows "ep_ring q' others h t fs bs xs"
proof -
  have "eflags q' bs (h mod 32)" using assms(1,4) eflags_cong [of bs q' q] by (simp add: ep_ring_def)
  moreover have "holds q' bs h xs"
    using assms(1,4) ep_ring_block [OF assms(1)] by (simp add: ep_ring_def holds_def)
  ultimately show ?thesis using assms(1-3) unfolding ep_ring_def by blast
qed

section \<open>Elements in the circle\<close>

lemma construct_simps [simp]:
  "next_block (block_construct blk i x) = next_block blk" "emptyFlags (block_construct blk i x) = emptyFlags blk"
  "freeListRefs (block_construct blk i x) = freeListRefs blk" "block_shape (block_construct blk i x) = block_shape blk"
  "elements (block_construct blk (of_nat t) x) = (elements blk)[t mod 32 := Some x]"
  by (simp_all add: block_construct_def block_shape_def unat_of_nat_mod_32)

lemma put_flags_cong:
  assumes "b < length (blocks q)" "emptyFlags blk = emptyFlags (blocks q ! b)"
  shows "emptyFlags (blocks (put_block q b blk) ! x) = emptyFlags (blocks q ! x)"
  using assms by (cases "x = b") simp_all

text \<open>One more element in the tail block.\<close>

lemma ring_more:
  assumes ring: "ep_ring q others h t fs bs xs" and t: "t mod 32 \<noteq> 0"
  defines "b \<equiv> last bs"
  shows "bs \<noteq> []" "ep_ring (put_block q b (block_construct (blocks q ! b) (of_nat t) x)) others h (Suc t) fs bs (xs @ [x])"
proof -
  have I: "h \<le> t" "length xs = t - h" "length bs = nblk t - h div 32" "distinct (fs @ bs)" "holds q bs h xs" "circle q (fs @ bs)"
    "eflags q bs (h mod 32)"
    using ring by (simp_all add: ep_ring_def)
  obtain fl where inv: "pool_inv q fl (set (fs @ bs) \<union> others)" using ring by (auto simp: ep_ring_def)
  have pos: "length bs = Suc (t div 32 - h div 32)"
    using I(3) nblk_modn(1) [OF t] div_le_mono [OF I(1), of 32] by (simp add: Suc_diff_le)
  then show ne: "bs \<noteq> []" by auto
  have last: "b = bs ! (t div 32 - h div 32)" using pos ne by (simp add: b_def last_conv_nth)
  have bR: "b \<in> set (fs @ bs)" using ne by (simp add: b_def)
  note b = ep_ring_used [OF ring bR]
  let ?q = "put_block q b (block_construct (blocks q ! b) (of_nat t) x)"
  have idx: "(h + i) div 32 - h div 32 < length bs" if "i \<le> length xs" for i
    using that pos div_diff_le [of h i t] I(1,2) by (simp add: le_imp_less_Suc)
  have "holds ?q bs h (xs @ [x])"
    using holds_snoc [OF I(5) _ _ idx last b(1,3)] I(1,2,4) by simp
  moreover have "eflags ?q bs (h mod 32)" using I(7) put_flags_cong [OF b(1)] eflags_cong [of bs ?q q] by simp
  moreover have "circle ?q (fs @ bs)" using I(6) circle_put [OF b(1)] by simp
  moreover have "pool_inv ?q fl (set (fs @ bs) \<union> others)" using inv b(2,3) bR by (intro pool_inv_put_block) auto
  ultimately show "ep_ring ?q others h (Suc t) fs bs (xs @ [x])"
    using ring nblk_modn(2) [OF t] by (auto simp: ep_ring_def Suc_diff_le)
qed

text \<open>The first element of a block: the front of the circle, whose flags are reset, becomes its end.\<close>

lemma ring_begin:
  assumes ring: "ep_ring q others h t (n # fs) bs xs" and t: "t mod 32 = 0" and room: "t + 32 < h + 2 ^ 63"
    and n: "emptyFlags (blocks q ! n) = flags_upto 0"
  shows "ep_ring (put_block q n (block_construct (blocks q ! n) (of_nat t) x)) others h (Suc t) fs (bs @ [n]) (xs @ [x])"
proof -
  have I: "h \<le> t" "length xs = t - h" "length bs = nblk t - h div 32" "distinct (n # fs @ bs)" "holds q bs h xs" "circle q (n # fs @ bs)"
    "eflags q bs (h mod 32)"
    using ring by (simp_all add: ep_ring_def)
  obtain fl where inv: "pool_inv q fl (set (n # fs @ bs) \<union> others)" using ring by (auto simp: ep_ring_def)
  have b: "n < length (blocks q)" "freeListRefs (blocks q ! n) = 0" "block_shape (blocks q ! n)"
    using ep_ring_used [OF ring, of n] by simp_all
  have pos: "length bs = t div 32 - h div 32" using I(3) nblk_mod0(1) [OF t] by simp
  let ?q = "put_block q n (block_construct (blocks q ! n) (of_nat t) x)"
  have idx: "(h + i) div 32 - h div 32 < length (bs @ [n])" if "i \<le> length xs" for i
    using that pos div_diff_le [of h i t] I(1,2) by (simp add: le_imp_less_Suc)
  have hold: "holds q (bs @ [n]) h xs" using _ ep_ring_block [OF ring] I(5) by (rule holds_cong) simp
  have npos: "n = (bs @ [n]) ! (t div 32 - h div 32)" unfolding pos [symmetric] by simp
  have hold': "holds ?q (bs @ [n]) h (xs @ [x])"
    using holds_snoc [OF hold _ _ idx npos b(1,3)] I(1,2,4) by simp
  have "h mod 32 = 0" if "bs = []"
  proof -
    have "t div 32 \<le> h div 32" using that pos by simp
    then have "t \<le> h" using div_mult_mod_eq [of h 32] div_mult_mod_eq [of t 32] t by linarith
    then show ?thesis using I(1) t by simp
  qed
  then have "eflags q (bs @ [n]) (h mod 32)"
    using I(7) n unfolding eflags_def by (cases "bs = []") (auto simp: nth_append less_Suc_eq)
  then have fl': "eflags ?q (bs @ [n]) (h mod 32)" using put_flags_cong [OF b(1)] eflags_cong [of "bs @ [n]" ?q q] by simp
  have "circle q (rotate1 (n # fs @ bs))" using I(6) by (simp only: circle_rotate)
  then have "circle ?q (fs @ bs @ [n])" using circle_put [OF b(1)] by simp
  moreover have "pool_inv ?q fl (set (n # fs @ bs) \<union> others)" using inv b(2,3) by (intro pool_inv_put_block) auto
  moreover have "set (n # fs @ bs) \<union> others = set (fs @ bs @ [n]) \<union> others" by auto
  ultimately show ?thesis
    using ring hold' fl' I room nblk_mod0 [OF t] pos div_le_nblk [OF I(1)]
    by (auto simp: ep_ring_def Suc_diff_le nblk_modn)
qed

section \<open>Starting a block\<close>

lemma reset_simps [simp]:
  "next_block (reset_empty explicit_context blk) = next_block blk" "elements (reset_empty explicit_context blk) = elements blk"
  "freeListRefs (reset_empty explicit_context blk) = freeListRefs blk" "block_shape (reset_empty explicit_context blk) = block_shape blk"
  "block_shape blk \<Longrightarrow> emptyFlags (reset_empty explicit_context blk) = flags_upto 0"
  by (simp_all add: reset_empty_def block_shape_def flags_upto_0)

lemma block_shape_next [simp]: "block_shape (blk\<lparr>next_block := n\<rparr>) = block_shape blk"
  by (simp add: block_shape_def)

text \<open>The block ahead is reset.\<close>

lemma ring_reuse:
  assumes ring: "ep_ring q others h t fs bs xs" and nf: "n \<in> set fs"
  defines "q' \<equiv> put_block q n (reset_empty explicit_context (blocks q ! n))"
  shows "ep_ring q' others h t fs bs xs" "emptyFlags (blocks q' ! n) = flags_upto 0"
    "\<And>y. y \<noteq> n \<Longrightarrow> blocks q' ! y = blocks q ! y"
proof -
  have n: "n < length (blocks q)" "freeListRefs (blocks q ! n) = 0" "block_shape (blocks q ! n)" "n \<notin> set bs"
    using ep_ring_used [OF ring, of n] ring nf by (auto simp: ep_ring_def)
  obtain fl where inv: "pool_inv q fl (set (fs @ bs) \<union> others)" using ring by (auto simp: ep_ring_def)
  show "emptyFlags (blocks q' ! n) = flags_upto 0" using n(1,3) by (simp add: q'_def)
  show other: "blocks q' ! y = blocks q ! y" if "y \<noteq> n" for y using that by (simp add: q'_def)
  have "circle q' (fs @ bs)" using ring circle_put [OF n(1)] by (simp add: q'_def ep_ring_def)
  moreover have "pool_inv q' fl (set (fs @ bs) \<union> others)"
    unfolding q'_def using inv by (rule pool_inv_put_block) (use n nf in simp_all)
  moreover have "elements (blocks q' ! x) = elements (blocks q ! x) \<and> emptyFlags (blocks q' ! x) = emptyFlags (blocks q ! x)" if "x \<in> set bs" for x
    using other [of x] that n(4) by (cases "x = n") simp_all
  ultimately show "ep_ring q' others h t fs bs xs" by (rule ep_ring_frame [OF ring])
qed

text \<open>A new block is linked in after the tail block, which is the last of the blocks \<open>ns\<close> already taken for the operation under way, or
  the last of the circle.\<close>

lemma ring_link:
  assumes ring: "ep_ring q others h t (ns @ fs) bs xs" and tail: "ep_tailBlock p = (if fs @ bs @ ns = [] then None else Some (last (fs @ bs @ ns)))"
    and b: "b \<notin> set (fs @ bs @ ns) \<union> others" and same: "\<And>y. y \<in> set (fs @ bs @ ns) \<union> others \<Longrightarrow> blocks q1 ! y = blocks q ! y"
    and mark: "elements (mark (blocks q1 ! b)) = elements (blocks q1 ! b)" "freeListRefs (mark (blocks q1 ! b)) = freeListRefs (blocks q1 ! b)"
      "block_shape (mark (blocks q1 ! b)) = block_shape (blocks q1 ! b)"
    and inv: "pool_inv q1 fl (insert b (set (fs @ bs @ ns) \<union> others))"
  shows "\<exists>q'. link_block mark q1 p b = Inr (q', p\<lparr>ep_tailBlock := Some b, pr_blockIndexSlotsUsed := pr_blockIndexSlotsUsed p + 1\<rparr>) \<and>
     ep_ring q' others h t (ns @ b # fs) bs xs \<and> emptyFlags (blocks q' ! b) = emptyFlags (mark (blocks q1 ! b)) \<and>
     (\<forall>y \<in> set (fs @ bs @ ns). emptyFlags (blocks q' ! y) = emptyFlags (blocks q ! y)) \<and> (\<forall>y \<in> others. blocks q' ! y = blocks q ! y)"
proof -
  let ?R = "fs @ bs @ ns"
  let ?blk = "mark (blocks q1 ! b)"
  have bl: "b < length (blocks q1)" "freeListRefs (blocks q1 ! b) = 0" "block_shape (blocks q1 ! b)"
    using pool_invD(4,8) [OF inv] by (auto simp: list_all_length)
  have R: "distinct ?R" "set ?R \<inter> others = {}" "circle q ?R" using ring circle_swap [of q ns "fs @ bs"] by (auto simp: ep_ring_def)
  obtain q' where q': "link_block mark q1 p b = Inr (q', p\<lparr>ep_tailBlock := Some b, pr_blockIndexSlotsUsed := pr_blockIndexSlotsUsed p + 1\<rparr>)"
    "circle q' (b # ?R)" "pool_inv q' fl (insert b (set ?R \<union> others))" "emptyFlags (blocks q' ! b) = emptyFlags (mark (blocks q1 ! b))"
    "\<And>y. y \<in> set ?R \<Longrightarrow> elements (blocks q' ! y) = elements (blocks q ! y) \<and> emptyFlags (blocks q' ! y) = emptyFlags (blocks q ! y)"
    "\<And>y. y \<in> others \<Longrightarrow> blocks q' ! y = blocks q ! y"
  proof (cases "?R = []")
    case True
    let ?q = "put_block q1 b (?blk\<lparr>next_block := Some b\<rparr>)"
    show ?thesis
    proof (rule that [of ?q])
      show "pool_inv ?q fl (insert b (set ?R \<union> others))" using inv bl mark by (intro pool_inv_put_block) simp_all
      show "blocks ?q ! y = blocks q ! y" if "y \<in> others" for y using same [of y] b that by (cases "y = b") auto
    qed (use True tail bl in \<open>simp_all add: link_block_def Let_def circle_def\<close>)
  next
    case False
    let ?l = "last ?R"
    have lR: "?l \<in> set ?R" using last_in_set [OF False] .
    have lb: "?l \<noteq> b" using b lR by blast
    have l: "?l < length (blocks q1)" "freeListRefs (blocks q1 ! ?l) = 0" "block_shape (blocks q1 ! ?l)"
      using pool_invD(4,8) [OF inv] lR by (auto simp: list_all_length)
    have next_l: "next_block (blocks q1 ! ?l) = Some (hd ?R)" using circle_last [OF R(3) False] same [of ?l] lR by auto
    let ?q1 = "put_block q1 b (?blk\<lparr>next_block := next_block (blocks q1 ! ?l)\<rparr>)"
    let ?q = "put_block ?q1 ?l ((blocks q1 ! ?l)\<lparr>next_block := Some b\<rparr>)"
    show ?thesis
    proof (rule that [of ?q])
      show "link_block mark q1 p b = Inr (?q, p\<lparr>ep_tailBlock := Some b, pr_blockIndexSlotsUsed := pr_blockIndexSlotsUsed p + 1\<rparr>)"
        unfolding link_block_def tail if_not_P [OF False] using bl(1) l(1) by (simp add: Let_def)
      show "circle ?q (b # ?R)"
      proof (rule circle_insert [OF R(3) False R(1)])
        show "next_block (blocks ?q ! b) = Some (hd ?R)" using bl(1) lb next_l by simp
        show "next_block (blocks ?q ! ?l) = Some b" using l(1) by simp
        show "next_block (blocks ?q ! x) = next_block (blocks q ! x)" if "x \<in> set ?R" "x \<noteq> ?l" for x
          using that b same [of x] by (cases "x = b") auto
      qed
      have "pool_inv ?q1 fl (insert b (set ?R \<union> others))" using inv bl mark by (intro pool_inv_put_block) simp_all
      then show "pool_inv ?q fl (insert b (set ?R \<union> others))" by (rule pool_inv_put_block) (use l lR in auto)
      show "emptyFlags (blocks ?q ! b) = emptyFlags (mark (blocks q1 ! b))" using bl lb by simp
      show "elements (blocks ?q ! y) = elements (blocks q ! y) \<and> emptyFlags (blocks ?q ! y) = emptyFlags (blocks q ! y)" if "y \<in> set ?R" for y
        using that b same [of y] l(1) by (cases "y = b"; cases "y = ?l") auto
      show "blocks ?q ! y = blocks q ! y" if "y \<in> others" for y
        using that b same [of y] R(2) lR by (cases "y = b"; cases "y = ?l") auto
    qed
  qed
  have "ep_ring q' others h t (ns @ b # fs) bs xs"
  proof -
    have "holds q' bs h xs" "eflags q' bs (h mod 32)"
      using ring q'(5) ep_ring_block [OF ring] by (simp_all add: ep_ring_def holds_def eflags_def)
    moreover have "distinct ((ns @ b # fs) @ bs)" "set ((ns @ b # fs) @ bs) \<inter> others = {}" using R b by auto
    moreover have "circle q' ((ns @ b # fs) @ bs)" using q'(2) circle_swap [of q' ns "b # fs @ bs"] by simp
    moreover have "insert b (set ?R \<union> others) = set ((ns @ b # fs) @ bs) \<union> others" by auto
    ultimately show ?thesis using ring q'(3) unfolding ep_ring_def by metis
  qed
  then show ?thesis using q' by blast
qed

text \<open>A block is ready for the next element, and a slot of the block index for the block; before, \<open>s\<close> slots were in use.\<close>

definition started ::
  "'a BlockPool \<Rightarrow> ExplicitProducer \<Rightarrow> u64 \<Rightarrow> nat set \<Rightarrow> nat \<Rightarrow> nat \<Rightarrow> nat \<Rightarrow> nat list \<Rightarrow> nat list \<Rightarrow> 'a list \<Rightarrow> bool" where
  "started q p s others h t n fs bs xs \<longleftrightarrow>
     ep_ring q others h t (n # fs) bs xs \<and> emptyFlags (blocks q ! n) = flags_upto 0 \<and> t + 32 < h + 2 ^ 63 \<and>
     ep_tailBlock p = Some n \<and> eslots p (nblk t) bs (unat s) \<and> ep_blockIndex p \<noteq> [] \<and>
     length bs + Suc (empties q fs) \<le> unat (pr_blockIndexSlotsUsed p) \<and> length bs + empties q fs \<le> unat s \<and>
     unat s \<le> unat (pr_blockIndexSlotsUsed p) \<and> unat (pr_blockIndexSlotsUsed p) \<le> Suc (unat s)"

lemma empty_ahead_spec:
  assumes ok: "ep_ok q p others h t fs bs xs"
  shows "empty_ahead q p = Inr (case fs of n # _ \<Rightarrow> if all_set (blocks q ! n) then Some n else None | [] \<Rightarrow> None)"
proof (cases "fs @ bs = []")
  case True
  then show ?thesis using ok by (simp add: ep_ok_def empty_ahead_def)
next
  case False
  let ?R = "fs @ bs"
  have ring: "ep_ring q others h t fs bs xs" and tail: "ep_tailBlock p = Some (last ?R)" using ok False by (simp_all add: ep_ok_def)
  have "hd ?R \<in> set ?R" "last ?R \<in> set ?R" using hd_in_set [OF False] last_in_set [OF False] by blast+
  then have used: "hd ?R < length (blocks q)" "last ?R < length (blocks q)" using ep_ring_used(1) [OF ring] by blast+
  have "next_block (blocks q ! last ?R) = Some (hd ?R)" using ring False by (intro circle_last) (simp_all add: ep_ring_def)
  then have run: "empty_ahead q p = Inr (if all_set (blocks q ! hd ?R) then Some (hd ?R) else None)"
    unfolding empty_ahead_def tail using used by (simp add: next_of_def is_empty_def all_set_def)
  have "\<not> all_set (blocks q ! hd ?R)" if "fs = []"
  proof -
    have "bs \<noteq> []" using False that by simp
    then have "emptyFlags (blocks q ! hd bs) = flags_upto (h mod 32)" using ring by (intro eflags_hd) (simp_all add: ep_ring_def)
    moreover have "h mod 32 < 32" by simp
    ultimately show ?thesis using that unfolding all_set_def by (simp add: less_imp_le)
  qed
  then show ?thesis using run by (auto split: list.split)
qed

lemma ep_bounds:
  assumes "ep_ok q p others h t fs bs xs" "t mod 32 = 0"
  shows "\<not> circular_less_than (of_nat t :: u64) (of_nat h)"
    and "subqueue_full (of_nat h) (of_nat t) \<longleftrightarrow> h + 2 ^ 63 \<le> t + 32"
    and "Suc (length bs) < 2 ^ 58 \<Longrightarrow> t + 32 < h + 2 ^ 63"
proof -
  have b: "32 * nblk t < h + 2 ^ 63" "h \<le> t" "length bs = nblk t - h div 32" using assms(1) by (simp_all add: ep_ok_def ep_ring_def)
  then have b': "t < h + 2 ^ 63" using nblk_bounds(1) [of t] by linarith
  show "\<not> circular_less_than (of_nat t :: u64) (of_nat h)" "subqueue_full (of_nat h) (of_nat t) \<longleftrightarrow> h + 2 ^ 63 \<le> t + 32"
    using subqueue_full_iff [OF b(2) b'] by simp_all
  have "nblk t = length bs + h div 32" using b(3) div_le_nblk [OF b(2)] by linarith
  then show "t + 32 < h + 2 ^ 63" if "Suc (length bs) < 2 ^ 58"
    using that nblk_mod0(2) [OF assms(2)] mult_div_mod_eq [of 32 h] by simp
qed

lemma ep_ok_same:
  assumes ok: "ep_ok q p others h t fs bs xs" and q': "blocks q' = blocks q" "pool_inv q' fl (set (fs @ bs) \<union> others)"
    and p': "same_words p p'" "ep_tailBlock p' = ep_tailBlock p" "pr_blockIndexSlotsUsed p' = pr_blockIndexSlotsUsed p" "eslots p' (nblk t) bs (unat (pr_blockIndexSlotsUsed p))"
  shows "ep_ok q' p' others h t fs bs xs"
proof -
  have "ep_ring q' others h t fs bs xs"
    by (rule ep_ring_frame [OF _ _ q'(2), of q]) (use ok q'(1) in \<open>simp_all add: ep_ok_def ep_ring_def circle_def\<close>)
  moreover have "empties q' fs = empties q fs" using q'(1) by (intro empties_cong) simp
  ultimately show ?thesis using ok p' by (auto simp: ep_ok_def same_words_def)
qed

text \<open>What it means for the start of a block to fail, and the outcomes of an attempt.\<close>

definition no_memory :: "alloc_env \<Rightarrow> AllocationMode \<Rightarrow> 'a BlockPool \<Rightarrow> bool" where
  "no_memory env mode q \<longleftrightarrow> mode = CannotAlloc \<or> \<not> malloc_ok env (mallocs q) \<or> \<not> malloc_ok env (Suc (mallocs q))"

definition same_flags :: "'a BlockPool \<Rightarrow> 'a BlockPool \<Rightarrow> nat list \<Rightarrow> bool" where
  "same_flags q q' fs \<longleftrightarrow> (\<forall>x \<in> set fs. emptyFlags (blocks q' ! x) = emptyFlags (blocks q ! x))"

lemma same_flags_empties: "same_flags q q' fs \<Longrightarrow> empties q' fs = empties q fs"
  by (intro empties_cong) (simp add: same_flags_def)

text \<open>The block index keeps its size while it has room.\<close>

definition same_size :: "ExplicitProducer \<Rightarrow> ExplicitProducer \<Rightarrow> bool" where
  "same_size p p' \<longleftrightarrow> (ep_blockIndex p \<noteq> [] \<and> pr_blockIndexSlotsUsed p \<noteq> pr_blockIndexSize p \<longrightarrow> pr_blockIndexSize p' = pr_blockIndexSize p)"

definition start_outcome ::
  "'a BlockPool \<Rightarrow> ExplicitProducer \<Rightarrow> 'a BlockPool \<Rightarrow> ExplicitProducer \<Rightarrow> bool \<Rightarrow> nat set \<Rightarrow> nat \<Rightarrow> nat \<Rightarrow> nat list \<Rightarrow> nat list \<Rightarrow> 'a list \<Rightarrow> bool" where
  "start_outcome q p q' p' r others h t fs bs xs \<longleftrightarrow>
     same_words p p' \<and> same_size p p' \<and> (\<forall>y \<in> others. blocks q' ! y = blocks q ! y) \<and>
     (if r then \<exists>n fs'. started q' p' (pr_blockIndexSlotsUsed p) others h t n fs' bs xs \<and> (fs = n # fs' \<or> fs = fs') \<and> same_flags q q' fs'
      else ep_ok q' p' others h t fs bs xs \<and> pr_blockIndexSlotsUsed p' = pr_blockIndexSlotsUsed p \<and> same_flags q q' fs)"

lemma start_reuse:
  assumes ok: "ep_ok q p others h t (n # fs) bs xs" and t: "t mod 32 = 0" and small: "unat (pr_blockIndexSlotsUsed p) < 2 ^ 58"
    and n: "all_set (blocks q ! n)"
  shows "start_outcome q p (put_block q n (reset_empty explicit_context (blocks q ! n))) (p\<lparr>ep_tailBlock := Some n\<rparr>) True others h t (n # fs) bs xs"
proof -
  let ?q = "put_block q n (reset_empty explicit_context (blocks q ! n))"
  have ring: "ep_ring q others h t (n # fs) bs xs" and ix: "eslots p (nblk t) bs (unat (pr_blockIndexSlotsUsed p))"
    and slots: "length bs + Suc (empties q fs) \<le> unat (pr_blockIndexSlotsUsed p)"
    using ok n by (simp_all add: ep_ok_def empties_def)
  note reuse = ring_reuse [OF ring list.set_intros(1)]
  have "n \<notin> set fs" "n \<notin> others" using ring by (auto simp: ep_ring_def)
  then have same: "same_flags q ?q fs" "\<forall>y \<in> others. blocks ?q ! y = blocks q ! y"
    using reuse(3) unfolding same_flags_def by metis+
  have "Suc (length bs) < 2 ^ 58" using slots small by linarith
  then have "t + 32 < h + 2 ^ 63" by (rule ep_bounds(3) [OF ok t])
  moreover have "eslots (p\<lparr>ep_tailBlock := Some n\<rparr>) (nblk t) bs (unat (pr_blockIndexSlotsUsed p))" using ix eslots_cong [of "p\<lparr>ep_tailBlock := Some n\<rparr>" p] by simp
  moreover have "ep_blockIndex p \<noteq> []" using slots by (intro eslots_index [OF ix]) linarith
  ultimately have "started ?q (p\<lparr>ep_tailBlock := Some n\<rparr>) (pr_blockIndexSlotsUsed p) others h t n fs bs xs"
    using reuse(1,2) slots same_flags_empties [OF same(1)] unfolding started_def by simp
  then show ?thesis using same by (auto simp: start_outcome_def same_words_def same_size_def)
qed

lemma EP_start_block_spec:
  assumes ok: "ep_ok q p others h t fs bs xs" and t: "t mod 32 = 0" and small: "unat (pr_blockIndexSlotsUsed p) < 2 ^ 58"
  shows "\<exists>q' p' r. EP_start_block env mode q p = Inr (q', p', r) \<and> start_outcome q p q' p' r others h t fs bs xs \<and>
     (\<not> r \<longrightarrow> h + 2 ^ 63 \<le> t + 32 \<or> no_memory env mode q)"
proof (cases "\<exists>n fs'. fs = n # fs' \<and> all_set (blocks q ! n)")
  case True
  then obtain n fs' where n: "fs = n # fs'" "all_set (blocks q ! n)" by blast
  have "n < length (blocks q)" using ep_ring_used(1) [of q others h t fs bs xs n] ok n(1) by (simp add: ep_ok_def)
  then have "EP_start_block env mode q p = Inr (put_block q n (reset_empty explicit_context (blocks q ! n)), p\<lparr>ep_tailBlock := Some n\<rparr>, True)"
    using empty_ahead_spec [OF ok] n by (simp add: EP_start_block_def)
  then show ?thesis using start_reuse [of q p others h t n fs' bs xs] ok t small n by auto
next
  case False
  then have "(case fs of n # _ \<Rightarrow> if all_set (blocks q ! n) then Some n else None | [] \<Rightarrow> None) = None" by (cases fs) auto
  then have ahead: "empty_ahead q p = Inr None" using empty_ahead_spec [OF ok] by simp
  have w: "ep_tailIndex p = of_nat t" "ep_headIndex p = of_nat h" and ix: "eslots p (nblk t) bs (unat (pr_blockIndexSlotsUsed p))" and ring: "ep_ring q others h t fs bs xs"
    and slots: "length bs + empties q fs \<le> unat (pr_blockIndexSlotsUsed p)"
    and tail: "ep_tailBlock p = (if fs @ bs = [] then None else Some (last (fs @ bs)))"
    using ok unfolding ep_ok_def by blast+
  obtain fl where inv: "pool_inv q fl (set (fs @ bs) \<union> others)" using ring by (auto simp: ep_ring_def)
  show ?thesis
  proof (cases "h + 2 ^ 63 \<le> t + 32")
    case True
    then have "EP_start_block env mode q p = Inr (q, p, False)"
      using ahead w ep_bounds [OF ok t] by (simp add: EP_start_block_def)
    then show ?thesis using True ok by (auto simp: start_outcome_def same_words_def same_size_def same_flags_def)
  next
    case room: False
    obtain q1 p1 r1 where ir: "index_room env mode q p = Inr (q1, p1, r1)" "q1 = q \<or> q1 = q\<lparr>mallocs := mallocs q + 1\<rparr>" "eslots p1 (nblk t) bs (unat (pr_blockIndexSlotsUsed p))"
     "same_words p p1" "ep_tailBlock p1 = ep_tailBlock p" "pr_blockIndexSlotsUsed p1 = pr_blockIndexSlotsUsed p"
     "r1 \<longrightarrow> ep_blockIndex p1 \<noteq> [] \<and> unat (pr_blockIndexSlotsUsed p1) < unat (pr_blockIndexSize p1)"
     "\<not> r1 \<longrightarrow> mode = CannotAlloc \<or> \<not> malloc_ok env (mallocs q)" "same_size p p1"
      using index_room_spec [OF ix small, of env mode q] unfolding same_size_def by blast
    have q1: "blocks q1 = blocks q" "pool_inv q1 fl (set (fs @ bs) \<union> others)" "mallocs q1 = mallocs q \<or> mallocs q1 = Suc (mallocs q)"
      using ir(2) inv pool_inv_malloc [OF inv] by auto
    have run: "EP_start_block env mode q p =
      (if \<not> r1 then Inr (q1, p1, False)
       else and_then (requisition_block env mode q1) (\<lambda>(q, newBlock).
              case newBlock of None \<Rightarrow> Inr (q, p1, False) | Some b \<Rightarrow> and_then (link_block (reset_empty explicit_context) q p1 b) (\<lambda>(q, p). Inr (q, p, True))))"
      using ahead w ep_bounds(1,2) [OF ok t] room ir(1) by (simp add: EP_start_block_def)
    obtain q2 nb where req: "requisition_block env mode q1 = Inr (q2, nb)"
      "case nb of
        Some i \<Rightarrow> (\<exists>fl'. pool_inv q2 fl' (insert i (set (fs @ bs) \<union> others))) \<and> i \<notin> set (fs @ bs) \<union> others \<and>
          (\<forall>x \<in> set (fs @ bs) \<union> others. blocks q2 ! x = blocks q1 ! x)
      | None \<Rightarrow> pool_inv q2 fl (set (fs @ bs) \<union> others) \<and> blocks q2 = blocks q1 \<and> (mode = CannotAlloc \<or> \<not> malloc_ok env (mallocs q1))"
      using requisition_block_spec [OF q1(2), of env mode] by blast
    consider "\<not> r1" | "r1" "nb = None" | b where "r1" "nb = Some b" by (cases nb) auto
    then show ?thesis
    proof cases
      case 1
      then show ?thesis using run ir(8) ep_ok_same [OF ok q1(1,2) ir(4,5,6,3)] q1(1) ir(4,6,9)
        by (auto simp: start_outcome_def no_memory_def same_flags_def)
    next
      case 2
      then have q2: "blocks q2 = blocks q" "pool_inv q2 fl (set (fs @ bs) \<union> others)" "no_memory env mode q"
        using req(2) q1 by (auto simp: no_memory_def)
      then show ?thesis using 2 run req(1) ep_ok_same [OF ok q2(1,2) ir(4,5,6,3)] ir(4,6,9)
        by (auto simp: start_outcome_def same_flags_def)
    next
      case 3
      then obtain fl' where b: "pool_inv q2 fl' (insert b (set (fs @ bs) \<union> others))" "b \<notin> set (fs @ bs) \<union> others"
        "\<And>x. x \<in> set (fs @ bs) \<union> others \<Longrightarrow> blocks q2 ! x = blocks q ! x"
        using req(2) q1(1) by auto
      have shape: "block_shape (blocks q2 ! b)" using pool_invD(4,8) [OF b(1)] by (auto simp: list_all_length)
      let ?p = "p1\<lparr>ep_tailBlock := Some b, pr_blockIndexSlotsUsed := pr_blockIndexSlotsUsed p1 + 1\<rparr>"
      obtain q3 where link: "link_block (reset_empty explicit_context) q2 p1 b = Inr (q3, ?p)" "ep_ring q3 others h t (b # fs) bs xs" "emptyFlags (blocks q3 ! b) = flags_upto 0"
        "\<forall>y \<in> set (fs @ bs). emptyFlags (blocks q3 ! y) = emptyFlags (blocks q ! y)" "\<forall>y \<in> others. blocks q3 ! y = blocks q ! y"
        using ring_link [of q others h t "[]" fs bs xs p1 b q2 "reset_empty explicit_context" fl', unfolded append_Nil append_Nil2] ring b tail ir(5) shape by auto
      have sf: "same_flags q q3 fs" using link(4) by (simp add: same_flags_def)
      have one: "unat (pr_blockIndexSlotsUsed p1 + 1) = Suc (unat (pr_blockIndexSlotsUsed p))"
        using unat_plus_one_less [of "pr_blockIndexSlotsUsed p1" "pr_blockIndexSize p1"] ir(6,7) 3(1) by (simp add: word_less_nat_alt)
      have "eslots ?p (nblk t) bs (unat (pr_blockIndexSlotsUsed p))"
        using ir(3,6,7) 3(1) slots one by (intro eslots_slots) auto
      then have "started q3 ?p (pr_blockIndexSlotsUsed p) others h t b fs bs xs"
        using link(2,3) room ir(7) 3(1) slots one same_flags_empties [OF sf] by (simp add: started_def)
      then have "start_outcome q p q3 ?p True others h t fs bs xs"
        using link(5) ir(4,9) sf unfolding start_outcome_def by (auto simp: same_words_def same_size_def)
      then show ?thesis using run 3 req(1) link(1) by auto
    qed
  qed
qed

section \<open>Enqueuing\<close>

definition ep_outcome ::
  "'a BlockPool \<Rightarrow> ExplicitProducer \<Rightarrow> 'a BlockPool \<Rightarrow> ExplicitProducer \<Rightarrow> enqueue_result \<Rightarrow> nat set \<Rightarrow> nat \<Rightarrow> nat \<Rightarrow> nat list \<Rightarrow> 'a list \<Rightarrow> 'a \<Rightarrow> bool" where
  "ep_outcome q p q' p' r others h t fs xs x \<longleftrightarrow>
     (\<forall>y \<in> others. blocks q' ! y = blocks q ! y) \<and> same_size p p' \<and> (t mod 32 \<noteq> 0 \<longrightarrow> pr_blockIndexSize p' = pr_blockIndexSize p) \<and>
     unat (pr_blockIndexSlotsUsed p') \<le> (if t mod 32 = 0 then Suc (unat (pr_blockIndexSlotsUsed p)) else unat (pr_blockIndexSlotsUsed p)) \<and>
     (\<exists>fs' bs'. (r = Enqueued \<longrightarrow> length fs' \<le> length fs) \<and> (if r = Enqueued then ep_ok q' p' others h (Suc t) fs' bs' (xs @ [x]) else ep_ok q' p' others h t fs' bs' xs) \<and>
        (r \<noteq> Constructor_Threw \<longrightarrow> list_all (\<lambda>b. all_set (blocks q ! b)) fs \<longrightarrow> list_all (\<lambda>b. all_set (blocks q' ! b)) fs'))"

lemma ep_outcomeI:
  assumes "\<And>y. y \<in> others \<Longrightarrow> blocks q' ! y = blocks q ! y" "same_size p p'" "t mod 32 \<noteq> 0 \<Longrightarrow> pr_blockIndexSize p' = pr_blockIndexSize p"
    "unat (pr_blockIndexSlotsUsed p') \<le> (if t mod 32 = 0 then Suc (unat (pr_blockIndexSlotsUsed p)) else unat (pr_blockIndexSlotsUsed p))"
    "r = Enqueued \<Longrightarrow> length fs' \<le> length fs" "if r = Enqueued then ep_ok q' p' others h (Suc t) fs' bs' (xs @ [x]) else ep_ok q' p' others h t fs' bs' xs"
    "r \<noteq> Constructor_Threw \<Longrightarrow> list_all (\<lambda>b. all_set (blocks q ! b)) fs \<Longrightarrow> list_all (\<lambda>b. all_set (blocks q' ! b)) fs'"
  shows "ep_outcome q p q' p' r others h t fs xs x"
  unfolding ep_outcome_def using assms by blast

lemma same_flags_all:
  assumes "same_flags q q' fs'" "fs = n # fs' \<or> fs = fs'" "list_all (\<lambda>b. all_set (blocks q ! b)) fs"
  shows "list_all (\<lambda>b. all_set (blocks q' ! b)) fs'"
  using assms by (auto simp: list_all_iff same_flags_def all_set_def)

text \<open>The first element of a block.\<close>

lemma enqueue_started:
  assumes st: "started q p s others h t n fs bs xs" and t: "t mod 32 = 0"
    and w: "ep_tailIndex p = of_nat t" "ep_headIndex p = of_nat h" "ep_dequeueOptimisticCount p - ep_dequeueOvercommit p = of_nat h"
  shows "\<exists>p'. construct_in_tail q p x = Inr (put_block q n (block_construct (blocks q ! n) (of_nat t) x)) \<and> add_to_block_index p = Inr p' \<and>
     ep_ok (put_block q n (block_construct (blocks q ! n) (of_nat t) x)) (p'\<lparr>ep_tailIndex := of_nat (Suc t)\<rparr>) others h (Suc t) fs (bs @ [n]) (xs @ [x]) \<and>
     pr_blockIndexSlotsUsed p' = pr_blockIndexSlotsUsed p \<and> pr_blockIndexSize p' = pr_blockIndexSize p"
proof -
  let ?q = "put_block q n (block_construct (blocks q ! n) (of_nat t) x)"
  have S: "ep_ring q others h t (n # fs) bs xs" "emptyFlags (blocks q ! n) = flags_upto 0" "t + 32 < h + 2 ^ 63" "ep_tailBlock p = Some n"
    "eslots p (nblk t) bs (unat s)" "ep_blockIndex p \<noteq> []" "length bs + Suc (empties q fs) \<le> unat (pr_blockIndexSlotsUsed p)"
    "unat s \<le> unat (pr_blockIndexSlotsUsed p)" "unat (pr_blockIndexSlotsUsed p) \<le> Suc (unat s)"
    using st unfolding started_def by blast+
  have n: "n < length (blocks q)" using ep_ring_used(1) [OF S(1), of n] by simp
  have t': "ep_tailIndex p = of_nat (32 * nblk t)" "nblk (Suc t) = Suc (nblk t)" using w(1) nblk_mod0(2,3) [OF t] by simp_all
  have "length bs < unat (pr_blockIndexSlotsUsed p)" using S(7) by linarith
  then obtain ix f where add: "add_to_block_index p = Inr (p\<lparr>ep_blockIndex := ix, pr_blockIndexFront := f\<rparr>)"
    "eslots (p\<lparr>ep_blockIndex := ix, pr_blockIndexFront := f\<rparr>) (Suc (nblk t)) (bs @ [n]) (unat (pr_blockIndexSlotsUsed p))"
    using eslots_add [OF S(5,8,9) _ S(6) t'(1) S(4)] by blast
  let ?p = "p\<lparr>ep_blockIndex := ix, pr_blockIndexFront := f\<rparr>"
  have "eslots (?p\<lparr>ep_tailIndex := of_nat (Suc t)\<rparr>) (Suc (nblk t)) (bs @ [n]) (unat (pr_blockIndexSlotsUsed p))"
    using add(2) eslots_cong [of "?p\<lparr>ep_tailIndex := of_nat (Suc t)\<rparr>" ?p] by simp
  moreover have "empties ?q fs = empties q fs" using put_flags_cong [OF n] by (intro empties_cong) simp
  ultimately have "ep_ok ?q (?p\<lparr>ep_tailIndex := of_nat (Suc t)\<rparr>) others h (Suc t) fs (bs @ [n]) (xs @ [x])"
    using ring_begin [OF S(1) t S(3,2), of x] w S(4,7) t'(2) by (simp add: ep_ok_def)
  moreover have "construct_in_tail q p x = Inr ?q" using S(4) n w(1) by (simp add: construct_in_tail_def)
  ultimately show ?thesis using add(1) by auto
qed

text \<open>The copy of the first element of a block throws: the block stays in the circle, ahead of the tail block.\<close>

lemma enqueue_reverted:
  assumes st: "started q p s others h t n fs bs xs"
    and w: "ep_tailIndex p = of_nat t" "ep_headIndex p = of_nat h" "ep_dequeueOptimisticCount p - ep_dequeueOvercommit p = of_nat h"
    and tb: "tb = Some (last (n # fs @ bs))"
  shows "ep_ok q (p\<lparr>ep_tailBlock := tb, pr_blockIndexSlotsUsed := s\<rparr>) others h t (n # fs) bs xs"
proof -
  have S: "ep_ring q others h t (n # fs) bs xs" "emptyFlags (blocks q ! n) = flags_upto 0" "eslots p (nblk t) bs (unat s)" "ep_blockIndex p \<noteq> []"
    "length bs + empties q fs \<le> unat s" "unat s \<le> unat (pr_blockIndexSlotsUsed p)"
    using st unfolding started_def by blast+
  have "unat s \<le> unat (pr_blockIndexSize p)" using S(6) eslots_size [OF S(3)] by linarith
  then have "eslots (p\<lparr>ep_tailBlock := tb, pr_blockIndexSlotsUsed := s\<rparr>) (nblk t) bs (unat s)"
    using S(3,4) by (intro eslots_slots) simp_all
  moreover have "empties q (n # fs) = empties q fs" using S(2) by (simp add: empties_def all_set_def)
  ultimately show ?thesis using S(1,5) w tb by (simp add: ep_ok_def)
qed

lemma EP_enqueue_spec:
  assumes ok: "ep_ok q p others h t fs bs xs" and small: "unat (pr_blockIndexSlotsUsed p) < 2 ^ 58"
  shows "\<exists>q' p' r. EP_enqueue env mode ctor_ok x q p = Inr (q', p', r) \<and> ep_outcome q p q' p' r others h t fs xs x \<and>
     (r = Constructor_Threw \<longrightarrow> \<not> ctor_ok) \<and> (r = Not_Enqueued \<longrightarrow> h + 2 ^ 63 \<le> t + 32 \<or> no_memory env mode q)"
proof (cases "t mod 32 = 0")
  case True
  have w: "ep_tailIndex p = of_nat t" "ep_headIndex p = of_nat h" "ep_dequeueOptimisticCount p - ep_dequeueOvercommit p = of_nat h"
    and tail: "ep_tailBlock p = (if fs @ bs = [] then None else Some (last (fs @ bs)))"
    using ok unfolding ep_ok_def by blast+
  obtain q1 p1 r where start: "EP_start_block env mode q p = Inr (q1, p1, r)" "start_outcome q p q1 p1 r others h t fs bs xs"
    "\<not> r \<longrightarrow> h + 2 ^ 63 \<le> t + 32 \<or> no_memory env mode q"
    using EP_start_block_spec [OF ok True small, of env mode] by blast
  have w1: "ep_tailIndex p1 = of_nat t" "ep_headIndex p1 = of_nat h" "ep_dequeueOptimisticCount p1 - ep_dequeueOvercommit p1 = of_nat h"
    using start(2) w by (simp_all add: start_outcome_def same_words_def)
  have others: "\<forall>y \<in> others. blocks q1 ! y = blocks q ! y" and size: "same_size p p1" using start(2) by (simp_all add: start_outcome_def)
  have zero: "ep_tailIndex p AND (BLOCK_SIZE - 1) = 0" using True w(1) of_nat_and_31 [of t] by simp
  show ?thesis
  proof (cases r)
    case False
    then have run: "EP_enqueue env mode ctor_ok x q p = Inr (q1, p1, Not_Enqueued)" using zero start(1) by (simp add: EP_enqueue_def Let_def)
    have "ep_ok q1 p1 others h t fs bs xs" "pr_blockIndexSlotsUsed p1 = pr_blockIndexSlotsUsed p" "same_flags q q1 fs"
      using start(2) False by (simp_all add: start_outcome_def)
    then have "ep_outcome q p q1 p1 Not_Enqueued others h t fs xs x"
      using others size \<open>t mod 32 = 0\<close> same_flags_all [of q q1 fs fs] unfolding ep_outcome_def by auto
    then show ?thesis using run start(3) False by blast
  next
    case r: True
    then obtain n fs' where st: "started q1 p1 (pr_blockIndexSlotsUsed p) others h t n fs' bs xs" "fs = n # fs' \<or> fs = fs'" "same_flags q q1 fs'"
      using start(2) by (auto simp: start_outcome_def)
    have slots: "unat (pr_blockIndexSlotsUsed p1) \<le> Suc (unat (pr_blockIndexSlotsUsed p))" and t1: "ep_tailBlock p1 = Some n"
      and ring: "ep_ring q1 others h t (n # fs') bs xs"
      using st(1) by (simp_all add: started_def)
    show ?thesis
    proof (cases ctor_ok)
      case True
      let ?q = "put_block q1 n (block_construct (blocks q1 ! n) (of_nat t) x)"
      obtain p2 where p2: "construct_in_tail q1 p1 x = Inr ?q" "add_to_block_index p1 = Inr p2"
        "ep_ok ?q (p2\<lparr>ep_tailIndex := of_nat (Suc t)\<rparr>) others h (Suc t) fs' (bs @ [n]) (xs @ [x])"
        "pr_blockIndexSlotsUsed p2 = pr_blockIndexSlotsUsed p1" "pr_blockIndexSize p2 = pr_blockIndexSize p1"
        using enqueue_started [OF st(1) \<open>t mod 32 = 0\<close> w1, of x] by blast
      have n: "n < length (blocks q1)" "n \<notin> others" using ep_ring_used(1,4) [OF ring, of n] by simp_all
      have "same_flags q ?q fs'" using st(3) put_flags_cong [OF n(1)] by (simp add: same_flags_def)
      moreover have "\<forall>y \<in> others. blocks ?q ! y = blocks q ! y" using others put_block_others [OF n(2), of q1 "block_construct (blocks q1 ! n) (of_nat t) x"] by simp
      ultimately have "ep_outcome q p ?q (p2\<lparr>ep_tailIndex := of_nat (Suc t)\<rparr>) Enqueued others h t fs xs x"
        using p2(3-) slots size \<open>t mod 32 = 0\<close> st(2) same_flags_all [OF _ st(2), of q ?q]
        by (intro ep_outcomeI [where fs' = fs']) (auto simp: same_size_def)
      moreover have "EP_enqueue env mode ctor_ok x q p = Inr (?q, p2\<lparr>ep_tailIndex := of_nat (Suc t)\<rparr>, Enqueued)"
        using zero start(1) r True p2(1,2) w(1) by (simp add: EP_enqueue_def Let_def)
      ultimately show ?thesis by blast
    next
      case False
      let ?p = "p1\<lparr>ep_tailBlock := (if ep_tailBlock p = None then ep_tailBlock p1 else ep_tailBlock p), pr_blockIndexSlotsUsed := pr_blockIndexSlotsUsed p\<rparr>"
      have "(if ep_tailBlock p = None then ep_tailBlock p1 else ep_tailBlock p) = Some (last (n # fs' @ bs))"
        using tail st(2) t1 by (auto split: if_splits)
      from enqueue_reverted [OF st(1) w1 this] have "ep_outcome q p q1 ?p Constructor_Threw others h t fs xs x"
        using others size \<open>t mod 32 = 0\<close> by (intro ep_outcomeI [where fs' = "n # fs'"]) (simp_all add: same_size_def)
      moreover have "EP_enqueue env mode ctor_ok x q p = Inr (q1, ?p, Constructor_Threw)"
        using zero start(1) r False by (simp add: EP_enqueue_def Let_def)
      ultimately show ?thesis using False by blast
    qed
  qed
next
  case False
  have w: "ep_tailIndex p = of_nat t" and ring: "ep_ring q others h t fs bs xs" and ix: "eslots p (nblk t) bs (unat (pr_blockIndexSlotsUsed p))"
    and tail: "ep_tailBlock p = (if fs @ bs = [] then None else Some (last (fs @ bs)))"
    using ok unfolding ep_ok_def by blast+
  let ?b = "last bs"
  let ?q = "put_block q ?b (block_construct (blocks q ! ?b) (of_nat t) x)"
  note more = ring_more [OF ring False]
  have b: "?b < length (blocks q)" "?b \<notin> others" using ep_ring_used(1,4) [OF ring, of ?b] more(1) by simp_all
  have flags: "emptyFlags (blocks ?q ! y) = emptyFlags (blocks q ! y)" for y using put_flags_cong [OF b(1)] by simp
  have nz: "ep_tailIndex p AND (BLOCK_SIZE - 1) \<noteq> 0" using False w of_nat_and_31 [of t] by simp
  have "eslots (p\<lparr>ep_tailIndex := of_nat (Suc t)\<rparr>) (nblk (Suc t)) bs (unat (pr_blockIndexSlotsUsed p))"
    using ix nblk_modn(2) [OF False] eslots_cong [of "p\<lparr>ep_tailIndex := of_nat (Suc t)\<rparr>" p] by simp
  then have "ep_ok ?q (p\<lparr>ep_tailIndex := of_nat (Suc t)\<rparr>) others h (Suc t) fs bs (xs @ [x])"
    using ok more(2) [of x] empties_cong [of fs ?q q] flags by (simp add: ep_ok_def)
  then have enq: "ep_outcome q p ?q (p\<lparr>ep_tailIndex := of_nat (Suc t)\<rparr>) Enqueued others h t fs xs x"
    using flags put_block_others [OF b(2)] by (intro ep_outcomeI [where fs' = fs]) (auto simp: all_set_def same_size_def)
  have thr: "ep_outcome q p q p Constructor_Threw others h t fs xs x" using ok unfolding ep_outcome_def by (auto simp: same_size_def)
  have "ep_tailBlock p = Some ?b" using tail more(1) by simp
  then have "EP_enqueue env mode ctor_ok x q p =
      (if ctor_ok then Inr (?q, p\<lparr>ep_tailIndex := of_nat (Suc t)\<rparr>, Enqueued) else Inr (q, p, Constructor_Threw))"
    using nz w b(1) by (simp add: EP_enqueue_def Let_def construct_in_tail_def)
  then show ?thesis using enq thr by (cases ctor_ok) auto
qed

section \<open>Dequeuing\<close>

lemma destroy_one_explicit:
  assumes "block_shape blk" "emptyFlags blk = flags_upto (h mod 32)" "elements blk ! (h mod 32) = Some x"
  defines "blk' \<equiv> (block_destroy blk (of_nat h))\<lparr>emptyFlags := flags_upto (Suc (h mod 32))\<rparr>"
  shows "block_get blk (of_nat h) = Inr x"
    and "set_empty explicit_context (of_nat h) (block_destroy blk (of_nat h)) = Inr (blk', False)"
    and "elements blk' = (elements blk)[h mod 32 := None]" "freeListRefs blk' = freeListRefs blk" "block_shape blk'" "next_block blk' = next_block blk"
    "emptyFlags blk' = flags_upto (Suc (h mod 32))"
proof -
  show "block_get blk (of_nat h) = Inr x"
    using assms(1,3) by (simp add: block_get_def block_shape_def unat_of_nat_mod_32)
  have k: "unat (31 - (of_nat h AND 31) :: u64) = 31 - h mod 32" by (simp add: unat_flag_index unat_of_nat_mod_32)
  show "set_empty explicit_context (of_nat h) (block_destroy blk (of_nat h)) = Inr (blk', False)"
    using assms(2) k flags_upto_Suc [of "h mod 32"] by (simp add: set_empty_def set_flag_def block_destroy_def blk'_def)
  show "elements blk' = (elements blk)[h mod 32 := None]" "freeListRefs blk' = freeListRefs blk" "block_shape blk'" "next_block blk' = next_block blk"
    "emptyFlags blk' = flags_upto (Suc (h mod 32))"
    using assms(1) by (simp_all add: blk'_def block_destroy_def block_shape_def unat_of_nat_mod_32)
qed

text \<open>The first elements of a block go; the last one of them makes the block an empty one.\<close>

lemma ring_consume:
  assumes ring: "ep_ring q others h t fs (b # bs) xs" and n: "n \<le> length xs"
    and blk: "\<And>s. s \<notin> {h mod 32..<h mod 32 + n} \<Longrightarrow> elements blk ! s = elements (blocks q ! b) ! s" "freeListRefs blk = 0" "block_shape blk"
      "next_block blk = next_block (blocks q ! b)" "emptyFlags blk = flags_upto (h mod 32 + n)"
  shows "h mod 32 + n < 32 \<Longrightarrow> ep_ring (put_block q b blk) others (h + n) t fs (b # bs) (drop n xs)"
    and "h mod 32 + n = 32 \<Longrightarrow> ep_ring (put_block q b blk) others (h + n) t (fs @ [b]) bs (drop n xs)"
proof -
  let ?q = "put_block q b blk"
  have I: "h \<le> t" "length xs = t - h" "length (b # bs) = nblk t - h div 32" "distinct (fs @ b # bs)" "holds q (b # bs) h xs"
    "circle q (fs @ b # bs)" "eflags q (b # bs) (h mod 32)"
    using ring unfolding ep_ring_def by blast+
  have b: "b < length (blocks q)" using ep_ring_used(1) [OF ring, of b] by simp
  obtain fl where "pool_inv q fl (set (fs @ b # bs) \<union> others)" using ring by (auto simp: ep_ring_def)
  then have inv: "pool_inv ?q fl (set (fs @ b # bs) \<union> others)" by (rule pool_inv_put_block) (use blk in simp_all)
  have circ: "circle ?q (fs @ b # bs)" using I(6) circle_put [OF b blk(4)] by simp
  have rest: "blocks ?q ! y = blocks q ! y" if "y \<in> set bs" for y using that I(4) by (cases "y = b") auto
  have tail_flags: "emptyFlags (blocks q ! (bs ! j)) = flags_upto 0" if "j < length bs" for j
    using I(7) [unfolded eflags_def, rule_format, of "Suc j"] that by simp
  have words: "h + n \<le> t" "length (drop n xs) = t - (h + n)" "32 * nblk t < h + n + 2 ^ 63" "distinct (fs @ b # bs)" "set (fs @ b # bs) \<inter> others = {}"
    using ring n by (auto simp: ep_ring_def)
  show "ep_ring ?q others (h + n) t fs (b # bs) (drop n xs)" if m: "h mod 32 + n < 32"
  proof -
    have dm: "(h + n) div 32 = h div 32" "(h + n) mod 32 = h mod 32 + n" using div_mod_within [OF m] by simp_all
    have "holds ?q (b # bs) (h + n) (drop n xs)"
      using I(5) _ m b ep_ring_block [OF ring] blk(1) by (rule holds_drop_within) (use I(4) in auto)
    moreover have "eflags ?q (b # bs) ((h + n) mod 32)"
      unfolding eflags_def dm(2)
    proof (intro allI impI)
      fix j
      assume "j < length (b # bs)"
      then show "emptyFlags (blocks ?q ! ((b # bs) ! j)) = flags_upto (if j = 0 then h mod 32 + n else 0)"
        using b blk(5) tail_flags [of "j - 1"] rest by (cases j) auto
    qed
    ultimately show ?thesis using words circ inv I(3) dm(1) unfolding ep_ring_def by auto
  qed
  show "ep_ring ?q others (h + n) t (fs @ [b]) bs (drop n xs)" if m: "h mod 32 + n = 32"
  proof -
    have dm: "(h + n) div 32 = Suc (h div 32)" "(h + n) mod 32 = 0" using div_mod_end [OF m] by simp_all
    have "holds ?q bs (h + n) (drop n xs)"
      using I(5) m ep_ring_block [OF ring] rest by (rule holds_drop_end)
    moreover have "eflags ?q bs ((h + n) mod 32)" unfolding eflags_def dm(2) using tail_flags rest by simp
    ultimately show ?thesis using words circ inv I(3) dm(1) unfolding ep_ring_def by auto
  qed
qed

lemma EP_dequeue_empty:
  assumes "ep_ok q p others h t fs bs []"
  shows "EP_dequeue q p = Inr (q, p, None)"
proof -
  have "h = t" using assms by (simp add: ep_ok_def ep_ring_def)
  then show ?thesis using assms circular_less_than_nat [of t t] by (simp add: EP_dequeue_def ep_ok_def Let_def)
qed

lemma EP_dequeue_spec:
  assumes ok: "ep_ok q p others h t fs bs (x # xs)"
  shows "\<exists>q' p' fs' bs'. EP_dequeue q p = Inr (q', p', Some x) \<and> ep_ok q' p' others (Suc h) t fs' bs' xs \<and>
     (\<forall>y \<in> others. blocks q' ! y = blocks q ! y) \<and> pr_blockIndexSlotsUsed p' = pr_blockIndexSlotsUsed p \<and>
     pr_blockIndexSize p' = pr_blockIndexSize p \<and> fs' @ bs' = fs @ bs \<and>
     (list_all (\<lambda>b. all_set (blocks q ! b)) fs \<longrightarrow> list_all (\<lambda>b. all_set (blocks q' ! b)) fs')"
proof -
  have w: "ep_tailIndex p = of_nat t" "ep_headIndex p = of_nat h" "ep_dequeueOptimisticCount p - ep_dequeueOvercommit p = of_nat h"
    and tail: "ep_tailBlock p = (if fs @ bs = [] then None else Some (last (fs @ bs)))" and ix: "eslots p (nblk t) bs (unat (pr_blockIndexSlotsUsed p))"
    and slots: "length bs + empties q fs \<le> unat (pr_blockIndexSlotsUsed p)" and ring: "ep_ring q others h t fs bs (x # xs)"
    using ok unfolding ep_ok_def by blast+
  have I: "h < t" "32 * nblk t < h + 2 ^ 63" "length bs = nblk t - h div 32" using ring by (auto simp: ep_ring_def)
  then have "t < h + 2 ^ 63" using nblk_bounds(1) [of t] by linarith
  then have less: "circular_less_than (of_nat h :: u64) (of_nat t)" using I(1) circular_less_than_nat [of h t] by simp
  have hn: "h div 32 < nblk t" using I(1) by (rule div_less_nblk)
  then obtain b bs' where bs: "bs = b # bs'" using I(3) by (cases bs) auto
  let ?p = "p\<lparr>ep_dequeueOptimisticCount := ep_dequeueOptimisticCount p + 1, ep_headIndex := of_nat (Suc h)\<rparr>"
  have ix': "eslots ?p (nblk t) bs (unat (pr_blockIndexSlotsUsed p))" using ix eslots_cong [of ?p p] by simp
  have j: "nblk t - 1 - h div 32 < length bs" "length bs - 1 - (nblk t - 1 - h div 32) = 0" using I(3) hn by linarith+
  obtain hdr i where look: "EP_lookup ?p (of_nat h) = Inr (hdr, i)" "entry_block hdr i = Inr b"
    using eslots_lookup [OF ix' hn j(1)] bs unfolding j(2) by auto
  have b: "b < length (blocks q)" "freeListRefs (blocks q ! b) = 0" "block_shape (blocks q ! b)" "b \<notin> others"
    using ep_ring_used [OF ring, of b] bs by simp_all
  have "emptyFlags (blocks q ! b) = flags_upto (h mod 32)" "elements (blocks q ! b) ! (h mod 32) = Some x"
    using ring bs eflags_hd [of q bs "h mod 32"] by (auto simp: ep_ring_def holds_def)
  note one = destroy_one_explicit [OF b(3) this]
  let ?blk = "(block_destroy (blocks q ! b) (of_nat h))\<lparr>emptyFlags := flags_upto (Suc (h mod 32))\<rparr>"
  let ?q = "put_block q b ?blk"
  have word: "ep_dequeueOptimisticCount p + 1 - ep_dequeueOvercommit p = of_nat (Suc h)" using w(3) by (simp add: algebra_simps)
  have run: "EP_dequeue q p = Inr (?q, ?p, Some x)"
    using w less look b(1) one(1,2) by (simp add: EP_dequeue_def Let_def add.commute)
  have others: "\<forall>y \<in> others. blocks ?q ! y = blocks q ! y" using b(4) by (rule put_block_others)
  have "b \<notin> set fs" using ring bs by (auto simp: ep_ring_def)
  then have same: "same_flags q ?q fs" using put_block_others [of b "set fs" q ?blk] by (simp add: same_flags_def)
  note emp = same_flags_empties [OF same]
  have "elements ?blk ! s = elements (blocks q ! b) ! s" if "s \<notin> {h mod 32..<h mod 32 + 1}" for s
    using that by (subst one(3)) (simp add: nth_list_update_neq)
  note ringb = ring_consume [OF ring [unfolded bs], of 1 ?blk, OF _ this _ one(5,6), simplified]
  consider "h mod 32 + 1 < 32" | "h mod 32 + 1 = 32" using mod_less_divisor [of 32 h] by linarith
  then show ?thesis
  proof cases
    case 1
    have "ep_ring ?q others (Suc h) t fs bs xs" using ringb(1) one(4) b(2) 1 bs by simp
    then have "ep_ok ?q ?p others (Suc h) t fs bs xs" using w word ix' slots tail emp by (simp add: ep_ok_def)
    moreover have "list_all (\<lambda>b. all_set (blocks q ! b)) fs \<longrightarrow> list_all (\<lambda>b. all_set (blocks ?q ! b)) fs"
      using same_flags_all [OF same, of fs] by blast
    moreover have "pr_blockIndexSlotsUsed ?p = pr_blockIndexSlotsUsed p" "pr_blockIndexSize ?p = pr_blockIndexSize p" by simp_all
    ultimately show ?thesis using run others by blast
  next
    case 2
    then have "all_set (blocks ?q ! b)" using b(1) one(7) by (simp add: all_set_def)
    then have e: "empties ?q (fs @ [b]) = Suc (empties q fs)" "list_all (\<lambda>b. all_set (blocks ?q ! b)) fs \<Longrightarrow> list_all (\<lambda>b. all_set (blocks ?q ! b)) (fs @ [b])"
      using emp by (simp_all add: empties_def)
    have "ep_ring ?q others (Suc h) t (fs @ [b]) bs' xs" using ringb(2) one(4) b(2) 2 by simp
    then have "ep_ok ?q ?p others (Suc h) t (fs @ [b]) bs' xs"
      using w word eslots_release [of ?p "nblk t" b bs'] ix' bs slots tail e(1) by (simp add: ep_ok_def)
    moreover have "list_all (\<lambda>b. all_set (blocks q ! b)) fs \<longrightarrow> list_all (\<lambda>b. all_set (blocks ?q ! b)) (fs @ [b])"
      using same_flags_all [OF same, of fs] e(2) by blast
    moreover have "pr_blockIndexSlotsUsed ?p = pr_blockIndexSlotsUsed p" "pr_blockIndexSize ?p = pr_blockIndexSize p" by simp_all
    moreover have "(fs @ [b]) @ bs' = fs @ bs" using bs by simp
    ultimately show ?thesis using run others by blast
  qed
qed

end
