(* ===== verification/CQ_ExplicitQueue.thy ===== *)
theory CQ_ExplicitQueue
  imports CQ_Circle
begin

text \<open>
  The explicit producer from its constructor to its destructor. It is a first-in first-out queue over any
  sequence of operations, and when no copy of an element throws, its destructor destroys the elements that are left
  and gives up every block. When the copy of the first element of a block throws, the block stays in the circle with its flags reset, and
  the destructor takes it for a full one.
\<close>

section \<open>The constructor\<close>

lemma initial_pool_size: "unat (initialBlockPoolSize (initial_pool env cap)) \<le> 2 ^ 59"
proof -
  have "unat cap < 2 ^ 64" using unsigned_less [of cap, where ?'a = nat] by simp
  then have d: "unat (cap div 32) < 2 ^ 59" by (simp add: unat_div less_mult_imp_div_less)
  then have "unat (cap div 32 + 1) \<le> 2 ^ 59" by (simp add: unat_word_ariths)
  then have "unat (cap div 32 + (if cap AND 31 = 0 then 0 else 1)) \<le> 2 ^ 59" using d by simp
  then show ?thesis by (simp add: initial_pool_def populate_initial_block_list_def cq_malloc_def Let_def)
qed

lemma initial_index_size:
  assumes "unat n \<le> 2 ^ 59"
  shows "\<exists>k \<le> 58. (let poolBased = drop_bit 1 (ceil_to_pow_2 n); size = drop_bit 1 EXPLICIT_INITIAL_INDEX_SIZE
     in if size < poolBased then poolBased else size) = (2 ^ k :: u64)"
proof -
  have sixteen: "drop_bit 1 EXPLICIT_INITIAL_INDEX_SIZE = (2 ^ 4 :: u64)" by (simp add: EXPLICIT_INITIAL_INDEX_SIZE_def drop_bit_eq_div)
  show ?thesis
  proof (cases "2 ^ 4 < drop_bit 1 (ceil_to_pow_2 n)")
    case True
    have "ceil_to_pow_2 (0 :: u64) = 0" by code_simp
    then have "n \<noteq> 0" using True by auto
    then have "0 < n" by (simp add: word_neq_0_conv)
    moreover have "n \<le> 0x8000000000000000" using assms by (simp add: word_le_nat_alt)
    ultimately obtain m where m: "unat (ceil_to_pow_2 n) = 2 ^ m" "m \<le> 59"
      using ceil_to_pow_2_least [of n] assms by blast
    obtain k where k: "m = Suc k" using True m(1) by (cases m) (auto simp: word_less_nat_alt drop_bit_eq_div unat_div)
    have "unat (drop_bit 1 (ceil_to_pow_2 n)) = 2 ^ k" using m(1) k by (simp add: drop_bit_eq_div unat_div)
    then have "drop_bit 1 (ceil_to_pow_2 n) = 2 ^ k" using m(2) k by (simp add: word_unat_eq_iff unat_pow2)
    then show ?thesis using True sixteen m(2) k by (intro exI [of _ k]) simp
  next
    case False
    then show ?thesis using sixteen by (intro exI [of _ 4]) simp
  qed
qed

lemma ExplicitProducer_init_ok:
  assumes inv: "pool_inv q fl others" and size: "unat (initialBlockPoolSize q) \<le> 2 ^ 59"
  shows "\<exists>p. ExplicitProducer_init env q = Inr (q\<lparr>mallocs := mallocs q + 1\<rparr>, p) \<and>
     ep_ok (q\<lparr>mallocs := mallocs q + 1\<rparr>) p others 0 0 [] [] [] \<and> pr_blockIndexSlotsUsed p = 0"
proof -
  obtain k where k: "k \<le> 58" "(let poolBased = drop_bit 1 (ceil_to_pow_2 (initialBlockPoolSize q)); size = drop_bit 1 EXPLICIT_INITIAL_INDEX_SIZE
     in if size < poolBased then poolBased else size) = 2 ^ k"
    using initial_index_size [OF size] by blast
  let ?p = "\<lparr>ep_tailIndex = 0, ep_headIndex = 0, ep_dequeueOptimisticCount = 0, ep_dequeueOvercommit = 0,
     ep_tailBlock = None, ep_blockIndex = [], pr_blockIndexSlotsUsed = 0, pr_blockIndexSize = 2 ^ k, pr_blockIndexFront = 0\<rparr>"
  have ix: "eindex_ok ?p 0 []" using k(1) unfolding eindex_ok_def by (intro exI [of _ k]) simp
  obtain p' r where new: "EP_new_block_index env 0 q ?p = Inr (q\<lparr>mallocs := mallocs q + 1\<rparr>, p', r)" "eindex_ok p' 0 []"
    "\<exists>ix n f. p' = ?p\<lparr>ep_blockIndex := ix, pr_blockIndexSize := n, pr_blockIndexFront := f\<rparr>"
    using EP_new_block_index_spec [OF ix, of env q] by auto
  have "ExplicitProducer_init env q = Inr (q\<lparr>mallocs := mallocs q + 1\<rparr>, p')"
    using new(1) k(2) by (simp add: ExplicitProducer_init_def Let_def)
  moreover have "ep_ok (q\<lparr>mallocs := mallocs q + 1\<rparr>) p' others 0 0 [] [] []"
    using new(2,3) pool_inv_malloc [OF inv]
    by (auto simp: ep_ok_def ep_ring_def eslots_def nblk_def eflags_def holds_def circle_def empties_def)
  ultimately show ?thesis using new(3) by auto
qed

section \<open>Sessions\<close>

definition EP_enq ::
  "alloc_env \<Rightarrow> AllocationMode \<Rightarrow> 'a \<times> bool \<Rightarrow> 'a BlockPool \<times> ExplicitProducer \<Rightarrow> fault + ('a BlockPool \<times> ExplicitProducer) \<times> bool" where
  "EP_enq env mode e s =
     and_then (EP_enqueue env mode (snd e) (fst e) (fst s) (snd s)) (\<lambda>(q, p, r). Inr ((q, p), r = Enqueued))"

definition EP_deq :: "'a BlockPool \<times> ExplicitProducer \<Rightarrow> fault + ('a BlockPool \<times> ExplicitProducer) \<times> 'a option" where
  "EP_deq s = and_then (EP_dequeue (fst s) (snd s)) (\<lambda>(q, p, r). Inr ((q, p), r))"

text \<open>
  The producer holds the elements \<open>xs\<close> and may grow by \<open>n\<close> slots of the block index. Where \<open>clean\<close>, every block without
  elements counts as empty.
\<close>

definition EP_holds :: "bool \<Rightarrow> nat set \<Rightarrow> nat \<Rightarrow> 'a BlockPool \<times> ExplicitProducer \<Rightarrow> 'a list \<Rightarrow> bool" where
  "EP_holds clean others n s xs \<longleftrightarrow>
     (\<exists>h t fs bs. ep_ok (fst s) (snd s) others h t fs bs xs \<and> unat (pr_blockIndexSlotsUsed (snd s)) + n \<le> 2 ^ 58 \<and>
        (clean \<longrightarrow> list_all (\<lambda>b. all_set (blocks (fst s) ! b)) fs))"

lemma EP_enq_law:
  assumes inv: "EP_holds clean others (Suc n) s xs" and ctor: "clean \<longrightarrow> snd e"
  shows "\<exists>s' ok. EP_enq env mode e s = Inr (s', ok) \<and> EP_holds clean others n s' (if ok then xs @ [fst e] else xs)"
proof -
  obtain h t fs bs where ok: "ep_ok (fst s) (snd s) others h t fs bs xs" "unat (pr_blockIndexSlotsUsed (snd s)) + Suc n \<le> 2 ^ 58"
    "clean \<longrightarrow> list_all (\<lambda>b. all_set (blocks (fst s) ! b)) fs"
    using inv by (auto simp: EP_holds_def)
  have "unat (pr_blockIndexSlotsUsed (snd s)) < 2 ^ 58" using ok(2) by linarith
  then obtain q' p' r where run: "EP_enqueue env mode (snd e) (fst e) (fst s) (snd s) = Inr (q', p', r)"
    "ep_outcome (fst s) (snd s) q' p' r others h t fs xs (fst e)" "r = Constructor_Threw \<longrightarrow> \<not> snd e"
    using EP_enqueue_spec [OF ok(1), of env mode "snd e" "fst e"] by blast
  obtain fs' bs' where fs': "if r = Enqueued then ep_ok q' p' others h (Suc t) fs' bs' (xs @ [fst e]) else ep_ok q' p' others h t fs' bs' xs"
    "r \<noteq> Constructor_Threw \<longrightarrow> list_all (\<lambda>b. all_set (blocks (fst s) ! b)) fs \<longrightarrow> list_all (\<lambda>b. all_set (blocks q' ! b)) fs'"
    and slots: "unat (pr_blockIndexSlotsUsed p') \<le> (if t mod 32 = 0 then Suc (unat (pr_blockIndexSlotsUsed (snd s))) else unat (pr_blockIndexSlotsUsed (snd s)))"
    using run(2) unfolding ep_outcome_def by blast
  then have slots: "unat (pr_blockIndexSlotsUsed p') \<le> Suc (unat (pr_blockIndexSlotsUsed (snd s)))" by (simp split: if_splits)
  then have "EP_holds clean others n (q', p') (if r = Enqueued then xs @ [fst e] else xs)"
    using fs' ok(2,3) ctor run(3) unfolding EP_holds_def by (cases "r = Enqueued") fastforce+
  then show ?thesis using run(1) by (auto simp: EP_enq_def)
qed

lemma EP_deq_law:
  assumes inv: "EP_holds clean others (Suc n) s xs"
  shows "\<exists>s'. EP_deq s = Inr (s', case xs of [] \<Rightarrow> None | x # _ \<Rightarrow> Some x) \<and> EP_holds clean others n s' (tl xs)"
proof -
  obtain h t fs bs where ok: "ep_ok (fst s) (snd s) others h t fs bs xs" "unat (pr_blockIndexSlotsUsed (snd s)) + Suc n \<le> 2 ^ 58"
    "clean \<longrightarrow> list_all (\<lambda>b. all_set (blocks (fst s) ! b)) fs"
    using inv by (auto simp: EP_holds_def)
  show ?thesis
  proof (cases xs)
    case Nil
    then have "EP_deq s = Inr (s, None)" using EP_dequeue_empty [of "fst s" "snd s"] ok(1) by (simp add: EP_deq_def)
    moreover have "EP_holds clean others n s []" using ok Nil unfolding EP_holds_def by auto
    ultimately show ?thesis using Nil by simp
  next
    case (Cons x ys)
    then obtain q' p' fs' bs' where deq: "EP_dequeue (fst s) (snd s) = Inr (q', p', Some x)" "ep_ok q' p' others (Suc h) t fs' bs' ys"
      "pr_blockIndexSlotsUsed p' = pr_blockIndexSlotsUsed (snd s)"
      "list_all (\<lambda>b. all_set (blocks (fst s) ! b)) fs \<longrightarrow> list_all (\<lambda>b. all_set (blocks q' ! b)) fs'"
      using EP_dequeue_spec [of "fst s" "snd s" others h t fs bs x ys] ok(1) by blast
    then have "EP_holds clean others n (q', p') ys" using ok(2,3) unfolding EP_holds_def by fastforce
    then show ?thesis using deq(1) Cons by (auto simp: EP_deq_def)
  qed
qed

interpretation ep: bounded_subqueue "EP_holds False others" "EP_enq env mode" EP_deq fst
  for others env mode
  by unfold_locales (rule EP_enq_law EP_deq_law; simp)+

text \<open>The same producer when no copy of an element throws.\<close>

interpretation ep_clean: bounded_subqueue "EP_holds True others" "\<lambda>x. EP_enq env mode (x, True)" EP_deq id
  for others env mode
proof unfold_locales
  fix n e xs and s :: "'a BlockPool \<times> ExplicitProducer"
  assume inv: "EP_holds True others (Suc n) s xs"
  show "\<exists>s' ok. EP_enq env mode (e, True) s = Inr (s', ok) \<and> EP_holds True others n s' (if ok then xs @ [id e] else xs)"
    unfolding id_apply by (rule EP_enq_law [OF inv, of "(e, True)", unfolded fst_conv snd_conv]) simp
  show "\<exists>s'. EP_deq s = Inr (s', case xs of [] \<Rightarrow> None | x # _ \<Rightarrow> Some x) \<and> EP_holds True others n s' (tl xs)"
    using inv by (rule EP_deq_law)
qed

lemma EP_init_holds:
  assumes "pool_inv q fl others" "unat (initialBlockPoolSize q) \<le> 2 ^ 59"
  shows "\<exists>s. ExplicitProducer_init env q = Inr s \<and> EP_holds clean others (2 ^ 58) s []"
  using ExplicitProducer_init_ok [OF assms, of env] unfolding EP_holds_def by fastforce



section \<open>The destructor\<close>

lemma eback_next:
  assumes "Suc j < 2 ^ k"
  shows "(eback k f (Suc j) + 1) mod 2 ^ k = eback k f j"
proof -
  have "(eback k f (Suc j) + 1) mod 2 ^ k = (f + (2 ^ k - Suc (Suc j)) + 1) mod 2 ^ k" unfolding eback_def by (rule mod_add_left_eq)
  also have "f + (2 ^ k - Suc (Suc j)) + 1 = f + (2 ^ k - Suc j)" using assms by simp
  finally show ?thesis by (simp only: eback_def)
qed

text \<open>The search for the block that is partly dequeued.\<close>

lemma half_slot_spec:
  assumes H: "length (hdr_entries hdr) = 2 ^ k" "k \<le> 59" "L \<le> 2 ^ k" "L \<le> m" "L \<le> 2 ^ 58"
    and E: "\<And>j. j < L \<Longrightarrow> hdr_entries hdr ! eback k f j = (of_nat (32 * (m - 1 - j)), B j)"
    and h: "h mod 32 \<noteq> 0" "h div 32 < m" "m - 1 - h div 32 < L"
  defines "j0 \<equiv> m - 1 - h div 32"
  shows "j0 \<le> j \<Longrightarrow> j < L \<Longrightarrow> j - j0 < fuel \<Longrightarrow> unat i = eback k f j \<Longrightarrow>
     half_slot fuel hdr (2 ^ k - 1) (of_nat h) i = Inr (of_nat (32 * (h div 32)), B j0)"
proof (induction fuel arbitrary: j i)
  case (Suc fuel)
  have e: "entry_at hdr i = Inr (of_nat (32 * (m - 1 - j)), B j)"
    using Suc.prems(2,4) E [of j] H(1) eback_less [of k f j] by (simp add: entry_at_def)
  have jm: "j < m" using Suc.prems(2) H(4) by linarith
  have base: "of_nat (32 * (m - 1 - j)) + 32 = (of_nat (32 * (m - j)) :: u64)"
  proof -
    have "32 * (m - j) = 32 * (m - 1 - j) + 32" using jm by simp
    then show ?thesis by (simp only: of_nat_add of_nat_numeral)
  qed
  have split: "h = 32 * (h div 32) + h mod 32" "h mod 32 < 32" by simp_all
  show ?case
  proof (cases "j = j0")
    case True
    then have "m - j = Suc (h div 32)" "m - 1 - j = h div 32" using h(2) by (simp_all add: j0_def)
    moreover have "\<not> circular_less_than (of_nat (32 * Suc (h div 32)) :: u64) (of_nat h)"
      using split by (subst circular_less_than_of_nat) auto
    ultimately show ?thesis using e base True by (simp add: add.commute)
  next
    case False
    then obtain j' where j': "j = Suc j'" "j0 \<le> j'" using Suc.prems(1) by (cases j) auto
    have "32 * (m - j) \<le> h" "h - 32 * (m - j) \<le> 2 ^ 64" "32 * (m - j) \<noteq> h" "h < 32 * (m - j) + 2 ^ 63"
    proof -
      have "m - j \<le> h div 32" using j' h(2) jm unfolding j0_def by linarith
      then show "32 * (m - j) \<le> h" using split by linarith
      show "32 * (m - j) \<noteq> h" using h(1) by auto
      have "h < 32 * m" using h(2) split by linarith
      moreover have "32 * m = 32 * (m - j) + 32 * j" using jm by simp
      moreover have "32 * j < 2 ^ 63" using Suc.prems(2) H(5) by simp
      ultimately show "h < 32 * (m - j) + 2 ^ 63" "h - 32 * (m - j) \<le> 2 ^ 64" by simp_all
    qed
    then have "circular_less_than (of_nat (32 * (m - j)) :: u64) (of_nat h)" using circular_less_than_nat [of "32 * (m - j)" h] by simp
    then have "half_slot (Suc fuel) hdr (2 ^ k - 1) (of_nat h) i = half_slot fuel hdr (2 ^ k - 1) (of_nat h) ((i + 1) AND (2 ^ k - 1))"
      using e base by simp
    moreover have "unat ((i + 1) AND (2 ^ k - 1)) = eback k f j'"
    proof -
      have "unat i < 2 ^ k" using Suc.prems(4) eback_less [of k f j] by simp
      then have "unat ((i + 1) AND (2 ^ k - 1)) = (eback k f (Suc j') + 1) mod 2 ^ k" using unat_mask_add [OF H(2)] Suc.prems(4) j'(1) by simp
      then show ?thesis using eback_next [of j' k f] Suc.prems(2) H(3) j'(1) by simp
    qed
    ultimately show ?thesis using Suc.IH [of j' "(i + 1) AND (2 ^ k - 1)"] j' Suc.prems(2,3) by simp
  qed
qed simp

lemma halfDequeuedBlock_spec:
  assumes ix: "eslots p m bs (unat (pr_blockIndexSlotsUsed p))" and small: "unat (pr_blockIndexSlotsUsed p) \<le> 2 ^ 58"
    and h: "ep_headIndex p = of_nat h" "length bs = m - h div 32" "h mod 32 \<noteq> 0 \<Longrightarrow> h div 32 < m"
  shows "halfDequeuedBlock p = Inr (if h mod 32 = 0 then None else Some (hd bs))"
proof (cases "h mod 32 = 0")
  case True
  then show ?thesis using h(1) of_nat_and_31 [of h] by (simp add: halfDequeuedBlock_def)
next
  case False
  let ?L = "unat (pr_blockIndexSlotsUsed p)" and ?f = "unat (pr_blockIndexFront p)"
  obtain cs where cs: "eindex_ok p m (cs @ bs)" "length (cs @ bs) = ?L" "?L \<le> m" using ix by (auto simp: eslots_def)
  have hm: "h div 32 < m" using h(3) False by simp
  then have pos: "0 < ?L" "bs \<noteq> []" using h(2) cs(2) by auto
  obtain hdr hs where hdr: "ep_blockIndex p = hdr # hs" using eindex_ok_index [OF cs(1)] pos(1) by (cases "ep_blockIndex p") auto
  obtain k where k: "k \<le> 59" "pr_blockIndexSize p = 2 ^ k" "?L \<le> 2 ^ k" "?f < 2 ^ k" "eslots_ok hdr k (pr_blockIndexFront p) m (cs @ bs)"
    using cs(1) hdr unfolding eindex_ok_def by auto
  have E: "hdr_entries hdr ! eback k ?f j = (of_nat (32 * (m - 1 - j)), Some ((cs @ bs) ! (?L - 1 - j)))" if "j < ?L" for j
    using k(5) that cs(2) by (simp add: eslots_ok_def)
  have len: "length (hdr_entries hdr) = 2 ^ k" using k(5) by (simp add: eslots_ok_def)
  let ?i = "(pr_blockIndexFront p - pr_blockIndexSlotsUsed p) AND (2 ^ k - 1)"
  have i: "unat ?i = eback k ?f (?L - 1)" using unat_mask_sub [OF k(1,4,3)] pos(1) by (simp add: eback_def)
  have j0: "m - 1 - h div 32 = length bs - 1" using h(2) by simp
  have "half_slot (2 ^ k) hdr (2 ^ k - 1) (of_nat h) ?i = Inr (of_nat (32 * (h div 32)), Some ((cs @ bs) ! (?L - 1 - (m - 1 - h div 32))))"
    using half_slot_spec [OF len k(1,3) cs(3) small E False hm _ _ _ _ i, of "2 ^ k"] pos k(3) cs(2) j0 h(2) by simp
  moreover have "?L - 1 - (m - 1 - h div 32) = length cs" using cs(2) j0 pos(2) by (cases bs) auto
  then have "(cs @ bs) ! (?L - 1 - (m - 1 - h div 32)) = hd bs" using pos(2) by (simp add: hd_conv_nth nth_append)
  moreover have "circular_less_than (of_nat (32 * (h div 32)) :: u64) (of_nat h)"
  proof -
    have "h = 32 * (h div 32) + h mod 32" "h mod 32 < 32" by simp_all
    then have "32 * (h div 32) < h" "h < 32 * (h div 32) + 32" using False by linarith+
    then show ?thesis by (subst circular_less_than_nat) simp_all
  qed
  ultimately show ?thesis using False h(1) of_nat_and_31 [of h] hdr k(2) len by (simp add: halfDequeuedBlock_def)
qed

lemma destroy_slots_spec:
  "block_shape blk \<Longrightarrow> i \<le> stop \<Longrightarrow> stop \<le> 32 \<Longrightarrow> stop - i \<le> fuel \<Longrightarrow> \<forall>s \<in> {i..<stop}. elements blk ! s \<noteq> None \<Longrightarrow>
     \<exists>blk'. destroy_slots fuel blk i stop = Inr blk' \<and> emptied blk blk'"
proof (induction fuel arbitrary: blk i)
  case 0
  then show ?case by (simp add: destroy_slots.simps)
next
  case (Suc fuel)
  show ?case
  proof (cases "i = stop \<or> i = 32")
    case True
    then show ?thesis by (simp add: destroy_slots.simps)
  next
    case False
    then have i: "i < stop" "i < 32" using Suc.prems(2,3) by simp_all
    have u: "unat (of_nat i :: u64) mod 32 = i" using i(2) by (simp add: unat_of_nat_mod_32)
    obtain x where "elements blk ! i = Some x" using Suc.prems(5) i(1) by fastforce
    then have get: "block_get blk (of_nat i) = Inr x" using Suc.prems(1) i(2) u by (simp add: block_get_def block_shape_def)
    let ?b = "block_destroy blk (of_nat i)"
    have b: "elements ?b = (elements blk)[i := None]" "block_shape ?b" "emptied blk ?b"
      using Suc.prems(1) u by (auto simp: block_destroy_def block_shape_def emptied_def)
    have "\<forall>s \<in> {Suc i..<stop}. elements ?b ! s \<noteq> None" using Suc.prems(5) b(1) by auto
    moreover have "Suc i \<le> stop" "stop - Suc i \<le> fuel" using Suc.prems(4) i(1) by linarith+
    ultimately obtain blk' where "destroy_slots fuel ?b (Suc i) stop = Inr blk'" "emptied ?b blk'"
      using Suc.IH [OF b(2), of "Suc i"] Suc.prems(3) by blast
    moreover have "destroy_slots (Suc fuel) blk i stop = destroy_slots fuel ?b (Suc i) stop"
      using False get by (subst destroy_slots.simps) simp
    ultimately show ?thesis using emptied_trans [OF b(3)] by auto
  qed
qed

text \<open>Following the \<^verbatim>\<open>next\<close> pointers from a block.\<close>

fun chain :: "'a BlockPool \<Rightarrow> nat \<Rightarrow> nat list \<Rightarrow> bool" where
  "chain q b [] \<longleftrightarrow> True"
| "chain q b (r # rs) \<longleftrightarrow> next_block (blocks q ! b) = Some r \<and> chain q r rs"

lemma chain_cong:
  "(\<And>x. x \<in> set (b # butlast rs) \<Longrightarrow> next_block (blocks q' ! x) = next_block (blocks q ! x)) \<Longrightarrow> chain q' b rs = chain q b rs"
proof (induction rs arbitrary: b)
  case (Cons r rs)
  then show ?case by (cases rs) auto
qed simp

lemma chain_map: "rs \<noteq> [] \<Longrightarrow> chain q b rs \<longleftrightarrow> map (\<lambda>x. next_block (blocks q ! x)) (b # butlast rs) = map Some rs"
proof (induction rs arbitrary: b)
  case (Cons r rs)
  then show ?case by (cases rs) auto
qed simp

lemma circle_chain:
  assumes "circle q rs" "rs \<noteq> []"
  shows "chain q (last rs) rs"
proof -
  obtain r rest where rs: "rs = r # rest" using assms(2) by (cases rs) auto
  have "map (\<lambda>x. next_block (blocks q ! x)) (butlast rs) = butlast (map Some (rotate1 rs))"
    using assms(1) by (simp add: circle_def map_butlast)
  also have "\<dots> = map Some rest" by (simp add: rs butlast_append)
  finally show ?thesis unfolding chain_map [OF assms(2)] using circle_last [OF assms] by (simp add: rs)
qed

lemma circle_prefix: "circle q ((n # ns) @ rs) \<Longrightarrow> chain q n ns"
proof -
  have "chain q b (ns @ rs) \<Longrightarrow> chain q b ns" for b by (induction ns arbitrary: b) auto
  then show "circle q ((n # ns) @ rs) \<Longrightarrow> chain q n ns" using circle_chain [of q "(n # ns) @ rs"] by simp
qed

text \<open>The slots of a block that the destructor takes for constructed are.\<close>

definition destructible :: "ExplicitProducer \<Rightarrow> nat option \<Rightarrow> 'a BlockPool \<Rightarrow> nat \<Rightarrow> bool" where
  "destructible p half q b \<longleftrightarrow> all_set (blocks q ! b) \<or>
     (first_slot p half b \<le> stop_slot p b \<and> stop_slot p b \<le> 32 \<and>
      (\<forall>s \<in> {first_slot p half b..<stop_slot p b}. elements (blocks q ! b) ! s \<noteq> None))"

lemma destroy_circle_spec:
  assumes "pool_inv q fl used" "set rs \<subseteq> used" "distinct rs" "rs \<noteq> []" "chain q b rs" "b < length (blocks q)"
    "ep_tailBlock p = Some (last rs)" "\<And>r. r \<in> set rs \<Longrightarrow> destructible p half q r" "length rs \<le> fuel"
  shows "\<exists>q'. destroy_circle fuel p half q b = Inr q' \<and> pool_inv q' fl used \<and> length (blocks q') = length (blocks q) \<and>
     (\<forall>x. next_block (blocks q' ! x) = next_block (blocks q ! x)) \<and> (\<forall>x. x \<notin> set rs \<longrightarrow> blocks q' ! x = blocks q ! x)"
  using assms
proof (induction fuel arbitrary: q b rs)
  case (Suc fuel)
  note inv = Suc.prems(1)
  obtain r rest where rs: "rs = r # rest" using Suc.prems(4) by (cases rs) auto
  have r: "r < length (blocks q)" "block_shape (blocks q ! r)" "freeListRefs (blocks q ! r) = 0" "r \<in> used"
    using pool_invD(4,8) [OF inv] Suc.prems(2) rs by (auto simp: list_all_length)
  have tail: "Some r = ep_tailBlock p \<longleftrightarrow> rest = []" using Suc.prems(3,7) rs by auto
  obtain q1 where q1: "destroy_block p half q r = Inr q1"
    "pool_inv q1 fl used" "length (blocks q1) = length (blocks q)" "\<And>x. next_block (blocks q1 ! x) = next_block (blocks q ! x)"
    "\<And>x. x \<noteq> r \<Longrightarrow> blocks q1 ! x = blocks q ! x"
  proof (cases "all_set (blocks q ! r)")
    case True
    then show ?thesis using that [of q] inv r(1) by (simp add: destroy_block_def is_empty_def all_set_def)
  next
    case False
    then have d: "first_slot p half r \<le> stop_slot p r" "stop_slot p r \<le> 32"
      "\<forall>s \<in> {first_slot p half r..<stop_slot p r}. elements (blocks q ! r) ! s \<noteq> None"
      using Suc.prems(8) [of r] rs by (auto simp: destructible_def)
    have "stop_slot p r - first_slot p half r \<le> 32" using d(2) by linarith
    then obtain blk where blk: "destroy_slots 32 (blocks q ! r) (first_slot p half r) (stop_slot p r) = Inr blk" "emptied (blocks q ! r) blk"
      using destroy_slots_spec [OF r(2) d(1,2) _ d(3)] by blast
    have "pool_inv (put_block q r blk) fl used"
      using inv r(4) by (rule pool_inv_put_block) (use emptied_simps [OF blk(2)] r in simp_all)
    moreover have "next_block (blocks (put_block q r blk) ! x) = next_block (blocks q ! x)" for x
      using emptied_simps(1) [OF blk(2)] r(1) by (cases "x = r") simp_all
    ultimately show ?thesis using that [of "put_block q r blk"] False blk(1) r(1) by (simp add: destroy_block_def is_empty_def all_set_def)
  qed
  have "destroy_circle (Suc fuel) p half q b = (if Some r \<noteq> ep_tailBlock p then destroy_circle fuel p half q1 r else Inr q1)"
    using Suc.prems(5,6) rs q1(1) by (simp add: next_of_def)
  then have run: "destroy_circle (Suc fuel) p half q b = (if rest \<noteq> [] then destroy_circle fuel p half q1 r else Inr q1)"
    unfolding tail by simp
  show ?case
  proof (cases "rest = []")
    case True
    then show ?thesis using run q1(2-5) rs by auto
  next
    case False
    have "chain q1 r rest" using Suc.prems(5) rs chain_cong [of r rest q1 q] q1(4) by simp
    moreover have "destructible p half q1 x" if "x \<in> set rest" for x
      using Suc.prems(3) Suc.prems(8) [of x] that rs q1(5) [of x] by (cases "x = r") (auto simp: destructible_def)
    ultimately obtain q' where q': "destroy_circle fuel p half q1 r = Inr q'" "pool_inv q' fl used" "length (blocks q') = length (blocks q1)"
      "\<forall>x. next_block (blocks q' ! x) = next_block (blocks q1 ! x)" "\<forall>x. x \<notin> set rest \<longrightarrow> blocks q' ! x = blocks q1 ! x"
      using Suc.IH [OF q1(2), of rest r] Suc.prems rs False r(1) q1(3) by auto
    then show ?thesis using run False q1(3-5) rs by (intro exI [of _ q']) simp
  qed
qed simp

lemma pool_inv_shrink: "pool_inv q fl used \<Longrightarrow> used' \<subseteq> used \<Longrightarrow> pool_inv q fl used'"
  using pool_invD [of q fl used] by (intro pool_invI) blast+

lemma release_circle_spec:
  assumes "pool_inv q fl (set (b # rs) \<union> others)" "set (b # rs) \<inter> others = {}" "distinct (b # rs)" "chain q b (rs @ [tb])"
    "tb \<notin> set rs" "length rs < fuel"
  shows "\<exists>q' fl'. release_circle fuel tb q b = Inr q' \<and> pool_inv q' fl' others \<and> (\<forall>y \<in> others. blocks q' ! y = blocks q ! y)"
  using assms
proof (induction fuel arbitrary: q fl b rs)
  case (Suc fuel)
  note inv = Suc.prems(1)
  have b: "b < length (blocks q)" using pool_invD(4) [OF inv] by auto
  obtain n where n: "next_block (blocks q ! b) = Some n" "n = hd (rs @ [tb])" using Suc.prems(4) by (cases rs) auto
  obtain q1 fl1 where q1: "(if dynamicallyAllocated (blocks q ! b) then Inr q else add_block_to_free_list q b) = Inr q1"
    "pool_inv q1 fl1 (set rs \<union> others)" "\<And>x. x \<noteq> b \<Longrightarrow> blocks q1 ! x = blocks q ! x"
  proof (cases "dynamicallyAllocated (blocks q ! b)")
    case True
    have "pool_inv q fl (set rs \<union> others)" using inv by (rule pool_inv_shrink) auto
    then show ?thesis using that [of q fl] True by simp
  next
    case False
    obtain q' where "add_block_to_free_list q b = Inr q'" "pool_inv q' (b # fl) (set (b # rs) \<union> others - {b})"
      "\<forall>x. x \<noteq> b \<longrightarrow> blocks q' ! x = blocks q ! x"
      using add_block_to_free_list_spec [OF inv, of b] by auto
    moreover have "set (b # rs) \<union> others - {b} = set rs \<union> others" using Suc.prems(2,3) by auto
    ultimately show ?thesis using that [of q' "b # fl"] False by simp
  qed
  have out: "\<forall>y \<in> others. blocks q1 ! y = blocks q ! y" using q1(3) Suc.prems(2) by (metis Int_iff empty_iff list.set_intros(1))
  have run: "release_circle (Suc fuel) tb q b = (if n \<noteq> tb then release_circle fuel tb q1 n else Inr q1)"
    using n(1) b q1(1) by (simp add: next_of_def)
  show ?case
  proof (cases rs)
    case Nil
    then show ?thesis using run n(2) q1(2) out by auto
  next
    case (Cons r rest)
    have "chain q r (rest @ [tb])" using Suc.prems(4) Cons by simp
    moreover have "next_block (blocks q1 ! x) = next_block (blocks q ! x)" if "x \<in> set (r # butlast (rest @ [tb]))" for x
    proof -
      have "x \<in> set rs" using that Cons by simp
      then have "x \<noteq> b" using Suc.prems(3) by auto
      then show ?thesis using q1(3) by simp
    qed
    ultimately have "chain q1 r (rest @ [tb])" using chain_cong [of r "rest @ [tb]" q1 q] by blast
    then obtain q' fl' where "release_circle fuel tb q1 r = Inr q'" "pool_inv q' fl' others" "\<forall>y \<in> others. blocks q' ! y = blocks q1 ! y"
      using Suc.IH [of q1 fl1 r rest] q1(2) Suc.prems(2,3,5,6) Cons by auto
    then show ?thesis using run n(2) Cons Suc.prems(5) out by auto
  qed
qed simp

text \<open>The elements the destructor takes for constructed are the ones the producer holds.\<close>

lemma ep_destructible:
  assumes ok: "ep_ok q p others h t fs bs xs" and clean: "list_all (\<lambda>b. all_set (blocks q ! b)) fs" and r: "r \<in> set (fs @ bs)"
  shows "destructible p (if h mod 32 = 0 then None else Some (hd bs)) q r"
proof (cases "r \<in> set fs")
  case True
  then show ?thesis using clean by (simp add: destructible_def list_all_iff)
next
  case False
  let ?half = "if h mod 32 = 0 then None else Some (hd bs)"
  have w: "ep_tailIndex p = of_nat t" "ep_headIndex p = of_nat h" and ring: "ep_ring q others h t fs bs xs"
    and tail: "ep_tailBlock p = (if fs @ bs = [] then None else Some (last (fs @ bs)))"
    using ok unfolding ep_ok_def by blast+
  have I: "h \<le> t" "length xs = t - h" "length bs = nblk t - h div 32" "distinct bs" "holds q bs h xs" using ring by (simp_all add: ep_ring_def)
  obtain j where j: "j < length bs" "r = bs ! j" using r False by (auto simp: in_set_conv_nth)
  let ?base = "32 * (h div 32 + j)"
  have hd: "r = hd bs \<longleftrightarrow> j = 0" using j I(4) by (cases bs) (auto simp: nth_Cons')
  have last: "r = last bs \<longleftrightarrow> j = length bs - 1" using j I(4) nth_eq_iff_index_eq [OF I(4) j(1), of "length bs - 1"] by (subst last_conv_nth) auto
  have first: "first_slot p ?half r = (if j = 0 then h mod 32 else 0)"
    using hd w(2) by (auto simp: first_slot_def and_31_eq_mod unat_of_nat_mod_32)
  have t31: "unat (ep_tailIndex p AND 31) = t mod 32" "ep_tailIndex p AND 31 = 0 \<longleftrightarrow> t mod 32 = 0"
    using w(1) of_nat_and_31 [of t] by (simp_all add: and_31_eq_mod unat_of_nat_mod_32)
  have stop: "stop_slot p r = (if j = length bs - 1 \<and> t mod 32 \<noteq> 0 then t mod 32 else 32)"
  proof -
    have "bs \<noteq> []" using j(1) by auto
    then have "ep_tailBlock p = Some (last bs)" using tail by simp
    then show ?thesis using last t31 by (auto simp: stop_slot_def Let_def)
  qed
  have fin: "?base + stop_slot p r \<le> t"
  proof (cases "j = length bs - 1")
    case True
    then have blk: "h div 32 + j = nblk t - 1" using I(3) j(1) by linarith
    show ?thesis
    proof (cases "t mod 32 = 0")
      case True
      then show ?thesis using nblk_mod0(2) [OF True] blk stop j(1) I(3) by simp
    next
      case False
      then show ?thesis using nblk_modn(1) [OF False] blk stop True mult_div_mod_eq [of 32 t] by simp
    qed
  next
    case False
    then have "h div 32 + j + 2 \<le> nblk t" using I(3) j(1) by linarith
    then show ?thesis using nblk_bounds(2) [of t] stop False by simp
  qed
  have start: "h \<le> ?base + first_slot p ?half r" using first mult_div_mod_eq [of 32 h] by (cases "j = 0") auto
  have "elements (blocks q ! r) ! s \<noteq> None" if s: "s \<in> {first_slot p ?half r..<stop_slot p r}" for s
  proof -
    have "s < 32" using s stop by (auto split: if_splits)
    have idx: "h \<le> ?base + s" "?base + s < t" using s start fin by auto
    have dm: "(32 * c + s) div 32 = c" "(32 * c + s) mod 32 = s" for c using \<open>s < 32\<close> by simp_all
    have "elements (blocks q ! (bs ! ((?base + s) div 32 - h div 32))) ! ((?base + s) mod 32) = Some (xs ! (?base + s - h))"
      using idx I(1,2,5) unfolding holds_def by (metis diff_less_mono le_add_diff_inverse)
    then show ?thesis unfolding dm using j(2) by simp
  qed
  moreover have "stop_slot p r \<le> 32" using stop by simp
  moreover have "first_slot p ?half r \<le> stop_slot p r"
  proof (cases "j = 0 \<and> j = length bs - 1 \<and> t mod 32 \<noteq> 0")
    case True
    then have "h div 32 = nblk t - 1" using I(3) j(1) by linarith
    then have "h div 32 = t div 32" using nblk_modn(1) [of t] True by simp
    then have "h mod 32 \<le> t mod 32" using I(1) mult_div_mod_eq [of 32 h] mult_div_mod_eq [of 32 t] by linarith
    then show ?thesis using first stop True by simp
  next
    case False
    then show ?thesis using first stop by (auto simp: less_imp_le)
  qed
  ultimately show ?thesis unfolding destructible_def by blast
qed

lemma EP_destroy_spec:
  assumes ok: "ep_ok q p others h t fs bs xs" and clean: "list_all (\<lambda>b. all_set (blocks q ! b)) fs"
    and small: "unat (pr_blockIndexSlotsUsed p) \<le> 2 ^ 58"
  shows "\<exists>q' fl. ExplicitProducer_destroy q p = Inr q' \<and> pool_inv q' fl others \<and> (\<forall>y \<in> others. blocks q' ! y = blocks q ! y)"
proof (cases "fs @ bs = []")
  case True
  then show ?thesis using ok by (auto simp: ep_ok_def ep_ring_def ExplicitProducer_destroy_def)
next
  case False
  let ?R = "fs @ bs"
  let ?half = "if h mod 32 = 0 then None else Some (hd bs)"
  have w: "ep_headIndex p = of_nat h" and ix: "eslots p (nblk t) bs (unat (pr_blockIndexSlotsUsed p))" and ring: "ep_ring q others h t fs bs xs"
    and tail: "ep_tailBlock p = Some (last ?R)"
    using ok False unfolding ep_ok_def by (simp_all only: if_False simp_thms)
  have I: "h \<le> t" "length bs = nblk t - h div 32" "distinct ?R" "set ?R \<inter> others = {}" "circle q ?R" using ring by (simp_all add: ep_ring_def)
  obtain fl where inv: "pool_inv q fl (set ?R \<union> others)" using ring by (auto simp: ep_ring_def)
  have "h div 32 < nblk t" if "h mod 32 \<noteq> 0"
  proof (cases "h = t")
    case True
    then show ?thesis using nblk_modn(1) [of t] that by simp
  next
    case False
    then show ?thesis using I(1) by (intro div_less_nblk) simp
  qed
  then have half: "halfDequeuedBlock p = Inr ?half" by (rule halfDequeuedBlock_spec [OF ix small w I(2)])
  have lR: "last ?R \<in> set ?R" using last_in_set [OF False] .
  have bound: "x < length (blocks q)" if "x \<in> set ?R" for x using pool_invD(4) [OF inv] that by blast
  have len: "length ?R \<le> length (blocks q)" by (rule ep_ring_length [OF ring])
  obtain q1 where q1: "destroy_circle (length (blocks q)) p ?half q (last ?R) = Inr q1" "pool_inv q1 fl (set ?R \<union> others)"
    "length (blocks q1) = length (blocks q)" "\<forall>x. next_block (blocks q1 ! x) = next_block (blocks q ! x)"
    "\<forall>x. x \<notin> set ?R \<longrightarrow> blocks q1 ! x = blocks q ! x"
    using destroy_circle_spec [OF inv _ I(3) False circle_chain [OF I(5) False] bound [OF lR] tail ep_destructible [OF ok clean] len] by auto
  let ?rs = "butlast ?R"
  have R: "?R = ?rs @ [last ?R]" using False by simp
  have set_R: "set (last ?R # ?rs) = set ?R" by (subst (3) R) auto
  have dist: "distinct (last ?R # ?rs)" using I(3) by (subst (asm) R) auto
  have "chain q1 (last ?R) ?R" using circle_chain [OF I(5) False] chain_cong [of "last ?R" ?R q1 q] q1(4) by blast
  then have ch: "chain q1 (last ?R) (?rs @ [last ?R])" using R by simp
  have "length ?rs < length (blocks q1)" using len q1(3) False by (simp add: less_le_trans [OF _ len])
  moreover have "pool_inv q1 fl (set (last ?R # ?rs) \<union> others)" "set (last ?R # ?rs) \<inter> others = {}" "last ?R \<notin> set ?rs"
    unfolding set_R using q1(2) I(4) dist by simp_all
  ultimately obtain q2 fl2 where q2: "release_circle (length (blocks q1)) (last ?R) q1 (last ?R) = Inr q2" "pool_inv q2 fl2 others"
    "\<forall>y \<in> others. blocks q2 ! y = blocks q1 ! y"
    using release_circle_spec [of q1 fl "last ?R" ?rs others "last ?R"] dist ch by blast
  have "ExplicitProducer_destroy q p = Inr q2" unfolding ExplicitProducer_destroy_def tail using half q1(1) q2(1) by simp
  moreover have "\<forall>y \<in> others. blocks q2 ! y = blocks q ! y" using q2(3) q1(5) I(4) by (metis Int_iff empty_iff)
  ultimately show ?thesis using q2(2) by blast
qed




end
