(* ===== verification/CQ_ImplicitBulk.thy ===== *)
theory CQ_ImplicitBulk
  imports CQ_Copy
begin

text \<open>
  The bulk enqueue of the implicit producer (\<^verbatim>\<open>enqueue_bulk\<close> of \<^verbatim>\<open>struct ImplicitProducer\<close>,
  \<^verbatim>\<open>src/utils/concurrentqueue-1.0.3/concurrentqueue.h\<close>). It first takes all the blocks it needs and enters them into the block index, then copies
  the elements. When an allocation fails, or a copy throws, it takes the entries out of the index again and gives the blocks
  back to the pool.

  It is shown that a bulk enqueue is all or nothing: it appends all the elements, or leaves the producer with the
  elements it had.
\<close>

section \<open>Operations\<close>

text \<open>The blocks are linked by their \<^verbatim>\<open>next\<close> pointers, and to the tail block when that has room.\<close>

definition link_tail :: "'a BlockPool \<Rightarrow> nat option \<Rightarrow> nat \<Rightarrow> fault + 'a BlockPool" where
  "link_tail q tb newBlock =
     (case tb of
        None \<Rightarrow> Inl Assertion_Failed
      | Some b \<Rightarrow> and_then (deref q (Some b)) (\<lambda>blk. Inr (put_block q b (blk\<lparr>next_block := Some newBlock\<rparr>))))"

text \<open>One round of the loop that prepares the blocks: a new block with its entry in the index, or \<open>None\<close> when it cannot be had.\<close>

definition IP_take_block ::
  "alloc_env \<Rightarrow> AllocationMode \<Rightarrow> u64 \<Rightarrow> u64 \<Rightarrow> nat option \<Rightarrow> 'a BlockPool \<Rightarrow> ImplicitProducer \<Rightarrow>
     fault + 'a BlockPool \<times> ImplicitProducer \<times> nat option" where
  "IP_take_block env allocMode startTailIndex currentTailIndex first q p =
     (let head = headIndex p
      in if circular_less_than currentTailIndex head then Inl Assertion_Failed
         else if subqueue_full head currentTailIndex then Inr (q, p, None)
         else and_then (insert_block_index_entry env allocMode currentTailIndex q (index_state p)) (\<lambda>(q, ix, entry).
           let p = p\<lparr>index_state := ix\<rparr>
           in case entry of
                None \<Rightarrow> Inr (q, p, None)
              | Some idxEntry \<Rightarrow>
                  and_then (requisition_block env allocMode q) (\<lambda>(q, newBlock).
                    case newBlock of
                      None \<Rightarrow> and_then (revert_entry p idxEntry) (\<lambda>p. Inr (q, p, None))
                    | Some b \<Rightarrow>
                        and_then (deref q (Some b)) (\<lambda>blk.
                          let q = put_block q b ((reset_empty implicit_context blk)\<lparr>next_block := None\<rparr>);
                              p = p\<lparr>index_state := store_value (index_state p) idxEntry (Some b)\<rparr>
                          in and_then
                               (if startTailIndex AND (BLOCK_SIZE - 1) \<noteq> 0 \<or> first \<noteq> None then link_tail q (tailBlock p) b
                                else Inr q) (\<lambda>q.
                               Inr (q, p\<lparr>tailBlock := Some b\<rparr>, Some b))))))"

text \<open>The result of the loop also says whether all the blocks could be had. Every round makes \<^verbatim>\<open>blockBaseDiff\<close> one block smaller.\<close>

fun IP_prepare ::
  "nat \<Rightarrow> alloc_env \<Rightarrow> AllocationMode \<Rightarrow> u64 \<Rightarrow> u64 \<Rightarrow> u64 \<Rightarrow> nat option \<Rightarrow> nat option \<Rightarrow> 'a BlockPool \<Rightarrow> ImplicitProducer \<Rightarrow>
     fault + 'a BlockPool \<times> ImplicitProducer \<times> nat option \<times> nat option \<times> bool" where
  "IP_prepare fuel env allocMode startTailIndex diff currentTailIndex first endBlock q p =
     (if diff = 0 then Inr (q, p, first, endBlock, True)
      else case fuel of
          0 \<Rightarrow> Inl Diverges
        | Suc fuel \<Rightarrow>
            let diff = diff - BLOCK_SIZE;
                currentTailIndex = currentTailIndex + BLOCK_SIZE
            in and_then (IP_take_block env allocMode startTailIndex currentTailIndex first q p) (\<lambda>(q, p, newBlock).
                 case newBlock of
                   None \<Rightarrow> Inr (q, p, first, endBlock, False)
                 | Some b \<Rightarrow>
                     IP_prepare fuel env allocMode startTailIndex diff currentTailIndex
                       (if first = None then Some b else first) (Some b) q p))"

declare IP_prepare.simps [simp del]

text \<open>Take the entries of the blocks of a chain out of the block index.\<close>

fun undo_entries :: "nat \<Rightarrow> u64 \<Rightarrow> 'a BlockPool \<Rightarrow> nat option \<Rightarrow> BlockIndex \<Rightarrow> fault + BlockIndex" where
  "undo_entries fuel currentTailIndex q None ix = Inr ix"
| "undo_entries 0 currentTailIndex q (Some block) ix = Inl Diverges"
| "undo_entries (Suc fuel) currentTailIndex q (Some block) ix =
     (let currentTailIndex = currentTailIndex + BLOCK_SIZE
      in and_then (get_block_index_entry_for_index ix currentTailIndex) (\<lambda>idxEntry.
         and_then (rewind_block_index_tail (store_value ix idxEntry None)) (\<lambda>ix.
         and_then (deref q (Some block)) (\<lambda>blk.
           undo_entries fuel currentTailIndex q (next_block blk) ix))))"

definition IP_undo ::
  "u64 \<Rightarrow> nat option \<Rightarrow> nat option \<Rightarrow> 'a BlockPool \<Rightarrow> ImplicitProducer \<Rightarrow> fault + 'a BlockPool \<times> ImplicitProducer" where
  "IP_undo startTailIndex startBlock first q p =
     and_then (undo_entries (length (blocks q)) ((startTailIndex - 1) AND NOT (BLOCK_SIZE - 1)) q first (index_state p)) (\<lambda>ix.
     and_then (add_blocks_to_free_list q first) (\<lambda>q.
       Inr (q, p\<lparr>index_state := ix, tailBlock := startBlock\<rparr>)))"

definition IP_enqueue_bulk ::
  "alloc_env \<Rightarrow> AllocationMode \<Rightarrow> ('a \<times> bool) list \<Rightarrow> 'a BlockPool \<Rightarrow> ImplicitProducer \<Rightarrow>
     fault + 'a BlockPool \<times> ImplicitProducer \<times> enqueue_result" where
  "IP_enqueue_bulk env allocMode items q p =
     (let startTailIndex = tailIndex p;
          startBlock = tailBlock p;
          count = of_nat (length items);
          currentTailIndex = (startTailIndex - 1) AND NOT (BLOCK_SIZE - 1);
          diff = ((startTailIndex + count - 1) AND NOT (BLOCK_SIZE - 1)) - currentTailIndex
      in and_then (IP_prepare (unat diff div 32) env allocMode startTailIndex diff currentTailIndex None startBlock q p)
           (\<lambda>(q, p, first, endBlock, ok).
           if \<not> ok then and_then (IP_undo startTailIndex startBlock first q p) (\<lambda>(q, p). Inr (q, p, Not_Enqueued))
           else if \<not> (startTailIndex AND (BLOCK_SIZE - 1) \<noteq> 0 \<or> first \<noteq> None \<or> count = 0) then Inl Assertion_Failed
           else
             let newTailIndex = startTailIndex + count;
                 firstBlock = (if startTailIndex AND (BLOCK_SIZE - 1) = 0 \<and> first \<noteq> None then first else startBlock)
             in and_then (copy_blocks (Suc (length items)) newTailIndex endBlock q firstBlock startTailIndex items) (\<lambda>(q, tb, i, ok).
                  if ok then Inr (q, p\<lparr>tailBlock := tb, tailIndex := newTailIndex\<rparr>, Enqueued)
                  else
                    case (if startTailIndex AND (BLOCK_SIZE - 1) = 0 then first else startBlock) of
                      None \<Rightarrow> Inl Undefined_Behaviour
                    | Some b \<Rightarrow>
                        and_then (destroy_copied (Suc (length items)) i tb q b startTailIndex) (\<lambda>q.
                        and_then (IP_undo startTailIndex startBlock first q p) (\<lambda>(q, p).
                          Inr (q, p, Constructor_Threw))))))"

section \<open>Taking entries out of the block index\<close>

lemma ring_offset_forward:
  fixes t :: u64
  assumes "j < 2 ^ 59" "k \<le> 59" "unat t < 2 ^ k"
  shows "unat ((t + (of_nat (32 * (n + j)) - of_nat (32 * n)) div 32) AND (2 ^ k - 1)) = (unat t + j) mod 2 ^ k"
proof -
  have "(of_nat (32 * (n + j)) - of_nat (32 * n) :: u64) = of_nat (32 * j)" by (simp add: algebra_simps)
  moreover have "unat (of_nat (32 * j) :: u64) = 32 * j" using assms(1) by (intro unat_of_nat_small) simp
  then have "unat (of_nat (32 * j) div 32 :: u64) = j" by (simp add: unat_div)
  moreover have "unat t + j < 2 ^ LENGTH(64)" using assms pow2_le_59 [OF assms(2)] by simp
  ultimately have "unat (t + (of_nat (32 * (n + j)) - of_nat (32 * n)) div 32) = unat t + j"
    using unat_add_lem [of t "of_nat (32 * j) div 32"] by simp
  then show ?thesis by (simp only: and_pow2_minus_one)
qed

lemma rewound_tail:
  fixes t :: u64
  assumes "k \<le> 59"
  shows "unat ((t - 1) AND (2 ^ k - 1)) = (unat t + (2 ^ k - 1)) mod 2 ^ k"
proof (cases "t = 0")
  case True
  then have "unat (t - 1) = 2 ^ 64 - 1" by (simp add: unsigned_minus_1_eq_mask mask_eq_exp_minus_1)
  moreover have "(2 ^ 64 - 1) mod 2 ^ k = (2 ^ k - 1 :: nat)" using assms le_imp_power_dvd [of k 64 "2::nat"] by (intro pred_mod) simp_all
  ultimately show ?thesis unfolding and_pow2_minus_one using True by simp
next
  case False
  then have "unat (t - 1) = unat t - 1" "0 < unat t" using unat_minus_one_pos [of 0 t] by (simp_all add: word_less_nat_alt unat_gt_0)
  moreover from this have "unat t + (2 ^ k - 1) = (unat t - 1) + 2 ^ k" by simp
  ultimately show ?thesis by (simp only: and_pow2_minus_one mod_add_self2)
qed

lemma back_pos_move:
  assumes "length (index H) = N"
  shows "i + j \<le> N \<Longrightarrow> (back_pos H i + (N - j)) mod N = back_pos H (i + j)"
    and "j \<le> i \<Longrightarrow> i \<le> N \<Longrightarrow> (back_pos H i + j) mod N = back_pos H (i - j)"
proof -
  assume "i + j \<le> N"
  then have "unat (tail H) + (N - i) + (N - j) = unat (tail H) + (N - (i + j)) + N" by simp
  moreover have "(back_pos H i + (N - j)) mod N = (unat (tail H) + (N - i) + (N - j)) mod N"
    unfolding back_pos_def assms by (rule mod_add_left_eq)
  ultimately show "(back_pos H i + (N - j)) mod N = back_pos H (i + j)" by (simp only: back_pos_def assms mod_add_self2)
next
  assume "j \<le> i" "i \<le> N"
  then have "unat (tail H) + (N - i) + j = unat (tail H) + (N - (i - j))" by simp
  moreover have "(back_pos H i + j) mod N = (unat (tail H) + (N - i) + j) mod N"
    unfolding back_pos_def assms by (rule mod_add_left_eq)
  ultimately show "(back_pos H i + j) mod N = back_pos H (i - j)" by (simp only: back_pos_def assms)
qed

text \<open>
  The block index after \<open>i\<close> rounds of the loop, which takes the \<open>n\<close> newest entries out, the oldest of them first, while it moves the tail back from
  the newest.
\<close>

definition undone :: "BlockIndex \<Rightarrow> BlockIndexHeader \<Rightarrow> nat \<Rightarrow> nat \<Rightarrow> BlockIndex \<Rightarrow> bool" where
  "undone ix0 H n i ix \<longleftrightarrow>
     (\<exists>hs. blockIndex ix = H\<lparr>tail := of_nat (back_pos H i)\<rparr> # hs) \<and> nextBlockIndexCapacity ix = nextBlockIndexCapacity ix0 \<and>
     length (entry_heap ix) = length (entry_heap ix0) \<and>
     (\<forall>j < length (index H). entry_heap ix ! back_ptr H j =
        (if n - i \<le> j \<and> j < n then (back_entry ix0 H j)\<lparr>entry_value := None\<rparr> else back_entry ix0 H j))"

lemma rewound_shape:
  assumes "ring_shape ix0 H k" "undone ix0 H n i ix" "i \<le> 2 ^ k"
  defines "H' \<equiv> H\<lparr>tail := of_nat (back_pos H i)\<rparr>"
  shows "ring_shape ix H' k" "unat (tail H') = back_pos H i"
    and "i + j \<le> 2 ^ k \<Longrightarrow> back_ptr H' j = back_ptr H (i + j)"
    and "2 ^ k \<le> i + j \<Longrightarrow> j \<le> 2 ^ k \<Longrightarrow> back_ptr H' j = back_ptr H (i + j - 2 ^ k)"
proof -
  have len: "length (index H) = 2 ^ k" "k \<le> 59" using assms(1) by (simp_all add: ring_shape_def)
  have pos: "back_pos H i < 2 ^ k" using len by (simp add: back_pos_def)
  then have "back_pos H i < 2 ^ 64" using pow2_le_59 [OF len(2)] by simp
  then show tail: "unat (tail H') = back_pos H i" by (simp add: H'_def unat_of_nat_small)
  show "ring_shape ix H' k" using assms(1,2) pos tail by (auto simp: undone_def ring_shape_def H'_def)
  have ind: "index H' = index H" by (simp add: H'_def)
  have p: "back_pos H' j = (back_pos H i + (2 ^ k - j)) mod 2 ^ k" by (simp add: back_pos_def [of H'] tail ind len(1))
  show "i + j \<le> 2 ^ k \<Longrightarrow> back_ptr H' j = back_ptr H (i + j)"
    unfolding back_ptr_def p ind using back_pos_move(1) [OF len(1)] by simp
  assume "2 ^ k \<le> i + j" "j \<le> 2 ^ k"
  then show "back_ptr H' j = back_ptr H (i + j - 2 ^ k)"
    unfolding back_ptr_def p ind using back_pos_move(2) [OF len(1), of "2 ^ k - j" i] assms(3) by simp
qed

lemma undone_lookup:
  assumes ok: "ring_ok ix0 H k m cs" and n: "n \<le> length cs" "i < n" and un: "undone ix0 H n i ix"
  shows "get_block_index_entry_for_index ix (of_nat (32 * (m - n + i))) = Inr (back_ptr H (n - 1 - i))"
proof -
  have shape: "ring_shape ix0 H k" and len: "length cs \<le> 2 ^ k" "length cs \<le> m" "length (index H) = 2 ^ k" "k \<le> 59" "capacity H = 2 ^ k"
    using ok by (auto simp: ring_ok_shape ring_shape_def)
  define H' where "H' = H\<lparr>tail := of_nat (back_pos H i)\<rparr>"
  obtain hs where ix: "blockIndex ix = H' # hs" using un by (auto simp: undone_def H'_def)
  have i: "i \<le> 2 ^ k" using n len(1) by simp
  note R = rewound_shape [OF shape un i, folded H'_def]
  let ?a = "m - 1 - i" and ?c = "m - n + i" and ?j = "n - 1 - i"
  have ent: "back_entry ix0 H j = \<lparr>entry_key = of_nat (32 * (m - 1 - j)), entry_value = Some (cs ! (length cs - 1 - j))\<rparr>" if "j < n" for j
    using ok that n(1) by (simp add: ring_ok_def)
  have heap: "entry_heap ix ! back_ptr H j = (if n - i \<le> j \<and> j < n then (back_entry ix0 H j)\<lparr>entry_value := None\<rparr> else back_entry ix0 H j)"
    if "j < 2 ^ k" for j using un that len(3) by (simp add: undone_def)
  have lt: "i < 2 ^ k" "?j < 2 ^ k" using n len(1) by simp_all
  have tail_key: "entry_key (entry_heap ix ! back_ptr H i) = of_nat (32 * ?a)" using heap [OF lt(1)] ent [of i] n(2) by simp
  have "m - 1 - ?j = ?c" using n len(2) by simp
  then have target: "entry_key (entry_heap ix ! back_ptr H ?j) = of_nat (32 * ?c)" "entry_value (entry_heap ix ! back_ptr H ?j) \<noteq> None"
    using heap [OF lt(2)] ent [of ?j] n by auto
  have cap: "capacity H' = 2 ^ k" "index H' = index H" using len(5) by (simp_all add: H'_def)
  have tail: "header_entry ix H' (tail H') = Inr (back_ptr H i)"
    using header_entry_back [OF R(1), of 0 "tail H'"] R(2) R(3) [of 0] lt(1) ring_shape_ptr(1) [OF shape lt(1)]
    by (simp add: back_pos_def [of H'] cap len(3))
  let ?idx = "(tail H' + (of_nat (32 * ?c) - of_nat (32 * ?a)) div 32) AND (capacity H' - 1)"
  have small: "unat (tail H') < 2 ^ k" using R(1) by (simp add: ring_shape_def)
  have "unat ?idx = back_pos H ?j"
  proof (cases "?c \<le> ?a")
    case True
    then have "unat ?idx = (unat (tail H') + (2 ^ k - (?a - ?c))) mod 2 ^ k"
      using ring_offset [of "?a - ?c" ?a k "tail H'"] n len small unfolding cap(1) by simp
    also have "\<dots> = back_pos H (i + (?a - ?c))" unfolding R(2) using n len by (intro back_pos_move(1)) simp_all
    also have "i + (?a - ?c) = ?j" using True n len(2) by simp
    finally show ?thesis .
  next
    case False
    then have "unat ?idx = (unat (tail H') + (?c - ?a)) mod 2 ^ k"
      using ring_offset_forward [of "?c - ?a" k "tail H'" ?a] n len pow2_le_59 [OF len(4)] small unfolding cap(1) by simp
    also have "\<dots> = back_pos H (i - (?c - ?a))" unfolding R(2) using n len i by (intro back_pos_move(2)) simp_all
    also have "i - (?c - ?a) = ?j" using False n len(2) by simp
    finally show ?thesis .
  qed
  then have look: "header_entry ix H' ?idx = Inr (back_ptr H ?j)"
    using header_entry_back [OF R(1)] ring_shape_ptr [OF shape lt(2)] R(1) unfolding header_entry_def by (simp add: back_ptr_def cap ring_shape_def list_all_length)
  have base: "(of_nat (32 * ?c) AND NOT 31 :: u64) = of_nat (32 * ?c)" unfolding block_base_of_nat by simp
  have "get_block_index_index_for_index ix (of_nat (32 * ?c)) = Inr (H', ?idx)"
    unfolding get_block_index_index_for_index_def Let_def ix
    using tail tail_key look target block_base_valid [of ?a] base by simp
  then show ?thesis using look by (simp add: get_block_index_entry_for_index_def)
qed

lemma undone_step:
  assumes ok: "ring_ok ix0 H k m cs" and n: "n \<le> length cs" "i < n" and un: "undone ix0 H n i ix"
  shows "\<exists>ix'. rewind_block_index_tail (store_value ix (back_ptr H (n - 1 - i)) None) = Inr ix' \<and> undone ix0 H n (Suc i) ix'"
proof -
  have shape: "ring_shape ix0 H k" and len: "length cs \<le> 2 ^ k" "length (index H) = 2 ^ k" "k \<le> 59" "capacity H = 2 ^ k"
    using ok by (auto simp: ring_ok_shape ring_shape_def)
  let ?e = "back_ptr H (n - 1 - i)" and ?H = "H\<lparr>tail := of_nat (back_pos H i)\<rparr>"
  obtain hs where ix: "blockIndex ix = ?H # hs" using un by (auto simp: undone_def)
  have i: "i \<le> 2 ^ k" "Suc i \<le> 2 ^ k" "n - 1 - i < 2 ^ k" using n len(1) by simp_all
  have "unat ((tail ?H - 1) AND (2 ^ k - 1)) = (back_pos H i + (2 ^ k - 1)) mod 2 ^ k"
    using rewound_tail [OF len(3), of "tail ?H"] rewound_shape(2) [OF shape un i(1)] by simp
  also have "\<dots> = back_pos H (Suc i)" using back_pos_move(1) [OF len(2), of i 1] i(2) by simp
  finally have pos: "unat ((tail ?H - 1) AND (2 ^ k - 1)) = back_pos H (Suc i)" .
  have t: "(tail ?H - 1) AND (capacity ?H - 1) = of_nat (back_pos H (Suc i))"
    unfolding pos [symmetric] using len(4) by simp
  let ?ix = "store_tail (store_value ix ?e None) (of_nat (back_pos H (Suc i)))"
  have run: "rewind_block_index_tail (store_value ix ?e None) = Inr ?ix"
    using ix t by (simp add: rewind_block_index_tail_def)
  have e: "?e < length (entry_heap ix)" using ring_shape_ptr(2) [OF shape i(3)] un by (simp add: undone_def)
  have heap: "entry_heap ?ix ! back_ptr H j =
      (if n - Suc i \<le> j \<and> j < n then (back_entry ix0 H j)\<lparr>entry_value := None\<rparr> else back_entry ix0 H j)" if j: "j < 2 ^ k" for j
  proof (cases "j = n - 1 - i")
    case True
    then have "entry_heap ix ! back_ptr H j = back_entry ix0 H j" using un i(3) len(2) n(2) by (auto simp: undone_def)
    then show ?thesis using True e n(2) by (simp add: nth_store)
  next
    case False
    then have "back_ptr H j \<noteq> ?e" using ring_shape_inject [OF shape j i(3)] by simp
    then have "entry_heap ?ix ! back_ptr H j = entry_heap ix ! back_ptr H j" using e by (simp add: nth_store)
    moreover have "n - Suc i \<le> j \<longleftrightarrow> n - i \<le> j" using False n(2) by linarith
    ultimately show ?thesis using un j len(2) by (simp add: undone_def)
  qed
  have "undone ix0 H n (Suc i) ?ix" using un ix heap len(2) by (simp add: undone_def)
  then show ?thesis using run by blast
qed

lemma undone_all:
  assumes ok: "ring_ok ix0 H k (m + length ns) (bs @ ns)" and un: "undone ix0 H (length ns) (length ns) ix"
  shows "ring_inv ix m bs"
proof -
  let ?n = "length ns" and ?H = "H\<lparr>tail := of_nat (back_pos H (length ns))\<rparr>"
  have shape: "ring_shape ix0 H k" and len: "length bs + ?n \<le> 2 ^ k" "length bs \<le> m" "length (index H) = 2 ^ k"
    using ok by (auto simp: ring_ok_shape ring_shape_def)
  note R = rewound_shape [OF shape un]
  have heap: "entry_heap ix ! back_ptr H j = (if j < ?n then (back_entry ix0 H j)\<lparr>entry_value := None\<rparr> else back_entry ix0 H j)"
    if "j < 2 ^ k" for j using un that len(3) by (simp add: undone_def)
  have old: "back_entry ix ?H j = back_entry ix0 H (?n + j)" if "?n + j < 2 ^ k" for j
    using R(3) [of j] heap [of "?n + j"] that by (simp add: back_entry_ptr)
  have "back_entry ix ?H j = \<lparr>entry_key = of_nat (32 * (m - 1 - j)), entry_value = Some (bs ! (length bs - 1 - j))\<rparr>" if "j < length bs" for j
  proof -
    have "back_entry ix0 H (?n + j) =
        \<lparr>entry_key = of_nat (32 * (m + ?n - 1 - (?n + j))), entry_value = Some ((bs @ ns) ! (length (bs @ ns) - 1 - (?n + j)))\<rparr>"
      using ok that unfolding ring_ok_def by simp
    moreover have "m + ?n - 1 - (?n + j) = m - 1 - j" "length (bs @ ns) - 1 - (?n + j) = length bs - 1 - j" "length bs - 1 - j < length bs"
      using that by simp_all
    ultimately show ?thesis using old [of j] that len(1) by (simp add: nth_append)
  qed
  moreover have "entry_free (back_entry ix ?H j)" if j: "length bs \<le> j" "j < 2 ^ k" for j
  proof (cases "?n + j < 2 ^ k")
    case True
    then show ?thesis using old [of j] ok j by (simp add: ring_ok_def)
  next
    case False
    then have "?n + j - 2 ^ k < ?n" "?n + j - 2 ^ k < 2 ^ k" using j(2) len(1) by linarith+
    then show ?thesis using R(4) [of j] heap [of "?n + j - 2 ^ k"] False j(2) len(1) by (simp add: back_entry_ptr entry_free_def)
  qed
  ultimately have "ring_ok ix ?H k m bs" using R(1) len by (simp add: ring_ok_shape)
  then show ?thesis using un by (auto simp: ring_inv_def undone_def)
qed

text \<open>A chain of blocks, with a null pointer at the end.\<close>

definition head_of :: "nat list \<Rightarrow> nat option" where
  "head_of ns = (case ns of [] \<Rightarrow> None | b # _ \<Rightarrow> Some b)"

lemma head_of_simps [simp]: "head_of [] = None" "head_of (b # ns) = Some b" "head_of ns = None \<longleftrightarrow> ns = []"
  by (simp_all add: head_of_def split: list.splits)

primrec linked :: "'a BlockPool \<Rightarrow> nat list \<Rightarrow> bool" where
  "linked q [] = True"
| "linked q (b # ns) = (next_block (blocks q ! b) = head_of ns \<and> linked q ns)"

lemma linked_cong: "(\<And>x. x \<in> set ns \<Longrightarrow> next_block (blocks q' ! x) = next_block (blocks q ! x)) \<Longrightarrow> linked q' ns = linked q ns"
  by (induction ns) simp_all

lemma undo_entries_rounds:
  assumes ok: "ring_ok ix0 H k m cs" "n \<le> length cs"
  shows "undone ix0 H n i ix \<Longrightarrow> i + length ns = n \<Longrightarrow> linked q ns \<Longrightarrow> \<forall>b \<in> set ns. b < length (blocks q) \<Longrightarrow> length ns \<le> fuel \<Longrightarrow>
    \<exists>ix'. undo_entries fuel (of_nat (32 * (m - n + i)) - 32) q (head_of ns) ix = Inr ix' \<and> undone ix0 H n n ix'"
proof (induction ns arbitrary: i ix fuel)
  case (Cons b ns)
  obtain f where f: "fuel = Suc f" "length ns \<le> f" using Cons.prems(5) by (cases fuel) auto
  have i: "i < n" using Cons.prems(2) by simp
  obtain ix1 where ix1: "rewind_block_index_tail (store_value ix (back_ptr H (n - 1 - i)) None) = Inr ix1" "undone ix0 H n (Suc i) ix1"
    using undone_step [OF ok i Cons.prems(1)] by blast
  have w: "(of_nat (32 * (m - n + i)) - 32 :: u64) + 32 = of_nat (32 * (m - n + i))"
    "(of_nat (32 * (m - n + i)) :: u64) = of_nat (32 * (m - n + Suc i)) - 32" by simp_all
  have "undo_entries fuel (of_nat (32 * (m - n + i)) - 32) q (head_of (b # ns)) ix =
      undo_entries f (of_nat (32 * (m - n + i))) q (head_of ns) ix1"
    unfolding f(1) head_of_simps undo_entries.simps Let_def w(1) undone_lookup [OF ok i Cons.prems(1)] and_then_Inr
    using ix1(1) Cons.prems(3,4) by simp
  then show ?case using Cons.IH [OF ix1(2), of f] Cons.prems f(2) unfolding w(2) by simp
qed auto

lemma undo_entries_spec:
  assumes ring: "ring_inv ix (m + length ns) (bs @ ns)" and ns: "linked q ns" "\<forall>b \<in> set ns. b < length (blocks q)" "length ns \<le> fuel"
  shows "\<exists>ix'. undo_entries fuel (of_nat (32 * m) - 32) q (head_of ns) ix = Inr ix' \<and> ring_inv ix' m bs"
proof (cases "ns = []")
  case True
  then show ?thesis using ring by simp
next
  case False
  then obtain H hs k where H: "blockIndex ix = H # hs" "ring_ok ix H k (m + length ns) (bs @ ns)"
    using ring by (auto simp: ring_inv_def split: list.splits)
  have "back_pos H 0 = unat (tail H)" using H(2) by (simp add: ring_ok_def back_pos_def)
  then have "undone ix H (length ns) 0 ix" using H(1) by (auto simp: undone_def back_entry_ptr)
  then obtain ix' where "undo_entries fuel (of_nat (32 * m) - 32) q (head_of ns) ix = Inr ix'" "undone ix H (length ns) (length ns) ix'"
    using undo_entries_rounds [OF H(2), of "length ns" 0 ix ns q fuel] ns by auto
  then show ?thesis using undone_all [OF H(2)] by blast
qed

section \<open>The blocks prepared\<close>

lemma add_chain_spec:
  "pool_inv q fl used \<Longrightarrow> set ns \<subseteq> used \<Longrightarrow> distinct ns \<Longrightarrow> linked q ns \<Longrightarrow> length ns \<le> fuel \<Longrightarrow>
     \<exists>q' fl'. add_chain_to_free_list fuel q (head_of ns) = Inr q' \<and> pool_inv q' fl' (used - set ns) \<and> (\<forall>y. y \<notin> set ns \<longrightarrow> blocks q' ! y = blocks q ! y)"
proof (induction ns arbitrary: q fl used fuel)
  case (Cons b ns)
  obtain f where f: "fuel = Suc f" "length ns \<le> f" using Cons.prems(5) by (cases fuel) auto
  have b: "b \<in> used" "b < length (blocks q)" using Cons.prems(2) pool_invD(4) [OF Cons.prems(1), of b] by auto
  obtain q1 where q1: "add_block_to_free_list q b = Inr q1" "pool_inv q1 (b # fl) (used - {b})" "\<forall>x. x \<noteq> b \<longrightarrow> blocks q1 ! x = blocks q ! x"
    using add_block_to_free_list_spec [OF Cons.prems(1) b(1)] by blast
  have "linked q1 ns = linked q ns" using q1(3) Cons.prems(3) by (intro linked_cong) (metis distinct.simps(2))
  then obtain q' fl' where q': "add_chain_to_free_list f q1 (head_of ns) = Inr q'" "pool_inv q' fl' (used - {b} - set ns)"
    "\<forall>y. y \<notin> set ns \<longrightarrow> blocks q' ! y = blocks q1 ! y"
    using Cons.IH [OF q1(2), of f] Cons.prems(2-4) f(2) by auto
  have "add_chain_to_free_list fuel q (head_of (b # ns)) = Inr q'" using f(1) b(2) q1(1) q'(1) Cons.prems(4) by simp
  moreover have "used - {b} - set ns = used - set (b # ns)" by auto
  moreover have "\<forall>y. y \<notin> set (b # ns) \<longrightarrow> blocks q' ! y = blocks q ! y" using q'(3) q1(3) by simp
  ultimately show ?case using q'(2) by metis
qed auto

lemma linked_snoc:
  "linked q ns \<Longrightarrow> distinct ns \<Longrightarrow> (\<And>x. x \<in> set ns \<Longrightarrow> x \<noteq> last ns \<Longrightarrow> next_block (blocks q' ! x) = next_block (blocks q ! x)) \<Longrightarrow>
     (ns \<noteq> [] \<Longrightarrow> next_block (blocks q' ! last ns) = Some b) \<Longrightarrow> next_block (blocks q' ! b) = None \<Longrightarrow> linked q' (ns @ [b])"
proof (induction ns)
  case (Cons a ns)
  show ?case
  proof (cases "ns = []")
    case False
    then have "linked q' (ns @ [b])" using Cons by auto
    moreover have "a \<noteq> last ns" using Cons.prems(2) last_in_set [OF False] by auto
    then have "next_block (blocks q' ! a) = head_of ns" using Cons.prems(1,3) False by simp
    moreover have "head_of (ns @ [b]) = head_of ns" using False by (cases ns) simp_all
    ultimately show ?thesis by simp
  qed (use Cons.prems in simp)
qed simp

lemma linked_nth: "linked q ns \<Longrightarrow> Suc i < length ns \<Longrightarrow> next_block (blocks q ! (ns ! i)) = Some (ns ! Suc i)"
proof (induction ns arbitrary: i)
  case (Cons a ns)
  then show ?case by (cases i; cases ns) auto
qed simp

text \<open>
  The producer while a bulk enqueue that started with \<open>s\<close> elements enqueued runs: \<open>t\<close> elements are enqueued or copied, and the blocks \<open>ns\<close> are prepared
  but have no element yet.
\<close>

definition prepared ::
  "BlockIndex \<Rightarrow> nat set \<Rightarrow> nat \<Rightarrow> nat \<Rightarrow> 'a BlockPool \<Rightarrow> nat \<Rightarrow> nat list \<Rightarrow> nat list \<Rightarrow> 'a list \<Rightarrow> bool" where
  "prepared ix others h s q t ns bs xs \<longleftrightarrow>
     h \<le> s \<and> s \<le> t \<and> length xs = t - h \<and> 32 * (nblk t + length ns) < h + 2 ^ 63 \<and>
     length bs = nblk t - h div 32 \<and> distinct (bs @ ns) \<and> set (bs @ ns) \<inter> others = {} \<and>
     counters q (bs @ ns) (h mod 32) \<and> holds q bs h xs \<and> ring_inv ix (nblk t + length ns) (bs @ ns) \<and>
     linked q ns \<and> (ns \<noteq> [] \<and> bs \<noteq> [] \<and> (s < t \<or> t mod 32 \<noteq> 0) \<longrightarrow> next_block (blocks q ! last bs) = Some (hd ns)) \<and>
     (\<exists>fl. pool_inv q fl (set (bs @ ns) \<union> others))"

lemma ip_ok_prepared:
  assumes "ip_ok q p others h t bs xs"
  shows "prepared (index_state p) others h t q t [] bs xs"
  using assms by (simp add: prepared_def ip_ok_def)

lemma prepared_ip_ok:
  assumes "prepared ix others h s q t [] bs xs" "bs \<noteq> [] \<Longrightarrow> tailBlock p = Some (last bs)" "headIndex p = of_nat h"
    "dequeueOptimisticCount p - dequeueOvercommit p = of_nat h" "tailIndex p = of_nat t" "index_state p = ix"
  shows "ip_ok q p others h t bs xs"
  using assms by (simp add: prepared_def ip_ok_def)

lemma prepared_used:
  assumes "prepared ix others h s q t ns bs xs" "y \<in> set (bs @ ns)"
  shows "y < length (blocks q)" "freeListRefs (blocks q ! y) = 0" "block_shape (blocks q ! y)" "y \<notin> others"
proof -
  obtain fl where inv: "pool_inv q fl (set (bs @ ns) \<union> others)" "set (bs @ ns) \<inter> others = {}" using assms(1) by (auto simp: prepared_def)
  then show "y < length (blocks q)" "freeListRefs (blocks q ! y) = 0" "block_shape (blocks q ! y)" "y \<notin> others"
    using pool_invD(4,8) [OF inv(1)] assms(2) by (auto simp: list_all_length)
qed

lemma prepared_pos:
  assumes "prepared ix others h s q t ns bs xs"
  shows "length bs + h div 32 = nblk t" "i < length xs \<Longrightarrow> (h + i) div 32 - h div 32 < length bs"
    "t mod 32 \<noteq> 0 \<Longrightarrow> bs \<noteq> [] \<and> last bs = bs ! (t div 32 - h div 32)" "bs = [] \<Longrightarrow> h mod 32 = 0"
proof -
  have I: "h \<le> t" "length xs = t - h" "length bs = nblk t - h div 32" using assms by (auto simp: prepared_def)
  show len: "length bs + h div 32 = nblk t" using I(3) div_le_nblk [OF I(1)] by simp
  show "(h + i) div 32 - h div 32 < length bs" if "i < length xs"
  proof -
    have "h + i < t" using that I(2) by simp
    then show ?thesis using div_less_nblk [of "h + i" t] div_le_mono [of h "h + i" 32] len by linarith
  qed
  show "bs \<noteq> [] \<and> last bs = bs ! (t div 32 - h div 32)" if "t mod 32 \<noteq> 0"
  proof -
    have "length bs = Suc (t div 32 - h div 32)" using I(3) nblk_modn(1) [OF that] div_le_mono [OF I(1), of 32] by (simp add: Suc_diff_le)
    moreover from this have "bs \<noteq> []" by auto
    ultimately show ?thesis by (simp add: last_conv_nth)
  qed
  show "h mod 32 = 0" if "bs = []"
  proof -
    have "\<not> h div 32 < nblk t" using len that by simp
    then have "h = t" using div_less_nblk [of h t] I(1) by (cases "h = t") auto
    then show ?thesis using nblk_modn(1) [of t] len that by (cases "t mod 32 = 0") auto
  qed
qed

lemma prepared_append:
  assumes prep: "prepared ix others h t q t ns bs xs" and room: "32 * Suc (nblk t + length ns) < h + 2 ^ 63" and b: "b \<notin> set (bs @ ns) \<union> others"
    and same: "\<And>y. y \<in> set (bs @ ns) \<Longrightarrow> elements (blocks q' ! y) = elements (blocks q ! y) \<and>
      elementsCompletelyDequeued (blocks q' ! y) = elementsCompletelyDequeued (blocks q ! y) \<and>
      (y \<noteq> last (bs @ ns) \<longrightarrow> next_block (blocks q' ! y) = next_block (blocks q ! y))"
    and link: "t mod 32 \<noteq> 0 \<or> ns \<noteq> [] \<Longrightarrow> next_block (blocks q' ! last (bs @ ns)) = Some b"
    and new: "next_block (blocks q' ! b) = None" "elementsCompletelyDequeued (blocks q' ! b) = 0"
    and inv: "pool_inv q' fl (insert b (set (bs @ ns) \<union> others))" and ring: "ring_inv ix' (Suc (nblk t + length ns)) (bs @ ns @ [b])"
  shows "prepared ix' others h t q' t (ns @ [b]) bs xs"
proof -
  have P: "distinct (bs @ ns)" "counters q (bs @ ns) (h mod 32)" "holds q bs h xs" "linked q ns"
    "ns \<noteq> [] \<and> bs \<noteq> [] \<and> t mod 32 \<noteq> 0 \<longrightarrow> next_block (blocks q ! last bs) = Some (hd ns)"
    using prep by (simp_all add: prepared_def)
  have "holds q' bs h xs"
    using P(3) same prepared_pos(2) [OF prep] unfolding holds_def by simp
  moreover have "counters q' (bs @ ns @ [b]) (h mod 32)"
    unfolding counters_def
  proof (intro allI impI)
    fix j
    assume j: "j < length (bs @ ns @ [b])"
    show "elementsCompletelyDequeued (blocks q' ! ((bs @ ns @ [b]) ! j)) = of_nat (if j = 0 then h mod 32 else 0)"
    proof (cases "j < length (bs @ ns)")
      case True
      then have "(bs @ ns @ [b]) ! j = (bs @ ns) ! j" using nth_append_left [of j "bs @ ns" "[b]"] by simp
      then show ?thesis using P(2) same [OF nth_mem [OF True]] True unfolding counters_def by metis
    next
      case False
      then have "j = length (bs @ ns)" using j by simp
      then have "(bs @ ns @ [b]) ! j = b" "j = 0 \<Longrightarrow> h mod 32 = 0" using prepared_pos(4) [OF prep] by (auto simp: nth_append)
      then show ?thesis using new(2) by (simp split: if_splits)
    qed
  qed
  moreover have "linked q' (ns @ [b])"
    using P(4)
  proof (rule linked_snoc)
    fix x
    assume "x \<in> set ns" "x \<noteq> last ns"
    then show "next_block (blocks q' ! x) = next_block (blocks q ! x)" using same [of x] by (cases ns) auto
  qed (use P(1) link new(1) in auto)
  moreover have "next_block (blocks q' ! last bs) = Some (hd (ns @ [b]))" if "bs \<noteq> []" "t mod 32 \<noteq> 0"
  proof (cases "ns = []")
    case True
    then show ?thesis using link that(2) by simp
  next
    case False
    then have "last bs \<noteq> last (bs @ ns)" using P(1) last_in_set [OF that(1)] last_in_set [OF False] by auto
    then show ?thesis using same [of "last bs"] P(5) that False last_in_set [OF that(1)] by simp
  qed
  moreover have "set (bs @ ns @ [b]) \<union> others = insert b (set (bs @ ns) \<union> others)" by auto
  ultimately show ?thesis using prep room b inv ring by (auto simp: prepared_def)
qed

lemma link_new_block:
  assumes prep: "prepared ix others h t q t ns bs xs" and b: "b \<notin> set (bs @ ns) \<union> others"
    and same: "\<And>y. y \<in> set (bs @ ns) \<union> others \<Longrightarrow> blocks q2 ! y = blocks q ! y"
    and inv: "pool_inv q2 fl (insert b (set (bs @ ns) \<union> others))" and tb: "t mod 32 \<noteq> 0 \<or> ns \<noteq> [] \<Longrightarrow> bs @ ns \<noteq> [] \<and> tb = Some (last (bs @ ns))"
    and room: "32 * Suc (nblk t + length ns) < h + 2 ^ 63" and ring: "ring_inv ix' (Suc (nblk t + length ns)) (bs @ ns @ [b])"
  shows "\<exists>q'. (if (of_nat t AND 31 :: u64) \<noteq> 0 \<or> ns \<noteq> [] then
       link_tail (put_block q2 b ((reset_empty implicit_context (blocks q2 ! b))\<lparr>next_block := None\<rparr>)) tb b
     else Inr (put_block q2 b ((reset_empty implicit_context (blocks q2 ! b))\<lparr>next_block := None\<rparr>))) = Inr q' \<and>
     prepared ix' others h t q' t (ns @ [b]) bs xs \<and> (\<forall>y \<in> others. blocks q' ! y = blocks q ! y)"
proof -
  let ?blk = "(reset_empty implicit_context (blocks q2 ! b))\<lparr>next_block := None\<rparr>"
  let ?q = "put_block q2 b ?blk"
  have bl: "b < length (blocks q2)" "freeListRefs (blocks q2 ! b) = 0" "block_shape (blocks q2 ! b)"
    using pool_invD(4,8) [OF inv] by (auto simp: list_all_length)
  then have blk: "freeListRefs ?blk = 0" "block_shape ?blk" "elementsCompletelyDequeued ?blk = 0" by (simp_all add: reset_empty_def block_shape_def)
  have inv1: "pool_inv ?q fl (insert b (set (bs @ ns) \<union> others))" using inv blk by (intro pool_inv_put_block) simp_all
  have same1: "blocks ?q ! y = blocks q ! y" if "y \<in> set (bs @ ns) \<union> others" for y using same [OF that] b that by (cases "y = b") auto
  show ?thesis
  proof (cases "t mod 32 \<noteq> 0 \<or> ns \<noteq> []")
    case False
    have "prepared ix' others h t ?q t (ns @ [b]) bs xs"
      using prep room b _ _ _ _ inv1 ring by (rule prepared_append) (use same1 False bl(1) blk(3) in auto)
    then show ?thesis using False same1 of_nat_and_31 [of t] by auto
  next
    case True
    let ?l = "last (bs @ ns)"
    have l: "tb = Some ?l" "?l \<in> set (bs @ ns)" using tb [OF True] last_in_set [of "bs @ ns"] by blast+
    define q1 where "q1 = ?q"
    define lb where "lb = (blocks q1 ! ?l)\<lparr>next_block := Some b\<rparr>"
    define q3 where "q3 = put_block q1 ?l lb"
    note same1' = same1 [folded q1_def] and inv1' = inv1 [folded q1_def]
    have lbl: "?l < length (blocks q1)" "freeListRefs lb = 0" "block_shape lb" "?l \<noteq> b"
      using pool_invD(4,8) [OF inv1'] l(2) b by (auto simp: list_all_length lb_def block_shape_def)
    have run: "link_tail q1 tb b = Inr q3" using l(1) lbl(1) by (simp add: link_tail_def q3_def lb_def)
    have inv2: "pool_inv q3 fl (insert b (set (bs @ ns) \<union> others))"
      unfolding q3_def using inv1' by (rule pool_inv_put_block) (use l(2) lbl in auto)
    have nth: "blocks q3 ! y = (if y = ?l then lb else blocks q1 ! y)" for y using lbl(1) by (simp add: q3_def)
    have at_b: "blocks q1 ! b = ?blk" using bl(1) by (simp add: q1_def)
    have at_l: "lb = (blocks q ! ?l)\<lparr>next_block := Some b\<rparr>" using same1' [OF UnI1 [OF l(2)]] by (simp add: lb_def)
    have "prepared ix' others h t q3 t (ns @ [b]) bs xs"
      using prep room b _ _ _ _ inv2 ring
      by (rule prepared_append) (use same1' [OF UnI1] nth lbl(4) at_l at_b blk(3) in \<open>simp_all split: if_splits\<close>)
    moreover have "?l \<notin> others" using prepared_used(4) [OF prep l(2)] .
    then have "\<forall>y \<in> others. blocks q3 ! y = blocks q ! y" using nth same1' by auto
    ultimately show ?thesis using run True of_nat_and_31 [of t] by (auto simp: q1_def)
  qed
qed

lemma prepared_frame:
  assumes "prepared ix others h s q t ns bs xs" "\<And>y. y \<in> set (bs @ ns) \<Longrightarrow> blocks q' ! y = blocks q ! y"
    "pool_inv q' fl (set (bs @ ns) \<union> others)" "ring_inv ix' (nblk t + length ns) (bs @ ns)"
  shows "prepared ix' others h s q' t ns bs xs"
proof -
  have "holds q' (bs @ []) h xs"
    using assms(2) prepared_pos(2) [OF assms(1)] by (intro holds_cong [of bs q' q]) (use assms(1) in \<open>auto simp: prepared_def\<close>)
  moreover have "counters q' (bs @ ns) (h mod 32)"
    using assms(2) by (rule counters_cong) (use assms(1) in \<open>auto simp: prepared_def\<close>)
  moreover have "linked q' ns = linked q ns" using assms(2) by (intro linked_cong) simp
  ultimately show ?thesis using assms by (auto simp: prepared_def)
qed

definition same_counts :: "ImplicitProducer \<Rightarrow> ImplicitProducer \<Rightarrow> bool" where
  "same_counts p p' \<longleftrightarrow> tailIndex p' = tailIndex p \<and> headIndex p' = headIndex p \<and>
     dequeueOptimisticCount p' = dequeueOptimisticCount p \<and> dequeueOvercommit p' = dequeueOvercommit p"

text \<open>Why preparing \<open>r\<close> more blocks can fail: the sub-queue is full, it has no block index, or memory cannot be had.\<close>

definition prepare_fails :: "alloc_env \<Rightarrow> AllocationMode \<Rightarrow> ImplicitProducer \<Rightarrow> nat \<Rightarrow> nat \<Rightarrow> bool" where
  "prepare_fails env mode p h m \<longleftrightarrow>
     h + 2 ^ 63 \<le> 32 * m \<or> blockIndex (index_state p) = [] \<or> mode = CannotAlloc \<or> (\<exists>n. \<not> malloc_ok env n)"

lemma prepared_bounds:
  assumes "prepared ix others h s q t ns bs xs"
  shows "h \<le> 32 * (nblk t + length ns)" "32 * (nblk t + length ns) < h + 2 ^ 63" "length (bs @ ns) < 2 ^ 59"
proof -
  have I: "h \<le> t" "32 * (nblk t + length ns) < h + 2 ^ 63" using assms by (auto simp: prepared_def)
  then show "h \<le> 32 * (nblk t + length ns)" "32 * (nblk t + length ns) < h + 2 ^ 63" using nblk_bounds(1) [of t] by simp_all
  have "32 * (length (bs @ ns) + h div 32) < 32 * (h div 32) + 32 + 2 ^ 63"
    using I(2) prepared_pos(1) [OF assms] mult_div_mod_eq [of 32 h] mod_less_divisor [of 32 h] by simp
  then show "length (bs @ ns) < 2 ^ 59" by simp
qed

lemma take_block_spec:
  assumes prep: "prepared (index_state p) others h t q t ns bs xs" and head: "headIndex p = of_nat h"
    and tb: "t mod 32 \<noteq> 0 \<or> ns \<noteq> [] \<longrightarrow> bs @ ns \<noteq> [] \<and> tailBlock p = Some (last (bs @ ns))"
  defines "m \<equiv> nblk t + length ns"
  shows "\<exists>q' p' r. IP_take_block env mode (of_nat t) (of_nat (32 * m)) (head_of ns) q p = Inr (q', p', r) \<and> same_counts p p' \<and>
     (\<forall>y \<in> others. blocks q' ! y = blocks q ! y) \<and>
     (case r of
        None \<Rightarrow> prepared (index_state p') others h t q' t ns bs xs \<and> prepare_fails env mode p h (Suc m)
      | Some b \<Rightarrow> prepared (index_state p') others h t q' t (ns @ [b]) bs xs \<and> tailBlock p' = Some b)"
proof (cases "h + 2 ^ 63 \<le> 32 * m + 32")
  case True
  note full = subqueue_full_iff [OF prepared_bounds(1,2) [OF prep], folded m_def]
  have "IP_take_block env mode (of_nat t) (of_nat (32 * m)) (head_of ns) q p = Inr (q, p, None)"
    unfolding IP_take_block_def head Let_def using full True by (simp only: if_True if_False)
  then show ?thesis using prep True by (simp add: same_counts_def prepare_fails_def)
next
  case False
  note full = subqueue_full_iff [OF prepared_bounds(1,2) [OF prep], folded m_def]
  obtain fl where inv: "pool_inv q fl (set (bs @ ns) \<union> others)" and ring: "ring_inv (index_state p) m (bs @ ns)"
    using prep unfolding prepared_def m_def by blast
  obtain q1 ix e where ins: "insert_block_index_entry env mode (of_nat (32 * m)) q (index_state p) = Inr (q1, ix, e)"
    "q1 = q \<or> q1 = q\<lparr>mallocs := mallocs q + 1\<rparr>"
    "case e of
        None \<Rightarrow> ring_inv ix m (bs @ ns) \<and> (blockIndex (index_state p) = [] \<or> mode = CannotAlloc \<or> \<not> malloc_ok env (mallocs q))
      | Some e \<Rightarrow>
          (\<forall>b. ring_inv (store_value ix e (Some b)) (Suc m) ((bs @ ns) @ [b])) \<and>
          (\<exists>ix'. rewind_block_index_tail ix = Inr ix' \<and> ring_inv (store_value ix' e None) m (bs @ ns))"
    using insert_block_index_entry_spec [OF ring prepared_bounds(3) [OF prep], of env mode q] by blast
  have q1: "blocks q1 = blocks q" "pool_inv q1 fl (set (bs @ ns) \<union> others)" using ins(2) inv pool_inv_malloc [OF inv] by auto
  note start = IP_take_block_def [of env mode "of_nat t" "of_nat (32 * m)" "head_of ns" q p, unfolded head Let_def ins(1) and_then_Inr prod.case]
  show ?thesis
  proof (cases e)
    case None
    have "IP_take_block env mode (of_nat t) (of_nat (32 * m)) (head_of ns) q p = Inr (q1, p\<lparr>index_state := ix\<rparr>, None)"
      unfolding start using None full False by (simp only: if_True if_False option.case)
    moreover have "prepared ix others h t q1 t ns bs xs"
      using prep _ q1(2) by (rule prepared_frame) (use None ins(3) q1(1) in \<open>simp_all add: m_def\<close>)
    ultimately show ?thesis using None ins(3) q1(1) by (auto simp: same_counts_def prepare_fails_def)
  next
    case (Some idx)
    then obtain ix' where ix: "\<And>b. ring_inv (store_value ix idx (Some b)) (Suc m) (bs @ ns @ [b])"
      "rewind_block_index_tail ix = Inr ix'" "ring_inv (store_value ix' idx None) m (bs @ ns)"
      using ins(3) by auto
    obtain q2 r where req: "requisition_block env mode q1 = Inr (q2, r)"
      "case r of
        Some i \<Rightarrow> (\<exists>fl'. pool_inv q2 fl' (insert i (set (bs @ ns) \<union> others))) \<and> i \<notin> set (bs @ ns) \<union> others \<and>
          (\<forall>x \<in> set (bs @ ns) \<union> others. blocks q2 ! x = blocks q1 ! x)
      | None \<Rightarrow> pool_inv q2 fl (set (bs @ ns) \<union> others) \<and> blocks q2 = blocks q1 \<and>
          (mode = CannotAlloc \<or> \<not> malloc_ok env (mallocs q1))"
      using requisition_block_spec [OF q1(2), of env mode] by blast
    note go = start [unfolded Some option.case req(1) and_then_Inr prod.case]
    show ?thesis
    proof (cases r)
      case None
      have "IP_take_block env mode (of_nat t) (of_nat (32 * m)) (head_of ns) q p = Inr (q2, p\<lparr>index_state := store_value ix' idx None\<rparr>, None)"
        unfolding go None option.case using full False ix(2) by (simp add: revert_entry_def)
      moreover have pool2: "pool_inv q2 fl (set (bs @ ns) \<union> others)" "blocks q2 = blocks q" using None req(2) q1(1) by simp_all
      have "prepared (store_value ix' idx None) others h t q2 t ns bs xs"
        using prep _ pool2(1) by (rule prepared_frame) (use pool2(2) ix(3) in \<open>simp_all add: m_def\<close>)
      ultimately show ?thesis using None req(2) q1(1) by (auto simp: same_counts_def prepare_fails_def)
    next
      case (Some b)
      then obtain fl' where new: "pool_inv q2 fl' (insert b (set (bs @ ns) \<union> others))" "b \<notin> set (bs @ ns) \<union> others"
        and same: "\<And>y. y \<in> set (bs @ ns) \<union> others \<Longrightarrow> blocks q2 ! y = blocks q ! y"
        using req(2) q1(1) by auto
      have room: "32 * Suc (nblk t + length ns) < h + 2 ^ 63" using False by (simp add: m_def)
      obtain q3 where q3: "(if (of_nat t AND 31 :: u64) \<noteq> 0 \<or> ns \<noteq> [] then
          link_tail (put_block q2 b ((reset_empty implicit_context (blocks q2 ! b))\<lparr>next_block := None\<rparr>)) (tailBlock p) b
         else Inr (put_block q2 b ((reset_empty implicit_context (blocks q2 ! b))\<lparr>next_block := None\<rparr>))) = Inr q3"
         "prepared (store_value ix idx (Some b)) others h t q3 t (ns @ [b]) bs xs" "\<forall>y \<in> others. blocks q3 ! y = blocks q ! y"
        using link_new_block [OF prep new(2) same new(1) _ room ix(1) [unfolded m_def], of "tailBlock p"] tb by blast
      have "b < length (blocks q2)" using pool_invD(4) [OF new(1), of b] by simp
      then have "IP_take_block env mode (of_nat t) (of_nat (32 * m)) (head_of ns) q p =
          Inr (q3, p\<lparr>index_state := store_value ix idx (Some b), tailBlock := Some b\<rparr>, Some b)"
        unfolding go Some option.case using full False q3(1) by (auto split: if_splits)
      then show ?thesis using q3(2,3) by (simp add: same_counts_def)
    qed
  qed
qed

lemma IP_prepare_spec:
  "prepared (index_state p) others h t q t ns bs xs \<Longrightarrow> headIndex p = of_nat h \<Longrightarrow>
   (t mod 32 \<noteq> 0 \<or> ns \<noteq> [] \<longrightarrow> bs @ ns \<noteq> [] \<and> tailBlock p = Some (last (bs @ ns))) \<Longrightarrow> r < 2 ^ 59 \<Longrightarrow> r \<le> fuel \<Longrightarrow>
   \<exists>q' p' ns' ok. IP_prepare fuel env mode (of_nat t) (of_nat (32 * r)) (of_nat (32 * (nblk t + length ns)) - 32) (head_of ns)
       (if ns = [] then sb else Some (last ns)) q p = Inr (q', p', head_of ns', (if ns' = [] then sb else Some (last ns')), ok) \<and>
     prepared (index_state p') others h t q' t ns' bs xs \<and> same_counts p p' \<and> (\<forall>y \<in> others. blocks q' ! y = blocks q ! y) \<and>
     (ok \<longrightarrow> length ns' = length ns + r) \<and> (\<not> ok \<longrightarrow> prepare_fails env mode p h (nblk t + length ns + r))"
proof (induction r arbitrary: p q ns fuel)
  case 0
  then show ?case by (intro exI [of _ q] exI [of _ p] exI [of _ ns] exI [of _ True]) (simp add: IP_prepare.simps same_counts_def)
next
  case (Suc r)
  let ?m = "nblk t + length ns" and ?e = "if ns = [] then sb else Some (last ns)"
  obtain f where f: "fuel = Suc f" "r \<le> f" using Suc.prems(5) by (cases fuel) auto
  have "unat (of_nat (32 * Suc r) :: u64) = 32 * Suc r" using Suc.prems(4) by (intro unat_of_nat_small) simp
  then have nz: "(of_nat (32 * Suc r) :: u64) \<noteq> 0" using unsigned_0 [where 'a = nat and 'b = 64] by (intro notI) (simp only:, simp)
  have w: "(of_nat (32 * Suc r) - 32 :: u64) = of_nat (32 * r)" "(of_nat (32 * ?m) - 32 + 32 :: u64) = of_nat (32 * ?m)" by simp_all
  obtain q1 p1 new where one: "IP_take_block env mode (of_nat t) (of_nat (32 * ?m)) (head_of ns) q p = Inr (q1, p1, new)" "same_counts p p1"
     "\<forall>y \<in> others. blocks q1 ! y = blocks q ! y"
     "case new of
        None \<Rightarrow> prepared (index_state p1) others h t q1 t ns bs xs \<and> prepare_fails env mode p h (Suc ?m)
      | Some b \<Rightarrow> prepared (index_state p1) others h t q1 t (ns @ [b]) bs xs \<and> tailBlock p1 = Some b"
    using take_block_spec [OF Suc.prems(1-3)] by blast
  note start = IP_prepare.simps [of fuel env mode "of_nat t" "of_nat (32 * Suc r)" "of_nat (32 * ?m) - 32" "head_of ns" ?e q p,
      unfolded f(1) Let_def w one(1) and_then_Inr prod.case nat.case if_not_P [OF nz]]
  show ?case
  proof (cases new)
    case None
    then have "prepare_fails env mode p h (?m + Suc r)" using one(4) by (auto simp: prepare_fails_def)
    then show ?thesis unfolding f(1) start None option.case using one None
      by (intro exI [of _ q1] exI [of _ p1] exI [of _ ns] exI [of _ False]) simp
  next
    case (Some b)
    have P: "prepared (index_state p1) others h t q1 t (ns @ [b]) bs xs" "tailBlock p1 = Some b" "headIndex p1 = of_nat h"
      using one(2,4) Some Suc.prems(2) by (simp_all add: same_counts_def)
    have first: "(if head_of ns = None then Some b else head_of ns) = head_of (ns @ [b])" by (cases ns) simp_all
    have w': "(of_nat (32 * ?m) :: u64) = of_nat (32 * (nblk t + length (ns @ [b]))) - 32" by simp
    have r: "r < 2 ^ 59" using Suc.prems(4) by simp
    have tb: "t mod 32 \<noteq> 0 \<or> ns @ [b] \<noteq> [] \<longrightarrow> bs @ ns @ [b] \<noteq> [] \<and> tailBlock p1 = Some (last (bs @ ns @ [b]))" using P(2) by simp
    from Suc.IH [OF P(1,3) tb r f(2)]
    obtain q' p' ns' ok where IH: "IP_prepare f env mode (of_nat t) (of_nat (32 * r)) (of_nat (32 * (nblk t + length (ns @ [b]))) - 32) (head_of (ns @ [b]))
        (if ns @ [b] = [] then sb else Some (last (ns @ [b]))) q1 p1 = Inr (q', p', head_of ns', (if ns' = [] then sb else Some (last ns')), ok)"
      "prepared (index_state p') others h t q' t ns' bs xs" "same_counts p1 p'" "\<forall>y \<in> others. blocks q' ! y = blocks q1 ! y"
      "ok \<longrightarrow> length ns' = length (ns @ [b]) + r" "\<not> ok \<longrightarrow> prepare_fails env mode p1 h (nblk t + length (ns @ [b]) + r)"
      by blast
    have e: "(if ns @ [b] = [] then sb else Some (last (ns @ [b]))) = Some b" by simp
    note run = IH(1) [unfolded e, folded w']
    have "prepare_fails env mode p h (?m + Suc r)" if "\<not> ok"
      using IH(6) that P(1) by (auto simp: prepare_fails_def prepared_def ring_inv_def)
    moreover have "same_counts p p'" using one(2) IH(3) by (simp add: same_counts_def)
    ultimately show ?thesis unfolding f(1) start Some option.case first run using IH(2-6) one(3)
      by (intro exI [of _ q'] exI [of _ p'] exI [of _ ns'] exI [of _ ok]) simp
  qed
qed

end
