(* ===== verification/CQ_ImplicitFill.thy ===== *)
theory CQ_ImplicitFill
  imports CQ_ImplicitBulk
begin

text \<open>
  The bulk enqueue of the implicit producer, continued: copying the elements into the prepared blocks, as an instance of the locale \<open>block_filler\<close>, undoing
  the preparation, and the specification of the whole operation.
\<close>

section \<open>Copying into the prepared blocks\<close>

lemma prepared_write:
  assumes prep: "prepared ix others h s q t ns bs xs" and split: "bs' @ ns' = bs @ ns" "nblk (Suc t) + length ns' = nblk t + length ns"
    and b: "bs' \<noteq> []" "last bs' = b" "last bs' = bs' ! (t div 32 - h div 32)"
    and hold: "holds q bs' h xs" "\<And>i. i \<le> length xs \<Longrightarrow> (h + i) div 32 - h div 32 < length bs'"
    and link: "linked q ns'" "ns' \<noteq> [] \<longrightarrow> next_block (blocks q ! b) = Some (hd ns')"
  shows "prepared ix others h s (put_block q b (block_construct (blocks q ! b) (of_nat t) x)) (Suc t) ns' bs' (xs @ [x])"
proof -
  let ?blk = "block_construct (blocks q ! b) (of_nat t) x"
  let ?q = "put_block q b ?blk"
  have I: "h \<le> s" "s \<le> t" "length xs = t - h" "distinct (bs' @ ns')" "counters q (bs' @ ns') (h mod 32)"
    using prep unfolding prepared_def split(1) by simp_all
  obtain fl where inv: "pool_inv q fl (set (bs' @ ns') \<union> others)" using prep unfolding prepared_def split(1) by blast
  have "b \<in> set (bs @ ns)" using b last_in_set unfolding split(1) [symmetric] by fastforce
  note used = prepared_used [OF prep this]
  have el: "elements ?blk = (elements (blocks q ! b))[t mod 32 := Some x]" by (simp add: block_construct_def unat_of_nat_mod_32)
  have "holds ?q bs' h (xs @ [x])"
    using holds_snoc [OF hold(1) _ _ hold(2) _ used(1,3) el] I b by simp
  moreover have "counters ?q (bs' @ ns') (h mod 32)" using I(5) used(1) by (rule counters_put) (simp add: block_construct_def)
  moreover have "pool_inv ?q fl (set (bs' @ ns') \<union> others)"
    using inv by (rule pool_inv_put_block) (use b used last_in_set [OF b(1)] in \<open>auto simp: block_construct_def block_shape_def\<close>)
  moreover have nxt: "next_block (blocks ?q ! y) = next_block (blocks q ! y)" for y
    using used(1) by (cases "y = b") (simp_all add: block_construct_def)
  then have "linked ?q ns'" using link(1) linked_cong [of ns' ?q q] by simp
  moreover have "length bs' = nblk (Suc t) - h div 32"
    using arg_cong [OF split(1), of length] split(2) prepared_pos(1) [OF prep] by simp
  moreover have "32 * (nblk (Suc t) + length ns') < h + 2 ^ 63" "set (bs' @ ns') \<inter> others = {}" "ring_inv ix (nblk (Suc t) + length ns') (bs' @ ns')"
    using prep unfolding prepared_def split by simp_all
  moreover have "length (xs @ [x]) = Suc t - h" "s \<le> Suc t" using I(1-3) by simp_all
  moreover have "ns' \<noteq> [] \<longrightarrow> next_block (blocks ?q ! last bs') = Some (hd ns')" using link(2) nxt b(2) by simp
  ultimately show ?thesis using I(1,4) unfolding prepared_def by blast
qed

lemma prepared_copy_one:
  assumes prep: "prepared ix others h s q t ns bs xs" and w: "write_block t ns bs b"
  shows "\<exists>ns' bs'. prepared ix others h s (put_block q b (block_construct (blocks q ! b) (of_nat t) x)) (Suc t) ns' bs' (xs @ [x]) \<and>
     bs' @ ns' = bs @ ns \<and> last bs' = b \<and> bs' \<noteq> [] \<and> b < length (blocks q)"
proof -
  have I: "h \<le> t" "length xs = t - h" "holds q bs h xs" "linked q ns" using prep by (auto simp: prepared_def)
  note pos = prepared_pos [OF prep]
  have idx: "(h + i) div 32 - h div 32 \<le> t div 32 - h div 32" if "i \<le> length xs" for i
    using that I(1,2) by (intro div_diff_le) simp
  show ?thesis
  proof (cases "t mod 32 = 0")
    case True
    then obtain ns' where ns: "ns = b # ns'" using w by (cases ns) (auto simp: write_block_def)
    have len: "length bs = t div 32 - h div 32" using pos(1) nblk_mod0(1) [OF True] by simp
    have "holds q (bs @ [b]) h xs" using holds_cong [OF refl pos(2) I(3)] .
    moreover have "linked q ns'" "ns' \<noteq> [] \<longrightarrow> next_block (blocks q ! b) = Some (hd ns')" using I(4) ns by (cases ns'; simp)+
    moreover have "last (bs @ [b]) = (bs @ [b]) ! (t div 32 - h div 32)" unfolding len [symmetric] by simp
    moreover have "(h + i) div 32 - h div 32 < length (bs @ [b])" if "i \<le> length xs" for i using idx [OF that] len by simp
    ultimately have "prepared ix others h s (put_block q b (block_construct (blocks q ! b) (of_nat t) x)) (Suc t) ns' (bs @ [b]) (xs @ [x])"
      by (intro prepared_write [OF prep]) (simp_all add: ns nblk_mod0(3) [OF True])
    then show ?thesis using prepared_used(1) [OF prep, of b] ns by (intro exI [of _ ns'] exI [of _ "bs @ [b]"]) simp
  next
    case False
    then have b: "b = last bs" "bs \<noteq> []" "last bs = bs ! (t div 32 - h div 32)" using w pos(3) by (auto simp: write_block_def)
    have "length bs = Suc (t div 32 - h div 32)" using pos(1) nblk_modn(1) [OF False] div_le_mono [OF I(1), of 32] by simp
    moreover have "ns \<noteq> [] \<longrightarrow> next_block (blocks q ! b) = Some (hd ns)" using prep b False by (simp add: prepared_def)
    ultimately have "prepared ix others h s (put_block q b (block_construct (blocks q ! b) (of_nat t) x)) (Suc t) ns bs (xs @ [x])"
      using I(3,4) b nblk_modn(2) [OF False] idx by (intro prepared_write [OF prep]) (auto intro: le_imp_less_Suc)
    moreover have "b \<in> set (bs @ ns)" using b(1,2) by simp
    ultimately show ?thesis using prepared_used(1) [OF prep] b(1,2) by blast
  qed
qed

text \<open>Copying does not change the links of the blocks.\<close>

definition same_next :: "'a BlockPool \<Rightarrow> 'a BlockPool \<Rightarrow> bool" where
  "same_next q q' \<longleftrightarrow> (\<forall>y. next_block (blocks q' ! y) = next_block (blocks q ! y))"

interpretation ifill: block_filler "\<lambda>q t ns bs xs. prepared ix others h s q t ns bs xs \<and> same_next q0 q" h s
  for ix others h s q0
proof unfold_locales
  fix q :: "'a BlockPool" and t ns bs xs b x
  assume prep: "prepared ix others h s q t ns bs xs \<and> same_next q0 q" and w: "write_block t ns bs b"
  let ?q = "put_block q b (block_construct (blocks q ! b) (of_nat t) x)"
  obtain ns' bs' where one: "prepared ix others h s ?q (Suc t) ns' bs' (xs @ [x])" "bs' @ ns' = bs @ ns" "last bs' = b" "bs' \<noteq> []" "b < length (blocks q)"
    using prepared_copy_one [OF conjunct1 [OF prep] w] by blast
  have "next_block (blocks ?q ! y) = next_block (blocks q ! y)" for y using one(5) by (cases "y = b") (simp_all add: block_construct_def)
  then show "\<exists>ns' bs'. (prepared ix others h s ?q (Suc t) ns' bs' (xs @ [x]) \<and> same_next q0 ?q) \<and>
      bs' @ ns' = bs @ ns \<and> last bs' = b \<and> bs' \<noteq> [] \<and> b < length (blocks q)"
    using one prep unfolding same_next_def by auto
next
  fix q :: "'a BlockPool" and t ns bs xs
  assume "prepared ix others h s q t ns bs xs \<and> same_next q0 q"
  then have prep: "prepared ix others h s q t ns bs xs" by blast
  show "length bs + h div 32 = nblk t" by (rule prepared_pos(1) [OF prep])
  show "distinct (bs @ ns)" "s \<le> t" using prep by (simp_all add: prepared_def)
  show "32 * (nblk t + length ns) \<le> t + 2 ^ 63" using prep by (simp add: prepared_def)
  assume ne: "s < t" "bs \<noteq> []" "ns \<noteq> []"
  then have "next_block (blocks q ! last bs) = Some (hd ns)" using prep by (simp add: prepared_def)
  then show "next_of q (last bs) = Inr (hd ns)" using prepared_used(1) [OF prep, of "last bs"] ne by (simp add: next_of_def)
qed

section \<open>Undoing\<close>

lemma counters_prefix:
  assumes "counters q (bs @ ns) c"
  shows "counters q bs c"
  unfolding counters_def
proof (intro allI impI)
  fix j
  assume "j < length bs"
  then show "elementsCompletelyDequeued (blocks q ! (bs ! j)) = of_nat (if j = 0 then c else 0)"
    using assms [unfolded counters_def, rule_format, of j] by (simp add: nth_append)
qed

lemma IP_undo_spec:
  assumes prep: "prepared (index_state p) others h t q t ns bs xs" and sb: "bs \<noteq> [] \<Longrightarrow> sb = Some (last bs)"
    and w: "tailIndex p = of_nat t" "headIndex p = of_nat h" "dequeueOptimisticCount p - dequeueOvercommit p = of_nat h"
  shows "\<exists>q' p'. IP_undo (of_nat t) sb (head_of ns) q p = Inr (q', p') \<and> ip_ok q' p' others h t bs xs \<and> (\<forall>y \<in> others. blocks q' ! y = blocks q ! y)"
proof -
  have I: "distinct (bs @ ns)" "set (bs @ ns) \<inter> others = {}" "linked q ns" "ring_inv (index_state p) (nblk t + length ns) (bs @ ns)"
    "holds q bs h xs" "counters q (bs @ ns) (h mod 32)" using prep by (simp_all add: prepared_def)
  obtain fl where inv: "pool_inv q fl (set (bs @ ns) \<union> others)" using prep unfolding prepared_def by blast
  have used: "\<forall>b \<in> set ns. b < length (blocks q)" using prepared_used(1) [OF prep] by simp
  then have "card (set ns) \<le> card {..<length (blocks q)}" by (intro card_mono) auto
  then have len: "length ns \<le> length (blocks q)" using distinct_card [of ns] I(1) by simp
  obtain ix where ix: "undo_entries (length (blocks q)) (of_nat (32 * nblk t) - 32) q (head_of ns) (index_state p) = Inr ix" "ring_inv ix (nblk t) bs"
    using undo_entries_spec [OF I(4,3) used len] by blast
  obtain q' fl' where q': "add_chain_to_free_list (length (blocks q)) q (head_of ns) = Inr q'" "pool_inv q' fl' (set (bs @ ns) \<union> others - set ns)"
    "\<forall>y. y \<notin> set ns \<longrightarrow> blocks q' ! y = blocks q ! y"
    using add_chain_spec [OF inv _ _ I(3) len] I(1) by auto
  let ?p = "p\<lparr>index_state := ix, tailBlock := sb\<rparr>"
  have "(32 - 1 :: u64) = 31" by simp
  then have run: "IP_undo (of_nat t) sb (head_of ns) q p = Inr (q', ?p)"
    unfolding IP_undo_def add_blocks_to_free_list_def by (simp only: tail_base ix(1) q'(1) and_then_Inr)
  have same: "blocks q' ! y = blocks q ! y" if "y \<in> set bs \<union> others" for y using q'(3) that I(1,2) by auto
  have "set (bs @ ns) \<union> others - set ns = set bs \<union> others" using I(1,2) by auto
  moreover have "holds q' (bs @ []) h xs" using same prepared_pos(2) [OF prep] I(5) by (intro holds_cong [of bs q' q]) auto
  moreover have "counters q bs (h mod 32)" using I(6) by (rule counters_prefix)
  then have "counters q' bs (h mod 32)" using same by (intro counters_cong [of bs q' q]) auto
  ultimately have "prepared ix others h t q' t [] bs xs" using prep ix(2) q'(2) by (auto simp: prepared_def)
  then have "ip_ok q' ?p others h t bs xs" by (rule prepared_ip_ok) (use sb w in simp_all)
  then show ?thesis using run same by auto
qed

lemma written_block:
  assumes "write_block t ns bs b" "length bs + a = nblk t" "t mod 32 \<noteq> 0 \<Longrightarrow> bs \<noteq> [] \<and> last bs = bs ! (t div 32 - a)"
  shows "b = (bs @ ns) ! (t div 32 - a)"
proof (cases "t mod 32 = 0")
  case True
  then have "t div 32 - a = length bs" using assms(2) nblk_mod0(1) [OF True] by simp
  then show ?thesis using assms(1) True by (simp add: write_block_def hd_conv_nth nth_append)
next
  case False
  then have "t div 32 - a < length bs" using assms(2,3) nblk_modn(1) [OF False] by (cases bs) auto
  then show ?thesis using assms(1,3) False by (simp add: write_block_def nth_append)
qed

lemma prepared_chain:
  assumes prep: "prepared ix others h t q t ns bs xs" and m: "t div 32 \<le> m" "Suc m - h div 32 < length (bs @ ns)"
  shows "next_block (blocks q ! ((bs @ ns) ! (m - h div 32))) = Some ((bs @ ns) ! (Suc m - h div 32))"
proof -
  have I: "h \<le> t" "linked q ns" using prep by (auto simp: prepared_def)
  have le: "h div 32 \<le> t div 32" using div_le_mono [OF I(1), of 32] .
  then have Suc: "Suc m - h div 32 = Suc (m - h div 32)" using m(1) by simp
  show ?thesis
  proof (cases "m - h div 32 < length bs")
    case True
    have "nblk t \<noteq> t div 32" using prepared_pos(1) [OF prep] True m(1) le by linarith
    then have t: "t mod 32 \<noteq> 0" using nblk_mod0(1) by blast
    have "length bs = Suc (t div 32 - h div 32)" using prepared_pos(1) [OF prep] nblk_modn(1) [OF t] le by simp
    then have pos: "m - h div 32 = length bs - 1" "bs \<noteq> []" using True m(1) le by (linarith, auto)
    then have ns: "ns \<noteq> []" using m(2) Suc by auto
    then have "next_block (blocks q ! last bs) = Some (hd ns)" using prep pos(2) t by (simp add: prepared_def)
    moreover have "(bs @ ns) ! (m - h div 32) = last bs" "(bs @ ns) ! (Suc m - h div 32) = hd ns"
      unfolding Suc pos(1) using pos(2) ns by (simp_all add: nth_append last_conv_nth hd_conv_nth)
    ultimately show ?thesis by simp
  next
    case False
    then have "Suc (m - h div 32 - length bs) = Suc (m - h div 32) - length bs" by simp
    moreover have "Suc (m - h div 32 - length bs) < length ns" using False m(2) unfolding Suc length_append by linarith
    ultimately show ?thesis using linked_nth [OF I(2), of "m - h div 32 - length bs"] False unfolding Suc by (simp add: nth_append)
  qed
qed

text \<open>After a throw the copied elements are destroyed, and the producer is as it was before copying.\<close>

lemma destroy_copied_prepared:
  assumes prep: "prepared ix others h t q t ns bs xs" and copied: "prepared ix others h t q1 (t + k) ns1 bs1 (xs @ ys)" "same_next q q1"
    "bs1 @ ns1 = bs @ ns" "\<forall>y. y \<notin> set (bs @ ns) \<longrightarrow> blocks q1 ! y = blocks q ! y"
    and k: "t + k < t + n" "nblk (t + n) = nblk t + length ns" "k < fuel"
    and b: "write_block t ns bs b" "write_block (t + k) ns1 bs1 b1"
  shows "\<exists>q'. destroy_copied fuel (of_nat (t + k)) (Some b1) q1 b (of_nat t) = Inr q' \<and> prepared ix others h t q' t ns bs xs \<and>
     (\<forall>y \<in> others. blocks q' ! y = blocks q ! y)"
proof -
  let ?a = "h div 32" and ?cs = "bs @ ns"
  have I: "h \<le> t" "length xs = t - h" "distinct ?cs" "set ?cs \<inter> others = {}" "linked q ns" "32 * (nblk t + length ns) < h + 2 ^ 63"
    using prep by (simp_all add: prepared_def)
  have C: "length (xs @ ys) = t + k - h" "counters q1 ?cs (h mod 32)" "holds q1 bs1 h (xs @ ys)" using copied(1,3) by (simp_all add: prepared_def)
  obtain fl where inv: "pool_inv q1 fl (set ?cs \<union> others)" using copied(1,3) unfolding prepared_def by metis
  note pos = prepared_pos [OF prep] and pos1 = prepared_pos [OF copied(1)]
  have le: "?a \<le> t div 32" "?a \<le> (t + k) div 32" using I(1) by (simp_all add: div_le_mono)
  have at: "bs1 ! j = ?cs ! j" if "j < length bs1" for j using that copied(3) by (metis nth_append)
  have first: "b = ?cs ! (t div 32 - ?a)" "b1 = ?cs ! ((t + k) div 32 - ?a)"
    using written_block [OF b(1) pos(1,3)] written_block [OF b(2) pos1(1,3)] copied(3) by simp_all
  have "(t + k) div 32 < nblk t + length ns" using div_less_nblk [OF k(1)] k(2) by simp
  then have len: "(t + k) div 32 - ?a < length ?cs" using pos(1) le(2) by simp
  have small: "t + k - t < 2 ^ 63" using nblk_bounds(1) [of "t + n"] k(1,2) I(1,6) by simp
  have elem: "elements (blocks q1 ! (?cs ! (m div 32 - ?a))) ! (m mod 32) = Some ((xs @ ys) ! (m - h))" if "h \<le> m" "m < t + k" for m
  proof -
    have m: "m - h < length (xs @ ys)" "h + (m - h) = m" using that C(1) by simp_all
    then show ?thesis using C(3) [unfolded holds_def, rule_format, OF m(1)] pos1(2) [OF m(1)] at unfolding m(2) by simp
  qed
  have e1: "\<forall>m. t \<le> m \<and> m < t + k \<longrightarrow> elements (blocks q1 ! (?cs ! (m div 32 - ?a))) ! (m mod 32) \<noteq> None" using elem I(1) by simp
  have e2: "\<forall>m. t div 32 \<le> m \<and> m < (t + k) div 32 \<longrightarrow> next_block (blocks q1 ! (?cs ! (m - ?a))) = Some (?cs ! (Suc m - ?a))"
  proof (intro allI impI)
    fix m
    assume m: "t div 32 \<le> m \<and> m < (t + k) div 32"
    then have "Suc m - ?a < length ?cs" using len by linarith
    then show "next_block (blocks q1 ! (?cs ! (m - ?a))) = Some (?cs ! (Suc m - ?a))"
      using prepared_chain [OF prep] m copied(2) unfolding same_next_def by simp
  qed
  have e3: "(t + k) div 32 - t div 32 < fuel" using k(3) by linarith
  from destroy_copied_spec [OF inv Un_upper1 I(3) le(1) le_add1 len small e1 e2 e3, folded first]
  obtain q' where q': "destroy_copied fuel (of_nat (t + k)) (Some b1) q1 b (of_nat t) = Inr q'" "pool_inv q' fl (set ?cs \<union> others)"
     "only_emptied q1 q'" "\<forall>y s. y \<notin> set ?cs \<longrightarrow> elements (blocks q' ! y) ! s = elements (blocks q1 ! y) ! s"
     "\<And>m. ?a \<le> m div 32 \<Longrightarrow> m < t \<Longrightarrow> elements (blocks q' ! (?cs ! (m div 32 - ?a))) ! (m mod 32) = elements (blocks q1 ! (?cs ! (m div 32 - ?a))) ! (m mod 32)"
    by blast
  have same: "next_block (blocks q' ! y) = next_block (blocks q ! y)" "elementsCompletelyDequeued (blocks q' ! y) = elementsCompletelyDequeued (blocks q1 ! y)" for y
  proof -
    have "emptied (blocks q1 ! y) (blocks q' ! y)" using q'(3) by (simp add: only_emptied_def)
    then show "next_block (blocks q' ! y) = next_block (blocks q ! y)" "elementsCompletelyDequeued (blocks q' ! y) = elementsCompletelyDequeued (blocks q1 ! y)"
      using copied(2) by (simp_all add: emptied_simps same_next_def)
  qed
  have "holds q' bs h xs"
    unfolding holds_def
  proof (intro allI impI)
    fix i
    assume i: "i < length xs"
    then have m: "h + i < t" "?a \<le> (h + i) div 32" using I(1,2) by (simp_all add: div_le_mono)
    then have "elements (blocks q' ! (?cs ! ((h + i) div 32 - ?a))) ! ((h + i) mod 32) = Some (xs ! i)"
      using q'(5) [of "h + i"] elem [of "h + i"] i by (simp add: nth_append)
    then show "elements (blocks q' ! (bs ! ((h + i) div 32 - ?a))) ! ((h + i) mod 32) = Some (xs ! i)"
      using pos(2) [OF i] by (simp add: nth_append)
  qed
  moreover have "counters q' ?cs (h mod 32)" using C(2) same(2) by (simp add: counters_def)
  moreover have "linked q' ns" using I(5) same(1) linked_cong [of ns q' q] by simp
  ultimately have "prepared ix others h t q' t ns bs xs" using prep q'(2) same(1) unfolding prepared_def by auto
  moreover have "blocks q' ! y = blocks q ! y" if "y \<in> others" for y
  proof -
    have y: "y \<notin> set ?cs" using I(4) that by auto
    obtain es where es: "blocks q' ! y = (blocks q1 ! y)\<lparr>elements := es\<rparr>" "length es = length (elements (blocks q1 ! y))"
      using q'(3) by (auto simp: only_emptied_def emptied_def)
    then have "es = elements (blocks q1 ! y)" using q'(4) y by (intro nth_equalityI) auto
    then show ?thesis using es(1) copied(4) y by simp
  qed
  ultimately show ?thesis using q'(1) by blast
qed

section \<open>A bulk enqueue is all or nothing\<close>

lemma IP_enqueue_bulk_nothing:
  assumes "ip_ok q p others h t bs xs"
  shows "IP_enqueue_bulk env mode [] q p = Inr (q, p, Enqueued)"
proof -
  have w: "tailIndex p = of_nat t" using assms by (simp add: ip_ok_def)
  have "block_end (of_nat t) (of_nat (t + 0)) = of_nat (t + min 0 (32 - t mod 32))" by (rule block_end_of_nat) simp
  then have "block_end (of_nat t) (of_nat t) = of_nat t" by simp
  then show ?thesis by (simp add: IP_enqueue_bulk_def Let_def w IP_prepare.simps)
qed

text \<open>The state of the producer when all the blocks are prepared, and the first block to write.\<close>

lemma bulk_start:
  assumes ok: "ip_ok q p others h t bs xs" and ns: "length ns = more_blocks t n" "0 < n"
  obtains b where "(if (of_nat t AND 31 :: u64) = 0 \<and> head_of ns \<noteq> None then head_of ns else tailBlock p) = Some b" "write_block t ns bs b"
    "(if ns = [] then tailBlock p else Some (last ns)) = Some (last (bs @ ns))" "bs @ ns \<noteq> []" "nblk (t + n) = nblk t + length ns"
    "(of_nat t AND 31 :: u64) \<noteq> 0 \<or> head_of ns \<noteq> None" "(if (of_nat t AND 31 :: u64) = 0 then head_of ns else tailBlock p) = Some b"
proof -
  have tail: "bs \<noteq> [] \<longrightarrow> tailBlock p = Some (last bs)" using ok by (simp add: ip_ok_def)
  have "nblk t \<le> nblk (t + n)" unfolding nblk_def by (intro div_le_mono) simp
  then have T: "nblk (t + n) = nblk t + length ns" using ns(1) by (simp add: more_blocks_def)
  show ?thesis
  proof (cases "t mod 32 = 0")
    case True
    have "nblk (Suc t) \<le> nblk (t + n)" unfolding nblk_def using ns(2) by (intro div_le_mono) simp
    then have "ns \<noteq> []" using nblk_mod0(3) [OF True] T by auto
    then show ?thesis using that [of "hd ns"] True T of_nat_and_31 [of t] by (cases ns) (simp_all add: write_block_def)
  next
    case False
    then have "bs \<noteq> []" using prepared_pos(3) [OF ip_ok_prepared [OF ok]] by blast
    then show ?thesis using that [of "last bs"] False T tail of_nat_and_31 [of t] by (simp add: write_block_def)
  qed
qed

definition bulk_outcome ::
  "'a BlockPool \<Rightarrow> ImplicitProducer \<Rightarrow> nat set \<Rightarrow> nat \<Rightarrow> nat \<Rightarrow> nat list \<Rightarrow> 'a list \<Rightarrow> ('a \<times> bool) list \<Rightarrow> enqueue_result \<Rightarrow> bool" where
  "bulk_outcome q p others h t bs xs items r \<longleftrightarrow>
     (if r = Enqueued then list_all snd items \<and> (\<exists>bs'. ip_ok q p others h (t + length items) bs' (xs @ map fst items))
      else ip_ok q p others h t bs xs)"

lemma IP_enqueue_bulk_spec:
  assumes ok: "ip_ok q p others h t bs xs" and len: "length items < 2 ^ 63"
  shows "\<exists>q' p' r. IP_enqueue_bulk env mode items q p = Inr (q', p', r) \<and> bulk_outcome q' p' others h t bs xs items r \<and>
     (\<forall>y \<in> others. blocks q' ! y = blocks q ! y) \<and> (r = Constructor_Threw \<longrightarrow> \<not> list_all snd items) \<and>
     (r = Not_Enqueued \<longrightarrow> prepare_fails env mode p h (nblk (t + length items)))"
proof (cases "items = []")
  case True
  then show ?thesis using IP_enqueue_bulk_nothing [OF ok] ok by (auto simp: bulk_outcome_def)
next
  case False
  let ?n = "length items" and ?r = "more_blocks t (length items)"
  have n: "0 < ?n" using False by simp
  have w: "tailIndex p = of_nat t" "headIndex p = of_nat h" "dequeueOptimisticCount p - dequeueOvercommit p = of_nat h"
    and tail: "bs \<noteq> [] \<longrightarrow> tailBlock p = Some (last bs)" using ok by (simp_all add: ip_ok_def)
  note prep0 = ip_ok_prepared [OF ok]
  have le: "nblk t \<le> nblk (t + ?n)" unfolding nblk_def by (intro div_le_mono) simp
  have "32 * ?r < ?n + 32" using nblk_bounds(1) [of t] nblk_bounds(2) [of "t + ?n"] unfolding more_blocks_def by linarith
  then have r: "?r < 2 ^ 59" using len by simp
  then have "unat (of_nat (32 * ?r) :: u64) = 32 * ?r" by (intro unat_of_nat_small) simp
  then have fuel: "unat (of_nat (32 * ?r) :: u64) div 32 = ?r" by simp
  have diff: "((of_nat t + of_nat ?n - 1 :: u64) AND NOT 31) - (of_nat (32 * nblk t) - 32) = of_nat (32 * ?r)"
    using blocks_needed [OF le] unfolding tail_base [of t] more_blocks_def of_nat_add .
  have c: "(32 - 1 :: u64) = 31" by simp
  note run = IP_enqueue_bulk_def [of env mode items q p, unfolded Let_def w(1) c tail_base [of t] diff fuel]
  have "t mod 32 \<noteq> 0 \<or> [] \<noteq> [] \<longrightarrow> bs @ [] \<noteq> [] \<and> tailBlock p = Some (last (bs @ []))" using prepared_pos(3) [OF prep0] tail by simp
  from IP_prepare_spec [OF prep0 w(2) this r order_refl, of env mode "tailBlock p"]
  obtain q1 p1 ns ok1 where P: "IP_prepare ?r env mode (of_nat t) (of_nat (32 * ?r)) (of_nat (32 * nblk t) - 32) None (tailBlock p) q p =
       Inr (q1, p1, head_of ns, (if ns = [] then tailBlock p else Some (last ns)), ok1)"
     "prepared (index_state p1) others h t q1 t ns bs xs" "same_counts p p1" "\<forall>y \<in> others. blocks q1 ! y = blocks q ! y"
     "ok1 \<longrightarrow> length ns = ?r" "\<not> ok1 \<longrightarrow> prepare_fails env mode p h (nblk t + ?r)"
    by auto
  note run1 = run [unfolded P(1) and_then_Inr prod.case]
  have w1: "tailIndex p1 = of_nat t" "headIndex p1 = of_nat h" "dequeueOptimisticCount p1 - dequeueOvercommit p1 = of_nat h"
    using w P(3) by (simp_all add: same_counts_def)
  have sb: "tailBlock p = Some (last bs)" if "bs \<noteq> []" using tail that by simp
  show ?thesis
  proof (cases ok1)
    case False
    obtain q' p' where u: "IP_undo (of_nat t) (tailBlock p) (head_of ns) q1 p1 = Inr (q', p')" "ip_ok q' p' others h t bs xs" "\<forall>y \<in> others. blocks q' ! y = blocks q1 ! y"
      using IP_undo_spec [OF P(2) sb w1] by blast
    have "IP_enqueue_bulk env mode items q p = Inr (q', p', Not_Enqueued)" unfolding run1 using False u(1) by simp
    moreover have "nblk t + ?r = nblk (t + ?n)" using le by (simp add: more_blocks_def)
    ultimately show ?thesis using u(2,3) P(4,6) False by (simp add: bulk_outcome_def)
  next
    case True
    then have "length ns = ?r" using P(5) by simp
    then obtain b where b: "(if (of_nat t AND 31 :: u64) = 0 \<and> head_of ns \<noteq> None then head_of ns else tailBlock p) = Some b" "write_block t ns bs b"
      "(if ns = [] then tailBlock p else Some (last ns)) = Some (last (bs @ ns))" "bs @ ns \<noteq> []" "nblk (t + ?n) = nblk t + length ns"
      "(of_nat t AND 31 :: u64) \<noteq> 0 \<or> head_of ns \<noteq> None" "(if (of_nat t AND 31 :: u64) = 0 then head_of ns else tailBlock p) = Some b"
      using bulk_start [OF ok _ n] by blast
    define k where "k = length (takeWhile snd items)"
    have all: "k = ?n \<longleftrightarrow> list_all snd items"
      unfolding k_def list_all_iff by (metis length_takeWhile_le takeWhile_eq_all_conv takeWhile_eq_take take_all_iff order_refl)
    have fill: "prepared (index_state p1) others h t q1 t ns bs xs \<and> same_next q1 q1" using P(2) by (simp add: same_next_def)
    from ifill.copy_blocks_spec [OF fill b(2,5) lessI b(4) k_def]
    obtain q2 b2 ns2 bs2 where C: "copy_blocks (Suc ?n) (of_nat (t + ?n)) (Some (last (bs @ ns))) q1 (Some b) (of_nat t) items =
        Inr (q2, Some b2, of_nat (t + k), k = ?n)" "prepared (index_state p1) others h t q2 (t + k) ns2 bs2 (xs @ map fst (take k items))" "same_next q1 q2"
        "bs2 @ ns2 = bs @ ns" "if k = ?n then ns2 = [] \<and> b2 = last (bs @ ns) else write_block (t + k) ns2 bs2 b2"
        "\<forall>y. y \<notin> set (bs @ ns) \<longrightarrow> blocks q2 ! y = blocks q1 ! y"
      by blast
    have a: "((of_nat t AND 31 :: u64) \<noteq> 0 \<or> head_of ns \<noteq> None \<or> (of_nat ?n :: u64) = 0) = True" using b(6) by blast
    note run2 = run1 [unfolded b(1,3) of_nat_add [symmetric] C(1) and_then_Inr prod.case a, simplified True simp_thms if_True if_False]
    have disj: "set (bs @ ns) \<inter> others = {}" using P(2) by (simp add: prepared_def)
    show ?thesis
    proof (cases "k = ?n")
      case True
      have bs2: "ns2 = []" "bs2 = bs @ ns" "b2 = last (bs @ ns)" using C(4,5) True by simp_all
      let ?p = "p1\<lparr>tailBlock := Some (last (bs @ ns)), tailIndex := of_nat (t + ?n)\<rparr>"
      have "prepared (index_state p1) others h t q2 (t + ?n) [] (bs @ ns) (xs @ map fst items)" using C(2) True bs2 by simp
      then have "ip_ok q2 ?p others h (t + ?n) (bs @ ns) (xs @ map fst items)" by (rule prepared_ip_ok) (use w1 in simp_all)
      moreover have "IP_enqueue_bulk env mode items q p = Inr (q2, ?p, Enqueued)" unfolding run2 using True bs2 by simp
      moreover have "\<forall>y \<in> others. blocks q2 ! y = blocks q ! y" using C(6) P(4) disj by (metis disjoint_iff)
      ultimately show ?thesis using all True by (auto simp: bulk_outcome_def)
    next
      case False
      then have k: "t + k < t + ?n" "k < Suc ?n" using length_takeWhile_le [of snd items] by (simp_all add: k_def)
      have "write_block (t + k) ns2 bs2 b2" using C(5) False by simp
      from destroy_copied_prepared [OF P(2) C(2-4,6) k(1) b(5) k(2) b(2) this]
      obtain q3 where D: "destroy_copied (Suc ?n) (of_nat (t + k)) (Some b2) q2 b (of_nat t) = Inr q3" "prepared (index_state p1) others h t q3 t ns bs xs"
        "\<forall>y \<in> others. blocks q3 ! y = blocks q1 ! y" by blast
      obtain q' p' where u: "IP_undo (of_nat t) (tailBlock p) (head_of ns) q3 p1 = Inr (q', p')" "ip_ok q' p' others h t bs xs" "\<forall>y \<in> others. blocks q' ! y = blocks q3 ! y"
        using IP_undo_spec [OF D(2) sb w1] by blast
      have "IP_enqueue_bulk env mode items q p = Inr (q', p', Constructor_Threw)" unfolding run2 b(7) option.case D(1) using False u(1) by simp
      then show ?thesis using u(2,3) D(3) P(4) all False by (simp add: bulk_outcome_def)
    qed
  qed
qed

end
