(* ===== verification/CQ_ImplicitSession.thy ===== *)
theory CQ_ImplicitSession
  imports CQ_ImplicitFill
begin

text \<open>
  Sessions of an implicit producer with single and bulk operations, for whichever allocations fail and whichever copies throw: they refine the
  session on a list of the operations that take effect.
\<close>

fun ip_op ::
  "alloc_env \<Rightarrow> AllocationMode \<Rightarrow> 'a BlockPool \<times> ImplicitProducer \<Rightarrow> ('a \<times> bool) bulk_op \<Rightarrow>
     fault + ('a BlockPool \<times> ImplicitProducer) \<times> bool \<times> 'a list" where
  "ip_op env mode s (One e) = and_then (IP_enq env mode e s) (\<lambda>(s, ok). Inr (s, ok, []))"
| "ip_op env mode s (Many items) =
     and_then (IP_enqueue_bulk env mode items (fst s) (snd s)) (\<lambda>(q, p, r). Inr ((q, p), r = Enqueued, []))"
| "ip_op env mode s Take = and_then (IP_deq s) (\<lambda>(s, r). Inr (s, True, case r of None \<Rightarrow> [] | Some x \<Rightarrow> [x]))"
| "ip_op env mode s (Take_Many m) = and_then (IP_dequeue_bulk (fst s) (snd s) m) (\<lambda>(q, p, xs, _). Inr ((q, p), True, xs))"

text \<open>A session returns which operations took effect and the elements dequeued.\<close>

fun ip_bulk_session ::
  "alloc_env \<Rightarrow> AllocationMode \<Rightarrow> 'a BlockPool \<times> ImplicitProducer \<Rightarrow> ('a \<times> bool) bulk_op list \<Rightarrow>
     fault + ('a BlockPool \<times> ImplicitProducer) \<times> bool list \<times> 'a list" where
  "ip_bulk_session env mode s [] = Inr (s, [], [])"
| "ip_bulk_session env mode s (x # ops) =
     and_then (ip_op env mode s x) (\<lambda>(s, ok, xs).
     and_then (ip_bulk_session env mode s ops) (\<lambda>(s, oks, ys). Inr (s, ok # oks, xs @ ys)))"

text \<open>What an operation does to the list, given whether it took effect; an enqueue that did not adds nothing.\<close>

fun effect :: "('a \<times> bool) bulk_op \<Rightarrow> bool \<Rightarrow> 'a bulk_op" where
  "effect (One e) ok = Many (if ok then [fst e] else [])"
| "effect (Many items) ok = Many (if ok then map fst items else [])"
| "effect Take ok = Take"
| "effect (Take_Many m) ok = Take_Many m"

lemma ip_op_spec:
  assumes inv: "IP_holds others s xs" and len: "length (enqueued x) < 2 ^ 63"
  shows "\<exists>s' ok. ip_op env mode s x = Inr (s', ok, take (requested x) (xs @ enqueued (effect x ok))) \<and>
     IP_holds others s' (drop (requested x) (xs @ enqueued (effect x ok)))"
proof -
  obtain h t bs where ok: "ip_ok (fst s) (snd s) others h t bs xs" using inv by (auto simp: IP_holds_def)
  show ?thesis
  proof (cases x)
    case (One e)
    obtain s' ok' where "IP_enq env mode e s = Inr (s', ok')" "IP_holds others s' (if ok' then xs @ [fst e] else xs)"
      using ip.enq_law [OF inv, of env mode e] by blast
    then show ?thesis using One by (intro exI [of _ s'] exI [of _ ok']) auto
  next
    case (Many items)
    obtain q' p' r where run: "IP_enqueue_bulk env mode items (fst s) (snd s) = Inr (q', p', r)" "bulk_outcome q' p' others h t bs xs items r"
      using IP_enqueue_bulk_spec [OF ok, of items env mode] len Many by auto
    have "IP_holds others (q', p') (xs @ (if r = Enqueued then map fst items else []))"
      using run(2) by (auto simp: bulk_outcome_def IP_holds_def split: if_splits)
    then show ?thesis using run(1) Many by (intro exI [of _ "(q', p')"] exI [of _ "r = Enqueued"]) simp
  next
    case Take
    obtain s' where "IP_deq s = Inr (s', case xs of [] \<Rightarrow> None | x # _ \<Rightarrow> Some x)" "IP_holds others s' (tl xs)"
      using ip.deq_law [OF inv] by blast
    then show ?thesis using Take by (cases xs) auto
  next
    case (Take_Many m)
    obtain q' p' bs' where "IP_dequeue_bulk (fst s) (snd s) m = Inr (q', p', take (unat m) xs, of_nat (min (unat m) (length xs)))"
     "ip_ok q' p' others (h + min (unat m) (length xs)) t bs' (drop (unat m) xs)"
      using dequeue_bulk_spec [OF ok, of m] by blast
    then show ?thesis using Take_Many by (auto simp: IP_holds_def)
  qed
qed

lemma ip_bulk_session_spec:
  assumes "IP_holds others s xs" "\<forall>x \<in> set ops. length (enqueued x) < 2 ^ 63"
  shows "\<exists>s' oks. ip_bulk_session env mode s ops = Inr (s', oks, fst (fifo_session xs (map2 effect ops oks))) \<and> length oks = length ops \<and>
     IP_holds others s' (snd (fifo_session xs (map2 effect ops oks)))"
  using assms
proof (induction ops arbitrary: s xs)
  case (Cons x ops)
  obtain s1 ok where one: "ip_op env mode s x = Inr (s1, ok, take (requested x) (xs @ enqueued (effect x ok)))"
     "IP_holds others s1 (drop (requested x) (xs @ enqueued (effect x ok)))"
    using ip_op_spec [OF Cons.prems(1), of x env mode] Cons.prems(2) by (meson list.set_intros(1))
  have req: "requested (effect x ok) = requested x" by (cases x) simp_all
  from Cons.IH [OF one(2)] obtain s' oks where "ip_bulk_session env mode s1 ops = Inr (s', oks, fst (fifo_session (drop (requested x) (xs @ enqueued (effect x ok))) (map2 effect ops oks)))"
    "length oks = length ops" "IP_holds others s' (snd (fifo_session (drop (requested x) (xs @ enqueued (effect x ok))) (map2 effect ops oks)))"
    using Cons.prems(2) by auto
  moreover have "fifo_session xs (map2 effect (x # ops) (ok # oks)) =
      (take (requested x) (xs @ enqueued (effect x ok)) @ fst (fifo_session (drop (requested x) (xs @ enqueued (effect x ok))) (map2 effect ops oks)),
       snd (fifo_session (drop (requested x) (xs @ enqueued (effect x ok))) (map2 effect ops oks)))"
    by (simp add: req Let_def split: prod.split)
  ultimately show ?case using one(1) by (intro exI [of _ s'] exI [of _ "ok # oks"]) (simp del: fifo_session.simps take_append drop_append)
qed simp

section \<open>Operations that must take effect\<close>

text \<open>There is memory and room, and no copy throws.\<close>

definition no_failure :: "alloc_env \<Rightarrow> AllocationMode \<Rightarrow> ('a \<times> bool) list \<Rightarrow> bool" where
  "no_failure env mode items \<longleftrightarrow> mode = CanAlloc \<and> (\<forall>n. malloc_ok env n) \<and> list_all snd items \<and> length items < 2 ^ 63 - 64"

lemma IP_dequeue_bulk_empty:
  assumes "ip_ok q p others h t bs []"
  shows "IP_dequeue_bulk q p m = Inr (q, p, [], 0)"
proof -
  have "t = h" using assms by (simp add: ip_ok_def)
  then have "tailIndex p - (dequeueOptimisticCount p - dequeueOvercommit p) = 0" using assms by (simp add: ip_ok_def)
  then show ?thesis unfolding IP_dequeue_bulk_def Let_def using circular_zero_less [of 0] by simp
qed

definition IP_live :: "nat set \<Rightarrow> 'a BlockPool \<times> ImplicitProducer \<Rightarrow> 'a list \<Rightarrow> bool" where
  "IP_live others s xs \<longleftrightarrow> IP_holds others s xs \<and> blockIndex (index_state (snd s)) \<noteq> []"

lemma IP_liveI: "ip_ok q p others h t bs xs \<Longrightarrow> 0 < t \<Longrightarrow> IP_live others (q, p) xs"
  using ip_ok_has_index by (fastforce simp: IP_live_def IP_holds_def)

lemma ip_op_takes_effect:
  assumes inv: "IP_live others s xs" and no: "no_failure env mode (enqueued x)" and room: "length xs + length (enqueued x) < 2 ^ 63 - 64"
  shows "\<exists>s'. ip_op env mode s x = Inr (s', True, take (requested x) (xs @ enqueued (effect x True))) \<and>
     IP_live others s' (drop (requested x) (xs @ enqueued (effect x True)))"
proof -
  obtain h t bs where ok: "ip_ok (fst s) (snd s) others h t bs xs" and ix: "blockIndex (index_state (snd s)) \<noteq> []"
    using inv by (auto simp: IP_live_def IP_holds_def)
  have I: "h \<le> t" "length xs = t - h" using ok by (simp_all add: ip_ok_def)
  have N: "mode = CanAlloc" "\<And>n. malloc_ok env n" "list_all snd (enqueued x)" using no by (simp_all add: no_failure_def)
  show ?thesis
  proof (cases x)
    case (One e)
    obtain q' p' bs' where "IP_enqueue env CanAlloc True (fst e) (fst s) (snd s) = Inr (q', p', Enqueued)"
      "ip_ok q' p' others h (Suc t) bs' (xs @ [fst e])"
      using enqueue_succeeds [OF ok ix _ N(2), of "fst e"] room by auto
    moreover from this(2) have "IP_live others (q', p') (xs @ [fst e])" by (rule IP_liveI) simp
    ultimately show ?thesis using One N(1,3) by (intro exI [of _ "(q', p')"]) (auto simp: IP_enq_def)
  next
    case (Many items)
    have "32 * nblk (t + length items) < h + 2 ^ 63" using nblk_bounds(2) [of "t + length items"] room Many I by simp
    then have "\<not> prepare_fails env mode (snd s) h (nblk (t + length items))" using ix N(1,2) by (simp add: prepare_fails_def)
    then obtain q' p' r where run: "IP_enqueue_bulk env mode items (fst s) (snd s) = Inr (q', p', r)" "bulk_outcome q' p' others h t bs xs items r"
      "r \<noteq> Constructor_Threw" "r \<noteq> Not_Enqueued"
      using IP_enqueue_bulk_spec [OF ok, of items env mode] no N(3) Many by (auto simp: no_failure_def)
    then have r: "r = Enqueued" by (cases r) simp_all
    then obtain bs' where ok': "ip_ok q' p' others h (t + length items) bs' (xs @ map fst items)" using run(2) by (auto simp: bulk_outcome_def)
    have "IP_live others (q', p') (xs @ map fst items)"
    proof (cases "t + length items = 0")
      case True
      then have "(q', p') = s" using run(1) IP_enqueue_bulk_nothing [OF ok] by (cases s) simp
      then show ?thesis using inv True by simp
    qed (use IP_liveI [OF ok'] in simp)
    then show ?thesis using run(1) r Many by (intro exI [of _ "(q', p')"]) simp
  next
    case Take
    show ?thesis
    proof (cases xs)
      case Nil
      then have "IP_deq s = Inr (s, None)" using IP_dequeue_empty [of "fst s" "snd s"] ok by (simp add: IP_deq_def)
      then show ?thesis using Nil Take inv by simp
    next
      case (Cons y ys)
      then obtain q' p' bs' where "IP_dequeue (fst s) (snd s) = Inr (q', p', Some y)" "ip_ok q' p' others (Suc h) t bs' ys"
        using IP_dequeue_spec [of "fst s" "snd s"] ok by blast
      moreover from this(2) have "IP_live others (q', p') ys" by (rule IP_liveI) (use Cons I in auto)
      ultimately show ?thesis using Cons Take by (intro exI [of _ "(q', p')"]) (auto simp: IP_deq_def)
    qed
  next
    case (Take_Many m)
    show ?thesis
    proof (cases "xs = []")
      case True
      then have "IP_dequeue_bulk (fst s) (snd s) m = Inr (fst s, snd s, [], 0)" using IP_dequeue_bulk_empty ok by blast
      then show ?thesis using True Take_Many inv by (intro exI [of _ s]) simp
    next
      case False
      obtain q' p' bs' where "IP_dequeue_bulk (fst s) (snd s) m = Inr (q', p', take (unat m) xs, of_nat (min (unat m) (length xs)))"
        "ip_ok q' p' others (h + min (unat m) (length xs)) t bs' (drop (unat m) xs)"
        using dequeue_bulk_spec [OF ok, of m] by blast
      moreover from this(2) have "IP_live others (q', p') (drop (unat m) xs)" by (rule IP_liveI) (use False I in \<open>cases t; auto\<close>)
      ultimately show ?thesis using Take_Many by (intro exI [of _ "(q', p')"]) auto
    qed
  qed
qed

lemma ip_bulk_session_takes_effect:
  assumes "IP_live others s xs" "no_failure env mode (concat (map enqueued ops))" "length xs + length (concat (map enqueued ops)) < 2 ^ 63 - 64"
  shows "\<exists>s' ys. ip_bulk_session env mode s ops = Inr (s', replicate (length ops) True, ys)"
  using assms
proof (induction ops arbitrary: s xs)
  case (Cons x ops)
  have no: "no_failure env mode (enqueued x)" "no_failure env mode (concat (map enqueued ops))" using Cons.prems(2) by (auto simp: no_failure_def)
  have "length xs + length (enqueued x) < 2 ^ 63 - 64" using Cons.prems(3) by simp
  from ip_op_takes_effect [OF Cons.prems(1) no(1) this]
  obtain s1 where one: "ip_op env mode s x = Inr (s1, True, take (requested x) (xs @ enqueued (effect x True)))"
     "IP_live others s1 (drop (requested x) (xs @ enqueued (effect x True)))" by blast
  have "length (enqueued (effect x True)) = length (enqueued x)" by (cases x) simp_all
  then have "length (drop (requested x) (xs @ enqueued (effect x True))) + length (concat (map enqueued ops)) < 2 ^ 63 - 64"
    using Cons.prems(3) by simp
  from Cons.IH [OF one(2) no(2) this] show ?case using one(1) by auto
qed simp

lemma IP_init_live:
  assumes "ImplicitProducer_init env q = Inr s" "IP_holds others s []" "\<And>n. malloc_ok env n"
  shows "IP_live others s []"
  using assms by (auto simp: IP_live_def ImplicitProducer_init_def new_block_index_def BlockIndex_empty_def cq_malloc_def prev_index_def Let_def)



end
