(* ===== verification/CQ_ExplicitBulk.thy ===== *)
theory CQ_ExplicitBulk
  imports CQ_ExplicitQueue
begin

text \<open>
  The bulk operations of the explicit producer (\<^verbatim>\<open>enqueue_bulk\<close> and \<^verbatim>\<open>dequeue_bulk\<close> of \<^verbatim>\<open>struct ExplicitProducer\<close>,
  \<^verbatim>\<open>src/utils/concurrentqueue-1.0.3/concurrentqueue.h\<close>). A bulk enqueue first prepares all the blocks it needs, the empty ones ahead of the tail
  block and then new ones, and writes them into the block index; it then copies the elements, and undoes what it did when an
  allocation fails or a copy throws. As everywhere, moving an element out of the queue does not throw.

  A bulk dequeue is shown to take the first elements, as many as asked for or as there are, and a bulk enqueue that fails to leave an index that
  breaks the destructor.
\<close>

section \<open>Bulk enqueue\<close>

text \<open>The local variables of \<^verbatim>\<open>enqueue_bulk\<close> that its loops change.\<close>

record bulk_locals =
  blockBaseDiff :: u64
  bulkTailIndex :: u64
  firstAllocatedBlock :: "nat option"
  originalBlockIndexFront :: u64

text \<open>Write the tail block into the block index, without publishing it.\<close>

definition bulk_entry :: "ExplicitProducer \<Rightarrow> u64 \<Rightarrow> fault + ExplicitProducer" where
  "bulk_entry p base =
     (case ep_blockIndex p of
        [] \<Rightarrow> Inl Undefined_Behaviour
      | h # hs \<Rightarrow>
          if unat (pr_blockIndexFront p) < length (hdr_entries h)
          then Inr (p\<lparr>ep_blockIndex := h\<lparr>hdr_entries := (hdr_entries h)[unat (pr_blockIndexFront p) := (base, ep_tailBlock p)]\<rparr> # hs,
                      pr_blockIndexFront := (pr_blockIndexFront p + 1) AND (pr_blockIndexSize p - 1)\<rparr>)
          else Inl Undefined_Behaviour)"

definition next_bulk_block :: "bulk_locals \<Rightarrow> bulk_locals" where
  "next_bulk_block l = l\<lparr>blockBaseDiff := blockBaseDiff l - BLOCK_SIZE, bulkTailIndex := bulkTailIndex l + BLOCK_SIZE\<rparr>"

definition note_first :: "nat \<Rightarrow> bulk_locals \<Rightarrow> bulk_locals" where
  "note_first b l = l\<lparr>firstAllocatedBlock := (if firstAllocatedBlock l = None then Some b else firstAllocatedBlock l)\<rparr>"

text \<open>The block ahead of the tail block, if it is empty and not one of the blocks this operation has taken.\<close>

definition bulk_ahead :: "'a BlockPool \<Rightarrow> ExplicitProducer \<Rightarrow> bulk_locals \<Rightarrow> fault + nat option" where
  "bulk_ahead q p l =
     (if blockBaseDiff l > 0 then
        case ep_tailBlock p of
          None \<Rightarrow> Inr None
        | Some tb \<Rightarrow>
            and_then (next_of q tb) (\<lambda>n.
              if Some n \<noteq> firstAllocatedBlock l then
                and_then (deref q (Some n)) (\<lambda>blk.
                and_then (is_empty explicit_context blk) (\<lambda>e. Inr (if e then Some n else None)))
              else Inr None)
      else Inr None)"

text \<open>The two loops that prepare blocks; every round makes \<^verbatim>\<open>blockBaseDiff\<close> one block smaller.\<close>

fun blocks_from_ahead ::
  "nat \<Rightarrow> 'a BlockPool \<Rightarrow> ExplicitProducer \<Rightarrow> bulk_locals \<Rightarrow> fault + ExplicitProducer \<times> bulk_locals" where
  "blocks_from_ahead fuel q p l =
     and_then (bulk_ahead q p l) (\<lambda>ahead.
       case ahead of
         None \<Rightarrow> Inr (p, l)
       | Some n \<Rightarrow>
           (case fuel of
              0 \<Rightarrow> Inl Diverges
            | Suc fuel \<Rightarrow>
                let l = note_first n (next_bulk_block l); p = p\<lparr>ep_tailBlock := Some n\<rparr>
                in and_then (bulk_entry p (bulkTailIndex l)) (\<lambda>p. blocks_from_ahead fuel q p l)))"

declare blocks_from_ahead.simps [simp del]

definition bulk_index_room ::
  "alloc_env \<Rightarrow> AllocationMode \<Rightarrow> u64 \<Rightarrow> 'a BlockPool \<Rightarrow> ExplicitProducer \<Rightarrow> bulk_locals \<Rightarrow>
     fault + 'a BlockPool \<times> ExplicitProducer \<times> bulk_locals \<times> bool" where
  "bulk_index_room env allocMode originalBlockIndexSlotsUsed q p l =
     (let full = subqueue_full (ep_headIndex p) (bulkTailIndex l)
      in if ep_blockIndex p = [] \<or> pr_blockIndexSlotsUsed p = pr_blockIndexSize p \<or> full then
           if allocMode = CannotAlloc then Inr (q, p, l, False)
           else if full then Inr (q, p, l, False)
           else and_then (EP_new_block_index env originalBlockIndexSlotsUsed q p) (\<lambda>(q, p, ok).
             if ok then Inr (q, p, l\<lparr>originalBlockIndexFront := originalBlockIndexSlotsUsed\<rparr>, True) else Inr (q, p, l, False))
         else Inr (q, p, l, True))"

fun blocks_from_pool ::
  "nat \<Rightarrow> alloc_env \<Rightarrow> AllocationMode \<Rightarrow> u64 \<Rightarrow> 'a BlockPool \<Rightarrow> ExplicitProducer \<Rightarrow> bulk_locals \<Rightarrow>
     fault + 'a BlockPool \<times> ExplicitProducer \<times> bulk_locals \<times> bool" where
  "blocks_from_pool fuel env allocMode slots q p l =
     (if blockBaseDiff l > 0 then
        case fuel of
          0 \<Rightarrow> Inl Diverges
        | Suc fuel \<Rightarrow>
            let l = next_bulk_block l
            in if circular_less_than (bulkTailIndex l) (ep_headIndex p) then Inl Assertion_Failed
               else and_then (bulk_index_room env allocMode slots q p l) (\<lambda>(q, p, l, ok).
                 if \<not> ok then Inr (q, p, l, False)
                 else and_then (requisition_block env allocMode q) (\<lambda>(q, newBlock).
                   case newBlock of
                     None \<Rightarrow> Inr (q, p, l, False)
                   | Some b \<Rightarrow>
                       and_then (link_block (set_all_empty explicit_context) q p b) (\<lambda>(q, p).
                       and_then (bulk_entry p (bulkTailIndex l)) (\<lambda>p.
                         blocks_from_pool fuel env allocMode slots q p (note_first b l)))))
      else Inr (q, p, l, True))"

declare blocks_from_pool.simps [simp del]

text \<open>Reset the flags of the blocks taken, from the first one to the tail block.\<close>

fun reset_blocks :: "nat \<Rightarrow> nat option \<Rightarrow> 'a BlockPool \<Rightarrow> nat \<Rightarrow> fault + 'a BlockPool" where
  "reset_blocks 0 tail_block q block = Inl Diverges"
| "reset_blocks (Suc fuel) tail_block q block =
     and_then (deref q (Some block)) (\<lambda>blk.
       let q = put_block q block (reset_empty explicit_context blk)
       in if Some block = tail_block then Inr q
          else and_then (next_of q block) (reset_blocks fuel tail_block q))"

text \<open>Undo the changes, but keep the blocks that were linked in.\<close>

definition undo_bulk :: "nat option \<Rightarrow> u64 \<Rightarrow> bulk_locals \<Rightarrow> ExplicitProducer \<Rightarrow> ExplicitProducer" where
  "undo_bulk startBlock originalBlockIndexSlotsUsed l p =
     p\<lparr>pr_blockIndexFront := originalBlockIndexFront l, pr_blockIndexSlotsUsed := originalBlockIndexSlotsUsed,
       ep_tailBlock := (if startBlock = None then firstAllocatedBlock l else startBlock)\<rparr>"

definition prepare_blocks ::
  "alloc_env \<Rightarrow> AllocationMode \<Rightarrow> u64 \<Rightarrow> 'a BlockPool \<Rightarrow> ExplicitProducer \<Rightarrow> fault + 'a BlockPool \<times> ExplicitProducer \<times> bulk_locals \<times> bool" where
  "prepare_blocks env allocMode count q p =
     (let startTailIndex = ep_tailIndex p;
          currentTailIndex = (startTailIndex - 1) AND NOT (BLOCK_SIZE - 1);
          diff = ((startTailIndex + count - 1) AND NOT (BLOCK_SIZE - 1)) - currentTailIndex;
          l = \<lparr>blockBaseDiff = diff, bulkTailIndex = currentTailIndex, firstAllocatedBlock = None,
               originalBlockIndexFront = pr_blockIndexFront p\<rparr>;
          slots = pr_blockIndexSlotsUsed p;
          fuel = unat diff div 32
      in if diff > 0 then
           and_then (blocks_from_ahead fuel q p l) (\<lambda>(p, l).
           and_then (blocks_from_pool fuel env allocMode slots q p l) (\<lambda>(q, p, l, ok).
             if \<not> ok then Inr (q, p, l, False)
             else case firstAllocatedBlock l of
                 None \<Rightarrow> Inl Undefined_Behaviour
               | Some b \<Rightarrow> and_then (reset_blocks (length (blocks q)) (ep_tailBlock p) q b) (\<lambda>q. Inr (q, p, l, True))))
         else Inr (q, p, l, True))"

text \<open>The first block that takes elements is the tail block, or the first one prepared when the tail index is at the end of a block.\<close>

definition first_bulk_block :: "u64 \<Rightarrow> nat option \<Rightarrow> bulk_locals \<Rightarrow> nat option" where
  "first_bulk_block startTailIndex startBlock l =
     (if startTailIndex AND (BLOCK_SIZE - 1) = 0 \<and> firstAllocatedBlock l \<noteq> None then firstAllocatedBlock l else startBlock)"

definition publish_front :: "bulk_locals \<Rightarrow> ExplicitProducer \<Rightarrow> ExplicitProducer" where
  "publish_front l p =
     (if firstAllocatedBlock l = None then p
      else case ep_blockIndex p of
          [] \<Rightarrow> p
        | h # hs \<Rightarrow> p\<lparr>ep_blockIndex := h\<lparr>hdr_front := (pr_blockIndexFront p - 1) AND (pr_blockIndexSize p - 1)\<rparr> # hs\<rparr>)"

definition EP_enqueue_bulk ::
  "alloc_env \<Rightarrow> AllocationMode \<Rightarrow> ('a \<times> bool) list \<Rightarrow> 'a BlockPool \<Rightarrow> ExplicitProducer \<Rightarrow>
     fault + 'a BlockPool \<times> ExplicitProducer \<times> enqueue_result" where
  "EP_enqueue_bulk env allocMode items q p =
     (let startTailIndex = ep_tailIndex p;
          startBlock = ep_tailBlock p;
          slots = pr_blockIndexSlotsUsed p;
          count = of_nat (length items);
          newTailIndex = startTailIndex + count
      in and_then (prepare_blocks env allocMode count q p) (\<lambda>(q, p, l, ok).
           if \<not> ok then Inr (q, undo_bulk startBlock slots l p, Not_Enqueued)
           else if \<not> (startTailIndex AND (BLOCK_SIZE - 1) \<noteq> 0 \<or> firstAllocatedBlock l \<noteq> None \<or> count = 0) then Inl Assertion_Failed
           else
             let endBlock = ep_tailBlock p;
                 firstBlock = first_bulk_block startTailIndex startBlock l
             in and_then (copy_blocks (Suc (length items)) newTailIndex endBlock q firstBlock startTailIndex items) (\<lambda>(q, tb, i, ok).
                  if ok then Inr (q, publish_front l (p\<lparr>ep_tailBlock := tb, ep_tailIndex := newTailIndex\<rparr>), Enqueued)
                  else
                    case (if startTailIndex AND (BLOCK_SIZE - 1) = 0 then firstAllocatedBlock l else startBlock) of
                      None \<Rightarrow> Inl Undefined_Behaviour
                    | Some b \<Rightarrow>
                        and_then (destroy_copied (Suc (length items)) i tb q b startTailIndex) (\<lambda>q.
                          Inr (q, undo_bulk startBlock slots l p, Constructor_Threw)))))"

section \<open>Bulk dequeue\<close>

fun EP_drain_blocks ::
  "nat \<Rightarrow> u64 \<Rightarrow> ExplicitBlockIndexHeader \<Rightarrow> 'a BlockPool \<Rightarrow> u64 \<Rightarrow> u64 \<Rightarrow> fault + 'a BlockPool \<times> 'a list" where
  "EP_drain_blocks 0 limit localBlockIndex q indexIndex i = Inl Diverges"
| "EP_drain_blocks (Suc fuel) limit localBlockIndex q indexIndex i =
     (let endIndex = block_end i limit
      in and_then (entry_block localBlockIndex indexIndex) (\<lambda>block.
         and_then (drain_block 32 q block i endIndex) (\<lambda>(q, els).
         and_then (deref q (Some block)) (\<lambda>blk.
         and_then (set_many_empty explicit_context i (endIndex - i) blk) (\<lambda>(blk, _).
           let q = put_block q block blk
           in if endIndex \<noteq> limit
              then and_then (EP_drain_blocks fuel limit localBlockIndex q
                               ((indexIndex + 1) AND (hdr_size localBlockIndex - 1)) endIndex) (\<lambda>(q, more).
                     Inr (q, els @ more))
              else Inr (q, els))))))"

definition EP_dequeue_bulk ::
  "'a BlockPool \<Rightarrow> ExplicitProducer \<Rightarrow> u64 \<Rightarrow> fault + 'a BlockPool \<times> ExplicitProducer \<times> 'a list \<times> u64" where
  "EP_dequeue_bulk q p maxCount =
     (let tail = ep_tailIndex p;
          overcommit = ep_dequeueOvercommit p;
          desiredCount = tail - (ep_dequeueOptimisticCount p - overcommit)
      in if circular_less_than 0 desiredCount then
           let desiredCount = (if desiredCount < maxCount then desiredCount else maxCount);
               myDequeueCount = ep_dequeueOptimisticCount p;
               p = p\<lparr>ep_dequeueOptimisticCount := myDequeueCount + desiredCount\<rparr>;
               actualCount = ep_tailIndex p - (myDequeueCount - overcommit)
           in if circular_less_than 0 actualCount then
                let actualCount = (if desiredCount < actualCount then desiredCount else actualCount);
                    p = (if actualCount < desiredCount
                         then p\<lparr>ep_dequeueOvercommit := ep_dequeueOvercommit p + (desiredCount - actualCount)\<rparr> else p);
                    firstIndex = ep_headIndex p;
                    p = p\<lparr>ep_headIndex := firstIndex + actualCount\<rparr>
                in and_then (EP_lookup p firstIndex) (\<lambda>(localBlockIndex, indexIndex).
                   and_then (EP_drain_blocks (Suc (unat actualCount)) (firstIndex + actualCount) localBlockIndex q indexIndex firstIndex)
                     (\<lambda>(q, els). Inr (q, p, els, actualCount)))
              else Inr (q, p\<lparr>ep_dequeueOvercommit := ep_dequeueOvercommit p + desiredCount\<rparr>, [], 0)
         else Inr (q, p, [], 0))"

section \<open>Bulk dequeue takes the first elements\<close>

lemma set_flags_fields: "set_flags k n b = Inr b' \<Longrightarrow> \<exists>fs. b' = b\<lparr>emptyFlags := fs\<rparr>"
proof (induction n arbitrary: k b)
  case 0
  then have "b' = b\<lparr>emptyFlags := emptyFlags b\<rparr>" by simp
  then show ?case ..
next
  case (Suc n)
  then obtain b1 where "set_flag k b = Inr b1" "set_flags (k + 1) n b1 = Inr b'" by (cases "set_flag k b") auto
  then show ?case using Suc.IH [of "k + 1" b1] by (auto simp: set_flag_def split: if_splits)
qed

lemma set_many_upto:
  assumes flags: "emptyFlags blk = flags_upto (h mod 32)" and n: "h mod 32 + n \<le> 32"
  shows "set_many_empty explicit_context (of_nat h) (of_nat n) blk = Inr (blk\<lparr>emptyFlags := flags_upto (h mod 32 + n)\<rparr>, False)"
proof (cases "n = 0")
  case True
  then show ?thesis using flags by (simp add: set_many_empty_def)
next
  case False
  have u: "unat (of_nat n :: u64) = n" using n by (intro unat_of_nat_small) simp
  have m: "unat (of_nat h :: u64) mod 32 = h mod 32" by (rule unat_of_nat_mod_32)
  have fs: "flags_set blk = {k. k < 32 \<and> 31 - k < h mod 32}" unfolding flags_set_def flags by (auto simp: flags_upto_def)
  have fr: "flag_range (unat (of_nat h :: u64)) n = {k. k < 32 \<and> h mod 32 \<le> 31 - k \<and> 31 - k < h mod 32 + n}" unfolding flag_range_def m ..
  have "0 < (of_nat n :: u64)" using False u by (simp add: word_less_nat_alt)
  moreover have "flag_range (unat (of_nat h :: u64)) n \<inter> flags_set blk = {}" unfolding fs fr by auto
  ultimately obtain b' where b': "set_many_empty explicit_context (of_nat h) (of_nat n) blk = Inr (b', False)" "length (emptyFlags b') = 32"
    "flags_set b' = flag_range (unat (of_nat h :: u64)) n \<union> flags_set blk"
    using set_many_empty_explicit [of blk "of_nat n" "of_nat h"] n m u fs fr flags by auto
  have "emptyFlags b' = flags_upto (h mod 32 + n)"
  proof (rule nth_equalityI)
    fix k
    assume "k < length (emptyFlags b')"
    then have k: "k < 32" using b'(2) by simp
    have "emptyFlags b' ! k \<longleftrightarrow> k \<in> flags_set b'" using k b'(2) by (simp add: flags_set_def)
    also have "\<dots> \<longleftrightarrow> 31 - k < h mod 32 + n" using k unfolding b'(3) fs fr by auto
    finally show "emptyFlags b' ! k = flags_upto (h mod 32 + n) ! k" using k by (simp add: flags_upto_def)
  qed (use b'(2) in simp)
  moreover obtain fs' where "b' = blk\<lparr>emptyFlags := fs'\<rparr>"
    using b'(1) unfolding set_many_empty_def by (auto simp: and_then_def split: sum.splits dest: set_flags_fields)
  ultimately show ?thesis using b'(1) by simp
qed

text \<open>The elements of the first block, up to the limit.\<close>

lemma EP_drain_first:
  assumes ring: "ep_ring q others h t fs (b # bs) xs" and n: "n \<le> length xs" "h mod 32 + n \<le> 32"
  shows "\<exists>q1 blk. drain_block 32 q b (of_nat h) (of_nat (h + n)) = Inr (q1, take n xs) \<and> deref q1 (Some b) = Inr blk \<and>
    set_many_empty explicit_context (of_nat h) (of_nat (h + n) - of_nat h) blk = Inr (blk\<lparr>emptyFlags := flags_upto (h mod 32 + n)\<rparr>, False) \<and>
    put_block q1 b (blk\<lparr>emptyFlags := flags_upto (h mod 32 + n)\<rparr>) = put_block q b (blk\<lparr>emptyFlags := flags_upto (h mod 32 + n)\<rparr>) \<and>
    (\<forall>s. s \<notin> {h mod 32..<h mod 32 + n} \<longrightarrow> elements blk ! s = elements (blocks q ! b) ! s) \<and>
    freeListRefs blk = 0 \<and> block_shape blk \<and> next_block blk = next_block (blocks q ! b)"
proof -
  have b: "b < length (blocks q)" "freeListRefs (blocks q ! b) = 0" "block_shape (blocks q ! b)" using ep_ring_used [OF ring, of b] by simp_all
  have hold: "holds q (b # bs) h xs" and fl: "emptyFlags (blocks q ! b) = flags_upto (h mod 32)"
    using ring eflags_hd [of q "b # bs" "h mod 32"] by (simp_all add: ep_ring_def)
  have "elements (blocks q ! b) ! (h mod 32 + i) = Some (take n xs ! i)" if "i < n" for i
  proof -
    have "h mod 32 + i < 32" using that n(2) by simp
    note dm = div_mod_within [OF this]
    have "elements (blocks q ! ((b # bs) ! ((h + i) div 32 - h div 32))) ! ((h + i) mod 32) = Some (xs ! i)"
      using hold that n(1) by (simp add: holds_def)
    then show ?thesis using that by (simp add: dm)
  qed
  then obtain blk where blk: "drain_block 32 q b (of_nat h) (of_nat (h + n)) = Inr (put_block q b blk, take n xs)" "block_shape blk"
    "\<forall>s. s \<notin> {h mod 32..<h mod 32 + n} \<longrightarrow> elements blk ! s = elements (blocks q ! b) ! s" "freeListRefs blk = 0"
    "next_block blk = next_block (blocks q ! b)" "emptyFlags blk = flags_upto (h mod 32)"
    using drain_block_spec [OF b(1,3) n(2), of 32 "take n xs"] n b(2) fl by auto
  have c: "(of_nat (h + n) - of_nat h :: u64) = of_nat n" by simp
  show ?thesis
    by (intro exI [of _ "put_block q b blk"] exI [of _ blk]) (use blk b(1) set_many_upto [OF blk(6) n(2)] in \<open>simp_all add: c put_block_def\<close>)
qed

definition next_index :: "ExplicitBlockIndexHeader \<Rightarrow> u64 \<Rightarrow> u64" where
  "next_index hdr i = (i + 1) AND (hdr_size hdr - 1)"

definition index_walk :: "ExplicitBlockIndexHeader \<Rightarrow> u64 \<Rightarrow> nat list \<Rightarrow> bool" where
  "index_walk hdr i bs \<longleftrightarrow> (\<forall>d < length bs. entry_block hdr ((next_index hdr ^^ d) i) = Inr (bs ! d))"

lemma index_walk_Cons: "index_walk hdr i (b # bs) \<longleftrightarrow> entry_block hdr i = Inr b \<and> index_walk hdr (next_index hdr i) bs"
  unfolding index_walk_def by (auto simp: All_less_Suc2 funpow_swap1)

lemma EP_drain_blocks_spec:
  assumes "ep_ring q others h t fs bs xs" "h < t" "r \<le> length xs" "r < fuel" "index_walk hdr i bs"
  shows "\<exists>q' cs bs'. EP_drain_blocks fuel (of_nat (h + r)) hdr q i (of_nat h) = Inr (q', take r xs) \<and> bs = cs @ bs' \<and>
     ep_ring q' others (h + r) t (fs @ cs) bs' (drop r xs) \<and> (\<forall>y. y \<notin> set bs \<longrightarrow> blocks q' ! y = blocks q ! y) \<and>
     list_all (\<lambda>b. all_set (blocks q' ! b)) cs"
  using assms
proof (induction fuel arbitrary: q h xs fs bs r i)
  case (Suc fuel)
  note ring = Suc.prems(1)
  have I: "h \<le> t" "length xs = t - h" "32 * nblk t < h + 2 ^ 63" "length bs = nblk t - h div 32" "distinct bs" using ring by (simp_all add: ep_ring_def)
  obtain b bs1 where bs: "bs = b # bs1" using I(4) div_less_nblk [OF Suc.prems(2)] by (cases bs) auto
  note ringb = ring [unfolded bs]
  have b: "b < length (blocks q)" "b \<notin> set bs1" using ep_ring_used(1) [OF ringb, of b] I(5) bs by simp_all
  have walk: "entry_block hdr i = Inr b" "index_walk hdr (next_index hdr i) bs1" using Suc.prems(5) bs by (simp_all add: index_walk_Cons)
  define n where "n = min r (32 - h mod 32)"
  have n: "n \<le> r" "n \<le> length xs" "h mod 32 + n \<le> 32" using Suc.prems(3) by (auto simp: n_def)
  have r: "r \<le> 2 ^ 63" using Suc.prems(3) I nblk_bounds(1) [of t] by simp
  then have be: "block_end (of_nat h) (of_nat (h + r)) = of_nat (h + n)" unfolding n_def by (rule block_end_of_nat)
  obtain q1 blk where dr: "drain_block 32 q b (of_nat h) (of_nat (h + n)) = Inr (q1, take n xs)" "deref q1 (Some b) = Inr blk"
    "set_many_empty explicit_context (of_nat h) (of_nat (h + n) - of_nat h) blk = Inr (blk\<lparr>emptyFlags := flags_upto (h mod 32 + n)\<rparr>, False)"
    "put_block q1 b (blk\<lparr>emptyFlags := flags_upto (h mod 32 + n)\<rparr>) = put_block q b (blk\<lparr>emptyFlags := flags_upto (h mod 32 + n)\<rparr>)"
    and keep: "\<And>s. s \<notin> {h mod 32..<h mod 32 + n} \<Longrightarrow> elements blk ! s = elements (blocks q ! b) ! s"
    "freeListRefs blk = 0" "block_shape blk" "next_block blk = next_block (blocks q ! b)"
    using EP_drain_first [OF ringb n(2,3)] by blast
  let ?blk = "blk\<lparr>emptyFlags := flags_upto (h mod 32 + n)\<rparr>"
  let ?q = "put_block q b ?blk"
  have kept: "\<And>s. s \<notin> {h mod 32..<h mod 32 + n} \<Longrightarrow> elements ?blk ! s = elements (blocks q ! b) ! s" "freeListRefs ?blk = 0" "block_shape ?blk"
    "next_block ?blk = next_block (blocks q ! b)" "emptyFlags ?blk = flags_upto (h mod 32 + n)"
    using keep by (simp_all add: block_shape_def)
  have consume: "h mod 32 + n < 32 \<Longrightarrow> ep_ring ?q others (h + n) t fs (b # bs1) (drop n xs)"
    "h mod 32 + n = 32 \<Longrightarrow> ep_ring ?q others (h + n) t (fs @ [b]) bs1 (drop n xs)"
    using ring_consume [OF ringb n(2), of ?blk] kept by blast+
  have step: "EP_drain_blocks (Suc fuel) (of_nat (h + r)) hdr q i (of_nat h) =
      (if (of_nat (h + n) :: u64) \<noteq> of_nat (h + r)
       then and_then (EP_drain_blocks fuel (of_nat (h + r)) hdr ?q (next_index hdr i) (of_nat (h + n))) (\<lambda>(q, more). Inr (q, take n xs @ more))
       else Inr (?q, take n xs))"
    unfolding EP_drain_blocks.simps(2) Let_def be walk(1) next_index_def using dr by simp
  have stop: "(of_nat (h + n) :: u64) = of_nat (h + r) \<longleftrightarrow> n = r" using of_nat_eq_add [of "r - n" "h + n"] n(1) r by auto
  have same: "blocks ?q ! y = blocks q ! y" if "y \<noteq> b" for y using that by simp
  consider "n = r" "h mod 32 + n < 32" | "n = r" "h mod 32 + n = 32" | "n < r" "h mod 32 + n = 32"
    using n(1,3) unfolding n_def by linarith
  then show ?case
  proof cases
    case 1
    then show ?thesis using step stop consume(1) bs same by (intro exI [of _ ?q] exI [of _ "[]"] exI [of _ bs]) auto
  next
    case 2
    have "all_set (blocks ?q ! b)" using b(1) 2 by (simp add: all_set_def)
    then show ?thesis using 2 step stop consume(2) bs same by (intro exI [of _ ?q] exI [of _ "[b]"] exI [of _ bs1]) auto
  next
    case 3
    have lt: "h + n < t" using 3(1) Suc.prems(3) I(1,2) by simp
    have rest: "r - n \<le> length (drop n xs)" "r - n < fuel" using Suc.prems(3,4) 3 n mod_less_divisor [of 32 h] by simp_all
    obtain q' cs bs' where IH: "EP_drain_blocks fuel (of_nat (h + n + (r - n))) hdr ?q (next_index hdr i) (of_nat (h + n)) = Inr (q', take (r - n) (drop n xs))"
      "bs1 = cs @ bs'" "ep_ring q' others (h + n + (r - n)) t ((fs @ [b]) @ cs) bs' (drop (r - n) (drop n xs))"
      "\<forall>y. y \<notin> set bs1 \<longrightarrow> blocks q' ! y = blocks ?q ! y" "list_all (\<lambda>b. all_set (blocks q' ! b)) cs"
      using Suc.IH [OF consume(2) [OF 3(2)] lt rest walk(2)] by blast
    have "all_set (blocks q' ! b)" using b IH(4) 3(2) by (simp add: all_set_def)
    moreover have "take r xs = take n xs @ take (r - n) (drop n xs)" using 3(1) take_add [of n "r - n" xs] by simp
    ultimately show ?thesis using step stop 3(1) IH bs same
      by (intro exI [of _ q'] exI [of _ "b # cs"] exI [of _ bs']) auto
  qed
qed simp

lemma eback_walk:
  assumes "k \<le> 59" "hdr_size hdr = 2 ^ k" "unat i = eback k f j" "d \<le> j" "j < 2 ^ k"
  shows "unat ((next_index hdr ^^ d) i) = eback k f (j - d)"
  using assms(4)
proof (induction d)
  case 0
  then show ?case using assms(3) by simp
next
  case (Suc d)
  let ?i = "(next_index hdr ^^ d) i"
  have "unat ?i = eback k f (Suc (j - Suc d))" using Suc by (simp add: Suc_diff_Suc)
  then have "unat (next_index hdr ?i) = (eback k f (Suc (j - Suc d)) + 1) mod 2 ^ k"
    using unat_mask_add [OF assms(1), of ?i] eback_less [of k f "Suc (j - Suc d)"] assms(2) by (simp add: next_index_def [of hdr ?i])
  also have "\<dots> = eback k f (j - Suc d)" using Suc.prems assms(5) by (intro eback_next) linarith
  finally show ?case by simp
qed

lemma eslots_walk:
  assumes ok: "eslots p m bs u" and i: "i div 32 < m" "length bs = m - i div 32"
  shows "\<exists>hdr idx. EP_lookup p (of_nat i) = Inr (hdr, idx) \<and> index_walk hdr idx bs"
proof -
  let ?j = "length bs - 1"
  obtain cs where cs: "eindex_ok p m (cs @ bs)" using ok by (auto simp: eslots_def)
  have j: "m - 1 - i div 32 = ?j" "?j < length (cs @ bs)" "0 < length bs" using i by simp_all
  obtain k f hdr idx where look: "EP_lookup p (of_nat i) = Inr (hdr, idx)" "k \<le> 59" "hdr_size hdr = 2 ^ k" "length (hdr_entries hdr) = 2 ^ k"
    "unat idx = eback k f ?j" "length (cs @ bs) \<le> 2 ^ k"
    "\<And>j. j < length (cs @ bs) \<Longrightarrow> hdr_entries hdr ! eback k f j = (of_nat (32 * (m - 1 - j)), Some ((cs @ bs) ! (length (cs @ bs) - 1 - j)))"
    using EP_lookup_slot [OF cs i(1), unfolded j(1), OF j(2)] by blast
  have "entry_block hdr ((next_index hdr ^^ d) idx) = Inr (bs ! d)" if d: "d < length bs" for d
  proof -
    have "unat ((next_index hdr ^^ d) idx) = eback k f (?j - d)"
      using d look(6) by (intro eback_walk [OF look(2,3,5)]) auto
    moreover have "length (cs @ bs) - 1 - (?j - d) = length cs + d" using d by simp
    then have "(cs @ bs) ! (length (cs @ bs) - 1 - (?j - d)) = bs ! d" by (simp only: nth_append_length_plus)
    ultimately show ?thesis using look(4) look(7) [of "?j - d"] d eback_less [of k f "?j - d"] by (simp add: entry_block_def entry_at_def)
  qed
  then show ?thesis using look(1) unfolding index_walk_def by blast
qed

lemma eslots_suffix: "eslots p m (cs @ bs) u \<Longrightarrow> eslots p m bs u"
  unfolding eslots_def by (metis append.assoc)

lemma empties_append: "empties q (fs @ cs) = empties q fs + empties q cs"
  by (simp add: empties_def)

lemma EP_dequeue_bulk_count:
  assumes ok: "ep_ok q p others h t fs bs xs" and n_def: "n = min (unat m) (length xs)"
  shows "\<exists>q' p' fs' bs'. EP_dequeue_bulk q p m = Inr (q', p', take n xs, of_nat n) \<and>
     ep_ok q' p' others (h + n) t fs' bs' (drop n xs) \<and> (\<forall>y \<in> others. blocks q' ! y = blocks q ! y) \<and>
     pr_blockIndexSlotsUsed p' = pr_blockIndexSlotsUsed p \<and>
     (list_all (\<lambda>b. all_set (blocks q ! b)) fs \<longrightarrow> list_all (\<lambda>b. all_set (blocks q' ! b)) fs')"
proof -
  have w: "ep_tailIndex p = of_nat t" "ep_headIndex p = of_nat h" "ep_dequeueOptimisticCount p - ep_dequeueOvercommit p = of_nat h"
    and tail: "ep_tailBlock p = (if fs @ bs = [] then None else Some (last (fs @ bs)))" and ix: "eslots p (nblk t) bs (unat (pr_blockIndexSlotsUsed p))"
    and slots: "length bs + empties q fs \<le> unat (pr_blockIndexSlotsUsed p)" and ring: "ep_ring q others h t fs bs xs"
    using ok unfolding ep_ok_def by blast+
  have I: "h \<le> t" "length xs = t - h" "length bs = nblk t - h div 32" "32 * nblk t < h + 2 ^ 63" "distinct (fs @ bs)" "set (fs @ bs) \<inter> others = {}"
    using ring by (simp_all add: ep_ring_def)
  have b: "length xs < 2 ^ 63" using I nblk_bounds(1) [of t] by simp
  have desired: "ep_tailIndex p - (ep_dequeueOptimisticCount p - ep_dequeueOvercommit p) = of_nat (length xs)"
    using w I by (simp add: of_nat_diff)
  note counts = bulk_counts [OF b n_def]
  show ?thesis
  proof (cases "xs = []")
    case True
    then have "EP_dequeue_bulk q p m = Inr (q, p, [], 0)"
      unfolding EP_dequeue_bulk_def Let_def desired using circular_zero_less [of 0] by simp
    then show ?thesis using True ok by (auto simp: n_def)
  next
    case False
    then have pos: "h < t" using I by (cases "h = t") auto
    let ?p = "p\<lparr>ep_dequeueOptimisticCount := ep_dequeueOptimisticCount p + of_nat n, ep_headIndex := of_nat (h + n)\<rparr>"
    have ix': "eslots ?p (nblk t) bs (unat (pr_blockIndexSlotsUsed p))" using ix eslots_cong [of ?p p] by simp
    obtain hdr i where look: "EP_lookup ?p (of_nat h) = Inr (hdr, i)" "index_walk hdr i bs"
      using eslots_walk [OF ix' div_less_nblk [OF pos] I(3)] by blast
    have "n \<le> length xs" by (simp add: n_def)
    then obtain q' cs bs' where dr: "EP_drain_blocks (Suc n) (of_nat (h + n)) hdr q i (of_nat h) = Inr (q', take n xs)" "bs = cs @ bs'"
      "ep_ring q' others (h + n) t (fs @ cs) bs' (drop n xs)" "\<And>y. y \<notin> set bs \<Longrightarrow> blocks q' ! y = blocks q ! y"
      "list_all (\<lambda>b. all_set (blocks q' ! b)) cs"
      using EP_drain_blocks_spec [OF ring pos _ lessI look(2)] by blast
    have fields: "ep_tailIndex (p\<lparr>ep_dequeueOptimisticCount := x\<rparr>) = ep_tailIndex p"
      "ep_headIndex (p\<lparr>ep_dequeueOptimisticCount := x\<rparr>) = ep_headIndex p" for x by simp_all
    have circ: "circular_less_than 0 (of_nat (length xs) :: u64) = True" using circular_zero_less [OF b] False by simp
    have run: "EP_dequeue_bulk q p m = Inr (q', ?p, take n xs, of_nat n)"
      by (simp only: EP_dequeue_bulk_def Let_def fields desired counts circ if_True less_irrefl
          if_False w(2) of_nat_add [symmetric] look(1) dr(1) and_then_Inr prod.case)
    have same: "same_flags q q' fs" using dr(4) I(5) unfolding same_flags_def by (metis disjoint_iff distinct_append)
    have "empties q' cs = length cs" using dr(5) by (simp add: empties_def list_all_iff filter_id_conv)
    then have "length bs' + empties q' (fs @ cs) = length bs + empties q fs" using dr(2) same_flags_empties [OF same] by (simp add: empties_append)
    moreover have "fs @ cs @ bs' = fs @ bs" using dr(2) by simp
    ultimately have "ep_ok q' ?p others (h + n) t (fs @ cs) bs' (drop n xs)"
      using w tail slots dr(3) eslots_suffix [of ?p "nblk t" cs bs'] ix' dr(2) by (simp add: ep_ok_def)
    moreover have "\<forall>y \<in> others. blocks q' ! y = blocks q ! y" using dr(4) I(6) by auto
    moreover have "list_all (\<lambda>b. all_set (blocks q ! b)) fs \<longrightarrow> list_all (\<lambda>b. all_set (blocks q' ! b)) (fs @ cs)"
      using same_flags_all [OF same, of fs] dr(5) by simp
    moreover have "pr_blockIndexSlotsUsed ?p = pr_blockIndexSlotsUsed p" by simp
    ultimately show ?thesis using run by blast
  qed
qed

lemma EP_dequeue_bulk_spec:
  assumes "ep_ok q p others h t fs bs xs"
  shows "\<exists>q' p' fs' bs'. EP_dequeue_bulk q p m = Inr (q', p', take (unat m) xs, of_nat (min (unat m) (length xs))) \<and>
     ep_ok q' p' others (h + min (unat m) (length xs)) t fs' bs' (drop (unat m) xs) \<and> (\<forall>y \<in> others. blocks q' ! y = blocks q ! y) \<and>
     pr_blockIndexSlotsUsed p' = pr_blockIndexSlotsUsed p \<and>
     (list_all (\<lambda>b. all_set (blocks q ! b)) fs \<longrightarrow> list_all (\<lambda>b. all_set (blocks q' ! b)) fs')"
proof -
  have "take (min (unat m) (length xs)) xs = take (unat m) xs" "drop (min (unat m) (length xs)) xs = drop (unat m) xs"
    by (auto simp: min_def)
  then show ?thesis using EP_dequeue_bulk_count [OF assms refl, of m] by simp
qed

section \<open>A bulk enqueue that fails\<close>

text \<open>
  The block index is full and one block is empty. A bulk enqueue of two blocks without allocating takes the
  empty block, writes it over the oldest slot in use, and then fails: the slot is not restored.
\<close>

lemma failed_bulk:
  fixes q :: "'a BlockPool"
  assumes ok: "ep_ok q p others h t [n] bs xs" and n: "all_set (blocks q ! n)" and t: "t mod 32 = 0" and h: "h mod 32 \<noteq> 0"
    and slots: "pr_blockIndexSlotsUsed p = pr_blockIndexSize p" "unat (pr_blockIndexSlotsUsed p) < 2 ^ 58" and items: "length items = 64"
  shows "\<exists>p'. EP_enqueue_bulk env CannotAlloc items q p = Inr (q, p', Not_Enqueued) \<and> ExplicitProducer_destroy q p' = Inl Assertion_Failed"
proof -
  have w: "ep_tailIndex p = of_nat t" "ep_headIndex p = of_nat h" and ring: "ep_ring q others h t [n] bs xs"
    and tail: "ep_tailBlock p = Some (last (n # bs))" and ix: "eslots p (nblk t) bs (unat (pr_blockIndexSlotsUsed p))"
    and used: "length bs + empties q [n] \<le> unat (pr_blockIndexSlotsUsed p)"
    using ok by (simp_all add: ep_ok_def)
  have I: "h \<le> t" "circle q (n # bs)" "distinct (n # bs)" "eflags q bs (h mod 32)" "length bs = nblk t - h div 32"
    using ring by (simp_all add: ep_ring_def)
  have pos: "0 < t" "h < t" using I(1) h t by (cases "h = t"; auto)+
  then have bs: "bs \<noteq> []" using I(5) div_less_nblk [of h t] by auto
  have e1: "empties q [n] = 1" using n by (simp add: empties_def)
  have "Suc (length bs) < 2 ^ 58" using used e1 slots(2) by linarith
  then have room: "t + 32 < h + 2 ^ 63" by (rule ep_bounds(3) [OF ok t])
  have cl: "\<not> circular_less_than (of_nat (t + 32) :: u64) (of_nat h)" "\<not> circular_less_than (of_nat t :: u64) (of_nat h)"
    using I(1) room by (subst circular_less_than_of_nat; simp)+
  obtain c where c: "t = 32 * Suc c" using t pos(1) that [of "t div 32 - 1"] by (auto elim!: dvdE simp flip: dvd_eq_mod_eq_0)
  have base: "(of_nat t - 1 :: u64) AND NOT 31 = of_nat (32 * c)"
  proof -
    have e: "(of_nat t - 1 :: u64) = of_nat (32 * c + 31)" by (simp add: c)
    have d: "(32 * c + 31) div 32 = c" by simp
    show ?thesis by (simp only: e block_base_of_nat d)
  qed
  have top: "(of_nat t + 64 - 1 :: u64) AND NOT 31 = of_nat (32 * (c + 2))"
  proof -
    have e: "(of_nat t + 64 - 1 :: u64) = of_nat (32 * (c + 2) + 31)" by (simp add: c)
    have d: "(32 * (c + 2) + 31) div 32 = c + 2" by simp
    show ?thesis by (simp only: e block_base_of_nat d)
  qed
  have diff: "(of_nat (32 * (c + 2)) - of_nat (32 * c) :: u64) = 64" by simp
  have used_n: "n < length (blocks q)" "hd bs < length (blocks q)" "last (n # bs) < length (blocks q)"
    using ep_ring_used(1) [OF ring] bs by simp_all
  have nexts: "next_block (blocks q ! last (n # bs)) = Some n" "next_block (blocks q ! n) = Some (hd bs)"
  proof -
    show "next_block (blocks q ! last (n # bs)) = Some n" using circle_last [OF I(2)] by simp
    show "next_block (blocks q ! n) = Some (hd bs)" using I(2) bs by (cases bs) (simp_all add: circle_def)
  qed
  have not_empty: "\<not> list_all id (emptyFlags (blocks q ! hd bs))"
    using eflags_hd [OF I(4) bs] mod_less_divisor [of 32 h] by (simp add: less_imp_le)
  obtain cs where cs: "eindex_ok p (nblk t) (cs @ bs)" using ix by (auto simp: eslots_def)
  obtain hdr hs where hdr: "ep_blockIndex p = hdr # hs" using eslots_index [OF ix] used e1 by (cases "ep_blockIndex p") auto
  obtain k where k: "k \<le> 59" "pr_blockIndexSize p = 2 ^ k" "unat (pr_blockIndexFront p) < 2 ^ k" "length (hdr_entries hdr) = 2 ^ k"
    using cs hdr unfolding eindex_ok_def eslots_ok_def by auto
  let ?f = "pr_blockIndexFront p"
  let ?hdr = "hdr\<lparr>hdr_entries := (hdr_entries hdr)[unat ?f := (of_nat t, Some n)]\<rparr>"
  let ?p = "p\<lparr>ep_blockIndex := ?hdr # hs\<rparr>"
  have entry: "bulk_entry (p\<lparr>ep_tailBlock := Some n\<rparr>) (of_nat t) =
      Inr (p\<lparr>ep_tailBlock := Some n, ep_blockIndex := ?hdr # hs, pr_blockIndexFront := (?f + 1) AND (2 ^ k - 1)\<rparr>)"
    using hdr k by (simp add: bulk_entry_def)
  let ?l = "\<lparr>blockBaseDiff = 64, bulkTailIndex = of_nat (32 * c), firstAllocatedBlock = None, originalBlockIndexFront = ?f\<rparr>"
  let ?l1 = "\<lparr>blockBaseDiff = 32, bulkTailIndex = of_nat t, firstAllocatedBlock = Some n, originalBlockIndexFront = ?f\<rparr>"
  let ?p1 = "p\<lparr>ep_tailBlock := Some n, ep_blockIndex := ?hdr # hs, pr_blockIndexFront := (?f + 1) AND (2 ^ k - 1)\<rparr>"
  have a1: "bulk_ahead q p ?l = Inr (Some n)"
    unfolding bulk_ahead_def tail using used_n nexts n by (simp add: next_of_def is_empty_def all_set_def)
  have l1: "note_first n (next_bulk_block ?l) = ?l1" by (simp add: note_first_def next_bulk_block_def c)
  have a2: "bulk_ahead q ?p1 ?l1 = Inr None"
    using used_n nexts not_empty I(3) bs by (auto simp: bulk_ahead_def next_of_def is_empty_def)
  have ahead: "blocks_from_ahead 2 q p ?l = Inr (?p1, ?l1)"
    unfolding numeral_2_eq_2
    by (subst blocks_from_ahead.simps, simp only: a1 and_then_Inr option.case nat.case Let_def l1, simp add: entry)
       (subst blocks_from_ahead.simps, simp add: a2)
  let ?l2 = "\<lparr>blockBaseDiff = 0, bulkTailIndex = of_nat (t + 32), firstAllocatedBlock = Some n, originalBlockIndexFront = ?f\<rparr>"
  have l2: "next_bulk_block ?l1 = ?l2" by (simp add: next_bulk_block_def add.commute)
  have pool: "blocks_from_pool 2 env CannotAlloc (pr_blockIndexSlotsUsed p) q ?p1 ?l1 = Inr (q, ?p1, ?l2, False)"
    unfolding numeral_2_eq_2
    by (subst blocks_from_pool.simps) (use cl(1) w slots(1) in \<open>simp add: l2 bulk_index_room_def Let_def del: of_nat_add\<close>)
  have prep: "prepare_blocks env CannotAlloc 64 q p = Inr (q, ?p1, ?l2, False)"
  proof -
    have "(32 - 1 :: u64) = 31" "unat (64 :: u64) div 32 = 2" "(0 :: u64) < 64" by simp_all
    then show ?thesis unfolding prepare_blocks_def Let_def using ahead pool by (simp only: w(1) base top diff if_True and_then_Inr prod.case) simp
  qed
  have undo: "undo_bulk (ep_tailBlock p) (pr_blockIndexSlotsUsed p) ?l2 ?p1 = ?p" using tail by (simp add: undo_bulk_def)
  have "EP_enqueue_bulk env CannotAlloc items q p = Inr (q, ?p, Not_Enqueued)"
    using prep undo items by (simp add: EP_enqueue_bulk_def Let_def)
  moreover have "halfDequeuedBlock ?p = Inl Assertion_Failed"
  proof -
    have "unat ((?f - pr_blockIndexSlotsUsed p) AND (2 ^ k - 1)) = unat ?f"
      using unat_mask_sub [OF k(1,3), of "pr_blockIndexSlotsUsed p"] k slots(1) by (simp add: unat_pow2)
    then have i: "(?f - pr_blockIndexSlotsUsed p) AND (2 ^ k - 1) = ?f" by (simp only: word_unat_eq_iff)
    obtain fuel where fuel: "length (hdr_entries ?hdr) = Suc fuel" using k(4) by (cases "length (hdr_entries ?hdr)") auto
    have at: "entry_at ?hdr ?f = Inr (of_nat t, Some n)" using k by (simp add: entry_at_def)
    have "of_nat t + 32 = (of_nat (t + 32) :: u64)" by simp
    then have "half_slot (length (hdr_entries ?hdr)) ?hdr (2 ^ k - 1) (of_nat h) ?f = Inr (of_nat t, Some n)"
      unfolding fuel using cl(1) at by (simp del: of_nat_add)
    then show ?thesis using h w(2) of_nat_and_31 [of h] k(2) i cl(2) by (simp add: halfDequeuedBlock_def)
  qed
  then have "ExplicitProducer_destroy q ?p = Inl Assertion_Failed" using tail by (simp add: ExplicitProducer_destroy_def)
  ultimately show ?thesis by blast
qed

text \<open>Such a state is reached by filling the 32 slots of a new block index and dequeuing one block and an element.\<close>

lemma queue_session_append:
  "queue_session enq deq val s ops = Inr (s1, accepted, taken) \<Longrightarrow> queue_session enq deq val s1 ops' = Inr (s2, accepted', taken') \<Longrightarrow>
     queue_session enq deq val s (ops @ ops') = Inr (s2, accepted @ accepted', taken @ taken')"
proof (induction ops arbitrary: s accepted taken)
  case (Cons op ops)
  then show ?case by (cases op) (fastforce simp: and_then_eq_Inr split: if_splits option.splits)+
qed simp

definition filling :: "'a BlockPool \<times> ExplicitProducer \<Rightarrow> nat \<Rightarrow> 'a list \<Rightarrow> bool" where
  "filling s t xs \<longleftrightarrow> (\<exists>bs. ep_ok (fst s) (snd s) {} 0 t [] bs xs) \<and> unat (pr_blockIndexSlotsUsed (snd s)) \<le> nblk t \<and>
     pr_blockIndexSize (snd s) = 32 \<and> ep_blockIndex (snd s) \<noteq> []"

lemma filling_step:
  assumes fill: "filling s t xs" and t: "t < 1024"
  shows "\<exists>s'. EP_enq good_env CanAlloc (x, True) s = Inr (s', True) \<and> filling s' (Suc t) (xs @ [x])"
proof -
  obtain bs where ok: "ep_ok (fst s) (snd s) {} 0 t [] bs xs" using fill by (auto simp: filling_def)
  have F: "unat (pr_blockIndexSlotsUsed (snd s)) \<le> nblk t" "pr_blockIndexSize (snd s) = 32" "ep_blockIndex (snd s) \<noteq> []"
    using fill by (simp_all add: filling_def)
  have n: "nblk t \<le> 32" using t by (simp add: nblk_def)
  then have "unat (pr_blockIndexSlotsUsed (snd s)) < 2 ^ 58" using F(1) by simp
  then obtain q' p' r where run: "EP_enqueue good_env CanAlloc True x (fst s) (snd s) = Inr (q', p', r)"
    "ep_outcome (fst s) (snd s) q' p' r {} 0 t [] xs x" "r = Constructor_Threw \<longrightarrow> \<not> True"
    "r = Not_Enqueued \<longrightarrow> 0 + 2 ^ 63 \<le> t + 32 \<or> no_memory good_env CanAlloc (fst s)"
    using EP_enqueue_spec [OF ok, of good_env CanAlloc True x] by blast
  have r: "r = Enqueued" using run(3,4) t good_env_ok by (cases r) (auto simp: no_memory_def)
  then obtain bs' where ok': "ep_ok q' p' {} 0 (Suc t) [] bs' (xs @ [x])" using run(2) by (auto simp: ep_outcome_def)
  have O: "same_size (snd s) p'" "t mod 32 \<noteq> 0 \<longrightarrow> pr_blockIndexSize p' = pr_blockIndexSize (snd s)"
    "unat (pr_blockIndexSlotsUsed p') \<le> (if t mod 32 = 0 then Suc (unat (pr_blockIndexSlotsUsed (snd s))) else unat (pr_blockIndexSlotsUsed (snd s)))"
    using run(2) unfolding ep_outcome_def by blast+
  have "pr_blockIndexSize p' = 32"
  proof (cases "t mod 32 = 0")
    case True
    then have "nblk t < 32" using nblk_mod0(2) [OF True] t by simp
    then have "pr_blockIndexSlotsUsed (snd s) \<noteq> pr_blockIndexSize (snd s)" using F(1,2) by auto
    then show ?thesis using O(1) F(2,3) by (simp add: same_size_def)
  qed (use O(2) F(2) in simp)
  moreover have "unat (pr_blockIndexSlotsUsed p') \<le> nblk (Suc t)"
    using O(3) F(1) nblk_mod0(3) [of t] nblk_modn(2) [of t] by (cases "t mod 32 = 0") auto
  moreover have "ep_blockIndex p' \<noteq> []"
  proof -
    have "length bs' = nblk (Suc t)" "length bs' \<le> unat (pr_blockIndexSlotsUsed p')"
      and ix: "eslots p' (nblk (Suc t)) bs' (unat (pr_blockIndexSlotsUsed p'))"
      using ok' by (simp_all add: ep_ok_def ep_ring_def)
    then have "0 < unat (pr_blockIndexSlotsUsed p')" using div_less_nblk [of 0 "Suc t"] by simp
    then show ?thesis by (rule eslots_index [OF ix])
  qed
  ultimately have "filling (q', p') (Suc t) (xs @ [x])" using ok' by (auto simp: filling_def)
  then show ?thesis using run(1) r by (auto simp: EP_enq_def)
qed

lemma filling_session:
  "filling s t xs \<Longrightarrow> t + n \<le> 1024 \<Longrightarrow>
     \<exists>s'. queue_session (EP_enq good_env CanAlloc) EP_deq fst s (replicate n (Enq (x, True))) = Inr (s', replicate n x, []) \<and>
       filling s' (t + n) (xs @ replicate n x)"
proof (induction n arbitrary: s t xs)
  case (Suc n)
  have "t < 1024" "Suc t + n \<le> 1024" using Suc.prems(2) by simp_all
  obtain s1 where s1: "EP_enq good_env CanAlloc (x, True) s = Inr (s1, True)" "filling s1 (Suc t) (xs @ [x])"
    using filling_step [OF Suc.prems(1) \<open>t < 1024\<close>] by blast
  obtain s2 where "queue_session (EP_enq good_env CanAlloc) EP_deq fst s1 (replicate n (Enq (x, True))) = Inr (s2, replicate n x, [])"
    "filling s2 (Suc t + n) ((xs @ [x]) @ replicate n x)"
    using Suc.IH [OF s1(2) \<open>Suc t + n \<le> 1024\<close>] by blast
  then show ?case using s1(1) by auto
qed auto

lemma draining_session:
  "ep_ok (fst s) (snd s) others h t fs bs xs \<Longrightarrow> list_all (\<lambda>b. all_set (blocks (fst s) ! b)) fs \<Longrightarrow> n \<le> length xs \<Longrightarrow>
     \<exists>s' fs' bs'. queue_session enq EP_deq val s (replicate n Deq) = Inr (s', [], take n xs) \<and>
       ep_ok (fst s') (snd s') others (h + n) t fs' bs' (drop n xs) \<and> list_all (\<lambda>b. all_set (blocks (fst s') ! b)) fs' \<and>
       fs' @ bs' = fs @ bs \<and> pr_blockIndexSlotsUsed (snd s') = pr_blockIndexSlotsUsed (snd s) \<and> pr_blockIndexSize (snd s') = pr_blockIndexSize (snd s)"
proof (induction n arbitrary: s h fs bs xs)
  case 0
  then show ?case by auto
next
  case (Suc n)
  then obtain x ys where xs: "xs = x # ys" by (cases xs) auto
  obtain q1 p1 fs1 bs1 where deq: "EP_dequeue (fst s) (snd s) = Inr (q1, p1, Some x)" "ep_ok q1 p1 others (Suc h) t fs1 bs1 ys"
    "pr_blockIndexSlotsUsed p1 = pr_blockIndexSlotsUsed (snd s)" "pr_blockIndexSize p1 = pr_blockIndexSize (snd s)" "fs1 @ bs1 = fs @ bs"
    "list_all (\<lambda>b. all_set (blocks q1 ! b)) fs1"
    using EP_dequeue_spec [of "fst s" "snd s" others h t fs bs x ys] Suc.prems(1,2) xs by blast
  have "n \<le> length ys" using Suc.prems(3) xs by simp
  then obtain s' fs' bs' where "queue_session enq EP_deq val (q1, p1) (replicate n Deq) = Inr (s', [], take n ys)"
    "ep_ok (fst s') (snd s') others (Suc h + n) t fs' bs' (drop n ys)" "list_all (\<lambda>b. all_set (blocks (fst s') ! b)) fs'"
    "fs' @ bs' = fs1 @ bs1" "pr_blockIndexSlotsUsed (snd s') = pr_blockIndexSlotsUsed p1" "pr_blockIndexSize (snd s') = pr_blockIndexSize p1"
    using Suc.IH [of "(q1, p1)" "Suc h" fs1 bs1 ys] deq(2,6) by auto
  moreover have "EP_deq s = Inr ((q1, p1), Some x)" using deq(1) by (simp add: EP_deq_def)
  ultimately show ?case using deq(3-5) xs by (intro exI [of _ s'] exI [of _ fs'] exI [of _ bs']) simp
qed

lemma new_index_32:
  "\<exists>s :: nat BlockPool \<times> ExplicitProducer. ExplicitProducer_init good_env (initial_pool good_env 32) = Inr s \<and> filling s 0 []"
proof -
  let ?q = "initial_pool good_env 32 :: nat BlockPool"
  obtain p where p: "ExplicitProducer_init good_env ?q = Inr (?q\<lparr>mallocs := mallocs ?q + 1\<rparr>, p)"
    "ep_ok (?q\<lparr>mallocs := mallocs ?q + 1\<rparr>) p {} 0 0 [] [] []" "pr_blockIndexSlotsUsed p = 0"
    using ExplicitProducer_init_ok [OF initial_pool_inv initial_pool_size, of good_env good_env 32] by blast
  have "case ExplicitProducer_init good_env ?q of Inr (q, p) \<Rightarrow> pr_blockIndexSize p = 32 \<and> ep_blockIndex p \<noteq> [] | Inl _ \<Rightarrow> False"
    by code_simp
  then show ?thesis using p by (auto simp: filling_def)
qed

text \<open>
  (C38) A bulk enqueue that fails breaks the destructor. When the block index is full, a bulk enqueue that takes an empty block writes it over a slot that is still in use. If it then
  fails, because it may not allocate, it restores its counters but not that slot, and \<^verbatim>\<open>~ExplicitProducer\<close>, which looks for
  the block that is partly dequeued from this slot on, fails its assertion: here after 1024 enqueues and 33 dequeues.
\<close>

theorem failed_bulk_breaks_destructor:
  "\<exists>(s :: nat BlockPool \<times> ExplicitProducer) accepted taken q p.
     and_then (ExplicitProducer_init good_env (initial_pool good_env 32))
       (\<lambda>s. queue_session (EP_enq good_env CanAlloc) EP_deq fst s (replicate 1024 (Enq (7, True)) @ replicate 33 Deq)) = Inr (s, accepted, taken) \<and>
     EP_enqueue_bulk good_env CannotAlloc (replicate 64 (7, True)) (fst s) (snd s) = Inr (q, p, Not_Enqueued) \<and>
     ExplicitProducer_destroy q p = Inl Assertion_Failed"
proof -
  obtain s :: "nat BlockPool \<times> ExplicitProducer"
    where s: "ExplicitProducer_init good_env (initial_pool good_env 32) = Inr s" "filling s 0 []" using new_index_32 by blast
  obtain s1 where s1: "queue_session (EP_enq good_env CanAlloc) EP_deq fst s (replicate 1024 (Enq (7, True))) = Inr (s1, replicate 1024 7, [])"
    "filling s1 (0 + 1024) ([] @ replicate 1024 7)"
    using filling_session [OF s(2), of 1024 7] by auto
  have n: "nblk 1024 = 32" and n33: "33 \<le> length (replicate 1024 (7 :: nat))" by (simp_all add: nblk_def)
  obtain bs where bs: "ep_ok (fst s1) (snd s1) {} 0 1024 [] bs (replicate 1024 7)" "pr_blockIndexSize (snd s1) = 32"
    "unat (pr_blockIndexSlotsUsed (snd s1)) \<le> 32"
    using s1(2) n by (auto simp: filling_def)
  have len: "length bs = 32" "length bs \<le> unat (pr_blockIndexSlotsUsed (snd s1))" using bs(1) n by (simp_all add: ep_ok_def ep_ring_def)
  then have "unat (pr_blockIndexSlotsUsed (snd s1)) = unat (32 :: u64)" using bs(3) by simp
  then have slots: "pr_blockIndexSlotsUsed (snd s1) = 32" by (simp only: word_unat_eq_iff)
  have clean: "list_all (\<lambda>b. all_set (blocks (fst s1) ! b)) []" by simp
  obtain s2 fs2 bs2 where s2: "queue_session (EP_enq good_env CanAlloc) EP_deq fst s1 (replicate 33 Deq) = Inr (s2, [], take 33 (replicate 1024 7))"
    "ep_ok (fst s2) (snd s2) {} (0 + 33) 1024 fs2 bs2 (drop 33 (replicate 1024 7))" "list_all (\<lambda>b. all_set (blocks (fst s2) ! b)) fs2"
    "fs2 @ bs2 = [] @ bs" "pr_blockIndexSlotsUsed (snd s2) = pr_blockIndexSlotsUsed (snd s1)" "pr_blockIndexSize (snd s2) = pr_blockIndexSize (snd s1)"
    using draining_session [OF bs(1) clean n33, where enq = "EP_enq good_env CanAlloc" and val = fst] by blast
  have "length bs2 = 31" using s2(2) n by (simp add: ep_ok_def ep_ring_def)
  moreover have "length fs2 + length bs2 = 32" using arg_cong [OF s2(4), of length] len(1) by simp
  ultimately obtain b where b: "fs2 = [b]" by (cases fs2) auto
  have "\<exists>p'. EP_enqueue_bulk good_env CannotAlloc (replicate 64 (7, True)) (fst s2) (snd s2) = Inr (fst s2, p', Not_Enqueued) \<and>
      ExplicitProducer_destroy (fst s2) p' = Inl Assertion_Failed"
    by (rule failed_bulk [of "fst s2" "snd s2" "{}" "0 + 33" 1024 b bs2]) (use s2 b slots bs(2) in simp_all)
  moreover have "queue_session (EP_enq good_env CanAlloc) EP_deq fst s (replicate 1024 (Enq (7, True)) @ replicate 33 Deq) =
      Inr (s2, replicate 1024 7 @ [], [] @ take 33 (replicate 1024 7))"
    using s1(1) s2(1) by (rule queue_session_append)
  ultimately show ?thesis using s(1) by auto
qed

text \<open>A copy that throws in a bulk enqueue leaves the blocks it took with their flags reset, which the destructor takes for full ones.\<close>

lemma throwing_bulk_breaks_destructor:
  "and_then (ExplicitProducer_init good_env (initial_pool good_env 192)) (\<lambda>(q, p).
     and_then (EP_enqueue_bulk good_env CanAlloc [(7 :: nat, True), (8, False)] q p) (\<lambda>(q, p, r).
       Inr (r, ExplicitProducer_destroy q p))) = Inr (Constructor_Threw, Inl Undefined_Behaviour)"
  by code_simp

end
