(* ===== verification/CQ_ExplicitFill.thy ===== *)
theory CQ_ExplicitFill
  imports CQ_ExplicitBulk
begin

text \<open>
  The bulk enqueue of an explicit producer when memory is available and no copy throws. It prepares as many blocks as the elements
  need, the empty blocks ahead of the tail block first and then blocks of the pool, resets their flags, fills them, and exposes their slots of
  the block index: the elements are appended to those the producer holds.
\<close>

section \<open>The block index while blocks are prepared\<close>

text \<open>
  While blocks are prepared, their slots are filled but not exposed: the index is right once its front is set to the last slot
  filled.
\<close>

definition exposed :: "ExplicitProducer \<Rightarrow> ExplicitProducer" where
  "exposed p =
     (case ep_blockIndex p of
        [] \<Rightarrow> p
      | h # hs \<Rightarrow> p\<lparr>ep_blockIndex := h\<lparr>hdr_front := (pr_blockIndexFront p - 1) AND (pr_blockIndexSize p - 1)\<rparr> # hs\<rparr>)"

lemma exposed_simps [simp]:
  "pr_blockIndexSlotsUsed (exposed p) = pr_blockIndexSlotsUsed p" "pr_blockIndexSize (exposed p) = pr_blockIndexSize p"
  "pr_blockIndexFront (exposed p) = pr_blockIndexFront p" "ep_blockIndex (exposed p) = [] \<longleftrightarrow> ep_blockIndex p = []"
  "ep_tailBlock (exposed p) = ep_tailBlock p" "ep_tailIndex (exposed p) = ep_tailIndex p" "ep_headIndex (exposed p) = ep_headIndex p"
  "ep_dequeueOptimisticCount (exposed p) = ep_dequeueOptimisticCount p" "ep_dequeueOvercommit (exposed p) = ep_dequeueOvercommit p"
  "exposed (p\<lparr>ep_tailBlock := tb\<rparr>) = exposed p\<lparr>ep_tailBlock := tb\<rparr>" "exposed (p\<lparr>ep_tailIndex := ti\<rparr>) = exposed p\<lparr>ep_tailIndex := ti\<rparr>"
  "exposed (p\<lparr>pr_blockIndexSlotsUsed := s\<rparr>) = exposed p\<lparr>pr_blockIndexSlotsUsed := s\<rparr>"
  by (simp_all add: exposed_def split: list.splits)

lemma exposed_index:
  assumes "eindex_ok p m bs"
  shows "eindex_ok (exposed p) m bs"
proof -
  obtain k where "k \<le> 59 \<and> pr_blockIndexSize p = 2 ^ k \<and> length bs \<le> unat (pr_blockIndexSlotsUsed p) \<and> unat (pr_blockIndexSlotsUsed p) \<le> 2 ^ k \<and>
      unat (pr_blockIndexFront p) < 2 ^ k \<and>
      (case ep_blockIndex p of [] \<Rightarrow> k \<le> 58 \<and> pr_blockIndexSlotsUsed p = 0 | h # _ \<Rightarrow> eslots_ok h k (pr_blockIndexFront p) m bs)"
    using assms unfolding eindex_ok_def by blast
  then show ?thesis unfolding eindex_ok_def exposed_simps by (intro exI [of _ k]) (auto simp: exposed_def eslots_ok_def split: list.splits)
qed

lemma exposed_eslots: "eslots p m bs u \<Longrightarrow> eslots (exposed p) m bs u"
  unfolding eslots_def using exposed_index by blast

lemma exposed_add:
  assumes "ep_blockIndex p = h # hs" "unat (pr_blockIndexFront p) < length (hdr_entries h)"
    "add_to_block_index (exposed p\<lparr>ep_tailIndex := base\<rparr>) = Inr p1"
  shows "\<exists>ix f. bulk_entry p base = Inr (p\<lparr>ep_blockIndex := ix, pr_blockIndexFront := f\<rparr>) \<and> ix \<noteq> [] \<and>
     exposed (p\<lparr>ep_blockIndex := ix, pr_blockIndexFront := f\<rparr>) = exposed p1\<lparr>ep_tailIndex := ep_tailIndex p\<rparr>"
  using assms
  by (intro exI [of _ "h\<lparr>hdr_entries := (hdr_entries h)[unat (pr_blockIndexFront p) := (base, ep_tailBlock p)]\<rparr> # hs"]
      exI [of _ "(pr_blockIndexFront p + 1) AND (pr_blockIndexSize p - 1)"])
    (auto simp: bulk_entry_def add_to_block_index_def exposed_def)

lemma bulk_entry_spec:
  assumes ok: "eslots (exposed p) m bs u" and slots: "u \<le> unat (pr_blockIndexSlotsUsed p)" "unat (pr_blockIndexSlotsUsed p) \<le> Suc u"
      "length bs < unat (pr_blockIndexSlotsUsed p)"
    and new: "ep_blockIndex p \<noteq> []" "ep_tailBlock p = Some b"
  shows "\<exists>ix f. bulk_entry p (of_nat (32 * m)) = Inr (p\<lparr>ep_blockIndex := ix, pr_blockIndexFront := f\<rparr>) \<and>
     eslots (exposed (p\<lparr>ep_blockIndex := ix, pr_blockIndexFront := f\<rparr>)) (Suc m) (bs @ [b]) (unat (pr_blockIndexSlotsUsed p))"
proof -
  let ?p = "exposed p\<lparr>ep_tailIndex := of_nat (32 * m)\<rparr>"
  have "eslots ?p m bs u" using ok eslots_cong [of ?p "exposed p"] by simp
  then obtain ix f where add: "add_to_block_index ?p = Inr (?p\<lparr>ep_blockIndex := ix, pr_blockIndexFront := f\<rparr>)"
    "eslots (?p\<lparr>ep_blockIndex := ix, pr_blockIndexFront := f\<rparr>) (Suc m) (bs @ [b]) (unat (pr_blockIndexSlotsUsed p))"
    using eslots_add [of ?p m bs u b] slots new by auto
  let ?p1 = "?p\<lparr>ep_blockIndex := ix, pr_blockIndexFront := f\<rparr>"
  obtain h hs where h: "ep_blockIndex p = h # hs" using new(1) by (cases "ep_blockIndex p") auto
  have "unat (pr_blockIndexFront p) < length (hdr_entries h)"
    using add(1) h by (auto simp: add_to_block_index_def exposed_def split: if_splits)
  then obtain ix' f' where entry: "bulk_entry p (of_nat (32 * m)) = Inr (p\<lparr>ep_blockIndex := ix', pr_blockIndexFront := f'\<rparr>)"
    "exposed (p\<lparr>ep_blockIndex := ix', pr_blockIndexFront := f'\<rparr>) = exposed ?p1\<lparr>ep_tailIndex := ep_tailIndex p\<rparr>"
    using exposed_add [OF h _ add(1)] by blast
  have "eslots (exposed ?p1\<lparr>ep_tailIndex := ep_tailIndex p\<rparr>) (Suc m) (bs @ [b]) (unat (pr_blockIndexSlotsUsed p))"
    using exposed_eslots [OF add(2)] eslots_cong [of "exposed ?p1\<lparr>ep_tailIndex := ep_tailIndex p\<rparr>" "exposed ?p1"] by simp
  then show ?thesis using entry by metis
qed

lemma copy_slots_front: "copy_slots fuel (h\<lparr>hdr_front := x\<rparr>) m f i = copy_slots fuel h m f i"
  by (induction fuel arbitrary: i) (simp_all add: entry_at_def Let_def)

lemma filled_slots_exposed: "filled_slots (exposed p) = filled_slots p"
  by (simp add: filled_slots_def exposed_def copy_slots_front split: list.split)

lemma new_block_index_exposed:
  assumes ok: "eindex_ok (exposed p) m bs" and full: "ep_blockIndex p = [] \<or> pr_blockIndexSlotsUsed p = pr_blockIndexSize p"
    and small: "unat (pr_blockIndexSlotsUsed p) < 2 ^ 58" and malloc: "malloc_ok env (mallocs q)"
  shows "\<exists>p'. EP_new_block_index env s q p = Inr (q\<lparr>mallocs := mallocs q + 1\<rparr>, p', True) \<and> eindex_ok (exposed p') m bs \<and>
     same_words p p' \<and> ep_tailBlock p' = ep_tailBlock p \<and> pr_blockIndexSlotsUsed p' = pr_blockIndexSlotsUsed p \<and>
     ep_blockIndex p' \<noteq> [] \<and> unat (pr_blockIndexSlotsUsed p') < unat (pr_blockIndexSize p')"
proof -
  obtain p1 where new: "EP_new_block_index env (pr_blockIndexSlotsUsed p) q (exposed p) = Inr (q\<lparr>mallocs := mallocs q + 1\<rparr>, p1, True)"
    "eindex_ok p1 m bs" "unat (pr_blockIndexSlotsUsed p1) < unat (pr_blockIndexSize p1)"
    using EP_new_block_index_spec [OF ok, of env q] full small malloc by auto
  obtain es where es: "filled_slots p = Inr es"
    using new(1) malloc by (cases "filled_slots p") (auto simp: EP_new_block_index_def cq_malloc_def filled_slots_exposed Let_def)
  let ?p = "\<lambda>s p. p\<lparr>ep_blockIndex := \<lparr>hdr_size = push_bit 1 (pr_blockIndexSize p), hdr_front = s - 1,
        hdr_entries = es @ raw_slots env (unat (push_bit 1 (pr_blockIndexSize p)) - length es)\<rparr> # ep_blockIndex p,
      pr_blockIndexSize := push_bit 1 (pr_blockIndexSize p), pr_blockIndexFront := of_nat (length es)\<rparr>"
  have run: "EP_new_block_index env s q p = Inr (q\<lparr>mallocs := mallocs q + 1\<rparr>, ?p s p, True)"
    using malloc es by (simp add: EP_new_block_index_def cq_malloc_def Let_def)
  have p1: "p1 = ?p (pr_blockIndexSlotsUsed p) (exposed p)"
    using new(1) malloc es by (simp add: EP_new_block_index_def cq_malloc_def filled_slots_exposed Let_def)
  have "eindex_ok (exposed (?p s p)) m bs = eindex_ok (exposed p1) m bs"
    by (rule eindex_ok_head) (simp_all add: p1, simp_all add: exposed_def)
  then have "eindex_ok (exposed (?p s p)) m bs" using exposed_index [OF new(2)] by simp
  then show ?thesis using run new(3) by (intro exI [of _ "?p s p"]) (simp add: p1 same_words_def)
qed

section \<open>Preparing blocks\<close>

text \<open>
  The blocks \<open>ns\<close> are prepared, of \<open>need\<close> that are needed: they lie in the circle after the tail block of before, and still count as empty.
\<close>

definition preparing ::
  "'a BlockPool \<Rightarrow> ExplicitProducer \<Rightarrow> bulk_locals \<Rightarrow> nat \<Rightarrow> nat set \<Rightarrow> nat \<Rightarrow> nat \<Rightarrow> nat list \<Rightarrow> nat list \<Rightarrow> nat list \<Rightarrow> 'a list \<Rightarrow> bool" where
  "preparing q p l need others h t ns fs bs xs \<longleftrightarrow>
     ep_ring q others h t (ns @ fs) bs xs \<and> list_all (\<lambda>b. all_set (blocks q ! b)) ns \<and> ep_headIndex p = of_nat h \<and>
     ep_tailBlock p = (if fs @ bs @ ns = [] then None else Some (last (fs @ bs @ ns))) \<and>
     firstAllocatedBlock l = (if ns = [] then None else Some (hd ns)) \<and>
     eslots (exposed p) (nblk t + length ns) (bs @ ns) (unat (pr_blockIndexSlotsUsed p)) \<and>
     length bs + length ns + empties q fs \<le> unat (pr_blockIndexSlotsUsed p) \<and> length ns \<le> need \<and> need < 2 ^ 58 \<and>
     bulkTailIndex l = of_nat (32 * (nblk t + length ns)) - 32 \<and> blockBaseDiff l = of_nat (32 * (need - length ns))"

lemma preparingD:
  assumes "preparing q p l need others h t ns fs bs xs"
  shows "ep_ring q others h t (ns @ fs) bs xs" "list_all (\<lambda>b. all_set (blocks q ! b)) ns" "ep_headIndex p = of_nat h"
    "ep_tailBlock p = (if fs @ bs @ ns = [] then None else Some (last (fs @ bs @ ns)))"
    "firstAllocatedBlock l = (if ns = [] then None else Some (hd ns))"
    "eslots (exposed p) (nblk t + length ns) (bs @ ns) (unat (pr_blockIndexSlotsUsed p))"
    "length bs + length ns + empties q fs \<le> unat (pr_blockIndexSlotsUsed p)" "length ns \<le> need" "need < 2 ^ 58"
    "bulkTailIndex l = of_nat (32 * (nblk t + length ns)) - 32" "blockBaseDiff l = of_nat (32 * (need - length ns))"
  using assms unfolding preparing_def by blast+

lemma preparing_more:
  assumes "preparing q p l need others h t ns fs bs xs"
  shows "0 < blockBaseDiff l \<longleftrightarrow> length ns < need"
proof -
  have "unat (of_nat (32 * (need - length ns)) :: u64) = 32 * (need - length ns)"
    using preparingD(9) [OF assms] by (intro unat_of_nat_small) simp
  then show ?thesis using preparingD(11) [OF assms] by (simp add: word_less_nat_alt)
qed

lemma next_locals:
  assumes "preparing q p l need others h t ns fs bs xs" "length ns < need"
  shows "bulkTailIndex (next_bulk_block l) = of_nat (32 * (nblk t + length ns))"
    "blockBaseDiff (note_first b (next_bulk_block l)) = of_nat (32 * (need - Suc (length ns)))"
    "firstAllocatedBlock (note_first b (next_bulk_block l)) = Some (hd (ns @ [b]))"
    "bulkTailIndex (note_first b (next_bulk_block l)) = of_nat (32 * (nblk t + Suc (length ns))) - 32"
proof -
  have "32 * (need - length ns) = 32 * (need - Suc (length ns)) + 32" using assms(2) by simp
  then have "blockBaseDiff l - 32 = of_nat (32 * (need - Suc (length ns)))"
    unfolding preparingD(11) [OF assms(1)] by (simp only: of_nat_add of_nat_numeral add_diff_cancel_right')
  then show "bulkTailIndex (next_bulk_block l) = of_nat (32 * (nblk t + length ns))"
    "blockBaseDiff (note_first b (next_bulk_block l)) = of_nat (32 * (need - Suc (length ns)))"
    "firstAllocatedBlock (note_first b (next_bulk_block l)) = Some (hd (ns @ [b]))"
    "bulkTailIndex (note_first b (next_bulk_block l)) = of_nat (32 * (nblk t + Suc (length ns))) - 32"
    using preparingD(5,10) [OF assms(1)] by (auto simp: next_bulk_block_def note_first_def algebra_simps)
qed

lemma bulk_ahead_spec:
  assumes prep: "preparing q p l need others h t ns fs bs xs"
  shows "bulk_ahead q p l = Inr (if length ns < need then (case fs of n # _ \<Rightarrow> if all_set (blocks q ! n) then Some n else None | [] \<Rightarrow> None) else None)"
proof (cases "length ns < need \<and> fs @ bs @ ns \<noteq> []")
  case False
  then show ?thesis using preparing_more [OF prep] preparingD(4) [OF prep] by (auto simp: bulk_ahead_def)
next
  case True
  let ?R = "fs @ bs @ ns"
  note P = preparingD [OF prep]
  have ne: "?R \<noteq> []" using True by blast
  have tail: "ep_tailBlock p = Some (last ?R)" using P(4) ne by (simp only: if_False)
  have "hd ?R \<in> set ?R" "last ?R \<in> set ?R" using hd_in_set [OF ne] last_in_set [OF ne] by blast+
  then have "hd ?R \<in> set ((ns @ fs) @ bs)" "last ?R \<in> set ((ns @ fs) @ bs)" by auto
  then have used: "hd ?R < length (blocks q)" "last ?R < length (blocks q)" using ep_ring_used(1) [OF P(1)] by blast+
  have ring: "circle q ?R" "distinct ?R" "eflags q bs (h mod 32)" using P(1) circle_swap [of q ns "fs @ bs"] by (auto simp: ep_ring_def)
  have "next_block (blocks q ! last ?R) = Some (hd ?R)" using circle_last [OF ring(1) ne] .
  then have run: "bulk_ahead q p l = Inr (if Some (hd ?R) \<noteq> firstAllocatedBlock l \<and> all_set (blocks q ! hd ?R) then Some (hd ?R) else None)"
    unfolding bulk_ahead_def tail using used True preparing_more [OF prep] by (simp add: next_of_def is_empty_def all_set_def)
  show ?thesis
  proof (cases fs)
    case (Cons n fs')
    then have "ns = [] \<or> n \<noteq> hd ns" using ring(2) hd_in_set [of ns] by (cases ns) auto
    then show ?thesis using run Cons True P(5) by auto
  next
    case Nil
    have "\<not> all_set (blocks q ! hd bs)" if "bs \<noteq> []"
      using eflags_hd [OF ring(3) that] mod_less_divisor [of 32 h] by (simp add: all_set_def less_imp_le)
    moreover have "bs = [] \<Longrightarrow> Some (hd ?R) = firstAllocatedBlock l" using Nil ne P(5) by simp
    ultimately show ?thesis using run Nil by (cases "bs = []") auto
  qed
qed

text \<open>Taking the block ahead.\<close>

lemma take_ahead:
  assumes prep: "preparing q p l need others h t ns (n # fs) bs xs" and n: "all_set (blocks q ! n)" and more: "length ns < need"
  defines "l' \<equiv> note_first n (next_bulk_block l)"
  shows "\<exists>ix f. bulk_entry (p\<lparr>ep_tailBlock := Some n\<rparr>) (bulkTailIndex (next_bulk_block l)) = Inr (p\<lparr>ep_tailBlock := Some n, ep_blockIndex := ix, pr_blockIndexFront := f\<rparr>) \<and>
     preparing q (p\<lparr>ep_tailBlock := Some n, ep_blockIndex := ix, pr_blockIndexFront := f\<rparr>) l' need others h t (ns @ [n]) fs bs xs"
proof -
  note P = preparingD [OF prep]
  let ?p = "p\<lparr>ep_tailBlock := Some n\<rparr>" and ?u = "unat (pr_blockIndexSlotsUsed p)"
  have slots: "length bs + Suc (length ns) + empties q fs \<le> ?u" using P(7) n by (simp add: empties_def)
  have "eslots (exposed ?p) (nblk t + length ns) (bs @ ns) ?u" using P(6) eslots_cong [of "exposed ?p" "exposed p"] by simp
  moreover have "ep_blockIndex p \<noteq> []" using eslots_index [OF P(6)] slots by simp
  moreover have "length (bs @ ns) < ?u" using slots by simp
  ultimately obtain ix f where entry: "bulk_entry ?p (of_nat (32 * (nblk t + length ns))) = Inr (?p\<lparr>ep_blockIndex := ix, pr_blockIndexFront := f\<rparr>)"
    "eslots (exposed (?p\<lparr>ep_blockIndex := ix, pr_blockIndexFront := f\<rparr>)) (Suc (nblk t + length ns)) ((bs @ ns) @ [n]) ?u"
    using bulk_entry_spec [of ?p "nblk t + length ns" "bs @ ns" ?u n] by auto
  have "preparing q (?p\<lparr>ep_blockIndex := ix, pr_blockIndexFront := f\<rparr>) l' need others h t (ns @ [n]) fs bs xs"
    unfolding preparing_def l'_def using P next_locals(2-4) [OF prep more, of n] entry(2) more n slots by (simp del: of_nat_add of_nat_mult of_nat_Suc)
  then show ?thesis using entry(1) next_locals(1) [OF prep more] by auto
qed

lemma blocks_from_ahead_spec:
  assumes "preparing q p l need others h t ns fs bs xs" "need - length ns \<le> fuel"
  shows "\<exists>p' l' ms fs'. blocks_from_ahead fuel q p l = Inr (p', l') \<and> fs = ms @ fs' \<and> preparing q p' l' need others h t (ns @ ms) fs' bs xs \<and>
     same_words p p' \<and> pr_blockIndexSlotsUsed p' = pr_blockIndexSlotsUsed p"
  using assms
proof (induction fuel arbitrary: p l ns fs)
  case 0
  then have "bulk_ahead q p l = Inr None" using bulk_ahead_spec [OF 0(1)] by simp
  then show ?case using 0(1) by (intro exI [of _ p] exI [of _ l] exI [of _ "[]"] exI [of _ fs], subst blocks_from_ahead.simps) (simp add: same_words_def)
next
  case (Suc fuel)
  show ?case
  proof (cases "length ns < need \<and> (\<exists>n fs1. fs = n # fs1 \<and> all_set (blocks q ! n))")
    case False
    then have "bulk_ahead q p l = Inr None" using bulk_ahead_spec [OF Suc.prems(1)] by (auto split: list.split)
    then show ?thesis using Suc.prems(1) by (intro exI [of _ p] exI [of _ l] exI [of _ "[]"] exI [of _ fs], subst blocks_from_ahead.simps) (simp add: same_words_def)
  next
    case True
    then obtain n fs1 where n: "fs = n # fs1" "all_set (blocks q ! n)" and more: "length ns < need" by blast
    have ahead: "bulk_ahead q p l = Inr (Some n)" using bulk_ahead_spec [OF Suc.prems(1)] n more by simp
    obtain ix f where entry: "bulk_entry (p\<lparr>ep_tailBlock := Some n\<rparr>) (bulkTailIndex (next_bulk_block l)) = Inr (p\<lparr>ep_tailBlock := Some n, ep_blockIndex := ix, pr_blockIndexFront := f\<rparr>)"
      "preparing q (p\<lparr>ep_tailBlock := Some n, ep_blockIndex := ix, pr_blockIndexFront := f\<rparr>) (note_first n (next_bulk_block l)) need others h t (ns @ [n]) fs1 bs xs"
      using take_ahead [OF Suc.prems(1) [unfolded n(1)] n(2) more] by blast
    have fuel: "need - Suc (length ns) \<le> fuel" using Suc.prems(2) by linarith
    obtain p' l' ms fs' where IH: "blocks_from_ahead fuel q (p\<lparr>ep_tailBlock := Some n, ep_blockIndex := ix, pr_blockIndexFront := f\<rparr>) (note_first n (next_bulk_block l)) = Inr (p', l')"
      "fs1 = ms @ fs'" "preparing q p' l' need others h t ((ns @ [n]) @ ms) fs' bs xs"
      "same_words (p\<lparr>ep_tailBlock := Some n, ep_blockIndex := ix, pr_blockIndexFront := f\<rparr>) p'"
      "pr_blockIndexSlotsUsed p' = pr_blockIndexSlotsUsed p"
      using Suc.IH [OF entry(2)] fuel by auto
    have "bulkTailIndex (note_first n (next_bulk_block l)) = bulkTailIndex (next_bulk_block l)" by (simp add: note_first_def)
    then have "blocks_from_ahead (Suc fuel) q p l = Inr (p', l')"
      using ahead entry(1) IH(1) by (subst blocks_from_ahead.simps) simp
    then show ?thesis using IH n(1) by (intro exI [of _ p'] exI [of _ l'] exI [of _ "n # ms"] exI [of _ fs']) (simp add: same_words_def)
  qed
qed

lemma set_all_simps [simp]:
  "elements (set_all_empty explicit_context blk) = elements blk" "freeListRefs (set_all_empty explicit_context blk) = freeListRefs blk"
  "block_shape (set_all_empty explicit_context blk) = block_shape blk" "list_all id (emptyFlags (set_all_empty explicit_context blk))"
  by (simp_all add: set_all_empty_def block_shape_def list_all_iff)

lemma pool_room:
  assumes prep: "preparing q p l need others h t ns fs bs xs" and small: "unat (pr_blockIndexSlotsUsed p) + 1 < 2 ^ 58"
  shows "\<not> circular_less_than (of_nat (32 * (nblk t + length ns)) :: u64) (of_nat h)" "\<not> subqueue_full (of_nat h) (of_nat (32 * (nblk t + length ns)))"
proof -
  have I: "h \<le> t" "length bs = nblk t - h div 32" using preparingD(1) [OF prep] by (simp_all add: ep_ring_def)
  have "nblk t = length bs + h div 32" using I div_le_nblk [OF I(1)] by linarith
  then have "nblk t + length ns \<le> unat (pr_blockIndexSlotsUsed p) + h div 32" using preparingD(7) [OF prep] by linarith
  then have "32 * (nblk t + length ns) + 32 < h + 2 ^ 63" using small mult_div_mod_eq [of 32 h] by simp
  moreover have "h \<le> 32 * (nblk t + length ns)" using I(1) nblk_bounds(1) [of t] by simp
  ultimately show "\<not> circular_less_than (of_nat (32 * (nblk t + length ns)) :: u64) (of_nat h)"
    "\<not> subqueue_full (of_nat h) (of_nat (32 * (nblk t + length ns)))"
    using subqueue_full_iff [of h "32 * (nblk t + length ns)"] by simp_all
qed

lemma pool_assert:
  assumes prep: "preparing q p l need others h t ns fs bs xs" and "length ns < need" "unat (pr_blockIndexSlotsUsed p) + 1 < 2 ^ 58"
  shows "\<not> circular_less_than (bulkTailIndex (next_bulk_block l)) (ep_headIndex p)"
  unfolding next_locals(1) [OF prep assms(2)] preparingD(3) [OF prep] by (rule pool_room(1) [OF prep assms(3)])

lemma index_step:
  assumes ok: "eslots (exposed p) m cs (unat (pr_blockIndexSlotsUsed p))"
    and room: "\<not> circular_less_than T (of_nat h)" "\<not> subqueue_full (of_nat h) T"
    and small: "unat (pr_blockIndexSlotsUsed p) + 1 < 2 ^ 58" and malloc: "\<And>i. malloc_ok env i"
    and l: "bulkTailIndex l = T" and head: "ep_headIndex p = of_nat h"
  shows "\<exists>q1 p1 l1. bulk_index_room env CanAlloc s q p l = Inr (q1, p1, l1, True) \<and> (q1 = q \<or> q1 = q\<lparr>mallocs := mallocs q + 1\<rparr>) \<and>
    (\<exists>orig. l1 = l\<lparr>originalBlockIndexFront := orig\<rparr>) \<and> eslots (exposed p1) m cs (unat (pr_blockIndexSlotsUsed p)) \<and> same_words p p1 \<and>
    ep_tailBlock p1 = ep_tailBlock p \<and> pr_blockIndexSlotsUsed p1 = pr_blockIndexSlotsUsed p \<and> ep_blockIndex p1 \<noteq> [] \<and>
    unat (pr_blockIndexSlotsUsed p1) < unat (pr_blockIndexSize p1)"
proof (cases "ep_blockIndex p = [] \<or> pr_blockIndexSlotsUsed p = pr_blockIndexSize p")
  case True
  obtain ds where ds: "eindex_ok (exposed p) m (ds @ cs)" "length (ds @ cs) = unat (pr_blockIndexSlotsUsed p)" "unat (pr_blockIndexSlotsUsed p) \<le> m"
    using ok unfolding eslots_def by blast
  obtain p' where "EP_new_block_index env s q p = Inr (q\<lparr>mallocs := mallocs q + 1\<rparr>, p', True)" "eindex_ok (exposed p') m (ds @ cs)"
     "same_words p p'" "ep_tailBlock p' = ep_tailBlock p" "pr_blockIndexSlotsUsed p' = pr_blockIndexSlotsUsed p"
     "ep_blockIndex p' \<noteq> []" "unat (pr_blockIndexSlotsUsed p') < unat (pr_blockIndexSize p')"
    using new_block_index_exposed [OF ds(1) True _ malloc, of s q] small by auto
  moreover from this have "eslots (exposed p') m cs (unat (pr_blockIndexSlotsUsed p))" using ds(2,3) unfolding eslots_def by blast
  ultimately show ?thesis using True room l head by (auto simp: bulk_index_room_def Let_def)
next
  case False
  then have "unat (pr_blockIndexSlotsUsed p) < unat (pr_blockIndexSize p)" using eslots_size [OF ok] by (simp add: word_unat_eq_iff)
  moreover have "\<exists>orig. l = l\<lparr>originalBlockIndexFront := orig\<rparr>" by (intro exI [of _ "originalBlockIndexFront l"]) simp
  ultimately show ?thesis using False ok room l head by (simp add: bulk_index_room_def Let_def same_words_def)
qed

text \<open>Taking a block of the pool.\<close>

lemma take_from_pool:
  assumes prep: "preparing q p l need others h t ns fs bs xs" and more: "length ns < need" and small: "unat (pr_blockIndexSlotsUsed p) + 1 < 2 ^ 58"
    and malloc: "\<And>i. malloc_ok env i"
  defines "T \<equiv> nblk t + length ns"
  shows "\<exists>q1 p1 l1 q2 b q3 p3 ix f.
     bulk_index_room env CanAlloc s q p (next_bulk_block l) = Inr (q1, p1, l1, True) \<and> requisition_block env CanAlloc q1 = Inr (q2, Some b) \<and>
     link_block (set_all_empty explicit_context) q2 p1 b = Inr (q3, p3) \<and> bulk_entry p3 (bulkTailIndex l1) = Inr (p3\<lparr>ep_blockIndex := ix, pr_blockIndexFront := f\<rparr>) \<and>
     preparing q3 (p3\<lparr>ep_blockIndex := ix, pr_blockIndexFront := f\<rparr>) (note_first b l1) need others h t (ns @ [b]) fs bs xs \<and>
     same_words p p3 \<and> unat (pr_blockIndexSlotsUsed p3) = Suc (unat (pr_blockIndexSlotsUsed p)) \<and>
     same_flags q q3 fs \<and> (\<forall>y \<in> others. blocks q3 ! y = blocks q ! y)"
proof -
  note P = preparingD [OF prep]
  let ?l = "next_bulk_block l"
  have tail: "bulkTailIndex ?l = of_nat (32 * T)" unfolding T_def by (rule next_locals(1) [OF prep more])
  note room = pool_room [OF prep small, folded T_def]
  obtain q1 p1 l1 where ir: "bulk_index_room env CanAlloc s q p ?l = Inr (q1, p1, l1, True)" "q1 = q \<or> q1 = q\<lparr>mallocs := mallocs q + 1\<rparr>"
    "\<exists>orig. l1 = ?l\<lparr>originalBlockIndexFront := orig\<rparr>" "eslots (exposed p1) T (bs @ ns) (unat (pr_blockIndexSlotsUsed p))" "same_words p p1"
    "ep_tailBlock p1 = ep_tailBlock p" "pr_blockIndexSlotsUsed p1 = pr_blockIndexSlotsUsed p" "ep_blockIndex p1 \<noteq> []"
    "unat (pr_blockIndexSlotsUsed p1) < unat (pr_blockIndexSize p1)"
    using index_step [OF P(6) [folded T_def] room small malloc tail P(3), of s q] by blast
  have q1: "blocks q1 = blocks q" using ir(2) by auto
  let ?used = "set (fs @ bs @ ns) \<union> others"
  obtain fl where "pool_inv q fl (set ((ns @ fs) @ bs) \<union> others)" using P(1) by (auto simp: ep_ring_def)
  moreover have "set ((ns @ fs) @ bs) \<union> others = ?used" by auto
  ultimately have "pool_inv q fl ?used" by (simp only:)
  then have inv: "pool_inv q1 fl ?used" using ir(2) pool_inv_malloc by blast
  obtain q2 b fl2 where req: "requisition_block env CanAlloc q1 = Inr (q2, Some b)" "pool_inv q2 fl2 (insert b ?used)" "b \<notin> ?used"
    "\<And>y. y \<in> ?used \<Longrightarrow> blocks q2 ! y = blocks q ! y"
    using requisition_block_spec [OF inv, of env CanAlloc] malloc q1 by (auto split: option.splits)
  let ?p3 = "p1\<lparr>ep_tailBlock := Some b, pr_blockIndexSlotsUsed := pr_blockIndexSlotsUsed p1 + 1\<rparr>"
  have "ep_tailBlock p1 = (if fs @ bs @ ns = [] then None else Some (last (fs @ bs @ ns)))" using P(4) ir(6) by simp
  then obtain q3 where link: "link_block (set_all_empty explicit_context) q2 p1 b = Inr (q3, ?p3)" "ep_ring q3 others h t (ns @ b # fs) bs xs"
    "emptyFlags (blocks q3 ! b) = emptyFlags (set_all_empty explicit_context (blocks q2 ! b))"
    "\<And>y. y \<in> set (fs @ bs @ ns) \<Longrightarrow> emptyFlags (blocks q3 ! y) = emptyFlags (blocks q ! y)" "\<forall>y \<in> others. blocks q3 ! y = blocks q ! y"
    using ring_link [OF P(1) _ req(3,4) _ _ _ req(2), of p1 "set_all_empty explicit_context"] by auto
  have sf: "same_flags q q3 fs" using link(4) by (simp add: same_flags_def)
  have ns: "list_all (\<lambda>b. all_set (blocks q3 ! b)) (ns @ [b])"
    using P(2) link(3,4) set_all_simps(4) [of "blocks q2 ! b"] by (auto simp: list_all_iff all_set_def)
  have one: "unat (pr_blockIndexSlotsUsed p1 + 1) = Suc (unat (pr_blockIndexSlotsUsed p))"
    using unat_plus_one_less [of "pr_blockIndexSlotsUsed p1" "pr_blockIndexSize p1"] ir(7,9) by (simp add: word_less_nat_alt)
  have "eslots (exposed ?p3) T (bs @ ns) (unat (pr_blockIndexSlotsUsed p))"
    using ir(4,7-9) one eslots_slots [of "exposed p1" T "bs @ ns" "unat (pr_blockIndexSlotsUsed p)" "pr_blockIndexSlotsUsed p1 + 1" "Some b"] by simp
  moreover have "length (bs @ ns) < unat (pr_blockIndexSlotsUsed ?p3)" using P(7) one by simp
  ultimately obtain ix f where entry: "bulk_entry ?p3 (of_nat (32 * T)) = Inr (?p3\<lparr>ep_blockIndex := ix, pr_blockIndexFront := f\<rparr>)"
    "eslots (exposed (?p3\<lparr>ep_blockIndex := ix, pr_blockIndexFront := f\<rparr>)) (Suc T) ((bs @ ns) @ [b]) (unat (pr_blockIndexSlotsUsed ?p3))"
    using bulk_entry_spec [of ?p3 T "bs @ ns" "unat (pr_blockIndexSlotsUsed p)" b] one ir(8) by auto
  obtain o1 where l1: "l1 = ?l\<lparr>originalBlockIndexFront := o1\<rparr>" using ir(3) by blast
  have "note_first b l1 = (note_first b ?l)\<lparr>originalBlockIndexFront := o1\<rparr>" by (simp add: l1 note_first_def)
  then have "preparing q3 (?p3\<lparr>ep_blockIndex := ix, pr_blockIndexFront := f\<rparr>) (note_first b l1) need others h t (ns @ [b]) fs bs xs"
    unfolding preparing_def using P next_locals(2-4) [OF prep more, of b] entry(2) more ns link(2) one ir(5) same_flags_empties [OF sf]
    by (simp add: T_def same_words_def del: of_nat_add of_nat_mult of_nat_Suc)
  moreover have "bulkTailIndex l1 = of_nat (32 * T)" using l1 tail by simp
  moreover have "same_words p ?p3" using ir(5) by (simp add: same_words_def)
  moreover have "unat (pr_blockIndexSlotsUsed ?p3) = Suc (unat (pr_blockIndexSlotsUsed p))" using one by simp
  ultimately show ?thesis using ir(1) req(1) link(1,5) entry(1) sf by metis
qed

lemma blocks_from_pool_spec:
  assumes "preparing q p l need others h t ns fs bs xs" "need - length ns \<le> fuel"
    "Suc (unat (pr_blockIndexSlotsUsed p) + (need - length ns)) < 2 ^ 58" "\<And>i. malloc_ok env i"
  shows "\<exists>q' p' l' ms. blocks_from_pool fuel env CanAlloc s q p l = Inr (q', p', l', True) \<and>
     preparing q' p' l' need others h t (ns @ ms) fs bs xs \<and> length (ns @ ms) = need \<and> same_words p p' \<and>
     unat (pr_blockIndexSlotsUsed p') = unat (pr_blockIndexSlotsUsed p) + length ms \<and> same_flags q q' fs \<and> (\<forall>y \<in> others. blocks q' ! y = blocks q ! y)"
  using assms(1-3)
proof (induction fuel arbitrary: q p l ns)
  case 0
  then have "length ns = need" "\<not> 0 < blockBaseDiff l" using preparingD(8) [OF 0(1)] preparing_more [OF 0(1)] by simp_all
  then show ?case using 0(1) by (intro exI [of _ q] exI [of _ p] exI [of _ l] exI [of _ "[]"], subst blocks_from_pool.simps) (simp add: same_words_def same_flags_def)
next
  case (Suc fuel)
  note prep = Suc.prems(1)
  show ?case
  proof (cases "length ns < need")
    case False
    then have "length ns = need" "\<not> 0 < blockBaseDiff l" using preparingD(8) [OF prep] preparing_more [OF prep] by simp_all
    then show ?thesis using prep by (intro exI [of _ q] exI [of _ p] exI [of _ l] exI [of _ "[]"], subst blocks_from_pool.simps) (simp add: same_words_def same_flags_def)
  next
    case True
    have small: "unat (pr_blockIndexSlotsUsed p) + 1 < 2 ^ 58" using Suc.prems(3) by linarith
    obtain q1 p1 l1 q2 b q3 p3 ix f where st:
      "bulk_index_room env CanAlloc s q p (next_bulk_block l) = Inr (q1, p1, l1, True)" "requisition_block env CanAlloc q1 = Inr (q2, Some b)"
      "link_block (set_all_empty explicit_context) q2 p1 b = Inr (q3, p3)" "bulk_entry p3 (bulkTailIndex l1) = Inr (p3\<lparr>ep_blockIndex := ix, pr_blockIndexFront := f\<rparr>)"
      "preparing q3 (p3\<lparr>ep_blockIndex := ix, pr_blockIndexFront := f\<rparr>) (note_first b l1) need others h t (ns @ [b]) fs bs xs"
      "same_words p p3" "unat (pr_blockIndexSlotsUsed p3) = Suc (unat (pr_blockIndexSlotsUsed p))"
      "same_flags q q3 fs" "\<forall>y \<in> others. blocks q3 ! y = blocks q ! y"
      using take_from_pool [OF prep True small assms(4), of s] by blast
    let ?p = "p3\<lparr>ep_blockIndex := ix, pr_blockIndexFront := f\<rparr>"
    have rest: "need - length (ns @ [b]) \<le> fuel" "Suc (unat (pr_blockIndexSlotsUsed ?p) + (need - length (ns @ [b]))) < 2 ^ 58"
      using Suc.prems(2,3) st(7) True by simp_all
    obtain q' p' l' ms where IH: "blocks_from_pool fuel env CanAlloc s q3 ?p (note_first b l1) = Inr (q', p', l', True)"
      "preparing q' p' l' need others h t ((ns @ [b]) @ ms) fs bs xs" "length ((ns @ [b]) @ ms) = need" "same_words ?p p'"
      "unat (pr_blockIndexSlotsUsed p') = unat (pr_blockIndexSlotsUsed ?p) + length ms" "same_flags q3 q' fs" "\<forall>y \<in> others. blocks q' ! y = blocks q3 ! y"
      using Suc.IH [OF st(5) rest] by blast
    have "blocks_from_pool (Suc fuel) env CanAlloc s q p l = Inr (q', p', l', True)"
      using True preparing_more [OF prep] st(1-4) IH(1) pool_assert [OF prep True small] by (subst blocks_from_pool.simps) simp
    then show ?thesis using IH(2-7) st(6-9)
      by (intro exI [of _ q'] exI [of _ p'] exI [of _ l'] exI [of _ "b # ms"]) (simp add: same_words_def same_flags_def)
  qed
qed

text \<open>Resetting the flags of the blocks prepared.\<close>

lemma reset_blocks_spec:
  assumes "ep_ring q others h t gs bs xs" "chain q m ms" "distinct (m # ms)" "set (m # ms) \<subseteq> set gs" "length ms < fuel"
  shows "\<exists>q'. reset_blocks fuel (Some (last (m # ms))) q m = Inr q' \<and> ep_ring q' others h t gs bs xs \<and>
     (\<forall>y \<in> set (m # ms). emptyFlags (blocks q' ! y) = flags_upto 0) \<and> (\<forall>y. y \<notin> set (m # ms) \<longrightarrow> blocks q' ! y = blocks q ! y)"
  using assms
proof (induction fuel arbitrary: q m ms)
  case (Suc fuel)
  let ?q = "put_block q m (reset_empty explicit_context (blocks q ! m))"
  have m: "m \<in> set gs" using Suc.prems(4) by simp
  note reuse = ring_reuse [OF Suc.prems(1) m]
  have used: "m < length (blocks q)" using ep_ring_used(1) [OF Suc.prems(1), of m] m by simp
  have run: "reset_blocks (Suc fuel) tb q m = (if Some m = tb then Inr ?q else and_then (next_of ?q m) (reset_blocks fuel tb ?q))" for tb
    using used by (simp add: Let_def)
  show ?case
  proof (cases ms)
    case Nil
    then show ?thesis using run [of "Some m"] reuse by (intro exI [of _ ?q]) auto
  next
    case (Cons n ms')
    have "m \<noteq> last (n # ms')" using Suc.prems(3) Cons last_in_set [of "n # ms'"] by (metis distinct.simps(2) list.distinct(1))
    moreover have "next_of ?q m = Inr n" using Suc.prems(2) Cons used by (simp add: next_of_def)
    ultimately have run': "reset_blocks (Suc fuel) (Some (last (m # ms))) q m = reset_blocks fuel (Some (last (n # ms'))) ?q n"
      using run [of "Some (last (m # ms))"] Cons by simp
    have "next_block (blocks ?q ! x) = next_block (blocks q ! x)" for x using used by (cases "x = m") simp_all
    then have "chain ?q n ms'" using Suc.prems(2) Cons chain_cong [of n ms' ?q q] by simp
    then obtain q' where "reset_blocks fuel (Some (last (n # ms'))) ?q n = Inr q'" "ep_ring q' others h t gs bs xs"
      "\<forall>y \<in> set (n # ms'). emptyFlags (blocks q' ! y) = flags_upto 0" "\<forall>y. y \<notin> set (n # ms') \<longrightarrow> blocks q' ! y = blocks ?q ! y"
      using Suc.IH [OF reuse(1), of n ms'] Suc.prems(3-5) Cons by auto
    then show ?thesis using run' reuse(2,3) Suc.prems(3) Cons by (intro exI [of _ q']) auto
  qed
qed simp

section \<open>Copying the elements\<close>

text \<open>
  The elements go to the tail block, and then to the blocks \<open>ns\<close>, whose flags are reset: each of them becomes the last block with
  elements with its first element.
\<close>

definition filling_blocks :: "'a BlockPool \<Rightarrow> nat set \<Rightarrow> nat \<Rightarrow> nat \<Rightarrow> nat list \<Rightarrow> nat list \<Rightarrow> nat list \<Rightarrow> 'a list \<Rightarrow> bool" where
  "filling_blocks q others h t ns fs bs xs \<longleftrightarrow>
     ep_ring q others h t (ns @ fs) bs xs \<and> (\<forall>y \<in> set ns. emptyFlags (blocks q ! y) = flags_upto 0) \<and> 32 * (nblk t + length ns) < h + 2 ^ 63"

lemma fill_one:
  assumes fill: "filling_blocks q others h t ns fs bs xs" and b: "write_block t ns bs b"
  shows "\<exists>ns' bs'. filling_blocks (put_block q b (block_construct (blocks q ! b) (of_nat t) x)) others h (Suc t) ns' fs bs' (xs @ [x]) \<and>
     bs' @ ns' = bs @ ns \<and> last bs' = b \<and> bs' \<noteq> [] \<and> b < length (blocks q)"
proof (cases "t mod 32 = 0")
  case True
  then obtain ns' where ns: "ns = b # ns'" using b by (cases ns) (auto simp: write_block_def)
  have F: "ep_ring q others h t (b # (ns' @ fs)) bs xs" "\<forall>y \<in> set ns. emptyFlags (blocks q ! y) = flags_upto 0" "32 * (nblk t + length ns) < h + 2 ^ 63"
    using fill ns by (simp_all add: filling_blocks_def)
  have used: "b < length (blocks q)" using ep_ring_used(1) [OF F(1), of b] by simp
  have "t + 32 < h + 2 ^ 63" using F(3) nblk_mod0(2) [OF True] ns by simp
  then have "ep_ring (put_block q b (block_construct (blocks q ! b) (of_nat t) x)) others h (Suc t) (ns' @ fs) (bs @ [b]) (xs @ [x])"
    using ring_begin [OF F(1) True] F(2) ns by simp
  moreover have "\<forall>y \<in> set ns'. emptyFlags (blocks (put_block q b (block_construct (blocks q ! b) (of_nat t) x)) ! y) = flags_upto 0"
    using put_flags_cong [OF used] F(2) ns by simp
  ultimately have "filling_blocks (put_block q b (block_construct (blocks q ! b) (of_nat t) x)) others h (Suc t) ns' fs (bs @ [b]) (xs @ [x])"
    using F(3) ns nblk_mod0(3) [OF True] by (simp add: filling_blocks_def)
  then show ?thesis using ns used by (intro exI [of _ ns'] exI [of _ "bs @ [b]"]) simp
next
  case False
  have F: "ep_ring q others h t (ns @ fs) bs xs" "\<forall>y \<in> set ns. emptyFlags (blocks q ! y) = flags_upto 0" "32 * (nblk t + length ns) < h + 2 ^ 63"
    using fill by (simp_all add: filling_blocks_def)
  have b': "b = last bs" using b False by (simp add: write_block_def)
  note more = ring_more [OF F(1) False, folded b']
  have used: "b < length (blocks q)" using ep_ring_used(1) [OF F(1), of b] b' more(1) by simp
  then have "filling_blocks (put_block q b (block_construct (blocks q ! b) (of_nat t) x)) others h (Suc t) ns fs bs (xs @ [x])"
    using more(2) F(2,3) put_flags_cong [OF used] nblk_modn(2) [OF False] by (simp add: filling_blocks_def)
  then show ?thesis using b' more(1) used by blast
qed

interpretation efill: block_filler "\<lambda>q t ns bs xs. filling_blocks q others h t ns fs bs xs" h 0
  for others h fs
proof unfold_locales
  fix q :: "'a BlockPool" and t ns bs xs
  assume fill: "filling_blocks q others h t ns fs bs xs"
  then have ring: "ep_ring q others h t (ns @ fs) bs xs" by (simp add: filling_blocks_def)
  then have I: "h \<le> t" "length bs = nblk t - h div 32" "circle q ((ns @ fs) @ bs)" by (simp_all add: ep_ring_def)
  show "length bs + h div 32 = nblk t" using I(2) div_le_nblk [OF I(1)] by simp
  show "distinct (bs @ ns)" using ring by (auto simp: ep_ring_def)
  show "32 * (nblk t + length ns) \<le> t + 2 ^ 63" using fill I(1) by (simp add: filling_blocks_def)
  assume ne: "bs \<noteq> []" "ns \<noteq> []"
  then have "last bs < length (blocks q)" using ep_ring_used(1) [OF ring, of "last bs"] by simp
  then show "next_of q (last bs) = Inr (hd ns)" using circle_last [OF I(3)] ne by (simp add: next_of_def)
qed (erule (1) fill_one, simp)

section \<open>Bulk enqueue appends\<close>

text \<open>The producer when the blocks are prepared and reset, with the blocks \<open>ns\<close> to fill.\<close>

definition ready_to_fill ::
  "'a BlockPool \<Rightarrow> ExplicitProducer \<Rightarrow> bulk_locals \<Rightarrow> nat set \<Rightarrow> nat \<Rightarrow> nat \<Rightarrow> nat list \<Rightarrow> nat list \<Rightarrow> nat list \<Rightarrow> 'a list \<Rightarrow> bool" where
  "ready_to_fill q p l others h t ns fs bs xs \<longleftrightarrow>
     filling_blocks q others h t ns fs bs xs \<and>
     ep_tailBlock p = (if fs @ bs @ ns = [] then None else Some (last (fs @ bs @ ns))) \<and>
     firstAllocatedBlock l = (if ns = [] then None else Some (hd ns)) \<and>
     eslots (publish_front l p) (nblk t + length ns) (bs @ ns) (unat (pr_blockIndexSlotsUsed p)) \<and>
     length bs + length ns + empties q fs \<le> unat (pr_blockIndexSlotsUsed p)"

lemma reset_prepared:
  assumes prep: "preparing q p l need others h t ns fs bs xs" and ns: "ns \<noteq> []" and small: "Suc (unat (pr_blockIndexSlotsUsed p)) < 2 ^ 58"
  shows "\<exists>q'. reset_blocks (length (blocks q)) (ep_tailBlock p) q (hd ns) = Inr q' \<and> ready_to_fill q' p l others h t ns fs bs xs \<and>
     (\<forall>y. y \<notin> set ns \<longrightarrow> blocks q' ! y = blocks q ! y)"
proof -
  note P = preparingD [OF prep]
  obtain n ns' where n: "ns = n # ns'" using ns by (cases ns) auto
  have last: "ep_tailBlock p = Some (last ns)" using P(4) ns by simp
  have "chain q n ns'" using P(1) n by (intro circle_prefix [of q n ns' "fs @ bs"]) (simp add: ep_ring_def)
  moreover have "length ns' < length (blocks q)" using ep_ring_length [OF P(1)] n by simp
  moreover have "distinct ns" using P(1) by (simp add: ep_ring_def)
  ultimately obtain q' where c: "reset_blocks (length (blocks q)) (Some (last ns)) q n = Inr q'" "ep_ring q' others h t (ns @ fs) bs xs"
    "\<forall>y \<in> set ns. emptyFlags (blocks q' ! y) = flags_upto 0" "\<forall>y. y \<notin> set ns \<longrightarrow> blocks q' ! y = blocks q ! y"
    using reset_blocks_spec [OF P(1), of n ns' "length (blocks q)"] n by auto
  have "set fs \<inter> set ns = {}" using P(1) by (auto simp: ep_ring_def)
  then have "empties q' fs = empties q fs" using c(4) by (intro empties_cong) auto
  moreover have "32 * (nblk t + length ns) < h + 2 ^ 63"
  proof -
    have I: "h \<le> t" "length bs = nblk t - h div 32" using P(1) by (simp_all add: ep_ring_def)
    then have "nblk t + length ns \<le> unat (pr_blockIndexSlotsUsed p) + h div 32" using P(7) div_le_nblk [OF I(1)] by linarith
    then show ?thesis using small mult_div_mod_eq [of 32 h] by simp
  qed
  moreover have "publish_front l p = exposed p" using P(5) ns by (simp add: publish_front_def exposed_def)
  ultimately have "ready_to_fill q' p l others h t ns fs bs xs"
    using P(4-7) c(2,3) by (simp add: ready_to_fill_def filling_blocks_def)
  then show ?thesis using c(1,4) last n by auto
qed

lemma prepare_blocks_spec:
  assumes ok: "ep_ok q p others h t fs bs xs" and need: "need = nblk (t + n) - nblk t"
    and small: "Suc (unat (pr_blockIndexSlotsUsed p) + need) < 2 ^ 58" and malloc: "\<And>i. malloc_ok env i"
  shows "\<exists>q' p' l ns fs'. prepare_blocks env CanAlloc (of_nat n) q p = Inr (q', p', l, True) \<and> ready_to_fill q' p' l others h t ns fs' bs xs \<and>
     length ns = need \<and> same_words p p' \<and> unat (pr_blockIndexSlotsUsed p') \<le> unat (pr_blockIndexSlotsUsed p) + need \<and>
     (\<forall>y \<in> others. blocks q' ! y = blocks q ! y) \<and> (list_all (\<lambda>b. all_set (blocks q ! b)) fs \<longrightarrow> list_all (\<lambda>b. all_set (blocks q' ! b)) fs') \<and>
     (\<exists>ms. fs = ms @ fs')"
proof -
  let ?l = "\<lparr>blockBaseDiff = of_nat (32 * need), bulkTailIndex = of_nat (32 * nblk t) - 32, firstAllocatedBlock = None,
      originalBlockIndexFront = pr_blockIndexFront p\<rparr>"
  have w: "ep_tailIndex p = of_nat t" "ep_headIndex p = of_nat h"
    and tail: "ep_tailBlock p = (if fs @ bs = [] then None else Some (last (fs @ bs)))" and ix: "eslots p (nblk t) bs (unat (pr_blockIndexSlotsUsed p))"
    and slots: "length bs + empties q fs \<le> unat (pr_blockIndexSlotsUsed p)" and ring: "ep_ring q others h t fs bs xs"
    using ok unfolding ep_ok_def by blast+
  have le: "nblk t \<le> nblk (t + n)" unfolding nblk_def by (intro div_le_mono) simp
  have u: "unat (of_nat (32 * need) :: u64) = 32 * need" using small by (intro unat_of_nat_small) simp
  have diff: "((of_nat t + of_nat n - 1 :: u64) AND NOT 31) - (of_nat (32 * nblk t) - 32) = of_nat (32 * need)"
    using blocks_needed [OF le] unfolding tail_base [of t] need of_nat_add .
  have prep: "preparing q p ?l need others h t [] fs bs xs"
    using ring w(2) tail exposed_eslots [OF ix] slots small by (simp add: preparing_def)
  have c: "(32 - 1 :: u64) = 31" "32 * need div 32 = need" by simp_all
  note run = prepare_blocks_def [of env CanAlloc "of_nat n" q p, unfolded Let_def w(1) c(1) tail_base [of t] diff u c(2)]
  show ?thesis
  proof (cases "need = 0")
    case True
    have "\<not> (0 < (of_nat (32 * need) :: u64))" using True by simp
    then have "prepare_blocks env CanAlloc (of_nat n) q p = Inr (q, p, ?l, True)" unfolding run by (simp only: if_False)
    moreover have "filling_blocks q others h t [] fs bs xs" using ring by (simp add: filling_blocks_def ep_ring_def)
    then have "ready_to_fill q p ?l others h t [] fs bs xs" using tail ix slots by (simp add: ready_to_fill_def publish_front_def)
    ultimately show ?thesis using True same_words_def by (intro exI [of _ q] exI [of _ p] exI [of _ ?l] exI [of _ "[]"] exI [of _ fs]) simp
  next
    case False
    have pos: "0 < (of_nat (32 * need) :: u64)" using False u by (simp add: word_less_nat_alt)
    obtain p1 l1 ms fs1 where a: "blocks_from_ahead need q p ?l = Inr (p1, l1)" "fs = ms @ fs1" "preparing q p1 l1 need others h t ms fs1 bs xs"
      "same_words p p1" "pr_blockIndexSlotsUsed p1 = pr_blockIndexSlotsUsed p"
      using blocks_from_ahead_spec [OF prep, of need] by auto
    have s1: "Suc (unat (pr_blockIndexSlotsUsed p1) + (need - length ms)) < 2 ^ 58" using small a(5) by simp
    obtain q2 p2 l2 ms2 where b: "blocks_from_pool need env CanAlloc (pr_blockIndexSlotsUsed p) q p1 l1 = Inr (q2, p2, l2, True)"
      "preparing q2 p2 l2 need others h t (ms @ ms2) fs1 bs xs" "length (ms @ ms2) = need" "same_words p1 p2"
      "unat (pr_blockIndexSlotsUsed p2) = unat (pr_blockIndexSlotsUsed p1) + length ms2" "same_flags q q2 fs1" "\<forall>y \<in> others. blocks q2 ! y = blocks q ! y"
      using blocks_from_pool_spec [OF a(3) diff_le_self s1 malloc, of "pr_blockIndexSlotsUsed p"] by blast
    let ?ns = "ms @ ms2"
    obtain q3 where c: "reset_blocks (length (blocks q2)) (ep_tailBlock p2) q2 (hd ?ns) = Inr q3" "ready_to_fill q3 p2 l2 others h t ?ns fs1 bs xs"
      "\<And>y. y \<notin> set ?ns \<Longrightarrow> blocks q3 ! y = blocks q2 ! y"
      using reset_prepared [OF b(2)] False b(3,5) small a(5) by auto
    have "?ns \<noteq> []" using b(3) False by auto
    then have "firstAllocatedBlock l2 = Some (hd ?ns)" using c(2) unfolding ready_to_fill_def by presburger
    then have run': "prepare_blocks env CanAlloc (of_nat n) q p = Inr (q3, p2, l2, True)"
      unfolding run using pos a(1) b(1) c(1) by simp
    have disj: "set fs1 \<inter> set ?ns = {}" "others \<inter> set ?ns = {}" using c(2) by (auto simp: ready_to_fill_def filling_blocks_def ep_ring_def)
    have "same_flags q q3 fs1" using b(6) c(3) disj(1) unfolding same_flags_def by (metis disjoint_iff)
    then have "list_all (\<lambda>b. all_set (blocks q ! b)) fs \<longrightarrow> list_all (\<lambda>b. all_set (blocks q3 ! b)) fs1"
      using a(2) same_flags_all [of q q3 fs1 fs1] by simp
    moreover have "\<forall>y \<in> others. blocks q3 ! y = blocks q ! y" using b(7) c(3) disj(2) by (metis disjoint_iff)
    moreover have "same_words p p2" using a(4) b(4) by (simp add: same_words_def)
    moreover have "unat (pr_blockIndexSlotsUsed p2) \<le> unat (pr_blockIndexSlotsUsed p) + need" using a(5) b(3,5) by simp
    ultimately show ?thesis using run' c(2) b(3) a(2) by blast
  qed
qed

lemma publish_simps [simp]:
  "pr_blockIndexSlotsUsed (publish_front l p) = pr_blockIndexSlotsUsed p" "ep_tailBlock (publish_front l p) = ep_tailBlock p"
  "ep_tailIndex (publish_front l p) = ep_tailIndex p" "ep_headIndex (publish_front l p) = ep_headIndex p"
  "ep_dequeueOptimisticCount (publish_front l p) = ep_dequeueOptimisticCount p" "ep_dequeueOvercommit (publish_front l p) = ep_dequeueOvercommit p"
  "publish_front l (p\<lparr>ep_tailBlock := tb, ep_tailIndex := ti\<rparr>) = publish_front l p\<lparr>ep_tailBlock := tb, ep_tailIndex := ti\<rparr>"
  by (simp_all add: publish_front_def split: list.splits)

lemma filled_ok:
  assumes ready: "ready_to_fill q p l others h t ns fs bs xs" and ne: "bs @ ns \<noteq> []"
    and ring: "ep_ring q' others h T fs (bs @ ns) ys" and T: "nblk T = nblk t + length ns" and same: "\<forall>y. y \<notin> set (bs @ ns) \<longrightarrow> blocks q' ! y = blocks q ! y"
    and w: "ep_headIndex p = of_nat h" "ep_dequeueOptimisticCount p - ep_dequeueOvercommit p = of_nat h"
  shows "ep_ok q' (publish_front l (p\<lparr>ep_tailBlock := Some (last (bs @ ns)), ep_tailIndex := of_nat T\<rparr>)) others h T fs (bs @ ns) ys"
    "list_all (\<lambda>b. all_set (blocks q ! b)) fs \<longrightarrow> list_all (\<lambda>b. all_set (blocks q' ! b)) fs"
proof -
  have "set fs \<inter> set (bs @ ns) = {}" using ring by (auto simp: ep_ring_def)
  then have fs: "\<And>y. y \<in> set fs \<Longrightarrow> blocks q' ! y = blocks q ! y" using same by blast
  then show "list_all (\<lambda>b. all_set (blocks q ! b)) fs \<longrightarrow> list_all (\<lambda>b. all_set (blocks q' ! b)) fs" by (simp add: list_all_iff)
  let ?p = "publish_front l p"
  have "eslots (?p\<lparr>ep_tailBlock := Some (last (bs @ ns)), ep_tailIndex := of_nat T\<rparr>) (nblk T) (bs @ ns) (unat (pr_blockIndexSlotsUsed p))"
    using ready eslots_cong [of "?p\<lparr>ep_tailBlock := Some (last (bs @ ns)), ep_tailIndex := of_nat T\<rparr>" ?p] T by (simp add: ready_to_fill_def)
  moreover have "empties q' fs = empties q fs" using fs by (intro empties_cong) simp
  ultimately show "ep_ok q' (publish_front l (p\<lparr>ep_tailBlock := Some (last (bs @ ns)), ep_tailIndex := of_nat T\<rparr>)) others h T fs (bs @ ns) ys"
    using ready ring w ne by (simp add: ep_ok_def ready_to_fill_def)
qed

lemma EP_enqueue_bulk_nothing:
  assumes "ep_ok q p others h t fs bs xs"
  shows "EP_enqueue_bulk env mode [] q p = Inr (q, p, Enqueued)"
proof -
  have w: "ep_tailIndex p = of_nat t" using assms by (simp add: ep_ok_def)
  have "block_end (of_nat t) (of_nat (t + 0)) = of_nat (t + min 0 (32 - t mod 32))" by (rule block_end_of_nat) simp
  then have "block_end (of_nat t) (of_nat t) = of_nat t" by simp
  then show ?thesis
    by (simp add: EP_enqueue_bulk_def prepare_blocks_def Let_def w first_bulk_block_def publish_front_def)
qed

lemma EP_enqueue_bulk_spec:
  assumes ok: "ep_ok q p others h t fs bs xs" and copies: "list_all snd items"
    and small: "Suc (unat (pr_blockIndexSlotsUsed p) + more_blocks t (length items)) < 2 ^ 58" and malloc: "\<And>i. malloc_ok env i"
  shows "\<exists>q' p' fs' bs'. EP_enqueue_bulk env CanAlloc items q p = Inr (q', p', Enqueued) \<and>
     ep_ok q' p' others h (t + length items) fs' bs' (xs @ map fst items) \<and> (\<forall>y \<in> others. blocks q' ! y = blocks q ! y) \<and>
     unat (pr_blockIndexSlotsUsed p') \<le> unat (pr_blockIndexSlotsUsed p) + more_blocks t (length items) \<and>
     (list_all (\<lambda>b. all_set (blocks q ! b)) fs \<longrightarrow> list_all (\<lambda>b. all_set (blocks q' ! b)) fs')"
proof (cases "items = []")
  case True
  then show ?thesis using EP_enqueue_bulk_nothing [OF ok] ok by auto
next
  case False
  let ?n = "length items"
  have w: "ep_tailIndex p = of_nat t" "ep_headIndex p = of_nat h" "ep_dequeueOptimisticCount p - ep_dequeueOvercommit p = of_nat h"
    and tail: "ep_tailBlock p = (if fs @ bs = [] then None else Some (last (fs @ bs)))" and ring: "ep_ring q others h t fs bs xs"
    using ok unfolding ep_ok_def by blast+
  obtain q1 p1 l ns fs1 where prep: "prepare_blocks env CanAlloc (of_nat ?n) q p = Inr (q1, p1, l, True)" "ready_to_fill q1 p1 l others h t ns fs1 bs xs"
     "length ns = more_blocks t ?n" "same_words p p1" "unat (pr_blockIndexSlotsUsed p1) \<le> unat (pr_blockIndexSlotsUsed p) + more_blocks t ?n"
     "\<forall>y \<in> others. blocks q1 ! y = blocks q ! y" "list_all (\<lambda>b. all_set (blocks q ! b)) fs \<longrightarrow> list_all (\<lambda>b. all_set (blocks q1 ! b)) fs1"
    using prepare_blocks_spec [OF ok more_blocks_def small malloc] by blast
  have fill: "filling_blocks q1 others h t ns fs1 bs xs" and first: "firstAllocatedBlock l = (if ns = [] then None else Some (hd ns))"
    and tail1: "ep_tailBlock p1 = (if fs1 @ bs @ ns = [] then None else Some (last (fs1 @ bs @ ns)))"
    using prep(2) unfolding ready_to_fill_def by blast+
  have "nblk t \<le> nblk (t + ?n)" unfolding nblk_def by (intro div_le_mono) simp
  then have T: "nblk (t + ?n) = nblk t + length ns" using prep(3) by (simp add: more_blocks_def)
  have mask: "(of_nat t AND (32 - 1) :: u64) = 0 \<longleftrightarrow> t mod 32 = 0" using of_nat_and_31 [of t] by simp
  have start: "ns \<noteq> []" if "t mod 32 = 0"
  proof -
    have "nblk (Suc t) \<le> nblk (t + ?n)" unfolding nblk_def using False by (intro div_le_mono) (cases items; simp)
    then show ?thesis using nblk_mod0(3) [OF that] T by auto
  qed
  obtain b where b: "first_bulk_block (of_nat t) (ep_tailBlock p) l = Some b" "write_block t ns bs b" "bs @ ns \<noteq> []"
  proof (cases "t mod 32 = 0")
    case True
    then show ?thesis using that [of "hd ns"] start first mask by (simp add: first_bulk_block_def write_block_def)
  next
    case False
    then have "bs \<noteq> []" using ring_more(1) [OF ring] by blast
    then show ?thesis using that [of "last bs"] False mask tail by (simp add: first_bulk_block_def write_block_def)
  qed
  then have "ep_tailBlock p1 = Some (last (bs @ ns))" using tail1 by (simp split: if_splits)
  moreover obtain q2 where c: "copy_blocks (Suc ?n) (of_nat (t + ?n)) (Some (last (bs @ ns))) q1 (Some b) (of_nat t) items =
       Inr (q2, Some (last (bs @ ns)), of_nat (t + ?n), True)"
     "ep_ring q2 others h (t + ?n) fs1 (bs @ ns) (xs @ map fst items)" "\<forall>y. y \<notin> set (bs @ ns) \<longrightarrow> blocks q2 ! y = blocks q1 ! y"
  proof -
    have all: "?n = length (takeWhile snd items)" using copies by (metis list_all_iff takeWhile_eq_all_conv)
    obtain q2 bs2 where "copy_blocks (Suc ?n) (of_nat (t + ?n)) (Some (last (bs @ ns))) q1 (Some b) (of_nat t) items =
        Inr (q2, Some (last (bs @ ns)), of_nat (t + ?n), True)"
      "filling_blocks q2 others h (t + ?n) [] fs1 bs2 (xs @ map fst items)" "bs2 = bs @ ns" "\<forall>y. y \<notin> set (bs @ ns) \<longrightarrow> blocks q2 ! y = blocks q1 ! y"
      using efill.copy_blocks_spec [OF fill b(2) T lessI b(3) all] by auto
    then show ?thesis using that by (simp add: filling_blocks_def)
  qed
  moreover have "(of_nat t AND (32 - 1) :: u64) \<noteq> 0 \<or> firstAllocatedBlock l \<noteq> None" using mask start first by auto
  ultimately have run: "EP_enqueue_bulk env CanAlloc items q p =
      Inr (q2, publish_front l (p1\<lparr>ep_tailBlock := Some (last (bs @ ns)), ep_tailIndex := of_nat (t + ?n)\<rparr>), Enqueued)"
    unfolding EP_enqueue_bulk_def Let_def w(1) of_nat_add [symmetric] using prep(1) b(1) by simp
  have "ep_headIndex p1 = of_nat h" "ep_dequeueOptimisticCount p1 - ep_dequeueOvercommit p1 = of_nat h" using w prep(4) by (simp_all add: same_words_def)
  note filled = filled_ok [OF prep(2) b(3) c(2) T c(3) this]
  have "others \<inter> set (bs @ ns) = {}" using c(2) by (auto simp: ep_ring_def)
  then have "\<forall>y \<in> others. blocks q2 ! y = blocks q ! y" using c(3) prep(6) by (metis disjoint_iff)
  moreover have "unat (pr_blockIndexSlotsUsed (publish_front l (p1\<lparr>ep_tailBlock := Some (last (bs @ ns)), ep_tailIndex := of_nat (t + ?n)\<rparr>)))
      \<le> unat (pr_blockIndexSlotsUsed p) + more_blocks t ?n" using prep(5) by simp
  ultimately show ?thesis using run filled prep(7) by blast
qed

end
