(* ===== verification/CQ_ExplicitSession.thy ===== *)
theory CQ_ExplicitSession
  imports CQ_ExplicitFill
begin

text \<open>
  Sessions of an explicit producer with single and bulk operations: they refine the same session on a list, and the destructor gives up
  every block.
\<close>

section \<open>Sessions with bulk operations\<close>

text \<open>The session of a producer token whose elements are copied without throwing; it returns the elements dequeued.\<close>

fun bulk_session :: "alloc_env \<Rightarrow> 'a BlockPool \<times> ExplicitProducer \<Rightarrow> 'a bulk_op list \<Rightarrow> fault + ('a BlockPool \<times> ExplicitProducer) \<times> bool \<times> 'a list" where
  "bulk_session env s [] = Inr (s, True, [])"
| "bulk_session env s (One x # ops) =
     and_then (EP_enq env CanAlloc (x, True) s) (\<lambda>(s, ok). and_then (bulk_session env s ops) (\<lambda>(s, all_ok, ys). Inr (s, ok \<and> all_ok, ys)))"
| "bulk_session env s (Many xs # ops) =
     and_then (EP_enqueue_bulk env CanAlloc (map (\<lambda>x. (x, True)) xs) (fst s) (snd s)) (\<lambda>(q, p, r).
     and_then (bulk_session env (q, p) ops) (\<lambda>(s, all_ok, ys). Inr (s, r = Enqueued \<and> all_ok, ys)))"
| "bulk_session env s (Take # ops) =
     and_then (EP_deq s) (\<lambda>(s, r). and_then (bulk_session env s ops) (\<lambda>(s, all_ok, ys). Inr (s, all_ok, (case r of None \<Rightarrow> [] | Some x \<Rightarrow> [x]) @ ys)))"
| "bulk_session env s (Take_Many m # ops) =
     and_then (EP_dequeue_bulk (fst s) (snd s) m) (\<lambda>(q, p, xs, _).
     and_then (bulk_session env (q, p) ops) (\<lambda>(s, all_ok, ys). Inr (s, all_ok, xs @ ys)))"

definition op_cost :: "'a bulk_op \<Rightarrow> nat" where
  "op_cost x = length (enqueued x) + 2"

lemma EP_holdsI:
  assumes "ep_ok q p others h t fs bs xs" "unat (pr_blockIndexSlotsUsed p) + n \<le> 2 ^ 58" "clean \<longrightarrow> list_all (\<lambda>b. all_set (blocks q ! b)) fs"
  shows "EP_holds clean others n (q, p) xs"
  using assms unfolding EP_holds_def by auto

lemma EP_enq_succeeds:
  assumes inv: "EP_holds True others (Suc (Suc n)) s xs" and malloc: "\<And>i. malloc_ok env i"
  shows "\<exists>s'. EP_enq env CanAlloc (x, True) s = Inr (s', True) \<and> EP_holds True others (Suc n) s' (xs @ [x])"
proof -
  obtain h t fs bs where ok: "ep_ok (fst s) (snd s) others h t fs bs xs" and small: "unat (pr_blockIndexSlotsUsed (snd s)) + Suc (Suc n) \<le> 2 ^ 58"
    using inv by (auto simp: EP_holds_def)
  have "unat (pr_blockIndexSlotsUsed (snd s)) < 2 ^ 58" using small by linarith
  then obtain q p r where run: "EP_enqueue env CanAlloc True x (fst s) (snd s) = Inr (q, p, r)" "r \<noteq> Constructor_Threw"
     "r = Not_Enqueued \<longrightarrow> h + 2 ^ 63 \<le> t + 32 \<or> no_memory env CanAlloc (fst s)"
    using EP_enqueue_spec [OF ok, of env CanAlloc True x] by blast
  have "t + 32 < h + 2 ^ 63"
  proof -
    have I: "h \<le> t" "length bs = nblk t - h div 32" "length bs \<le> unat (pr_blockIndexSlotsUsed (snd s))" using ok by (simp_all add: ep_ok_def ep_ring_def)
    then have "nblk t \<le> unat (pr_blockIndexSlotsUsed (snd s)) + h div 32" using div_le_nblk [OF I(1)] by linarith
    then show ?thesis using small nblk_bounds(1) [of t] mult_div_mod_eq [of 32 h] by simp
  qed
  then have "r = Enqueued" using run(2,3) malloc by (cases r) (auto simp: no_memory_def)
  then show ?thesis using EP_enq_law [OF inv, of "(x, True)" env CanAlloc] run(1) by (auto simp: EP_enq_def)
qed

lemma bulk_session_spec:
  assumes "EP_holds True others (sum_list (map op_cost ops) + n) s xs" "\<And>i. malloc_ok env i"
  shows "\<exists>s'. bulk_session env s ops = Inr (s', True, fst (fifo_session xs ops)) \<and> EP_holds True others n s' (snd (fifo_session xs ops))"
  using assms(1)
proof (induction ops arbitrary: s xs)
  case Nil
  then show ?case by auto
next
  case (Cons x ops)
  let ?c = "sum_list (map op_cost ops) + n"
  have inv: "EP_holds True others (length (enqueued x) + Suc (Suc ?c)) s xs" using Cons.prems by (simp add: op_cost_def [of x] add.commute add.left_commute)
  obtain h t fs bs where ok: "ep_ok (fst s) (snd s) others h t fs bs xs" and small: "unat (pr_blockIndexSlotsUsed (snd s)) + (length (enqueued x) + Suc (Suc ?c)) \<le> 2 ^ 58"
    and clean: "list_all (\<lambda>b. all_set (blocks (fst s) ! b)) fs"
    using inv by (auto simp: EP_holds_def)
  have weaken: "EP_holds True others m s' xs'" if "EP_holds True others k s' xs'" "m \<le> k" for m k s' xs'
    using that unfolding EP_holds_def by fastforce
  show ?case
  proof (cases x)
    case (One y)
    have "EP_holds True others (Suc (Suc ?c)) s xs" using weaken [OF inv] by simp
    from EP_enq_succeeds [OF this assms(2), of y]
    obtain s1 where "EP_enq env CanAlloc (y, True) s = Inr (s1, True)" "EP_holds True others (Suc ?c) s1 (xs @ [y])" by blast
    then show ?thesis using Cons.IH [OF weaken [of "Suc ?c" s1 "xs @ [y]" ?c]] One by (auto simp: split_beta)
  next
    case (Many zs)
    let ?items = "map (\<lambda>x. (x, True)) zs"
    have z: "list_all snd ?items" "map fst ?items = zs" by (simp_all add: list_all_iff o_def)
    have len: "more_blocks t (length ?items) \<le> length zs" using more_blocks_le [of t "length zs"] by simp
    then have "Suc (unat (pr_blockIndexSlotsUsed (snd s)) + more_blocks t (length ?items)) < 2 ^ 58" using small Many by simp
    then obtain q' p' fs' bs' where run: "EP_enqueue_bulk env CanAlloc ?items (fst s) (snd s) = Inr (q', p', Enqueued)"
      "ep_ok q' p' others h (t + length ?items) fs' bs' (xs @ zs)" "unat (pr_blockIndexSlotsUsed p') \<le> unat (pr_blockIndexSlotsUsed (snd s)) + more_blocks t (length ?items)"
      "list_all (\<lambda>b. all_set (blocks q' ! b)) fs'"
      using EP_enqueue_bulk_spec [OF ok z(1) _ assms(2)] clean unfolding z(2) by blast
    have "unat (pr_blockIndexSlotsUsed p') + ?c \<le> 2 ^ 58" using run(3) len small Many by simp
    then have "EP_holds True others ?c (q', p') (xs @ zs)" using run(2,4) by (intro EP_holdsI) auto
    from Cons.IH [OF this] show ?thesis using run(1) Many by (auto simp: split_beta)
  next
    case Take
    have "EP_holds True others (Suc ?c) s xs" using weaken [OF inv] by simp
    then obtain s1 where "EP_deq s = Inr (s1, case xs of [] \<Rightarrow> None | x # _ \<Rightarrow> Some x)" "EP_holds True others ?c s1 (tl xs)"
      using EP_deq_law by blast
    then show ?thesis using Cons.IH [of s1 "tl xs"] Take by (cases xs) (auto simp: split_beta)
  next
    case (Take_Many m)
    obtain q' p' fs' bs' where run: "EP_dequeue_bulk (fst s) (snd s) m = Inr (q', p', take (unat m) xs, of_nat (min (unat m) (length xs)))"
      "ep_ok q' p' others (h + min (unat m) (length xs)) t fs' bs' (drop (unat m) xs)" "pr_blockIndexSlotsUsed p' = pr_blockIndexSlotsUsed (snd s)"
      "list_all (\<lambda>b. all_set (blocks q' ! b)) fs'"
      using EP_dequeue_bulk_spec [OF ok, of m] clean by blast
    have "unat (pr_blockIndexSlotsUsed p') + ?c \<le> 2 ^ 58" using run(3) small by simp
    then have "EP_holds True others ?c (q', p') (drop (unat m) xs)" using run(2,4) by (intro EP_holdsI) auto
    from Cons.IH [OF this] show ?thesis using run(1) Take_Many by (auto simp: split_beta)
  qed
qed



end
