(* ===== verification/LW_Semaphore.thy ===== *)
theory LW_Semaphore
  imports DKV_Prelude
begin

text \<open>
  The semaphore of the blocking queue (\<^verbatim>\<open>class LightweightSemaphore\<close> of
  \<^verbatim>\<open>src/utils/concurrentqueue-1.0.3/lightweightsemaphore.h\<close>): an atomic count in front of a
  semaphore of the operating system. Any number of threads call its operations; each atomic access to
  the count and each call of the system semaphore is one step, in any interleaving, on sequentially consistent memory.

  A negative count is the number of threads that wait. The count is unbounded here: the bounds proved
  for it say that it stays within \<^verbatim>\<open>ssize_t\<close> as long as fewer than \<open>2 ^ 63\<close> units are signalled.

  The system semaphore (\<^verbatim>\<open>sem_t\<close>) is a counter; what the system decides at a call is an argument of the step.
\<close>

section \<open>The machine\<close>

text \<open>
  The answer of the system to a call: it goes through (and blocks while the semaphore is zero), it was
  interrupted, or it fails, which for a timed wait is the time-out. For a compare-exchange of the weak kind
  the last two are a spurious failure.
\<close>

datatype os_answer = OS_Ok | OS_Intr | OS_Fail

text \<open>Where \<^verbatim>\<open>tryWait\<close> and \<^verbatim>\<open>tryWaitMany\<close> return to.\<close>

datatype after_try = A_Return int | A_Wait int

datatype sem_pc =
    S_Ret int
  | TW_Load "int option"
  | TW_Loop int "int option"
  | WP_Spin int int
  | WP_CAS int int int
  | WP_Wait
  | WP_Timed
  | WP_Adj_Load
  | WP_Adj int
  | TWM_Load int after_try
  | TWM_Loop int int after_try
  | WM_Spin int int int
  | WM_CAS int int int int
  | WM_Wait int
  | WM_Timed int
  | WM_Adj_Load int
  | WM_Adj int int
  | SG_Add int
  | SG_Post int

text \<open>
  \<open>taken\<close> are the units each thread has been given by the calls that have returned, \<open>given\<close> the initial count and all units signalled.
\<close>

record LightweightSemaphore =
  m_count :: int
  m_sema :: nat
  m_maxSpins :: int
  sem_pcs :: "sem_pc list"
  taken :: "int list"
  given :: int

definition new_LightweightSemaphore :: "nat \<Rightarrow> int \<Rightarrow> int \<Rightarrow> LightweightSemaphore" where
  "new_LightweightSemaphore threads initialCount maxSpins =
     \<lparr>m_count = initialCount, m_sema = 0, m_maxSpins = maxSpins,
      sem_pcs = replicate threads (S_Ret 0), taken = replicate threads 0, given = initialCount\<rparr>"

definition set_spc :: "nat \<Rightarrow> sem_pc \<Rightarrow> LightweightSemaphore \<Rightarrow> LightweightSemaphore" where
  "set_spc t p s = s\<lparr>sem_pcs := (sem_pcs s)[t := p]\<rparr>"

definition return_units :: "nat \<Rightarrow> int \<Rightarrow> LightweightSemaphore \<Rightarrow> LightweightSemaphore" where
  "return_units t n s = set_spc t (S_Ret n) (s\<lparr>taken := (taken s)[t := taken s ! t + n]\<rparr>)"

text \<open>The calls of the system semaphore that acquire: acquired, or the thread is still in the call, or the call failed.\<close>

definition sem_acquire :: "os_answer \<Rightarrow> nat \<Rightarrow> bool option" where
  "sem_acquire a sema = (case a of OS_Ok \<Rightarrow> if sema > 0 then Some True else None | OS_Intr \<Rightarrow> None | OS_Fail \<Rightarrow> Some False)"

definition sem_try_acquire :: "os_answer \<Rightarrow> nat \<Rightarrow> bool option" where
  "sem_try_acquire a sema = (if a = OS_Intr then None else Some (sema > 0))"

definition newCount :: "int \<Rightarrow> int \<Rightarrow> int" where
  "newCount oldCount mx = (if oldCount > mx then oldCount - mx else 0)"

subsection \<open>tryWait and waitWithPartialSpinning\<close>

definition tryWait_step :: "nat \<Rightarrow> os_answer \<Rightarrow> int \<Rightarrow> int option \<Rightarrow> LightweightSemaphore \<Rightarrow> LightweightSemaphore" where
  "tryWait_step t a oldCount k s =
     (if oldCount > 0
      then if m_count s = oldCount \<and> a = OS_Ok then return_units t 1 (s\<lparr>m_count := oldCount - 1\<rparr>)
           else set_spc t (TW_Loop (m_count s) k) s
      else case k of None \<Rightarrow> return_units t 0 s
           | Some timeout_usecs \<Rightarrow> set_spc t (WP_Spin (m_maxSpins s) timeout_usecs) s)"

fun wait_step :: "nat \<Rightarrow> os_answer \<Rightarrow> sem_pc \<Rightarrow> LightweightSemaphore \<Rightarrow> LightweightSemaphore" where
  "wait_step t a (WP_Spin spin timeout_usecs) s =
     (let spin = spin - 1; oldCount = m_count s
      in if spin \<ge> 0
         then set_spc t (if oldCount > 0 then WP_CAS spin oldCount timeout_usecs else WP_Spin spin timeout_usecs) s
         else let s' = s\<lparr>m_count := oldCount - 1\<rparr>
              in if oldCount > 0 then return_units t 1 s'
                 else set_spc t (if timeout_usecs < 0 then WP_Wait
                                 else if timeout_usecs > 0 then WP_Timed else WP_Adj_Load) s')"
| "wait_step t a (WP_CAS spin oldCount timeout_usecs) s =
     (if m_count s = oldCount then return_units t 1 (s\<lparr>m_count := oldCount - 1\<rparr>)
      else set_spc t (WP_Spin spin timeout_usecs) s)"
| "wait_step t a WP_Wait s =
     (case sem_acquire a (m_sema s) of
        None \<Rightarrow> s
      | Some True \<Rightarrow> return_units t 1 (s\<lparr>m_sema := m_sema s - 1\<rparr>)
      | Some False \<Rightarrow> set_spc t WP_Adj_Load s)"
| "wait_step t a WP_Timed s =
     (case sem_acquire a (m_sema s) of
        None \<Rightarrow> s
      | Some True \<Rightarrow> return_units t 1 (s\<lparr>m_sema := m_sema s - 1\<rparr>)
      | Some False \<Rightarrow> set_spc t WP_Adj_Load s)"
| "wait_step t a WP_Adj_Load s = set_spc t (WP_Adj (m_count s)) s"
| "wait_step t a (WP_Adj oldCount) s =
     (if oldCount \<ge> 0
      then case sem_try_acquire a (m_sema s) of
             None \<Rightarrow> s
           | Some True \<Rightarrow> return_units t 1 (s\<lparr>m_sema := m_sema s - 1\<rparr>)
           | Some False \<Rightarrow> set_spc t WP_Adj_Load s
      else if m_count s = oldCount then return_units t 0 (s\<lparr>m_count := oldCount + 1\<rparr>)
      else set_spc t WP_Adj_Load s)"
| "wait_step t a p s = s"

subsection \<open>tryWaitMany and waitManyWithPartialSpinning\<close>

definition tryWaitMany_return :: "nat \<Rightarrow> int \<Rightarrow> int \<Rightarrow> after_try \<Rightarrow> LightweightSemaphore \<Rightarrow> LightweightSemaphore" where
  "tryWaitMany_return t result mx k s =
     (case k of A_Return base \<Rightarrow> return_units t (base + result) s
      | A_Wait timeout_usecs \<Rightarrow>
          if result = 0 \<and> mx > 0 then set_spc t (WM_Spin (m_maxSpins s) mx timeout_usecs) s
          else return_units t result s)"

definition tryWaitMany_step ::
  "nat \<Rightarrow> os_answer \<Rightarrow> int \<Rightarrow> int \<Rightarrow> after_try \<Rightarrow> LightweightSemaphore \<Rightarrow> LightweightSemaphore" where
  "tryWaitMany_step t a oldCount mx k s =
     (if oldCount > 0
      then if m_count s = oldCount \<and> a = OS_Ok
           then tryWaitMany_return t (oldCount - newCount oldCount mx) mx k (s\<lparr>m_count := newCount oldCount mx\<rparr>)
           else set_spc t (TWM_Loop (m_count s) mx k) s
      else tryWaitMany_return t 0 mx k s)"

text \<open>One unit is acquired: go for more.\<close>

definition waitMany_more :: "nat \<Rightarrow> int \<Rightarrow> LightweightSemaphore \<Rightarrow> LightweightSemaphore" where
  "waitMany_more t mx s =
     (if mx > 1 then set_spc t (TWM_Load (mx - 1) (A_Return 1)) s else return_units t 1 s)"

fun waitMany_step :: "nat \<Rightarrow> os_answer \<Rightarrow> sem_pc \<Rightarrow> LightweightSemaphore \<Rightarrow> LightweightSemaphore" where
  "waitMany_step t a (WM_Spin spin mx timeout_usecs) s =
     (let spin = spin - 1; oldCount = m_count s
      in if spin \<ge> 0
         then set_spc t (if oldCount > 0 then WM_CAS spin oldCount mx timeout_usecs
                         else WM_Spin spin mx timeout_usecs) s
         else let s' = s\<lparr>m_count := oldCount - 1\<rparr>
              in if oldCount \<le> 0
                 then set_spc t (if timeout_usecs = 0 then WM_Adj_Load mx
                                 else if timeout_usecs < 0 then WM_Wait mx else WM_Timed mx) s'
                 else waitMany_more t mx s')"
| "waitMany_step t a (WM_CAS spin oldCount mx timeout_usecs) s =
     (if m_count s = oldCount
      then return_units t (oldCount - newCount oldCount mx) (s\<lparr>m_count := newCount oldCount mx\<rparr>)
      else set_spc t (WM_Spin spin mx timeout_usecs) s)"
| "waitMany_step t a (WM_Wait mx) s =
     (case sem_acquire a (m_sema s) of
        None \<Rightarrow> s
      | Some True \<Rightarrow> waitMany_more t mx (s\<lparr>m_sema := m_sema s - 1\<rparr>)
      | Some False \<Rightarrow> set_spc t (WM_Adj_Load mx) s)"
| "waitMany_step t a (WM_Timed mx) s =
     (case sem_acquire a (m_sema s) of
        None \<Rightarrow> s
      | Some True \<Rightarrow> waitMany_more t mx (s\<lparr>m_sema := m_sema s - 1\<rparr>)
      | Some False \<Rightarrow> set_spc t (WM_Adj_Load mx) s)"
| "waitMany_step t a (WM_Adj_Load mx) s = set_spc t (WM_Adj (m_count s) mx) s"
| "waitMany_step t a (WM_Adj oldCount mx) s =
     (if oldCount \<ge> 0
      then case sem_try_acquire a (m_sema s) of
             None \<Rightarrow> s
           | Some True \<Rightarrow> waitMany_more t mx (s\<lparr>m_sema := m_sema s - 1\<rparr>)
           | Some False \<Rightarrow> set_spc t (WM_Adj_Load mx) s
      else if m_count s = oldCount then return_units t 0 (s\<lparr>m_count := oldCount + 1\<rparr>)
      else set_spc t (WM_Adj_Load mx) s)"
| "waitMany_step t a p s = s"

subsection \<open>signal\<close>

text \<open>The conversion of the number of waiters to wake to \<^verbatim>\<open>int\<close> keeps its low 32 bits.\<close>

definition to_int32 :: "int \<Rightarrow> int" where
  "to_int32 n = sint (word_of_int n :: 32 word)"

definition toRelease :: "int \<Rightarrow> int \<Rightarrow> int" where
  "toRelease oldCount count = (if - oldCount < count then - oldCount else count)"

fun signal_step :: "nat \<Rightarrow> os_answer \<Rightarrow> sem_pc \<Rightarrow> LightweightSemaphore \<Rightarrow> LightweightSemaphore" where
  "signal_step t a (SG_Add count) s =
     (let oldCount = m_count s; s' = s\<lparr>m_count := oldCount + count, given := given s + count\<rparr>
      in if toRelease oldCount count > 0 then set_spc t (SG_Post (to_int32 (toRelease oldCount count))) s'
         else return_units t 0 s')"
| "signal_step t a (SG_Post count) s =
     (if count > 0
      then if a = OS_Ok then set_spc t (SG_Post (count - 1)) (s\<lparr>m_sema := m_sema s + 1\<rparr>) else s
      else return_units t 0 s)"
| "signal_step t a p s = s"

definition availableApprox :: "LightweightSemaphore \<Rightarrow> int" where
  "availableApprox s = (if m_count s > 0 then m_count s else 0)"

subsection \<open>Runs\<close>

datatype sem_op = Op_tryWait | Op_wait int | Op_tryWaitMany int | Op_waitMany int int | Op_signal int

fun op_ok :: "sem_op \<Rightarrow> bool" where
  "op_ok (Op_tryWaitMany mx) \<longleftrightarrow> mx \<ge> 0"
| "op_ok (Op_waitMany mx _) \<longleftrightarrow> mx \<ge> 0"
| "op_ok (Op_signal count) \<longleftrightarrow> count \<ge> 0"
| "op_ok _ \<longleftrightarrow> True"

text \<open>The first program point of a call.\<close>

fun sem_call :: "sem_op \<Rightarrow> sem_pc" where
  "sem_call Op_tryWait = TW_Load None"
| "sem_call (Op_wait timeout_usecs) = TW_Load (Some timeout_usecs)"
| "sem_call (Op_tryWaitMany mx) = TWM_Load mx (A_Return 0)"
| "sem_call (Op_waitMany mx timeout_usecs) = TWM_Load mx (A_Wait timeout_usecs)"
| "sem_call (Op_signal count) = SG_Add count"

fun is_many_pc :: "sem_pc \<Rightarrow> bool" where
  "is_many_pc (WM_Spin _ _ _) \<longleftrightarrow> True"
| "is_many_pc (WM_CAS _ _ _ _) \<longleftrightarrow> True"
| "is_many_pc (WM_Wait _) \<longleftrightarrow> True"
| "is_many_pc (WM_Timed _) \<longleftrightarrow> True"
| "is_many_pc (WM_Adj_Load _) \<longleftrightarrow> True"
| "is_many_pc (WM_Adj _ _) \<longleftrightarrow> True"
| "is_many_pc _ \<longleftrightarrow> False"

definition sem_step :: "nat \<Rightarrow> os_answer \<Rightarrow> LightweightSemaphore \<Rightarrow> LightweightSemaphore" where
  "sem_step t a s =
     (case sem_pcs s ! t of
        S_Ret _ \<Rightarrow> s
      | TW_Load k \<Rightarrow> set_spc t (TW_Loop (m_count s) k) s
      | TW_Loop oldCount k \<Rightarrow> tryWait_step t a oldCount k s
      | TWM_Load mx k \<Rightarrow> set_spc t (TWM_Loop (m_count s) mx k) s
      | TWM_Loop oldCount mx k \<Rightarrow> tryWaitMany_step t a oldCount mx k s
      | SG_Add count \<Rightarrow> signal_step t a (SG_Add count) s
      | SG_Post count \<Rightarrow> signal_step t a (SG_Post count) s
      | p \<Rightarrow> if is_many_pc p then waitMany_step t a p s else wait_step t a p s)"

text \<open>
  What a thread does next: a step of the call it is in, or a new call when it is in none. A run is a list of these.
\<close>

datatype sem_event = Step os_answer | Call sem_op

definition sem_event_step :: "nat \<times> sem_event \<Rightarrow> LightweightSemaphore \<Rightarrow> LightweightSemaphore" where
  "sem_event_step e s =
     (case e of (t, ev) \<Rightarrow>
        if t < length (sem_pcs s) then
          (case ev of
             Step a \<Rightarrow> sem_step t a s
           | Call c \<Rightarrow>
               (case sem_pcs s ! t of
                  S_Ret _ \<Rightarrow> if op_ok c then set_spc t (sem_call c) s else s
                | _ \<Rightarrow> s))
        else s)"

definition sem_run :: "(nat \<times> sem_event) list \<Rightarrow> LightweightSemaphore \<Rightarrow> LightweightSemaphore" where
  "sem_run evs s = fold sem_event_step evs s"

section \<open>The deadline of a timed wait\<close>

record timespec =
  tv_sec :: int
  tv_nsec :: int

definition timed_wait_deadline :: "timespec \<Rightarrow> nat \<Rightarrow> timespec" where
  "timed_wait_deadline now usecs =
     (let usecs_in_1_sec = 1000000; nsecs_in_1_sec = 1000000000;
          ts = now\<lparr>tv_sec := tv_sec now + int (usecs div usecs_in_1_sec),
                   tv_nsec := tv_nsec now + int (usecs mod usecs_in_1_sec) * 1000\<rparr>
      in if tv_nsec ts \<ge> nsecs_in_1_sec
         then ts\<lparr>tv_nsec := tv_nsec ts - nsecs_in_1_sec, tv_sec := tv_sec ts + 1\<rparr> else ts)"

section \<open>The invariant\<close>

text \<open>A thread waits from the decrement of the count until it is woken or has taken the decrement back.\<close>

fun waiting :: "sem_pc \<Rightarrow> int" where
  "waiting WP_Wait = 1"
| "waiting WP_Timed = 1"
| "waiting WP_Adj_Load = 1"
| "waiting (WP_Adj _) = 1"
| "waiting (WM_Wait _) = 1"
| "waiting (WM_Timed _) = 1"
| "waiting (WM_Adj_Load _) = 1"
| "waiting (WM_Adj _ _) = 1"
| "waiting _ = 0"

text \<open>The wake-ups a signalling thread still owes, and the units a call has acquired before it returns.\<close>

fun owed :: "sem_pc \<Rightarrow> int" where
  "owed (SG_Post n) = n"
| "owed _ = 0"

fun acquired :: "sem_pc \<Rightarrow> int" where
  "acquired (TWM_Load _ (A_Return n)) = n"
| "acquired (TWM_Loop _ _ (A_Return n)) = n"
| "acquired _ = 0"

fun pc_ok :: "sem_pc \<Rightarrow> bool" where
  "pc_ok (TWM_Load mx k) \<longleftrightarrow> mx \<ge> 0 \<and> (case k of A_Return n \<Rightarrow> n \<ge> 0 | A_Wait _ \<Rightarrow> True)"
| "pc_ok (TWM_Loop _ mx k) \<longleftrightarrow> mx \<ge> 0 \<and> (case k of A_Return n \<Rightarrow> n \<ge> 0 | A_Wait _ \<Rightarrow> True)"
| "pc_ok (WM_Spin _ mx _) \<longleftrightarrow> mx > 0"
| "pc_ok (WM_CAS _ oldCount mx _) \<longleftrightarrow> mx > 0 \<and> oldCount > 0"
| "pc_ok (WP_CAS _ oldCount _) \<longleftrightarrow> oldCount > 0"
| "pc_ok (SG_Add n) \<longleftrightarrow> n \<ge> 0"
| "pc_ok (SG_Post n) \<longleftrightarrow> n \<ge> 0"
| "pc_ok _ \<longleftrightarrow> True"

lemma acquired_Loop [simp]: "acquired (TWM_Loop oldCount mx k) = acquired (TWM_Load mx k)"
  by (cases k) simp_all

definition sem_inv :: "LightweightSemaphore \<Rightarrow> bool" where
  "sem_inv s \<longleftrightarrow>
     length (taken s) = length (sem_pcs s) \<and> length (sem_pcs s) < 2 ^ 31 \<and>
     (\<forall>p \<in> set (sem_pcs s). pc_ok p) \<and> (\<forall>n \<in> set (taken s). n \<ge> 0) \<and>
     int (m_sema s) + (\<Sum>p\<leftarrow>sem_pcs s. owed p) + max 0 (- m_count s) = (\<Sum>p\<leftarrow>sem_pcs s. waiting p) \<and>
     given s = sum_list (taken s) + (\<Sum>p\<leftarrow>sem_pcs s. acquired p) + m_count s + (\<Sum>p\<leftarrow>sem_pcs s. waiting p)"

lemma sum_update:
  fixes f :: "'a \<Rightarrow> int"
  assumes "t < length xs"
  shows "(\<Sum>x\<leftarrow>xs[t := y]. f x) = (\<Sum>x\<leftarrow>xs. f x) - f (xs ! t) + f y"
  using assms
proof (induction xs arbitrary: t)
  case (Cons x xs)
  then show ?case by (cases t) auto
qed simp

text \<open>Every step changes the program point of one thread, and perhaps the counters.\<close>

lemma sem_inv_step:
  assumes inv: "sem_inv s" and t: "t < length (sem_pcs s)"
    and s': "sem_pcs s' = (sem_pcs s)[t := p']" "taken s' = (taken s)[t := taken s ! t + n]"
    and n: "n \<ge> 0" "pc_ok p'"
    and sema: "int (m_sema s') + owed p' + max 0 (- m_count s') - waiting p' =
      int (m_sema s) + owed (sem_pcs s ! t) + max 0 (- m_count s) - waiting (sem_pcs s ! t)"
    and units: "given s' - n - acquired p' - m_count s' - waiting p' =
      given s - acquired (sem_pcs s ! t) - m_count s - waiting (sem_pcs s ! t)"
  shows "sem_inv s'"
proof -
  have len: "length (taken s) = length (sem_pcs s)" using inv by (simp add: sem_inv_def)
  have sum: "(\<Sum>p\<leftarrow>sem_pcs s'. f p) = (\<Sum>p\<leftarrow>sem_pcs s. f p) - f (sem_pcs s ! t) + f p'" for f :: "sem_pc \<Rightarrow> int"
    unfolding s'(1) by (rule sum_update [OF t])
  have taken: "sum_list (taken s') = sum_list (taken s) + n"
    using sum_update [of t "taken s" "\<lambda>x. x" "taken s ! t + n"] t len by (simp add: s'(2))
  have "taken s ! t \<ge> 0" using inv t len by (simp add: sem_inv_def)
  then have "\<forall>x \<in> set (taken s'). x \<ge> 0"
    using inv n(1) set_update_subset_insert [of "taken s" t "taken s ! t + n"] by (fastforce simp: sem_inv_def s'(2))
  moreover have "\<forall>p \<in> set (sem_pcs s'). pc_ok p"
    using inv n(2) set_update_subset_insert [of "sem_pcs s" t p'] by (fastforce simp: sem_inv_def s'(1))
  ultimately show ?thesis
    using inv sema units unfolding sem_inv_def sum taken by (simp add: s')
qed

lemma spc_simps [simp]:
  "sem_pcs (set_spc t p s) = (sem_pcs s)[t := p]" "taken (set_spc t p s) = taken s" "m_count (set_spc t p s) = m_count s"
  "m_sema (set_spc t p s) = m_sema s" "given (set_spc t p s) = given s"
  "sem_pcs (return_units t n s) = (sem_pcs s)[t := S_Ret n]" "taken (return_units t n s) = (taken s)[t := taken s ! t + n]"
  "m_count (return_units t n s) = m_count s" "m_sema (return_units t n s) = m_sema s" "given (return_units t n s) = given s"
  by (simp_all add: set_spc_def return_units_def)

lemma spc_inv:
  assumes "sem_inv s" "t < length (sem_pcs s)" "sem_pcs s1 = sem_pcs s" "taken s1 = taken s" "pc_ok p'"
    "int (m_sema s1) + owed p' + max 0 (- m_count s1) - waiting p' =
      int (m_sema s) + owed (sem_pcs s ! t) + max 0 (- m_count s) - waiting (sem_pcs s ! t)"
    "given s1 - acquired p' - m_count s1 - waiting p' =
      given s - acquired (sem_pcs s ! t) - m_count s - waiting (sem_pcs s ! t)"
  shows "sem_inv (set_spc t p' s1)"
  by (rule sem_inv_step [OF assms(1,2), where p' = p' and n = 0]) (use assms in simp_all)

lemma ret_inv:
  assumes "sem_inv s" "t < length (sem_pcs s)" "sem_pcs s1 = sem_pcs s" "taken s1 = taken s" "n \<ge> 0"
    "int (m_sema s1) + max 0 (- m_count s1) =
      int (m_sema s) + owed (sem_pcs s ! t) + max 0 (- m_count s) - waiting (sem_pcs s ! t)"
    "given s1 - n - m_count s1 = given s - acquired (sem_pcs s ! t) - m_count s - waiting (sem_pcs s ! t)"
  shows "sem_inv (return_units t n s1)"
  by (rule sem_inv_step [OF assms(1,2), where p' = "S_Ret n" and n = n]) (use assms in simp_all)

lemma pc_ok_at: "sem_inv s \<Longrightarrow> t < length (sem_pcs s) \<Longrightarrow> pc_ok (sem_pcs s ! t)"
  by (simp add: sem_inv_def)

lemma newCount_bounds:
  "0 < oldCount \<Longrightarrow> 0 \<le> mx \<Longrightarrow> 0 \<le> newCount oldCount mx \<and> newCount oldCount mx \<le> oldCount \<and> oldCount - newCount oldCount mx \<le> mx"
  by (simp add: newCount_def)

lemma tryWait_step_inv:
  assumes "sem_inv s" "t < length (sem_pcs s)" "sem_pcs s ! t = TW_Loop oldCount k"
  shows "sem_inv (tryWait_step t a oldCount k s)"
  using spc_inv [OF assms(1,2)] ret_inv [OF assms(1,2)] assms(3) by (auto simp: tryWait_step_def split: option.splits)

lemma wait_step_inv:
  assumes "sem_inv s" "t < length (sem_pcs s)"
  shows "sem_inv (wait_step t a (sem_pcs s ! t) s)"
proof (cases "sem_pcs s ! t")
  case (WP_Spin spin timeout)
  then show ?thesis using spc_inv [OF assms] ret_inv [OF assms] by (auto simp: Let_def)
next
  case (WP_CAS spin oldCount timeout)
  then show ?thesis using spc_inv [OF assms] ret_inv [OF assms] pc_ok_at [OF assms] by auto
next
  case WP_Wait
  then show ?thesis using assms(1) spc_inv [OF assms] ret_inv [OF assms]
    by (auto simp: sem_acquire_def split: os_answer.splits)
next
  case WP_Timed
  then show ?thesis using assms(1) spc_inv [OF assms] ret_inv [OF assms]
    by (auto simp: sem_acquire_def split: os_answer.splits)
next
  case WP_Adj_Load
  then show ?thesis using spc_inv [OF assms] by auto
next
  case (WP_Adj oldCount)
  then show ?thesis using assms(1) spc_inv [OF assms] ret_inv [OF assms] by (auto simp: sem_try_acquire_def split: bool.splits)
qed (use assms in simp_all)

lemma more_inv:
  assumes "sem_inv s" "t < length (sem_pcs s)" "sem_pcs s1 = sem_pcs s" "taken s1 = taken s"
    "int (m_sema s1) + max 0 (- m_count s1) =
      int (m_sema s) + owed (sem_pcs s ! t) + max 0 (- m_count s) - waiting (sem_pcs s ! t)"
    "given s1 - 1 - m_count s1 = given s - acquired (sem_pcs s ! t) - m_count s - waiting (sem_pcs s ! t)"
  shows "sem_inv (waitMany_more t mx s1)"
  using spc_inv [OF assms(1-4)] ret_inv [OF assms(1-4)] assms(5,6) by (auto simp: waitMany_more_def)

lemma tryWaitMany_step_inv:
  assumes "sem_inv s" "t < length (sem_pcs s)" "sem_pcs s ! t = TWM_Loop oldCount mx k"
  shows "sem_inv (tryWaitMany_step t a oldCount mx k s)"
  using spc_inv [OF assms(1,2)] ret_inv [OF assms(1,2)] assms(3) pc_ok_at [OF assms(1,2)] newCount_bounds [of oldCount mx]
  by (auto simp: tryWaitMany_step_def tryWaitMany_return_def split: after_try.splits)

lemma waitMany_step_inv:
  assumes "sem_inv s" "t < length (sem_pcs s)"
  shows "sem_inv (waitMany_step t a (sem_pcs s ! t) s)"
proof (cases "sem_pcs s ! t")
  case (WM_Spin spin mx timeout)
  then show ?thesis using spc_inv [OF assms] more_inv [OF assms] pc_ok_at [OF assms] by (auto simp: Let_def)
next
  case (WM_CAS spin oldCount mx timeout)
  then show ?thesis
    using spc_inv [OF assms] ret_inv [OF assms] pc_ok_at [OF assms] newCount_bounds [of oldCount mx] by auto
next
  case (WM_Wait mx)
  then show ?thesis using assms(1) spc_inv [OF assms] more_inv [OF assms]
    by (auto simp: sem_acquire_def split: os_answer.splits)
next
  case (WM_Timed mx)
  then show ?thesis using assms(1) spc_inv [OF assms] more_inv [OF assms]
    by (auto simp: sem_acquire_def split: os_answer.splits)
next
  case (WM_Adj_Load mx)
  then show ?thesis using spc_inv [OF assms] by auto
next
  case (WM_Adj oldCount mx)
  then show ?thesis using assms(1) spc_inv [OF assms] ret_inv [OF assms] more_inv [OF assms]
    by (auto simp: sem_try_acquire_def split: bool.splits)
qed (use assms in simp_all)

text \<open>No more threads wait than there are, so that the conversion to 32 bits loses nothing.\<close>

lemma waiting_range: "0 \<le> waiting p" "waiting p \<le> 1"
  by (induction p rule: waiting.induct) simp_all

lemma sum_waiting_le: "0 \<le> (\<Sum>p\<leftarrow>ps. waiting p)" "(\<Sum>p\<leftarrow>ps. waiting p) \<le> int (length ps)"
  by (induction ps) (use waiting_range in \<open>auto simp: add_increasing add_mono\<close>)

lemma sum_owed_ge: "\<forall>p \<in> set ps. pc_ok p \<Longrightarrow> 0 \<le> (\<Sum>p\<leftarrow>ps. owed p)"
  "\<forall>p \<in> set ps. pc_ok p \<Longrightarrow> 0 \<le> (\<Sum>p\<leftarrow>ps. acquired p)"
proof -
  have "pc_ok p \<Longrightarrow> 0 \<le> owed p" for p by (cases p) simp_all
  then show "\<forall>p \<in> set ps. pc_ok p \<Longrightarrow> 0 \<le> (\<Sum>p\<leftarrow>ps. owed p)" by (induction ps) auto
  have "pc_ok p \<Longrightarrow> 0 \<le> acquired p" for p by (cases p rule: acquired.cases) simp_all
  then show "\<forall>p \<in> set ps. pc_ok p \<Longrightarrow> 0 \<le> (\<Sum>p\<leftarrow>ps. acquired p)" by (induction ps) auto
qed

lemma count_bounds:
  assumes "sem_inv s"
  shows "- int (length (sem_pcs s)) \<le> m_count s" "m_count s \<le> given s"
proof -
  have "0 \<le> (\<Sum>p\<leftarrow>sem_pcs s. owed p)" "0 \<le> (\<Sum>p\<leftarrow>sem_pcs s. acquired p)" "0 \<le> sum_list (taken s)"
    using assms sum_owed_ge by (auto simp: sem_inv_def intro: sum_list_nonneg)
  then show "- int (length (sem_pcs s)) \<le> m_count s" "m_count s \<le> given s"
    using assms sum_waiting_le [of "sem_pcs s"] by (auto simp: sem_inv_def)
qed

lemma to_int32_small: "0 \<le> n \<Longrightarrow> n < 2 ^ 31 \<Longrightarrow> to_int32 n = n"
  unfolding to_int32_def by (simp add: sint_sbintrunc' signed_take_bit_int_eq_self)

lemma signal_step_inv:
  assumes "sem_inv s" "t < length (sem_pcs s)"
  shows "sem_inv (signal_step t a (sem_pcs s ! t) s)"
proof (cases "sem_pcs s ! t")
  case (SG_Add count)
  have "toRelease (m_count s) count \<le> - m_count s" by (simp add: toRelease_def)
  also have "\<dots> < 2 ^ 31" using count_bounds(1) [OF assms(1)] assms(1) by (simp add: sem_inv_def)
  finally have "toRelease (m_count s) count > 0 \<Longrightarrow> to_int32 (toRelease (m_count s) count) = toRelease (m_count s) count"
    by (intro to_int32_small) simp_all
  then show ?thesis
    using SG_Add spc_inv [OF assms] ret_inv [OF assms] pc_ok_at [OF assms] by (auto simp: Let_def toRelease_def)
next
  case (SG_Post count)
  then show ?thesis using assms(1) spc_inv [OF assms] ret_inv [OF assms] pc_ok_at [OF assms] by auto
qed (use assms in simp_all)

lemma sem_step_inv:
  assumes "sem_inv s" "t < length (sem_pcs s)"
  shows "sem_inv (sem_step t a s)"
  using assms spc_inv [OF assms] tryWait_step_inv [OF assms] wait_step_inv [OF assms, of a]
    tryWaitMany_step_inv [OF assms] waitMany_step_inv [OF assms, of a] signal_step_inv [OF assms, of a] pc_ok_at [OF assms]
  by (cases "sem_pcs s ! t") (auto simp: sem_step_def simp del: wait_step.simps waitMany_step.simps signal_step.simps)

section \<open>Every run\<close>

lemma sem_call_ok: "op_ok c \<Longrightarrow> pc_ok (sem_call c) \<and> owed (sem_call c) = 0 \<and> waiting (sem_call c) = 0 \<and> acquired (sem_call c) = 0"
  by (cases c) simp_all

lemma sem_event_step_inv:
  assumes "sem_inv s"
  shows "sem_inv (sem_event_step e s)"
proof (cases "fst e < length (sem_pcs s)")
  case True
  then show ?thesis
    using assms sem_step_inv [OF assms True] spc_inv [OF assms True] sem_call_ok
    by (auto simp: sem_event_step_def split: prod.splits sem_event.splits sem_pc.splits)
qed (use assms in \<open>auto simp: sem_event_step_def split: prod.splits\<close>)

lemma sem_run_inv: "sem_inv s \<Longrightarrow> sem_inv (sem_run evs s)"
  by (induction evs arbitrary: s) (simp_all add: sem_run_def sem_event_step_inv)

lemma sem_start_inv:
  assumes "0 \<le> initialCount" "threads < 2 ^ 31"
  shows "sem_inv (new_LightweightSemaphore threads initialCount maxSpins)"
proof -
  have "(\<Sum>p\<leftarrow>replicate threads (S_Ret 0). f p) = 0" if "f (S_Ret 0) = 0" for f :: "sem_pc \<Rightarrow> int"
    using that by (induction threads) simp_all
  moreover have "sum_list (replicate threads (0 :: int)) = 0" by (induction threads) simp_all
  ultimately show ?thesis using assms by (simp add: sem_inv_def new_LightweightSemaphore_def)
qed

lemma length_sem_pcs_step: "length (sem_pcs (sem_event_step e s)) = length (sem_pcs s)"
proof -
  have "length (sem_pcs (wait_step t a p s)) = length (sem_pcs s)" for t a p
    by (cases p) (auto simp: Let_def split: option.splits bool.splits)
  moreover have "length (sem_pcs (waitMany_step t a p s)) = length (sem_pcs s)" for t a p
    by (cases p) (auto simp: Let_def waitMany_more_def split: option.splits bool.splits)
  moreover have "length (sem_pcs (signal_step t a p s)) = length (sem_pcs s)" for t a p
    by (cases p) (auto simp: Let_def)
  ultimately have "length (sem_pcs (sem_step t a s)) = length (sem_pcs s)" for t a
    by (cases "sem_pcs s ! t")
      (auto simp: sem_step_def tryWait_step_def tryWaitMany_step_def tryWaitMany_return_def
        simp del: wait_step.simps waitMany_step.simps signal_step.simps split: option.splits after_try.splits)
  then show ?thesis
    by (auto simp: sem_event_step_def split: prod.splits sem_event.splits sem_pc.splits)
qed

lemma length_sem_pcs_run: "length (sem_pcs (sem_run evs s)) = length (sem_pcs s)"
  by (induction evs arbitrary: s) (simp_all add: sem_run_def length_sem_pcs_step)

lemma units_accounted:
  assumes "sem_inv s"
  shows "sum_list (taken s) + (\<Sum>p\<leftarrow>sem_pcs s. acquired p) + max 0 (m_count s) + int (m_sema s) + (\<Sum>p\<leftarrow>sem_pcs s. owed p) = given s"
  using assms by (auto simp: sem_inv_def max_def split: if_splits)

text \<open>
  (C15) In every interleaving of any number of threads (fewer than \<open>2 ^ 31\<close>) that wait, wait with a time-out, wait for many units
  and signal, the units handed out never exceed the initial count and the units signalled, the count is never
  below minus the number of threads and never above the units given, and the conversion of the number of wake-ups to
  \<^verbatim>\<open>int\<close> never changes it.
\<close>

theorem semaphore_never_overdrawn:
  fixes s :: LightweightSemaphore
  assumes "0 \<le> initialCount" "threads < 2 ^ 31" "s = sem_run evs (new_LightweightSemaphore threads initialCount maxSpins)"
  shows "sum_list (taken s) \<le> given s \<and> - int threads \<le> m_count s \<and> m_count s \<le> given s \<and>
    (\<forall>count \<ge> 0. to_int32 (toRelease (m_count s) count) = toRelease (m_count s) count \<or> toRelease (m_count s) count \<le> 0)"
proof -
  have inv: "sem_inv s" unfolding assms(3) by (rule sem_run_inv [OF sem_start_inv [OF assms(1,2)]])
  have len: "length (sem_pcs s) = threads"
    unfolding assms(3) length_sem_pcs_run by (simp add: new_LightweightSemaphore_def)
  have "0 \<le> (\<Sum>p\<leftarrow>sem_pcs s. owed p)" "0 \<le> (\<Sum>p\<leftarrow>sem_pcs s. acquired p)"
    using inv sum_owed_ge by (auto simp: sem_inv_def)
  then have "sum_list (taken s) \<le> given s" using units_accounted [OF inv] by linarith
  moreover have "to_int32 (toRelease (m_count s) count) = toRelease (m_count s) count"
    if "0 < toRelease (m_count s) count" for count
  proof (rule to_int32_small)
    have "toRelease (m_count s) count \<le> - m_count s" by (simp add: toRelease_def)
    also have "\<dots> \<le> int threads" using count_bounds(1) [OF inv] len by simp
    also have "\<dots> < 2 ^ 31" using assms(2) by simp
    finally show "toRelease (m_count s) count < 2 ^ 31" .
  qed (use that in simp)
  ultimately show ?thesis using count_bounds [OF inv] len by (meson not_less)
qed

text \<open>
  One thread waits without a limit and another wakes it. The waiting thread does not spin.
\<close>

definition example_events :: "(nat \<times> sem_event) list" where
  "example_events =
     (0, Call (Op_wait (- 1))) # replicate 3 (0, Step OS_Ok) @
     (1, Call (Op_signal 1)) # replicate 3 (1, Step OS_Ok) @ [(0, Step OS_Ok)]"

theorem semaphore_never_overdrawn_witness:
  "taken (sem_run example_events (new_LightweightSemaphore 2 0 0)) = [1, 0] \<and>
   sum_list (taken (sem_run example_events (new_LightweightSemaphore 2 0 0))) \<le>
     given (sem_run example_events (new_LightweightSemaphore 2 0 0))"
proof -
  have "taken (sem_run example_events (new_LightweightSemaphore 2 0 0)) = [1, 0]" by code_simp
  then show ?thesis using semaphore_never_overdrawn [of 0 2 _ example_events 0] by simp
qed

text \<open>A thread that is in no call, or in the system call that waits without a limit.\<close>

fun at_rest :: "sem_pc \<Rightarrow> bool" where
  "at_rest (S_Ret _) \<longleftrightarrow> True"
| "at_rest WP_Wait \<longleftrightarrow> True"
| "at_rest (WM_Wait _) \<longleftrightarrow> True"
| "at_rest _ \<longleftrightarrow> False"

lemma at_rest_sums:
  "\<forall>p \<in> set ps. at_rest p \<Longrightarrow> (\<Sum>p\<leftarrow>ps. owed p) = 0"
  "\<forall>p \<in> set ps. at_rest p \<Longrightarrow> (\<Sum>p\<leftarrow>ps. acquired p) = 0"
proof -
  have "at_rest p \<Longrightarrow> owed p = 0 \<and> acquired p = 0" for p by (cases p) simp_all
  then show "\<forall>p \<in> set ps. at_rest p \<Longrightarrow> (\<Sum>p\<leftarrow>ps. owed p) = 0"
    "\<forall>p \<in> set ps. at_rest p \<Longrightarrow> (\<Sum>p\<leftarrow>ps. acquired p) = 0"
    by (induction ps) auto
qed

text \<open>
  (C16) No wake-up is lost: when every thread is outside the semaphore or blocked in the system semaphore, and one is blocked, then every unit
  that was ever given has been taken. When nobody waits, the system semaphore is back at zero and the
  estimate of the units available is exact.
\<close>

theorem semaphore_no_lost_wakeup:
  fixes s :: LightweightSemaphore
  assumes "0 \<le> initialCount" "threads < 2 ^ 31" "s = sem_run evs (new_LightweightSemaphore threads initialCount maxSpins)"
    and rest: "\<forall>p \<in> set (sem_pcs s). at_rest p"
  shows "if (\<Sum>p\<leftarrow>sem_pcs s. waiting p) = 0 then m_sema s = 0 \<and> availableApprox s = given s - sum_list (taken s)
    else m_sema s = 0 \<longrightarrow> sum_list (taken s) = given s"
proof -
  have inv: "sem_inv s" unfolding assms(3) by (rule sem_run_inv [OF sem_start_inv [OF assms(1,2)]])
  note sums = at_rest_sums [OF rest]
  show ?thesis
    using inv units_accounted [OF inv] sums by (auto simp: sem_inv_def availableApprox_def max_def split: if_splits)
qed

theorem semaphore_no_lost_wakeup_witness:
  "sum_list (taken (sem_run ((0, Call (Op_wait (- 1))) # replicate 3 (0, Step OS_Ok)) (new_LightweightSemaphore 2 0 0))) =
     given (sem_run ((0, Call (Op_wait (- 1))) # replicate 3 (0, Step OS_Ok)) (new_LightweightSemaphore 2 0 0)) \<and>
   availableApprox (sem_run example_events (new_LightweightSemaphore 2 0 0)) = 0"
proof -
  let ?s = "sem_run ((0, Call (Op_wait (- 1))) # replicate 3 (0, Step OS_Ok)) (new_LightweightSemaphore 2 0 0)"
  let ?e = "sem_run example_events (new_LightweightSemaphore 2 0 0)"
  have s: "sem_pcs ?s = [WP_Wait, S_Ret 0]" "m_sema ?s = 0" by code_simp+
  have e: "sem_pcs ?e = [S_Ret 1, S_Ret 0]" "given ?e = 1" "taken ?e = [1, 0]" by code_simp+
  show ?thesis
    using semaphore_no_lost_wakeup [of 0 2 ?s "(0, Call (Op_wait (- 1))) # replicate 3 (0, Step OS_Ok)" 0]
      semaphore_no_lost_wakeup [of 0 2 ?e example_events 0]
    unfolding s e by (simp add: e)
qed

text \<open>
  The loop after a time-out ends: once no other thread owes wake-ups, two steps take the thread out of it, either with
  the unit that was meant for it or with its decrement of the count taken back. It never leaves a wait it was already
  counted out of.
\<close>

theorem semaphore_timeout_resolves:
  fixes s :: LightweightSemaphore
  assumes "0 \<le> initialCount" "threads < 2 ^ 31" "s = sem_run evs (new_LightweightSemaphore threads initialCount maxSpins)"
    and t: "t < threads" "sem_pcs s ! t = WP_Adj_Load" "(\<Sum>p\<leftarrow>sem_pcs s. owed p) = 0"
  shows "sem_pcs (sem_step t OS_Ok (sem_step t OS_Ok s)) ! t = S_Ret (if m_count s < 0 then 0 else 1)"
proof -
  have inv: "sem_inv s" unfolding assms(3) by (rule sem_run_inv [OF sem_start_inv [OF assms(1,2)]])
  have len: "length (sem_pcs s) = threads"
    unfolding assms(3) length_sem_pcs_run by (simp add: new_LightweightSemaphore_def)
  have "1 \<le> (\<Sum>p\<leftarrow>sem_pcs s. waiting p)"
    using sum_update [of t "sem_pcs s" waiting "S_Ret 0"] sum_waiting_le(1) [of "(sem_pcs s)[t := S_Ret 0]"] t len by simp
  then have "m_count s \<ge> 0 \<Longrightarrow> m_sema s > 0" using inv t(3) by (auto simp: sem_inv_def)
  then show ?thesis using t len by (auto simp: sem_step_def sem_try_acquire_def)
qed

definition timeout_events :: "(nat \<times> sem_event) list" where
  "timeout_events = (0, Call (Op_wait 5)) # replicate 3 (0, Step OS_Ok) @ [(0, Step OS_Fail)]"

theorem semaphore_timeout_resolves_witness:
  "sem_pcs (sem_step 0 OS_Ok (sem_step 0 OS_Ok (sem_run timeout_events (new_LightweightSemaphore 2 0 0)))) ! 0 = S_Ret 0"
proof -
  let ?s = "sem_run timeout_events (new_LightweightSemaphore 2 0 0)"
  have "sem_pcs ?s = [WP_Adj_Load, S_Ret 0]" "m_count ?s = - 1" by code_simp+
  then show ?thesis using semaphore_timeout_resolves [of 0 2 ?s timeout_events 0 0] by simp
qed

text \<open>
  The deadline of a timed wait is the current time plus the time-out, and its nanoseconds are in the range
  \<^verbatim>\<open>sem_timedwait\<close> accepts.
\<close>

theorem timed_wait_deadline_exact:
  assumes "0 \<le> tv_nsec now" "tv_nsec now < 1000000000"
  shows "0 \<le> tv_nsec (timed_wait_deadline now usecs) \<and> tv_nsec (timed_wait_deadline now usecs) < 1000000000 \<and>
    tv_sec (timed_wait_deadline now usecs) * 1000000000 + tv_nsec (timed_wait_deadline now usecs) =
      tv_sec now * 1000000000 + tv_nsec now + int usecs * 1000"
proof -
  define d r where "d = usecs div 1000000" and "r = usecs mod 1000000"
  have "usecs = 1000000 * d + r" "r < 1000000" by (simp_all add: d_def r_def)
  then show ?thesis using assms unfolding timed_wait_deadline_def Let_def d_def [symmetric] r_def [symmetric] by simp
qed

theorem timed_wait_deadline_exact_witness:
  "timed_wait_deadline \<lparr>tv_sec = 7, tv_nsec = 999999000\<rparr> 1500000 = \<lparr>tv_sec = 9, tv_nsec = 499999000\<rparr> \<and>
   9 * 1000000000 + 499999000 = (7 * 1000000000 + 999999000 + int 1500000 * 1000 :: int)"
proof -
  have "timed_wait_deadline \<lparr>tv_sec = 7, tv_nsec = 999999000\<rparr> 1500000 = \<lparr>tv_sec = 9, tv_nsec = 499999000\<rparr>"
    by (simp add: timed_wait_deadline_def)
  then show ?thesis using timed_wait_deadline_exact [of "\<lparr>tv_sec = 7, tv_nsec = 999999000\<rparr>" 1500000] by simp
qed

section \<open>What one step leaves alone\<close>

text \<open>For the clients of the semaphore: a step changes the program point and the units of its own thread only.\<close>

fun sem_ret :: "sem_pc \<Rightarrow> int" where
  "sem_ret (S_Ret r) = r"
| "sem_ret _ = 0"

fun is_signal :: "sem_pc \<Rightarrow> bool" where
  "is_signal (SG_Add _) \<longleftrightarrow> True"
| "is_signal (SG_Post _) \<longleftrightarrow> True"
| "is_signal _ \<longleftrightarrow> False"

fun is_single :: "sem_pc \<Rightarrow> bool" where
  "is_single (TW_Load _) \<longleftrightarrow> True"
| "is_single (TW_Loop _ _) \<longleftrightarrow> True"
| "is_single (WP_Spin _ _) \<longleftrightarrow> True"
| "is_single (WP_CAS _ _ _) \<longleftrightarrow> True"
| "is_single WP_Wait \<longleftrightarrow> True"
| "is_single WP_Timed \<longleftrightarrow> True"
| "is_single WP_Adj_Load \<longleftrightarrow> True"
| "is_single (WP_Adj _) \<longleftrightarrow> True"
| "is_single _ \<longleftrightarrow> False"

fun added :: "sem_pc \<Rightarrow> int" where
  "added (SG_Add n) = n"
| "added _ = 0"

lemmas step_defs = sem_step_def tryWait_step_def tryWaitMany_step_def tryWaitMany_return_def waitMany_more_def Let_def

lemma sem_step_pcs:
  assumes "t < length (sem_pcs s)"
  shows "(sem_pcs s)[t := sem_pcs (sem_step t a s) ! t] = sem_pcs (sem_step t a s)"
  using assms by (cases "sem_pcs s ! t")
    (auto simp: step_defs list_update_same_conv split: option.splits after_try.splits bool.splits)

lemma sem_step_taken:
  assumes "t < length (sem_pcs s)" "\<And>r. sem_pcs s ! t \<noteq> S_Ret r"
  shows "taken (sem_step t a s) = (taken s)[t := taken s ! t + sem_ret (sem_pcs (sem_step t a s) ! t)]"
  using assms by (cases "sem_pcs s ! t") (auto simp: step_defs split: option.splits after_try.splits bool.splits)

lemma sem_step_given: "given (sem_step t a s) = given s + added (sem_pcs s ! t)"
  by (cases "sem_pcs s ! t") (auto simp: step_defs split: option.splits after_try.splits bool.splits)

lemma sem_step_kind:
  assumes "t < length (sem_pcs s)"
  shows "is_signal (sem_pcs s ! t) \<Longrightarrow>
      sem_pcs (sem_step t a s) ! t = S_Ret 0 \<or> (\<exists>n. sem_pcs (sem_step t a s) ! t = SG_Post n)"
    "\<not> is_signal (sem_pcs s ! t) \<Longrightarrow> \<not> is_signal (sem_pcs (sem_step t a s) ! t)"
    "is_single (sem_pcs s ! t) \<Longrightarrow>
      is_single (sem_pcs (sem_step t a s) ! t) \<or> sem_pcs (sem_step t a s) ! t \<in> {S_Ret 0, S_Ret 1}"
  using assms by (cases "sem_pcs s ! t"; auto simp: step_defs split: option.splits after_try.splits bool.splits)+

lemma sem_step_ret_nonneg:
  assumes "sem_inv s" "t < length (sem_pcs s)" "\<And>r. sem_pcs s ! t \<noteq> S_Ret r"
  shows "0 \<le> sem_ret (sem_pcs (sem_step t a s) ! t)"
  using assms(2,3) pc_ok_at [OF assms(1,2)] newCount_bounds
  by (cases "sem_pcs s ! t") (auto simp: step_defs newCount_def split: option.splits after_try.splits bool.splits)

end
