(* ===== verification/Blocking_Queue.thy ===== *)
theory Blocking_Queue
  imports CQ_Tokens LW_Semaphore
begin

text \<open>
  The blocking queue (\<^verbatim>\<open>src/utils/concurrentqueue-1.0.3/blockingconcurrentqueue.h\<close>): a concurrent queue
  with a semaphore that counts its elements. Any number of threads call its operations, in any interleaving of their steps: an operation
  of the inner queue is one step, and the semaphore takes the steps of \<^verbatim>\<open>LW_Semaphore\<close>, with everything the system may answer.

  A consumer first acquires units of the semaphore and then takes as many elements, in a loop that
  ends only when the inner queue has delivered them. The theorems say why that loop ends: the elements of the units acquired
  are in the queue. They rest on the accounting of the semaphore and of the inner queue alone.

  The operations with a token differ in the operation of the inner queue they call; a count of elements is below \<open>2 ^ 63\<close>,
  so that its conversion to \<^verbatim>\<open>ssize_t\<close> keeps it. The assertion that an unbounded wait for several units returns
  some (which fails for a maximum of zero, or when the system call fails) is left out: such a wait returns zero here.
\<close>

section \<open>The machine\<close>

datatype 'a bq_op =
    BQ_enqueue 'a
  | BQ_enqueue_bulk "'a list"
  | BQ_try_dequeue
  | BQ_try_dequeue_bulk nat
  | BQ_wait_dequeue
  | BQ_wait_dequeue_timed int
  | BQ_wait_dequeue_bulk nat
  | BQ_wait_dequeue_bulk_timed nat int

text \<open>
  Where a thread is: outside, before the call of the inner enqueue, in the call of \<^verbatim>\<open>signal\<close>, in a call of the semaphore that acquires
  one unit (repeated when it fails, if so requested) or several, and in the loop that takes the elements.
\<close>

datatype 'a bq_pc =
    B_Idle
  | B_Enqueue "'a list"
  | B_Signal
  | B_Wait bool
  | B_Wait_Many
  | B_Take_One
  | B_Take nat

record 'a BlockingConcurrentQueue =
  bq_inner :: "'a ConcurrentQueue"
  bq_sema :: LightweightSemaphore
  bq_pcs :: "'a bq_pc list"
  bq_got :: "'a list list"
  bq_all :: "'a multiset"

text \<open>\<open>bq_got\<close> is what each thread has dequeued and \<open>bq_all\<close> everything that was ever enqueued.\<close>

definition new_BlockingConcurrentQueue :: "nat \<Rightarrow> int \<Rightarrow> 'a BlockingConcurrentQueue" where
  "new_BlockingConcurrentQueue threads maxSpins =
     \<lparr>bq_inner = cq_empty, bq_sema = new_LightweightSemaphore threads 0 maxSpins,
      bq_pcs = replicate threads B_Idle, bq_got = replicate threads [], bq_all = {#}\<rparr>"

definition set_bpc :: "nat \<Rightarrow> 'a bq_pc \<Rightarrow> 'a BlockingConcurrentQueue \<Rightarrow> 'a BlockingConcurrentQueue" where
  "set_bpc t p s = s\<lparr>bq_pcs := (bq_pcs s)[t := p]\<rparr>"

definition call_sema :: "nat \<Rightarrow> sem_op \<Rightarrow> 'a BlockingConcurrentQueue \<Rightarrow> 'a BlockingConcurrentQueue" where
  "call_sema t c s = s\<lparr>bq_sema := set_spc t (sem_call c) (bq_sema s)\<rparr>"

subsection \<open>Calls\<close>

text \<open>
  Each operation up to its first call: the producers call the inner queue, the consumers the semaphore. The rest of an operation
  is in \<open>sema_returned\<close>, \<open>take_one_step\<close> and \<open>take_step\<close> below, which the consumers share.
\<close>

definition bq_enqueue :: "nat \<Rightarrow> 'a \<Rightarrow> 'a BlockingConcurrentQueue \<Rightarrow> 'a BlockingConcurrentQueue" where
  "bq_enqueue t item s = set_bpc t (B_Enqueue [item]) s"

definition bq_enqueue_bulk :: "nat \<Rightarrow> 'a list \<Rightarrow> 'a BlockingConcurrentQueue \<Rightarrow> 'a BlockingConcurrentQueue" where
  "bq_enqueue_bulk t items s = set_bpc t (B_Enqueue items) s"

definition bq_try_dequeue :: "nat \<Rightarrow> 'a BlockingConcurrentQueue \<Rightarrow> 'a BlockingConcurrentQueue" where
  "bq_try_dequeue t s = set_bpc t (B_Wait False) (call_sema t Op_tryWait s)"

definition bq_try_dequeue_bulk :: "nat \<Rightarrow> nat \<Rightarrow> 'a BlockingConcurrentQueue \<Rightarrow> 'a BlockingConcurrentQueue" where
  "bq_try_dequeue_bulk t mx s = set_bpc t B_Wait_Many (call_sema t (Op_tryWaitMany (int mx)) s)"

definition bq_wait_dequeue :: "nat \<Rightarrow> 'a BlockingConcurrentQueue \<Rightarrow> 'a BlockingConcurrentQueue" where
  "bq_wait_dequeue t s = set_bpc t (B_Wait True) (call_sema t (Op_wait (- 1)) s)"

definition bq_wait_dequeue_timed :: "nat \<Rightarrow> int \<Rightarrow> 'a BlockingConcurrentQueue \<Rightarrow> 'a BlockingConcurrentQueue" where
  "bq_wait_dequeue_timed t timeout_usecs s = set_bpc t (B_Wait False) (call_sema t (Op_wait timeout_usecs) s)"

definition bq_wait_dequeue_bulk :: "nat \<Rightarrow> nat \<Rightarrow> 'a BlockingConcurrentQueue \<Rightarrow> 'a BlockingConcurrentQueue" where
  "bq_wait_dequeue_bulk t mx s = set_bpc t B_Wait_Many (call_sema t (Op_waitMany (int mx) (- 1)) s)"

definition bq_wait_dequeue_bulk_timed :: "nat \<Rightarrow> nat \<Rightarrow> int \<Rightarrow> 'a BlockingConcurrentQueue \<Rightarrow> 'a BlockingConcurrentQueue" where
  "bq_wait_dequeue_bulk_timed t mx timeout_usecs s = set_bpc t B_Wait_Many (call_sema t (Op_waitMany (int mx) timeout_usecs) s)"

lemmas bq_op_defs = bq_enqueue_def bq_enqueue_bulk_def bq_try_dequeue_def bq_try_dequeue_bulk_def bq_wait_dequeue_def
  bq_wait_dequeue_timed_def bq_wait_dequeue_bulk_def bq_wait_dequeue_bulk_timed_def

fun bq_call :: "nat \<Rightarrow> 'a bq_op \<Rightarrow> 'a BlockingConcurrentQueue \<Rightarrow> 'a BlockingConcurrentQueue" where
  "bq_call t (BQ_enqueue item) = bq_enqueue t item"
| "bq_call t (BQ_enqueue_bulk items) = bq_enqueue_bulk t items"
| "bq_call t BQ_try_dequeue = bq_try_dequeue t"
| "bq_call t (BQ_try_dequeue_bulk mx) = bq_try_dequeue_bulk t mx"
| "bq_call t BQ_wait_dequeue = bq_wait_dequeue t"
| "bq_call t (BQ_wait_dequeue_timed timeout_usecs) = bq_wait_dequeue_timed t timeout_usecs"
| "bq_call t (BQ_wait_dequeue_bulk mx) = bq_wait_dequeue_bulk t mx"
| "bq_call t (BQ_wait_dequeue_bulk_timed mx timeout_usecs) = bq_wait_dequeue_bulk_timed t mx timeout_usecs"

subsection \<open>Steps\<close>

definition inner_enqueue :: "nat \<Rightarrow> 'a list \<Rightarrow> 'a ConcurrentQueue \<Rightarrow> 'a ConcurrentQueue" where
  "inner_enqueue t items q = fold (\<lambda>x q. enqueue q t x) items q"

text \<open>The elements go into the inner queue before the signal; when the inner queue has no memory, nothing is signalled.\<close>

definition enqueue_step ::
  "nat \<Rightarrow> bool \<Rightarrow> 'a list \<Rightarrow> 'a BlockingConcurrentQueue \<Rightarrow> 'a BlockingConcurrentQueue" where
  "enqueue_step t ok items s =
     (if ok
      then set_bpc t B_Signal (call_sema t (Op_signal (int (length items)))
             (s\<lparr>bq_inner := inner_enqueue t items (bq_inner s), bq_all := bq_all s + mset items\<rparr>))
      else set_bpc t B_Idle s)"

definition got_elems :: "nat \<Rightarrow> 'a list \<Rightarrow> 'a ConcurrentQueue \<Rightarrow> 'a BlockingConcurrentQueue \<Rightarrow> 'a BlockingConcurrentQueue" where
  "got_elems t xs q s = s\<lparr>bq_inner := q, bq_got := (bq_got s)[t := bq_got s ! t @ xs]\<rparr>"

definition take_one_step :: "nat \<Rightarrow> 'a BlockingConcurrentQueue \<Rightarrow> 'a BlockingConcurrentQueue" where
  "take_one_step t s =
     (case try_dequeue (bq_inner s) of
        None \<Rightarrow> s
      | Some (x, q) \<Rightarrow> set_bpc t B_Idle (got_elems t [x] q s))"

definition take_step :: "nat \<Rightarrow> nat \<Rightarrow> 'a BlockingConcurrentQueue \<Rightarrow> 'a BlockingConcurrentQueue" where
  "take_step t n s =
     (if n = 0 then set_bpc t B_Idle s
      else case try_dequeue_bulk (bq_inner s) n of (xs, q) \<Rightarrow> set_bpc t (B_Take (n - length xs)) (got_elems t xs q s))"

text \<open>What follows a call of the semaphore that has returned.\<close>

definition sema_returned :: "nat \<Rightarrow> int \<Rightarrow> 'a bq_pc \<Rightarrow> 'a BlockingConcurrentQueue \<Rightarrow> 'a BlockingConcurrentQueue" where
  "sema_returned t r p s =
     (case p of
        B_Signal \<Rightarrow> set_bpc t B_Idle s
      | B_Wait again \<Rightarrow>
          if r > 0 then set_bpc t B_Take_One s
          else if again then call_sema t (Op_wait (- 1)) s else set_bpc t B_Idle s
      | B_Wait_Many \<Rightarrow> set_bpc t (B_Take (nat r)) s
      | _ \<Rightarrow> s)"

definition bq_step :: "nat \<Rightarrow> os_answer \<Rightarrow> bool \<Rightarrow> 'a BlockingConcurrentQueue \<Rightarrow> 'a BlockingConcurrentQueue" where
  "bq_step t a ok s =
     (case bq_pcs s ! t of
        B_Idle \<Rightarrow> s
      | B_Enqueue items \<Rightarrow> enqueue_step t ok items s
      | B_Take_One \<Rightarrow> take_one_step t s
      | B_Take n \<Rightarrow> take_step t n s
      | p \<Rightarrow>
          (case sem_pcs (bq_sema s) ! t of
             S_Ret r \<Rightarrow> sema_returned t r p s
           | _ \<Rightarrow> s\<lparr>bq_sema := sem_step t a (bq_sema s)\<rparr>))"

datatype 'a bq_event = BQ_Step os_answer bool | BQ_Call "'a bq_op"

definition bq_event_step :: "nat \<times> 'a bq_event \<Rightarrow> 'a BlockingConcurrentQueue \<Rightarrow> 'a BlockingConcurrentQueue" where
  "bq_event_step e s =
     (case e of (t, ev) \<Rightarrow>
        if t < length (bq_pcs s) then
          (case ev of
             BQ_Step a ok \<Rightarrow> bq_step t a ok s
           | BQ_Call c \<Rightarrow> (case bq_pcs s ! t of B_Idle \<Rightarrow> bq_call t c s | _ \<Rightarrow> s))
        else s)"

definition bq_run :: "(nat \<times> 'a bq_event) list \<Rightarrow> 'a BlockingConcurrentQueue \<Rightarrow> 'a BlockingConcurrentQueue" where
  "bq_run evs s = fold bq_event_step evs s"

definition BQ_size_approx :: "'a BlockingConcurrentQueue \<Rightarrow> int" where
  "BQ_size_approx s = availableApprox (bq_sema s)"

section \<open>The invariant\<close>

text \<open>Where a thread may be in the semaphore, and how many units it has that it has not yet used.\<close>

fun thread_ok :: "'a bq_pc \<Rightarrow> sem_pc \<Rightarrow> bool" where
  "thread_ok B_Signal q \<longleftrightarrow> is_signal q \<or> q = S_Ret 0"
| "thread_ok (B_Wait _) q \<longleftrightarrow> is_single q \<or> q \<in> {S_Ret 0, S_Ret 1}"
| "thread_ok B_Wait_Many q \<longleftrightarrow> \<not> is_signal q \<and> 0 \<le> sem_ret q"
| "thread_ok _ q \<longleftrightarrow> (\<exists>r. q = S_Ret r)"

fun unused :: "'a bq_pc \<Rightarrow> sem_pc \<Rightarrow> int" where
  "unused (B_Wait _) q = sem_ret q"
| "unused B_Wait_Many q = sem_ret q"
| "unused B_Take_One q = 1"
| "unused (B_Take n) q = int n"
| "unused _ q = 0"

definition bq_inv :: "'a BlockingConcurrentQueue \<Rightarrow> bool" where
  "bq_inv s \<longleftrightarrow>
     sem_inv (bq_sema s) \<and> cq_inv (bq_inner s) \<and>
     length (sem_pcs (bq_sema s)) = length (bq_pcs s) \<and> length (bq_got s) = length (bq_pcs s) \<and>
     (\<forall>t < length (bq_pcs s). thread_ok (bq_pcs s ! t) (sem_pcs (bq_sema s) ! t) \<and>
        taken (bq_sema s) ! t = int (length (bq_got s ! t)) + unused (bq_pcs s ! t) (sem_pcs (bq_sema s) ! t)) \<and>
     bq_all s = cq_elems (bq_inner s) + sum_list (map mset (bq_got s)) \<and>
     given (bq_sema s) + (\<Sum>q\<leftarrow>sem_pcs (bq_sema s). added q) = int (size (bq_all s))"

lemma sum_mset_append:
  "t < length xss \<Longrightarrow> sum_list (map mset (xss[t := xss ! t @ xs])) = sum_list (map mset xss) + mset xs"
proof (induction xss arbitrary: t)
  case (Cons ys yss)
  then show ?case by (cases t) (auto simp: ac_simps)
qed simp

lemma bq_inv_step:
  fixes s s' :: "'a BlockingConcurrentQueue"
  assumes inv: "bq_inv s" and t: "t < length (bq_pcs s)"
    and s': "bq_pcs s' = (bq_pcs s)[t := p']" "sem_pcs (bq_sema s') = (sem_pcs (bq_sema s))[t := q']"
      "taken (bq_sema s') = (taken (bq_sema s))[t := taken (bq_sema s) ! t + d]" "bq_got s' = (bq_got s)[t := bq_got s ! t @ xs]"
    and ok: "sem_inv (bq_sema s')" "cq_inv (bq_inner s')" "thread_ok p' q'"
    and units: "d = int (length xs) + unused p' q' - unused (bq_pcs s ! t) (sem_pcs (bq_sema s) ! t)"
    and elems: "bq_all s' = bq_all s + mset items" "cq_elems (bq_inner s) + mset items = cq_elems (bq_inner s') + mset xs"
    and given: "given (bq_sema s') + added q' = given (bq_sema s) + added (sem_pcs (bq_sema s) ! t) + int (length items)"
  shows "bq_inv s'"
proof -
  have len: "length (sem_pcs (bq_sema s)) = length (bq_pcs s)" "length (bq_got s) = length (bq_pcs s)"
    "length (taken (bq_sema s)) = length (bq_pcs s)"
    using inv by (simp_all add: bq_inv_def sem_inv_def)
  have threads: "thread_ok (bq_pcs s ! u) (sem_pcs (bq_sema s) ! u) \<and>
        taken (bq_sema s) ! u = int (length (bq_got s ! u)) + unused (bq_pcs s ! u) (sem_pcs (bq_sema s) ! u)"
    if "u < length (bq_pcs s)" for u using inv that by (simp add: bq_inv_def)
  have "thread_ok (bq_pcs s' ! u) (sem_pcs (bq_sema s') ! u) \<and>
        taken (bq_sema s') ! u = int (length (bq_got s' ! u)) + unused (bq_pcs s' ! u) (sem_pcs (bq_sema s') ! u)"
    if "u < length (bq_pcs s)" for u
    using threads [OF that] threads [OF t] that t len ok(3) units by (cases "u = t") (simp_all add: s')
  moreover have "(\<Sum>q\<leftarrow>sem_pcs (bq_sema s'). added q) = (\<Sum>q\<leftarrow>sem_pcs (bq_sema s). added q) - added (sem_pcs (bq_sema s) ! t) + added q'"
    unfolding s'(2) using t len by (intro sum_update) simp
  moreover have "sum_list (map mset (bq_got s')) = sum_list (map mset (bq_got s)) + mset xs"
    unfolding s'(4) using t len by (intro sum_mset_append) simp
  moreover have "bq_all s = cq_elems (bq_inner s) + sum_list (map mset (bq_got s))"
    "given (bq_sema s) + (\<Sum>q\<leftarrow>sem_pcs (bq_sema s). added q) = int (size (bq_all s))"
    using inv by (simp_all add: bq_inv_def)
  moreover have "cq_elems (bq_inner s) + mset items + sum_list (map mset (bq_got s)) =
      cq_elems (bq_inner s') + mset xs + sum_list (map mset (bq_got s))" using elems(2) by simp
  ultimately show ?thesis
    using ok len given elems(1) unfolding bq_inv_def by (simp add: s' ac_simps)
qed

lemma bpc_simps [simp]:
  "bq_pcs (set_bpc t p s) = (bq_pcs s)[t := p]" "bq_inner (set_bpc t p s) = bq_inner s" "bq_sema (set_bpc t p s) = bq_sema s"
  "bq_got (set_bpc t p s) = bq_got s" "bq_all (set_bpc t p s) = bq_all s"
  "bq_pcs (call_sema t c s) = bq_pcs s" "bq_inner (call_sema t c s) = bq_inner s"
  "bq_sema (call_sema t c s) = set_spc t (sem_call c) (bq_sema s)" "bq_got (call_sema t c s) = bq_got s" "bq_all (call_sema t c s) = bq_all s"
  "bq_pcs (got_elems t xs q s) = bq_pcs s" "bq_inner (got_elems t xs q s) = q" "bq_sema (got_elems t xs q s) = bq_sema s"
  "bq_got (got_elems t xs q s) = (bq_got s)[t := bq_got s ! t @ xs]" "bq_all (got_elems t xs q s) = bq_all s"
  by (simp_all add: set_bpc_def call_sema_def got_elems_def)

lemma sem_call_inv:
  assumes "sem_inv s" "t < length (sem_pcs s)" "sem_pcs s ! t = S_Ret r" "op_ok c"
  shows "sem_inv (set_spc t (sem_call c) s)"
  using spc_inv [OF assms(1,2)] sem_call_ok [OF assms(4)] assms(3) by simp

lemma sem_call_kind: "sem_ret (sem_call c) = 0" "is_signal (sem_call c) \<longleftrightarrow> (\<exists>n. c = Op_signal n)"
  "is_single (sem_call c) \<longleftrightarrow> c = Op_tryWait \<or> (\<exists>n. c = Op_wait n)" "added (sem_call c) = (case c of Op_signal n \<Rightarrow> n | _ \<Rightarrow> 0)"
  by (cases c; simp)+

text \<open>A step that moves a thread on and changes neither the semaphore nor the queue.\<close>

lemma bq_local:
  assumes "bq_inv s" "t < length (bq_pcs s)" "thread_ok p' (sem_pcs (bq_sema s) ! t)"
    "unused p' (sem_pcs (bq_sema s) ! t) = unused (bq_pcs s ! t) (sem_pcs (bq_sema s) ! t)"
  shows "bq_inv (set_bpc t p' s)"
proof -
  have "sem_inv (bq_sema s)" "cq_inv (bq_inner s)" using assms(1) by (simp_all add: bq_inv_def)
  then show ?thesis
    by (intro bq_inv_step [OF assms(1,2), where p' = p' and q' = "sem_pcs (bq_sema s) ! t" and d = 0 and xs = "[]" and items = "[]"])
      (use assms in simp_all)
qed

text \<open>A call of the semaphore, together with elements enqueued.\<close>

lemma bq_call_inv:
  assumes "bq_inv s" "t < length (bq_pcs s)" "sem_pcs (bq_sema s) ! t = S_Ret r" "op_ok c" "thread_ok p' (sem_call c)"
    "unused (bq_pcs s ! t) (S_Ret r) = 0" "unused p' (sem_call c) = 0"
    "bq_pcs s1 = bq_pcs s" "bq_sema s1 = bq_sema s" "bq_got s1 = bq_got s" "cq_inv (bq_inner s1)"
    "bq_all s1 = bq_all s + mset items" "cq_elems (bq_inner s1) = cq_elems (bq_inner s) + mset items"
    "added (sem_call c) = int (length items)"
  shows "bq_inv (set_bpc t p' (call_sema t c s1))"
proof -
  have "sem_inv (bq_sema s)" "length (sem_pcs (bq_sema s)) = length (bq_pcs s)" using assms(1) by (simp_all add: bq_inv_def)
  then have "sem_inv (set_spc t (sem_call c) (bq_sema s))" using sem_call_inv assms(2-4) by simp
  then show ?thesis
    by (intro bq_inv_step [OF assms(1,2), where p' = p' and q' = "sem_call c" and d = 0 and xs = "[]" and items = items])
      (use assms in auto)
qed

lemma thread_at:
  assumes "bq_inv s" "t < length (bq_pcs s)"
  shows "thread_ok (bq_pcs s ! t) (sem_pcs (bq_sema s) ! t)" "t < length (sem_pcs (bq_sema s))" "sem_inv (bq_sema s)" "cq_inv (bq_inner s)"
  using assms by (simp_all add: bq_inv_def)

lemma bq_call_ok:
  assumes "bq_inv s" "t < length (bq_pcs s)" "bq_pcs s ! t = B_Idle"
  shows "bq_inv (bq_call t c s)"
proof -
  obtain r where r: "sem_pcs (bq_sema s) ! t = S_Ret r" using thread_at(1) [OF assms(1,2)] assms(3) by auto
  note call = bq_call_inv [OF assms(1,2) r, where items = "[]", OF _ _ _ _ refl refl refl]
  show ?thesis
    using bq_local [OF assms(1,2)] call thread_at(4) [OF assms(1,2)] r assms(3)
    by (cases c) (auto simp: bq_op_defs sem_call_kind)
qed

lemma enqueue_step_inv:
  assumes "bq_inv s" "t < length (bq_pcs s)" "bq_pcs s ! t = B_Enqueue items"
  shows "bq_inv (enqueue_step t ok items s)"
proof -
  obtain r where r: "sem_pcs (bq_sema s) ! t = S_Ret r" using thread_at(1) [OF assms(1,2)] assms(3) by auto
  have inner: "cq_inv (inner_enqueue t items (bq_inner s))" "cq_elems (inner_enqueue t items (bq_inner s)) = cq_elems (bq_inner s) + mset items"
    using cq.enq_all [OF thread_at(4) [OF assms(1,2)]] by (simp_all add: inner_enqueue_def)
  show ?thesis
  proof (cases ok)
    case True
    then show ?thesis
      unfolding enqueue_step_def
      by (simp, intro bq_call_inv [OF assms(1,2) r, where items = items]) (use assms(3) inner in simp_all)
  next
    case False
    then show ?thesis using bq_local [OF assms(1,2)] r assms(3) by (auto simp: enqueue_step_def)
  qed
qed

lemma got_inv:
  assumes "bq_inv s" "t < length (bq_pcs s)" "cq_inv q" "cq_elems (bq_inner s) = cq_elems q + mset xs"
    "thread_ok p' (sem_pcs (bq_sema s) ! t)"
    "unused (bq_pcs s ! t) (sem_pcs (bq_sema s) ! t) = int (length xs) + unused p' (sem_pcs (bq_sema s) ! t)"
  shows "bq_inv (set_bpc t p' (got_elems t xs q s))"
  by (intro bq_inv_step [OF assms(1,2), where p' = p' and q' = "sem_pcs (bq_sema s) ! t" and d = 0 and xs = xs and items = "[]"])
    (use assms thread_at(3) [OF assms(1,2)] in simp_all)

lemma take_one_step_inv:
  assumes "bq_inv s" "t < length (bq_pcs s)" "bq_pcs s ! t = B_Take_One"
  shows "bq_inv (take_one_step t s)"
proof (cases "try_dequeue (bq_inner s)")
  case None
  then show ?thesis using assms(1) by (simp add: take_one_step_def)
next
  case (Some v)
  obtain x q where v: "v = (x, q)" by (cases v)
  have "cq_inv q \<and> cq_elems (bq_inner s) = add_mset x (cq_elems q)"
    using try_dequeue_correct [OF thread_at(4) [OF assms(1,2)]] Some v by simp
  then have "bq_inv (set_bpc t B_Idle (got_elems t [x] q s))"
    by (intro got_inv [OF assms(1,2)]) (use assms(3) thread_at(1) [OF assms(1,2)] in auto)
  then show ?thesis using Some v by (simp add: take_one_step_def)
qed

lemma take_step_inv:
  assumes "bq_inv s" "t < length (bq_pcs s)" "bq_pcs s ! t = B_Take n"
  shows "bq_inv (take_step t n s)"
proof (cases "n = 0")
  case True
  then show ?thesis
    using bq_local [OF assms(1,2), of B_Idle] thread_at(1) [OF assms(1,2)] assms(3) by (auto simp: take_step_def)
next
  case False
  obtain xs q where b: "try_dequeue_bulk (bq_inner s) n = (xs, q)" by (cases "try_dequeue_bulk (bq_inner s) n")
  note spec = bulk_parts [OF thread_at(4) [OF assms(1,2)] b]
  have "bq_inv (set_bpc t (B_Take (n - length xs)) (got_elems t xs q s))"
    by (intro got_inv [OF assms(1,2)]) (use assms(3) thread_at(1) [OF assms(1,2)] spec in \<open>auto simp: ac_simps\<close>)
  then show ?thesis using b False by (simp add: take_step_def)
qed

lemma sema_returned_inv:
  assumes "bq_inv s" "t < length (bq_pcs s)" "sem_pcs (bq_sema s) ! t = S_Ret r"
  shows "bq_inv (sema_returned t r (bq_pcs s ! t) s)"
proof (cases "bq_pcs s ! t")
  case B_Signal
  then show ?thesis using bq_local [OF assms(1,2)] assms(3) by (simp add: sema_returned_def)
next
  case (B_Wait again)
  then have r: "r = 0 \<or> r = 1" using thread_at(1) [OF assms(1,2)] assms(3) by simp
  have "set_bpc t (B_Wait again) (call_sema t (Op_wait (- 1)) s) = call_sema t (Op_wait (- 1)) s"
    using B_Wait assms(2) by (simp add: set_bpc_def call_sema_def list_update_same_conv)
  moreover have "r = 0 \<Longrightarrow> bq_inv (set_bpc t (B_Wait again) (call_sema t (Op_wait (- 1)) s))"
    by (rule bq_call_inv [OF assms(1,2,3), where items = "[]"]) (use B_Wait thread_at(4) [OF assms(1,2)] in simp_all)
  ultimately show ?thesis
    using B_Wait r bq_local [OF assms(1,2)] assms(3) by (auto simp: sema_returned_def)
next
  case B_Wait_Many
  then have "0 \<le> r" using thread_at(1) [OF assms(1,2)] assms(3) by simp
  then show ?thesis using B_Wait_Many bq_local [OF assms(1,2)] assms(3) by (simp add: sema_returned_def)
qed (use assms in \<open>simp_all add: sema_returned_def\<close>)

lemma sema_step_inv:
  assumes "bq_inv s" "t < length (bq_pcs s)" "bq_pcs s ! t \<in> {B_Signal, B_Wait_Many} \<or> (\<exists>again. bq_pcs s ! t = B_Wait again)"
    "\<And>r. sem_pcs (bq_sema s) ! t \<noteq> S_Ret r"
  shows "bq_inv (s\<lparr>bq_sema := sem_step t a (bq_sema s)\<rparr>)"
proof -
  let ?q = "sem_pcs (bq_sema s) ! t" and ?q' = "sem_pcs (sem_step t a (bq_sema s)) ! t"
  note at = thread_at [OF assms(1,2)]
  have q: "sem_ret ?q = 0" using assms(4) by (cases ?q) auto
  have nonneg: "0 \<le> sem_ret ?q'" by (rule sem_step_ret_nonneg [OF at(3,2) assms(4)])
  have kind: "is_signal ?q \<Longrightarrow> ?q' = S_Ret 0 \<or> (\<exists>n. ?q' = SG_Post n)" "\<not> is_signal ?q \<Longrightarrow> \<not> is_signal ?q'"
    "is_single ?q \<Longrightarrow> is_single ?q' \<or> ?q' \<in> {S_Ret 0, S_Ret 1}"
    using sem_step_kind [OF at(2)] by blast+
  have "\<not> is_signal ?q' \<Longrightarrow> added ?q' = 0" by (cases ?q') auto
  then have added: "added ?q' = 0" using kind(1,2) by (cases "is_signal ?q") auto
  have "thread_ok (bq_pcs s ! t) ?q' \<and> sem_ret ?q' = unused (bq_pcs s ! t) ?q' - unused (bq_pcs s ! t) ?q"
    using assms(3,4) at(1) kind nonneg q by auto
  then show ?thesis
    by (intro bq_inv_step [OF assms(1,2), where p' = "bq_pcs s ! t" and q' = ?q' and d = "sem_ret ?q'" and xs = "[]" and items = "[]"])
      (use at assms(4) added sem_step_pcs [OF at(2)] sem_step_taken [OF at(2) assms(4)] sem_step_given sem_step_inv [OF at(3,2)]
        in \<open>simp_all\<close>)
qed

lemma bq_step_inv:
  assumes "bq_inv s" "t < length (bq_pcs s)"
  shows "bq_inv (bq_step t a ok s)"
  using assms(1) enqueue_step_inv [OF assms] take_one_step_inv [OF assms] take_step_inv [OF assms] sema_returned_inv [OF assms]
    sema_step_inv [OF assms]
  by (cases "bq_pcs s ! t"; cases "sem_pcs (bq_sema s) ! t") (auto simp: bq_step_def)

section \<open>Every run\<close>

lemma bq_event_step_inv: "bq_inv s \<Longrightarrow> bq_inv (bq_event_step e s)"
  by (auto simp: bq_event_step_def bq_step_inv bq_call_ok split: prod.splits bq_event.splits bq_pc.splits)

lemma bq_run_inv: "bq_inv s \<Longrightarrow> bq_inv (bq_run evs s)"
  by (induction evs arbitrary: s) (simp_all add: bq_run_def bq_event_step_inv)

lemma bq_start_inv:
  assumes "threads < 2 ^ 31"
  shows "bq_inv (new_BlockingConcurrentQueue threads maxSpins)"
proof -
  have "sem_inv (new_LightweightSemaphore threads 0 maxSpins)" using assms by (intro sem_start_inv) simp_all
  moreover have "sum_list (map mset (replicate threads [])) = {#}" by (induction threads) simp_all
  moreover have "(\<Sum>q\<leftarrow>replicate threads (S_Ret 0). added q) = 0" by (induction threads) simp_all
  moreover have "cq_elems cq_empty = {#}" by (simp add: cq_elems_def cq_empty_def)
  ultimately show ?thesis
    by (simp add: bq_inv_def new_BlockingConcurrentQueue_def cq_inv_empty) (simp add: new_LightweightSemaphore_def)
qed

lemma length_bq_pcs_step: "length (bq_pcs (bq_event_step e s)) = length (bq_pcs s)"
proof -
  have "length (bq_pcs (bq_call t c s)) = length (bq_pcs s)" for t c by (cases c) (simp_all add: bq_op_defs)
  moreover have "length (bq_pcs (bq_step t a ok s)) = length (bq_pcs s)" for t a ok
    by (cases "bq_pcs s ! t"; cases "sem_pcs (bq_sema s) ! t")
      (auto simp: bq_step_def enqueue_step_def take_one_step_def take_step_def sema_returned_def split: option.splits prod.splits)
  ultimately show ?thesis by (auto simp: bq_event_step_def split: prod.splits bq_event.splits bq_pc.splits)
qed

lemma length_bq_pcs_run: "length (bq_pcs (bq_run evs s)) = length (bq_pcs s)"
  by (induction evs arbitrary: s) (simp_all add: bq_run_def length_bq_pcs_step)

lemma size_sum_mset: "int (size (sum_list (map mset xss))) = (\<Sum>xs\<leftarrow>xss. int (length xs))"
  by (induction xss) simp_all

definition total_unused :: "'a BlockingConcurrentQueue \<Rightarrow> int" where
  "total_unused s = (\<Sum>t < length (bq_pcs s). unused (bq_pcs s ! t) (sem_pcs (bq_sema s) ! t))"

text \<open>The elements in the inner queue: those not yet signalled, those whose units nobody has, and those whose units a thread has.\<close>

lemma inner_size:
  assumes "bq_inv s"
  shows "int (size (cq_elems (bq_inner s))) =
    (\<Sum>q\<leftarrow>sem_pcs (bq_sema s). added q) + (given (bq_sema s) - sum_list (taken (bq_sema s))) + total_unused s"
proof -
  let ?n = "length (bq_pcs s)"
  have len: "length (bq_got s) = ?n" "length (taken (bq_sema s)) = ?n" using assms by (simp_all add: bq_inv_def sem_inv_def)
  have "sum_list (taken (bq_sema s)) = (\<Sum>t < ?n. taken (bq_sema s) ! t)" by (simp add: sum_list_sum_nth len atLeast0LessThan)
  also have "\<dots> = (\<Sum>t < ?n. int (length (bq_got s ! t)) + unused (bq_pcs s ! t) (sem_pcs (bq_sema s) ! t))"
    using assms by (intro sum.cong) (simp_all add: bq_inv_def)
  also have "\<dots> = (\<Sum>xs\<leftarrow>bq_got s. int (length xs)) + total_unused s"
    by (simp add: sum.distrib total_unused_def sum_list_sum_nth len atLeast0LessThan)
  finally have "sum_list (taken (bq_sema s)) = (\<Sum>xs\<leftarrow>bq_got s. int (length xs)) + total_unused s" .
  moreover have "given (bq_sema s) + (\<Sum>q\<leftarrow>sem_pcs (bq_sema s). added q) =
      int (size (cq_elems (bq_inner s))) + (\<Sum>xs\<leftarrow>bq_got s. int (length xs))"
    using assms by (simp add: bq_inv_def flip: size_sum_mset)
  ultimately show ?thesis by linarith
qed

lemma unused_nonneg: "thread_ok p q \<Longrightarrow> 0 \<le> unused p q"
  by (cases p; cases q) auto

lemma added_nonneg: "\<forall>q \<in> set qs. pc_ok q \<Longrightarrow> 0 \<le> (\<Sum>q\<leftarrow>qs. added q)"
proof -
  have "pc_ok q \<Longrightarrow> 0 \<le> added q" for q by (cases q) simp_all
  then show "\<forall>q \<in> set qs. pc_ok q \<Longrightarrow> 0 \<le> (\<Sum>q\<leftarrow>qs. added q)" by (induction qs) auto
qed

lemma sum_list_map_zero: "\<forall>x \<in> set xs. f x = 0 \<Longrightarrow> (\<Sum>x\<leftarrow>xs. f x) = (0 :: int)"
  by (induction xs) simp_all

lemma units_are_there:
  assumes "bq_inv s" "t < length (bq_pcs s)"
  shows "unused (bq_pcs s ! t) (sem_pcs (bq_sema s) ! t) \<le> int (size (cq_elems (bq_inner s)))"
proof -
  have sem: "sem_inv (bq_sema s)" using assms(1) by (simp add: bq_inv_def)
  have "unused (bq_pcs s ! t) (sem_pcs (bq_sema s) ! t) \<le> total_unused s"
    unfolding total_unused_def using assms unused_nonneg by (intro member_le_sum) (auto simp: bq_inv_def)
  moreover have "sum_list (taken (bq_sema s)) \<le> given (bq_sema s)"
    using units_accounted [OF sem] sum_owed_ge [of "sem_pcs (bq_sema s)"] sem by (auto simp: sem_inv_def)
  moreover have "0 \<le> (\<Sum>q\<leftarrow>sem_pcs (bq_sema s). added q)" using sem by (intro added_nonneg) (simp add: sem_inv_def)
  ultimately show ?thesis using inner_size [OF assms(1)] by linarith
qed

text \<open>
  (C12) In every interleaving of any number of producers and consumers of a blocking queue, with any failures of
  allocations, time-outs and interruptions, every element enqueued is in the queue or has been delivered to exactly one thread. A thread that has
  acquired units finds as many elements: the loops after the wait, which have no bound in the source, are never
  entered without the elements they wait for.
\<close>

theorem blocking_queue_exactly_once:
  fixes s :: "'a BlockingConcurrentQueue"
  assumes "threads < 2 ^ 31" "s = bq_run evs (new_BlockingConcurrentQueue threads maxSpins)"
  shows "bq_all s = cq_elems (bq_inner s) + sum_list (map mset (bq_got s)) \<and>
    (\<forall>t < threads. bq_pcs s ! t = B_Take_One \<longrightarrow> try_dequeue (bq_inner s) \<noteq> None) \<and>
    (\<forall>t < threads. \<forall>n. bq_pcs s ! t = B_Take n \<longrightarrow> n \<le> size (cq_elems (bq_inner s)))"
proof -
  have inv: "bq_inv s" unfolding assms(2) by (rule bq_run_inv [OF bq_start_inv [OF assms(1)]])
  have len: "length (bq_pcs s) = threads"
    unfolding assms(2) length_bq_pcs_run by (simp add: new_BlockingConcurrentQueue_def)
  have "n \<le> size (cq_elems (bq_inner s))" if "t < threads" "bq_pcs s ! t = B_Take n" for t n
    using units_are_there [OF inv, of t] that len by simp
  moreover have "try_dequeue (bq_inner s) \<noteq> None" if "t < threads" "bq_pcs s ! t = B_Take_One" for t
    using units_are_there [OF inv, of t] that len by (auto simp: try_dequeue_None)
  ultimately show ?thesis using inv by (simp add: bq_inv_def)
qed

text \<open>A consumer waits; then a producer enqueues two elements and the consumer takes one.\<close>

definition example_bq_events :: "(nat \<times> string bq_event) list" where
  "example_bq_events =
     (0, BQ_Call BQ_wait_dequeue) # replicate 3 (0, BQ_Step OS_Ok True) @
     (1, BQ_Call (BQ_enqueue_bulk [''a'', ''b''])) # replicate 5 (1, BQ_Step OS_Ok True) @
     replicate 2 (0, BQ_Step OS_Ok True)"

lemma all_less_two: "(\<forall>t < 2. P t) \<longleftrightarrow> P 0 \<and> P (1 :: nat)"
  by (auto simp: less_2_cases_iff)

theorem blocking_queue_exactly_once_witness:
  "bq_pcs (bq_run example_bq_events (new_BlockingConcurrentQueue 2 0)) ! 0 = B_Take_One \<and>
   try_dequeue (bq_inner (bq_run example_bq_events (new_BlockingConcurrentQueue 2 0))) \<noteq> None"
proof -
  have "bq_pcs (bq_run example_bq_events (new_BlockingConcurrentQueue 2 0)) ! 0 = B_Take_One" by code_simp
  then show ?thesis using blocking_queue_exactly_once [of 2 _ example_bq_events 0, OF _ refl] by (simp add: all_less_two)
qed

text \<open>
  (C19) A consumer blocks only on an empty queue: when every thread is outside the queue or blocked in the system semaphore, and one is blocked, there
  is no element in the queue. When all threads are outside, \<^verbatim>\<open>size_approx\<close> is the number of elements.
\<close>

theorem blocking_queue_no_stranded_element:
  fixes s :: "'a BlockingConcurrentQueue"
  assumes "threads < 2 ^ 31" "s = bq_run evs (new_BlockingConcurrentQueue threads maxSpins)"
    and rest: "\<forall>t < threads. bq_pcs s ! t = B_Idle \<or> sem_pcs (bq_sema s) ! t = WP_Wait \<or> (\<exists>n. sem_pcs (bq_sema s) ! t = WM_Wait n)"
    and zero: "m_sema (bq_sema s) = 0"
  shows "if \<forall>t < threads. bq_pcs s ! t = B_Idle then BQ_size_approx s = int (size (cq_elems (bq_inner s)))
    else cq_elems (bq_inner s) = {#}"
proof -
  let ?qs = "sem_pcs (bq_sema s)"
  have inv: "bq_inv s" unfolding assms(2) by (rule bq_run_inv [OF bq_start_inv [OF assms(1)]])
  have sem: "sem_inv (bq_sema s)" using inv by (simp add: bq_inv_def)
  have len: "length (bq_pcs s) = threads" "length ?qs = threads"
    using inv unfolding assms(2) length_bq_pcs_run by (simp_all add: new_BlockingConcurrentQueue_def bq_inv_def length_bq_pcs_run)
  have at: "at_rest (?qs ! t) \<and> added (?qs ! t) = 0 \<and> unused (bq_pcs s ! t) (?qs ! t) = 0 \<and> waiting (?qs ! t) = (if bq_pcs s ! t = B_Idle then 0 else 1)"
    if "t < threads" for t
    using rest that thread_at(1) [OF inv, of t] len by (cases "bq_pcs s ! t") auto
  then have "\<forall>q \<in> set ?qs. at_rest q" "\<forall>q \<in> set ?qs. added q = 0" using len by (auto simp: in_set_conv_nth)
  then have sums: "(\<Sum>q\<leftarrow>?qs. owed q) = 0" "(\<Sum>q\<leftarrow>?qs. acquired q) = 0" "(\<Sum>q\<leftarrow>?qs. added q) = 0"
    using at_rest_sums sum_list_map_zero by blast+
  have "total_unused s = 0" unfolding total_unused_def using at len by (intro sum.neutral) simp
  then have size: "int (size (cq_elems (bq_inner s))) = max 0 (m_count (bq_sema s))"
    using inner_size [OF inv] units_accounted [OF sem] sums zero by simp
  show ?thesis
  proof (cases "\<forall>t < threads. bq_pcs s ! t = B_Idle")
    case True
    then show ?thesis using size by (simp add: BQ_size_approx_def availableApprox_def)
  next
    case False
    then obtain t where "t < threads" "bq_pcs s ! t \<noteq> B_Idle" by blast
    then have "1 \<le> (\<Sum>q\<leftarrow>?qs. waiting q)"
      using at [of t] sum_update [of t ?qs waiting "S_Ret 0"] sum_waiting_le(1) [of "?qs[t := S_Ret 0]"] len by simp
    then have "m_count (bq_sema s) < 0" using sem sums zero by (simp add: sem_inv_def max_def split: if_splits)
    then have "cq_elems (bq_inner s) = {#}" using size by simp
    then show ?thesis using False by auto
  qed
qed

theorem blocking_queue_no_stranded_element_witness:
  "cq_elems (bq_inner (bq_run (take 4 example_bq_events) (new_BlockingConcurrentQueue 2 0))) = {#} \<and>
   BQ_size_approx (bq_run (example_bq_events @ [(0, BQ_Step OS_Ok True)]) (new_BlockingConcurrentQueue 2 0)) =
     int (size (cq_elems (bq_inner (bq_run (example_bq_events @ [(0, BQ_Step OS_Ok True)]) (new_BlockingConcurrentQueue 2 0)))))"
proof -
  let ?w = "bq_run (take 4 example_bq_events) (new_BlockingConcurrentQueue 2 0)"
  let ?i = "bq_run (example_bq_events @ [(0, BQ_Step OS_Ok True)]) (new_BlockingConcurrentQueue 2 0)"
  have w: "bq_pcs ?w = [B_Wait True, B_Idle]" "sem_pcs (bq_sema ?w) = [WP_Wait, S_Ret 0]" "m_sema (bq_sema ?w) = 0" by code_simp+
  have i: "bq_pcs ?i = [B_Idle, B_Idle]" "m_sema (bq_sema ?i) = 0" by code_simp+
  have "cq_elems (bq_inner ?w) = {#}"
    using blocking_queue_no_stranded_element [of 2 ?w "take 4 example_bq_events" 0] by (simp add: w all_less_two)
  moreover have "BQ_size_approx ?i = int (size (cq_elems (bq_inner ?i)))"
    using blocking_queue_no_stranded_element [of 2 ?i "example_bq_events @ [(0, BQ_Step OS_Ok True)]" 0] by (simp add: i all_less_two)
  ultimately show ?thesis by blast
qed

end
