(* ===== verification/Thread_Pool.thy ===== *)
theory Thread_Pool
  imports DKV_Prelude "HOL-Library.Multiset"
begin

text \<open>
  The thread pool of \<^verbatim>\<open>src/utils/thread-pool/thread_pool.hpp\<close>, which runs the key transfers of a
  volume server. The state holds the fields of the class and, for every worker thread, where it is
  in the loop of \<^verbatim>\<open>worker()\<close>. Transitions are the points between which other threads can run:
  \<^verbatim>\<open>push_task\<close> counts the task before it takes the queue's mutex, a worker reads \<^verbatim>\<open>running\<close> and
  \<^verbatim>\<open>paused\<close>, then pops under the mutex, executes, and counts down.

  \<^verbatim>\<open>ui32\<close> is \<^verbatim>\<open>std::uint_fast32_t\<close>, 64 bits wide with glibc on x86-64.
\<close>

section \<open>State\<close>

datatype 'f worker = At_Loop | Past_Pause | Executing 'f | Exited

record 'f thread_pool =
  paused :: bool
  running :: bool
  tasks :: "'f list"
  pushing :: "'f list"
  tasks_total :: u64
  thread_count :: nat
  workers :: "'f worker list"

definition thread_pool_init :: "nat \<Rightarrow> nat \<Rightarrow> 'f thread_pool" where
  "thread_pool_init hardware_concurrency n =
     (let count = (if n = 0 then hardware_concurrency else n)
      in \<lparr>paused = False, running = True, tasks = [], pushing = [], tasks_total = 0,
          thread_count = count, workers = replicate count At_Loop\<rparr>)"

section \<open>Member functions\<close>

definition get_tasks_queued :: "'f thread_pool \<Rightarrow> u64" where
  "get_tasks_queued p = of_nat (length (tasks p))"

definition get_tasks_running :: "'f thread_pool \<Rightarrow> u64" where
  "get_tasks_running p = tasks_total p - get_tasks_queued p"

definition push_task_count :: "'f \<Rightarrow> 'f thread_pool \<Rightarrow> 'f thread_pool" where
  "push_task_count f p = p\<lparr>tasks_total := tasks_total p + 1, pushing := pushing p @ [f]\<rparr>"

definition push_task_queue :: "'f \<Rightarrow> 'f thread_pool \<Rightarrow> 'f thread_pool" where
  "push_task_queue f p = p\<lparr>pushing := remove1 f (pushing p), tasks := tasks p @ [f]\<rparr>"

definition push_task :: "'f \<Rightarrow> 'f thread_pool \<Rightarrow> 'f thread_pool" where
  "push_task f p = push_task_queue f (push_task_count f p)"

definition pop_task :: "'f thread_pool \<Rightarrow> ('f \<times> 'f thread_pool) option" where
  "pop_task p = (case tasks p of [] \<Rightarrow> None | f # fs \<Rightarrow> Some (f, p\<lparr>tasks := fs\<rparr>))"

text \<open>The condition on which the polling loop of \<^verbatim>\<open>wait_for_tasks\<close> ends.\<close>

definition wait_for_tasks_done :: "'f thread_pool \<Rightarrow> bool" where
  "wait_for_tasks_done p \<longleftrightarrow> (if \<not> paused p then tasks_total p = 0 else get_tasks_running p = 0)"

text \<open>One pass of worker \<open>i\<close> between two atomic accesses.\<close>

datatype 'f pool_event = Pushed 'f | Completed 'f | Internal

definition put_worker :: "nat \<Rightarrow> 'f worker \<Rightarrow> 'f thread_pool \<Rightarrow> 'f thread_pool" where
  "put_worker i w p = p\<lparr>workers := (workers p)[i := w]\<rparr>"

definition worker_step :: "nat \<Rightarrow> 'f thread_pool \<Rightarrow> 'f pool_event \<times> 'f thread_pool" where
  "worker_step i p =
     (case workers p ! i of
        At_Loop \<Rightarrow>
          if \<not> running p then (Internal, put_worker i Exited p)
          else if \<not> paused p then (Internal, put_worker i Past_Pause p)
          else (Internal, p)
      | Past_Pause \<Rightarrow>
          (case pop_task p of
             None \<Rightarrow> (Internal, put_worker i At_Loop p)
           | Some (f, p') \<Rightarrow> (Internal, put_worker i (Executing f) p'))
      | Executing f \<Rightarrow>
          (Completed f, put_worker i At_Loop (p\<lparr>tasks_total := tasks_total p - 1\<rparr>))
      | Exited \<Rightarrow> (Internal, p))"

inductive pool_step :: "'f thread_pool \<Rightarrow> 'f pool_event \<Rightarrow> 'f thread_pool \<Rightarrow> bool" where
  push_count: "pool_step p (Pushed f) (push_task_count f p)"
| push_queue: "f \<in> set (pushing p) \<Longrightarrow> pool_step p Internal (push_task_queue f p)"
| work: "i < length (workers p) \<Longrightarrow> worker_step i p = (ev, p') \<Longrightarrow> pool_step p ev p'"
| set_paused: "pool_step p Internal (p\<lparr>paused := b\<rparr>)"
| stop: "pool_step p Internal (p\<lparr>running := False\<rparr>)"

text \<open>
  \<^verbatim>\<open>reset\<close>: pause, wait, stop and join the workers, then start new ones; the queued tasks stay.
  Joining lets each worker in turn run to the end of its loop, which once \<^verbatim>\<open>running\<close> is false
  takes at most three steps (\<open>join_worker_exits\<close>). \<open>reset\<close> is applied to a state in which the
  wait has ended (\<open>None\<close> otherwise: the call is still waiting).
\<close>

fun join_worker :: "nat \<Rightarrow> nat \<Rightarrow> 'f thread_pool \<Rightarrow> 'f pool_event list \<times> 'f thread_pool" where
  "join_worker 0 i p = ([], p)"
| "join_worker (Suc fuel) i p =
     (if workers p ! i = Exited then ([], p)
      else case worker_step i p of (ev, p') \<Rightarrow>
        (case join_worker fuel i p' of (evs, p'') \<Rightarrow> (ev # evs, p'')))"

fun join_workers :: "nat list \<Rightarrow> 'f thread_pool \<Rightarrow> 'f pool_event list \<times> 'f thread_pool" where
  "join_workers [] p = ([], p)"
| "join_workers (i # is) p =
     (case join_worker 3 i p of (evs, p') \<Rightarrow>
        (case join_workers is p' of (evs', p'') \<Rightarrow> (evs @ evs', p'')))"

definition destroy_threads :: "'f thread_pool \<Rightarrow> 'f pool_event list \<times> 'f thread_pool" where
  "destroy_threads p = join_workers [0..<thread_count p] p"

definition create_threads :: "'f thread_pool \<Rightarrow> 'f thread_pool" where
  "create_threads p = p\<lparr>workers := replicate (thread_count p) At_Loop\<rparr>"

definition pool_reset :: "nat \<Rightarrow> nat \<Rightarrow> 'f thread_pool \<Rightarrow> ('f pool_event list \<times> 'f thread_pool) option" where
  "pool_reset hardware_concurrency n p =
     (let was_paused = paused p; p1 = p\<lparr>paused := True\<rparr>
      in if \<not> wait_for_tasks_done p1 then None
         else case destroy_threads (p1\<lparr>running := False\<rparr>) of (evs, p2) \<Rightarrow>
           Some (evs, create_threads
             (p2\<lparr>thread_count := (if n = 0 then hardware_concurrency else n),
                 paused := was_paused, running := True\<rparr>)))"

text \<open>The destructor: the tasks left are those a paused pool still had in its queue.\<close>

definition destroy_thread_pool :: "'f thread_pool \<Rightarrow> ('f pool_event list \<times> 'f thread_pool) option" where
  "destroy_thread_pool p =
     (if \<not> wait_for_tasks_done p then None else Some (destroy_threads (p\<lparr>running := False\<rparr>)))"

section \<open>Blocks of a parallel loop\<close>

text \<open>
  The ranges \<^verbatim>\<open>parallelize_loop\<close> submits, for an index type wide enough for its computations.
  Without threads the division by \<^verbatim>\<open>num_blocks\<close> is undefined.
\<close>

definition loop_block :: "int \<Rightarrow> int \<Rightarrow> nat \<Rightarrow> nat \<Rightarrow> nat \<Rightarrow> int \<times> int" where
  "loop_block the_first_index last_index num_blocks block_size t =
     (int (t * block_size) + the_first_index,
      if t = num_blocks - 1 then last_index + 1
      else int ((t + 1) * block_size) + the_first_index)"

definition parallelize_loop :: "nat \<Rightarrow> int \<Rightarrow> int \<Rightarrow> nat \<Rightarrow> fault + (int \<times> int) list" where
  "parallelize_loop threads first_index index_after_last num_blocks =
     (if first_index = index_after_last then Inr []
      else let the_first_index = min first_index index_after_last;
               last_index = max first_index index_after_last - 1;
               nb = (if num_blocks = 0 then threads else num_blocks);
               total_size = nat (last_index - the_first_index + 1)
           in if nb = 0 then Inl Undefined_Behaviour
              else let bs = total_size div nb
                   in if bs = 0
                      then let nb' = (if total_size > 1 then total_size else 1)
                           in Inr (map (loop_block the_first_index last_index nb' 1) [0..<nb'])
                      else Inr (map (loop_block the_first_index last_index nb bs) [0..<nb]))"

section \<open>Every task is executed exactly once\<close>

fun executing :: "'f worker \<Rightarrow> 'f multiset" where
  "executing (Executing f) = {#f#}"
| "executing _ = {#}"

definition in_flight :: "'f thread_pool \<Rightarrow> 'f multiset" where
  "in_flight p = sum_list (map executing (workers p))"

definition unfinished :: "'f thread_pool \<Rightarrow> 'f multiset" where
  "unfinished p = mset (pushing p) + mset (tasks p) + in_flight p"

definition pool_inv :: "'f thread_pool \<Rightarrow> bool" where
  "pool_inv p \<longleftrightarrow> tasks_total p = of_nat (size (unfinished p))"

fun completed :: "'f pool_event list \<Rightarrow> 'f multiset" where
  "completed [] = {#}"
| "completed (Completed f # es) = add_mset f (completed es)"
| "completed (_ # es) = completed es"

fun pushed :: "'f pool_event list \<Rightarrow> 'f multiset" where
  "pushed [] = {#}"
| "pushed (Pushed f # es) = add_mset f (pushed es)"
| "pushed (_ # es) = pushed es"

inductive pool_run :: "'f thread_pool \<Rightarrow> 'f pool_event list \<Rightarrow> 'f thread_pool \<Rightarrow> bool" where
  pool_run_refl: "pool_run p [] p"
| pool_run_step: "pool_step p e p' \<Longrightarrow> pool_run p' es p'' \<Longrightarrow> pool_run p (e # es) p''"

lemma in_flight_update:
  assumes "i < length ws"
  shows "sum_list (map executing (ws[i := w])) + executing (ws ! i) = sum_list (map executing ws) + executing w"
  using assms by (induction ws arbitrary: i) (auto simp: nth_Cons' split: nat.splits)

lemma in_flight_put_worker:
  assumes "i < length (workers p)"
  shows "in_flight (put_worker i w p) + executing (workers p ! i) = in_flight p + executing w"
  using in_flight_update [OF assms] by (simp add: in_flight_def put_worker_def)


lemma put_worker_frame [simp]:
  "tasks (put_worker i w p) = tasks p" "pushing (put_worker i w p) = pushing p"
  "tasks_total (put_worker i w p) = tasks_total p" "running (put_worker i w p) = running p"
  "paused (put_worker i w p) = paused p" "workers (put_worker i w p) = (workers p)[i := w]"
  by (simp_all add: put_worker_def)

lemma in_flight_frame [simp]:
  "in_flight (p\<lparr>tasks := fs\<rparr>) = in_flight p" "in_flight (p\<lparr>tasks_total := n\<rparr>) = in_flight p"
  "in_flight (p\<lparr>paused := b\<rparr>) = in_flight p" "in_flight (p\<lparr>running := b\<rparr>) = in_flight p"
  "in_flight (p\<lparr>pushing := fs\<rparr>) = in_flight p"
  by (simp_all add: in_flight_def)

lemma worker_step_conserves:
  assumes "i < length (workers p)" "worker_step i p = (ev, p')"
  shows "unfinished p = unfinished p' + completed [ev] \<and> pushed [ev] = {#}
    \<and> tasks_total p' + of_nat (size (completed [ev])) = tasks_total p"
proof (cases "workers p ! i")
  case At_Loop
  then show ?thesis
    using assms in_flight_put_worker [OF assms(1)]
    by (auto simp: worker_step_def unfinished_def split: if_splits)
next
  case Past_Pause
  show ?thesis
  proof (cases "tasks p")
    case Nil
    then show ?thesis using Past_Pause assms in_flight_put_worker [OF assms(1), of At_Loop]
      by (auto simp: worker_step_def unfinished_def pop_task_def)
  next
    case (Cons f fs)
    have "i < length (workers (p\<lparr>tasks := fs\<rparr>))" using assms(1) by simp
    from in_flight_put_worker [OF this, of "Executing f"] Cons Past_Pause assms(2) show ?thesis
      by (auto simp: worker_step_def unfinished_def pop_task_def)
  qed
next
  case (Executing f)
  have "i < length (workers (p\<lparr>tasks_total := tasks_total p - 1\<rparr>))" using assms(1) by simp
  from in_flight_put_worker [OF this, of At_Loop] Executing assms(2) show ?thesis
    by (auto simp: worker_step_def unfinished_def)
next
  case Exited
  then show ?thesis using assms(2) by (auto simp: worker_step_def)
qed

lemma pool_step_conserves:
  assumes "pool_step p ev p'"
  shows "unfinished p + pushed [ev] = unfinished p' + completed [ev]
    \<and> tasks_total p' + of_nat (size (completed [ev])) = tasks_total p + of_nat (size (pushed [ev]))"
  using assms
proof (cases rule: pool_step.cases)
  case (push_queue f)
  then show ?thesis by (simp add: push_task_queue_def unfinished_def)
next
  case (work i)
  then show ?thesis using worker_step_conserves [of i p ev p'] by simp
qed (simp_all add: push_task_count_def unfinished_def)

lemma completed_Cons: "completed (e # es) = completed [e] + completed es"
  by (cases e) simp_all

lemma pushed_Cons: "pushed (e # es) = pushed [e] + pushed es"
  by (cases e) simp_all

lemma pool_run_conserves:
  "pool_run p es p' \<Longrightarrow> unfinished p + pushed es = unfinished p' + completed es"
proof (induction rule: pool_run.induct)
  case (pool_run_step p e p' es p'')
  then show ?case
    using pool_step_conserves [of p e p'] unfolding completed_Cons [of e es] pushed_Cons [of e es]
    by (metis (no_types, lifting) add.assoc add.commute)
qed simp

lemma pool_step_inv:
  assumes "pool_step p ev p'" "pool_inv p"
  shows "pool_inv p'"
proof -
  let ?c = "of_nat (size (completed [ev])) :: u64" and ?a = "of_nat (size (pushed [ev])) :: u64"
  have "size (unfinished p) + size (pushed [ev]) = size (unfinished p') + size (completed [ev])"
    using pool_step_conserves [OF assms(1)] by (metis size_union)
  then have "of_nat (size (unfinished p)) + ?a = of_nat (size (unfinished p')) + ?c"
    by (metis of_nat_add)
  moreover have "tasks_total p' + ?c = tasks_total p + ?a"
    using pool_step_conserves [OF assms(1)] by blast
  ultimately show ?thesis using assms(2) by (simp add: pool_inv_def)
qed

lemma pool_run_inv: "pool_run p es p' \<Longrightarrow> pool_inv p \<Longrightarrow> pool_inv p'"
  by (induction rule: pool_run.induct) (auto intro: pool_step_inv)

lemma sum_list_replicate_empty: "sum_list (replicate n {#}) = {#}"
  by (induction n) simp_all

lemma unfinished_init: "unfinished (thread_pool_init h n) = {#}"
  by (simp add: unfinished_def in_flight_def thread_pool_init_def Let_def sum_list_replicate_empty)

lemma pool_inv_init: "pool_inv (thread_pool_init h n)"
  by (simp add: pool_inv_def unfinished_init) (simp add: thread_pool_init_def Let_def)

lemma len64_nat: "LENGTH(64) = 64"
  by simp

lemma u64_of_nat_eq_0: "of_nat k = (0 :: u64) \<Longrightarrow> k < 2 ^ 64 \<Longrightarrow> k = 0"
  by (metis gr0I nat_dvd_not_less word_of_nat_eq_0_iff len64_nat)

text \<open>
  (C23) In every run of the pool, however pushes, workers, pausing and stopping interleave, the
  tasks pushed are those completed and those still counted as pending, queued or executing: no
  task is lost or executed twice. And when \<^verbatim>\<open>wait_for_tasks\<close> returns on an unpaused pool (with
  fewer than \<open>2^64\<close> tasks unfinished), every task pushed has been completed.
\<close>

theorem pool_executes_every_task_once:
  assumes "pool_run (thread_pool_init h n) es p"
  shows "pushed es = completed es + unfinished p
    \<and> (\<not> paused p \<longrightarrow> wait_for_tasks_done p \<longrightarrow> size (unfinished p) < 2 ^ 64 \<longrightarrow> completed es = pushed es)"
proof -
  have c: "pushed es = completed es + unfinished p"
    using pool_run_conserves [OF assms] by (simp add: unfinished_init add.commute)
  have inv: "pool_inv p" using pool_run_inv [OF assms pool_inv_init] .
  have "completed es = pushed es"
    if "\<not> paused p" "wait_for_tasks_done p" "size (unfinished p) < 2 ^ 64"
  proof -
    have "of_nat (size (unfinished p)) = (0 :: u64)"
      using that(1,2) inv by (simp add: wait_for_tasks_done_def pool_inv_def)
    from u64_of_nat_eq_0 [OF this that(3)] show ?thesis using c by simp
  qed
  with c show ?thesis by blast
qed

text \<open>One task pushed, queued, popped by the only worker and completed.\<close>

definition one_task_events :: "string pool_event list" where
  "one_task_events = [Pushed ''t'', Internal, Internal, Internal, Completed ''t'']"

definition one_task_pool :: "string thread_pool" where
  "one_task_pool = \<lparr>paused = False, running = True, tasks = [], pushing = [], tasks_total = 0,
     thread_count = 1, workers = [At_Loop]\<rparr>"

lemma one_task_run: "pool_run (thread_pool_init 4 1) one_task_events one_task_pool"
  unfolding one_task_events_def
  apply (rule pool_run_step [OF push_count])
  apply (rule pool_run_step [OF push_queue [where f = "''t''"]])
   apply (simp add: push_task_count_def)
  apply (rule pool_run_step [OF work [where i = 0]],
      simp_all add: thread_pool_init_def push_task_count_def push_task_queue_def worker_step_def put_worker_def pop_task_def)+
  apply (simp add: one_task_pool_def pool_run_refl)
  done

theorem pool_executes_every_task_once_witness:
  "pushed one_task_events = {#''t''#} \<and> completed one_task_events = {#''t''#} \<and> wait_for_tasks_done one_task_pool"
  using pool_executes_every_task_once [OF one_task_run]
  by (simp add: one_task_events_def one_task_pool_def wait_for_tasks_done_def unfinished_def in_flight_def)

section \<open>Joining and resetting\<close>

fun worker_rank :: "'f worker \<Rightarrow> nat" where
  "worker_rank Exited = 0"
| "worker_rank At_Loop = 1"
| "worker_rank (Executing f) = 2"
| "worker_rank Past_Pause = 3"

lemma worker_step_stopped:
  assumes "\<not> running p" "i < length (workers p)" "workers p ! i \<noteq> Exited" "worker_step i p = (ev, p')"
  shows "\<not> running p' \<and> (\<exists>w. workers p' = (workers p)[i := w] \<and> worker_rank w < worker_rank (workers p ! i))
    \<and> thread_count p' = thread_count p \<and> pushing p' = pushing p"
  using assms
  by (cases "workers p ! i"; cases "tasks p") (auto simp: worker_step_def pop_task_def put_worker_def)

lemma pool_run_append: "pool_run p es p' \<Longrightarrow> pool_run p' es' p'' \<Longrightarrow> pool_run p (es @ es') p''"
  by (induction rule: pool_run.induct) (auto intro: pool_run.intros)

lemma self_update_Exited: "workers p ! i = Exited \<Longrightarrow> (workers p)[i := Exited] = workers p"
  using list_update_id [of "workers p" i] by simp

lemma join_worker_exits:
  assumes "\<not> running p" "i < length (workers p)" "worker_rank (workers p ! i) \<le> fuel" "join_worker fuel i p = (evs, p')"
  shows "pool_run p evs p' \<and> \<not> running p' \<and> workers p' = (workers p)[i := Exited]
    \<and> thread_count p' = thread_count p \<and> pushing p' = pushing p"
  using assms
proof (induction fuel arbitrary: p evs)
  case 0
  then have "workers p ! i = Exited" by (cases "workers p ! i") auto
  with 0 show ?case by (auto intro: pool_run.intros simp: self_update_Exited)
next
  case (Suc fuel)
  show ?case
  proof (cases "workers p ! i = Exited")
    case True
    with Suc.prems show ?thesis by (auto intro: pool_run.intros simp: self_update_Exited)
  next
    case False
    obtain ev p1 where s: "worker_step i p = (ev, p1)" by fastforce
    obtain evs1 where j: "join_worker fuel i p1 = (evs1, p')" and evs: "evs = ev # evs1"
      using Suc.prems(4) False s by (auto split: prod.splits)
    obtain w where w: "workers p1 = (workers p)[i := w]" "worker_rank w < worker_rank (workers p ! i)"
      and f: "\<not> running p1" "thread_count p1 = thread_count p" "pushing p1 = pushing p"
      using worker_step_stopped [OF Suc.prems(1,2) False s] by blast
    have "i < length (workers p1)" "worker_rank (workers p1 ! i) \<le> fuel"
      using w Suc.prems(2,3) by auto
    from Suc.IH [OF f(1) this j] show ?thesis
      using evs w f pool_run_step [OF work [OF Suc.prems(2) s]] by auto
  qed
qed

lemma worker_rank_le: "worker_rank w \<le> 3"
  by (cases w) auto

lemma join_workers_exits:
  assumes "\<not> running p" "set is \<subseteq> {..<length (workers p)}" "join_workers is p = (evs, p')"
  shows "pool_run p evs p' \<and> \<not> running p' \<and> length (workers p') = length (workers p)
    \<and> thread_count p' = thread_count p \<and> pushing p' = pushing p
    \<and> (\<forall>i < length (workers p). workers p' ! i = (if i \<in> set is then Exited else workers p ! i))"
  using assms
proof (induction "is" arbitrary: p evs)
  case Nil
  then show ?case by (auto intro: pool_run.intros)
next
  case (Cons i "is")
  obtain evs1 p1 where j: "join_worker 3 i p = (evs1, p1)" by fastforce
  obtain evs2 where r: "join_workers is p1 = (evs2, p')" and evs: "evs = evs1 @ evs2"
    using Cons.prems(3) j by (auto split: prod.splits)
  have i: "i < length (workers p)" using Cons.prems(2) by simp
  have e: "pool_run p evs1 p1" "\<not> running p1" "workers p1 = (workers p)[i := Exited]"
    "thread_count p1 = thread_count p" "pushing p1 = pushing p"
    using join_worker_exits [OF Cons.prems(1) i worker_rank_le j] by simp_all
  have "set is \<subseteq> {..<length (workers p1)}" using Cons.prems(2) e(3) by simp
  from Cons.IH [OF e(2) this r] show ?case
    using e i evs pool_run_append [OF e(1)] by (auto simp: nth_list_update)
qed

definition threads_match :: "'f thread_pool \<Rightarrow> bool" where
  "threads_match p \<longleftrightarrow> length (workers p) = thread_count p"

lemma destroy_threads_exits:
  assumes "\<not> running p" "threads_match p" "destroy_threads p = (evs, p')"
  shows "pool_run p evs p' \<and> workers p' = replicate (thread_count p) Exited
    \<and> thread_count p' = thread_count p \<and> pushing p' = pushing p"
proof -
  have "set [0..<thread_count p] \<subseteq> {..<length (workers p)}"
    using assms(2) by (auto simp: threads_match_def)
  from join_workers_exits [OF assms(1) this assms(3) [unfolded destroy_threads_def]]
  have *: "pool_run p evs p'" "thread_count p' = thread_count p" "pushing p' = pushing p"
    "length (workers p') = thread_count p" "\<forall>i < thread_count p. workers p' ! i = Exited"
    using assms(2) by (auto simp: threads_match_def)
  then have "workers p' = replicate (thread_count p) Exited"
    by (intro nth_equalityI) auto
  with * show ?thesis by simp
qed

lemma in_flight_replicate: "in_flight (p\<lparr>workers := replicate n w\<rparr>) = {#}" if "executing w = {#}"
  using that by (simp add: in_flight_def sum_list_replicate_empty)

lemma pool_run_threads_match: "pool_run p es p' \<Longrightarrow> threads_match p \<Longrightarrow> threads_match p'"
proof (induction rule: pool_run.induct)
  case (pool_run_step p e p' es p'')
  have "length (workers p') = length (workers p) \<and> thread_count p' = thread_count p"
    using pool_run_step.hyps(1)
    by (cases rule: pool_step.cases)
      (auto simp: push_task_count_def push_task_queue_def worker_step_def put_worker_def pop_task_def
        split: worker.splits if_splits list.splits)
  with pool_run_step show ?case by (simp add: threads_match_def)
qed

lemma worker_step_no_push: "worker_step i p = (ev, p') \<Longrightarrow> pushed (ev # es) = pushed es"
  by (auto simp: worker_step_def pop_task_def split: worker.splits if_splits list.splits)

lemma pushed_append: "pushed (es @ es') = pushed es + pushed es'"
  by (induction es rule: pushed.induct) auto

lemma join_worker_no_push: "join_worker fuel i p = (evs, p') \<Longrightarrow> pushed evs = {#}"
  by (induction fuel i p arbitrary: evs p' rule: join_worker.induct)
    (auto split: if_splits prod.splits simp: worker_step_no_push)

lemma join_workers_no_push: "join_workers is p = (evs, p') \<Longrightarrow> pushed evs = {#}"
  by (induction "is" p arbitrary: evs p' rule: join_workers.induct)
    (auto split: prod.splits simp: pushed_append dest: join_worker_no_push)



section \<open>The blocks of a parallel loop\<close>

definition block_indices :: "int \<times> int \<Rightarrow> int list" where
  "block_indices b = [fst b..snd b - 1]"

lemma upto_append: "i \<le> j \<Longrightarrow> j \<le> k + 1 \<Longrightarrow> [i..j - 1] @ [j..k] = [i..k]" for i j k :: int
  using upto_split2 [of i "j - 1" k] by (cases "i = j") simp_all

lemma loop_blocks_concat:
  assumes "t < nb" "int (nb * bs) + a \<le> l + 1"
  shows "concat (map (block_indices \<circ> loop_block a l nb bs) [0..<t]) = [a..int (t * bs) + a - 1]"
  using assms(1)
proof (induction t)
  case (Suc t)
  let ?m = "int (t * bs) + a" and ?k = "int (Suc t * bs) + a - 1"
  have "block_indices (loop_block a l nb bs t) = [?m..?k]"
    using Suc.prems by (simp add: block_indices_def loop_block_def)
  then have "concat (map (block_indices \<circ> loop_block a l nb bs) [0..<Suc t]) = [a..?m - 1] @ [?m..?k]"
    using Suc by (simp add: o_def)
  also have "\<dots> = [a..?k]" by (rule upto_append) auto
  finally show ?case .
qed simp

lemma loop_blocks_partition:
  assumes "0 < nb" "int (nb * bs) + a \<le> l + 1"
  shows "concat (map (block_indices \<circ> loop_block a l nb bs) [0..<nb]) = [a..l]"
proof -
  obtain t where nb: "nb = Suc t" using assms(1) gr0_conv_Suc by blast
  let ?m = "int (t * bs) + a"
  have "concat (map (block_indices \<circ> loop_block a l nb bs) [0..<Suc t]) = [a..?m - 1] @ [?m..l]"
    using loop_blocks_concat [of t nb bs a l] assms(2) nb by (simp add: block_indices_def loop_block_def)
  also have "\<dots> = [a..l]" using assms(2) nb by (intro upto_append) (auto simp: algebra_simps)
  finally show ?thesis using nb by simp
qed

text \<open>
  \<^verbatim>\<open>parallelize_loop\<close> on a pool with threads: whatever the order of the two bounds and the
  requested number of blocks, the blocks it submits, taken in order, cover every index between
  the bounds exactly once.
\<close>

theorem parallelize_loop_partition:
  assumes "0 < threads"
  shows "\<exists>bs. parallelize_loop threads first_index index_after_last num_blocks = Inr bs
    \<and> concat (map block_indices bs) = [min first_index index_after_last..max first_index index_after_last - 1]"
proof (cases "first_index = index_after_last")
  case True
  then show ?thesis by (simp add: parallelize_loop_def)
next
  case False
  define a where "a = min first_index index_after_last"
  define l where "l = max first_index index_after_last - 1"
  define nb where "nb = (if num_blocks = 0 then threads else num_blocks)"
  define total where "total = nat (l - a + 1)"
  have al: "int total + a = l + 1" using False by (auto simp: total_def a_def l_def)
  have tpos: "0 < total" using False by (auto simp: total_def a_def l_def)
  have nb: "0 < nb" using assms by (simp add: nb_def)
  let ?nb' = "if total > 1 then total else 1"
  have r: "parallelize_loop threads first_index index_after_last num_blocks =
      (if total div nb = 0 then Inr (map (loop_block a l ?nb' 1) [0..<?nb'])
       else Inr (map (loop_block a l nb (total div nb)) [0..<nb]))"
    using False nb by (simp add: parallelize_loop_def Let_def a_def l_def nb_def total_def del: min_def max_def)
  have "int (nb * (total div nb)) + a \<le> l + 1" 
    using al times_div_less_eq_dividend [of nb total] by linarith
  moreover have "int (?nb' * 1) + a \<le> l + 1" using al tpos by auto
  ultimately show ?thesis
    unfolding r using loop_blocks_partition [of nb "total div nb" a l] loop_blocks_partition [of ?nb' 1 a l] nb
    by (simp add: a_def [symmetric] l_def [symmetric] o_def del: mult_1_right)
qed

theorem parallelize_loop_partition_witness:
  "parallelize_loop 4 10 0 3 = Inr [(0, 3), (3, 6), (6, 10)]
   \<and> concat (map block_indices [(0, 3), (3, 6), (6, 10)]) = [0..9]"
proof -
  have "parallelize_loop 4 10 0 3 = Inr [(0, 3), (3, 6), (6, 10)]" by code_simp
  with parallelize_loop_partition [of 4 10 0 3] show ?thesis by simp
qed

end
