(* ===== verification/Volume_Server.thy ===== *)
theory Volume_Server
  imports Key_Hash Shard_Master CQ_Dispatch Thread_Pool "HOL-Library.List_Lexorder" "HOL-Library.Char_ord"
begin

text \<open>
  The volume server of \<^verbatim>\<open>src/server/volume_server/\<close>: the handlers Get, Put and Delete, the
  construction (\<^verbatim>\<open>requestJoin\<close>, \<^verbatim>\<open>formModMap\<close>), the periodic \<^verbatim>\<open>fetchSMConfig\<close> with
  \<^verbatim>\<open>calcNegativeDiff\<close> and \<^verbatim>\<open>updateToMove\<close>, one pass of the loop of \<^verbatim>\<open>moveKeys\<close>, and the task it
  gives to the thread pool.

  LevelDB is a parameter: the record \<open>leveldb\<close> holds the four operations the code calls, and the
  locales \<open>leveldb_store\<close> and \<open>reliable_leveldb\<close> the laws it relies on. A remote call is an
  argument too: the status (and reply) it returned.

  \<^verbatim>\<open>mod_map\<close> is a \<^verbatim>\<open>std::vector\<close> that \<^verbatim>\<open>formModMap\<close> clears and then indexes. By the C++ standard an
  index past \<^verbatim>\<open>size()\<close> is undefined behaviour; an unchecked \<^verbatim>\<open>operator[]\<close> reaches the storage
  \<^verbatim>\<open>resize\<close> allocated, whose slots are still empty sets. The operations take the reading as their
  argument \<open>acc\<close>: \<open>Standard\<close> faults past the size, \<open>Allocated\<close> past the storage.
\<close>

section \<open>State\<close>

record 'db leveldb =
  db_get :: "'db \<Rightarrow> string \<Rightarrow> string option"
  db_put :: "'db \<Rightarrow> string \<Rightarrow> string \<Rightarrow> 'db \<times> bool"
  db_delete :: "'db \<Rightarrow> string \<Rightarrow> 'db \<times> bool"
  db_keys :: "'db \<Rightarrow> string list"

datatype vector_access = Standard | Allocated

record key_vector =
  vec_size :: nat
  vec_slots :: "string set list"

record move_task =
  task_addr :: string
  task_key :: string
  task_value :: string
  task_shard :: u32

record 'db VolumeServer =
  self_addr :: string
  db :: 'db
  vs_config_num :: u32
  vs_config :: "SMConfigEntry list"
  my_config :: SMConfigEntry
  mod_map :: key_vector
  move_queue :: "string ConcurrentQueue"
  to_move :: "(string \<times> u32) list"
  tpool :: "move_task thread_pool"

record GetResponse =
  res_key :: string
  res_value :: string

definition KEY_NOT_FOUND :: string where "KEY_NOT_FOUND = ''Key not found!''"
definition KEY_EXISTS :: string where "KEY_EXISTS = ''Key already exists!''"
definition BAD_REQUEST :: string where "BAD_REQUEST = ''Wrong volume server for key!''"

text \<open>Threads that enqueue: the ticking thread, the one that moves keys, the pool's workers.\<close>

abbreviation (input) tick_tid :: nat where "tick_tid \<equiv> 0"
abbreviation (input) move_tid :: nat where "move_tid \<equiv> 1"
abbreviation (input) worker_tid :: "nat \<Rightarrow> nat" where "worker_tid i \<equiv> 2 + i"

section \<open>The vector of key sets\<close>

definition vec_limit :: "vector_access \<Rightarrow> key_vector \<Rightarrow> nat" where
  "vec_limit acc v = (case acc of Standard \<Rightarrow> vec_size v | Allocated \<Rightarrow> length (vec_slots v))"

definition vec_resize :: "nat \<Rightarrow> key_vector" where
  "vec_resize n = \<lparr>vec_size = n, vec_slots = replicate n {}\<rparr>"

definition vec_clear :: "key_vector \<Rightarrow> key_vector" where
  "vec_clear v = \<lparr>vec_size = 0, vec_slots = map (\<lambda>_. {}) (vec_slots v)\<rparr>"

definition vec_at :: "vector_access \<Rightarrow> key_vector \<Rightarrow> u32 \<Rightarrow> fault + string set" where
  "vec_at acc v i =
     (if unat i < vec_limit acc v then Inr (vec_slots v ! unat i) else Inl Undefined_Behaviour)"

definition vec_update ::
  "vector_access \<Rightarrow> u32 \<Rightarrow> (string set \<Rightarrow> string set) \<Rightarrow> key_vector \<Rightarrow> fault + key_vector" where
  "vec_update acc i f v =
     and_then (vec_at acc v i) (\<lambda>s. Inr (v\<lparr>vec_slots := (vec_slots v)[unat i := f s]\<rparr>))"

definition mod_map_insert ::
  "vector_access \<Rightarrow> u32 \<Rightarrow> string \<Rightarrow> 'db VolumeServer \<Rightarrow> fault + 'db VolumeServer" where
  "mod_map_insert acc i key vs =
     and_then (vec_update acc i (insert key) (mod_map vs)) (\<lambda>v. Inr (vs\<lparr>mod_map := v\<rparr>))"

definition mod_map_erase ::
  "vector_access \<Rightarrow> u32 \<Rightarrow> string \<Rightarrow> 'db VolumeServer \<Rightarrow> fault + 'db VolumeServer" where
  "mod_map_erase acc i key vs =
     and_then (vec_update acc i (\<lambda>s. s - {key}) (mod_map vs)) (\<lambda>v. Inr (vs\<lparr>mod_map := v\<rparr>))"

section \<open>Handlers\<close>

definition isMyKey :: "'db VolumeServer \<Rightarrow> string \<Rightarrow> fault + bool" where
  "isMyKey vs key =
     and_then (shard_mod key) (\<lambda>c.
       Inr (list_ex (\<lambda>shard. lower shard \<le> c \<and> c \<le> upper shard) (shards (my_config vs))))"

definition VS_Get :: "'db leveldb \<Rightarrow> 'db VolumeServer \<Rightarrow> string \<Rightarrow> fault + grpc_status \<times> GetResponse" where
  "VS_Get L vs key =
     and_then (isMyKey vs key) (\<lambda>mine.
       if \<not> mine
       then Inr (Status INVALID_ARGUMENT BAD_REQUEST, \<lparr>res_key = [], res_value = []\<rparr>)
       else case db_get L (db vs) key of
              None \<Rightarrow> Inr (Status NOT_FOUND KEY_NOT_FOUND, \<lparr>res_key = [], res_value = []\<rparr>)
            | Some value \<Rightarrow> Inr (OK, \<lparr>res_key = key, res_value = value\<rparr>))"

definition VS_Put ::
  "'db leveldb \<Rightarrow> vector_access \<Rightarrow> 'db VolumeServer \<Rightarrow> string \<Rightarrow> string \<Rightarrow> fault + 'db VolumeServer \<times> grpc_status" where
  "VS_Put L acc vs key value =
     and_then (isMyKey vs key) (\<lambda>mine.
       if \<not> mine then Inr (vs, Status INVALID_ARGUMENT BAD_REQUEST)
       else if db_get L (db vs) key \<noteq> None then Inr (vs, Status ALREADY_EXISTS KEY_EXISTS)
       else let vs1 = vs\<lparr>db := fst (db_put L (db vs) key value)\<rparr>
            in and_then (shard_mod key) (\<lambda>c.
               and_then (mod_map_insert acc c key vs1) (\<lambda>vs2. Inr (vs2, OK))))"

definition VS_Delete ::
  "'db leveldb \<Rightarrow> vector_access \<Rightarrow> 'db VolumeServer \<Rightarrow> string \<Rightarrow> string \<Rightarrow> fault + 'db VolumeServer \<times> grpc_status" where
  "VS_Delete L acc vs key value =
     and_then (isMyKey vs key) (\<lambda>mine.
       if \<not> mine then Inr (vs, Status INVALID_ARGUMENT BAD_REQUEST)
       else if db_get L (db vs) key = None then Inr (vs, Status NOT_FOUND KEY_NOT_FOUND)
       else let vs1 = vs\<lparr>db := fst (db_delete L (db vs) key)\<rparr>
            in and_then (shard_mod key) (\<lambda>c.
               and_then (mod_map_erase acc c key vs1) (\<lambda>vs2. Inr (vs2, OK))))"

section \<open>Construction\<close>

primrec insert_keys ::
  "vector_access \<Rightarrow> string list \<Rightarrow> 'db VolumeServer \<Rightarrow> fault + 'db VolumeServer" where
  "insert_keys acc [] vs = Inr vs"
| "insert_keys acc (key # keys) vs =
     and_then (shard_mod key) (\<lambda>c.
     and_then (mod_map_insert acc c key vs) (insert_keys acc keys))"

definition formModMap :: "'db leveldb \<Rightarrow> vector_access \<Rightarrow> 'db VolumeServer \<Rightarrow> fault + 'db VolumeServer" where
  "formModMap L acc vs =
     insert_keys acc (db_keys L (db vs)) (vs\<lparr>mod_map := vec_clear (mod_map vs)\<rparr>)"

definition requestJoin :: "grpc_status \<Rightarrow> 'db VolumeServer \<Rightarrow> fault + 'db VolumeServer" where
  "requestJoin join_status vs =
     (let vs1 = vs\<lparr>vs_config := [], vs_config_num := 0\<rparr>
      in if \<not> status_ok join_status then Inl Process_Exit else Inr vs1)"

text \<open>
  The members before the constructor's body: default-constructed containers, a thread pool with
  one thread per core, and an indeterminate \<^verbatim>\<open>config_num\<close> (\<open>junk\<close>), which \<^verbatim>\<open>requestJoin\<close> sets.
\<close>

definition VolumeServer_members :: "nat \<Rightarrow> u32 \<Rightarrow> string \<Rightarrow> 'db \<Rightarrow> 'db VolumeServer" where
  "VolumeServer_members cores junk addr d =
     \<lparr>self_addr = addr, db = d, vs_config_num = junk, vs_config = [],
      my_config = \<lparr>shards = [], vs_addr = []\<rparr>, mod_map = \<lparr>vec_size = 0, vec_slots = []\<rparr>,
      move_queue = cq_empty, to_move = [], tpool = thread_pool_init cores cores\<rparr>"

definition VolumeServer_new ::
  "'db leveldb \<Rightarrow> vector_access \<Rightarrow> nat \<Rightarrow> u32 \<Rightarrow> string \<Rightarrow> 'db option \<Rightarrow> grpc_status \<Rightarrow> fault + 'db VolumeServer" where
  "VolumeServer_new L acc cores junk addr opened join_status =
     (case opened of
        None \<Rightarrow> Inl Assertion_Failed
      | Some d \<Rightarrow>
          and_then (requestJoin join_status (VolumeServer_members cores junk addr d)) (\<lambda>vs.
            formModMap L acc
              (vs\<lparr>to_move := replicate (unat NUM_CHUNKS + 1) ([], 0),
                  mod_map := vec_resize (unat NUM_CHUNKS + 1)\<rparr>)))"

section \<open>Fetching the configuration\<close>

text \<open>
  The loop \<^verbatim>\<open>for (uint n = lower; n <= upper; ++n)\<close>, which does not end when \<^verbatim>\<open>upper\<close> is
  \<^verbatim>\<open>UINT_MAX\<close>; then the value is \<open>None\<close>.
\<close>

partial_function (option) uint_loop :: "(u32 \<Rightarrow> 'a list) \<Rightarrow> u32 \<Rightarrow> u32 \<Rightarrow> 'a list option" where
  "uint_loop body n last_n =
     (if n \<le> last_n
      then Option.bind (uint_loop body (n + 1) last_n) (\<lambda>rest. Some (body n @ rest))
      else Some [])"

declare uint_loop.simps [code]

definition removed_at :: "SMShard list \<Rightarrow> string \<Rightarrow> u32 \<Rightarrow> (u32 \<times> string) list" where
  "removed_at prev_shards addr shard_num =
     map (\<lambda>_. (shard_num, addr))
       (filter (\<lambda>s. shard_num \<ge> lower s \<and> shard_num \<le> upper s) prev_shards)"

primrec diff_shards :: "SMShard list \<Rightarrow> string \<Rightarrow> SMShard list \<Rightarrow> (u32 \<times> string) list option" where
  "diff_shards prev_shards addr [] = Some []"
| "diff_shards prev_shards addr (s # ss) =
     (case uint_loop (removed_at prev_shards addr) (lower s) (upper s) of
        None \<Rightarrow> None
      | Some r \<Rightarrow> map_option ((@) r) (diff_shards prev_shards addr ss))"

primrec calcNegativeDiff ::
  "SMConfigEntry list \<Rightarrow> SMConfigEntry \<Rightarrow> (u32 \<times> string) list option" where
  "calcNegativeDiff [] my_prev_config = Some []"
| "calcNegativeDiff (e # es) my_prev_config =
     (if vs_addr e = vs_addr my_prev_config then calcNegativeDiff es my_prev_config
      else case diff_shards (shards my_prev_config) (vs_addr e) (shards e) of
             None \<Rightarrow> None
           | Some r \<Rightarrow> map_option ((@) r) (calcNegativeDiff es my_prev_config))"

text \<open>
  \<^verbatim>\<open>updateToMove\<close> for one removed chunk, then for all. \<^verbatim>\<open>std::set\<close> iterates in ascending order;
  the array of mutexes has \<^verbatim>\<open>NUM_CHUNKS + 1\<close> elements.
\<close>

definition enqueue_all :: "nat \<Rightarrow> string list \<Rightarrow> string ConcurrentQueue \<Rightarrow> string ConcurrentQueue" where
  "enqueue_all tid keys q = fold (\<lambda>key q. enqueue q tid key) keys q"

definition updateToMove_one ::
  "vector_access \<Rightarrow> u32 \<times> string \<Rightarrow> 'db VolumeServer \<Rightarrow> fault + 'db VolumeServer" where
  "updateToMove_one acc removed_info vs =
     (let cur_shard = fst removed_info; addr = snd removed_info
      in if unat cur_shard \<ge> length (to_move vs) then Inl Undefined_Behaviour
         else if vs_config_num vs > snd (to_move vs ! unat cur_shard)
         then let vs1 = vs\<lparr>to_move := (to_move vs)[unat cur_shard := (addr, vs_config_num vs)]\<rparr>
              in if cur_shard > NUM_CHUNKS then Inl Undefined_Behaviour
                 else and_then (vec_at acc (mod_map vs1) cur_shard) (\<lambda>keys.
                   Inr (vs1\<lparr>move_queue := enqueue_all tick_tid (sorted_list_of_set keys) (move_queue vs1)\<rparr>))
         else Inr vs)"

primrec updateToMove ::
  "vector_access \<Rightarrow> (u32 \<times> string) list \<Rightarrow> 'db VolumeServer \<Rightarrow> fault + 'db VolumeServer" where
  "updateToMove acc [] vs = Inr vs"
| "updateToMove acc (r # removed) vs =
     and_then (updateToMove_one acc r vs) (updateToMove acc removed)"

definition decode_entry :: "ConfigEntry \<Rightarrow> SMConfigEntry" where
  "decode_entry e =
     \<lparr>shards = map (\<lambda>s. \<lparr>lower = fst s, upper = snd s\<rparr>) (entry_shards e), vs_addr = server_addr e\<rparr>"

text \<open>
  The loop over the new configuration: \<^verbatim>\<open>my_config\<close> becomes the last entry with the own address,
  and stays as it was when there is none.
\<close>

definition adopt_entry :: "ConfigEntry \<Rightarrow> 'db VolumeServer \<Rightarrow> 'db VolumeServer" where
  "adopt_entry e vs =
     (let smce = decode_entry e;
          vs1 = (if self_addr vs = vs_addr smce then vs\<lparr>my_config := smce\<rparr> else vs)
      in vs1\<lparr>vs_config := vs_config vs1 @ [smce]\<rparr>)"

definition adopt_config :: "QueryResponse \<Rightarrow> 'db VolumeServer \<Rightarrow> 'db VolumeServer" where
  "adopt_config new_config vs = fold adopt_entry new_config (vs\<lparr>vs_config := []\<rparr>)"

text \<open>
  One tick; it \<open>Diverges\<close> when the loop over a shard does not end. The
  assertion after the second call tests the first status again, so it cannot fail; a failed
  Query leaves the empty message it was given.
\<close>

definition fetchSMConfig ::
  "vector_access \<Rightarrow> grpc_status \<times> u32 \<Rightarrow> grpc_status \<times> QueryResponse \<Rightarrow> 'db VolumeServer \<Rightarrow>
   fault + 'db VolumeServer" where
  "fetchSMConfig acc num_reply query_reply vs =
     (let (status, response) = num_reply; (status2, new_config_response) = query_reply
      in if \<not> status_ok status then Inl Process_Exit
         else if vs_config_num vs < response
         then let new_config = (if status_ok status2 then new_config_response else [])
              in if \<not> status_ok status then Inl Assertion_Failed
                 else let vs1 = vs\<lparr>vs_config_num := response\<rparr>;
                          my_prev_config = my_config vs1;
                          vs2 = adopt_config new_config vs1
                      in case calcNegativeDiff (vs_config vs2) my_prev_config of
                           None \<Rightarrow> Inl Diverges
                         | Some removed \<Rightarrow> updateToMove acc removed vs2
         else Inr vs)"

section \<open>Moving keys\<close>

definition moveKeys :: "'db leveldb \<Rightarrow> 'db VolumeServer \<Rightarrow> fault + 'db VolumeServer" where
  "moveKeys L vs =
     (case try_dequeue (move_queue vs) of
        None \<Rightarrow> Inr vs
      | Some (key, q) \<Rightarrow>
          let vs1 = vs\<lparr>move_queue := q\<rparr>
          in and_then (shard_mod key) (\<lambda>c.
             case db_get L (db vs1) key of
               None \<Rightarrow> Inr (vs1\<lparr>move_queue := enqueue q move_tid key\<rparr>)
             | Some value \<Rightarrow>
                 if unat c \<ge> length (to_move vs1) then Inl Undefined_Behaviour
                 else Inr (vs1\<lparr>tpool := push_task
                        \<lparr>task_addr = fst (to_move vs1 ! unat c), task_key = key,
                         task_value = value, task_shard = c\<rparr> (tpool vs1)\<rparr>)))"

text \<open>What the task does once the Put it sends has been answered.\<close>

definition move_task_finish ::
  "'db leveldb \<Rightarrow> vector_access \<Rightarrow> nat \<Rightarrow> move_task \<Rightarrow> grpc_status \<Rightarrow> 'db VolumeServer \<Rightarrow> fault + 'db VolumeServer" where
  "move_task_finish L acc i t status vs =
     (if status_ok status
      then mod_map_erase acc (task_shard t) (task_key t)
             (vs\<lparr>db := fst (db_delete L (db vs) (task_key t))\<rparr>)
      else Inr (vs\<lparr>move_queue := enqueue (move_queue vs) (worker_tid i) (task_key t)\<rparr>))"

text \<open>
  A step of worker \<open>i\<close> of the pool; \<open>rpc\<close> is what the Put of a task is answered. The task's
  effect belongs to the step that completes it.
\<close>

definition vs_worker_step ::
  "'db leveldb \<Rightarrow> vector_access \<Rightarrow> nat \<Rightarrow> (move_task \<Rightarrow> grpc_status) \<Rightarrow> 'db VolumeServer \<Rightarrow> fault + 'db VolumeServer" where
  "vs_worker_step L acc i rpc vs =
     (if i \<ge> length (workers (tpool vs)) then Inr vs
      else case worker_step i (tpool vs) of
        (Completed t, p) \<Rightarrow> move_task_finish L acc i t (rpc t) (vs\<lparr>tpool := p\<rparr>)
      | (_, p) \<Rightarrow> Inr (vs\<lparr>tpool := p\<rparr>))"

section \<open>Requests\<close>

text \<open>What can happen to a volume server: a client's call, a tick, a pass of \<^verbatim>\<open>moveKeys\<close>, a worker's step.\<close>

datatype vs_request =
    Get_req string
  | Put_req string string
  | Delete_req string string
  | Tick "grpc_status \<times> u32" "grpc_status \<times> QueryResponse"
  | Move_pass
  | Worker nat "move_task \<Rightarrow> grpc_status"

datatype vs_reply = Got grpc_status GetResponse | Done grpc_status | Silent

fun vs_handle ::
  "'db leveldb \<Rightarrow> vector_access \<Rightarrow> 'db VolumeServer \<Rightarrow> vs_request \<Rightarrow> fault + 'db VolumeServer \<times> vs_reply" where
  "vs_handle L acc vs (Get_req key) = and_then (VS_Get L vs key) (\<lambda>(st, res). Inr (vs, Got st res))"
| "vs_handle L acc vs (Put_req key value) = and_then (VS_Put L acc vs key value) (\<lambda>(vs', st). Inr (vs', Done st))"
| "vs_handle L acc vs (Delete_req key value) = and_then (VS_Delete L acc vs key value) (\<lambda>(vs', st). Inr (vs', Done st))"
| "vs_handle L acc vs (Tick n q) = and_then (fetchSMConfig acc n q vs) (\<lambda>vs'. Inr (vs', Silent))"
| "vs_handle L acc vs Move_pass = and_then (moveKeys L vs) (\<lambda>vs'. Inr (vs', Silent))"
| "vs_handle L acc vs (Worker i rpc) = and_then (vs_worker_step L acc i rpc vs) (\<lambda>vs'. Inr (vs', Silent))"

definition response_ok :: "QueryResponse \<Rightarrow> bool" where
  "response_ok r \<longleftrightarrow> (\<forall>e\<in>set r. \<forall>s\<in>set (entry_shards e). snd s \<le> NUM_CHUNKS)"

fun vs_valid :: "vs_request \<Rightarrow> bool" where
  "vs_valid (Get_req key) = key_ok key"
| "vs_valid (Put_req key value) = key_ok key"
| "vs_valid (Delete_req key value) = key_ok key"
| "vs_valid (Tick n q) = (status_ok (fst n) \<and> response_ok (snd q))"
| "vs_valid Move_pass = True"
| "vs_valid (Worker i rpc) = True"

section \<open>The abstract store\<close>

definition kv_get :: "bool \<Rightarrow> (string \<rightharpoonup> string) \<Rightarrow> string \<Rightarrow> grpc_status \<times> GetResponse" where
  "kv_get owned m key =
     (if \<not> owned then (Status INVALID_ARGUMENT BAD_REQUEST, \<lparr>res_key = [], res_value = []\<rparr>)
      else case m key of None \<Rightarrow> (Status NOT_FOUND KEY_NOT_FOUND, \<lparr>res_key = [], res_value = []\<rparr>)
           | Some v \<Rightarrow> (OK, \<lparr>res_key = key, res_value = v\<rparr>))"

definition kv_put :: "bool \<Rightarrow> (string \<rightharpoonup> string) \<Rightarrow> string \<Rightarrow> string \<Rightarrow> (string \<rightharpoonup> string) \<times> grpc_status" where
  "kv_put owned m key v =
     (if \<not> owned then (m, Status INVALID_ARGUMENT BAD_REQUEST)
      else if key \<in> dom m then (m, Status ALREADY_EXISTS KEY_EXISTS) else (m(key \<mapsto> v), OK))"

definition kv_delete :: "bool \<Rightarrow> (string \<rightharpoonup> string) \<Rightarrow> string \<Rightarrow> (string \<rightharpoonup> string) \<times> grpc_status" where
  "kv_delete owned m key =
     (if \<not> owned then (m, Status INVALID_ARGUMENT BAD_REQUEST)
      else if key \<notin> dom m then (m, Status NOT_FOUND KEY_NOT_FOUND) else (m(key := None), OK))"

definition owns :: "'db VolumeServer \<Rightarrow> u32 \<Rightarrow> bool" where
  "owns vs c \<longleftrightarrow> list_ex (\<lambda>s. in_shard s c) (shards (my_config vs))"

lemma isMyKey_eq: "key_ok key \<Longrightarrow> isMyKey vs key = Inr (owns vs (key_chunk key))"
  by (simp add: isMyKey_def shard_mod_eq owns_def in_shard_def)

section \<open>Invariant\<close>

definition keys_at :: "(string \<rightharpoonup> string) \<Rightarrow> nat \<Rightarrow> string set" where
  "keys_at m i = {k \<in> dom m. unat (key_chunk k) = i}"

text \<open>\<^verbatim>\<open>mod_map\<close> lists the stored keys by chunk: ``IMP keep it consistent with leveldb''.\<close>

definition mod_map_ok :: "(string \<rightharpoonup> string) \<Rightarrow> 'db VolumeServer \<Rightarrow> bool" where
  "mod_map_ok m vs \<longleftrightarrow> vec_slots (mod_map vs) = map (keys_at m) [0..<1001]"

definition moves_ok :: "'db VolumeServer \<Rightarrow> bool" where
  "moves_ok vs \<longleftrightarrow> length (to_move vs) = 1001 \<and> cq_inv (move_queue vs)
     \<and> (\<forall>k. k \<in># cq_elems (move_queue vs) \<longrightarrow> key_ok k)
     \<and> (\<forall>t. t \<in># unfinished (tpool vs) \<longrightarrow> key_ok (task_key t) \<and> task_shard t = key_chunk (task_key t))"

definition my_config_ok :: "'db VolumeServer \<Rightarrow> bool" where
  "my_config_ok vs \<longleftrightarrow> (\<forall>s\<in>set (shards (my_config vs)). upper s \<le> NUM_CHUNKS)"

definition vs_inv :: "('db \<Rightarrow> string \<rightharpoonup> string) \<Rightarrow> 'db VolumeServer \<Rightarrow> bool" where
  "vs_inv contents vs \<longleftrightarrow> mod_map_ok (contents (db vs)) vs \<and> finite (dom (contents (db vs)))
     \<and> (\<forall>k\<in>dom (contents (db vs)). key_ok k) \<and> moves_ok vs \<and> my_config_ok vs"

lemma mod_map_ok_cong:
  "mod_map vs' = mod_map vs \<Longrightarrow> mod_map_ok m vs' = mod_map_ok m vs"
  by (simp add: mod_map_ok_def)

lemma moves_ok_cong:
  "to_move vs' = to_move vs \<Longrightarrow> move_queue vs' = move_queue vs \<Longrightarrow> tpool vs' = tpool vs \<Longrightarrow> moves_ok vs' = moves_ok vs"
  by (simp add: moves_ok_def)

lemma my_config_ok_cong: "my_config vs' = my_config vs \<Longrightarrow> my_config_ok vs' = my_config_ok vs"
  by (simp add: my_config_ok_def)

lemmas vs_inv_cong = mod_map_ok_cong moves_ok_cong my_config_ok_cong

lemma key_chunk_index: "unat (key_chunk key) < 1000"
  using key_chunk_less [of key] by (simp add: word_less_nat_alt)

lemma keys_at_insert:
  "keys_at (m(k \<mapsto> v)) i = (if i = unat (key_chunk k) then insert k (keys_at m i) else keys_at m i)"
  by (auto simp: keys_at_def)

lemma keys_at_delete:
  "keys_at (m(k := None)) i = (if i = unat (key_chunk k) then keys_at m i - {k} else keys_at m i)"
  by (auto simp: keys_at_def)

lemma map_range_update:
  "i < n \<Longrightarrow> (map f [0..<n])[i := x] = map (\<lambda>j. if j = i then x else f j) [0..<n]"
  by (auto simp: list_eq_iff_nth_eq nth_list_update)

lemma mod_map_insert_ok:
  assumes "mod_map_ok m vs"
  shows "\<exists>v. mod_map_insert Allocated (key_chunk k) k vs = Inr (vs\<lparr>mod_map := v\<rparr>)
    \<and> vec_slots v = map (keys_at (m(k \<mapsto> x))) [0..<1001] \<and> vec_size v = vec_size (mod_map vs)"
  using assms key_chunk_index [of k]
  by (auto simp: mod_map_insert_def vec_update_def vec_at_def vec_limit_def mod_map_ok_def
      map_range_update keys_at_insert)

lemma mod_map_erase_ok:
  assumes "mod_map_ok m vs"
  shows "\<exists>v. mod_map_erase Allocated (key_chunk k) k vs = Inr (vs\<lparr>mod_map := v\<rparr>)
    \<and> vec_slots v = map (keys_at (m(k := None))) [0..<1001] \<and> vec_size v = vec_size (mod_map vs)"
  using assms key_chunk_index [of k]
  by (auto simp: mod_map_erase_def vec_update_def vec_at_def vec_limit_def mod_map_ok_def
      map_range_update keys_at_delete)

section \<open>The difference of two configurations\<close>

lemma uint_loop_ends:
  assumes "last_n < (-1 :: u32)"
  shows "uint_loop body n last_n = Some (concat (map (\<lambda>i. body (of_nat i)) [unat n..<unat last_n + 1]))"
proof (induction "unat last_n + 1 - unat n" arbitrary: n)
  case 0
  then have "\<not> n \<le> last_n" by (simp add: word_le_nat_alt)
  with 0 show ?case by (subst uint_loop.simps) simp
next
  case (Suc d)
  then have n: "n \<le> last_n" by (simp add: word_le_nat_alt)
  then have "n < -1" using assms by simp
  then have s: "unat (n + 1) = unat n + 1" by (rule unat_plus_one_less)
  have "d = unat last_n + 1 - unat (n + 1)" using Suc.hyps(2) s by simp
  note ih = Suc.hyps(1) [OF this]
  have "[unat n..<unat last_n + 1] = unat n # [unat (n + 1)..<unat last_n + 1]"
    using n s by (simp add: upt_conv_Cons word_le_nat_alt del: upt_Suc)
  then show ?case using n ih by (subst uint_loop.simps) (simp del: upt_Suc)
qed

lemma uint_loop_never_ends: "uint_loop body n (-1 :: u32) = None"
proof -
  have "last_n \<noteq> -1" if "uint_loop body n last_n = Some r" for n last_n r
    by (rule uint_loop.raw_induct [where P = "\<lambda>_ _ b _. b \<noteq> -1", OF _ that])
       (auto split: if_splits Option.bind_splits)
  then show ?thesis by (cases "uint_loop body n (-1)") auto
qed

lemma in_uint_range: "(\<exists>i \<in> {unat n..<unat m + 1}. x = of_nat i) \<longleftrightarrow> n \<le> x \<and> x \<le> m" for n m x :: u32
proof
  assume "n \<le> x \<and> x \<le> m"
  then have "unat x \<in> {unat n..<unat m + 1}" by (simp add: word_le_nat_alt)
  then show "\<exists>i \<in> {unat n..<unat m + 1}. x = of_nat i" by (intro bexI [of _ "unat x"]) simp_all
next
  assume "\<exists>i \<in> {unat n..<unat m + 1}. x = of_nat i"
  then obtain i where i: "unat n \<le> i" "i \<le> unat m" "x = of_nat i" by auto
  then have "i < 4294967296" using unsigned_less [of m, where ?'a = nat] by simp
  with i show "n \<le> x \<and> x \<le> m" by (simp add: word_le_nat_alt unat_of_nat_u32)
qed

lemma removed_at_set:
  "set (removed_at prev addr c) = (if c \<in> chunks_of prev then {(c, addr)} else {})"
  by (auto simp: removed_at_def in_chunks_of in_shard_def)

lemma uint_loop_removed:
  assumes "upper s < -1"
  shows "\<exists>r. uint_loop (removed_at prev addr) (lower s) (upper s) = Some r
    \<and> set r = {(c, a). a = addr \<and> c \<in> chunks s \<and> c \<in> chunks_of prev}"
proof -
  let ?R = "{unat (lower s)..<unat (upper s) + 1}"
  have "(c, a) \<in> (\<Union>i\<in>?R. if of_nat i \<in> chunks_of prev then {(of_nat i, addr)} else {}) \<longleftrightarrow>
      a = addr \<and> c \<in> chunks_of prev \<and> (\<exists>i\<in>?R. c = of_nat i)" for c a
    by (simp only: UN_iff) (auto split: if_splits)
  then have "(\<Union>i\<in>?R. if of_nat i \<in> chunks_of prev then {(of_nat i, addr)} else {})
      = {(c, a). a = addr \<and> c \<in> chunks s \<and> c \<in> chunks_of prev}"
    unfolding in_uint_range by auto
  moreover have "set (concat (map (\<lambda>i. removed_at prev addr (of_nat i)) [unat (lower s)..<unat (upper s) + 1]))
      = (\<Union>i\<in>?R. if of_nat i \<in> chunks_of prev then {(of_nat i, addr)} else {})"
    by (simp only: set_concat set_map set_upt image_image removed_at_set)
  ultimately show ?thesis using uint_loop_ends [OF assms] by metis
qed

lemma diff_shards_set:
  assumes "\<forall>s\<in>set ss. upper s < -1"
  shows "\<exists>r. diff_shards prev addr ss = Some r
    \<and> set r = {(c, a). a = addr \<and> c \<in> chunks_of ss \<and> c \<in> chunks_of prev}"
  using assms
proof (induction ss)
  case (Cons s ss)
  obtain r1 where "uint_loop (removed_at prev addr) (lower s) (upper s) = Some r1"
    "set r1 = {(c, a). a = addr \<and> c \<in> chunks s \<and> c \<in> chunks_of prev}"
    using uint_loop_removed [of s prev addr] Cons.prems by auto
  moreover obtain r2 where "diff_shards prev addr ss = Some r2"
    "set r2 = {(c, a). a = addr \<and> c \<in> chunks_of ss \<and> c \<in> chunks_of prev}"
    using Cons by auto
  ultimately show ?case by auto
qed simp

definition uppers_ok :: "SMConfigEntry list \<Rightarrow> bool" where
  "uppers_ok cfg \<longleftrightarrow> (\<forall>e\<in>set cfg. \<forall>s\<in>set (shards e). upper s \<le> NUM_CHUNKS)"

lemma calcNegativeDiff_set:
  assumes "uppers_ok cfg"
  shows "\<exists>r. calcNegativeDiff cfg prev = Some r
    \<and> set r = {(c, a). \<exists>e\<in>set cfg. a = vs_addr e \<and> a \<noteq> vs_addr prev \<and> c \<in> chunks_of (shards e)
                         \<and> c \<in> chunks_of (shards prev)}"
  using assms
proof (induction cfg)
  case (Cons e cfg)
  have "uppers_ok cfg" using Cons.prems by (simp add: uppers_ok_def)
  with Cons.IH obtain r2 where r2: "calcNegativeDiff cfg prev = Some r2"
    "set r2 = {(c, a). \<exists>e\<in>set cfg. a = vs_addr e \<and> a \<noteq> vs_addr prev \<and> c \<in> chunks_of (shards e)
                         \<and> c \<in> chunks_of (shards prev)}" by blast
  have "\<forall>s\<in>set (shards e). upper s < -1" using Cons.prems by (auto simp: uppers_ok_def intro: le_less_trans)
  from diff_shards_set [OF this] obtain r1 where "diff_shards (shards prev) (vs_addr e) (shards e) = Some r1"
    "set r1 = {(c, a). a = vs_addr e \<and> c \<in> chunks_of (shards e) \<and> c \<in> chunks_of (shards prev)}" by blast
  with r2 show ?case by auto
qed simp

end
