(* ===== verification/VS_Moves.thy ===== *)
theory VS_Moves
  imports Volume_Server
begin

text \<open>
  What the moving of keys does to a volume server: \<^const>\<open>updateToMove\<close>, \<^const>\<open>fetchSMConfig\<close>,
  \<^const>\<open>moveKeys\<close> and the steps of the thread pool's workers.
\<close>

section \<open>Registering removed chunks\<close>

definition first_target :: "(u32 \<times> string) list \<Rightarrow> nat \<Rightarrow> string option" where
  "first_target removed i = map_option snd (find (\<lambda>r. unat (fst r) = i) removed)"

text \<open>The target of chunk \<open>i\<close> after the update: the first one named, if the configuration is newer.\<close>

definition new_target :: "(u32 \<times> string) list \<Rightarrow> u32 \<Rightarrow> nat \<Rightarrow> string \<times> u32 \<Rightarrow> string \<times> u32" where
  "new_target removed num i old =
     (case first_target removed i of Some a \<Rightarrow> if snd old < num then (a, num) else old | None \<Rightarrow> old)"

text \<open>The keys a list of removed chunks sends to the queue.\<close>

definition registered :: "(string \<rightharpoonup> string) \<Rightarrow> (u32 \<times> string) list \<Rightarrow> u32 \<Rightarrow> (string \<times> u32) list \<Rightarrow> string set" where
  "registered m removed num tm =
     {k \<in> dom m. (\<exists>a. (key_chunk k, a) \<in> set removed) \<and> snd (tm ! unat (key_chunk k)) < num}"

lemma finite_keys_at: "finite (dom m) \<Longrightarrow> finite (keys_at m i)"
  by (rule finite_subset [of _ "dom m"]) (auto simp: keys_at_def)

lemma updateToMove_one_effect:
  assumes "mod_map_ok m vs" "finite (dom m)" "length (to_move vs) = 1001" "cq_inv (move_queue vs)" "c \<le> NUM_CHUNKS"
  shows "\<exists>q. updateToMove_one Allocated (c, a) vs =
      Inr (if snd (to_move vs ! unat c) < vs_config_num vs
           then vs\<lparr>to_move := (to_move vs)[unat c := (a, vs_config_num vs)], move_queue := q\<rparr> else vs)
    \<and> cq_inv q \<and> cq_elems q = cq_elems (move_queue vs) + mset_set (keys_at m (unat c))"
proof -
  have c: "unat c < 1001" using assms(5) by (simp add: word_le_nat_alt)
  let ?ks = "sorted_list_of_set (keys_at m (unat c))"
  let ?q = "enqueue_all tick_tid ?ks (move_queue vs)"
  have at: "vec_at Allocated (mod_map vs) c = Inr (keys_at m (unat c))"
    using assms(1) c by (simp add: vec_at_def vec_limit_def mod_map_ok_def)
  have "mset ?ks = mset_set (keys_at m (unat c))"
    using finite_keys_at [OF assms(2)] by (metis mset_sorted_list_of_multiset sorted_list_of_mset_set)
  then have "cq_inv ?q \<and> cq_elems ?q = cq_elems (move_queue vs) + mset_set (keys_at m (unat c))"
    using cq.enq_all [OF assms(4)] by (simp add: enqueue_all_def)
  then show ?thesis using at assms(3,5) c by (intro exI [of _ ?q]) (auto simp: updateToMove_one_def Let_def)
qed

lemma registered_Cons:
  assumes "length tm = 1001" "c \<le> NUM_CHUNKS"
  shows "snd (tm ! unat c) < num \<Longrightarrow> registered m ((c, a) # removed) num tm =
      registered m removed num (tm[unat c := (a, num)]) \<union> keys_at m (unat c)"
    and "\<not> snd (tm ! unat c) < num \<Longrightarrow> registered m ((c, a) # removed) num tm = registered m removed num tm"
  using assms by (auto simp: registered_def keys_at_def nth_list_update word_le_nat_alt word_unat_eq_iff)

lemma new_target_Cons:
  assumes "length tm = 1001" "c \<le> NUM_CHUNKS" "i < 1001"
  shows "snd (tm ! unat c) < num \<Longrightarrow> new_target ((c, a) # removed) num i (tm ! i) =
      new_target removed num i (tm[unat c := (a, num)] ! i)"
    and "\<not> snd (tm ! unat c) < num \<Longrightarrow> new_target ((c, a) # removed) num i (tm ! i) = new_target removed num i (tm ! i)"
  using assms by (auto simp: new_target_def first_target_def nth_list_update word_le_nat_alt split: option.splits)

lemma updateToMove_effect:
  assumes "mod_map_ok m vs" "finite (dom m)" "length (to_move vs) = 1001" "cq_inv (move_queue vs)"
    "\<forall>r\<in>set removed. fst r \<le> NUM_CHUNKS"
  shows "\<exists>tm q. updateToMove Allocated removed vs = Inr (vs\<lparr>to_move := tm, move_queue := q\<rparr>)
    \<and> length tm = 1001 \<and> cq_inv q
    \<and> (\<forall>i<1001. tm ! i = new_target removed (vs_config_num vs) i (to_move vs ! i))
    \<and> set_mset (cq_elems q) =
        set_mset (cq_elems (move_queue vs)) \<union> registered m removed (vs_config_num vs) (to_move vs)
    \<and> cq_elems (move_queue vs) \<subseteq># cq_elems q"
  using assms(1,3-5)
proof (induction removed arbitrary: vs)
  case Nil
  then show ?case
    by (intro exI [of _ "to_move vs"] exI [of _ "move_queue vs"])
      (simp add: new_target_def first_target_def registered_def)
next
  case (Cons r removed)
  obtain c a where r: "r = (c, a)" by fastforce
  have c: "c \<le> NUM_CHUNKS" using Cons.prems(4) r by simp
  obtain q where one: "updateToMove_one Allocated (c, a) vs =
      Inr (if snd (to_move vs ! unat c) < vs_config_num vs
           then vs\<lparr>to_move := (to_move vs)[unat c := (a, vs_config_num vs)], move_queue := q\<rparr> else vs)"
    and q: "cq_inv q" "cq_elems q = cq_elems (move_queue vs) + mset_set (keys_at m (unat c))"
    using updateToMove_one_effect [OF Cons.prems(1) assms(2) Cons.prems(2,3) c] by blast
  show ?case
  proof (cases "snd (to_move vs ! unat c) < vs_config_num vs")
    case False
    with Cons.IH [OF Cons.prems(1-3)] Cons.prems(4) one r show ?thesis
      by (auto simp: new_target_Cons(2) [OF Cons.prems(2) c] registered_Cons(2) [OF Cons.prems(2) c])
  next
    case True
    let ?vs = "vs\<lparr>to_move := (to_move vs)[unat c := (a, vs_config_num vs)], move_queue := q\<rparr>"
    have "mod_map_ok m ?vs" using Cons.prems(1) by (simp add: mod_map_ok_def)
    from Cons.IH [OF this] obtain tm q' where
      u: "updateToMove Allocated removed ?vs = Inr (?vs\<lparr>to_move := tm, move_queue := q'\<rparr>)"
      and tm: "length tm = 1001" "cq_inv q'"
        "\<forall>i<1001. tm ! i = new_target removed (vs_config_num vs) i (to_move ?vs ! i)"
      and e: "set_mset (cq_elems q') = set_mset (cq_elems q) \<union> registered m removed (vs_config_num vs) (to_move ?vs)"
        "cq_elems q \<subseteq># cq_elems q'"
      using Cons.prems q(1) by auto
    have s: "set_mset (cq_elems q) = set_mset (cq_elems (move_queue vs)) \<union> keys_at m (unat c)"
      using q(2) finite_keys_at [OF assms(2)] by simp
    have "cq_elems (move_queue vs) \<subseteq># cq_elems q'"
      using e(2) q(2) by (metis mset_subset_eq_add_left subset_mset.order_trans)
    then show ?thesis
      using u tm e(1) s one r True
      by (intro exI [of _ tm] exI [of _ q'])
        (auto simp: new_target_Cons(1) [OF Cons.prems(2) c] registered_Cons(1) [OF Cons.prems(2) c])
  qed
qed

section \<open>A tick\<close>

lemma find_snoc:
  "find P (xs @ [y]) = (case find P xs of Some x \<Rightarrow> Some x | None \<Rightarrow> if P y then Some y else None)"
  by (induction xs) auto

lemma adopt_fold:
  "fold adopt_entry es vs =
     vs\<lparr>vs_config := vs_config vs @ map decode_entry es,
        my_config := (case find (\<lambda>e. server_addr e = self_addr vs) (rev es) of
                        Some e \<Rightarrow> decode_entry e | None \<Rightarrow> my_config vs)\<rparr>"
proof (induction es arbitrary: vs)
  case (Cons e es)
  have a: "vs_addr (decode_entry e) = server_addr e" by (simp add: decode_entry_def)
  have s: "self_addr (adopt_entry e vs) = self_addr vs" "vs_config (adopt_entry e vs) = vs_config vs @ [decode_entry e]"
    "my_config (adopt_entry e vs) = (if server_addr e = self_addr vs then decode_entry e else my_config vs)"
    "adopt_entry e vs = vs\<lparr>vs_config := vs_config vs @ [decode_entry e],
       my_config := (if server_addr e = self_addr vs then decode_entry e else my_config vs)\<rparr>"
    by (simp_all add: adopt_entry_def Let_def a)
  have "fold adopt_entry (e # es) vs = (adopt_entry e vs)\<lparr>vs_config := vs_config (adopt_entry e vs) @ map decode_entry es,
        my_config := (case find (\<lambda>e. server_addr e = self_addr vs) (rev es) of
                        Some e \<Rightarrow> decode_entry e | None \<Rightarrow> my_config (adopt_entry e vs))\<rparr>"
    by (simp add: Cons s(1))
  then show ?case
    by (cases "find (\<lambda>e. server_addr e = self_addr vs) (rev es)") (simp_all add: s(2,3) find_snoc s(4))
qed simp

definition own_entry :: "string \<Rightarrow> QueryResponse \<Rightarrow> ConfigEntry option" where
  "own_entry addr cfg = find (\<lambda>e. server_addr e = addr) (rev cfg)"

lemma adopt_config_eq:
  "adopt_config cfg vs =
     vs\<lparr>vs_config := map decode_entry cfg,
        my_config := (case own_entry (self_addr vs) cfg of Some e \<Rightarrow> decode_entry e | None \<Rightarrow> my_config vs)\<rparr>"
  unfolding adopt_config_def adopt_fold own_entry_def by (simp cong: option.case_cong)

lemma response_ok_uppers: "response_ok r \<longleftrightarrow> uppers_ok (map decode_entry r)"
  by (auto simp: response_ok_def uppers_ok_def decode_entry_def)

text \<open>A tick that finds a newer configuration, on a server whose books are in order.\<close>

lemma fetch_effect:
  assumes "vs_inv contents vs" "status_ok st" "vs_config_num vs < num" "response_ok cfg" "status_ok st2"
  shows "\<exists>removed tm q.
      calcNegativeDiff (map decode_entry cfg) (my_config vs) = Some removed
    \<and> fetchSMConfig Allocated (st, num) (st2, cfg) vs =
        Inr ((adopt_config cfg vs)\<lparr>vs_config_num := num, to_move := tm, move_queue := q\<rparr>)
    \<and> length tm = 1001 \<and> cq_inv q \<and> (\<forall>i<1001. tm ! i = new_target removed num i (to_move vs ! i))
    \<and> set_mset (cq_elems q) =
        set_mset (cq_elems (move_queue vs)) \<union> registered (contents (db vs)) removed num (to_move vs)
    \<and> cq_elems (move_queue vs) \<subseteq># cq_elems q"
proof -
  let ?vs1 = "vs\<lparr>vs_config_num := num\<rparr>"
  let ?vs2 = "adopt_config cfg ?vs1" and ?m = "contents (db vs)"
  obtain removed where r: "calcNegativeDiff (map decode_entry cfg) (my_config vs) = Some removed"
    and set: "set removed = {(c, a). \<exists>e\<in>set (map decode_entry cfg). a = vs_addr e \<and> a \<noteq> vs_addr (my_config vs)
        \<and> c \<in> chunks_of (shards e) \<and> c \<in> chunks_of (shards (my_config vs))}"
    using calcNegativeDiff_set assms(4) response_ok_uppers by blast
  have le: "\<forall>r\<in>set removed. fst r \<le> NUM_CHUNKS"
    using assms(1) unfolding set vs_inv_def my_config_ok_def chunks_of_def by fastforce
  have i: "mod_map_ok ?m ?vs2" "finite (dom ?m)" "length (to_move ?vs2) = 1001" "cq_inv (move_queue ?vs2)"
    using assms(1) by (simp_all add: vs_inv_def moves_ok_def adopt_config_eq mod_map_ok_def)
  from updateToMove_effect [OF i le] obtain tm q where
    u: "updateToMove Allocated removed ?vs2 = Inr (?vs2\<lparr>to_move := tm, move_queue := q\<rparr>)" and
    tmq: "length tm = 1001" "cq_inv q" "\<forall>i<1001. tm ! i = new_target removed num i (to_move vs ! i)"
    "set_mset (cq_elems q) = set_mset (cq_elems (move_queue vs)) \<union> registered ?m removed num (to_move vs)"
    "cq_elems (move_queue vs) \<subseteq># cq_elems q"
    by (auto simp: adopt_config_eq)
  have "fetchSMConfig Allocated (st, num) (st2, cfg) vs = Inr (?vs2\<lparr>to_move := tm, move_queue := q\<rparr>)"
    using assms(2,3,5) r u by (simp add: fetchSMConfig_def Let_def adopt_config_eq)
  moreover have "?vs2\<lparr>to_move := tm, move_queue := q\<rparr> =
      (adopt_config cfg vs)\<lparr>vs_config_num := num, to_move := tm, move_queue := q\<rparr>"
    by (simp add: adopt_config_eq cong: option.case_cong)
  ultimately show ?thesis using r tmq by metis
qed

lemma my_config_adopt:
  assumes "my_config_ok vs" "response_ok cfg"
  shows "my_config_ok (adopt_config cfg vs)"
proof -
  have "e \<in> set cfg" if "own_entry (self_addr vs) cfg = Some e" for e
    using that by (metis own_entry_def find_Some_iff nth_mem set_rev)
  with assms show ?thesis
    by (auto simp: my_config_ok_def response_ok_def adopt_config_eq decode_entry_def split: option.splits)
qed

lemma fetch_failed_query:
  "status_ok st \<Longrightarrow> \<not> status_ok st2 \<Longrightarrow> fetchSMConfig acc (st, num) (st2, cfg) vs = fetchSMConfig acc (st, num) (OK, []) vs"
  by (simp add: fetchSMConfig_def Let_def)

lemma fetch_inv:
  assumes "vs_inv contents vs" "status_ok (fst n)" "response_ok (snd q)"
  shows "\<exists>vs'. fetchSMConfig Allocated n q vs = Inr vs' \<and> vs_inv contents vs' \<and> db vs' = db vs"
proof (cases "vs_config_num vs < snd n")
  case False
  then show ?thesis using assms by (auto simp: fetchSMConfig_def Let_def split: prod.splits)
next
  case True
  have main: "\<exists>vs'. fetchSMConfig Allocated (fst n, snd n) (OK, cfg) vs = Inr vs' \<and> vs_inv contents vs' \<and> db vs' = db vs"
    if cfg: "response_ok cfg" for cfg
  proof -
    obtain removed tm mq where e: "fetchSMConfig Allocated (fst n, snd n) (OK, cfg) vs =
        Inr ((adopt_config cfg vs)\<lparr>vs_config_num := snd n, to_move := tm, move_queue := mq\<rparr>)"
      "length tm = 1001" "cq_inv mq"
      "set_mset (cq_elems mq) = set_mset (cq_elems (move_queue vs)) \<union> registered (contents (db vs)) removed (snd n) (to_move vs)"
      using fetch_effect [OF assms(1,2) True cfg, of OK] by auto
    let ?vs = "(adopt_config cfg vs)\<lparr>vs_config_num := snd n, to_move := tm, move_queue := mq\<rparr>"
    have "my_config_ok ?vs"
      using my_config_adopt [of vs cfg] assms(1) cfg by (simp add: vs_inv_def my_config_ok_def)
    moreover have "moves_ok ?vs"
      using e assms(1) by (auto simp: moves_ok_def vs_inv_def adopt_config_eq registered_def)
    moreover have "db ?vs = db vs" "mod_map ?vs = mod_map vs" by (simp_all add: adopt_config_eq)
    ultimately have "vs_inv contents ?vs" using assms(1) by (simp add: vs_inv_def mod_map_ok_def)
    with e(1) \<open>db ?vs = db vs\<close> show ?thesis by blast
  qed
  show ?thesis
  proof (cases "status_ok (fst q)")
    case True
    then show ?thesis using main [OF assms(3)] by (cases "fst q"; cases q; cases n) auto
  next
    case False
    then show ?thesis
      using main [of "[]"] fetch_failed_query [OF assms(2) False, of Allocated "snd n" "snd q" vs]
      by (cases q; cases n) (auto simp: response_ok_def)
  qed
qed

section \<open>Moving\<close>

lemma unfinished_push: "unfinished (push_task t p) = add_mset t (unfinished p)"
  by (simp add: push_task_def push_task_count_def push_task_queue_def unfinished_def in_flight_def)

lemma moveKeys_inv:
  assumes "vs_inv contents vs" "\<And>d k. db_get L d k = contents d k"
  shows "\<exists>vs'. moveKeys L vs = Inr vs' \<and> vs_inv contents vs' \<and> db vs' = db vs
    \<and> cq_elems (move_queue vs') + image_mset task_key (unfinished (tpool vs')) =
      cq_elems (move_queue vs) + image_mset task_key (unfinished (tpool vs))"
proof (cases "try_dequeue (move_queue vs)")
  case None
  then show ?thesis using assms(1) by (simp add: moveKeys_def)
next
  case (Some r)
  obtain key q where r: "r = (key, q)" by fastforce
  have inv: "cq_inv (move_queue vs)" using assms(1) by (simp add: vs_inv_def moves_ok_def)
  have q: "cq_inv q" "cq_elems (move_queue vs) = add_mset key (cq_elems q)"
    using cq.deq_inv [OF inv] cq.deq_elems [OF inv] Some r by auto
  have ok: "key_ok key" using assms(1) q(2) by (simp add: vs_inv_def moves_ok_def)
  have c: "unat (key_chunk key) < length (to_move vs)"
    using assms(1) key_chunk_index [of key] by (simp add: vs_inv_def moves_ok_def)
  show ?thesis
  proof (cases "contents (db vs) key")
    case None
    then show ?thesis
      using Some r assms q ok cq.enq_inv [OF q(1)] cq.enq_elems [OF q(1)]
      by (simp add: moveKeys_def Let_def shard_mod_eq vs_inv_def moves_ok_def mod_map_ok_def my_config_ok_def)
  next
    case (Some v)
    then show ?thesis
      using \<open>try_dequeue (move_queue vs) = Some r\<close> r assms q ok c
      by (auto simp: moveKeys_def Let_def shard_mod_eq vs_inv_def moves_ok_def mod_map_ok_def my_config_ok_def
          unfinished_push)
  qed
qed

end
