(* ===== verification/VS_Service.thy ===== *)
theory VS_Service
  imports VS_Moves
begin

text \<open>
  The volume server as a service over LevelDB. \<open>leveldb_store\<close> states what its documentation
  promises of the four calls: a read returns what is stored, a write that reports success has
  taken effect, one that reports an error has not, and an iterator meets every stored key.
  \<open>reliable_leveldb\<close> adds that writes succeed. Under it the handlers refine an abstract store, every
  request keeps the invariant, and the server is a \<open>service\<close>.
\<close>

section \<open>Keys on the move\<close>

text \<open>The keys in the queue and in the tasks of the pool.\<close>

definition pending :: "'db VolumeServer \<Rightarrow> string multiset" where
  "pending vs = cq_elems (move_queue vs) + image_mset task_key (unfinished (tpool vs))"

lemma insert_keys_effect:
  assumes "vec_slots (mod_map vs) = map (\<lambda>i. {k \<in> A. unat (key_chunk k) = i}) [0..<1001]"
    "\<forall>k\<in>set keys. key_ok k"
  shows "\<exists>v. insert_keys Allocated keys vs = Inr (vs\<lparr>mod_map := v\<rparr>)
    \<and> vec_slots v = map (\<lambda>i. {k \<in> A \<union> set keys. unat (key_chunk k) = i}) [0..<1001]
    \<and> vec_size v = vec_size (mod_map vs)"
  using assms
proof (induction keys arbitrary: vs A)
  case (Cons k keys)
  let ?f = "\<lambda>i. {x \<in> insert k A. unat (key_chunk x) = i}"
  let ?v = "(mod_map vs)\<lparr>vec_slots := map ?f [0..<1001]\<rparr>"
  have "(\<lambda>j. if j = unat (key_chunk k) then insert k {x \<in> A. unat (key_chunk x) = unat (key_chunk k)}
         else {x \<in> A. unat (key_chunk x) = j}) = ?f" by (intro ext) auto
  then have "mod_map_insert Allocated (key_chunk k) k vs = Inr (vs\<lparr>mod_map := ?v\<rparr>)"
    using Cons.prems(1) key_chunk_index [of k]
    by (simp add: mod_map_insert_def vec_update_def vec_at_def vec_limit_def map_range_update)
  with Cons.IH [of "vs\<lparr>mod_map := ?v\<rparr>" "insert k A"] Cons.prems(2) show ?case
    by (simp add: shard_mod_eq)
next
  case Nil
  then show ?case by (intro exI [of _ "mod_map vs"]) simp
qed

section \<open>The contract of LevelDB\<close>

locale leveldb_store =
  fixes L :: "'db leveldb"
    and contents :: "'db \<Rightarrow> string \<rightharpoonup> string"
  assumes get_contents: "db_get L d k = contents d k"
    and put_contents: "contents (fst (db_put L d k v)) =
          (if snd (db_put L d k v) then (contents d)(k \<mapsto> v) else contents d)"
    and delete_contents: "contents (fst (db_delete L d k)) =
          (if snd (db_delete L d k) then (contents d)(k := None) else contents d)"
    and keys_contents: "set (db_keys L d) = dom (contents d)"
begin

lemma finite_contents: "finite (dom (contents d))"
  using keys_contents by (metis List.finite_set)

lemma Get_refines:
  "key_ok key \<Longrightarrow> VS_Get L vs key = Inr (kv_get (owns vs (key_chunk key)) (contents (db vs)) key)"
  by (simp add: VS_Get_def isMyKey_eq kv_get_def get_contents split: option.splits)

lemma refused_unchanged:
  assumes "key_ok key" "\<not> owns vs (key_chunk key)"
  shows "VS_Put L acc vs key v = Inr (vs, Status INVALID_ARGUMENT BAD_REQUEST)"
    "VS_Delete L acc vs key v = Inr (vs, Status INVALID_ARGUMENT BAD_REQUEST)"
  using assms by (simp_all add: VS_Put_def VS_Delete_def isMyKey_eq)

end

locale reliable_leveldb = leveldb_store +
  assumes put_succeeds: "snd (db_put L d k v)"
    and delete_succeeds: "snd (db_delete L d k)"
begin

lemma put_map: "contents (fst (db_put L d k v)) = (contents d)(k \<mapsto> v)"
  by (simp add: put_contents put_succeeds)

lemma delete_map: "contents (fst (db_delete L d k)) = (contents d)(k := None)"
  by (simp add: delete_contents delete_succeeds)

lemma vs_inv_store:
  assumes "vs_inv contents vs" "vec_slots v = map (keys_at (contents d)) [0..<1001]"
    "\<forall>k\<in>dom (contents d). key_ok k"
  shows "vs_inv contents (vs\<lparr>db := d, mod_map := v\<rparr>)"
  using assms finite_contents by (simp add: vs_inv_def mod_map_ok_def moves_ok_def my_config_ok_def)

lemma Put_refines:
  assumes "vs_inv contents vs" "key_ok key"
  shows "\<exists>d v. VS_Put L Allocated vs key x =
      Inr (vs\<lparr>db := d, mod_map := v\<rparr>, snd (kv_put (owns vs (key_chunk key)) (contents (db vs)) key x))
    \<and> contents d = fst (kv_put (owns vs (key_chunk key)) (contents (db vs)) key x)
    \<and> vs_inv contents (vs\<lparr>db := d, mod_map := v\<rparr>)"
proof (cases "owns vs (key_chunk key) \<and> key \<notin> dom (contents (db vs))")
  case False
  then show ?thesis
    using assms by (intro exI [of _ "db vs"] exI [of _ "mod_map vs"])
      (auto simp: VS_Put_def isMyKey_eq kv_put_def get_contents)
next
  case True
  let ?d = "fst (db_put L (db vs) key x)"
  let ?m = "(contents (db vs))(key \<mapsto> x)"
  have mm: "mod_map_ok (contents (db vs)) (vs\<lparr>db := ?d\<rparr>)"
    using assms(1) by (simp add: vs_inv_def mod_map_ok_def)
  obtain v where v: "mod_map_insert Allocated (key_chunk key) key (vs\<lparr>db := ?d\<rparr>) = Inr (vs\<lparr>db := ?d, mod_map := v\<rparr>)"
    "vec_slots v = map (keys_at ?m) [0..<1001]"
    using mod_map_insert_ok [OF mm, of key x] by auto
  have "vs_inv contents (vs\<lparr>db := ?d, mod_map := v\<rparr>)"
    using assms v(2) by (intro vs_inv_store) (auto simp: put_map vs_inv_def split: if_splits)
  then show ?thesis
    using True v(1) assms(2)
    by (intro exI [of _ ?d] exI [of _ v])
      (auto simp: VS_Put_def isMyKey_eq kv_put_def get_contents shard_mod_eq Let_def put_map)
qed

lemma erase_inv:
  assumes "vs_inv contents vs" "d = fst (db_delete L (db vs) key)"
  shows "\<exists>v. mod_map_erase Allocated (key_chunk key) key (vs\<lparr>db := d\<rparr>) = Inr (vs\<lparr>db := d, mod_map := v\<rparr>)
    \<and> vs_inv contents (vs\<lparr>db := d, mod_map := v\<rparr>)"
proof -
  have mm: "mod_map_ok (contents (db vs)) (vs\<lparr>db := d\<rparr>)"
    using assms(1) by (simp add: vs_inv_def mod_map_ok_def)
  obtain v where v: "mod_map_erase Allocated (key_chunk key) key (vs\<lparr>db := d\<rparr>) = Inr (vs\<lparr>db := d, mod_map := v\<rparr>)"
    "vec_slots v = map (keys_at ((contents (db vs))(key := None))) [0..<1001]"
    using mod_map_erase_ok [OF mm, of key] by auto
  moreover have "vs_inv contents (vs\<lparr>db := d, mod_map := v\<rparr>)"
    using assms v(2) by (intro vs_inv_store) (auto simp: delete_map vs_inv_def split: if_splits)
  ultimately show ?thesis by blast
qed

lemma Delete_refines:
  assumes "vs_inv contents vs" "key_ok key"
  shows "\<exists>d v. VS_Delete L Allocated vs key x =
      Inr (vs\<lparr>db := d, mod_map := v\<rparr>, snd (kv_delete (owns vs (key_chunk key)) (contents (db vs)) key))
    \<and> contents d = fst (kv_delete (owns vs (key_chunk key)) (contents (db vs)) key)
    \<and> vs_inv contents (vs\<lparr>db := d, mod_map := v\<rparr>)"
proof (cases "owns vs (key_chunk key) \<and> key \<in> dom (contents (db vs))")
  case False
  then show ?thesis
    using assms by (intro exI [of _ "db vs"] exI [of _ "mod_map vs"])
      (auto simp: VS_Delete_def isMyKey_eq kv_delete_def get_contents)
next
  case True
  let ?d = "fst (db_delete L (db vs) key)"
  obtain v where "mod_map_erase Allocated (key_chunk key) key (vs\<lparr>db := ?d\<rparr>) = Inr (vs\<lparr>db := ?d, mod_map := v\<rparr>)"
    "vs_inv contents (vs\<lparr>db := ?d, mod_map := v\<rparr>)"
    using erase_inv [OF assms(1) refl] by blast
  with True assms(2) show ?thesis
    by (intro exI [of _ ?d] exI [of _ v])
      (auto simp: VS_Delete_def isMyKey_eq kv_delete_def get_contents shard_mod_eq Let_def delete_map)
qed

lemma move_task_finish_inv:
  assumes "vs_inv contents vs" "key_ok (task_key t)" "task_shard t = key_chunk (task_key t)"
  shows "\<exists>vs'. move_task_finish L Allocated i t st vs = Inr vs' \<and> vs_inv contents vs' \<and> tpool vs' = tpool vs
    \<and> (if status_ok st then contents (db vs') = (contents (db vs))(task_key t := None) \<and> move_queue vs' = move_queue vs
       else db vs' = db vs \<and> cq_elems (move_queue vs') = add_mset (task_key t) (cq_elems (move_queue vs)))"
proof (cases "status_ok st")
  case True
  then show ?thesis
    using erase_inv [OF assms(1) refl, of "task_key t"] assms(3)
    by (auto simp: move_task_finish_def delete_map)
next
  case False
  have "cq_inv (move_queue vs)" using assms(1) by (simp add: vs_inv_def moves_ok_def)
  with False assms(1,2) show ?thesis
    by (simp add: move_task_finish_def vs_inv_def mod_map_ok_def moves_ok_def my_config_ok_def cq.enq_inv cq.enq_elems)
qed

lemma worker_inv:
  assumes "vs_inv contents vs"
  shows "\<exists>vs'. vs_worker_step L Allocated i rpc vs = Inr vs' \<and> vs_inv contents vs'
    \<and> (pending vs' = pending vs \<and> db vs' = db vs
       \<or> (\<exists>t. t \<in># unfinished (tpool vs) \<and> status_ok (rpc t) \<and> pending vs = add_mset (task_key t) (pending vs')
            \<and> contents (db vs') = (contents (db vs))(task_key t := None)))"
proof (cases "i < length (workers (tpool vs))")
  case False
  then show ?thesis using assms by (simp add: vs_worker_step_def)
next
  case i: True
  obtain ev p where w: "worker_step i (tpool vs) = (ev, p)" by fastforce
  have c: "unfinished (tpool vs) = unfinished p + completed [ev]"
    using worker_step_conserves [OF i w] by simp
  let ?vs = "vs\<lparr>tpool := p\<rparr>"
  have inv: "vs_inv contents ?vs"
    using assms c by (auto simp: vs_inv_def moves_ok_def mod_map_ok_def my_config_ok_def)
  show ?thesis
  proof (cases ev)
    case (Completed t)
    then have t: "t \<in># unfinished (tpool vs)" using c by simp
    then have ok: "key_ok (task_key t)" "task_shard t = key_chunk (task_key t)"
      using assms by (auto simp: vs_inv_def moves_ok_def)
    obtain vs' where f: "move_task_finish L Allocated i t (rpc t) ?vs = Inr vs'" "vs_inv contents vs'" "tpool vs' = p"
      "if status_ok (rpc t) then contents (db vs') = (contents (db vs))(task_key t := None) \<and> move_queue vs' = move_queue vs
       else db vs' = db vs \<and> cq_elems (move_queue vs') = add_mset (task_key t) (cq_elems (move_queue vs))"
      using move_task_finish_inv [OF inv ok, of i "rpc t"] by auto
    then have r: "vs_worker_step L Allocated i rpc vs = Inr vs'" using i w Completed by (simp add: vs_worker_step_def)
    show ?thesis
    proof (cases "status_ok (rpc t)")
      case True
      then have "pending vs = add_mset (task_key t) (pending vs')" "contents (db vs') = (contents (db vs))(task_key t := None)"
        using f c Completed by (simp_all add: pending_def)
      with r f(2) t True show ?thesis by blast
    next
      case False
      then have "pending vs' = pending vs" "db vs' = db vs" using f c Completed by (simp_all add: pending_def)
      with r f(2) show ?thesis by blast
    qed
  qed (use w c i inv in \<open>simp_all add: vs_worker_step_def pending_def\<close>)
qed

lemma vs_handle_inv:
  assumes "vs_inv contents vs" "vs_valid r"
  shows "\<exists>vs' p. vs_handle L Allocated vs r = Inr (vs', p) \<and> vs_inv contents vs'"
proof (cases r)
  case (Get_req key)
  then show ?thesis using assms Get_refines [of key vs] by (simp add: case_prod_unfold)
next
  case (Put_req key x)
  then have "key_ok key" using assms(2) by simp
  from Put_refines [OF assms(1) this, of x] obtain d v st where
    "VS_Put L Allocated vs key x = Inr (vs\<lparr>db := d, mod_map := v\<rparr>, st)" "vs_inv contents (vs\<lparr>db := d, mod_map := v\<rparr>)"
    by blast
  with Put_req show ?thesis by auto
next
  case (Delete_req key x)
  then have "key_ok key" using assms(2) by simp
  from Delete_refines [OF assms(1) this, of x] obtain d v st where
    "VS_Delete L Allocated vs key x = Inr (vs\<lparr>db := d, mod_map := v\<rparr>, st)" "vs_inv contents (vs\<lparr>db := d, mod_map := v\<rparr>)"
    by blast
  with Delete_req show ?thesis by auto
next
  case (Tick n q)
  then have "status_ok (fst n)" "response_ok (snd q)" using assms(2) by simp_all
  from fetch_inv [OF assms(1) this] Tick show ?thesis by auto
next
  case Move_pass
  then show ?thesis using moveKeys_inv [OF assms(1) get_contents] by auto
next
  case (Worker i rpc)
  then show ?thesis using worker_inv [OF assms(1), of i rpc] by auto
qed

lemma new_inv:
  assumes "\<forall>k\<in>dom (contents d). key_ok k" "status_ok st"
  shows "\<exists>vs. VolumeServer_new L Allocated cores junk addr (Some d) st = Inr vs \<and> vs_inv contents vs
    \<and> db vs = d \<and> self_addr vs = addr \<and> vs_config_num vs = 0 \<and> vec_size (mod_map vs) = 0 \<and> pending vs = {#}
    \<and> shards (my_config vs) = [] \<and> (\<forall>i<1001. to_move vs ! i = ([], 0))"
proof -
  define vs0 where "vs0 = (VolumeServer_members cores junk addr d)\<lparr>vs_config := [], vs_config_num := 0,
      to_move := replicate 1001 ([], 0), mod_map := vec_clear (vec_resize 1001)\<rparr>"
  have m0: "vec_slots (mod_map vs0) = map (\<lambda>i. {k \<in> {}. unat (key_chunk k) = i}) [0..<1001]"
    by (simp add: vs0_def vec_clear_def vec_resize_def map_replicate_const)
  have keys: "\<forall>k\<in>set (db_keys L d). key_ok k" using assms(1) keys_contents by simp
  obtain v where v: "insert_keys Allocated (db_keys L d) vs0 = Inr (vs0\<lparr>mod_map := v\<rparr>)"
    "vec_slots v = map (\<lambda>i. {k \<in> {} \<union> set (db_keys L d). unat (key_chunk k) = i}) [0..<1001]" "vec_size v = 0"
    using insert_keys_effect [OF m0 keys] by (auto simp: vs0_def vec_clear_def)
  have n: "VolumeServer_new L Allocated cores junk addr (Some d) st = Inr (vs0\<lparr>mod_map := v\<rparr>)"
    using assms(2) v(1) by (simp add: VolumeServer_new_def requestJoin_def formModMap_def vs0_def Let_def VolumeServer_members_def)
  have "mod_map_ok (contents d) (vs0\<lparr>mod_map := v\<rparr>)"
    using v(2) keys_contents by (simp add: mod_map_ok_def keys_at_def)
  moreover have "moves_ok (vs0\<lparr>mod_map := v\<rparr>)"
    by (simp add: moves_ok_def vs0_def VolumeServer_members_def cq_inv_empty unfinished_init)
       (simp add: cq_elems_def cq_empty_def)
  moreover have "my_config_ok (vs0\<lparr>mod_map := v\<rparr>)" by (simp add: my_config_ok_def vs0_def VolumeServer_members_def)
  moreover have "db vs0 = d" "self_addr vs0 = addr" "vs_config_num vs0 = 0" "shards (my_config vs0) = []"
    "to_move vs0 = replicate 1001 ([], 0)" by (simp_all add: vs0_def VolumeServer_members_def)
  moreover have "pending vs0 = {#}"
    by (simp add: pending_def vs0_def VolumeServer_members_def unfinished_init) (simp add: cq_elems_def cq_empty_def)
  moreover have "pending (vs0\<lparr>mod_map := v\<rparr>) = pending vs0" by (simp add: pending_def)
  ultimately have "vs_inv contents (vs0\<lparr>mod_map := v\<rparr>)" "db (vs0\<lparr>mod_map := v\<rparr>) = d \<and> self_addr (vs0\<lparr>mod_map := v\<rparr>) = addr
      \<and> vs_config_num (vs0\<lparr>mod_map := v\<rparr>) = 0 \<and> vec_size (mod_map (vs0\<lparr>mod_map := v\<rparr>)) = 0 \<and> pending (vs0\<lparr>mod_map := v\<rparr>) = {#}
      \<and> shards (my_config (vs0\<lparr>mod_map := v\<rparr>)) = [] \<and> (\<forall>i<1001. to_move (vs0\<lparr>mod_map := v\<rparr>) ! i = ([], 0))"
    using assms(1) finite_contents v(3) by (simp_all add: vs_inv_def)
  with n show ?thesis by blast
qed

end

sublocale reliable_leveldb \<subseteq> volume: service "vs_handle L Allocated" "vs_inv contents" vs_valid
  by unfold_locales (rule vs_handle_inv)

end
