(* ===== verification/VS_Properties.thy ===== *)
theory VS_Properties
  imports VS_Service "HOL-Library.AList"
begin

text \<open>
  The properties of the volume server, over any store that keeps LevelDB's contract, with a
  reference store (an association list) on which they are evaluated, and the behaviours of the
  code that its comments do not mean: the cleared vector, ignored write errors, the wrong
  assertion, stale ownership and stranded keys.
\<close>

section \<open>A reference store\<close>

type_synonym alist_db = "(string \<times> string) list"

definition alist_store :: "alist_db leveldb" where
  "alist_store =
     \<lparr>db_get = map_of, db_put = (\<lambda>d k v. (AList.update k v d, True)),
      db_delete = (\<lambda>d k. (AList.delete k d, True)), db_keys = (\<lambda>d. map fst d)\<rparr>"

text \<open>A store on a full disk: it reads, and every write reports an error.\<close>

definition full_store :: "alist_db leveldb" where
  "full_store =
     \<lparr>db_get = map_of, db_put = (\<lambda>d k v. (d, False)), db_delete = (\<lambda>d k. (d, False)),
      db_keys = (\<lambda>d. map fst d)\<rparr>"

interpretation alist: reliable_leveldb alist_store map_of
  by unfold_locales
    (auto simp: alist_store_def update_conv' delete_conv' dom_map_of_conv_image_fst)

interpretation full: leveldb_store full_store map_of
  by unfold_locales (auto simp: full_store_def dom_map_of_conv_image_fst)

text \<open>A server that has started on an empty store and adopted a configuration in which it owns all chunks.\<close>

definition whole_config :: QueryResponse where
  "whole_config = [\<lparr>entry_shards = [(0, 1000)], server_addr = ''A''\<rparr>]"

definition split_config :: QueryResponse where
  "split_config = [\<lparr>entry_shards = [(0, 499)], server_addr = ''A''\<rparr>, \<lparr>entry_shards = [(500, 1000)], server_addr = ''B''\<rparr>]"

definition started :: "alist_db VolumeServer" where
  "started = (VolumeServer_members 4 7 ''A'' [])\<lparr>vs_config := map decode_entry whole_config, vs_config_num := 1,
     my_config := decode_entry (hd whole_config), to_move := replicate 1001 ([], 0),
     mod_map := vec_clear (vec_resize 1001)\<rparr>"

section \<open>Sessions and handlers\<close>


definition example_requests :: "vs_request list" where
  "example_requests = [Tick (OK, 1) (OK, whole_config), Put_req ''k'' ''v'', Get_req ''k'', Tick (OK, 2) (OK, split_config),
     Move_pass, Worker 0 (\<lambda>_. OK), Delete_req ''k'' ''v'']"


text \<open>
  (C5) Get, Put and Delete refine the abstract store: on every branch they answer what the
  specification answers (a key of another server, a missing key, an existing key, success), the
  stored map changes as specified, and the books stay in order.
\<close>

theorem vs_handlers_refine_store:
  assumes "reliable_leveldb L contents" "vs_inv contents vs" "key_ok key"
  shows "VS_Get L vs key = Inr (kv_get (owns vs (key_chunk key)) (contents (db vs)) key)
    \<and> (\<exists>vs'. VS_Put L Allocated vs key value = Inr (vs', snd (kv_put (owns vs (key_chunk key)) (contents (db vs)) key value))
         \<and> contents (db vs') = fst (kv_put (owns vs (key_chunk key)) (contents (db vs)) key value)
         \<and> vs_inv contents vs' \<and> my_config vs' = my_config vs)
    \<and> (\<exists>vs'. VS_Delete L Allocated vs key value = Inr (vs', snd (kv_delete (owns vs (key_chunk key)) (contents (db vs)) key))
         \<and> contents (db vs') = fst (kv_delete (owns vs (key_chunk key)) (contents (db vs)) key)
         \<and> vs_inv contents vs' \<and> my_config vs' = my_config vs)"
proof -
  have g: "VS_Get L vs key = Inr (kv_get (owns vs (key_chunk key)) (contents (db vs)) key)"
    by (rule leveldb_store.Get_refines [OF reliable_leveldb.axioms(1) [OF assms(1)] assms(3)])
  obtain d v where p: "VS_Put L Allocated vs key value = Inr (vs\<lparr>db := d, mod_map := v\<rparr>, snd (kv_put (owns vs (key_chunk key)) (contents (db vs)) key value))"
    "contents d = fst (kv_put (owns vs (key_chunk key)) (contents (db vs)) key value)" "vs_inv contents (vs\<lparr>db := d, mod_map := v\<rparr>)"
    using reliable_leveldb.Put_refines [OF assms] by blast
  obtain d' v' where q: "VS_Delete L Allocated vs key value = Inr (vs\<lparr>db := d', mod_map := v'\<rparr>, snd (kv_delete (owns vs (key_chunk key)) (contents (db vs)) key))"
    "contents d' = fst (kv_delete (owns vs (key_chunk key)) (contents (db vs)) key)" "vs_inv contents (vs\<lparr>db := d', mod_map := v'\<rparr>)"
    using reliable_leveldb.Delete_refines [OF assms] by blast
  show ?thesis using g p(1) q(1) exI [of _ "vs\<lparr>db := d, mod_map := v\<rparr>"] p(2,3) q(2,3) by auto
qed

lemma started_slots: "vec_slots (mod_map started) = replicate 1001 {}"
  by (simp add: started_def vec_clear_def vec_resize_def map_replicate_const)

lemma started_inv: "vs_inv map_of started"
proof -
  have "keys_at Map.empty = (\<lambda>_. {})" by (simp add: keys_at_def fun_eq_iff)
  then have "mod_map_ok Map.empty started"
    by (simp add: mod_map_ok_def started_slots map_replicate_const)
  moreover have "moves_ok started"
    by (simp add: moves_ok_def started_def VolumeServer_members_def cq_inv_empty unfinished_init)
       (simp add: cq_elems_def cq_empty_def)
  moreover have "my_config_ok started" by (simp add: my_config_ok_def started_def whole_config_def decode_entry_def)
  ultimately show ?thesis by (simp add: vs_inv_def) (simp add: started_def VolumeServer_members_def)
qed

lemma started_owns: "owns started (key_chunk k)"
  using key_chunk_less [of k]
  by (simp add: owns_def started_def whole_config_def decode_entry_def in_shard_def)

lemma started_db: "db started = []"
  by (simp add: started_def VolumeServer_members_def)

theorem vs_handlers_refine_store_witness:
  "VS_Get alist_store started ''k'' = Inr (Status NOT_FOUND KEY_NOT_FOUND, \<lparr>res_key = [], res_value = []\<rparr>)
   \<and> (\<exists>vs'. VS_Put alist_store Allocated started ''k'' ''v'' = Inr (vs', OK) \<and> map_of (db vs') ''k'' = Some ''v'')
   \<and> (\<exists>vs'. VS_Delete alist_store Allocated started ''k'' ''v'' = Inr (vs', Status NOT_FOUND KEY_NOT_FOUND))"
  using vs_handlers_refine_store [OF alist.reliable_leveldb_axioms started_inv, of "''k''" "''v''"]
  by (auto simp: key_ok_def started_owns started_db kv_get_def kv_put_def kv_delete_def)

section \<open>Handing chunks over\<close>

lemma unique_holder:
  assumes "holders cfg c = 1" "e \<in> set cfg" "c \<in> chunks_of (shards e)"
  shows "owner_of cfg c = Some (vs_addr e)"
  using assms
proof (induction cfg)
  case (Cons x cfg)
  have pos: "0 < cover (shards e) c" using assms(3) cover_pos by (auto simp: in_chunks_of list_ex_iff)
  show ?case
  proof (cases "0 < cover (shards x) c")
    case True
    then have "holders cfg c = 0" using Cons.prems(1) by simp
    then have "e \<notin> set cfg" using holders_le [of e cfg c] pos by auto
    with True Cons.prems(2) show ?thesis by (auto simp: owner_of_Cons)
  next
    case False
    with Cons pos show ?thesis by (auto simp: owner_of_Cons)
  qed
qed simp

lemma first_target_owner:
  assumes r: "calcNegativeDiff cfg prev = Some removed" and u: "uppers_ok cfg"
    and h: "holders cfg c = 1" "owner_of cfg c = Some a" "a \<noteq> vs_addr prev" "c \<in> chunks_of (shards prev)"
  shows "first_target removed (unat c) = Some a" "(c, a) \<in> set removed"
proof -
  have set: "set removed = {(c, a). \<exists>e\<in>set cfg. a = vs_addr e \<and> a \<noteq> vs_addr prev \<and> c \<in> chunks_of (shards e)
                         \<and> c \<in> chunks_of (shards prev)}"
    using calcNegativeDiff_set [OF u, of prev] r by auto
  obtain e where e: "e \<in> set cfg" "owner_of cfg c = Some (vs_addr e)" "0 < cover (shards e) c"
    using owner_exists [of cfg c] h(1) by auto
  then have "c \<in> chunks_of (shards e)" using cover_pos by (auto simp: in_chunks_of list_ex_iff)
  with e h show mem: "(c, a) \<in> set removed" by (auto simp: set)
  have only: "a' = a" if "(c, a') \<in> set removed" for a'
    using that unique_holder [OF h(1)] h(2) by (auto simp: set)
  obtain p where p: "find (\<lambda>r. unat (fst r) = unat c) removed = Some p"
    using mem by (cases "find (\<lambda>r. unat (fst r) = unat c) removed") (force simp: find_None_iff)+
  then have "p \<in> set removed" "unat (fst p) = unat c" by (auto simp: find_Some_iff)
  then have "p = (c, snd p)" "(c, snd p) \<in> set removed" by (metis prod.collapse word_unat_eq_iff)+
  then have "snd p = a" using only by blast
  then show "first_target removed (unat c) = Some a" using p by (simp add: first_target_def)
qed

lemma fetch_hands_over:
  assumes "vs_inv contents vs" "vs_config_num vs < num" "partitioned (map decode_entry cfg)"
    "vs_addr (my_config vs) = self_addr vs"
    "k \<in> dom (contents (db vs))" "owns vs (key_chunk k)"
    "owner_of (map decode_entry cfg) (key_chunk k) = Some a" "a \<noteq> self_addr vs"
    "snd (to_move vs ! unat (key_chunk k)) < num"
  shows "\<exists>vs'. fetchSMConfig Allocated (OK, num) (OK, cfg) vs = Inr vs'
    \<and> k \<in># cq_elems (move_queue vs') \<and> to_move vs' ! unat (key_chunk k) = (a, num)
    \<and> cq_elems (move_queue vs) \<subseteq># cq_elems (move_queue vs') \<and> db vs' = db vs
    \<and> vs_config_num vs' = num \<and> vs_config vs' = map decode_entry cfg
    \<and> my_config vs' = my_config (adopt_config cfg vs)"
proof -
  let ?c = "key_chunk k"
  have u: "uppers_ok (map decode_entry cfg)" using assms(3) by (simp add: partitioned_def uppers_ok_def)
  obtain removed tm q where f:
    "calcNegativeDiff (map decode_entry cfg) (my_config vs) = Some removed"
    "fetchSMConfig Allocated (OK, num) (OK, cfg) vs =
        Inr ((adopt_config cfg vs)\<lparr>vs_config_num := num, to_move := tm, move_queue := q\<rparr>)"
    "\<forall>i<1001. tm ! i = new_target removed num i (to_move vs ! i)"
    "set_mset (cq_elems q) =
        set_mset (cq_elems (move_queue vs)) \<union> registered (contents (db vs)) removed num (to_move vs)"
    "cq_elems (move_queue vs) \<subseteq># cq_elems q"
    using fetch_effect [OF assms(1) _ assms(2), of OK cfg OK] u by (auto simp: response_ok_uppers)
  have "?c \<le> SM_NUM_CHUNKS" using key_chunk_less [of k] by simp
  then have h: "holders (map decode_entry cfg) ?c = 1" using assms(3) by (simp add: partitioned_def)
  have c: "?c \<in> chunks_of (shards (my_config vs))" using assms(6) by (simp add: owns_def in_chunks_of list_ex_iff)
  have t: "first_target removed (unat ?c) = Some a" "(?c, a) \<in> set removed"
    using first_target_owner [OF f(1) u h assms(7)] assms(4,8) c by simp_all
  have "tm ! unat ?c = (a, num)"
    using f(3) key_chunk_index [of k] t(1) assms(9) by (simp add: new_target_def)
  moreover have "k \<in># cq_elems q" using f(4) t(2) assms(5,9) by (auto simp: registered_def)
  ultimately show ?thesis using f(2,5) by (simp add: adopt_config_eq)
qed

text \<open>
  (C6) When a tick finds a newer configuration in which every chunk has exactly one server, every stored
  key whose chunk this server had and another server now has is put into the move queue, and the
  chunk's target is that server, stamped with the new configuration number; nothing queued is lost and
  the store is not touched.
\<close>

theorem fetch_registers_moves:
  assumes "vs_inv contents vs" "vs_config_num vs < num" "partitioned (map decode_entry cfg)"
    "vs_addr (my_config vs) = self_addr vs"
    "k \<in> dom (contents (db vs))" "owns vs (key_chunk k)"
    "owner_of (map decode_entry cfg) (key_chunk k) = Some a" "a \<noteq> self_addr vs"
    "snd (to_move vs ! unat (key_chunk k)) < num"
  shows "\<exists>vs'. fetchSMConfig Allocated (OK, num) (OK, cfg) vs = Inr vs'
    \<and> k \<in># cq_elems (move_queue vs') \<and> to_move vs' ! unat (key_chunk k) = (a, num)
    \<and> cq_elems (move_queue vs) \<subseteq># cq_elems (move_queue vs') \<and> db vs' = db vs
    \<and> vs_config_num vs' = num \<and> vs_config vs' = map decode_entry cfg"
  using fetch_hands_over [OF assms] by blast

text \<open>A server with one key, and a configuration that gives all chunks to another server.\<close>

definition other_config :: QueryResponse where
  "other_config = [\<lparr>entry_shards = [(0, 1000)], server_addr = ''B''\<rparr>]"

lemma other_partitioned: "partitioned (map decode_entry other_config)"
  by (auto simp: partitioned_def other_config_def decode_entry_def in_shard_def shard_ok_def)

lemma other_owner: "c \<le> 1000 \<Longrightarrow> owner_of (map decode_entry other_config) c = Some ''B''"
  by (simp add: owner_of_def other_config_def decode_entry_def in_shard_def)

lemma one_key:
  obtains vs where "VS_Put alist_store Allocated started ''k'' ''v'' = Inr (vs, OK)" "vs_inv map_of vs"
    "map_of (db vs) = [''k'' \<mapsto> ''v'']" "vs_config_num vs = 1" "my_config vs = my_config started"
    "self_addr vs = ''A''" "to_move vs = replicate 1001 ([], 0)" "tpool vs = tpool started"
    "move_queue vs = move_queue started"
proof -
  obtain d v where p: "VS_Put alist_store Allocated started ''k'' ''v'' = Inr (started\<lparr>db := d, mod_map := v\<rparr>, OK)"
    "map_of d = [''k'' \<mapsto> ''v'']" "vs_inv map_of (started\<lparr>db := d, mod_map := v\<rparr>)"
    using alist.Put_refines [OF started_inv, of "''k''" "''v''"]
    by (auto simp: key_ok_def started_owns started_db kv_put_def)
  then show ?thesis
    by (intro that [of "started\<lparr>db := d, mod_map := v\<rparr>"]) (simp_all add: started_def VolumeServer_members_def)
qed

theorem fetch_registers_moves_witness:
  "\<exists>vs vs'. VS_Put alist_store Allocated started ''k'' ''v'' = Inr (vs, OK)
     \<and> fetchSMConfig Allocated (OK, 2) (OK, other_config) vs = Inr vs'
     \<and> ''k'' \<in># cq_elems (move_queue vs') \<and> to_move vs' ! unat (key_chunk ''k'') = (''B'', 2)"
proof -
  obtain vs where vs: "VS_Put alist_store Allocated started ''k'' ''v'' = Inr (vs, OK)" "vs_inv map_of vs"
    "map_of (db vs) = [''k'' \<mapsto> ''v'']" "vs_config_num vs = 1" "my_config vs = my_config started"
    "self_addr vs = ''A''" "to_move vs = replicate 1001 ([], 0)" by (rule one_key)
  have c: "key_chunk ''k'' \<le> 1000" using key_chunk_less [of "''k''"] by simp
  have "vs_addr (my_config vs) = self_addr vs" using vs by (simp add: started_def whole_config_def decode_entry_def)
  moreover have "owns vs (key_chunk ''k'')" using started_owns [of "''k''"] vs by (simp add: owns_def)
  ultimately show ?thesis
    using fetch_registers_moves [OF vs(2) _ other_partitioned, of 2 "''k''" "''B''"] vs other_owner [OF c]
      key_chunk_index [of "''k''"] by auto
qed

section \<open>Moving keys\<close>

text \<open>
  (C17) Passes of \<^verbatim>\<open>moveKeys\<close> and worker steps neither fault nor forget a key: the keys in the queue and
  in the tasks of the pool stay the same as a bag, except that a task whose Put was answered \<open>OK\<close> takes
  its key out, and then that key, and no other, is deleted from the store. So a key leaves this
  server's store only after another server has acknowledged it.
\<close>

theorem moves_keep_keys:
  assumes "reliable_leveldb L contents" "vs_inv contents vs"
  shows "(\<exists>vs'. moveKeys L vs = Inr vs' \<and> pending vs' = pending vs \<and> db vs' = db vs)
    \<and> (\<exists>vs'. vs_worker_step L Allocated i rpc vs = Inr vs' \<and>
         (pending vs' = pending vs \<and> db vs' = db vs
          \<or> (\<exists>t. t \<in># unfinished (tpool vs) \<and> status_ok (rpc t) \<and> pending vs = add_mset (task_key t) (pending vs')
               \<and> contents (db vs') = (contents (db vs))(task_key t := None))))"
proof -
  have "db_get L d k = contents d k" for d k
    by (rule leveldb_store.get_contents [OF reliable_leveldb.axioms(1) [OF assms(1)]])
  from moveKeys_inv [OF assms(2) this] reliable_leveldb.worker_inv [OF assms, of i rpc] show ?thesis
    unfolding pending_def by blast
qed

theorem moves_keep_keys_witness:
  "\<exists>vs'. moveKeys alist_store started = Inr vs' \<and> pending vs' = pending started \<and> db vs' = []"
  using moves_keep_keys [OF alist.reliable_leveldb_axioms started_inv] by (auto simp: started_db)

section \<open>Where the code departs from its intent\<close>

lemma insert_past_size: "vec_size (mod_map vs) = 0 \<Longrightarrow> mod_map_insert Standard i k vs = Inl Undefined_Behaviour"
  by (simp add: mod_map_insert_def vec_update_def vec_at_def vec_limit_def)

text \<open>
  (C35) \<^verbatim>\<open>formModMap\<close> clears the vector the constructor has just resized, so by the C++ standard every
  later use of it is undefined: a server over a store that holds keys does not get through its
  constructor, and one over an empty store fails at the first Put it accepts.
\<close>

theorem cleared_mod_map_undefined:
  assumes "leveldb_store L contents" "\<forall>k\<in>dom (contents d). key_ok k"
  shows "if contents d = Map.empty
    then \<exists>vs. VolumeServer_new L Standard cores junk addr (Some d) OK = Inr vs
      \<and> (\<forall>vs' k v. mod_map vs' = mod_map vs \<longrightarrow> key_ok k \<longrightarrow> owns vs' (key_chunk k) \<longrightarrow> contents (db vs') k = None
           \<longrightarrow> VS_Put L Standard vs' k v = Inl Undefined_Behaviour)
    else VolumeServer_new L Standard cores junk addr (Some d) OK = Inl Undefined_Behaviour"
proof (cases "db_keys L d")
  case Nil
  then have e: "contents d = Map.empty"
    using leveldb_store.keys_contents [OF assms(1), of d] by (metis dom_eq_empty_conv list.set(1))
  define vs where "vs = (VolumeServer_members cores junk addr d)\<lparr>vs_config := [], vs_config_num := 0,
      to_move := replicate 1001 ([], 0), mod_map := vec_clear (vec_resize 1001)\<rparr>"
  have n: "VolumeServer_new L Standard cores junk addr (Some d) OK = Inr vs"
    using Nil by (simp add: VolumeServer_new_def requestJoin_def formModMap_def Let_def VolumeServer_members_def vs_def)
  have "vec_size (mod_map vs) = 0" by (simp add: vs_def vec_clear_def)
  then have "VS_Put L Standard vs' k v = Inl Undefined_Behaviour"
    if "mod_map vs' = mod_map vs" "key_ok k" "owns vs' (key_chunk k)" "contents (db vs') k = None" for vs' k v
    using that by (simp add: VS_Put_def isMyKey_eq shard_mod_eq Let_def insert_past_size
        leveldb_store.get_contents [OF assms(1)])
  with n e show ?thesis by auto
next
  case (Cons k ks)
  then have k: "k \<in> dom (contents d)" using leveldb_store.keys_contents [OF assms(1), of d] by auto
  then have "shard_mod k = Inr (key_chunk k)" using assms(2) shard_mod_eq by blast
  with Cons have "VolumeServer_new L Standard cores junk addr (Some d) OK = Inl Undefined_Behaviour"
    by (simp add: VolumeServer_new_def requestJoin_def formModMap_def Let_def insert_past_size vec_clear_def VolumeServer_members_def)
  with k show ?thesis by auto
qed

theorem cleared_mod_map_undefined_witness:
  "VolumeServer_new alist_store Standard 4 7 ''A'' (Some [(''x'', ''1'')]) OK = Inl Undefined_Behaviour"
proof -
  have "\<forall>k\<in>dom (map_of [(''x'', ''1'')]). key_ok k" by (simp add: key_ok_def)
  moreover have "map_of [(''x'', ''1'')] \<noteq> Map.empty" by (simp add: fun_eq_iff)
  ultimately show ?thesis
    using cleared_mod_map_undefined [OF alist.leveldb_store_axioms, of "[(''x'', ''1'')]" 4 7 "''A''"] by metis
qed

text \<open>
  The statuses of LevelDB's writes are dropped: when the write of an accepted Put fails, the client is
  told \<open>OK\<close>, the store is unchanged, \<^verbatim>\<open>mod_map\<close> lists a key that is not there, and a Get answers
  \<open>NOT_FOUND\<close>.
\<close>

theorem put_ignores_write_error:
  assumes "leveldb_store L contents" "vs_inv contents vs" "key_ok key" "owns vs (key_chunk key)"
    "contents (db vs) key = None" "\<not> snd (db_put L (db vs) key value)"
  shows "\<exists>vs'. VS_Put L Allocated vs key value = Inr (vs', OK) \<and> contents (db vs') = contents (db vs)
    \<and> \<not> mod_map_ok (contents (db vs')) vs'
    \<and> VS_Get L vs' key = Inr (Status NOT_FOUND KEY_NOT_FOUND, \<lparr>res_key = [], res_value = []\<rparr>)"
proof -
  let ?d = "fst (db_put L (db vs) key value)" and ?m = "(contents (db vs))(key \<mapsto> value)"
  have d: "contents ?d = contents (db vs)" using leveldb_store.put_contents [OF assms(1)] assms(6) by simp
  have mm: "mod_map_ok (contents (db vs)) (vs\<lparr>db := ?d\<rparr>)" using assms(2) by (simp add: vs_inv_def mod_map_ok_def)
  obtain v where v: "mod_map_insert Allocated (key_chunk key) key (vs\<lparr>db := ?d\<rparr>) = Inr (vs\<lparr>db := ?d, mod_map := v\<rparr>)"
    "vec_slots v = map (keys_at ?m) [0..<1001]"
    using mod_map_insert_ok [OF mm, of key "value"] by auto
  let ?vs = "vs\<lparr>db := ?d, mod_map := v\<rparr>"
  have p: "VS_Put L Allocated vs key value = Inr (?vs, OK)"
    using v(1) assms(3-5) by (simp add: VS_Put_def isMyKey_eq shard_mod_eq Let_def leveldb_store.get_contents [OF assms(1)])
  have "key \<in> keys_at ?m (unat (key_chunk key))" "key \<notin> keys_at (contents (db vs)) (unat (key_chunk key))"
    using assms(5) by (auto simp: keys_at_def)
  moreover have "unat (key_chunk key) \<in> {0..<1001}" using key_chunk_index [of key] by simp
  ultimately have "\<exists>i\<in>{0..<1001}. keys_at ?m i \<noteq> keys_at (contents (db vs)) i" by blast
  then have "\<not> mod_map_ok (contents (db ?vs)) ?vs" using v(2) d by (auto simp: mod_map_ok_def)
  moreover have "VS_Get L ?vs key = Inr (Status NOT_FOUND KEY_NOT_FOUND, \<lparr>res_key = [], res_value = []\<rparr>)"
    using leveldb_store.Get_refines [OF assms(1) assms(3), of ?vs] assms(4,5) d by (simp add: kv_get_def owns_def)
  ultimately show ?thesis using p d by auto
qed

theorem put_ignores_write_error_witness:
  "\<exists>vs'. VS_Put full_store Allocated started ''k'' ''v'' = Inr (vs', OK) \<and> map_of (db vs') = Map.empty
    \<and> VS_Get full_store vs' ''k'' = Inr (Status NOT_FOUND KEY_NOT_FOUND, \<lparr>res_key = [], res_value = []\<rparr>)"
  using put_ignores_write_error [OF full.leveldb_store_axioms started_inv, of "''k''" "''v''"]
  by (auto simp: key_ok_def started_owns started_db full_store_def)

text \<open>
  The assertion after Query tests the status of the earlier call. When Query fails, the server takes
  over the new configuration number with an empty configuration, and later ticks with that number
  change nothing: the configuration it missed is not fetched until the number changes again.
\<close>

theorem failed_query_skips_config:
  assumes "vs_config_num vs < num" "\<not> status_ok st"
  shows "fetchSMConfig acc (OK, num) (st, cfg) vs = Inr (vs\<lparr>vs_config_num := num, vs_config := []\<rparr>)
    \<and> fetchSMConfig acc (OK, num) (OK, cfg') (vs\<lparr>vs_config_num := num, vs_config := []\<rparr>)
        = Inr (vs\<lparr>vs_config_num := num, vs_config := []\<rparr>)"
  using assms by (simp add: fetchSMConfig_def Let_def adopt_config_def)

theorem failed_query_skips_config_witness:
  "fetchSMConfig Standard (OK, 2) (Status UNAVAILABLE ''down'', []) started = Inr (started\<lparr>vs_config_num := 2, vs_config := []\<rparr>)"
  using failed_query_skips_config [of started 2 "Status UNAVAILABLE ''down''" Standard "[]"]
  by (simp add: started_def VolumeServer_members_def)

lemma diff_shards_diverges: "s \<in> set ss \<Longrightarrow> upper s = -1 \<Longrightarrow> diff_shards prev addr ss = None"
  by (induction ss) (auto simp: uint_loop_never_ends split: option.splits)

lemma calcNegativeDiff_diverges:
  assumes "e \<in> set cfg" "vs_addr e \<noteq> vs_addr prev" "s \<in> set (shards e)" "upper s = -1"
  shows "calcNegativeDiff cfg prev = None"
  using assms by (induction cfg) (auto simp: diff_shards_diverges split: option.splits)

text \<open>
  (C37) The loop over the chunks of a shard compares an unsigned counter with \<^verbatim>\<open><=\<close>. When another server's
  shard reaches up to \<open>2^32 - 1\<close>, which the shard master's Move accepts and its redistribution produces with
  more than 1000 servers, the tick never ends; with upper bounds up to 1000 it always ends.
\<close>

theorem tick_diverges_on_uint_max:
  assumes "vs_config_num vs < num" "e \<in> set cfg" "server_addr e \<noteq> vs_addr (my_config vs)"
    "(l, 4294967295) \<in> set (entry_shards e)"
  shows "fetchSMConfig acc (OK, num) (OK, cfg) vs = Inl Diverges
    \<and> (response_ok cfg' \<longrightarrow> calcNegativeDiff (map decode_entry cfg') prev \<noteq> None)"
proof -
  have "calcNegativeDiff (map decode_entry cfg) (my_config vs) = None"
    by (rule calcNegativeDiff_diverges [of "decode_entry e" _ _ "\<lparr>lower = l, upper = 4294967295\<rparr>"])
       (use assms in \<open>force simp: decode_entry_def\<close>)+
  then show ?thesis
    using assms(1) calcNegativeDiff_set [of "map decode_entry cfg'" prev]
    by (auto simp: fetchSMConfig_def Let_def adopt_config_eq response_ok_uppers)
qed

theorem tick_diverges_on_uint_max_witness:
  "fetchSMConfig Allocated (OK, 2) (OK, [\<lparr>entry_shards = [(7, 4294967295)], server_addr = ''B''\<rparr>]) started = Inl Diverges"
  using tick_diverges_on_uint_max [of started 2 "\<lparr>entry_shards = [(7, 4294967295)], server_addr = ''B''\<rparr>"
      "[\<lparr>entry_shards = [(7, 4294967295)], server_addr = ''B''\<rparr>]" 7 Allocated]
  by (simp add: started_def VolumeServer_members_def whole_config_def decode_entry_def)

text \<open>
  A server that a new configuration does not list keeps its old own entry: it goes on accepting the
  keys of its former chunks, while the configuration gives them to others.
\<close>

theorem departed_server_keeps_serving:
  assumes "vs_inv contents vs" "vs_config_num vs < num" "response_ok cfg" "self_addr vs \<notin> server_addr ` set cfg"
  shows "\<exists>vs'. fetchSMConfig Allocated (OK, num) (OK, cfg) vs = Inr vs' \<and> vs_config_num vs' = num
    \<and> my_config vs' = my_config vs \<and> isMyKey vs' key = isMyKey vs key"
proof -
  have "own_entry (self_addr vs) cfg = None"
    using assms(4) unfolding own_entry_def find_None_iff by (metis image_eqI set_rev)
  with fetch_effect [OF assms(1) _ assms(2,3), of OK OK] show ?thesis
    by (auto simp: adopt_config_eq isMyKey_def)
qed

theorem departed_server_keeps_serving_witness:
  "\<exists>vs'. fetchSMConfig Allocated (OK, 2) (OK, other_config) started = Inr vs'
    \<and> owner_of (vs_config vs') (key_chunk ''k'') = Some ''B'' \<and> isMyKey vs' ''k'' = Inr True"
proof -
  have c: "key_chunk ''k'' \<le> 1000" using key_chunk_less [of "''k''"] by simp
  have r: "response_ok other_config" by (simp add: other_config_def response_ok_def)
  have s: "vs_config_num started = 1" "self_addr started = ''A''" by (simp_all add: started_def VolumeServer_members_def)
  obtain vs' where f: "fetchSMConfig Allocated (OK, 2) (OK, other_config) started = Inr vs'"
    "isMyKey vs' ''k'' = isMyKey started ''k''"
    using departed_server_keeps_serving [OF started_inv _ r, of 2 "''k''"] s by (auto simp: other_config_def)
  have "vs_config vs' = map decode_entry other_config"
    using fetch_effect [OF started_inv _ _ r, of OK 2 OK] s f(1) by (auto simp: adopt_config_eq)
  with f other_owner [OF c] show ?thesis by (simp add: isMyKey_eq key_ok_def started_owns)
qed

text \<open>
  (C39) \<^verbatim>\<open>updateToMove\<close> only looks at the chunks of the previous own entry. A key that waits for its
  transfer when its chunk is given to yet another server keeps its old target: no later tick changes
  it while the chunk stays away from this server, whatever server the configurations name.
\<close>

theorem pending_target_never_updated:
  assumes "vs_inv contents vs" "vs_config_num vs < num" "response_ok cfg" "\<not> owns vs (key_chunk k)"
  shows "\<exists>vs'. fetchSMConfig Allocated (OK, num) (OK, cfg) vs = Inr vs'
    \<and> to_move vs' ! unat (key_chunk k) = to_move vs ! unat (key_chunk k)
    \<and> cq_elems (move_queue vs) \<subseteq># cq_elems (move_queue vs')"
proof -
  obtain removed tm q where f:
    "calcNegativeDiff (map decode_entry cfg) (my_config vs) = Some removed"
    "fetchSMConfig Allocated (OK, num) (OK, cfg) vs =
        Inr ((adopt_config cfg vs)\<lparr>vs_config_num := num, to_move := tm, move_queue := q\<rparr>)"
    "\<forall>i<1001. tm ! i = new_target removed num i (to_move vs ! i)" "cq_elems (move_queue vs) \<subseteq># cq_elems q"
    using fetch_effect [OF assms(1) _ assms(2,3), of OK OK] by auto
  have "key_chunk k \<notin> chunks_of (shards (my_config vs))" using assms(4) by (simp add: owns_def in_chunks_of list_ex_iff)
  then have "(key_chunk k, a) \<notin> set removed" for a
    using calcNegativeDiff_set [of "map decode_entry cfg" "my_config vs"] assms(3) f(1) by (auto simp: response_ok_uppers)
  then have "first_target removed (unat (key_chunk k)) = None"
    by (auto simp: first_target_def find_None_iff word_unat_eq_iff [symmetric])
  then show ?thesis using f(2-4) key_chunk_index [of k] by (simp add: new_target_def)
qed

text \<open>The server \<open>A\<close> after its chunks went to \<open>B\<close>, and a configuration that gives them to \<open>C\<close>.\<close>

definition third_config :: QueryResponse where
  "third_config = [\<lparr>entry_shards = [], server_addr = ''A''\<rparr>, \<lparr>entry_shards = [], server_addr = ''B''\<rparr>,
     \<lparr>entry_shards = [(0, 1000)], server_addr = ''C''\<rparr>]"

definition second_config :: QueryResponse where
  "second_config = [\<lparr>entry_shards = [], server_addr = ''A''\<rparr>, \<lparr>entry_shards = [(0, 1000)], server_addr = ''B''\<rparr>]"

theorem pending_target_never_updated_witness:
  "\<exists>vs vs1 vs2. VS_Put alist_store Allocated started ''k'' ''v'' = Inr (vs, OK)
     \<and> fetchSMConfig Allocated (OK, 2) (OK, second_config) vs = Inr vs1
     \<and> fetchSMConfig Allocated (OK, 3) (OK, third_config) vs1 = Inr vs2
     \<and> to_move vs2 ! unat (key_chunk ''k'') = (''B'', 2) \<and> ''k'' \<in># cq_elems (move_queue vs2)"
proof -
  obtain vs where vs: "VS_Put alist_store Allocated started ''k'' ''v'' = Inr (vs, OK)" "vs_inv map_of vs"
    "map_of (db vs) = [''k'' \<mapsto> ''v'']" "vs_config_num vs = 1" "my_config vs = my_config started"
    "self_addr vs = ''A''" "to_move vs = replicate 1001 ([], 0)" by (rule one_key)
  let ?c = "key_chunk ''k''"
  have c: "?c \<le> 1000" "unat ?c < 1001" using key_chunk_less [of "''k''"] key_chunk_index [of "''k''"] by simp_all
  have r: "response_ok second_config" "response_ok third_config"
    by (simp_all add: second_config_def third_config_def response_ok_def)
  have part: "partitioned (map decode_entry second_config)"
    by (auto simp: partitioned_def second_config_def decode_entry_def in_shard_def shard_ok_def)
  have own: "owner_of (map decode_entry second_config) ?c = Some ''B''"
    using c by (simp add: owner_of_def second_config_def decode_entry_def in_shard_def)
  have mine: "vs_addr (my_config vs) = self_addr vs" "owns vs ?c"
    using vs started_owns [of "''k''"] by (simp_all add: owns_def) (simp add: started_def whole_config_def decode_entry_def)
  let ?m = "map_of :: alist_db \<Rightarrow> _"
  obtain vs1 where f1: "fetchSMConfig Allocated (OK, 2) (OK, second_config) vs = Inr vs1"
    "to_move vs1 ! unat ?c = (''B'', 2)" "''k'' \<in># cq_elems (move_queue vs1)" "vs_config_num vs1 = 2"
    "my_config vs1 = my_config (adopt_config second_config vs)"
    using fetch_hands_over [OF vs(2) _ part mine(1) _ mine(2) own, of 2] vs c by auto
  have "\<not> owns vs1 ?c"
    using f1(5) vs(6) by (simp add: adopt_config_eq owns_def own_entry_def second_config_def decode_entry_def)
  moreover have "vs_inv ?m vs1" using fetch_inv [OF vs(2), of "(OK, 2)" "(OK, second_config)"] r(1) f1(1) by auto
  ultimately show ?thesis
    using pending_target_never_updated [of map_of vs1 3 third_config "''k''"] r(2) f1 vs(1)
    by (auto dest: mset_subset_eqD)
qed

end
