(* ===== verification/VS_Concurrency.thy ===== *)
theory VS_Concurrency
  imports VS_Properties
begin

text \<open>
  Concurrent calls of one volume server. gRPC runs handlers on several threads, and the ticking
  thread runs beside them; the only locks protect \<^verbatim>\<open>to_move\<close> and the sets of \<^verbatim>\<open>mod_map\<close>. A
  segment is what a handler does between two points where the others can run: the checks (ownership and
  the read of the store), the write of the store, the update of \<^verbatim>\<open>mod_map\<close>. The tick is one segment.
\<close>

datatype vs_pc =
    PC_Put_check string string
  | PC_Put_store string string
  | PC_Put_map string
  | PC_Delete_check string
  | PC_Delete_store string
  | PC_Delete_map string
  | PC_Tick "grpc_status \<times> u32" "grpc_status \<times> QueryResponse"
  | PC_VS_Done grpc_status

fun vs_thread_step ::
  "'db leveldb \<Rightarrow> vector_access \<Rightarrow> 'db VolumeServer \<Rightarrow> vs_pc \<Rightarrow> fault + 'db VolumeServer \<times> vs_pc" where
  "vs_thread_step L acc vs (PC_Put_check key v) =
     and_then (isMyKey vs key) (\<lambda>mine.
       Inr (vs, if \<not> mine then PC_VS_Done (Status INVALID_ARGUMENT BAD_REQUEST)
                else if db_get L (db vs) key \<noteq> None then PC_VS_Done (Status ALREADY_EXISTS KEY_EXISTS)
                else PC_Put_store key v))"
| "vs_thread_step L acc vs (PC_Put_store key v) =
     Inr (vs\<lparr>db := fst (db_put L (db vs) key v)\<rparr>, PC_Put_map key)"
| "vs_thread_step L acc vs (PC_Put_map key) =
     and_then (shard_mod key) (\<lambda>c. and_then (mod_map_insert acc c key vs) (\<lambda>vs'. Inr (vs', PC_VS_Done OK)))"
| "vs_thread_step L acc vs (PC_Delete_check key) =
     and_then (isMyKey vs key) (\<lambda>mine.
       Inr (vs, if \<not> mine then PC_VS_Done (Status INVALID_ARGUMENT BAD_REQUEST)
                else if db_get L (db vs) key = None then PC_VS_Done (Status NOT_FOUND KEY_NOT_FOUND)
                else PC_Delete_store key))"
| "vs_thread_step L acc vs (PC_Delete_store key) =
     Inr (vs\<lparr>db := fst (db_delete L (db vs) key)\<rparr>, PC_Delete_map key)"
| "vs_thread_step L acc vs (PC_Delete_map key) =
     and_then (shard_mod key) (\<lambda>c. and_then (mod_map_erase acc c key vs) (\<lambda>vs'. Inr (vs', PC_VS_Done OK)))"
| "vs_thread_step L acc vs (PC_Tick n q) =
     and_then (fetchSMConfig acc n q vs) (\<lambda>vs'. Inr (vs', PC_VS_Done OK))"
| "vs_thread_step L acc vs (PC_VS_Done st) = Inr (vs, PC_VS_Done st)"

fun vs_schedule ::
  "'db leveldb \<Rightarrow> vector_access \<Rightarrow> 'db VolumeServer \<Rightarrow> vs_pc list \<Rightarrow> nat list \<Rightarrow> fault + 'db VolumeServer \<times> vs_pc list" where
  "vs_schedule L acc vs pcs [] = Inr (vs, pcs)"
| "vs_schedule L acc vs pcs (t # ts) =
     (if t < length pcs
      then and_then (vs_thread_step L acc vs (pcs ! t)) (\<lambda>(vs', pc). vs_schedule L acc vs' (pcs[t := pc]) ts)
      else vs_schedule L acc vs pcs ts)"

text \<open>
  Run without interruption, the three segments of Put and of Delete do what the handlers do.
\<close>

theorem vs_segments_refine_handlers:
  "vs_schedule L acc vs [PC_Put_check key v] [0, 0, 0] =
     and_then (VS_Put L acc vs key v) (\<lambda>(vs', st). Inr (vs', [PC_VS_Done st]))
   \<and> vs_schedule L acc vs [PC_Delete_check key] [0, 0, 0] =
     and_then (VS_Delete L acc vs key v) (\<lambda>(vs', st). Inr (vs', [PC_VS_Done st]))"
proof (cases "shard_mod key")
  case (Inl e)
  then show ?thesis by (simp add: VS_Put_def VS_Delete_def isMyKey_def)
next
  case (Inr c)
  let ?p = "vs\<lparr>db := fst (db_put L (db vs) key v)\<rparr>" and ?d = "vs\<lparr>db := fst (db_delete L (db vs) key)\<rparr>"
  show ?thesis
    using Inr
    by (cases "mod_map_insert acc c key ?p"; cases "mod_map_erase acc c key ?d")
       (simp_all add: VS_Put_def VS_Delete_def isMyKey_def Let_def)
qed

section \<open>Races\<close>

text \<open>
  Two concurrent Puts of one absent key can both be answered \<open>OK\<close>; the second write wins and the value
  the first client was told is stored is gone.
\<close>

theorem concurrent_puts_both_ok:
  assumes "reliable_leveldb L contents" "vs_inv contents vs" "key_ok key" "owns vs (key_chunk key)"
    "contents (db vs) key = None"
  shows "\<exists>vs'. vs_schedule L Allocated vs [PC_Put_check key v, PC_Put_check key w] [0, 1, 0, 1, 0, 1] =
      Inr (vs', [PC_VS_Done OK, PC_VS_Done OK]) \<and> contents (db vs') = (contents (db vs))(key \<mapsto> w)"
proof -
  have l: "leveldb_store L contents" using reliable_leveldb.axioms(1) [OF assms(1)] .
  define d where "d = fst (db_put L (db vs) key v)"
  define d' where "d' = fst (db_put L d key w)"
  have c: "contents d' = (contents (db vs))(key \<mapsto> w)"
    using reliable_leveldb.put_map [OF assms(1)] by (simp add: d_def d'_def)
  have m: "mod_map_ok (contents (db vs)) (vs\<lparr>db := d'\<rparr>)" using assms(2) by (simp add: vs_inv_def mod_map_ok_def)
  obtain x where x: "mod_map_insert Allocated (key_chunk key) key (vs\<lparr>db := d'\<rparr>) = Inr (vs\<lparr>db := d', mod_map := x\<rparr>)"
    "vec_slots x = map (keys_at ((contents (db vs))(key \<mapsto> v))) [0..<1001]"
    using mod_map_insert_ok [OF m, of key v] by auto
  then have m2: "mod_map_ok ((contents (db vs))(key \<mapsto> v)) (vs\<lparr>db := d', mod_map := x\<rparr>)" by (simp add: mod_map_ok_def)
  obtain y where y: "mod_map_insert Allocated (key_chunk key) key (vs\<lparr>db := d', mod_map := x\<rparr>) = Inr (vs\<lparr>db := d', mod_map := y\<rparr>)"
    using mod_map_insert_ok [OF m2, of key v] by auto
  show ?thesis
    using assms(3-5) x(1) y c
    by (simp add: isMyKey_eq shard_mod_eq leveldb_store.get_contents [OF l] flip: d_def) (simp flip: d'_def)
qed

theorem concurrent_puts_both_ok_witness:
  "\<exists>vs'. vs_schedule alist_store Allocated started [PC_Put_check ''k'' ''v'', PC_Put_check ''k'' ''w''] [0, 1, 0, 1, 0, 1] =
      Inr (vs', [PC_VS_Done OK, PC_VS_Done OK]) \<and> map_of (db vs') = [''k'' \<mapsto> ''w'']"
  using concurrent_puts_both_ok [OF alist.reliable_leveldb_axioms started_inv, of "''k''" "''v''" "''w''"]
  by (simp add: key_ok_def started_owns started_db)

text \<open>
  (C40) A tick between the checks of a Put and its write strands the key: the client is told \<open>OK\<close>, the key
  is stored on a server that no longer owns its chunk (a Get there is refused), and it is in no queue
  and no task, so it will not be moved.
\<close>

theorem put_across_tick_strands_key:
  "\<exists>vs'. vs_schedule alist_store Allocated started
      [PC_Put_check ''k'' ''v'', PC_Tick (OK, 2) (OK, second_config)] [0, 1, 0, 0] = Inr (vs', [PC_VS_Done OK, PC_VS_Done OK])
    \<and> map_of (db vs') ''k'' = Some ''v'' \<and> isMyKey vs' ''k'' = Inr False \<and> ''k'' \<notin># pending vs'"
proof -
  have r: "response_ok second_config" by (simp add: second_config_def response_ok_def)
  have st: "vs_config_num started = 1" "self_addr started = ''A''" "move_queue started = cq_empty"
    "tpool started = thread_pool_init 4 4" by (simp_all add: started_def VolumeServer_members_def)
  obtain removed tm q where f: "fetchSMConfig Allocated (OK, 2) (OK, second_config) started =
      Inr ((adopt_config second_config started)\<lparr>vs_config_num := 2, to_move := tm, move_queue := q\<rparr>)"
    "set_mset (cq_elems q) = set_mset (cq_elems (move_queue started)) \<union> registered (map_of (db started)) removed 2 (to_move started)"
    using fetch_effect [OF started_inv _ _ r, of OK 2 OK] st by auto
  have "cq_elems (move_queue started) = {#}" by (simp add: st cq_elems_def cq_empty_def)
  then have q: "cq_elems q = {#}"
    using f(2) by (simp add: registered_def started_db)
  define vs1 where "vs1 = (adopt_config second_config started)\<lparr>vs_config_num := 2, to_move := tm, move_queue := q\<rparr>"
  define vs2 where "vs2 = vs1\<lparr>db := fst (db_put alist_store (db vs1) ''k'' ''v'')\<rparr>"
  have d: "db vs1 = []" "mod_map vs1 = mod_map started" "tpool vs1 = tpool started" "move_queue vs1 = q"
    by (simp_all add: vs1_def adopt_config_eq started_db)
  have "mod_map_ok Map.empty started" using started_inv by (simp add: vs_inv_def started_db)
  then have m: "mod_map_ok Map.empty vs2" using d(2) by (simp add: mod_map_ok_def vs2_def)
  obtain x where x: "mod_map_insert Allocated (key_chunk ''k'') ''k'' vs2 = Inr (vs2\<lparr>mod_map := x\<rparr>)"
    using mod_map_insert_ok [OF m, of "''k''" "''v''"] by auto
  have "\<not> owns (vs2\<lparr>mod_map := x\<rparr>) (key_chunk ''k'')"
    using st(2) by (simp add: owns_def vs2_def vs1_def adopt_config_eq own_entry_def second_config_def decode_entry_def)
  moreover have "''k'' \<notin># pending (vs2\<lparr>mod_map := x\<rparr>)"
    using d q st(4) by (simp add: pending_def vs2_def unfinished_init)
  moreover have "map_of (db (vs2\<lparr>mod_map := x\<rparr>)) ''k'' = Some ''v''" by (simp add: vs2_def d alist.put_map)
  moreover have "vs_schedule alist_store Allocated started
      [PC_Put_check ''k'' ''v'', PC_Tick (OK, 2) (OK, second_config)] [0, 1, 0, 0] =
      Inr (vs2\<lparr>mod_map := x\<rparr>, [PC_VS_Done OK, PC_VS_Done OK])"
    using x f(1) unfolding vs1_def [symmetric]
    by (simp add: isMyKey_eq shard_mod_eq key_ok_def started_owns started_db alist.get_contents flip: vs2_def)
  ultimately show ?thesis by (auto simp: isMyKey_eq key_ok_def)
qed

end
