(* ===== verification/Client_Model.thy ===== *)
theory Client_Model
  imports Volume_Server
begin

text \<open>
  The client of \<^verbatim>\<open>src/client/client.cc\<close>: its cached configuration, the routing of a key
  (\<^verbatim>\<open>getVSAddr\<close>), the stubs it creates, the calls Get, Put, Delete, Query and Move with the strings they
  return, and the sequence of calls of \<^verbatim>\<open>main\<close>. The remote calls are the record \<open>rpc\<close>, functions of a
  world \<open>'w\<close> outside the client; theory \<open>Cluster\<close> gives them by the servers' handlers.
\<close>

record 'w rpc =
  rpc_config_num :: "'w \<Rightarrow> 'w \<times> grpc_status \<times> u32"
  rpc_query :: "'w \<Rightarrow> 'w \<times> grpc_status \<times> QueryResponse"
  rpc_move :: "'w \<Rightarrow> string \<Rightarrow> Shard \<Rightarrow> 'w \<times> grpc_status"
  rpc_get :: "'w \<Rightarrow> string \<Rightarrow> string \<Rightarrow> 'w \<times> grpc_status \<times> GetResponse"
  rpc_put :: "'w \<Rightarrow> string \<Rightarrow> string \<Rightarrow> string \<Rightarrow> 'w \<times> grpc_status"
  rpc_delete :: "'w \<Rightarrow> string \<Rightarrow> string \<Rightarrow> string \<Rightarrow> 'w \<times> grpc_status"

definition KEY_NOT_EXISTS :: string where
  "KEY_NOT_EXISTS = ''Volume server for corresponding key doesn'' @ CHR 0x27 # ''t exist!''"
definition RPC_FAIL :: string where "RPC_FAIL = ''RPC Failed!''"
definition RPC_FAIL_RESET :: string where "RPC_FAIL_RESET = ''RPC Failed! Resetting config''"
definition QUERY_OK :: string where "QUERY_OK = ''Success!''"

record Client =
  mappings :: QueryResponse
  cl_config_num :: u32
  vs_stub :: "string set"

definition Client_init :: Client where
  "Client_init = \<lparr>mappings = [], cl_config_num = 0, vs_stub = {}\<rparr>"

section \<open>Configuration\<close>

definition Client_Query :: "'w rpc \<Rightarrow> 'w \<Rightarrow> Client \<Rightarrow> 'w \<times> Client \<times> string" where
  "Client_Query R w cl =
     (let (w1, status, response) = rpc_config_num R w
      in if \<not> status_ok status then (w1, cl, RPC_FAIL)
         else if cl_config_num cl < response
         then let (w2, status2, config) = rpc_query R w1
              in if \<not> status_ok status2
                 then (w2, cl\<lparr>mappings := [], cl_config_num := 0\<rparr>, RPC_FAIL_RESET)
                 else (w2, cl\<lparr>mappings := config, cl_config_num := response\<rparr>, QUERY_OK)
         else (w1, cl, QUERY_OK))"

text \<open>The two nested loops of \<^verbatim>\<open>getVSAddr\<close>: the first entry with a shard around the key's chunk.\<close>

primrec search_config :: "QueryResponse \<Rightarrow> u32 \<Rightarrow> string" where
  "search_config [] c = []"
| "search_config (e # es) c =
     (if list_ex (\<lambda>s. fst s \<le> c \<and> c \<le> snd s) (entry_shards e) then server_addr e else search_config es c)"

definition getVSAddr :: "Client \<Rightarrow> string \<Rightarrow> fault + string" where
  "getVSAddr cl key = and_then (shard_mod key) (\<lambda>c. Inr (search_config (mappings cl) c))"

definition createChannelIfNotExists :: "string \<Rightarrow> Client \<Rightarrow> Client" where
  "createChannelIfNotExists addr cl =
     (if addr \<in> vs_stub cl then cl else cl\<lparr>vs_stub := insert addr (vs_stub cl)\<rparr>)"

section \<open>Calls\<close>

definition Client_Get :: "'w rpc \<Rightarrow> 'w \<Rightarrow> Client \<Rightarrow> string \<Rightarrow> fault + 'w \<times> Client \<times> string" where
  "Client_Get R w cl key =
     (let (w1, cl1, _) = Client_Query R w cl
      in and_then (getVSAddr cl1 key) (\<lambda>addr.
           if addr = [] then Inr (w1, cl1, KEY_NOT_EXISTS)
           else let cl2 = createChannelIfNotExists addr cl1;
                    (w2, status, response) = rpc_get R w1 addr key
                in if status_ok status then Inr (w2, cl2, res_value response) else Inr (w2, cl2, RPC_FAIL)))"

definition Client_Put :: "'w rpc \<Rightarrow> 'w \<Rightarrow> Client \<Rightarrow> string \<Rightarrow> string \<Rightarrow> fault + 'w \<times> Client \<times> string" where
  "Client_Put R w cl key value =
     (let (w1, cl1, _) = Client_Query R w cl
      in and_then (getVSAddr cl1 key) (\<lambda>addr.
           if addr = [] then Inr (w1, cl1, KEY_NOT_EXISTS)
           else let cl2 = createChannelIfNotExists addr cl1;
                    (w2, status) = rpc_put R w1 addr key value
                in if status_ok status then Inr (w2, cl2, QUERY_OK) else Inr (w2, cl2, RPC_FAIL)))"

definition Client_Delete :: "'w rpc \<Rightarrow> 'w \<Rightarrow> Client \<Rightarrow> string \<Rightarrow> string \<Rightarrow> fault + 'w \<times> Client \<times> string" where
  "Client_Delete R w cl key value =
     (let (w1, cl1, _) = Client_Query R w cl
      in and_then (getVSAddr cl1 key) (\<lambda>addr.
           if addr = [] then Inr (w1, cl1, KEY_NOT_EXISTS)
           else let cl2 = createChannelIfNotExists addr cl1;
                    (w2, status) = rpc_delete R w1 addr key value
                in if status_ok status then Inr (w2, cl2, QUERY_OK) else Inr (w2, cl2, RPC_FAIL)))"

definition Client_Move :: "'w rpc \<Rightarrow> 'w \<Rightarrow> Shard \<Rightarrow> string \<Rightarrow> 'w \<times> string" where
  "Client_Move R w shard addr =
     (let (w1, status) = rpc_move R w addr shard
      in if status_ok status then (w1, QUERY_OK) else (w1, RPC_FAIL))"

text \<open>\<^verbatim>\<open>main\<close>: the calls and, in order, what they print after ``Response:-''.\<close>

datatype client_call = Call_Get string | Call_Put string string | Call_Delete string string | Call_Move Shard string

fun run_call :: "'w rpc \<Rightarrow> 'w \<Rightarrow> Client \<Rightarrow> client_call \<Rightarrow> fault + 'w \<times> Client \<times> string" where
  "run_call R w cl (Call_Get key) = Client_Get R w cl key"
| "run_call R w cl (Call_Put key v) = Client_Put R w cl key v"
| "run_call R w cl (Call_Delete key v) = Client_Delete R w cl key v"
| "run_call R w cl (Call_Move shard addr) = (case Client_Move R w shard addr of (w1, s) \<Rightarrow> Inr (w1, cl, s))"

primrec client_calls :: "'w rpc \<Rightarrow> 'w \<Rightarrow> Client \<Rightarrow> client_call list \<Rightarrow> fault + 'w \<times> Client \<times> string list" where
  "client_calls R w cl [] = Inr (w, cl, [])"
| "client_calls R w cl (c # cs) =
     and_then (run_call R w cl c) (\<lambda>(w1, cl1, s).
     and_then (client_calls R w1 cl1 cs) (\<lambda>(w2, cl2, ss). Inr (w2, cl2, s # ss)))"

definition client_main :: "'w rpc \<Rightarrow> 'w \<Rightarrow> fault + 'w \<times> Client \<times> string list" where
  "client_main R w = client_calls R w Client_init
     [Call_Get ''key1'', Call_Put ''key1'' ''value1'', Call_Get ''key1'', Call_Put ''key1'' ''value1'',
      Call_Put ''key2'' ''value2'', Call_Delete ''key3'' ''value3'', Call_Delete ''key2'' ''value2'',
      Call_Get ''key2'', Call_Move (0, 400) ''127.0.0.1:8081'']"

section \<open>Routing\<close>

lemma search_config_owner:
  "search_config cfg c = (case owner_of (map decode_entry cfg) c of None \<Rightarrow> [] | Some a \<Rightarrow> a)"
  by (induction cfg)
    (auto simp: owner_of_def decode_entry_def in_shard_def list_ex_iff split: option.splits)

text \<open>
  (C29) The server a client sends a key to is the owner of the key's chunk in the configuration the client
  holds, and no server when the chunk has none; the hash of the key never raises an exception.
\<close>

theorem getVSAddr_is_owner:
  assumes "key_ok key"
  shows "getVSAddr cl key =
    Inr (case owner_of (map decode_entry (mappings cl)) (key_chunk key) of None \<Rightarrow> [] | Some a \<Rightarrow> a)"
  using assms by (simp add: getVSAddr_def shard_mod_eq search_config_owner)

theorem getVSAddr_is_owner_witness:
  "getVSAddr Client_init ''key1'' = Inr []"
  using getVSAddr_is_owner [of "''key1''" Client_init] by (simp add: key_ok_def Client_init_def)

text \<open>
  What a client's Query leaves behind: on success with a newer number the configuration and the number the
  shard master sent; an old number changes nothing; a failed number request changes nothing; a failed
  configuration request empties the cache and resets the number to 0, so that the next Query fetches again
  from any shard master with a configuration.
\<close>

theorem Client_Query_branches:
  assumes "rpc_config_num R w = (w1, st, num)" "rpc_query R w1 = (w2, st2, cfg)"
  shows "Client_Query R w cl =
      (if \<not> status_ok st then (w1, cl, RPC_FAIL)
       else if num \<le> cl_config_num cl then (w1, cl, QUERY_OK)
       else if status_ok st2 then (w2, cl\<lparr>mappings := cfg, cl_config_num := num\<rparr>, QUERY_OK)
       else (w2, cl\<lparr>mappings := [], cl_config_num := 0\<rparr>, RPC_FAIL_RESET))
    \<and> (\<not> status_ok st2 \<longrightarrow> status_ok st \<longrightarrow> cl_config_num cl < num \<longrightarrow> 0 < num' \<longrightarrow>
        rpc_config_num R w3 = (w4, OK, num') \<longrightarrow> rpc_query R w4 = (w5, OK, cfg') \<longrightarrow>
        Client_Query R w3 (fst (snd (Client_Query R w cl))) =
          (w5, cl\<lparr>mappings := cfg', cl_config_num := num'\<rparr>, QUERY_OK))"
  using assms by (auto simp: Client_Query_def not_le not_less)

definition offline :: "unit rpc" where
  "offline = \<lparr>rpc_config_num = (\<lambda>w. (w, OK, 3)), rpc_query = (\<lambda>w. (w, Status UNAVAILABLE ''down'', [])),
     rpc_move = (\<lambda>w a s. (w, Status UNAVAILABLE ''down'')), rpc_get = (\<lambda>w a k. (w, Status UNAVAILABLE ''down'', \<lparr>res_key = [], res_value = []\<rparr>)),
     rpc_put = (\<lambda>w a k v. (w, Status UNAVAILABLE ''down'')), rpc_delete = (\<lambda>w a k v. (w, Status UNAVAILABLE ''down''))\<rparr>"

theorem Client_Query_branches_witness:
  "Client_Query offline () (Client_init\<lparr>cl_config_num := 2\<rparr>) = ((), Client_init\<lparr>cl_config_num := 0\<rparr>, RPC_FAIL_RESET)"
  using Client_Query_branches [of offline "()" "()" OK 3 "()" "Status UNAVAILABLE ''down''" "[]" "Client_init\<lparr>cl_config_num := 2\<rparr>"]
  by (simp add: offline_def Client_init_def)

end
