(* ===== verification/Cluster.thy ===== *)
theory Cluster
  imports VS_Properties Client_Model
begin

text \<open>
  Shard master, volume servers and clients together. A cluster is the shard master and the volume
  server at each address; a remote call runs the handler of the model on it, and fails with
  \<open>UNAVAILABLE\<close> when nobody listens or the server's process has ended. Clients see a single map:
  \<open>client_map\<close> is the contract, and every client call on a cluster whose servers have the shard master's
  configuration refines it.
\<close>

section \<open>Remote calls\<close>

record 'db cluster =
  cl_sm :: ShardMaster
  cl_servers :: "string \<rightharpoonup> 'db VolumeServer"

definition down :: grpc_status where
  "down = Status UNAVAILABLE ''failed to connect to all addresses''"

definition server_call ::
  "'db cluster \<Rightarrow> string \<Rightarrow> ('db VolumeServer \<Rightarrow> fault + 'db VolumeServer \<times> 'r) \<Rightarrow> 'r \<Rightarrow> 'db cluster \<times> 'r" where
  "server_call w addr f failed =
     (case cl_servers w addr of
        None \<Rightarrow> (w, failed)
      | Some vs \<Rightarrow>
          (case f vs of
             Inl _ \<Rightarrow> (w\<lparr>cl_servers := (cl_servers w)(addr := None)\<rparr>, failed)
           | Inr (vs', r) \<Rightarrow> (w\<lparr>cl_servers := (cl_servers w)(addr \<mapsto> vs')\<rparr>, r)))"

definition cluster_rpc :: "'db leveldb \<Rightarrow> vector_access \<Rightarrow> 'db cluster rpc" where
  "cluster_rpc L acc =
     \<lparr>rpc_config_num = (\<lambda>w. (w, SM_QueryConfigNum (cl_sm w))),
      rpc_query = (\<lambda>w. (w, SM_Query (cl_sm w))),
      rpc_move = (\<lambda>w addr shard.
        case SM_Move (cl_sm w) addr shard of
          Inl _ \<Rightarrow> (w, down)
        | Inr (sm', st) \<Rightarrow> (w\<lparr>cl_sm := sm'\<rparr>, st)),
      rpc_get = (\<lambda>w addr key. server_call w addr (\<lambda>vs. and_then (VS_Get L vs key) (\<lambda>r. Inr (vs, r)))
        (down, \<lparr>res_key = [], res_value = []\<rparr>)),
      rpc_put = (\<lambda>w addr key v. server_call w addr (\<lambda>vs. VS_Put L acc vs key v) down),
      rpc_delete = (\<lambda>w addr key v. server_call w addr (\<lambda>vs. VS_Delete L acc vs key v) down)\<rparr>"

section \<open>The configuration on the wire\<close>

lemma decode_encode_shard: "(\<lambda>s. \<lparr>lower = fst (encode_shard s), upper = snd (encode_shard s)\<rparr>) = id"
  by (simp add: encode_shard_def fun_eq_iff)

lemma decode_encode_entry: "decode_entry (encode_entry e) = e"
  by (simp add: decode_entry_def encode_entry_def o_def decode_encode_shard)

lemma decode_encode_config: "map decode_entry (map encode_entry cfg) = cfg"
  by (simp add: decode_encode_entry map_idI)

section \<open>The contract of a client\<close>

fun map_call :: "(string \<rightharpoonup> string) \<Rightarrow> client_call \<Rightarrow> (string \<rightharpoonup> string) \<times> string" where
  "map_call m (Call_Get key) = (m, case m key of Some v \<Rightarrow> v | None \<Rightarrow> RPC_FAIL)"
| "map_call m (Call_Put key v) = (if key \<in> dom m then (m, RPC_FAIL) else (m(key \<mapsto> v), QUERY_OK))"
| "map_call m (Call_Delete key v) = (if key \<in> dom m then (m(key := None), QUERY_OK) else (m, RPC_FAIL))"
| "map_call m (Call_Move shard addr) = (m, RPC_FAIL)"

primrec map_calls :: "(string \<rightharpoonup> string) \<Rightarrow> client_call list \<Rightarrow> (string \<rightharpoonup> string) \<times> string list" where
  "map_calls m [] = (m, [])"
| "map_calls m (c # cs) =
     (case map_call m c of (m1, s) \<Rightarrow> case map_calls m1 cs of (m2, ss) \<Rightarrow> (m2, s # ss))"

fun data_call :: "client_call \<Rightarrow> bool" where
  "data_call (Call_Get key) = key_ok key"
| "data_call (Call_Put key v) = key_ok key"
| "data_call (Call_Delete key v) = key_ok key"
| "data_call (Call_Move shard addr) = False"

locale client_map =
  fixes R :: "'w rpc"
    and inv :: "'w \<Rightarrow> Client \<Rightarrow> bool"
    and model :: "'w \<Rightarrow> string \<rightharpoonup> string"
  assumes call_refines: "inv w cl \<Longrightarrow> data_call c \<Longrightarrow>
      \<exists>w' cl'. run_call R w cl c = Inr (w', cl', snd (map_call (model w) c))
        \<and> model w' = fst (map_call (model w) c) \<and> inv w' cl'"
begin

lemma calls_refine:
  "inv w cl \<Longrightarrow> list_all data_call cs \<Longrightarrow>
   \<exists>w' cl'. client_calls R w cl cs = Inr (w', cl', snd (map_calls (model w) cs))
     \<and> model w' = fst (map_calls (model w) cs) \<and> inv w' cl'"
proof (induction cs arbitrary: w cl)
  case (Cons c cs)
  obtain w1 cl1 where 1: "run_call R w cl c = Inr (w1, cl1, snd (map_call (model w) c))"
    "model w1 = fst (map_call (model w) c)" "inv w1 cl1"
    using call_refines [of w cl c] Cons.prems by auto
  obtain w2 cl2 where "client_calls R w1 cl1 cs = Inr (w2, cl2, snd (map_calls (model w1) cs))"
    "model w2 = fst (map_calls (model w1) cs)" "inv w2 cl2"
    using Cons.IH [OF 1(3)] Cons.prems by auto
  with 1 show ?case by (simp add: case_prod_unfold)
qed simp

end

section \<open>Clusters in sync\<close>

text \<open>Every server of the shard master's configuration runs and has adopted it.\<close>

definition synced :: "('db \<Rightarrow> string \<rightharpoonup> string) \<Rightarrow> 'db cluster \<Rightarrow> bool" where
  "synced contents w \<longleftrightarrow>
     partitioned (sm_config (cl_sm w)) \<and> distinct (map vs_addr (sm_config (cl_sm w)))
     \<and> (\<forall>e\<in>set (sm_config (cl_sm w)). vs_addr e \<noteq> [] \<and>
          (\<exists>vs. cl_servers w (vs_addr e) = Some vs \<and> my_config vs = e \<and> vs_inv contents vs))"

text \<open>The client's cache is empty or outdated, or it is the shard master's configuration.\<close>

definition client_current :: "'db cluster \<Rightarrow> Client \<Rightarrow> bool" where
  "client_current w cl \<longleftrightarrow>
     cl_config_num cl < config_num (cl_sm w) \<or> mappings cl = map encode_entry (sm_config (cl_sm w))"

definition cluster_map :: "('db \<Rightarrow> string \<rightharpoonup> string) \<Rightarrow> 'db cluster \<Rightarrow> string \<rightharpoonup> string" where
  "cluster_map contents w key =
     (case owner_of (sm_config (cl_sm w)) (key_chunk key) of
        None \<Rightarrow> None
      | Some a \<Rightarrow> (case cl_servers w a of None \<Rightarrow> None | Some vs \<Rightarrow> contents (db vs) key))"

lemma Client_Query_cluster:
  assumes "client_current w cl"
  shows "\<exists>cl'. Client_Query (cluster_rpc L acc) w cl = (w, cl', QUERY_OK)
    \<and> mappings cl' = map encode_entry (sm_config (cl_sm w)) \<and> client_current w cl'"
  using assms
  by (auto simp: Client_Query_def cluster_rpc_def SM_QueryConfigNum_def SM_Query_def client_current_def)

lemma synced_owner:
  assumes "synced contents w"
  obtains a vs where "owner_of (sm_config (cl_sm w)) (key_chunk key) = Some a" "a \<noteq> []" "cl_servers w a = Some vs"
    "owns vs (key_chunk key)" "vs_inv contents vs"
proof -
  let ?cfg = "sm_config (cl_sm w)" and ?c = "key_chunk key"
  have "?c \<le> SM_NUM_CHUNKS" using key_chunk_less [of key] by simp
  then have "0 < holders ?cfg ?c" using assms by (simp add: synced_def partitioned_def)
  then obtain e where e: "e \<in> set ?cfg" "owner_of ?cfg ?c = Some (vs_addr e)" "0 < cover (shards e) ?c"
    using owner_exists by blast
  obtain vs where vs: "cl_servers w (vs_addr e) = Some vs" "my_config vs = e" "vs_inv contents vs" "vs_addr e \<noteq> []"
    using assms e(1) unfolding synced_def by blast
  have "owns vs ?c" using e(3) vs(2) by (simp add: owns_def cover_pos)
  with e vs that show ?thesis by blast
qed

lemma getVSAddr_current:
  assumes "key_ok key" "mappings cl = map encode_entry (sm_config (cl_sm w))"
    "owner_of (sm_config (cl_sm w)) (key_chunk key) = Some a"
  shows "getVSAddr cl key = Inr a"
proof -
  have "map decode_entry (mappings cl) = sm_config (cl_sm w)" by (simp only: assms(2) decode_encode_config)
  with assms(1,3) show ?thesis
    by (simp add: getVSAddr_def shard_mod_eq search_config_owner)
qed

text \<open>Replacing the owner's store changes the cluster's map at the one key.\<close>

lemma cluster_update:
  assumes "synced contents w" "cl_servers w a = Some vs" "my_config vs' = my_config vs" "vs_inv contents vs'"
    "contents (db vs') = (contents (db vs))(key := x)" "owner_of (sm_config (cl_sm w)) (key_chunk key) = Some a"
  shows "synced contents (w\<lparr>cl_servers := (cl_servers w)(a \<mapsto> vs')\<rparr>)"
    "cluster_map contents (w\<lparr>cl_servers := (cl_servers w)(a \<mapsto> vs')\<rparr>) = (cluster_map contents w)(key := x)"
proof -
  show "synced contents (w\<lparr>cl_servers := (cl_servers w)(a \<mapsto> vs')\<rparr>)"
    using assms(1-4) by (auto simp: synced_def)
  show "cluster_map contents (w\<lparr>cl_servers := (cl_servers w)(a \<mapsto> vs')\<rparr>) = (cluster_map contents w)(key := x)"
    using assms(2,5,6) by (auto simp: cluster_map_def fun_eq_iff split: option.splits)
qed

definition cluster_inv :: "('db \<Rightarrow> string \<rightharpoonup> string) \<Rightarrow> 'db cluster \<Rightarrow> Client \<Rightarrow> bool" where
  "cluster_inv contents w cl \<longleftrightarrow> synced contents w \<and> client_current w cl"

lemma channel_frame [simp]:
  "mappings (createChannelIfNotExists a cl) = mappings cl"
  "cl_config_num (createChannelIfNotExists a cl) = cl_config_num cl"
  by (simp_all add: createChannelIfNotExists_def)

lemma current_frame [simp]:
  "client_current (w\<lparr>cl_servers := s\<rparr>) cl = client_current w cl"
  "client_current w (createChannelIfNotExists a cl) = client_current w cl"
  by (simp_all add: client_current_def)

lemma same_server: "cl_servers w a = Some vs \<Longrightarrow> w\<lparr>cl_servers := (cl_servers w)(a \<mapsto> vs)\<rparr> = w"
  by (simp add: fun_upd_idem)

context reliable_leveldb
begin

text \<open>The server a key is routed to, after the client's Query.\<close>

lemma routed:
  assumes "cluster_inv contents w cl" "key_ok key"
  obtains cl1 a vs where "Client_Query (cluster_rpc L Allocated) w cl = (w, cl1, QUERY_OK)" "client_current w cl1"
    "getVSAddr cl1 key = Inr a" "a \<noteq> []" "owner_of (sm_config (cl_sm w)) (key_chunk key) = Some a"
    "cl_servers w a = Some vs" "owns vs (key_chunk key)" "vs_inv contents vs"
    "cluster_map contents w key = contents (db vs) key"
proof -
  have sy: "synced contents w" "client_current w cl" using assms(1) by (simp_all add: cluster_inv_def)
  obtain cl1 where q: "Client_Query (cluster_rpc L Allocated) w cl = (w, cl1, QUERY_OK)" "client_current w cl1"
    "mappings cl1 = map encode_entry (sm_config (cl_sm w))"
    using Client_Query_cluster [OF sy(2)] by blast
  obtain a vs where o: "owner_of (sm_config (cl_sm w)) (key_chunk key) = Some a" "a \<noteq> []" "cl_servers w a = Some vs"
    "owns vs (key_chunk key)" "vs_inv contents vs" using synced_owner [OF sy(1)] by blast
  have "getVSAddr cl1 key = Inr a" by (rule getVSAddr_current [OF assms(2) q(3) o(1)])
  moreover have "cluster_map contents w key = contents (db vs) key" using o by (simp add: cluster_map_def)
  ultimately show ?thesis using that q o by blast
qed

lemma Get_cluster:
  assumes "cluster_inv contents w cl" "key_ok key"
  shows "\<exists>cl'. Client_Get (cluster_rpc L Allocated) w cl key =
      Inr (w, cl', case cluster_map contents w key of Some v \<Rightarrow> v | None \<Rightarrow> RPC_FAIL) \<and> cluster_inv contents w cl'"
proof -
  obtain cl1 a vs where r: "Client_Query (cluster_rpc L Allocated) w cl = (w, cl1, QUERY_OK)" "client_current w cl1"
    "getVSAddr cl1 key = Inr a" "a \<noteq> []" "owner_of (sm_config (cl_sm w)) (key_chunk key) = Some a"
    "cl_servers w a = Some vs" "owns vs (key_chunk key)" "vs_inv contents vs"
    "cluster_map contents w key = contents (db vs) key"
    using routed [OF assms] by metis
  then show ?thesis
    using assms(1) Get_refines [OF assms(2), of vs]
    by (intro exI [of _ "createChannelIfNotExists a cl1"])
      (auto simp: Client_Get_def cluster_rpc_def server_call_def kv_get_def cluster_inv_def same_server split: option.splits)
qed

lemma Put_cluster:
  assumes "cluster_inv contents w cl" "key_ok key"
  shows "\<exists>w' cl'. Client_Put (cluster_rpc L Allocated) w cl key x =
      Inr (w', cl', snd (map_call (cluster_map contents w) (Call_Put key x)))
    \<and> cluster_map contents w' = fst (map_call (cluster_map contents w) (Call_Put key x)) \<and> cluster_inv contents w' cl'"
proof -
  obtain cl1 a vs where r: "Client_Query (cluster_rpc L Allocated) w cl = (w, cl1, QUERY_OK)" "client_current w cl1"
    "getVSAddr cl1 key = Inr a" "a \<noteq> []" "owner_of (sm_config (cl_sm w)) (key_chunk key) = Some a"
    "cl_servers w a = Some vs" "owns vs (key_chunk key)" "vs_inv contents vs"
    "cluster_map contents w key = contents (db vs) key"
    using routed [OF assms] by metis
  have sy: "synced contents w" using assms(1) by (simp add: cluster_inv_def)
  let ?new = "if key \<in> dom (contents (db vs)) then contents (db vs) key else Some x"
  obtain d v where p: "VS_Put L Allocated vs key x = Inr (vs\<lparr>db := d, mod_map := v\<rparr>, snd (kv_put True (contents (db vs)) key x))"
    "contents d = fst (kv_put True (contents (db vs)) key x)" "vs_inv contents (vs\<lparr>db := d, mod_map := v\<rparr>)"
    using Put_refines [OF r(8) assms(2), of x] r(7) by auto
  let ?vs = "vs\<lparr>db := d, mod_map := v\<rparr>" and ?w = "w\<lparr>cl_servers := (cl_servers w)(a \<mapsto> vs\<lparr>db := d, mod_map := v\<rparr>)\<rparr>"
  have "contents (db ?vs) = (contents (db vs))(key := ?new)" using p(2) by (auto simp: kv_put_def fun_eq_iff)
  from cluster_update [OF sy r(6) _ p(3) this r(5)]
  have u: "synced contents ?w" "cluster_map contents ?w = (cluster_map contents w)(key := ?new)" by simp_all
  have "cluster_map contents ?w = fst (map_call (cluster_map contents w) (Call_Put key x))"
    unfolding u(2) using r(9) by (auto simp: fun_eq_iff dom_def)
  moreover have "Client_Put (cluster_rpc L Allocated) w cl key x =
      Inr (?w, createChannelIfNotExists a cl1, snd (map_call (cluster_map contents w) (Call_Put key x)))"
    using r(1,3,4,6,9) p(1) by (auto simp: Client_Put_def cluster_rpc_def server_call_def kv_put_def)
  ultimately show ?thesis using u(1) r(2) by (intro exI) (auto simp: cluster_inv_def)
qed

lemma Delete_cluster:
  assumes "cluster_inv contents w cl" "key_ok key"
  shows "\<exists>w' cl'. Client_Delete (cluster_rpc L Allocated) w cl key x =
      Inr (w', cl', snd (map_call (cluster_map contents w) (Call_Delete key x)))
    \<and> cluster_map contents w' = fst (map_call (cluster_map contents w) (Call_Delete key x)) \<and> cluster_inv contents w' cl'"
proof -
  obtain cl1 a vs where r: "Client_Query (cluster_rpc L Allocated) w cl = (w, cl1, QUERY_OK)" "client_current w cl1"
    "getVSAddr cl1 key = Inr a" "a \<noteq> []" "owner_of (sm_config (cl_sm w)) (key_chunk key) = Some a"
    "cl_servers w a = Some vs" "owns vs (key_chunk key)" "vs_inv contents vs"
    "cluster_map contents w key = contents (db vs) key"
    using routed [OF assms] by metis
  have sy: "synced contents w" using assms(1) by (simp add: cluster_inv_def)
  obtain d v where p: "VS_Delete L Allocated vs key x = Inr (vs\<lparr>db := d, mod_map := v\<rparr>, snd (kv_delete True (contents (db vs)) key))"
    "contents d = fst (kv_delete True (contents (db vs)) key)" "vs_inv contents (vs\<lparr>db := d, mod_map := v\<rparr>)"
    using Delete_refines [OF r(8) assms(2), of x] r(7) by auto
  let ?vs = "vs\<lparr>db := d, mod_map := v\<rparr>" and ?w = "w\<lparr>cl_servers := (cl_servers w)(a \<mapsto> vs\<lparr>db := d, mod_map := v\<rparr>)\<rparr>"
  have "contents (db ?vs) = (contents (db vs))(key := None)" using p(2) by (auto simp: kv_delete_def fun_eq_iff)
  from cluster_update [OF sy r(6) _ p(3) this r(5)]
  have u: "synced contents ?w" "cluster_map contents ?w = (cluster_map contents w)(key := None)" by simp_all
  have "cluster_map contents ?w = fst (map_call (cluster_map contents w) (Call_Delete key x))"
    unfolding u(2) by (cases "cluster_map contents w key") (auto simp: fun_eq_iff)
  moreover have "Client_Delete (cluster_rpc L Allocated) w cl key x =
      Inr (?w, createChannelIfNotExists a cl1, snd (map_call (cluster_map contents w) (Call_Delete key x)))"
    using r(1,3,4,6,9) p(1) by (auto simp: Client_Delete_def cluster_rpc_def server_call_def kv_delete_def)
  ultimately show ?thesis using u(1) r(2) by (intro exI) (auto simp: cluster_inv_def)
qed

lemma cluster_call_refines:
  assumes "cluster_inv contents w cl" "data_call c"
  shows "\<exists>w' cl'. run_call (cluster_rpc L Allocated) w cl c = Inr (w', cl', snd (map_call (cluster_map contents w) c))
    \<and> cluster_map contents w' = fst (map_call (cluster_map contents w) c) \<and> cluster_inv contents w' cl'"
proof (cases c)
  case (Call_Get key)
  then show ?thesis using Get_cluster [OF assms(1), of key] assms(2) by auto
next
  case (Call_Put key x)
  then have "key_ok key" using assms(2) by simp
  from Put_cluster [OF assms(1) this, of x] show ?thesis unfolding Call_Put run_call.simps .
next
  case (Call_Delete key x)
  then have "key_ok key" using assms(2) by simp
  from Delete_cluster [OF assms(1) this, of x] show ?thesis unfolding Call_Delete run_call.simps .
qed (use assms(2) in simp)

end

sublocale reliable_leveldb \<subseteq> clients: client_map "cluster_rpc L Allocated" "cluster_inv contents" "cluster_map contents"
  by unfold_locales (rule cluster_call_refines)

text \<open>
  (C1) A cluster whose servers have adopted the shard master's configuration behaves, for any client and any
  sequence of Get, Put and Delete calls, like one map: Put stores a new key and fails on an existing one,
  Get returns the stored value, Delete removes it, and every call is answered.
\<close>

theorem clients_see_one_map:
  assumes "reliable_leveldb L contents" "synced contents w" "client_current w cl" "list_all data_call cs"
  shows "\<exists>w' cl'. client_calls (cluster_rpc L Allocated) w cl cs = Inr (w', cl', snd (map_calls (cluster_map contents w) cs))
    \<and> cluster_map contents w' = fst (map_calls (cluster_map contents w) cs) \<and> synced contents w'"
proof -
  have "client_map (cluster_rpc L Allocated) (cluster_inv contents) (cluster_map contents)"
    using reliable_leveldb.cluster_call_refines [OF assms(1)] by unfold_locales
  from client_map.calls_refine [OF this _ assms(4), of w cl] assms(2,3) show ?thesis
    by (auto simp: cluster_inv_def)
qed

section \<open>Getting in sync\<close>

lemma own_entry_distinct:
  assumes "distinct (map vs_addr cfg)" "e \<in> set cfg"
  shows "own_entry (vs_addr e) (map encode_entry cfg) = Some (encode_entry e)"
proof -
  have "find (\<lambda>x. vs_addr x = vs_addr e) xs = Some e" if "distinct (map vs_addr xs)" "e \<in> set xs" for xs :: "SMConfigEntry list"
    using that by (induction xs) (auto simp: image_iff)
  moreover have "find P (map encode_entry xs) = map_option encode_entry (find (P \<circ> encode_entry) xs)" for P xs
    by (induction xs) auto
  moreover have "(\<lambda>x. server_addr x = vs_addr e) \<circ> encode_entry = (\<lambda>x. vs_addr x = vs_addr e)"
    by (simp add: fun_eq_iff encode_entry_def)
  moreover have "distinct (map vs_addr (rev cfg))" using assms(1) by (simp add: rev_map [symmetric])
  ultimately show ?thesis
    using assms(2) by (simp add: own_entry_def rev_map)
qed

lemma partitioned_response: "partitioned cfg \<Longrightarrow> response_ok (map encode_entry cfg)"
  unfolding response_ok_uppers decode_encode_config by (simp add: partitioned_def uppers_ok_def)

lemma tick_adopts:
  assumes "vs_inv contents vs" "partitioned (sm_config sm)" "distinct (map vs_addr (sm_config sm))"
    "e \<in> set (sm_config sm)" "vs_addr e = self_addr vs" "vs_config_num vs < config_num sm"
  shows "\<exists>vs'. fetchSMConfig Allocated (SM_QueryConfigNum sm) (SM_Query sm) vs = Inr vs'
    \<and> my_config vs' = e \<and> vs_config vs' = sm_config sm \<and> vs_config_num vs' = config_num sm
    \<and> db vs' = db vs \<and> self_addr vs' = self_addr vs \<and> vs_inv contents vs'"
proof -
  let ?cfg = "map encode_entry (sm_config sm)"
  have r: "response_ok ?cfg" by (rule partitioned_response [OF assms(2)])
  have o: "own_entry (self_addr vs) ?cfg = Some (encode_entry e)"
    using own_entry_distinct [OF assms(3,4)] assms(5) by simp
  obtain tm q where f: "fetchSMConfig Allocated (OK, config_num sm) (OK, ?cfg) vs =
      Inr ((adopt_config ?cfg vs)\<lparr>vs_config_num := config_num sm, to_move := tm, move_queue := q\<rparr>)"
    using fetch_effect [OF assms(1) _ assms(6) r, of OK OK] by auto
  moreover have "vs_inv contents ((adopt_config ?cfg vs)\<lparr>vs_config_num := config_num sm, to_move := tm, move_queue := q\<rparr>)"
    using fetch_inv [OF assms(1), of "(OK, config_num sm)" "(OK, ?cfg)"] r f by simp
  ultimately show ?thesis
    using o by (simp add: SM_QueryConfigNum_def SM_Query_def adopt_config_eq decode_encode_entry decode_encode_config
        del: map_map)
qed

text \<open>
  (C28) The configuration survives its way from the shard master to a volume server: a tick that sees a
  newer number makes the server's configuration equal to the shard master's, its own entry the one with its
  address, and its number the shard master's, and leaves the stored keys alone.
\<close>

theorem tick_adopts_sm_config:
  assumes "vs_inv contents vs" "partitioned (sm_config sm)" "distinct (map vs_addr (sm_config sm))"
    "e \<in> set (sm_config sm)" "vs_addr e = self_addr vs" "vs_config_num vs < config_num sm"
  shows "\<exists>vs'. fetchSMConfig Allocated (SM_QueryConfigNum sm) (SM_Query sm) vs = Inr vs'
    \<and> my_config vs' = e \<and> vs_config vs' = sm_config sm \<and> vs_config_num vs' = config_num sm \<and> db vs' = db vs"
  using tick_adopts [OF assms] by blast

text \<open>A shard master with one server, and that server after its construction and first tick.\<close>

definition main_addr :: string where "main_addr = ''127.0.0.1:8081''"

definition main_sm :: ShardMaster where
  "main_sm = fst (SM_Join ShardMaster_init main_addr)"

lemma main_sm_eq: "main_sm = \<lparr>sm_config = [\<lparr>shards = [mk_shard 0 1000], vs_addr = main_addr\<rparr>], config_num = 1\<rparr>"
  by (simp add: main_sm_def SM_Join_def ShardMaster_init_def server_exists_def Join_push_def redistributeChunks_def
      chunk_shard_def mk_shard_def)

lemma main_partitioned: "partitioned (sm_config main_sm)"
  by (auto simp: main_sm_eq partitioned_def mk_shard_def in_shard_def shard_ok_def)

lemma main_booted:
  obtains vs0 vs where "VolumeServer_new alist_store Allocated 4 7 main_addr (Some []) (snd (SM_Join ShardMaster_init main_addr)) = Inr vs0"
    "vs_inv map_of vs0" "vs_config_num vs0 = 0" "self_addr vs0 = main_addr"
    "fetchSMConfig Allocated (SM_QueryConfigNum main_sm) (SM_Query main_sm) vs0 = Inr vs"
    "my_config vs = \<lparr>shards = [mk_shard 0 1000], vs_addr = main_addr\<rparr>" "db vs = []" "vs_inv map_of vs"
proof -
  have j: "snd (SM_Join ShardMaster_init main_addr) = OK" by (simp add: SM_Join_def ShardMaster_init_def server_exists_def)
  obtain vs0 where v: "VolumeServer_new alist_store Allocated 4 7 main_addr (Some []) OK = Inr vs0" "vs_inv map_of vs0"
    "db vs0 = []" "self_addr vs0 = main_addr" "vs_config_num vs0 = 0"
    using alist.new_inv [of "[]" OK 4 7 main_addr] by auto
  moreover obtain vs where "fetchSMConfig Allocated (SM_QueryConfigNum main_sm) (SM_Query main_sm) vs0 = Inr vs"
    "my_config vs = \<lparr>shards = [mk_shard 0 1000], vs_addr = main_addr\<rparr>" "db vs = []" "vs_inv map_of vs"
    using tick_adopts [OF v(2) main_partitioned, of "\<lparr>shards = [mk_shard 0 1000], vs_addr = main_addr\<rparr>"] v
    by (auto simp: main_sm_eq)
  ultimately show ?thesis using that j by metis
qed

theorem tick_adopts_sm_config_witness:
  "\<exists>vs0 vs. VolumeServer_new alist_store Allocated 4 7 main_addr (Some []) OK = Inr vs0
    \<and> fetchSMConfig Allocated (SM_QueryConfigNum main_sm) (SM_Query main_sm) vs0 = Inr vs \<and> vs_config vs = sm_config main_sm"
proof -
  have j: "snd (SM_Join ShardMaster_init main_addr) = OK" by (simp add: SM_Join_def ShardMaster_init_def server_exists_def)
  obtain vs0 where v: "VolumeServer_new alist_store Allocated 4 7 main_addr (Some []) (snd (SM_Join ShardMaster_init main_addr)) = Inr vs0"
    "vs_inv map_of vs0" "vs_config_num vs0 = 0" "self_addr vs0 = main_addr" by (rule main_booted)
  with tick_adopts_sm_config [OF v(2) main_partitioned, of "\<lparr>shards = [mk_shard 0 1000], vs_addr = main_addr\<rparr>"] j show ?thesis
    by (auto simp: main_sm_eq)
qed

lemma booted_synced:
  assumes "my_config vs = \<lparr>shards = [mk_shard 0 1000], vs_addr = main_addr\<rparr>" "vs_inv contents vs" "contents (db vs) = Map.empty"
  shows "synced contents \<lparr>cl_sm = main_sm, cl_servers = [main_addr \<mapsto> vs]\<rparr>"
    "cluster_map contents \<lparr>cl_sm = main_sm, cl_servers = [main_addr \<mapsto> vs]\<rparr> = Map.empty"
    "client_current \<lparr>cl_sm = main_sm, cl_servers = [main_addr \<mapsto> vs]\<rparr> Client_init"
proof -
  show "synced contents \<lparr>cl_sm = main_sm, cl_servers = [main_addr \<mapsto> vs]\<rparr>"
    using assms main_partitioned by (simp add: synced_def) (simp add: main_sm_eq main_addr_def)
  show "cluster_map contents \<lparr>cl_sm = main_sm, cl_servers = [main_addr \<mapsto> vs]\<rparr> = Map.empty"
    using assms(3) by (auto simp: cluster_map_def main_sm_eq fun_eq_iff split: option.splits)
  show "client_current \<lparr>cl_sm = main_sm, cl_servers = [main_addr \<mapsto> vs]\<rparr> Client_init"
    by (simp add: client_current_def Client_init_def main_sm_eq)
qed

theorem clients_see_one_map_witness:
  "\<exists>vs w' cl'. synced map_of \<lparr>cl_sm = main_sm, cl_servers = [main_addr \<mapsto> vs]\<rparr>
    \<and> client_calls (cluster_rpc alist_store Allocated) \<lparr>cl_sm = main_sm, cl_servers = [main_addr \<mapsto> vs]\<rparr> Client_init
        [Call_Put ''k'' ''v'', Call_Get ''k'', Call_Delete ''k'' ''v'', Call_Get ''k''] =
      Inr (w', cl', [QUERY_OK, ''v'', QUERY_OK, RPC_FAIL])"
proof -
  obtain vs0 vs where vs: "my_config vs = \<lparr>shards = [mk_shard 0 1000], vs_addr = main_addr\<rparr>" "db vs = []" "vs_inv map_of vs"
    by (rule main_booted)
  note b = booted_synced [of vs map_of, OF vs(1,3)]
  have "list_all data_call [Call_Put ''k'' ''v'', Call_Get ''k'', Call_Delete ''k'' ''v'', Call_Get ''k'']"
    by (simp add: key_ok_def)
  from clients_see_one_map [OF alist.reliable_leveldb_axioms b(1) b(3) this] b(1,2) vs(2) show ?thesis
    by auto
qed

lemma client_calls_snoc:
  "client_calls R w cl (cs @ [c]) = and_then (client_calls R w cl cs) (\<lambda>(w1, cl1, ss).
     and_then (run_call R w1 cl1 c) (\<lambda>(w2, cl2, s). Inr (w2, cl2, ss @ [s])))"
  by (induction cs arbitrary: w cl) (auto simp: case_prod_unfold and_then_def split: sum.splits)

lemma server_call_sm: "cl_sm (fst (server_call w addr f r)) = cl_sm w"
  by (auto simp: server_call_def split: option.splits sum.splits)

lemma Client_Query_world: "fst (Client_Query (cluster_rpc L acc) w cl) = w"
  by (simp add: Client_Query_def cluster_rpc_def SM_QueryConfigNum_def SM_Query_def)

lemma data_call_sm:
  assumes "data_call c" "run_call (cluster_rpc L acc) w cl c = Inr (w', cl', s)"
  shows "cl_sm w' = cl_sm w"
proof -
  obtain cl1 s1 where q: "Client_Query (cluster_rpc L acc) w cl = (w, cl1, s1)"
    using Client_Query_world [of L acc w cl] by (metis prod.collapse)
  have r: "cl_sm (fst (rpc_get (cluster_rpc L acc) w a k)) = cl_sm w"
    "cl_sm (fst (rpc_put (cluster_rpc L acc) w a k v)) = cl_sm w"
    "cl_sm (fst (rpc_delete (cluster_rpc L acc) w a k v)) = cl_sm w" for a k v
    by (simp_all add: cluster_rpc_def server_call_sm)
  show ?thesis
    using assms q
    by (cases c)
       (auto simp: Client_Get_def Client_Put_def Client_Delete_def fault_simps Let_def case_prod_unfold r split: if_splits)
qed

lemma data_calls_sm:
  assumes "list_all data_call cs" "client_calls (cluster_rpc L acc) w cl cs = Inr (w', cl', ss)"
  shows "cl_sm w' = cl_sm w"
  using assms
proof (induction cs arbitrary: w cl ss)
  case (Cons c cs)
  then obtain w1 cl1 s ss' where "run_call (cluster_rpc L acc) w cl c = Inr (w1, cl1, s)"
    "client_calls (cluster_rpc L acc) w1 cl1 cs = Inr (w', cl', ss')"
    by (auto simp: fault_simps)
  with Cons data_call_sm [of c L acc w cl w1 cl1 s] show ?case by simp
qed simp

text \<open>
  The calls of the client's \<^verbatim>\<open>main\<close> against such a cluster that holds none of its keys and knows the
  server \<^verbatim>\<open>127.0.0.1:8081\<close> print what the comments in \<^verbatim>\<open>main\<close> announce: key not found, success, the value,
  key already exists, success, key not found, success, key not found, and an accepted move.
\<close>

theorem client_main_prints:
  assumes "reliable_leveldb L contents" "synced contents w" "cl_config_num Client_init < config_num (cl_sm w)"
    "cluster_map contents w = Map.empty" "server_exists (sm_config (cl_sm w)) main_addr"
  shows "\<exists>w' cl'. client_main (cluster_rpc L Allocated) w =
    Inr (w', cl', [RPC_FAIL, QUERY_OK, ''value1'', RPC_FAIL, QUERY_OK, RPC_FAIL, QUERY_OK, RPC_FAIL, QUERY_OK])"
proof -
  let ?cs = "[Call_Get ''key1'', Call_Put ''key1'' ''value1'', Call_Get ''key1'', Call_Put ''key1'' ''value1'',
      Call_Put ''key2'' ''value2'', Call_Delete ''key3'' ''value3'', Call_Delete ''key2'' ''value2'', Call_Get ''key2'']"
  let ?out = "[RPC_FAIL, QUERY_OK, ''value1'', RPC_FAIL, QUERY_OK, RPC_FAIL, QUERY_OK, RPC_FAIL]"
  let ?R = "cluster_rpc L Allocated" and ?mv = "Call_Move (0, 400) main_addr"
  have map: "client_map ?R (cluster_inv contents) (cluster_map contents)"
    using reliable_leveldb.cluster_call_refines [OF assms(1)] by unfold_locales
  have ok: "list_all data_call ?cs" by (simp add: key_ok_def)
  have inv: "cluster_inv contents w Client_init" using assms(2,3) by (simp add: cluster_inv_def client_current_def)
  have out: "snd (map_calls (cluster_map contents w) ?cs) = ?out" unfolding assms(4) by simp
  obtain w1 cl1 where c: "client_calls ?R w Client_init ?cs = Inr (w1, cl1, ?out)"
    using client_map.calls_refine [OF map inv ok] unfolding out by blast
  have "server_exists (sm_config (cl_sm w1)) main_addr" using data_calls_sm [OF ok c] assms(5) by simp
  then obtain sm' where "SM_Move (cl_sm w1) main_addr (0, 400) = Inr (sm', OK)"
    using move_config_total [of "sm_config (cl_sm w1)" main_addr "mk_shard 0 400"] by (auto simp: SM_Move_def Move_apply_def)
  then have "run_call ?R w1 cl1 ?mv = Inr (w1\<lparr>cl_sm := sm'\<rparr>, cl1, QUERY_OK)"
    by (simp add: Client_Move_def cluster_rpc_def)
  then have "client_calls ?R w Client_init (?cs @ [?mv]) = Inr (w1\<lparr>cl_sm := sm'\<rparr>, cl1, ?out @ [QUERY_OK])"
    unfolding client_calls_snoc c by simp
  then show ?thesis by (simp only: client_main_def main_addr_def append.simps) blast
qed

theorem client_main_prints_witness:
  "\<exists>vs w' cl'. client_main (cluster_rpc alist_store Allocated) \<lparr>cl_sm = main_sm, cl_servers = [main_addr \<mapsto> vs]\<rparr> =
    Inr (w', cl', [RPC_FAIL, QUERY_OK, ''value1'', RPC_FAIL, QUERY_OK, RPC_FAIL, QUERY_OK, RPC_FAIL, QUERY_OK])"
proof -
  obtain vs0 vs where vs: "my_config vs = \<lparr>shards = [mk_shard 0 1000], vs_addr = main_addr\<rparr>" "db vs = []" "vs_inv map_of vs"
    by (rule main_booted)
  note b = booted_synced [of vs map_of, OF vs(1,3)]
  let ?w = "\<lparr>cl_sm = main_sm, cl_servers = [main_addr \<mapsto> vs]\<rparr>"
  have "synced map_of ?w" "cluster_map map_of ?w = Map.empty" using b vs(2) by simp_all
  moreover have "cl_config_num Client_init < config_num (cl_sm ?w)" "server_exists (sm_config (cl_sm ?w)) main_addr"
    by (simp_all add: main_sm_eq Client_init_def server_exists_def)
  ultimately show ?thesis using client_main_prints [OF alist.reliable_leveldb_axioms, of ?w] by blast
qed

end
