(* ===== verification/Cluster_Runs.thy ===== *)
theory Cluster_Runs
  imports Cluster
begin

text \<open>
  Runs of a whole cluster: requests to the shard master, calls of clients, ticks, passes of
  \<^verbatim>\<open>moveKeys\<close>, worker steps that send a key to another server, and servers that start, in any order.
  A transfer (the Put at the target and what the task does with its answer) is one step. The replies a
  tick gets are arbitrary, so that they include those of any moment of the shard master's history.
\<close>

datatype cluster_event = Put_ev string string | Delete_ev string | Other_ev

text \<open>Worker \<open>i\<close> of the server at \<open>a\<close>; a task it is executing sends its Put and handles the answer.\<close>

definition run_worker :: "'db leveldb \<Rightarrow> vector_access \<Rightarrow> 'db cluster \<Rightarrow> string \<Rightarrow> nat \<Rightarrow> 'db cluster" where
  "run_worker L acc w a i =
     (case cl_servers w a of
        None \<Rightarrow> w
      | Some vs \<Rightarrow>
          let (w1, st) = (if i < length (workers (tpool vs))
                          then case workers (tpool vs) ! i of
                                 Executing t \<Rightarrow> rpc_put (cluster_rpc L acc) w (task_addr t) (task_key t) (task_value t)
                               | _ \<Rightarrow> (w, OK)
                          else (w, OK))
          in fst (server_call w1 a (\<lambda>vs. and_then (vs_worker_step L acc i (\<lambda>_. st) vs) (\<lambda>vs'. Inr (vs', ()))) ()))"

inductive cluster_step ::
  "'db leveldb \<Rightarrow> vector_access \<Rightarrow> 'db cluster \<Rightarrow> cluster_event \<Rightarrow> 'db cluster \<Rightarrow> bool"
  for L acc where
  sm_request: "sm_handle (cl_sm w) r = Inr (sm', rep) \<Longrightarrow> cluster_step L acc w Other_ev (w\<lparr>cl_sm := sm'\<rparr>)"
| client_put: "key_ok key \<Longrightarrow> cluster_step L acc w (Put_ev key v) (fst (rpc_put (cluster_rpc L acc) w a key v))"
| client_delete: "key_ok key \<Longrightarrow> cluster_step L acc w (Delete_ev key) (fst (rpc_delete (cluster_rpc L acc) w a key v))"
| client_get: "key_ok key \<Longrightarrow> cluster_step L acc w Other_ev (fst (rpc_get (cluster_rpc L acc) w a key))"
| tick: "cl_servers w a = Some vs \<Longrightarrow> status_ok (fst n) \<Longrightarrow> response_ok (snd q) \<Longrightarrow> fetchSMConfig acc n q vs = Inr vs' \<Longrightarrow>
    cluster_step L acc w Other_ev (w\<lparr>cl_servers := (cl_servers w)(a \<mapsto> vs')\<rparr>)"
| move_pass: "cl_servers w a = Some vs \<Longrightarrow> moveKeys L vs = Inr vs' \<Longrightarrow>
    cluster_step L acc w Other_ev (w\<lparr>cl_servers := (cl_servers w)(a \<mapsto> vs')\<rparr>)"
| worker_run: "cluster_step L acc w Other_ev (run_worker L acc w a i)"
| start_server: "cl_servers w a = None \<Longrightarrow> db_keys L d = [] \<Longrightarrow> SM_Join (cl_sm w) a = (sm', st) \<Longrightarrow>
    VolumeServer_new L acc cores junk a (Some d) st = Inr vs \<Longrightarrow>
    cluster_step L acc w Other_ev (w\<lparr>cl_sm := sm', cl_servers := (cl_servers w)(a \<mapsto> vs)\<rparr>)"

inductive cluster_run ::
  "'db leveldb \<Rightarrow> vector_access \<Rightarrow> 'db cluster \<Rightarrow> cluster_event list \<Rightarrow> 'db cluster \<Rightarrow> bool"
  for L acc where
  cluster_refl: "cluster_run L acc w [] w"
| cluster_snoc: "cluster_run L acc w es w' \<Longrightarrow> cluster_step L acc w' e w'' \<Longrightarrow> cluster_run L acc w (es @ [e]) w''"

section \<open>Invariants\<close>

definition servers_inv :: "('db \<Rightarrow> string \<rightharpoonup> string) \<Rightarrow> 'db cluster \<Rightarrow> bool" where
  "servers_inv contents w \<longleftrightarrow> (\<forall>a vs. cl_servers w a = Some vs \<longrightarrow> vs_inv contents vs)"

definition stored :: "('db \<Rightarrow> string \<rightharpoonup> string) \<Rightarrow> 'db cluster \<Rightarrow> string \<Rightarrow> bool" where
  "stored contents w k \<longleftrightarrow> (\<exists>a vs. cl_servers w a = Some vs \<and> k \<in> dom (contents (db vs)))"

text \<open>Values in stores and in tasks all come from a given set.\<close>

definition vs_values :: "('db \<Rightarrow> string \<rightharpoonup> string) \<Rightarrow> (string \<times> string) set \<Rightarrow> 'db VolumeServer \<Rightarrow> bool" where
  "vs_values contents W vs \<longleftrightarrow> Map.graph (contents (db vs)) \<subseteq> W
     \<and> (\<forall>t. t \<in># unfinished (tpool vs) \<longrightarrow> (task_key t, task_value t) \<in> W)"

definition values_from :: "('db \<Rightarrow> string \<rightharpoonup> string) \<Rightarrow> (string \<times> string) set \<Rightarrow> 'db cluster \<Rightarrow> bool" where
  "values_from contents W w \<longleftrightarrow> (\<forall>a vs. cl_servers w a = Some vs \<longrightarrow> vs_values contents W vs)"

text \<open>One server is replaced: what this needs for each invariant.\<close>

lemma replace_server:
  assumes "servers_inv contents w" "vs_inv contents vs'"
  shows "servers_inv contents (w\<lparr>cl_servers := (cl_servers w)(a \<mapsto> vs')\<rparr>)"
  using assms by (auto simp: servers_inv_def)

lemma replace_values:
  assumes "values_from contents W w" "vs_values contents W vs'"
  shows "values_from contents W (w\<lparr>cl_servers := (cl_servers w)(a \<mapsto> vs')\<rparr>)"
  using assms by (auto simp: values_from_def)

lemma replace_stored:
  assumes "stored contents w k" "cl_servers w a = Some vs" "k \<in> dom (contents (db vs)) \<Longrightarrow> k \<in> dom (contents (db vs'))"
  shows "stored contents (w\<lparr>cl_servers := (cl_servers w)(a \<mapsto> vs')\<rparr>) k"
proof -
  obtain b vsb where b: "cl_servers w b = Some vsb" "k \<in> dom (contents (db vsb))"
    using assms(1) by (auto simp: stored_def)
  then show ?thesis using assms(2,3) unfolding stored_def
    by (cases "b = a") (auto intro: exI [of _ a] exI [of _ b])
qed

lemma vs_values_mono: "vs_values contents W vs \<Longrightarrow> W \<subseteq> W' \<Longrightarrow> vs_values contents W' vs"
  by (auto simp: vs_values_def)

lemma graph_put: "Map.graph (m(k \<mapsto> v)) \<subseteq> insert (k, v) (Map.graph m)"
  by (auto simp: Map.graph_def split: if_splits)

lemma graph_delete: "Map.graph (m(k := None)) \<subseteq> Map.graph m"
  by (auto simp: Map.graph_def split: if_splits)

text \<open>What one step does to the three invariants.\<close>

fun written :: "cluster_event \<Rightarrow> (string \<times> string) set" where
  "written (Put_ev k v) = {(k, v)}"
| "written _ = {}"

definition step_ok :: "('db \<Rightarrow> string \<rightharpoonup> string) \<Rightarrow> 'db cluster \<Rightarrow> cluster_event \<Rightarrow> 'db cluster \<Rightarrow> bool" where
  "step_ok contents w e w' \<longleftrightarrow> servers_inv contents w'
     \<and> (\<forall>W. values_from contents W w \<longrightarrow> values_from contents (W \<union> written e) w')
     \<and> (\<forall>k. stored contents w k \<longrightarrow> e \<noteq> Delete_ev k \<longrightarrow> stored contents w' k)"

context reliable_leveldb
begin

text \<open>The effect of a Put, Delete or Get call on the cluster.\<close>

lemma put_call:
  assumes "servers_inv contents w" "key_ok key" "rpc_put (cluster_rpc L Allocated) w a key x = (w', st)"
  shows "(w' = w \<and> st = down) \<or> (\<exists>vs d v. cl_servers w a = Some vs
      \<and> w' = w\<lparr>cl_servers := (cl_servers w)(a \<mapsto> vs\<lparr>db := d, mod_map := v\<rparr>)\<rparr>
      \<and> vs_inv contents (vs\<lparr>db := d, mod_map := v\<rparr>)
      \<and> (status_ok st \<and> contents (db vs) key = None \<and> contents d = (contents (db vs))(key \<mapsto> x)
         \<or> \<not> status_ok st \<and> contents d = contents (db vs)))"
proof (cases "cl_servers w a")
  case None
  then show ?thesis using assms(3) by (simp add: cluster_rpc_def server_call_def)
next
  case (Some vs)
  then have "vs_inv contents vs" using assms(1) by (simp add: servers_inv_def)
  from Put_refines [OF this assms(2), of x] obtain d v where
    p: "VS_Put L Allocated vs key x = Inr (vs\<lparr>db := d, mod_map := v\<rparr>, snd (kv_put (owns vs (key_chunk key)) (contents (db vs)) key x))"
    "contents d = fst (kv_put (owns vs (key_chunk key)) (contents (db vs)) key x)" "vs_inv contents (vs\<lparr>db := d, mod_map := v\<rparr>)" by blast
  then have w': "w' = w\<lparr>cl_servers := (cl_servers w)(a \<mapsto> vs\<lparr>db := d, mod_map := v\<rparr>)\<rparr>"
    "st = snd (kv_put (owns vs (key_chunk key)) (contents (db vs)) key x)"
    using Some assms(3) by (simp_all add: cluster_rpc_def server_call_def)
  have "status_ok st \<and> contents (db vs) key = None \<and> contents d = (contents (db vs))(key \<mapsto> x)
         \<or> \<not> status_ok st \<and> contents d = contents (db vs)"
    using p(2) w'(2) by (auto simp: kv_put_def split: if_splits)
  with Some w'(1) p(3) show ?thesis by blast
qed

lemma delete_call:
  assumes "servers_inv contents w" "key_ok key" "rpc_delete (cluster_rpc L Allocated) w a key x = (w', st)"
  shows "w' = w \<or> (\<exists>vs d v. cl_servers w a = Some vs
      \<and> w' = w\<lparr>cl_servers := (cl_servers w)(a \<mapsto> vs\<lparr>db := d, mod_map := v\<rparr>)\<rparr>
      \<and> vs_inv contents (vs\<lparr>db := d, mod_map := v\<rparr>)
      \<and> (contents d = contents (db vs) \<or> contents d = (contents (db vs))(key := None)))"
proof (cases "cl_servers w a")
  case None
  then show ?thesis using assms(3) by (simp add: cluster_rpc_def server_call_def)
next
  case (Some vs)
  then have "vs_inv contents vs" using assms(1) by (simp add: servers_inv_def)
  from Delete_refines [OF this assms(2), of x] obtain d v where
    p: "VS_Delete L Allocated vs key x = Inr (vs\<lparr>db := d, mod_map := v\<rparr>, snd (kv_delete (owns vs (key_chunk key)) (contents (db vs)) key))"
    "contents d = fst (kv_delete (owns vs (key_chunk key)) (contents (db vs)) key)" "vs_inv contents (vs\<lparr>db := d, mod_map := v\<rparr>)" by blast
  then have w': "w' = w\<lparr>cl_servers := (cl_servers w)(a \<mapsto> vs\<lparr>db := d, mod_map := v\<rparr>)\<rparr>"
    using Some assms(3) by (simp add: cluster_rpc_def server_call_def)
  have "contents d = contents (db vs) \<or> contents d = (contents (db vs))(key := None)"
    using p(2) by (auto simp: kv_delete_def)
  with Some w' p(3) show ?thesis by blast
qed

lemma get_call:
  assumes "key_ok key"
  shows "fst (rpc_get (cluster_rpc L Allocated) w a key) = w"
  using Get_refines [OF assms]
  by (cases "cl_servers w a") (simp_all add: cluster_rpc_def server_call_def same_server case_prod_unfold)

text \<open>A worker's step by what the worker is at.\<close>

lemma in_flight_member:
  assumes "i < length (workers p)" "workers p ! i = Executing t"
  shows "t \<in># unfinished p"
proof -
  have "in_flight p = add_mset t (in_flight (put_worker i Exited p))"
    using in_flight_put_worker [OF assms(1), of Exited] assms(2) by simp
  then show ?thesis by (simp add: unfinished_def)
qed

lemma worker_server:
  assumes "vs_inv contents vs"
  shows "\<exists>vs'. vs_worker_step L Allocated i (\<lambda>_. st) vs = Inr vs' \<and> vs_inv contents vs'
    \<and> unfinished (tpool vs') \<subseteq># unfinished (tpool vs)
    \<and> (if i < length (workers (tpool vs)) \<and> status_ok st
       then (case workers (tpool vs) ! i of
               Executing t \<Rightarrow> contents (db vs') = (contents (db vs))(task_key t := None) | _ \<Rightarrow> db vs' = db vs)
       else db vs' = db vs)"
proof (cases "i < length (workers (tpool vs))")
  case False
  then show ?thesis using assms by (simp add: vs_worker_step_def)
next
  case i: True
  obtain ev p where w: "worker_step i (tpool vs) = (ev, p)" by fastforce
  have c: "unfinished (tpool vs) = unfinished p + completed [ev]"
    using worker_step_conserves [OF i w] by simp
  let ?vs = "vs\<lparr>tpool := p\<rparr>"
  have inv: "vs_inv contents ?vs"
    using assms c by (auto simp: vs_inv_def moves_ok_def mod_map_ok_def my_config_ok_def)
  show ?thesis
  proof (cases "workers (tpool vs) ! i")
    case (Executing t)
    then have ev: "ev = Completed t" using w by (auto simp: worker_step_def)
    have "t \<in># unfinished (tpool vs)" by (rule in_flight_member [OF i Executing])
    then have ok: "key_ok (task_key t)" "task_shard t = key_chunk (task_key t)"
      using assms by (auto simp: vs_inv_def moves_ok_def)
    obtain vs' where f: "move_task_finish L Allocated i t st ?vs = Inr vs'" "vs_inv contents vs'" "tpool vs' = p"
      "if status_ok st then contents (db vs') = (contents (db vs))(task_key t := None) else db vs' = db vs"
      using move_task_finish_inv [OF inv ok, of i st] by (auto split: if_splits)
    have "vs_worker_step L Allocated i (\<lambda>_. st) vs = Inr vs'" using i w ev f(1) by (simp add: vs_worker_step_def)
    with f c Executing i show ?thesis by (intro exI [of _ vs']) simp
  next
    case At_Loop
    then have "ev = Internal" using w by (auto simp: worker_step_def split: if_splits)
    with At_Loop w i inv c show ?thesis by (simp add: vs_worker_step_def)
  next
    case Past_Pause
    then have "ev = Internal" using w by (auto simp: worker_step_def split: option.splits)
    with Past_Pause w i inv c show ?thesis by (simp add: vs_worker_step_def)
  next
    case Exited
    then have "ev = Internal" using w by (auto simp: worker_step_def)
    with Exited w i inv c show ?thesis by (simp add: vs_worker_step_def)
  qed
qed

lemma task_ok:
  assumes "servers_inv contents w" "cl_servers w a = Some vs" "i < length (workers (tpool vs))"
    "workers (tpool vs) ! i = Executing t"
  shows "key_ok (task_key t)" "t \<in># unfinished (tpool vs)"
  using assms in_flight_member [OF assms(3,4)] by (auto simp: servers_inv_def vs_inv_def moves_ok_def)

text \<open>
  A worker's step on the cluster: nothing; or the worker's server changes without its store; or a task is
  executed: its Put is sent, and only when it is accepted the key leaves the worker's server.
\<close>

lemma run_worker_cases:
  assumes "servers_inv contents w" "cl_servers w a = Some vs"
  obtains (idle) vs' where "run_worker L Allocated w a i = w\<lparr>cl_servers := (cl_servers w)(a \<mapsto> vs')\<rparr>" "vs_inv contents vs'"
      "unfinished (tpool vs') \<subseteq># unfinished (tpool vs)" "db vs' = db vs"
  | (transfer) t w1 st vs1 vs' where "t \<in># unfinished (tpool vs)" "key_ok (task_key t)"
      "rpc_put (cluster_rpc L Allocated) w (task_addr t) (task_key t) (task_value t) = (w1, st)"
      "servers_inv contents w1" "cl_servers w1 a = Some vs1" "tpool vs1 = tpool vs"
      "run_worker L Allocated w a i = w1\<lparr>cl_servers := (cl_servers w1)(a \<mapsto> vs')\<rparr>" "vs_inv contents vs'"
      "unfinished (tpool vs') \<subseteq># unfinished (tpool vs)"
      "contents (db vs') = (if status_ok st then (contents (db vs1))(task_key t := None) else contents (db vs1))"
proof -
  have inv: "vs_inv contents vs" using assms by (simp add: servers_inv_def)
  show ?thesis
  proof (cases "\<exists>t. i < length (workers (tpool vs)) \<and> workers (tpool vs) ! i = Executing t")
    case False
    obtain vs' where f: "vs_worker_step L Allocated i (\<lambda>_. OK) vs = Inr vs'" "vs_inv contents vs'"
      "unfinished (tpool vs') \<subseteq># unfinished (tpool vs)" "db vs' = db vs"
      using worker_server [OF inv, of i OK] False
      by (cases "i < length (workers (tpool vs))"; cases "workers (tpool vs) ! i") auto
    have "run_worker L Allocated w a i = w\<lparr>cl_servers := (cl_servers w)(a \<mapsto> vs')\<rparr>"
      using assms(2) f(1) False
      by (cases "i < length (workers (tpool vs))"; cases "workers (tpool vs) ! i")
        (auto simp: run_worker_def server_call_def)
    with f idle show ?thesis by blast
  next
    case True
    then obtain t where t: "i < length (workers (tpool vs))" "workers (tpool vs) ! i = Executing t" by blast
    note ok = task_ok [OF assms t]
    obtain w1 st where p: "rpc_put (cluster_rpc L Allocated) w (task_addr t) (task_key t) (task_value t) = (w1, st)" by fastforce
    have w1: "servers_inv contents w1" "\<exists>vs1. cl_servers w1 a = Some vs1 \<and> tpool vs1 = tpool vs"
      using put_call [OF assms(1) ok(1) p] assms by (auto simp: replace_server)
    then obtain vs1 where vs1: "cl_servers w1 a = Some vs1" "tpool vs1 = tpool vs" by blast
    then have "vs_inv contents vs1" using w1(1) by (simp add: servers_inv_def)
    then obtain vs' where f: "vs_worker_step L Allocated i (\<lambda>_. st) vs1 = Inr vs'" "vs_inv contents vs'"
      "unfinished (tpool vs') \<subseteq># unfinished (tpool vs)"
      "contents (db vs') = (if status_ok st then (contents (db vs1))(task_key t := None) else contents (db vs1))"
      using worker_server [of vs1 i st] t vs1(2) by (auto split: if_splits)
    have "run_worker L Allocated w a i = w1\<lparr>cl_servers := (cl_servers w1)(a \<mapsto> vs')\<rparr>"
      using assms(2) t p vs1(1) f(1) by (simp add: run_worker_def server_call_def)
    with transfer [OF ok(2,1) p w1(1) vs1] f(2-4) show ?thesis by blast
  qed
qed

lemma step_ok_same: "servers_inv contents w \<Longrightarrow> cl_servers w' = cl_servers w \<Longrightarrow> step_ok contents w e w'"
  unfolding step_ok_def servers_inv_def values_from_def stored_def by (metis vs_values_mono Un_upper1)

lemma step_ok_replace:
  assumes "servers_inv contents w" "cl_servers w a = Some vs" "vs_inv contents vs'"
    "\<And>W. vs_values contents W vs \<Longrightarrow> vs_values contents (W \<union> written e) vs'"
    "\<And>k. k \<in> dom (contents (db vs)) \<Longrightarrow> e \<noteq> Delete_ev k \<Longrightarrow> k \<in> dom (contents (db vs'))"
  shows "step_ok contents w e (w\<lparr>cl_servers := (cl_servers w)(a \<mapsto> vs')\<rparr>)"
  unfolding step_ok_def
proof (intro conjI allI impI)
  show "servers_inv contents (w\<lparr>cl_servers := (cl_servers w)(a \<mapsto> vs')\<rparr>)" by (rule replace_server [OF assms(1,3)])
  fix W assume W: "values_from contents W w"
  then have "values_from contents (W \<union> written e) w" by (auto simp: values_from_def intro: vs_values_mono)
  moreover have "vs_values contents W vs" using W assms(2) by (simp add: values_from_def)
  ultimately show "values_from contents (W \<union> written e) (w\<lparr>cl_servers := (cl_servers w)(a \<mapsto> vs')\<rparr>)"
    by (intro replace_values assms(4))
next
  fix k assume "stored contents w k" "e \<noteq> Delete_ev k"
  then show "stored contents (w\<lparr>cl_servers := (cl_servers w)(a \<mapsto> vs')\<rparr>) k"
    using replace_stored [OF _ assms(2)] assms(5) by blast
qed

lemma put_step_ok:
  assumes "servers_inv contents w" "key_ok key" "rpc_put (cluster_rpc L Allocated) w a key x = (w', st)"
  shows "step_ok contents w (Put_ev key x) w'"
  using put_call [OF assms]
proof (elim disjE exE conjE)
  assume "w' = w" then show ?thesis using assms(1) by (simp add: step_ok_same)
next
  fix vs d v
  assume p: "cl_servers w a = Some vs" "w' = w\<lparr>cl_servers := (cl_servers w)(a \<mapsto> vs\<lparr>db := d, mod_map := v\<rparr>)\<rparr>"
    "vs_inv contents (vs\<lparr>db := d, mod_map := v\<rparr>)"
    and c: "contents d = (contents (db vs))(key \<mapsto> x)"
  show ?thesis unfolding p(2)
    using graph_put [of "contents (db vs)" key x] c
    by (intro step_ok_replace [OF assms(1) p(1,3)]) (auto simp: vs_values_def)
next
  fix vs d v
  assume p: "cl_servers w a = Some vs" "w' = w\<lparr>cl_servers := (cl_servers w)(a \<mapsto> vs\<lparr>db := d, mod_map := v\<rparr>)\<rparr>"
    "vs_inv contents (vs\<lparr>db := d, mod_map := v\<rparr>)"
    and c: "contents d = contents (db vs)"
  show ?thesis unfolding p(2)
    using c by (intro step_ok_replace [OF assms(1) p(1,3)]) (auto simp: vs_values_def)
qed

lemma delete_step_ok:
  assumes "servers_inv contents w" "key_ok key" "rpc_delete (cluster_rpc L Allocated) w a key x = (w', st)"
  shows "step_ok contents w (Delete_ev key) w'"
  using delete_call [OF assms]
proof (elim disjE exE conjE)
  assume "w' = w" then show ?thesis using assms(1) by (simp add: step_ok_same)
next
  fix vs d v
  assume p: "cl_servers w a = Some vs" "w' = w\<lparr>cl_servers := (cl_servers w)(a \<mapsto> vs\<lparr>db := d, mod_map := v\<rparr>)\<rparr>"
    "vs_inv contents (vs\<lparr>db := d, mod_map := v\<rparr>)"
    and c: "contents d = contents (db vs)"
  show ?thesis unfolding p(2)
    using c by (intro step_ok_replace [OF assms(1) p(1,3)]) (auto simp: vs_values_def)
next
  fix vs d v
  assume p: "cl_servers w a = Some vs" "w' = w\<lparr>cl_servers := (cl_servers w)(a \<mapsto> vs\<lparr>db := d, mod_map := v\<rparr>)\<rparr>"
    "vs_inv contents (vs\<lparr>db := d, mod_map := v\<rparr>)"
    and c: "contents d = (contents (db vs))(key := None)"
  show ?thesis unfolding p(2)
    using graph_delete [of "contents (db vs)" key] c
    by (intro step_ok_replace [OF assms(1) p(1,3)]) (auto simp: vs_values_def)
qed

lemma moveKeys_tasks:
  assumes "moveKeys L vs = Inr vs'" "t \<in># unfinished (tpool vs')"
  shows "t \<in># unfinished (tpool vs) \<or> contents (db vs) (task_key t) = Some (task_value t)"
proof (cases "try_dequeue (move_queue vs)")
  case None
  then show ?thesis using assms by (simp add: moveKeys_def)
next
  case (Some r)
  obtain key q where r: "r = (key, q)" by fastforce
  show ?thesis
    using assms Some r
    by (cases "contents (db vs) key")
       (auto simp: moveKeys_def Let_def fault_simps get_contents unfinished_push split: if_splits)
qed

lemma fetch_tpool:
  assumes "vs_inv contents vs" "status_ok (fst n)" "response_ok (snd q)" "fetchSMConfig Allocated n q vs = Inr vs'"
  shows "tpool vs' = tpool vs"
proof (cases "vs_config_num vs < snd n")
  case False
  then show ?thesis using assms by (auto simp: fetchSMConfig_def Let_def split: prod.splits if_splits)
next
  case True
  have "tpool vs' = tpool vs" if "response_ok cfg" "fetchSMConfig Allocated (fst n, snd n) (OK, cfg) vs = Inr vs'" for cfg
    using fetch_effect [OF assms(1,2) True that(1), of OK] that(2) by (auto simp: adopt_config_eq)
  note main = this
  show ?thesis
  proof (cases "status_ok (fst q)")
    case True
    then have "q = (OK, snd q)" by (cases q; cases "fst q") auto
    then show ?thesis using main [OF assms(3)] assms(4) by (metis prod.collapse)
  next
    case False
    have "response_ok []" by (simp add: response_ok_def)
    then show ?thesis
      using main [of "[]"] fetch_failed_query [OF assms(2) False, of Allocated "snd n" "snd q" vs] assms(4)
      by (metis prod.collapse)
  qed
qed

lemma worker_step_ok:
  assumes "servers_inv contents w"
  shows "step_ok contents w Other_ev (run_worker L Allocated w a i)"
proof (cases "cl_servers w a")
  case None
  then show ?thesis using assms by (simp add: run_worker_def step_ok_same)
next
  case (Some vs)
  show ?thesis
  proof (rule run_worker_cases [OF assms Some, of i])
    fix vs'
    assume r: "run_worker L Allocated w a i = w\<lparr>cl_servers := (cl_servers w)(a \<mapsto> vs')\<rparr>" "vs_inv contents vs'"
      "unfinished (tpool vs') \<subseteq># unfinished (tpool vs)" "db vs' = db vs"
    show ?thesis unfolding r(1)
      by (rule step_ok_replace [OF assms Some r(2)]) (use r(3,4) in \<open>auto simp: vs_values_def dest: mset_subset_eqD\<close>)
  next
    fix t w1 st vs1 vs'
    assume t: "t \<in># unfinished (tpool vs)" "key_ok (task_key t)"
      and p: "rpc_put (cluster_rpc L Allocated) w (task_addr t) (task_key t) (task_value t) = (w1, st)"
      and w1: "servers_inv contents w1" "cl_servers w1 a = Some vs1" "tpool vs1 = tpool vs"
      and r: "run_worker L Allocated w a i = w1\<lparr>cl_servers := (cl_servers w1)(a \<mapsto> vs')\<rparr>" "vs_inv contents vs'"
        "unfinished (tpool vs') \<subseteq># unfinished (tpool vs)"
        "contents (db vs') = (if status_ok st then (contents (db vs1))(task_key t := None) else contents (db vs1))"
    let ?k = "task_key t" and ?w = "w1\<lparr>cl_servers := (cl_servers w1)(a \<mapsto> vs')\<rparr>"
    have ok1: "step_ok contents w (Put_ev ?k (task_value t)) w1" by (rule put_step_ok [OF assms t(2) p])
    have "step_ok contents w1 (Delete_ev ?k) ?w"
      by (rule step_ok_replace [OF w1(1,2) r(2)])
        (use r(3,4) w1(3) graph_delete [of "contents (db vs1)" ?k] in \<open>auto simp: vs_values_def dest: mset_subset_eqD split: if_splits\<close>)
    then have val: "values_from contents W ?w" if "values_from contents W w" for W
    proof -
      have "(?k, task_value t) \<in> W" using that Some t(1) by (auto simp: values_from_def vs_values_def)
      then have "W \<union> written (Put_ev ?k (task_value t)) = W" by auto
      then have "values_from contents W w1" using ok1 that unfolding step_ok_def by metis
      then show ?thesis using \<open>step_ok contents w1 (Delete_ev ?k) ?w\<close> by (simp add: step_ok_def)
    qed
    have st: "stored contents ?w k" if k: "stored contents w k" for k
    proof (cases "k = ?k \<and> status_ok st")
      case False
      have "stored contents w1 k" using ok1 k by (simp add: step_ok_def)
      then show ?thesis using False r(4) by (intro replace_stored [OF _ w1(2)]) (auto split: if_splits)
    next
      case True
      from put_call [OF assms t(2) p] True obtain vsb d v where b: "cl_servers w (task_addr t) = Some vsb"
        "w1 = w\<lparr>cl_servers := (cl_servers w)(task_addr t \<mapsto> vsb\<lparr>db := d, mod_map := v\<rparr>)\<rparr>"
        "contents (db vsb) ?k = None" "contents d = (contents (db vsb))(?k \<mapsto> task_value t)"
        by (auto simp: down_def)
      obtain c vsc where c: "cl_servers w c = Some vsc" "k \<in> dom (contents (db vsc))" using k by (auto simp: stored_def)
      show ?thesis
      proof (cases "task_addr t = a")
        case False
        then have "cl_servers ?w (task_addr t) = Some (vsb\<lparr>db := d, mod_map := v\<rparr>)" using b(2) by simp
        moreover have "k \<in> dom (contents (db (vsb\<lparr>db := d, mod_map := v\<rparr>)))" using b(4) True by simp
        ultimately show ?thesis unfolding stored_def by blast
      next
        case a: True
        then have "c \<noteq> a" using b(1,3) c True by auto
        then have "cl_servers ?w c = Some vsc" using b(2) c(1) a by simp
        with c(2) show ?thesis unfolding stored_def by blast
      qed
    qed
    show ?thesis unfolding r(1) step_ok_def
      using replace_server [OF w1(1) r(2)] val st by simp
  qed
qed

lemma cluster_step_ok:
  assumes "cluster_step L Allocated w e w'" "servers_inv contents w"
  shows "step_ok contents w e w'"
  using assms(1)
proof (cases rule: cluster_step.cases)
  case (client_put key v a)
  then show ?thesis using put_step_ok [OF assms(2)] by (metis prod.collapse)
next
  case (client_delete key a v)
  then show ?thesis using delete_step_ok [OF assms(2)] by (metis prod.collapse)
next
  case (client_get key a)
  then show ?thesis using get_call assms(2) by (simp add: step_ok_same)
next
  case (tick a vs n q vs')
  then have i: "vs_inv contents vs" using assms(2) by (simp add: servers_inv_def)
  have "vs_inv contents vs'" "db vs' = db vs" using fetch_inv [OF i tick(4,5)] tick(6) by auto
  moreover have "tpool vs' = tpool vs" by (rule fetch_tpool [OF i tick(4-6)])
  ultimately show ?thesis unfolding tick(1,2)
    by (intro step_ok_replace [OF assms(2) tick(3)]) (auto simp: vs_values_def)
next
  case (move_pass a vs vs')
  then have i: "vs_inv contents vs" using assms(2) by (simp add: servers_inv_def)
  have "vs_inv contents vs'" "db vs' = db vs" using moveKeys_inv [OF i get_contents] move_pass(4) by auto
  then show ?thesis unfolding move_pass(1,2)
    using moveKeys_tasks [OF move_pass(4)]
    by (intro step_ok_replace [OF assms(2) move_pass(3)]) (auto simp: vs_values_def Map.graph_def)
next
  case (worker_run a i)
  then show ?thesis using worker_step_ok [OF assms(2)] by simp
next
  case (start_server a d sm' st cores junk vs)
  have e: "contents d = Map.empty" using keys_contents [of d] start_server(4) by (metis dom_eq_empty_conv list.set(1))
  have "status_ok st" using start_server(6) by (auto simp: VolumeServer_new_def requestJoin_def Let_def split: if_splits)
  with new_inv [of d st cores junk a] e start_server(6) have v: "vs_inv contents vs" "db vs = d" "pending vs = {#}" by auto
  have "cl_servers w' = (cl_servers w)(a \<mapsto> vs)" using start_server(2) by simp
  moreover have "vs_values contents W vs" for W using v e by (simp add: vs_values_def pending_def)
  ultimately show ?thesis
    using assms(2) start_server(3) v(1)
    by (auto simp: step_ok_def servers_inv_def values_from_def stored_def start_server(1) split: if_splits) (metis domI option.distinct(1))
next
  case (sm_request r sm' rep)
  then show ?thesis using assms(2) by (simp add: step_ok_same)
qed

lemma cluster_run_inv: "cluster_run L Allocated w es w' \<Longrightarrow> servers_inv contents w \<Longrightarrow> servers_inv contents w'"
  by (induction rule: cluster_run.induct) (auto dest: cluster_step_ok simp: step_ok_def)

lemma cluster_run_stored:
  "cluster_run L Allocated w es w' \<Longrightarrow> servers_inv contents w \<Longrightarrow> stored contents w k \<Longrightarrow> Delete_ev k \<notin> set es \<Longrightarrow>
   stored contents w' k"
proof (induction rule: cluster_run.induct)
  case (cluster_snoc w es w' e w'')
  then have "servers_inv contents w'" using cluster_run_inv by blast
  with cluster_snoc cluster_step_ok show ?case unfolding step_ok_def by fastforce
qed simp

lemma cluster_run_values:
  "cluster_run L Allocated w es w' \<Longrightarrow> servers_inv contents w \<Longrightarrow> values_from contents {} w \<Longrightarrow>
   values_from contents (\<Union>(written ` set es)) w'"
proof (induction rule: cluster_run.induct)
  case (cluster_snoc w es w' e w'')
  then have "servers_inv contents w'" using cluster_run_inv by blast
  then have "values_from contents (\<Union>(written ` set es) \<union> written e) w''"
    using cluster_snoc cluster_step_ok unfolding step_ok_def by blast
  then show ?case by (simp add: Un_commute)
qed simp

end

definition cluster_start :: "'db cluster" where
  "cluster_start = \<lparr>cl_sm = ShardMaster_init, cl_servers = Map.empty\<rparr>"

lemma servers_inv_start: "servers_inv contents cluster_start"
  by (simp add: servers_inv_def cluster_start_def)



text \<open>A run that starts a server, lets it tick and puts a key.\<close>

lemma small_run:
  obtains w a vs where "cluster_run alist_store Allocated cluster_start [Other_ev, Other_ev, Put_ev ''k'' ''v''] w"
    "cl_servers w a = Some vs" "map_of (db vs) ''k'' = Some ''v''"
proof -
  obtain vs0 vs where v: "VolumeServer_new alist_store Allocated 4 7 main_addr (Some []) (snd (SM_Join ShardMaster_init main_addr)) = Inr vs0"
    "fetchSMConfig Allocated (SM_QueryConfigNum main_sm) (SM_Query main_sm) vs0 = Inr vs"
    "my_config vs = \<lparr>shards = [mk_shard 0 1000], vs_addr = main_addr\<rparr>" "db vs = []" "vs_inv map_of vs"
    by (rule main_booted)
  let ?L = "alist_store" and ?w1 = "\<lparr>cl_sm = main_sm, cl_servers = [main_addr \<mapsto> vs0]\<rparr>"
  let ?w2 = "\<lparr>cl_sm = main_sm, cl_servers = [main_addr \<mapsto> vs]\<rparr>"
  let ?w3 = "fst (rpc_put (cluster_rpc ?L Allocated) ?w2 main_addr ''k'' ''v'')"
  have "cluster_step ?L Allocated cluster_start Other_ev
      (cluster_start\<lparr>cl_sm := main_sm, cl_servers := (cl_servers cluster_start)(main_addr \<mapsto> vs0)\<rparr>)"
    by (rule start_server [OF _ _ _ v(1)]) (simp_all add: cluster_start_def alist_store_def main_sm_def)
  then have s1: "cluster_step ?L Allocated cluster_start Other_ev ?w1" by (simp add: cluster_start_def)
  have "response_ok (snd (SM_Query main_sm))"
    using partitioned_response [OF main_partitioned] by (simp add: SM_Query_def)
  then have s2: "cluster_step ?L Allocated ?w1 Other_ev ?w2"
    using tick [of ?w1 main_addr vs0 "SM_QueryConfigNum main_sm" "SM_Query main_sm" Allocated vs ?L] v(2)
    by (simp add: SM_QueryConfigNum_def)
  have "owns vs (key_chunk ''k'')" using v(3) key_chunk_less [of "''k''"] by (simp add: owns_def in_shard_def mk_shard_def)
  then obtain d x where p: "VS_Put ?L Allocated vs ''k'' ''v'' = Inr (vs\<lparr>db := d, mod_map := x\<rparr>, OK)" "map_of d = [''k'' \<mapsto> ''v'']"
    using alist.Put_refines [OF v(5), of "''k''" "''v''"] v(4) by (auto simp: key_ok_def kv_put_def)
  have "cluster_step ?L Allocated ?w2 (Put_ev ''k'' ''v'') ?w3" by (rule client_put) (simp add: key_ok_def)
  then have "cluster_run ?L Allocated cluster_start ([] @ [Other_ev] @ [Other_ev] @ [Put_ev ''k'' ''v'']) ?w3"
    using cluster_snoc [OF cluster_snoc [OF cluster_snoc [OF cluster_refl s1] s2]] by simp
  moreover have "cl_servers ?w3 main_addr = Some (vs\<lparr>db := d, mod_map := x\<rparr>)"
    using p(1) by (simp add: cluster_rpc_def server_call_def)
  ultimately show ?thesis using that [of ?w3 main_addr "vs\<lparr>db := d, mod_map := x\<rparr>"] p(2) by simp
qed



end
