(* ===== verification/Spec2Isabelle.thy ===== *)
theory Spec2Isabelle
  imports Shard_Utils MD5_Hash Key_Hash Shard_Master CQ_Bits CQ_Block CQ_BlockIndex CQ_Implicit
    CQ_Bulk CQ_FreeList CQ_Dispatch CQ_Hash CQ_Tokens CQ_Shared CQ_Refinement CQ_Explicit CQ_Circle CQ_ExplicitQueue
    CQ_Copy CQ_ImplicitBulk CQ_ImplicitFill CQ_ImplicitSession CQ_ExplicitBulk CQ_ExplicitFill CQ_ExplicitSession LW_Semaphore Blocking_Queue Thread_Pool Volume_Server VS_Moves VS_Service
    VS_Properties VS_Concurrency Client_Model Cluster Cluster_Runs
begin

text \<open>
  DKV-Store is a distributed key-value store. A \<^bold>\<open>shard master\<close> divides the chunks 0 to 1000 among the volume servers and
  numbers its configurations; a \<^bold>\<open>volume server\<close> keeps the keys of its chunks in LevelDB, polls the shard master and sends the keys of chunks it has
  lost to their new owner; a \<^bold>\<open>client\<close> caches the configuration and sends every call to the owner of the key's chunk, which is the MD5
  digest of the key folded to 32 bits, modulo 1000. Below the servers lie a thread pool, which sends the keys, and the
  \<^verbatim>\<open>moodycamel\<close> queue that holds them. This development models these parts and the code under them down to machine words,
  blocks of memory, hash tables and atomic steps, and proves them correct.

  \<^bold>\<open>Conventions.\<close> A C++ object is a record, an enumeration or message a datatype, \<^verbatim>\<open>uint\<close>, \<^verbatim>\<open>size_t\<close> and \<^verbatim>\<open>unsigned char\<close> are words of 32, 64
  and 8 bits, a pointer is an optional index into a list of objects. What an operation may do instead of
  returning (a failed assertion, undefined behaviour, an exception, \<^verbatim>\<open>exit\<close>, a loop that never ends) is a value of
  \<open>fault\<close>, and an operation that may do so has the type \<open>fault + 'a\<close>. Where threads interleave, the state
  has a program counter per thread and every atomic access is one step; memory is sequentially consistent. A remote call, the store and the
  answers of \<^verbatim>\<open>malloc\<close> are arguments.

  \<^bold>\<open>Theories and sources.\<close>

  \<^item> \<^verbatim>\<open>DKV_Prelude\<close>: words, faults, statuses, the locale of a service.
  \<^item> \<^verbatim>\<open>Shard_Utils\<close> (\<^verbatim>\<open>src/utils/utils.h\<close>): shard intervals and \<^verbatim>\<open>SMShard::subtract\<close>, which is the difference of intervals.
  \<^item> \<^verbatim>\<open>MD5_Hash\<close> (\<^verbatim>\<open>src/utils/md5.cc\<close>, \<^verbatim>\<open>md5.h\<close>): the class \<^verbatim>\<open>MD5\<close> with its buffer, counters and unrolled rounds, equal to a
    specification written from RFC 1321, for inputs fed in one or several parts.
  \<^item> \<^verbatim>\<open>Key_Hash\<close> (\<^verbatim>\<open>get_hash_uint\<close> of \<^verbatim>\<open>utils.h\<close>): every key has a chunk, and the digest is a string that \<^verbatim>\<open>stoul\<close> accepts.
  \<^item> \<^verbatim>\<open>Shard_Master\<close> (\<^verbatim>\<open>src/server/shard_master/\<close>): the five handlers and \<^verbatim>\<open>redistributeChunks\<close>. The chunks stay partitioned through
    every session; \<^verbatim>\<open>Move\<close> refines the update of the owner map; the handlers split at their unlocked points show the races.
  \<^item> \<^verbatim>\<open>Volume_Server\<close>, \<^verbatim>\<open>VS_Moves\<close>, \<^verbatim>\<open>VS_Service\<close>, \<^verbatim>\<open>VS_Properties\<close>, \<^verbatim>\<open>VS_Concurrency\<close> (\<^verbatim>\<open>src/server/volume_server/\<close>): the constructor, Get, Put, Delete,
    \<^verbatim>\<open>fetchSMConfig\<close>, \<^verbatim>\<open>calcNegativeDiff\<close>, \<^verbatim>\<open>updateToMove\<close>, \<^verbatim>\<open>moveKeys\<close> and its tasks; what the moves do; the contract of LevelDB as
    a locale; the invariant of the books (\<^verbatim>\<open>mod_map\<close>, \<^verbatim>\<open>to_move\<close>, \<^verbatim>\<open>move_queue\<close>), the refinement of a map, and where the code departs from its meaning;
    handlers and ticks that interleave.
  \<^item> \<^verbatim>\<open>Client_Model\<close> (\<^verbatim>\<open>src/client/client.cc\<close>): the cache, the routing, the calls and \<^verbatim>\<open>main\<close>.
  \<^item> \<^verbatim>\<open>Cluster\<close>, \<^verbatim>\<open>Cluster_Runs\<close>: the parts together. The remote calls of one part run the handlers of another. On a settled cluster clients see
    one map; in every run, with configurations that change and keys on their way, no stored key is lost and every value was put by a client.
  \<^item> \<^verbatim>\<open>Thread_Pool\<close> (\<^verbatim>\<open>src/utils/thread-pool/thread_pool.hpp\<close>): pushing, workers, pausing, waiting, \<^verbatim>\<open>reset\<close>, the destructor and the blocks of
    \<^verbatim>\<open>parallelize_loop\<close>, as a step relation.
  \<^item> The queue (\<^verbatim>\<open>src/utils/concurrentqueue-1.0.3/concurrentqueue.h\<close>). \<^verbatim>\<open>CQ_Dispatch\<close>: producers with streams of elements, scoring and dequeuing,
    which the volume server builds on. \<^verbatim>\<open>CQ_Tokens\<close>: producer and consumer tokens, the rotation of consumers, bulk dequeues. Below the streams: \<^verbatim>\<open>CQ_Bits\<close> (thread hashing,
    circular comparison, powers of two), \<^verbatim>\<open>CQ_Block\<close> (blocks, their trackers of dequeued elements, the pool of blocks), \<^verbatim>\<open>CQ_BlockIndex\<close> (the ring that finds the block of an index),
    \<^verbatim>\<open>CQ_Implicit\<close>, \<^verbatim>\<open>CQ_Bulk\<close>, \<^verbatim>\<open>CQ_ImplicitBulk\<close>, \<^verbatim>\<open>CQ_ImplicitFill\<close> and \<^verbatim>\<open>CQ_ImplicitSession\<close> (the implicit producer: enqueue, dequeue, their bulk forms, destructor), \<^verbatim>\<open>CQ_Copy\<close> (what the bulk enqueues of
    both producers share, with the locale \<open>block_filler\<close>), \<^verbatim>\<open>CQ_Hash\<close> (the hash tables from threads to producers).
    \<^verbatim>\<open>CQ_Shared\<close> and \<^verbatim>\<open>CQ_Refinement\<close> put these together and show that the whole refines the streams. \<^verbatim>\<open>CQ_Explicit\<close>, \<^verbatim>\<open>CQ_Circle\<close> and
    \<^verbatim>\<open>CQ_ExplicitQueue\<close>: the explicit producer behind a producer token, its circle of blocks and its ring of index entries, from the constructor to the destructor. \<^verbatim>\<open>CQ_ExplicitBulk\<close>, \<^verbatim>\<open>CQ_ExplicitFill\<close> and
    \<^verbatim>\<open>CQ_ExplicitSession\<close>: its bulk operations, which refine those of a list while memory lasts, and what a bulk enqueue that fails leaves behind. \<^verbatim>\<open>CQ_FreeList\<close>: the lock-free free list
    under contention, one step per atomic access.
  \<^item> \<^verbatim>\<open>LW_Semaphore\<close> (\<^verbatim>\<open>lightweightsemaphore.h\<close>): the semaphore with its spinning, partial waits, time-outs and repairs of the count, one step per atomic access
    or system call. \<^verbatim>\<open>Blocking_Queue\<close> (\<^verbatim>\<open>blockingconcurrentqueue.h\<close>): the queue with the semaphore, in every interleaving.

  \<^bold>\<open>Interfaces.\<close> \<open>service\<close> (an invariant that every request keeps; the shard master and the volume server), \<open>leveldb_store\<close> and \<open>reliable_leveldb\<close> (what the documentation of
  LevelDB promises), \<open>bag_consumer\<close> and \<open>bag_queue\<close> (a queue as a bag; the streams, with and without tokens), \<open>bounded_subqueue\<close> and its special case \<open>subqueue\<close> (first in, first out, for so many operations or for any number; the explicit and the implicit
  producer), \<open>block_source\<close> (a pool that hands a block out once), \<open>implementation\<close> (steps that refine a specification; the assembled queue), \<open>client_map\<close> (remote calls that act on one map; the cluster). Each is
  interpreted on the definitions of the model.

  \<^bold>\<open>Bounds and fuel.\<close> Where a loop of the source has no structural measure, the function has fuel and the theorems say that it is
  enough: 32 for the elements of a block, one more than the number of elements for the blocks of a bulk dequeue or enqueue, the number of blocks needed for preparing them, the number of elements for the
  destructor of the implicit producer, the number of blocks for the circle of the explicit one, the capacity for the copying of a block index, the number of blocks for a chain, the number of producers for the walk of a consumer with a token and its square for the
  bulk walk. The probing and growing loops of the hash tables and the loops over \<^verbatim>\<open>uint\<close> chunks are partial functions, whose result \<open>None\<close> is a loop that
  does not end; the theorems say when they end. The semaphore's count is an integer with proved bounds.

  \<^bold>\<open>Assumptions.\<close> The theorems on the blocks, the block index, the hash tables and the assembled queue are about operations that run one after the other; the free list, the semaphore and the
  blocking queue are about interleaved steps, where an operation of the inner queue is one step. Moving an element does not throw (the queue holds \<^verbatim>\<open>std::string\<close>); copying may. Reading a \<^verbatim>\<open>std::vector\<close> past its size is
  undefined, or reads its capacity, as a parameter says. The header defines no \<^verbatim>\<open>MOODYCAMEL_CPP11_THREAD_LOCAL_SUPPORTED\<close> on the platforms of the program, so that producers of ended threads are not
  reused by \<^verbatim>\<open>CQ_Hash\<close> and \<^verbatim>\<open>CQ_Shared\<close>.

  \<^bold>\<open>Not modelled.\<close> Moving and swapping of queues; the part of the destructor that
  frees memory. The wrappers for semaphores of Windows and Mach, which are not compiled. \<^verbatim>\<open>submit\<close>, \<^verbatim>\<open>synced_stream\<close> and \<^verbatim>\<open>timer\<close> of the thread pool, which nothing calls. gRPC and the generated
  code of the protocol buffers, LevelDB inside its contract, the main programs of the servers, which only start a gRPC server, and
  tests, benchmarks and scripts.
\<close>

end
